(* ===== verification/Prelude.thy ===== *)
theory Prelude
  imports Main "HOL-Library.Word" "HOL-Library.Monad_Syntax"
begin

text \<open>
  Shared vocabulary of the development: the machine integers of the C sources, C array
  reads and writes with their bounds written out, the option monad in which every C
  function that can abort or misuse memory is modelled, and the generic lemmas the
  component theories rely on.

  The value \<open>None\<close> of an operation stands for an execution that has no defined C
  behaviour: a failed \<open>assert\<close>, a null or dangling pointer dereference, or an array
  access out of bounds.
\<close>

unbundle bit_operations_syntax

section \<open>Machine integers\<close>

type_synonym u8 = "8 word"
type_synonym u16 = "16 word"
type_synonym u32 = "32 word"

named_theorems c_mem \<open>evaluation of C memory accesses\<close>

lemma unat_plus_one_less: "(a :: 'a :: len word) < b \<Longrightarrow> unat (a + 1) = Suc (unat a)"
  by unat_arith

lemma unat_of_nat_u8: "n < 256 \<Longrightarrow> unat (word_of_nat n :: u8) = n"
  by (simp add: unat_of_nat take_bit_nat_eq_self)

lemma word_of_nat_inverse_u8: "word_of_nat (unat w) = (w :: u8)"
  by simp

section \<open>C arrays\<close>

definition rd :: "'a list \<Rightarrow> nat \<Rightarrow> 'a option" where
  "rd xs i = (if i < length xs then Some (xs ! i) else None)"

definition wr :: "'a list \<Rightarrow> nat \<Rightarrow> 'a \<Rightarrow> 'a list option" where
  "wr xs i v = (if i < length xs then Some (xs[i := v]) else None)"

lemma rd_Some_iff: "rd xs i = Some v \<longleftrightarrow> i < length xs \<and> xs ! i = v"
  by (auto simp: rd_def)

lemma rd_in [simp, c_mem]: "i < length xs \<Longrightarrow> rd xs i = Some (xs ! i)"
  by (simp add: rd_def)

lemma rd_out [simp, c_mem]: "length xs \<le> i \<Longrightarrow> rd xs i = None"
  by (simp add: rd_def)

lemma wr_in [simp, c_mem]: "i < length xs \<Longrightarrow> wr xs i v = Some (xs[i := v])"
  by (simp add: wr_def)

lemma wr_out [simp, c_mem]: "length xs \<le> i \<Longrightarrow> wr xs i v = None"
  by (simp add: wr_def)

lemma wr_Some_iff: "wr xs i v = Some ys \<longleftrightarrow> i < length xs \<and> ys = xs[i := v]"
  by (auto simp: wr_def)

text \<open>
  A congruence rule for evaluation: the continuation of a bind is rewritten only once its
  argument is known, so that unfolding a recursive loop does not run ahead of its guard.
\<close>

lemma bind_weak_cong: "x = y \<Longrightarrow> Option.bind x f = Option.bind y f"
  by simp

section \<open>Bytes as bit strings, most significant bit first\<close>

definition byte_bits :: "u8 \<Rightarrow> bool list" where
  "byte_bits b = map (\<lambda>i. bit b (7 - i)) [0..<8]"

definition bits_of :: "u8 list \<Rightarrow> bool list" where
  "bits_of bs = concat (map byte_bits bs)"

lemma length_byte_bits [simp]: "length (byte_bits b) = 8"
  by (simp add: byte_bits_def)

lemma byte_bits_nth: "i < 8 \<Longrightarrow> byte_bits b ! i = bit b (7 - i)"
  by (simp add: byte_bits_def)

lemma bits_of_Nil [simp]: "bits_of [] = []"
  by (simp add: bits_of_def)

lemma bits_of_Cons [simp]: "bits_of (b # bs) = byte_bits b @ bits_of bs"
  by (simp add: bits_of_def)

lemma bits_of_append [simp]: "bits_of (as @ bs) = bits_of as @ bits_of bs"
  by (simp add: bits_of_def)

lemma length_bits_of [simp]: "length (bits_of bs) = 8 * length bs"
  by (induction bs) auto

lemma bits_of_nth:
  "i < 8 * length bs \<Longrightarrow> bits_of bs ! i = bit (bs ! (i div 8)) (7 - i mod 8)"
proof (induction bs arbitrary: i)
  case Nil
  then show ?case by simp
next
  case (Cons b bs)
  show ?case
  proof (cases "i < 8")
    case True
    then show ?thesis by (simp add: nth_append byte_bits_nth)
  next
    case False
    then have "i - 8 < 8 * length bs" and eq: "i div 8 = Suc ((i - 8) div 8)" "i mod 8 = (i - 8) mod 8"
      using Cons.prems by (auto simp: le_div_geq le_mod_geq not_less)
    with Cons.IH [of "i - 8"] False show ?thesis
      by (simp add: nth_append)
  qed
qed

lemma bits_of_take: "take (8 * n) (bits_of bs) = bits_of (take n bs)"
proof (induction bs arbitrary: n)
  case Nil
  then show ?case by simp
next
  case (Cons b bs)
  then show ?case by (cases n) auto
qed

lemma byte_eqI: "(\<And>i. i < 8 \<Longrightarrow> bit a i = bit b i) \<Longrightarrow> a = (b :: u8)"
  by (rule bit_word_eqI) simp

lemma byte_bits_inj [simp]: "byte_bits a = byte_bits b \<longleftrightarrow> a = b"
proof
  assume eq: "byte_bits a = byte_bits b"
  show "a = b"
  proof (rule byte_eqI)
    fix i :: nat
    assume "i < 8"
    with arg_cong [OF eq, of "\<lambda>xs. xs ! (7 - i)"] show "bit a i = bit b i"
      by (simp add: byte_bits_nth)
  qed
qed simp

lemma bits_of_inj: "length as = length bs \<Longrightarrow> bits_of as = bits_of bs \<longleftrightarrow> as = bs"
  by (induction as bs rule: list_induct2) auto

lemma div8_less: "len \<le> 8 * n \<Longrightarrow> len mod 8 \<noteq> 0 \<Longrightarrow> len div 8 < (n :: nat)"
  by presburger

text \<open>Two lists agree on their first \<open>n\<close> elements.\<close>

lemma take_eq_iff_nth:
  "n \<le> length xs \<Longrightarrow> n \<le> length ys \<Longrightarrow> take n xs = take n ys \<longleftrightarrow> (\<forall>i<n. xs ! i = ys ! i)"
  by (auto simp: list_eq_iff_nth_eq)

end
