(* ===== verification/Lib_PQueue.thy ===== *)
theory Lib_PQueue
  imports Prelude "HOL-Library.Multiset"
begin

text \<open>
  The array heap of \<open>lib/pqueue.c\<close>, the candidate list of the shortest-path computation.
  The stored pointers are an arbitrary type with a null value; the comparison function is
  a field of the queue, as in the source. The optional position callback \<open>update\<close> is
  modelled by the list of its calls. Sizes and indices are natural numbers: an \<open>int\<close>
  size cannot overflow before the array exhausts memory. Whether \<open>calloc\<close> succeeds when
  the array has to grow is an argument.
\<close>

section \<open>Data\<close>

record 'a pqueue =
  pq_array :: "'a list"
  pq_array_size :: nat
  pq_size :: nat
  pq_cmp :: "'a \<Rightarrow> 'a \<Rightarrow> int"
  pq_update :: bool
  pq_calls :: "('a \<times> nat) list"

definition PQUEUE_INIT_ARRAYSIZE :: nat where "PQUEUE_INIT_ARRAYSIZE = 32"

definition PARENT_OF :: "nat \<Rightarrow> nat" where "PARENT_OF x = (x - 1) div 2"
definition LEFT_OF :: "nat \<Rightarrow> nat" where "LEFT_OF x = 2 * x + 1"
definition RIGHT_OF :: "nat \<Rightarrow> nat" where "RIGHT_OF x = 2 * x + 2"
definition HAVE_CHILD :: "nat \<Rightarrow> 'a pqueue \<Rightarrow> bool" where "HAVE_CHILD x q \<longleftrightarrow> x < pq_size q div 2"

section \<open>Operations\<close>

text \<open>Store into a slot and report the new position to the callback.\<close>

definition pq_put :: "nat \<Rightarrow> 'a \<Rightarrow> 'a pqueue \<Rightarrow> 'a pqueue option" where
  "pq_put index x q =
     do {
       arr \<leftarrow> wr (pq_array q) index x;
       Some (q\<lparr>pq_array := arr, pq_calls := (if pq_update q then pq_calls q @ [(x, index)] else pq_calls q)\<rparr>)
     }"

function trickle_up_loop :: "'a \<Rightarrow> nat \<Rightarrow> 'a pqueue \<Rightarrow> 'a pqueue option" where
  "trickle_up_loop tmp index q =
     (if index > 0
      then do {
             par \<leftarrow> rd (pq_array q) (PARENT_OF index);
             if pq_cmp q tmp par < 0
             then do { q \<leftarrow> pq_put index par q; trickle_up_loop tmp (PARENT_OF index) q }
             else pq_put index tmp q
           }
      else pq_put index tmp q)"
  by pat_completeness auto
termination
  by (relation "measure (\<lambda>(tmp, index, q). index)") (auto simp: PARENT_OF_def)

declare trickle_up_loop.simps [simp del]

definition trickle_up :: "nat \<Rightarrow> 'a pqueue \<Rightarrow> 'a pqueue option" where
  "trickle_up index q = do { tmp \<leftarrow> rd (pq_array q) index; trickle_up_loop tmp index q }"

text \<open>The child that may move up: the right one if it exists and is preferred.\<close>

definition pq_which :: "nat \<Rightarrow> 'a pqueue \<Rightarrow> nat option" where
  "pq_which index q =
     (if RIGHT_OF index < pq_size q
      then do {
             l \<leftarrow> rd (pq_array q) (LEFT_OF index);
             r \<leftarrow> rd (pq_array q) (RIGHT_OF index);
             Some (if pq_cmp q l r > 0 then RIGHT_OF index else LEFT_OF index)
           }
      else Some (LEFT_OF index))"

lemma pq_which_greater: "pq_which index q = Some w \<Longrightarrow> index < w"
  by (auto simp: pq_which_def LEFT_OF_def RIGHT_OF_def split: if_splits bind_splits)

lemma pq_put_size [simp]: "pq_put index x q = Some q' \<Longrightarrow> pq_size q' = pq_size q"
  by (auto simp: pq_put_def split: bind_splits)

function trickle_down_loop :: "'a \<Rightarrow> nat \<Rightarrow> 'a pqueue \<Rightarrow> 'a pqueue option" where
  "trickle_down_loop tmp index q =
     (if HAVE_CHILD index q
      then do {
             which \<leftarrow> pq_which index q;
             w \<leftarrow> rd (pq_array q) which;
             if pq_cmp q w tmp > 0 then pq_put index tmp q
             else do { q \<leftarrow> pq_put index w q; trickle_down_loop tmp which q }
           }
      else pq_put index tmp q)"
  by pat_completeness auto
termination
proof (relation "measure (\<lambda>(tmp, index, q). pq_size q - index)")
  fix tmp :: 'a and index which w x2a and q :: "'a pqueue"
  assume "HAVE_CHILD index q" and "pq_which index q = Some which" and "pq_put index w q = Some x2a"
  then show "((tmp, which, x2a), (tmp, index, q)) \<in> measure (\<lambda>(tmp, index, q). pq_size q - index)"
    using pq_which_greater [of index q which] by (auto simp: HAVE_CHILD_def)
qed simp

declare trickle_down_loop.simps [simp del]

definition trickle_down :: "nat \<Rightarrow> 'a pqueue \<Rightarrow> 'a pqueue option" where
  "trickle_down index q = do { tmp \<leftarrow> rd (pq_array q) index; trickle_down_loop tmp index q }"

definition pqueue_create :: "'a \<Rightarrow> ('a \<Rightarrow> 'a \<Rightarrow> int) \<Rightarrow> 'a pqueue" where
  "pqueue_create nul cmp = \<lparr>pq_array = replicate PQUEUE_INIT_ARRAYSIZE nul,
     pq_array_size = PQUEUE_INIT_ARRAYSIZE, pq_size = 0, pq_cmp = cmp, pq_update = False, pq_calls = []\<rparr>"

definition pqueue_expand :: "'a \<Rightarrow> 'a pqueue \<Rightarrow> 'a pqueue" where
  "pqueue_expand nul q = q\<lparr>pq_array := take (pq_array_size q) (pq_array q) @ replicate (pq_array_size q) nul,
     pq_array_size := pq_array_size q * 2\<rparr>"

definition pqueue_enqueue :: "'a \<Rightarrow> bool \<Rightarrow> 'a \<Rightarrow> 'a pqueue \<Rightarrow> 'a pqueue option" where
  "pqueue_enqueue nul alloc_ok data q =
     (if pq_size q + 2 \<ge> pq_array_size q \<and> \<not> alloc_ok then Some q
      else do {
             let q = (if pq_size q + 2 \<ge> pq_array_size q then pqueue_expand nul q else q);
             q \<leftarrow> pq_put (pq_size q) data q;
             q \<leftarrow> trickle_up (pq_size q) q;
             Some (q\<lparr>pq_size := pq_size q + 1\<rparr>)
           })"

definition pqueue_dequeue :: "'a pqueue \<Rightarrow> ('a \<times> 'a pqueue) option" where
  "pqueue_dequeue q =
     do {
       data \<leftarrow> rd (pq_array q) 0;
       if pq_size q = 0 then None
       else do {
              let q = q\<lparr>pq_size := pq_size q - 1\<rparr>;
              lst \<leftarrow> rd (pq_array q) (pq_size q);
              arr \<leftarrow> wr (pq_array q) 0 lst;
              q \<leftarrow> trickle_down 0 (q\<lparr>pq_array := arr\<rparr>);
              Some (data, q)
            }
     }"

section \<open>The heap order\<close>

definition wf_pqueue :: "'a pqueue \<Rightarrow> bool" where
  "wf_pqueue q \<longleftrightarrow> length (pq_array q) = pq_array_size q \<and> pq_size q + 1 < pq_array_size q"

definition pq_elems :: "'a pqueue \<Rightarrow> 'a multiset" where
  "pq_elems q = mset (take (pq_size q) (pq_array q))"

definition heap_ordered :: "('a \<Rightarrow> 'a \<Rightarrow> int) \<Rightarrow> 'a list \<Rightarrow> nat \<Rightarrow> bool" where
  "heap_ordered cmp arr n \<longleftrightarrow> (\<forall>i. 0 < i \<and> i < n \<longrightarrow> cmp (arr ! PARENT_OF i) (arr ! i) \<le> 0)"

definition pq_invar :: "'a pqueue \<Rightarrow> bool" where
  "pq_invar q \<longleftrightarrow> wf_pqueue q \<and> heap_ordered (pq_cmp q) (pq_array q) (pq_size q)"

text \<open>What the comparison function of a queue must satisfy.\<close>

locale cmp_order =
  fixes cmp :: "'a \<Rightarrow> 'a \<Rightarrow> int"
  assumes cmp_flip: "0 \<le> cmp x y \<Longrightarrow> cmp y x \<le> 0"
    and cmp_trans: "cmp x y \<le> 0 \<Longrightarrow> cmp y z \<le> 0 \<Longrightarrow> cmp x z \<le> 0"
begin

lemma cmp_refl: "cmp x x \<le> 0"
  using cmp_flip [of x x] by linarith

lemma heap_min:
  assumes "heap_ordered cmp arr n" and "i < n"
  shows "cmp (arr ! 0) (arr ! i) \<le> 0"
  using assms(2)
proof (induction i rule: less_induct)
  case (less i)
  show ?case
  proof (cases "i = 0")
    case True
    then show ?thesis by (simp add: cmp_refl)
  next
    case False
    then have "PARENT_OF i < i" by (simp add: PARENT_OF_def)
    with less have "cmp (arr ! 0) (arr ! PARENT_OF i) \<le> 0" by simp
    moreover have "cmp (arr ! PARENT_OF i) (arr ! i) \<le> 0"
      using assms(1) False less.prems by (simp add: heap_ordered_def)
    ultimately show ?thesis by (rule cmp_trans)
  qed
qed

end

section \<open>Trickling\<close>

text \<open>
  Both loops carry a hole: the element being moved is kept aside, and the array with that
  element in the hole is a permutation of the original one.
\<close>

definition up_inv :: "('a \<Rightarrow> 'a \<Rightarrow> int) \<Rightarrow> 'a list \<Rightarrow> nat \<Rightarrow> nat \<Rightarrow> bool" where
  "up_inv cmp V n index \<longleftrightarrow>
     (\<forall>i. 0 < i \<and> i < n \<and> i \<noteq> index \<longrightarrow> cmp (V ! PARENT_OF i) (V ! i) \<le> 0)
     \<and> (\<forall>i. 0 < i \<and> i < n \<and> PARENT_OF i = index \<and> 0 < index \<longrightarrow> cmp (V ! PARENT_OF index) (V ! i) \<le> 0)"

definition down_inv :: "('a \<Rightarrow> 'a \<Rightarrow> int) \<Rightarrow> 'a list \<Rightarrow> nat \<Rightarrow> nat \<Rightarrow> bool" where
  "down_inv cmp V n index \<longleftrightarrow>
     (\<forall>i. 0 < i \<and> i < n \<and> PARENT_OF i \<noteq> index \<longrightarrow> cmp (V ! PARENT_OF i) (V ! i) \<le> 0)
     \<and> (\<forall>i. 0 < i \<and> i < n \<and> PARENT_OF i = index \<and> 0 < index \<longrightarrow> cmp (V ! PARENT_OF index) (V ! i) \<le> 0)"

definition swap_at :: "nat \<Rightarrow> nat \<Rightarrow> 'a list \<Rightarrow> 'a list" where
  "swap_at i j xs = xs[i := xs ! j, j := xs ! i]"

lemma swap_at_nth: "i < length xs \<Longrightarrow> j < length xs \<Longrightarrow>
    swap_at i j xs ! k = (if k = j then xs ! i else if k = i then xs ! j else xs ! k)"
  by (auto simp: swap_at_def nth_list_update)

lemma swap_at_mset:
  assumes "i < n" and "j < n" and "n \<le> length xs"
  shows "mset (take n (swap_at i j xs)) = mset (take n xs)"
proof -
  have "take n (swap_at i j xs) = (take n xs)[i := take n xs ! j, j := take n xs ! i]"
    using assms by (simp add: swap_at_def take_update_swap)
  also have "mset \<dots> = mset (take n xs)" using assms by (intro mset_swap) simp_all
  finally show ?thesis .
qed

lemma PARENT_OF_less: "0 < i \<Longrightarrow> PARENT_OF i < i"
  by (simp add: PARENT_OF_def)

lemma PARENT_OF_eq_iff: "0 < i \<Longrightarrow> PARENT_OF i = x \<longleftrightarrow> i = LEFT_OF x \<or> i = RIGHT_OF x"
  unfolding PARENT_OF_def LEFT_OF_def RIGHT_OF_def by presburger

lemma pq_put_in: "index < length (pq_array q) \<Longrightarrow> pq_put index x q = Some (q\<lparr>pq_array := (pq_array q)[index := x],
    pq_calls := (if pq_update q then pq_calls q @ [(x, index)] else pq_calls q)\<rparr>)"
  by (simp add: pq_put_def)

lemma take_first: "0 < length xs \<Longrightarrow> take (Suc n) xs = xs ! 0 # take n (drop 1 xs)"
  by (cases xs) auto

lemma mset_take_last:
  assumes "n < length xs"
  shows "mset (take n (xs[0 := xs ! n])) = mset (take n (drop 1 xs))"
proof (cases n)
  case (Suc m)
  with assms obtain y ys where xs: "xs = y # ys" "m < length ys" by (cases xs) auto
  with Suc show ?thesis by (simp add: take_Suc_conv_app_nth)
qed simp

text \<open>Everything of a queue but the order of its first \<open>n\<close> slots and the callback log.\<close>

definition permuted :: "nat \<Rightarrow> 'a list \<Rightarrow> 'a pqueue \<Rightarrow> 'a pqueue \<Rightarrow> bool" where
  "permuted n V q q' \<longleftrightarrow> length (pq_array q') = length V \<and> mset (take n (pq_array q')) = mset (take n V)
     \<and> pq_array_size q' = pq_array_size q \<and> pq_size q' = pq_size q \<and> pq_cmp q' = pq_cmp q"

context cmp_order
begin

lemma up_inv_step:
  assumes "up_inv cmp V n index" and "0 < index" and "index < n" and "n \<le> length V"
    and "cmp (V ! index) (V ! PARENT_OF index) < 0"
  shows "up_inv cmp (swap_at index (PARENT_OF index) V) n (PARENT_OF index)"
proof -
  let ?p = "PARENT_OF index" and ?W = "swap_at index (PARENT_OF index) V"
  have p: "?p < index" using PARENT_OF_less [OF assms(2)] .
  have W: "?W ! k = (if k = ?p then V ! index else if k = index then V ! ?p else V ! k)" for k
    using p assms(3,4) by (simp add: swap_at_nth)
  have 1: "cmp (V ! PARENT_OF i) (V ! i) \<le> 0" if "0 < i" "i < n" "i \<noteq> index" for i
    using assms(1) that by (simp add: up_inv_def)
  have 2: "cmp (V ! ?p) (V ! i) \<le> 0" if "0 < i" "i < n" "PARENT_OF i = index" for i
    using assms(1,2) that by (simp add: up_inv_def)
  have le: "cmp (V ! index) (V ! ?p) \<le> 0" using assms(5) by simp
  have "cmp (?W ! PARENT_OF i) (?W ! i) \<le> 0" if i: "0 < i" "i < n" "i \<noteq> ?p" for i
  proof -
    have pi: "PARENT_OF i < i" using PARENT_OF_less [OF i(1)] .
    consider "i = index" | "i \<noteq> index" "PARENT_OF i = index" | "i \<noteq> index" "PARENT_OF i = ?p" "PARENT_OF i \<noteq> index"
      | "i \<noteq> index" "PARENT_OF i \<noteq> index" "PARENT_OF i \<noteq> ?p" by blast
    then show ?thesis
    proof cases
      case 3
      then show ?thesis using W i cmp_trans [OF le] 1 [of i] by simp
    qed (use W i p le 1 2 in auto)
  qed
  moreover have "cmp (?W ! PARENT_OF ?p) (?W ! i) \<le> 0" if i: "0 < i" "i < n" "PARENT_OF i = ?p" "0 < ?p" for i
  proof -
    have pp: "PARENT_OF ?p < ?p" using PARENT_OF_less [OF i(4)] .
    have up: "cmp (V ! PARENT_OF ?p) (V ! ?p) \<le> 0" using 1 [of ?p] i(4) p assms(3) by simp
    have "i \<noteq> ?p" using PARENT_OF_less [OF i(1)] i(3) by auto
    with up show ?thesis using W pp p i cmp_trans [OF up] 1 [of i] by auto
  qed
  ultimately show ?thesis by (simp add: up_inv_def)
qed

lemma trickle_up_loop_heap:
  assumes "pq_cmp q = cmp" and "index < n" and "n \<le> length (pq_array q)"
    and "up_inv cmp ((pq_array q)[index := tmp]) n index"
  shows "\<exists>q'. trickle_up_loop tmp index q = Some q' \<and> heap_ordered cmp (pq_array q') n
    \<and> permuted n ((pq_array q)[index := tmp]) q q'"
  using assms
proof (induction index arbitrary: q rule: less_induct)
  case (less index)
  let ?V = "(pq_array q)[index := tmp]" and ?p = "PARENT_OF index"
  have idx: "index < length (pq_array q)" using less.prems(2,3) by simp
  have fin: "\<exists>q'. pq_put index tmp q = Some q' \<and> heap_ordered cmp (pq_array q') n \<and> permuted n ?V q q'"
    if "heap_ordered cmp ?V n" using that idx by (simp add: pq_put_in permuted_def)
  show ?case
  proof (cases "index = 0")
    case True
    then have "heap_ordered cmp ?V n" using less.prems(4) by (simp add: up_inv_def heap_ordered_def)
    with fin True show ?thesis by (subst trickle_up_loop.simps) simp
  next
    case False
    then have p: "?p < index" by (simp add: PARENT_OF_less)
    with idx have rd: "rd (pq_array q) ?p = Some (pq_array q ! ?p)" by simp
    show ?thesis
    proof (cases "cmp tmp (pq_array q ! ?p) < 0")
      case True
      let ?q1 = "q\<lparr>pq_array := (pq_array q)[index := pq_array q ! ?p],
          pq_calls := (if pq_update q then pq_calls q @ [(pq_array q ! ?p, index)] else pq_calls q)\<rparr>"
      have V1: "(pq_array ?q1)[?p := tmp] = swap_at index ?p ?V"
        using p idx by (simp add: swap_at_def list_update_swap)
      have "cmp (?V ! index) (?V ! ?p) < 0" using True p idx by simp
      from up_inv_step [OF less.prems(4) _ less.prems(2) _ this] False less.prems(3)
      have inv: "up_inv cmp ((pq_array ?q1)[?p := tmp]) n ?p" unfolding V1 by simp
      from less.IH [OF p, of ?q1] inv less.prems p obtain q' where
        q': "trickle_up_loop tmp ?p ?q1 = Some q'" "heap_ordered cmp (pq_array q') n"
          "permuted n ((pq_array ?q1)[?p := tmp]) ?q1 q'" by auto
      have "permuted n ?V q q'"
        using q'(3) swap_at_mset [of index n ?p ?V] p less.prems(2,3) unfolding V1 permuted_def
        by (simp add: swap_at_def)
      moreover have "trickle_up_loop tmp index q = Some q'"
        using False rd True q'(1) less.prems(1) idx by (subst trickle_up_loop.simps) (simp add: pq_put_in)
      ultimately show ?thesis using q'(2) by blast
    next
      case stop: False
      then have "cmp (?V ! ?p) (?V ! index) \<le> 0" using cmp_flip p idx by simp
      then have "heap_ordered cmp ?V n" using less.prems(4) unfolding up_inv_def heap_ordered_def by metis
      with fin show ?thesis
        using False rd stop less.prems(1) by (subst trickle_up_loop.simps) simp
    qed
  qed
qed

lemma pq_which_min:
  assumes "pq_cmp q = cmp" and "HAVE_CHILD index q" and "pq_size q \<le> length (pq_array q)"
  shows "\<exists>w. pq_which index q = Some w \<and> PARENT_OF w = index \<and> index < w \<and> w < pq_size q
    \<and> (\<forall>i. 0 < i \<and> i < pq_size q \<and> PARENT_OF i = index \<longrightarrow> cmp (pq_array q ! w) (pq_array q ! i) \<le> 0)"
proof -
  have l: "LEFT_OF index < pq_size q" using assms(2) by (auto simp: HAVE_CHILD_def LEFT_OF_def)
  let ?w = "if RIGHT_OF index < pq_size q \<and> cmp (pq_array q ! LEFT_OF index) (pq_array q ! RIGHT_OF index) > 0
     then RIGHT_OF index else LEFT_OF index"
  have "pq_which index q = Some ?w" using l assms(1,3) by (simp add: pq_which_def)
  moreover have "PARENT_OF ?w = index \<and> index < ?w \<and> ?w < pq_size q"
    using l by (auto simp: PARENT_OF_def LEFT_OF_def RIGHT_OF_def)
  moreover have "cmp (pq_array q ! ?w) (pq_array q ! i) \<le> 0" if "0 < i" "i < pq_size q" "PARENT_OF i = index" for i
    using that PARENT_OF_eq_iff [of i index] cmp_refl cmp_flip by (auto simp: not_less)
  ultimately show ?thesis by blast
qed

lemma down_inv_step:
  assumes "down_inv cmp V n index" and "PARENT_OF w = index" and "index < w" and "w < n" and "n \<le> length V"
    and "cmp (V ! w) (V ! index) \<le> 0"
    and "\<And>i. 0 < i \<Longrightarrow> i < n \<Longrightarrow> PARENT_OF i = index \<Longrightarrow> cmp (V ! w) (V ! i) \<le> 0"
  shows "down_inv cmp (swap_at index w V) n w"
proof -
  let ?W = "swap_at index w V"
  have W: "?W ! k = (if k = w then V ! index else if k = index then V ! w else V ! k)" for k
    using assms(3-5) by (simp add: swap_at_nth)
  have 1: "cmp (V ! PARENT_OF i) (V ! i) \<le> 0" if "0 < i" "i < n" "PARENT_OF i \<noteq> index" for i
    using assms(1) that by (simp add: down_inv_def)
  have 2: "cmp (V ! PARENT_OF index) (V ! i) \<le> 0" if "0 < i" "i < n" "PARENT_OF i = index" "0 < index" for i
    using assms(1) that by (simp add: down_inv_def)
  have "cmp (?W ! PARENT_OF i) (?W ! i) \<le> 0" if i: "0 < i" "i < n" "PARENT_OF i \<noteq> w" for i
  proof -
    have pi: "PARENT_OF i < i" using PARENT_OF_less [OF i(1)] .
    consider "i = w" | "i \<noteq> w" "PARENT_OF i = index" | "i = index" | "i \<noteq> w" "i \<noteq> index" "PARENT_OF i \<noteq> index" by blast
    then show ?thesis
    proof cases
      case 3
      then show ?thesis using W pi assms(3) 2 [of w] i assms(2,4) by auto
    next
      case 1
      then show ?thesis using W assms(2,3,6) by simp
    next
      case 2
      then show ?thesis using W assms(2,3) assms(7) [OF i(1,2)] pi by simp
    next
      case 4
      then show ?thesis using W i(3) 1 [OF i(1,2)] by simp
    qed
  qed
  moreover have "cmp (?W ! PARENT_OF w) (?W ! i) \<le> 0" if i: "0 < i" "i < n" "PARENT_OF i = w" for i
  proof -
    have "w < i" using PARENT_OF_less [OF i(1)] i(3) by simp
    then show ?thesis using W assms(2,3) i 1 [of i] by auto
  qed
  ultimately show ?thesis by (simp add: down_inv_def)
qed

lemma trickle_down_loop_heap:
  assumes "pq_cmp q = cmp" and "n = pq_size q" and "index < length (pq_array q)" and "n \<le> length (pq_array q)"
    and "down_inv cmp ((pq_array q)[index := tmp]) n index"
  shows "\<exists>q'. trickle_down_loop tmp index q = Some q' \<and> heap_ordered cmp (pq_array q') n
    \<and> permuted n ((pq_array q)[index := tmp]) q q'"
  using assms
proof (induction "n - index" arbitrary: index q rule: less_induct)
  case less
  let ?V = "(pq_array q)[index := tmp]"
  have fin: "\<exists>q'. pq_put index tmp q = Some q' \<and> heap_ordered cmp (pq_array q') n \<and> permuted n ?V q q'"
    if "heap_ordered cmp ?V n" using that less.prems(3) by (simp add: pq_put_in permuted_def)
  show ?case
  proof (cases "HAVE_CHILD index q")
    case False
    have "PARENT_OF i \<noteq> index" if "0 < i" "i < n" for i
      using False that unfolding HAVE_CHILD_def PARENT_OF_def less.prems(2) [symmetric] by presburger
    then have "heap_ordered cmp ?V n" using less.prems(5) unfolding down_inv_def heap_ordered_def by blast
    with fin False show ?thesis by (subst trickle_down_loop.simps) simp
  next
    case child: True
    from pq_which_min [OF less.prems(1) child] less.prems(2,4) obtain w where
      w: "pq_which index q = Some w" "PARENT_OF w = index" "index < w" "w < n"
      and wmin: "\<And>i. 0 < i \<Longrightarrow> i < n \<Longrightarrow> PARENT_OF i = index \<Longrightarrow> cmp (pq_array q ! w) (pq_array q ! i) \<le> 0" by auto
    have V: "?V ! index = tmp" "\<And>k. k \<noteq> index \<Longrightarrow> ?V ! k = pq_array q ! k" using less.prems(3) by simp_all
    have min: "cmp (?V ! w) (?V ! i) \<le> 0" if "0 < i" "i < n" "PARENT_OF i = index" for i
      using wmin [OF that] that w(3) PARENT_OF_less [OF that(1)] V(2) [of i] V(2) [of w] by simp
    show ?thesis
    proof (cases "cmp (pq_array q ! w) tmp > 0")
      case True
      then have le: "cmp tmp (?V ! w) \<le> 0" using cmp_flip V(2) [of w] w(3) by simp
      have "cmp (?V ! PARENT_OF i) (?V ! i) \<le> 0" if "0 < i" "i < n" for i
      proof (cases "PARENT_OF i = index")
        case True
        with cmp_trans [OF le min [OF that True]] V(1) show ?thesis by simp
      next
        case False
        with less.prems(5) that show ?thesis unfolding down_inv_def by blast
      qed
      then have "heap_ordered cmp ?V n" by (simp add: heap_ordered_def)
      with fin show ?thesis
        using child w True less.prems(1,4) by (subst trickle_down_loop.simps) simp
    next
      case False
      let ?q1 = "q\<lparr>pq_array := (pq_array q)[index := pq_array q ! w],
          pq_calls := (if pq_update q then pq_calls q @ [(pq_array q ! w, index)] else pq_calls q)\<rparr>"
      have V1: "(pq_array ?q1)[w := tmp] = swap_at index w ?V"
        using w(3) less.prems(3) by (simp add: swap_at_def list_update_swap)
      have "cmp (?V ! w) (?V ! index) \<le> 0" using False V w(3) by simp
      have inv: "down_inv cmp ((pq_array ?q1)[w := tmp]) n w" unfolding V1
        by (rule down_inv_step [OF less.prems(5) w(2-4) _ \<open>cmp (?V ! w) (?V ! index) \<le> 0\<close> min]) (use less.prems(4) in simp)
      have "n - w < n - index" using w(3,4) by linarith
      from less.hyps [OF this, of ?q1] inv less.prems(1,2,4) w(4) obtain q' where
        q': "trickle_down_loop tmp w ?q1 = Some q'" "heap_ordered cmp (pq_array q') n"
          "permuted n ((pq_array ?q1)[w := tmp]) ?q1 q'" by auto
      have "permuted n ?V q q'"
        using q'(3) swap_at_mset [of index n w ?V] w less.prems(4) unfolding V1 permuted_def
        by (simp add: swap_at_def)
      moreover have "trickle_down_loop tmp index q = Some q'"
        using child w False q'(1) less.prems(1,3,4) by (subst trickle_down_loop.simps) (simp add: pq_put_in)
      ultimately show ?thesis using q'(2) by blast
    qed
  qed
qed

lemma pqueue_dequeue_heap:
  assumes "pq_cmp q = cmp" and "pq_invar q" and "0 < pq_size q"
  shows "\<exists>q'. pqueue_dequeue q = Some (pq_array q ! 0, q') \<and> pq_invar q' \<and> pq_cmp q' = cmp
    \<and> pq_size q' = pq_size q - 1 \<and> pq_elems q = add_mset (pq_array q ! 0) (pq_elems q')"
proof -
  let ?arr = "pq_array q" and ?n = "pq_size q - 1"
  let ?arr1 = "?arr[0 := ?arr ! ?n]"
  let ?q1 = "q\<lparr>pq_size := ?n, pq_array := ?arr1\<rparr>"
  have wf: "length ?arr = pq_array_size q" "pq_size q + 1 < length ?arr" "heap_ordered cmp ?arr (pq_size q)"
    using assms by (auto simp: pq_invar_def wf_pqueue_def)
  have "0 < length ?arr" using wf(2) by linarith
  then have V: "?arr1[0 := ?arr1 ! 0] = ?arr1" by simp
  have "down_inv cmp ?arr1 ?n 0"
  proof -
    have "cmp (?arr1 ! PARENT_OF i) (?arr1 ! i) \<le> 0" if "0 < i" "i < ?n" "PARENT_OF i \<noteq> 0" for i
      using wf(3) that by (simp add: heap_ordered_def)
    then show ?thesis by (simp add: down_inv_def)
  qed
  then have A: "pq_cmp ?q1 = cmp" "?n = pq_size ?q1" "0 < length (pq_array ?q1)" "?n \<le> length (pq_array ?q1)"
    "down_inv cmp ((pq_array ?q1)[0 := ?arr1 ! 0]) ?n 0"
    using assms(1) wf(2) V \<open>0 < length ?arr\<close> by simp_all
  from trickle_down_loop_heap [OF A] obtain q' where
    q': "trickle_down_loop (?arr1 ! 0) 0 ?q1 = Some q'" "heap_ordered cmp (pq_array q') ?n"
      "permuted ?n ((pq_array ?q1)[0 := ?arr1 ! 0]) ?q1 q'"
    by blast
  have "?n < length ?arr" using wf(2) by linarith
  have "0 < length ?arr1" using \<open>0 < length ?arr\<close> by (simp only: length_list_update)
  note mem = rd_in [OF \<open>0 < length ?arr\<close>] rd_in [OF \<open>?n < length ?arr\<close>] wr_in [OF \<open>0 < length ?arr\<close>] rd_in [OF \<open>0 < length ?arr1\<close>]
  have td: "trickle_down 0 ?q1 = Some q'" using q'(1) mem(4) by (simp only: trickle_down_def pqueue.simps pqueue.update_convs bind.simps) simp
  have deq: "pqueue_dequeue q = Some (?arr ! 0, q')"
    using td mem(1-3) assms(3) by (simp only: pqueue_dequeue_def Let_def bind.simps) simp
  have "take (pq_size q) ?arr = ?arr ! 0 # take ?n (drop 1 ?arr)"
    using take_first [of ?arr ?n] \<open>0 < length ?arr\<close> assms(3) by (simp only: Suc_diff_1)
  moreover have "mset (take ?n ?arr1) = mset (take ?n (drop 1 ?arr))"
    by (rule mset_take_last [OF \<open>?n < length ?arr\<close>])
  moreover have "mset (take ?n (pq_array q')) = mset (take ?n ?arr1)" "pq_size q' = ?n"
    using q'(3) by (auto simp: permuted_def)
  ultimately have "pq_elems q = add_mset (?arr ! 0) (pq_elems q')" by (simp add: pq_elems_def)
  moreover have "pq_invar q'" "pq_cmp q' = cmp"
    using q' assms(1) wf by (auto simp: pq_invar_def wf_pqueue_def permuted_def)
  ultimately show ?thesis using deq \<open>pq_size q' = ?n\<close> by blast
qed

lemma pqueue_enqueue_heap:
  assumes "pq_cmp q = cmp" and "pq_invar q"
    and "pq_size q + 2 < pq_array_size q \<or> alloc_ok"
  shows "\<exists>q'. pqueue_enqueue nul alloc_ok x q = Some q' \<and> pq_invar q' \<and> pq_cmp q' = cmp
    \<and> pq_elems q' = add_mset x (pq_elems q)"
proof -
  let ?n = "pq_size q"
  define q0 where "q0 = (if ?n + 2 \<ge> pq_array_size q then pqueue_expand nul q else q)"
  have wf: "length (pq_array q) = pq_array_size q" "?n + 1 < pq_array_size q" "heap_ordered cmp (pq_array q) ?n"
    using assms by (auto simp: pq_invar_def wf_pqueue_def)
  have q0: "pq_size q0 = ?n" "pq_cmp q0 = cmp" "length (pq_array q0) = pq_array_size q0" "?n + 2 < pq_array_size q0"
    "take ?n (pq_array q0) = take ?n (pq_array q)"
    using wf assms(1) by (auto simp: q0_def pqueue_expand_def)
  have nth: "pq_array q0 ! i = pq_array q ! i" if "i < ?n" for i
    using q0(5) that by (metis nth_take)
  let ?arr1 = "(pq_array q0)[?n := x]"
  let ?q1 = "q0\<lparr>pq_array := ?arr1, pq_calls := (if pq_update q0 then pq_calls q0 @ [(x, ?n)] else pq_calls q0)\<rparr>"
  have V: "?arr1[?n := ?arr1 ! ?n] = ?arr1" by simp
  have "up_inv cmp ?arr1 (Suc ?n) ?n"
  proof -
    have "cmp (?arr1 ! PARENT_OF i) (?arr1 ! i) \<le> 0" if "0 < i" "i < Suc ?n" "i \<noteq> ?n" for i
      using wf(3) that PARENT_OF_less [OF that(1)] nth by (simp add: heap_ordered_def)
    moreover have "PARENT_OF i \<noteq> ?n" if "0 < i" "i < Suc ?n" for i
      using PARENT_OF_less [OF that(1)] that by simp
    ultimately show ?thesis by (auto simp: up_inv_def)
  qed
  then have A: "pq_cmp ?q1 = cmp" "?n < Suc ?n" "Suc ?n \<le> length (pq_array ?q1)"
    "up_inv cmp ((pq_array ?q1)[?n := ?arr1 ! ?n]) (Suc ?n) ?n"
    using q0 V by simp_all
  from trickle_up_loop_heap [OF A] obtain q' where
    q': "trickle_up_loop (?arr1 ! ?n) ?n ?q1 = Some q'" "heap_ordered cmp (pq_array q') (Suc ?n)"
      "permuted (Suc ?n) ((pq_array ?q1)[?n := ?arr1 ! ?n]) ?q1 q'"
    by blast
  have "pqueue_enqueue nul alloc_ok x q =
      do { q \<leftarrow> pq_put (pq_size q0) x q0; q \<leftarrow> trickle_up (pq_size q) q; Some (q\<lparr>pq_size := pq_size q + 1\<rparr>) }"
    using assms(3) unfolding pqueue_enqueue_def Let_def q0_def by (simp only: not_le [symmetric] if_not_P) auto
  also have "\<dots> = do { q \<leftarrow> trickle_up ?n ?q1; Some (q\<lparr>pq_size := pq_size q + 1\<rparr>) }"
    using pq_put_in [of ?n q0 x] q0(1,3,4) by simp
  also have "trickle_up ?n ?q1 = Some q'" using q'(1) q0(3,4) by (simp add: trickle_up_def)
  finally have enq: "pqueue_enqueue nul alloc_ok x q = Some (q'\<lparr>pq_size := pq_size q' + 1\<rparr>)" by simp
  have "take (Suc ?n) ?arr1 = take ?n (pq_array q) @ [x]"
    using q0 by (simp add: take_Suc_conv_app_nth)
  then have "pq_elems (q'\<lparr>pq_size := pq_size q' + 1\<rparr>) = add_mset x (pq_elems q)"
    using q'(3) q0(1) by (simp add: pq_elems_def permuted_def)
  moreover have "pq_invar (q'\<lparr>pq_size := pq_size q' + 1\<rparr>)" "pq_cmp q' = cmp"
    using q' q0 by (auto simp: pq_invar_def wf_pqueue_def permuted_def)
  ultimately show ?thesis using enq by auto
qed

end

section \<open>The queue as a multiset\<close>

text \<open>The comparison of integers is an order, so the queue of integers below is one.\<close>

interpretation int_cmp: cmp_order "\<lambda>x y :: int. x - y"
  by unfold_locales auto

text \<open>C11. On a heap-ordered queue with at least one element \<open>pqueue_dequeue\<close> never touches memory
  out of bounds, returns an element that compares below or equal to every other, keeps
  the heap order and removes exactly that element.\<close>

theorem pqueue_dequeue_min:
  assumes "cmp_order (pq_cmp q)" and "pq_invar q" and "0 < pq_size q"
  shows "\<exists>x q'. pqueue_dequeue q = Some (x, q') \<and> pq_invar q' \<and> pq_cmp q' = pq_cmp q
    \<and> pq_elems q = add_mset x (pq_elems q') \<and> (\<forall>y \<in># pq_elems q. pq_cmp q x y \<le> 0)"
proof -
  from assms(2) have heap: "heap_ordered (pq_cmp q) (pq_array q) (pq_size q)" and len: "pq_size q \<le> length (pq_array q)"
    by (auto simp: pq_invar_def wf_pqueue_def)
  have "pq_cmp q (pq_array q ! 0) y \<le> 0" if "y \<in># pq_elems q" for y
  proof -
    from that len obtain i where "i < pq_size q" "y = pq_array q ! i"
      by (auto simp: pq_elems_def in_set_conv_nth)
    with cmp_order.heap_min [OF assms(1) heap] show ?thesis by simp
  qed
  with cmp_order.pqueue_dequeue_heap [OF assms(1) refl assms(2,3)] show ?thesis by blast
qed

lemma pqueue_create_invar [simp]: "pq_invar (pqueue_create nul cmp)"
  by (simp add: pq_invar_def wf_pqueue_def heap_ordered_def pqueue_create_def PQUEUE_INIT_ARRAYSIZE_def)

lemma pqueue_create_simps [simp]:
  "pq_cmp (pqueue_create nul cmp) = cmp" "pq_size (pqueue_create nul cmp) = 0" "pq_elems (pqueue_create nul cmp) = {#}"
  by (simp_all add: pqueue_create_def pq_elems_def)

lemma pq_elems_size: "pq_invar q \<Longrightarrow> size (pq_elems q) = pq_size q"
  by (simp add: pq_elems_def pq_invar_def wf_pqueue_def)

theorem pqueue_dequeue_min_witness:
  "\<exists>q q'. pqueue_enqueue 0 True 5 (pqueue_create 0 (\<lambda>x y. x - y)) = Some q
     \<and> pqueue_dequeue q = Some (5 :: int, q') \<and> pq_elems q' = {#}"
proof -
  have "pq_size (pqueue_create 0 (\<lambda>x y :: int. x - y)) + 2 < pq_array_size (pqueue_create 0 (\<lambda>x y :: int. x - y)) \<or> True"
    by simp
  from int_cmp.pqueue_enqueue_heap [OF _ _ this, of 0 5] obtain q where
    q: "pqueue_enqueue 0 True 5 (pqueue_create 0 (\<lambda>x y :: int. x - y)) = Some q" "pq_invar q"
      "pq_cmp q = (\<lambda>x y. x - y)" "pq_elems q = {#5#}" by auto
  have "0 < pq_size q" using pq_elems_size [OF q(2)] q(4) by simp
  with pqueue_dequeue_min [of q] q int_cmp.cmp_order_axioms show ?thesis by auto
qed

text \<open>Dequeueing an empty queue reads before the start of the array.\<close>

lemma pqueue_dequeue_empty: "pq_size q = 0 \<Longrightarrow> pqueue_dequeue q = None"
  by (simp add: pqueue_dequeue_def bind_eq_None_conv)

end
