(* ===== verification/Lib_Prefix.thy ===== *)
theory Lib_Prefix
  imports Prelude
begin

text \<open>
  Network prefixes: \<open>lib/prefix.h\<close> and \<open>lib/prefix.c\<close>. A prefix is an address
  family, a length in bits and the bytes of the address union. Every access to those
  bytes is bounds-checked in the model, because the sources index them with a length that
  the type \<open>u_char\<close> does not bound. The lemmas relate the byte-and-mask routines to the
  bit string a prefix denotes.
\<close>

section \<open>Data\<close>

definition AF_UNSPEC :: u8 where "AF_UNSPEC = 0"
definition AF_INET :: u8 where "AF_INET = 2"
definition AF_INET6 :: u8 where "AF_INET6 = 10"

definition IPV4_MAX_PREFIXLEN :: u8 where "IPV4_MAX_PREFIXLEN = 32"
definition IPV6_MAX_PREFIXLEN :: u8 where "IPV6_MAX_PREFIXLEN = 128"

record prefix =
  pfx_family :: u8
  pfx_prefixlen :: u8
  pfx_u :: "u8 list"

text \<open>The size of the address union: 16 bytes, since \<open>HAVE_IPV6\<close> is defined.\<close>

definition prefix_new :: prefix where
  "prefix_new = \<lparr>pfx_family = 0, pfx_prefixlen = 0, pfx_u = replicate 16 0\<rparr>"

definition maskbit :: "u8 list" where
  "maskbit = [0x00, 0x80, 0xc0, 0xe0, 0xf0, 0xf8, 0xfc, 0xfe, 0xff]"

section \<open>Operations\<close>

definition prefix_bit :: "u8 list \<Rightarrow> u8 \<Rightarrow> u32 option" where
  "prefix_bit bs len =
     do {
       b \<leftarrow> rd bs (unat len div 8);
       Some (drop_bit (7 - unat len mod 8) (ucast b) AND 1)
     }"

text \<open>The loop \<open>while (offset--) if (pp1[offset] != pp2[offset]) return\<close>.\<close>

fun bytes_same :: "u8 list \<Rightarrow> u8 list \<Rightarrow> nat \<Rightarrow> bool option" where
  "bytes_same xs ys 0 = Some True"
| "bytes_same xs ys (Suc offset) =
     do {
       a \<leftarrow> rd xs offset;
       b \<leftarrow> rd ys offset;
       if a \<noteq> b then Some False else bytes_same xs ys offset
     }"

text \<open>The comparison of two network parts that \<open>prefix_cmp\<close> and \<open>prefix_match\<close> share.\<close>

definition network_same :: "u8 list \<Rightarrow> u8 list \<Rightarrow> u8 \<Rightarrow> bool option" where
  "network_same xs ys len =
     (let offset = unat len div 8; shift = unat len mod 8 in
      if shift \<noteq> 0
      then do {
             m \<leftarrow> rd maskbit shift;
             a \<leftarrow> rd xs offset;
             b \<leftarrow> rd ys offset;
             if m AND (a XOR b) \<noteq> 0 then Some False else bytes_same xs ys offset
           }
      else bytes_same xs ys offset)"

definition prefix_cmp :: "prefix \<Rightarrow> prefix \<Rightarrow> int option" where
  "prefix_cmp p1 p2 =
     (if pfx_family p1 \<noteq> pfx_family p2 \<or> pfx_prefixlen p1 \<noteq> pfx_prefixlen p2 then Some 1
      else do {
             same \<leftarrow> network_same (pfx_u p1) (pfx_u p2) (pfx_prefixlen p1);
             Some (if same then 0 else 1)
           })"

definition prefix_match :: "prefix \<Rightarrow> prefix \<Rightarrow> int option" where
  "prefix_match n p =
     (if pfx_prefixlen n > pfx_prefixlen p then Some 0
      else do {
             same \<leftarrow> network_same (pfx_u n) (pfx_u p) (pfx_prefixlen n);
             Some (if same then 1 else 0)
           })"

definition memcmp_eq :: "nat \<Rightarrow> u8 list \<Rightarrow> u8 list \<Rightarrow> bool option" where
  "memcmp_eq n xs ys =
     (if n \<le> length xs \<and> n \<le> length ys then Some (take n xs = take n ys) else None)"

definition prefix_same :: "prefix \<Rightarrow> prefix \<Rightarrow> int option" where
  "prefix_same p1 p2 =
     (if pfx_family p1 = pfx_family p2 \<and> pfx_prefixlen p1 = pfx_prefixlen p2
      then if pfx_family p1 = AF_INET
           then do { e \<leftarrow> memcmp_eq 4 (pfx_u p1) (pfx_u p2); Some (if e then 1 else 0) }
           else if pfx_family p1 = AF_INET6
           then do { e \<leftarrow> memcmp_eq 16 (pfx_u p1) (pfx_u p2); Some (if e then 1 else 0) }
           else Some 0
      else Some 0)"

text \<open>\<open>memcpy\<close> of the first \<open>n\<close> bytes.\<close>

definition copy_bytes :: "nat \<Rightarrow> u8 list \<Rightarrow> u8 list \<Rightarrow> u8 list option" where
  "copy_bytes n dest src =
     (if n \<le> length dest \<and> n \<le> length src then Some (take n src @ drop n dest) else None)"

definition prefix_copy :: "prefix \<Rightarrow> prefix \<Rightarrow> prefix option" where
  "prefix_copy dest src =
     (let dest1 = dest\<lparr>pfx_family := pfx_family src, pfx_prefixlen := pfx_prefixlen src\<rparr> in
      if pfx_family src = AF_INET
      then do { v \<leftarrow> copy_bytes 4 (pfx_u dest) (pfx_u src); Some (dest1\<lparr>pfx_u := v\<rparr>) }
      else if pfx_family src = AF_INET6
      then do { v \<leftarrow> copy_bytes 16 (pfx_u dest) (pfx_u src); Some (dest1\<lparr>pfx_u := v\<rparr>) }
      else if pfx_family src = AF_UNSPEC
      then do { v \<leftarrow> copy_bytes 8 (pfx_u dest) (pfx_u src); Some (dest1\<lparr>pfx_u := v\<rparr>) }
      else None)"

text \<open>\<open>ip_masklen\<close>: the bytes of a netmask, first byte first.\<close>

function masklen_tail :: "u8 \<Rightarrow> u8 \<Rightarrow> u8" where
  "masklen_tail val len = (if val = 0 then len else masklen_tail (push_bit 1 val) (len + 1))"
  by pat_completeness auto
termination
proof (relation "measure (\<lambda>(val, len). LEAST n. push_bit n val = (0 :: u8))")
  fix val len :: u8
  assume nz: "val \<noteq> 0"
  let ?P = "\<lambda>n. push_bit n val = (0 :: u8)"
  have ex: "?P 8" by (rule bit_word_eqI) (simp add: bit_push_bit_iff)
  then have least: "?P (LEAST n. ?P n)" by (rule LeastI)
  with nz have pos: "0 < (LEAST n. ?P n)" by (cases "LEAST n. ?P n") auto
  have "push_bit ((LEAST n. ?P n) - 1) (push_bit 1 val) = (0 :: u8)"
    using least pos by (simp add: push_bit_push_bit del: One_nat_def push_bit_Suc)
  then have "(LEAST n. push_bit n (push_bit 1 val) = (0 :: u8)) \<le> (LEAST n. ?P n) - 1"
    by (rule Least_le)
  with pos show "((push_bit 1 val, len + 1), (val, len))
      \<in> measure (\<lambda>(val, len). LEAST n. push_bit n val = (0 :: u8))"
    by simp
qed simp

fun ip_masklen_from :: "u8 list \<Rightarrow> u8 \<Rightarrow> u8" where
  "ip_masklen_from [] len = len"
| "ip_masklen_from (b # bs) len =
     (if b = 0xff then ip_masklen_from bs (len + 8) else masklen_tail b len)"

definition ip_masklen :: "u8 list \<Rightarrow> u8 option" where
  "ip_masklen netmask =
     (if length netmask = 4 then Some (ip_masklen_from netmask 0) else None)"

text \<open>
  \<open>apply_mask_ipv4\<close> and \<open>apply_mask_ipv6\<close> differ only in the number of address bytes:
  the byte the length ends in is masked, the bytes after it are cleared.
\<close>

definition apply_mask_bytes :: "nat \<Rightarrow> prefix \<Rightarrow> prefix option" where
  "apply_mask_bytes n p =
     (let index = unat (pfx_prefixlen p) div 8; offset = unat (pfx_prefixlen p) mod 8 in
      if index < n
      then do {
             m \<leftarrow> rd maskbit offset;
             b \<leftarrow> rd (pfx_u p) index;
             v \<leftarrow> wr (pfx_u p) index (b AND m);
             if n \<le> length v
             then Some (p\<lparr>pfx_u := take (Suc index) v @ replicate (n - Suc index) 0 @ drop n v\<rparr>)
             else None
           }
      else Some p)"

definition apply_mask_ipv4 :: "prefix \<Rightarrow> prefix option" where
  "apply_mask_ipv4 p = apply_mask_bytes 4 p"

definition apply_mask_ipv6 :: "prefix \<Rightarrow> prefix option" where
  "apply_mask_ipv6 p = apply_mask_bytes 16 p"

definition apply_mask :: "prefix \<Rightarrow> prefix option" where
  "apply_mask p =
     (if pfx_family p = AF_INET then apply_mask_ipv4 p
      else if pfx_family p = AF_INET6 then apply_mask_ipv6 p
      else Some p)"

section \<open>The bit string of a prefix\<close>

definition wf_prefix :: "prefix \<Rightarrow> bool" where
  "wf_prefix p \<longleftrightarrow> unat (pfx_prefixlen p) \<le> 8 * length (pfx_u p)"

definition prefix_bits :: "prefix \<Rightarrow> bool list" where
  "prefix_bits p = take (unat (pfx_prefixlen p)) (bits_of (pfx_u p))"

lemma length_prefix_bits [simp]:
  "wf_prefix p \<Longrightarrow> length (prefix_bits p) = unat (pfx_prefixlen p)"
  by (simp add: prefix_bits_def wf_prefix_def)

lemma length_maskbit [simp]: "length maskbit = 9"
  by (simp add: maskbit_def)

lemma maskbit_bit:
  assumes "s \<le> 8" and "i < 8"
  shows "bit (maskbit ! s) i \<longleftrightarrow> 8 - s \<le> i"
proof -
  have "\<forall>s \<in> set [0..<9]. \<forall>i \<in> set [0..<8]. bit (maskbit ! s) i \<longleftrightarrow> 8 - s \<le> i"
    by code_simp
  with assms show ?thesis by auto
qed


lemma masked_diff:
  assumes "s \<le> 8"
  shows "maskbit ! s AND (a XOR b) \<noteq> 0 \<longleftrightarrow> take s (byte_bits a) \<noteq> take s (byte_bits b)"
proof -
  have "maskbit ! s AND (a XOR b) = 0 \<longleftrightarrow> (\<forall>i<8. 8 - s \<le> i \<longrightarrow> bit a i = bit b i)"
    using assms by (auto simp: bit_eq_iff bit_and_iff bit_xor_iff maskbit_bit)
  also have "\<dots> \<longleftrightarrow> (\<forall>j < s. bit a (7 - j) = bit b (7 - j))"
  proof
    assume all: "\<forall>i<8. 8 - s \<le> i \<longrightarrow> bit a i = bit b i"
    show "\<forall>j < s. bit a (7 - j) = bit b (7 - j)"
      using all assms by auto
  next
    assume all: "\<forall>j < s. bit a (7 - j) = bit b (7 - j)"
    show "\<forall>i<8. 8 - s \<le> i \<longrightarrow> bit a i = bit b i"
    proof (intro allI impI)
      fix i :: nat
      assume "i < 8" "8 - s \<le> i"
      with all [rule_format, of "7 - i"] assms show "bit a i = bit b i" by auto
    qed
  qed
  also have "\<dots> \<longleftrightarrow> take s (byte_bits a) = take s (byte_bits b)"
    using assms by (auto simp: take_eq_iff_nth byte_bits_nth)
  finally show ?thesis by blast
qed

lemma bytes_same_take:
  "n \<le> length xs \<Longrightarrow> n \<le> length ys \<Longrightarrow> bytes_same xs ys n = Some (take n xs = take n ys)"
proof (induction n)
  case 0
  then show ?case by simp
next
  case (Suc n)
  then show ?case by (auto simp: take_Suc_conv_app_nth)
qed

lemma take_bits_of_split:
  assumes "len \<le> 8 * length xs"
  shows "take len (bits_of xs) =
    bits_of (take (len div 8) xs) @
    (if len mod 8 = 0 then [] else take (len mod 8) (byte_bits (xs ! (len div 8))))"
proof (cases "len mod 8 = 0")
  case True
  then have "take len (bits_of xs) = take (8 * (len div 8)) (bits_of xs)" by auto
  with True show ?thesis by (simp add: bits_of_take)
next
  case False
  with assms have lt: "len div 8 < length xs" by (simp add: div8_less)
  let ?q = "len div 8"
  have "xs = take ?q xs @ xs ! ?q # drop (Suc ?q) xs"
    using lt by (rule id_take_nth_drop)
  then have "bits_of xs = bits_of (take ?q xs) @ byte_bits (xs ! ?q) @ bits_of (drop (Suc ?q) xs)"
    by (metis bits_of_Cons bits_of_append)
  moreover have "len = length (bits_of (take ?q xs)) + len mod 8"
    using lt by simp
  ultimately have "take len (bits_of xs) =
      bits_of (take ?q xs) @ take (len mod 8) (byte_bits (xs ! ?q) @ bits_of (drop (Suc ?q) xs))"
    using lt by (simp add: minus_mult_div_eq_mod)
  with False show ?thesis by (simp add: take_append)
qed

lemma network_same_bits:
  assumes "unat len \<le> 8 * length xs" and "unat len \<le> 8 * length ys"
  shows "network_same xs ys len = Some (take (unat len) (bits_of xs) = take (unat len) (bits_of ys))"
proof -
  let ?q = "unat len div 8" and ?r = "unat len mod 8"
  have q: "?q \<le> length xs" "?q \<le> length ys" using assms by auto
  have same: "bytes_same xs ys ?q = Some (bits_of (take ?q xs) = bits_of (take ?q ys))"
    using q by (simp add: bytes_same_take bits_of_inj)
  have len: "length (bits_of (take ?q xs)) = length (bits_of (take ?q ys))"
    using q by simp
  show ?thesis
  proof (cases "?r = 0")
    case True
    with same show ?thesis
      by (simp add: network_same_def take_bits_of_split [OF assms(1)] take_bits_of_split [OF assms(2)])
  next
    case False
    with assms have lt: "?q < length xs" "?q < length ys" by (simp_all add: div8_less)
    have "?r \<le> 8" by (simp add: less_imp_le)
    from False lt len same show ?thesis
      by (auto simp: network_same_def Let_def take_bits_of_split [OF assms(1)] take_bits_of_split [OF assms(2)]
          masked_diff [OF \<open>?r \<le> 8\<close>, simplified])
  qed
qed

lemma prefix_bit_nth:
  assumes "unat len < 8 * length bs"
  shows "prefix_bit bs len = Some (of_bool (bits_of bs ! unat len))"
proof -
  have lt: "unat len div 8 < length bs" using assms by auto
  let ?b = "bs ! (unat len div 8)"
  have "drop_bit (7 - unat len mod 8) (ucast ?b) AND (1 :: u32) = of_bool (bit ?b (7 - unat len mod 8))"
    by (rule bit_word_eqI) (auto simp: bit_simps)
  with lt show ?thesis
    by (simp add: prefix_bit_def bits_of_nth [OF assms])
qed


section \<open>What the comparison routines decide\<close>

lemma wf_prefix_le: "wf_prefix n \<Longrightarrow> unat (pfx_prefixlen n) \<le> 8 * length (pfx_u n)"
  by (simp add: wf_prefix_def)

lemma prefix_match_bits:
  assumes "wf_prefix n" and "wf_prefix p"
  shows "prefix_match n p =
    Some (if unat (pfx_prefixlen n) \<le> unat (pfx_prefixlen p)
             \<and> prefix_bits n = take (unat (pfx_prefixlen n)) (prefix_bits p) then 1 else 0)"
proof (cases "unat (pfx_prefixlen n) \<le> unat (pfx_prefixlen p)")
  case True
  with assms have "unat (pfx_prefixlen n) \<le> 8 * length (pfx_u p)"
    by (auto simp: wf_prefix_def)
  with True assms show ?thesis
    by (simp add: prefix_match_def network_same_bits wf_prefix_le word_less_nat_alt prefix_bits_def min_def)
next
  case False
  then show ?thesis by (simp add: prefix_match_def word_less_nat_alt)
qed

text \<open>C1. \<open>prefix_match\<close> returns 1 exactly when the bit string of the first prefix is an
  initial segment of the bit string of the second, and 0 otherwise; on prefixes whose length
  fits their address bytes it never reads out of bounds.\<close>

theorem prefix_match_iff_initial_segment:
  assumes "wf_prefix n" and "wf_prefix p"
  shows "prefix_match n p =
    Some (if (\<exists>rest. prefix_bits p = prefix_bits n @ rest) then 1 else 0)"
proof -
  have "(\<exists>rest. prefix_bits p = prefix_bits n @ rest) \<longleftrightarrow>
      unat (pfx_prefixlen n) \<le> unat (pfx_prefixlen p)
      \<and> prefix_bits n = take (unat (pfx_prefixlen n)) (prefix_bits p)" (is "?L \<longleftrightarrow> ?R")
  proof
    assume ?L
    then obtain rest where eq: "prefix_bits p = prefix_bits n @ rest" by blast
    have "length (prefix_bits n) \<le> length (prefix_bits p)" by (simp add: eq)
    then have "unat (pfx_prefixlen n) \<le> unat (pfx_prefixlen p)" using assms by simp
    with assms show ?R by (simp add: eq)
  next
    assume ?R
    then show ?L by (metis append_take_drop_id)
  qed
  then show ?thesis by (simp only: prefix_match_bits [OF assms])
qed

theorem prefix_match_iff_initial_segment_witness:
  "prefix_match \<lparr>pfx_family = 2, pfx_prefixlen = 9, pfx_u = [10, 128, 0, 0]\<rparr>
     \<lparr>pfx_family = 2, pfx_prefixlen = 32, pfx_u = [10, 200, 1, 2]\<rparr> = Some 1"
proof -
  let ?n = "\<lparr>pfx_family = 2, pfx_prefixlen = 9, pfx_u = [10, 128, 0, 0]\<rparr>"
  let ?p = "\<lparr>pfx_family = 2, pfx_prefixlen = 32, pfx_u = [10, 200, 1, 2]\<rparr>"
  have wf: "wf_prefix ?n" "wf_prefix ?p" by (simp_all add: wf_prefix_def)
  have "prefix_bits ?p = prefix_bits ?n @ drop 9 (prefix_bits ?p)"
    by code_simp
  then have "\<exists>rest. prefix_bits ?p = prefix_bits ?n @ rest" by blast
  with prefix_match_iff_initial_segment [OF wf] show ?thesis by simp
qed

text \<open>\<open>prefix_cmp\<close> returns 0 exactly when family, length and network part agree: the
  host bits below the prefix length are not significant, as its comment says.\<close>

theorem prefix_cmp_zero_iff:
  assumes "wf_prefix p1" and "wf_prefix p2"
  shows "prefix_cmp p1 p2 =
    Some (if pfx_family p1 = pfx_family p2 \<and> prefix_bits p1 = prefix_bits p2 then 0 else 1)"
proof (cases "pfx_prefixlen p1 = pfx_prefixlen p2")
  case True
  with assms have "unat (pfx_prefixlen p1) \<le> 8 * length (pfx_u p2)" by (simp add: wf_prefix_def)
  from network_same_bits [OF wf_prefix_le [OF assms(1)] this] True show ?thesis
    by (simp add: prefix_cmp_def prefix_bits_def)
next
  case False
  then have "length (prefix_bits p1) \<noteq> length (prefix_bits p2)"
    using assms by (simp add: word_unat_eq_iff)
  then have "prefix_bits p1 \<noteq> prefix_bits p2" by auto
  with False show ?thesis by (simp add: prefix_cmp_def)
qed

section \<open>Masking\<close>

lemma byte_bits_and_maskbit:
  assumes "s \<le> 8"
  shows "byte_bits (b AND maskbit ! s) = take s (byte_bits b) @ replicate (8 - s) False"
proof (rule nth_equalityI)
  fix i
  assume "i < length (byte_bits (b AND maskbit ! s))"
  then have "i < 8" by simp
  with assms show "byte_bits (b AND maskbit ! s) ! i = (take s (byte_bits b) @ replicate (8 - s) False) ! i"
    by (auto simp: byte_bits_nth bit_and_iff maskbit_bit nth_append)
qed (use assms in simp)

lemma bits_of_replicate_0 [simp]: "bits_of (replicate n 0) = replicate (8 * n) False"
proof (induction n)
  case (Suc n)
  have "byte_bits 0 = replicate 8 False"
    by (rule nth_equalityI) (simp_all add: byte_bits_nth)
  with Suc show ?case by (simp add: replicate_add)
qed simp

lemma apply_mask_bytes_bits:
  assumes "length (pfx_u p) = n" and "wf_prefix p"
  shows "\<exists>q. apply_mask_bytes n p = Some q
    \<and> pfx_family q = pfx_family p \<and> pfx_prefixlen q = pfx_prefixlen p
    \<and> length (pfx_u q) = n
    \<and> bits_of (pfx_u q) = prefix_bits p @ replicate (8 * n - unat (pfx_prefixlen p)) False"
proof -
  let ?len = "unat (pfx_prefixlen p)"
  let ?i = "?len div 8" and ?s = "?len mod 8" and ?u = "pfx_u p"
  have le: "?len \<le> 8 * n" using assms by (simp add: wf_prefix_def)
  show ?thesis
  proof (cases "?i < n")
    case True
    let ?v = "?u[?i := ?u ! ?i AND maskbit ! ?s]"
    let ?w = "take (Suc ?i) ?v @ replicate (n - Suc ?i) 0"
    have s: "?s \<le> 8" by (simp add: less_imp_le)
    have "take (Suc ?i) ?v = take ?i ?u @ [?u ! ?i AND maskbit ! ?s]"
      using True assms(1) by (simp add: take_Suc_conv_app_nth)
    then have bits: "bits_of ?w = bits_of (take ?i ?u) @ take ?s (byte_bits (?u ! ?i))
        @ replicate (8 - ?s) False @ replicate (8 * (n - Suc ?i)) False"
      by (simp add: byte_bits_and_maskbit [OF s])
    have "take ?len (bits_of ?u) = bits_of (take ?i ?u) @ take ?s (byte_bits (?u ! ?i))"
      using take_bits_of_split [of ?len ?u] le assms(1) by auto
    moreover have "replicate (8 - ?s) False @ replicate (8 * (n - Suc ?i)) False
        = replicate (8 * n - ?len) False"
    proof -
      have "8 - ?s + 8 * (n - Suc ?i) = 8 * n - ?len"
        using True mult_div_mod_eq [of 8 ?len] by (simp add: algebra_simps)
      then show ?thesis by (simp flip: replicate_add)
    qed
    ultimately have "bits_of ?w = prefix_bits p @ replicate (8 * n - ?len) False"
      using bits by (simp add: prefix_bits_def)
    moreover have "apply_mask_bytes n p = Some (p\<lparr>pfx_u := ?w\<rparr>)"
      using True assms(1) by (simp add: apply_mask_bytes_def Let_def)
    ultimately show ?thesis using True assms(1) by auto
  next
    case False
    with le have "?len = 8 * n" by simp
    with False assms show ?thesis by (simp add: apply_mask_bytes_def prefix_bits_def)
  qed
qed


text \<open>\<open>apply_mask\<close> on an IPv6 prefix keeps the family, the length and the network
  bits and clears every host bit; applying it again changes nothing.\<close>

lemma apply_mask_ipv6_clears_host_bits:
  assumes "pfx_family p = AF_INET6" and "length (pfx_u p) = 16" and "wf_prefix p"
  shows "\<exists>q. apply_mask p = Some q \<and> apply_mask q = Some q
    \<and> pfx_family q = AF_INET6 \<and> pfx_prefixlen q = pfx_prefixlen p
    \<and> bits_of (pfx_u q) = prefix_bits p @ replicate (128 - unat (pfx_prefixlen p)) False"
proof -
  have AF: "AF_INET6 \<noteq> AF_INET" by (simp add: AF_INET6_def AF_INET_def)
  from apply_mask_bytes_bits [OF assms(2,3)] obtain q where
    q: "apply_mask_bytes 16 p = Some q" "pfx_family q = pfx_family p"
       "pfx_prefixlen q = pfx_prefixlen p" "length (pfx_u q) = 16"
       "bits_of (pfx_u q) = prefix_bits p @ replicate (128 - unat (pfx_prefixlen p)) False"
    by auto
  have wfq: "wf_prefix q" using q assms by (simp add: wf_prefix_def)
  have same: "prefix_bits q = prefix_bits p"
    using q(3,5) assms(3) by (simp add: prefix_bits_def [of q])
  from apply_mask_bytes_bits [OF q(4) wfq] obtain r where
    r: "apply_mask_bytes 16 q = Some r" "pfx_family r = pfx_family q"
       "pfx_prefixlen r = pfx_prefixlen q" "length (pfx_u r) = 16"
       "bits_of (pfx_u r) = bits_of (pfx_u q)"
    using q same by auto
  have "r = q"
    using r q bits_of_inj [of "pfx_u r" "pfx_u q"] by simp
  with r q assms(1) AF show ?thesis
    by (simp add: apply_mask_def apply_mask_ipv6_def)
qed

lemma masklen_tail_mask: "s < 8 \<Longrightarrow> masklen_tail (maskbit ! s) len = len + of_nat s"
proof -
  assume "s < 8"
  then consider "s = 0" | "s = 1" | "s = 2" | "s = 3" | "s = 4" | "s = 5" | "s = 6" | "s = 7"
    by linarith
  then show ?thesis
    by cases (simp_all add: maskbit_def masklen_tail.simps)
qed

end
