(* ===== verification/Lib_Table.thy ===== *)
theory Lib_Table
  imports Lib_Prefix "HOL-Library.Tree"
begin

text \<open>
  The radix tree of routes: \<open>lib/table.h\<close> and \<open>lib/table.c\<close>. Nodes live in a store
  that belongs to their table (no node is ever shared between tables), addressed by the
  natural numbers; \<open>None\<close> is the null pointer and a freed node is absent from the
  store, so a dangling access is \<open>None\<close>. Loops that follow pointers are partial
  functions: they return only if the pointers they follow end.
\<close>

section \<open>Data\<close>

type_synonym addr = nat

record 'a route_node =
  rn_p :: prefix
  rn_parent :: "addr option"
  rn_left :: "addr option"
  rn_right :: "addr option"
  rn_lock :: u32
  rn_info :: "'a option"

record 'a route_table =
  rt_top :: "addr option"
  rt_nodes :: "addr \<Rightarrow> 'a route_node option"
  rt_fresh :: addr

section \<open>Store accesses\<close>

definition upd_node :: "addr \<Rightarrow> ('a route_node \<Rightarrow> 'a route_node) \<Rightarrow> 'a route_table \<Rightarrow> 'a route_table option" where
  "upd_node a f t =
     (case rt_nodes t a of None \<Rightarrow> None
      | Some n \<Rightarrow> Some (t\<lparr>rt_nodes := (rt_nodes t)(a \<mapsto> f n)\<rparr>))"

definition node_link :: "'a route_node \<Rightarrow> u32 \<Rightarrow> addr option" where
  "node_link n b = (if b = 0 then rn_left n else rn_right n)"

section \<open>Operations\<close>

definition route_table_init :: "'a route_table" where
  "route_table_init = \<lparr>rt_top = None, rt_nodes = (\<lambda>_. None), rt_fresh = 0\<rparr>"

text \<open>\<open>calloc\<close> of a node: all fields zero.\<close>

definition null_node :: "'a route_node" where
  "null_node = \<lparr>rn_p = prefix_new, rn_parent = None, rn_left = None, rn_right = None,
     rn_lock = 0, rn_info = None\<rparr>"

definition route_node_new :: "'a route_table \<Rightarrow> addr \<times> 'a route_table" where
  "route_node_new t =
     (rt_fresh t, t\<lparr>rt_nodes := (rt_nodes t)(rt_fresh t \<mapsto> null_node), rt_fresh := Suc (rt_fresh t)\<rparr>)"

definition route_node_set :: "'a route_table \<Rightarrow> prefix \<Rightarrow> (addr \<times> 'a route_table) option" where
  "route_node_set t p =
     do {
       let (a, t) = route_node_new t;
       q \<leftarrow> prefix_copy prefix_new p;
       t \<leftarrow> upd_node a (\<lambda>n. n\<lparr>rn_p := q\<rparr>) t;
       Some (a, t)
     }"

text \<open>
  \<open>route_common\<close>: the common leading bytes of two prefixes, then the common leading
  bits of the first byte in which they differ. The new prefix starts as a zeroed one.
\<close>

fun common_bytes :: "u8 list \<Rightarrow> u8 list \<Rightarrow> u8 list \<Rightarrow> nat \<Rightarrow> nat \<Rightarrow> (nat \<times> u8 list) option" where
  "common_bytes np pp newp i 0 = Some (i, newp)"
| "common_bytes np pp newp i (Suc k) =
     do {
       a \<leftarrow> rd np i;
       b \<leftarrow> rd pp i;
       if a = b then do { newp \<leftarrow> wr newp i a; common_bytes np pp newp (Suc i) k }
       else Some (i, newp)
     }"

function common_bits :: "u8 \<Rightarrow> u8 \<Rightarrow> u8 \<Rightarrow> u8 \<Rightarrow> u8" where
  "common_bits diff msk newlen plen =
     (if newlen < plen \<and> msk AND diff = 0
      then common_bits diff (drop_bit 1 msk) (newlen + 1) plen else newlen)"
  by pat_completeness auto
termination
proof (relation "measure (\<lambda>(diff, msk, newlen, plen). unat plen - unat newlen)")
  fix diff msk newlen plen :: u8
  assume "newlen < plen \<and> msk AND diff = 0"
  then have "newlen < plen" ..
  then have "unat newlen < unat plen" "unat (newlen + 1) = Suc (unat newlen)"
    by (auto simp: word_less_nat_alt unat_plus_one_less [of newlen plen])
  then show "((diff, drop_bit 1 msk, newlen + 1, plen), (diff, msk, newlen, plen))
      \<in> measure (\<lambda>(diff, msk, newlen, plen). unat plen - unat newlen)"
    by simp
qed simp

definition route_common :: "prefix \<Rightarrow> prefix \<Rightarrow> prefix \<Rightarrow> prefix option" where
  "route_common n p new =
     do {
       (i, newp) \<leftarrow> common_bytes (pfx_u n) (pfx_u p) (pfx_u new) 0 (unat (pfx_prefixlen p) div 8);
       let len = word_of_nat (i * 8);
       if len \<noteq> pfx_prefixlen p
       then do {
              a \<leftarrow> rd (pfx_u n) i;
              b \<leftarrow> rd (pfx_u p) i;
              let len = common_bits (a XOR b) 0x80 len (pfx_prefixlen p);
              m \<leftarrow> rd maskbit (unat len mod 8);
              newp \<leftarrow> wr newp i (a AND m);
              Some (new\<lparr>pfx_prefixlen := len, pfx_u := newp\<rparr>)
            }
       else Some (new\<lparr>pfx_prefixlen := len, pfx_u := newp\<rparr>)
     }"

definition set_link :: "addr \<Rightarrow> addr \<Rightarrow> 'a route_table \<Rightarrow> 'a route_table option" where
  "set_link node new t =
     do {
       nn \<leftarrow> rt_nodes t node;
       nw \<leftarrow> rt_nodes t new;
       b \<leftarrow> prefix_bit (pfx_u (rn_p nw)) (pfx_prefixlen (rn_p nn));
       t \<leftarrow> upd_node node (\<lambda>n. if b = 0 then n\<lparr>rn_left := Some new\<rparr> else n\<lparr>rn_right := Some new\<rparr>) t;
       upd_node new (\<lambda>n. n\<lparr>rn_parent := Some node\<rparr>) t
     }"

definition route_lock_node :: "addr \<Rightarrow> 'a route_table \<Rightarrow> 'a route_table option" where
  "route_lock_node a t = upd_node a (\<lambda>n. n\<lparr>rn_lock := rn_lock n + 1\<rparr>) t"

text \<open>
  \<open>route_node_delete\<close> unlinks a node that has at most one child and then, if its parent
  is an unlocked stub, deletes the parent too. Both asserts are checked first.
\<close>

partial_function (option) route_node_delete :: "addr \<Rightarrow> 'a route_table \<Rightarrow> 'a route_table option" where
  "route_node_delete a t =
     do {
       n \<leftarrow> rt_nodes t a;
       if rn_lock n \<noteq> 0 \<or> rn_info n \<noteq> None then None
       else if rn_left n \<noteq> None \<and> rn_right n \<noteq> None then Some t
       else do {
         let child = (if rn_left n \<noteq> None then rn_left n else rn_right n);
         t \<leftarrow> (case child of None \<Rightarrow> Some t
               | Some c \<Rightarrow> upd_node c (\<lambda>m. m\<lparr>rn_parent := rn_parent n\<rparr>) t);
         (case rn_parent n of
            None \<Rightarrow> Some (t\<lparr>rt_top := child, rt_nodes := (rt_nodes t)(a := None)\<rparr>)
          | Some b \<Rightarrow>
              do {
                t \<leftarrow> upd_node b (\<lambda>m. if rn_left m = Some a then m\<lparr>rn_left := child\<rparr>
                                        else m\<lparr>rn_right := child\<rparr>) t;
                let t = t\<lparr>rt_nodes := (rt_nodes t)(a := None)\<rparr>;
                pn \<leftarrow> rt_nodes t b;
                if rn_lock pn = 0 then route_node_delete b t else Some t
              })
       }
     }"

definition route_unlock_node :: "addr \<Rightarrow> 'a route_table \<Rightarrow> 'a route_table option" where
  "route_unlock_node a t =
     do {
       t \<leftarrow> upd_node a (\<lambda>n. n\<lparr>rn_lock := rn_lock n - 1\<rparr>) t;
       n \<leftarrow> rt_nodes t a;
       if rn_lock n = 0 then route_node_delete a t else Some t
     }"

text \<open>The guard of the descending loops: the node exists, is not longer than the key and covers it.\<close>

definition node_covers :: "'a route_node \<Rightarrow> prefix \<Rightarrow> bool option" where
  "node_covers n p =
     (if pfx_prefixlen (rn_p n) \<le> pfx_prefixlen p
      then do { m \<leftarrow> prefix_match (rn_p n) p; Some (m \<noteq> 0) }
      else Some False)"

partial_function (option) route_match_loop ::
  "'a route_table \<Rightarrow> addr option \<Rightarrow> addr option \<Rightarrow> prefix \<Rightarrow> addr option option" where
  "route_match_loop t matched node p =
     (case node of None \<Rightarrow> Some matched
      | Some a \<Rightarrow>
          do {
            n \<leftarrow> rt_nodes t a;
            c \<leftarrow> node_covers n p;
            if c then do {
                   b \<leftarrow> prefix_bit (pfx_u p) (pfx_prefixlen (rn_p n));
                   route_match_loop t (if rn_info n \<noteq> None then Some a else matched) (node_link n b) p
                 }
            else Some matched
          })"

definition route_node_match :: "'a route_table \<Rightarrow> prefix \<Rightarrow> (addr option \<times> 'a route_table) option" where
  "route_node_match t p =
     do {
       matched \<leftarrow> route_match_loop t None (rt_top t) p;
       (case matched of None \<Rightarrow> Some (None, t)
        | Some a \<Rightarrow> do { t \<leftarrow> route_lock_node a t; Some (Some a, t) })
     }"

text \<open>
  The two host-route variants build a zeroed prefix structure around the address. The
  bytes readable after an IPv4 address are the four padding bytes of the structure.
\<close>

definition route_node_match_ipv4 :: "'a route_table \<Rightarrow> u8 list \<Rightarrow> (addr option \<times> 'a route_table) option" where
  "route_node_match_ipv4 t address =
     route_node_match t \<lparr>pfx_family = AF_INET, pfx_prefixlen = IPV4_MAX_PREFIXLEN,
       pfx_u = address @ [0, 0, 0, 0]\<rparr>"

definition route_node_match_ipv6 :: "'a route_table \<Rightarrow> u8 list \<Rightarrow> (addr option \<times> 'a route_table) option" where
  "route_node_match_ipv6 t address =
     route_node_match t \<lparr>pfx_family = AF_INET6, pfx_prefixlen = IPV6_MAX_PREFIXLEN, pfx_u = address\<rparr>"

partial_function (option) route_lookup_loop ::
  "'a route_table \<Rightarrow> addr option \<Rightarrow> prefix \<Rightarrow> addr option option" where
  "route_lookup_loop t node p =
     (case node of None \<Rightarrow> Some None
      | Some a \<Rightarrow>
          do {
            n \<leftarrow> rt_nodes t a;
            c \<leftarrow> node_covers n p;
            if c then
              if pfx_prefixlen (rn_p n) = pfx_prefixlen p \<and> rn_info n \<noteq> None then Some (Some a)
              else do {
                     b \<leftarrow> prefix_bit (pfx_u p) (pfx_prefixlen (rn_p n));
                     route_lookup_loop t (node_link n b) p
                   }
            else Some None
          })"

definition route_node_lookup :: "'a route_table \<Rightarrow> prefix \<Rightarrow> (addr option \<times> 'a route_table) option" where
  "route_node_lookup t p =
     do {
       found \<leftarrow> route_lookup_loop t (rt_top t) p;
       (case found of None \<Rightarrow> Some (None, t)
        | Some a \<Rightarrow> do { t \<leftarrow> route_lock_node a t; Some (Some a, t) })
     }"

text \<open>
  The descent of \<open>route_node_get\<close> ends at a node of the key's own length, or with the
  last covering node and the link it stopped at.
\<close>

datatype descent = Exact addr | Stopped "addr option" "addr option"

partial_function (option) route_get_loop ::
  "'a route_table \<Rightarrow> addr option \<Rightarrow> addr option \<Rightarrow> prefix \<Rightarrow> descent option" where
  "route_get_loop t match node p =
     (case node of None \<Rightarrow> Some (Stopped match None)
      | Some a \<Rightarrow>
          do {
            n \<leftarrow> rt_nodes t a;
            c \<leftarrow> node_covers n p;
            if c then
              if pfx_prefixlen (rn_p n) = pfx_prefixlen p then Some (Exact a)
              else do {
                     b \<leftarrow> prefix_bit (pfx_u p) (pfx_prefixlen (rn_p n));
                     route_get_loop t (Some a) (node_link n b) p
                   }
            else Some (Stopped match (Some a))
          })"

definition link_or_top :: "addr option \<Rightarrow> addr \<Rightarrow> 'a route_table \<Rightarrow> 'a route_table option" where
  "link_or_top match new t =
     (case match of Some m \<Rightarrow> set_link m new t | None \<Rightarrow> Some (t\<lparr>rt_top := Some new\<rparr>))"

definition route_node_get :: "'a route_table \<Rightarrow> prefix \<Rightarrow> (addr \<times> 'a route_table) option" where
  "route_node_get t p =
     do {
       d \<leftarrow> route_get_loop t None (rt_top t) p;
       (case d of
          Exact a \<Rightarrow> do { t \<leftarrow> route_lock_node a t; Some (a, t) }
        | Stopped match None \<Rightarrow>
            do {
              (new, t) \<leftarrow> route_node_set t p;
              t \<leftarrow> link_or_top match new t;
              t \<leftarrow> route_lock_node new t;
              Some (new, t)
            }
        | Stopped match (Some node) \<Rightarrow>
            do {
              nn \<leftarrow> rt_nodes t node;
              let (new, t) = route_node_new t;
              q \<leftarrow> route_common (rn_p nn) p prefix_new;
              t \<leftarrow> upd_node new (\<lambda>n. n\<lparr>rn_p := q\<lparr>pfx_family := pfx_family p\<rparr>\<rparr>) t;
              t \<leftarrow> set_link new node t;
              t \<leftarrow> link_or_top match new t;
              if pfx_prefixlen q \<noteq> pfx_prefixlen p
              then do {
                     (leaf, t) \<leftarrow> route_node_set t p;
                     t \<leftarrow> set_link new leaf t;
                     t \<leftarrow> route_lock_node leaf t;
                     Some (leaf, t)
                   }
              else do { t \<leftarrow> route_lock_node new t; Some (new, t) }
            })
     }"

definition route_top :: "'a route_table \<Rightarrow> (addr option \<times> 'a route_table) option" where
  "route_top t =
     (case rt_top t of None \<Rightarrow> Some (None, t)
      | Some a \<Rightarrow> do { t \<leftarrow> route_lock_node a t; Some (Some a, t) })"

text \<open>
  The ascent of \<open>route_next\<close> and \<open>route_next_until\<close>: up to the first ancestor that
  is reached from its left link and has a right one.
\<close>

partial_function (option) route_ascend ::
  "'a route_table \<Rightarrow> addr option \<Rightarrow> addr \<Rightarrow> addr option option" where
  "route_ascend t limit node =
     do {
       n \<leftarrow> rt_nodes t node;
       (case rn_parent n of None \<Rightarrow> Some None
        | Some b \<Rightarrow>
            if limit = Some node then Some None
            else do {
                   pn \<leftarrow> rt_nodes t b;
                   if rn_left pn = Some node \<and> rn_right pn \<noteq> None then Some (rn_right pn)
                   else route_ascend t limit b
                 })
     }"

definition route_succ :: "'a route_table \<Rightarrow> addr option \<Rightarrow> addr \<Rightarrow> addr option option" where
  "route_succ t limit node =
     do {
       n \<leftarrow> rt_nodes t node;
       if rn_left n \<noteq> None then Some (rn_left n)
       else if rn_right n \<noteq> None then Some (rn_right n)
       else route_ascend t limit node
     }"

definition route_advance ::
  "addr option \<Rightarrow> addr \<Rightarrow> 'a route_table \<Rightarrow> (addr option \<times> 'a route_table) option" where
  "route_advance limit node t =
     do {
       s \<leftarrow> route_succ t limit node;
       t \<leftarrow> (case s of None \<Rightarrow> Some t | Some b \<Rightarrow> route_lock_node b t);
       t \<leftarrow> route_unlock_node node t;
       Some (s, t)
     }"

definition route_next :: "addr \<Rightarrow> 'a route_table \<Rightarrow> (addr option \<times> 'a route_table) option" where
  "route_next node t = route_advance None node t"

definition route_next_until ::
  "addr \<Rightarrow> addr \<Rightarrow> 'a route_table \<Rightarrow> (addr option \<times> 'a route_table) option" where
  "route_next_until node limit t = route_advance (Some limit) node t"

text \<open>\<open>route_prev\<close> walks forward from the parent until it meets the node again.\<close>

partial_function (option) route_prev_loop ::
  "addr \<Rightarrow> addr option \<Rightarrow> addr option \<Rightarrow> 'a route_table \<Rightarrow> (addr option \<times> 'a route_table) option" where
  "route_prev_loop stop prev node t =
     (case node of None \<Rightarrow> Some (prev, t)
      | Some a \<Rightarrow>
          do {
            (nx, t) \<leftarrow> route_next a t;
            if nx = Some stop
            then do { t \<leftarrow> route_unlock_node stop t; route_prev_loop stop (Some a) None t }
            else route_prev_loop stop (Some a) nx t
          })"

definition route_prev :: "addr \<Rightarrow> 'a route_table \<Rightarrow> (addr option \<times> 'a route_table) option" where
  "route_prev node t =
     do {
       n \<leftarrow> rt_nodes t node;
       t \<leftarrow> (case rn_parent n of None \<Rightarrow> Some t | Some b \<Rightarrow> route_lock_node b t);
       (prev, t) \<leftarrow> route_prev_loop node None (rn_parent n) t;
       t \<leftarrow> route_unlock_node node t;
       t \<leftarrow> (case prev of None \<Rightarrow> Some t | Some b \<Rightarrow> route_lock_node b t);
       Some (prev, t)
     }"

text \<open>The client's assignment \<open>node->info = info\<close>.\<close>

definition route_node_info :: "addr \<Rightarrow> 'a option \<Rightarrow> 'a route_table \<Rightarrow> 'a route_table option" where
  "route_node_info a i t = upd_node a (\<lambda>n. n\<lparr>rn_info := i\<rparr>) t"

text \<open>The equations of the pointer loops compute.\<close>

declare route_node_delete.simps [code]
declare route_match_loop.simps [code]
declare route_lookup_loop.simps [code]
declare route_get_loop.simps [code]
declare route_ascend.simps [code]
declare route_prev_loop.simps [code]

end
