(* ===== verification/Lib_Table_Inv.thy ===== *)
theory Lib_Table_Inv
  imports Lib_Table
begin

text \<open>
  The invariant of a route table: its pointers form a tree with consistent parent links
  that spans the whole store, and along every path the bit strings of the nodes grow, the
  link taken being the next bit. The tree of addresses is a ghost; positions inside it are
  contexts (zippers), so that an update at one place is reasoned about locally.
\<close>

section \<open>Trees in the store\<close>

fun tree_at :: "(addr \<Rightarrow> 'a route_node option) \<Rightarrow> addr option \<Rightarrow> addr option \<Rightarrow> addr tree \<Rightarrow> bool" where
  "tree_at N par ptr Leaf \<longleftrightarrow> ptr = None"
| "tree_at N par ptr (Node l a r) \<longleftrightarrow>
     ptr = Some a \<and> (\<exists>n. N a = Some n \<and> rn_parent n = par
       \<and> tree_at N (Some a) (rn_left n) l \<and> tree_at N (Some a) (rn_right n) r)"

definition pfx_of :: "(addr \<Rightarrow> 'a route_node option) \<Rightarrow> addr \<Rightarrow> prefix option" where
  "pfx_of N a = map_option rn_p (N a)"

definition pbits :: "(addr \<Rightarrow> prefix option) \<Rightarrow> addr \<Rightarrow> bool list" where
  "pbits P a = (case P a of None \<Rightarrow> [] | Some p \<Rightarrow> prefix_bits p)"

text \<open>A node prefix always has the whole 16-byte union.\<close>

definition wf_node_prefix :: "prefix option \<Rightarrow> bool" where
  "wf_node_prefix q \<longleftrightarrow> (\<exists>p. q = Some p \<and> length (pfx_u p) = 16 \<and> wf_prefix p)"

definition below :: "(addr \<Rightarrow> prefix option) \<Rightarrow> addr \<Rightarrow> bool \<Rightarrow> addr \<Rightarrow> bool" where
  "below P a d b \<longleftrightarrow> (\<exists>zs. pbits P b = pbits P a @ d # zs)"

fun radix :: "(addr \<Rightarrow> prefix option) \<Rightarrow> addr tree \<Rightarrow> bool" where
  "radix P Leaf \<longleftrightarrow> True"
| "radix P (Node l a r) \<longleftrightarrow>
     wf_node_prefix (P a) \<and> (\<forall>b\<in>set_tree l. below P a False b) \<and> (\<forall>b\<in>set_tree r. below P a True b)
     \<and> radix P l \<and> radix P r"

definition table_tree :: "'a route_table \<Rightarrow> addr tree \<Rightarrow> bool" where
  "table_tree t T \<longleftrightarrow>
     tree_at (rt_nodes t) None (rt_top t) T \<and> radix (pfx_of (rt_nodes t)) T
     \<and> dom (rt_nodes t) = set_tree T \<and> (\<forall>a\<in>set_tree T. a < rt_fresh t)"

definition wf_table :: "'a route_table \<Rightarrow> bool" where
  "wf_table t \<longleftrightarrow> (\<exists>T. table_tree t T)"

lemma pfx_of_simps [simp]:
  "N a = Some n \<Longrightarrow> pfx_of N a = Some (rn_p n)"
  "N a = None \<Longrightarrow> pfx_of N a = None"
  by (simp_all add: pfx_of_def)

lemma pbits_Some [simp]: "P a = Some p \<Longrightarrow> pbits P a = prefix_bits p"
  by (simp add: pbits_def)

section \<open>Distinctness and congruence\<close>

lemma below_neq: "below P a d b \<Longrightarrow> a \<noteq> b"
  by (auto simp: below_def)

lemma below_disjoint: "below P a True b \<Longrightarrow> below P a False c \<Longrightarrow> b \<noteq> c"
  by (auto simp: below_def)

lemma radix_distinct:
  assumes "radix P (Node l a r)"
  shows "a \<notin> set_tree l" and "a \<notin> set_tree r" and "set_tree l \<inter> set_tree r = {}"
  using assms below_neq below_disjoint by (auto; blast)+

lemma radix_wf: "radix P T \<Longrightarrow> a \<in> set_tree T \<Longrightarrow> wf_node_prefix (P a)"
  by (induction T) auto

lemma radix_cong: "(\<And>a. a \<in> set_tree T \<Longrightarrow> P' a = P a) \<Longrightarrow> radix P' T = radix P T"
proof (induction T)
  case (Node l a r)
  then have eq: "pbits P' b = pbits P b" if "b \<in> set_tree (Node l a r)" for b
    using that by (simp add: pbits_def)
  then have "below P' a d b = below P a d b" if "b \<in> set_tree (Node l a r)" for b d
    using that by (simp add: below_def)
  with Node show ?case by auto
qed simp

definition shape :: "(addr \<Rightarrow> 'a route_node option) \<Rightarrow> addr \<Rightarrow> (addr option \<times> addr option \<times> addr option) option" where
  "shape N a = map_option (\<lambda>n. (rn_parent n, rn_left n, rn_right n)) (N a)"

lemma tree_at_cong:
  "(\<And>a. a \<in> set_tree T \<Longrightarrow> shape N' a = shape N a) \<Longrightarrow> tree_at N' par ptr T = tree_at N par ptr T"
proof (induction T arbitrary: par ptr)
  case (Node l a r)
  have "shape N' a = shape N a" using Node.prems by simp
  then have *: "(\<exists>n. N' a = Some n \<and> rn_parent n = x \<and> Q (rn_left n) (rn_right n)) \<longleftrightarrow>
      (\<exists>n. N a = Some n \<and> rn_parent n = x \<and> Q (rn_left n) (rn_right n))" for x Q
    by (cases "N a"; cases "N' a") (auto simp: shape_def)
  from Node * [of par "\<lambda>x y. tree_at N (Some a) x l \<and> tree_at N (Some a) y r"] show ?case
    by simp
qed simp

lemma tree_at_dom: "tree_at N par ptr T \<Longrightarrow> a \<in> set_tree T \<Longrightarrow> N a \<noteq> None"
  by (induction T arbitrary: par ptr) auto

lemma tree_at_unique: "tree_at N par ptr T \<Longrightarrow> tree_at N par ptr T' \<Longrightarrow> T = T'"
proof (induction T arbitrary: par ptr T')
  case Leaf
  then show ?case by (cases T') auto
next
  case (Node l a r)
  then show ?case by (cases T') fastforce+
qed

section \<open>Keys\<close>

text \<open>
  A key the lookups may be called with: its length is below the number of address bits, so
  that reading the bit after the prefix stays inside the address.
\<close>

definition lookup_key :: "prefix \<Rightarrow> bool" where
  "lookup_key p \<longleftrightarrow> unat (pfx_prefixlen p) < 8 * length (pfx_u p)"

lemma lookup_key_wf [simp]: "lookup_key p \<Longrightarrow> wf_prefix p"
  by (simp add: lookup_key_def wf_prefix_def)

lemma node_covers_iff:
  assumes "wf_prefix (rn_p n)" and "wf_prefix p"
  shows "node_covers n p = Some (\<exists>rest. prefix_bits p = prefix_bits (rn_p n) @ rest)"
proof (cases "pfx_prefixlen (rn_p n) \<le> pfx_prefixlen p")
  case True
  let ?m = "unat (pfx_prefixlen (rn_p n)) \<le> unat (pfx_prefixlen p)
      \<and> prefix_bits (rn_p n) = take (unat (pfx_prefixlen (rn_p n))) (prefix_bits p)"
  have "?m \<longleftrightarrow> (\<exists>rest. prefix_bits p = prefix_bits (rn_p n) @ rest)"
  proof
    assume ?m
    then show "\<exists>rest. prefix_bits p = prefix_bits (rn_p n) @ rest"
      by (metis append_take_drop_id)
  next
    assume "\<exists>rest. prefix_bits p = prefix_bits (rn_p n) @ rest"
    with True assms show ?m by (auto simp: word_le_nat_alt)
  qed
  with True show ?thesis
    by (simp add: node_covers_def prefix_match_bits [OF assms])
next
  case False
  have "\<not> (\<exists>rest. prefix_bits p = prefix_bits (rn_p n) @ rest)"
  proof
    assume "\<exists>rest. prefix_bits p = prefix_bits (rn_p n) @ rest"
    then have "length (prefix_bits (rn_p n)) \<le> length (prefix_bits p)" by auto
    with False assms show False by (simp add: word_le_nat_alt)
  qed
  with False show ?thesis by (simp add: node_covers_def)
qed

lemma prefix_bit_key:
  assumes "wf_prefix p" and "unat len < unat (pfx_prefixlen p)"
  shows "prefix_bit (pfx_u p) len = Some (of_bool (prefix_bits p ! unat len))"
  using assms by (simp add: prefix_bit_nth wf_prefix_def prefix_bits_def)

lemma node_link_of_bool [simp]: "node_link n (of_bool c) = (if c then rn_right n else rn_left n)"
  by (simp add: node_link_def)

lemma covers_next:
  assumes "wf_prefix q" and "wf_prefix p" and "prefix_bits p = prefix_bits q @ c # rest"
  shows "prefix_bit (pfx_u p) (pfx_prefixlen q) = Some (of_bool c)"
proof -
  have "length (prefix_bits q) < length (prefix_bits p)" by (simp add: assms(3))
  then have "unat (pfx_prefixlen q) < unat (pfx_prefixlen p)" using assms(1,2) by simp
  moreover have "prefix_bits p ! unat (pfx_prefixlen q) = c"
    using assms by (simp add: nth_append)
  ultimately show ?thesis using assms by (simp add: prefix_bit_key)
qed

end
