(* ===== verification/Lib_Table_Lookup.thy ===== *)
theory Lib_Table_Lookup
  imports Lib_Table_Inv
begin

text \<open>
  What the searches of a route table find: \<open>route_node_lookup\<close> the node that carries
  exactly the key, \<open>route_node_match\<close> the longest node that covers it. Both always
  return, and change nothing but the lock of the node they return.
\<close>

section \<open>Nodes of a tree and their bit strings\<close>

definition info_at :: "(addr \<Rightarrow> 'a route_node option) \<Rightarrow> addr \<Rightarrow> 'a option" where
  "info_at N a = Option.bind (N a) rn_info"

definition covers_bits :: "bool list \<Rightarrow> bool list \<Rightarrow> bool" where
  "covers_bits xs ys \<longleftrightarrow> (\<exists>rest. ys = xs @ rest)"

lemma covers_bits_length: "covers_bits xs ys \<Longrightarrow> length xs \<le> length ys"
  by (auto simp: covers_bits_def)

lemma covers_bits_same_length: "covers_bits xs ys \<Longrightarrow> length xs = length ys \<longleftrightarrow> ys = xs"
  by (auto simp: covers_bits_def)

lemma below_covers: "below P a d b \<Longrightarrow> covers_bits (pbits P b) ys \<Longrightarrow> \<exists>rest. ys = pbits P a @ d # rest"
  by (auto simp: below_def covers_bits_def)

lemma below_longer: "below P a d b \<Longrightarrow> length (pbits P a) < length (pbits P b)"
  by (auto simp: below_def)

lemma radix_below:
  assumes "radix P (Node l a r)" and "b \<in> set_tree (Node l a r)"
  shows "b = a \<or> b \<in> set_tree l \<and> below P a False b \<or> b \<in> set_tree r \<and> below P a True b"
  using assms by auto

lemma radix_covers_root:
  assumes "radix P (Node l a r)" and "b \<in> set_tree (Node l a r)" and "covers_bits (pbits P b) ys"
  shows "covers_bits (pbits P a) ys"
  using radix_below [OF assms(1,2)] assms(3) below_covers [of P a _ b ys]
  by (auto simp: covers_bits_def)

lemma radix_inj:
  "radix P T \<Longrightarrow> a \<in> set_tree T \<Longrightarrow> b \<in> set_tree T \<Longrightarrow> pbits P a = pbits P b \<Longrightarrow> a = b"
proof (induction T)
  case (Node l c r)
  have *: "x = c \<or> x \<in> set_tree l \<and> below P c False x \<or> x \<in> set_tree r \<and> below P c True x"
    if "x \<in> set_tree (Node l c r)" for x
    using radix_below [OF Node.prems(1) that] .
  from * [OF Node.prems(2)] * [OF Node.prems(3)] Node.prems(1,4) Node.IH show ?case
    by (auto simp: below_def)
qed simp

text \<open>Below a covering node only the side of the key's next bit can match the key.\<close>

lemma radix_side:
  assumes "radix P (Node l a r)" and "b \<in> set_tree (Node l a r)" and "b \<noteq> a"
    and "covers_bits (pbits P b) (pbits P a @ c # rest)"
  shows "b \<in> set_tree (if c then r else l)"
  using radix_below [OF assms(1,2)] assms(3) below_covers [OF _ assms(4)] by auto

section \<open>Lookup\<close>

definition node_found :: "(addr \<Rightarrow> 'a route_node option) \<Rightarrow> addr tree \<Rightarrow> bool list \<Rightarrow> addr \<Rightarrow> bool" where
  "node_found N T bs a \<longleftrightarrow> a \<in> set_tree T \<and> pbits (pfx_of N) a = bs \<and> info_at N a \<noteq> None"

lemma key_next_bit:
  assumes "lookup_key p" and "wf_prefix q" and "prefix_bits p = prefix_bits q @ rest"
  shows "\<exists>c. prefix_bit (pfx_u p) (pfx_prefixlen q) = Some (of_bool c) \<and> (rest \<noteq> [] \<longrightarrow> hd rest = c)"
proof -
  have wf: "wf_prefix p" using assms(1) by simp
  have "length (prefix_bits q) \<le> length (prefix_bits p)" using assms(3) by simp
  then have "unat (pfx_prefixlen q) < 8 * length (pfx_u p)"
    using assms(1,2) wf by (simp add: lookup_key_def)
  then have "prefix_bit (pfx_u p) (pfx_prefixlen q) = Some (of_bool (bits_of (pfx_u p) ! unat (pfx_prefixlen q)))"
    by (rule prefix_bit_nth)
  moreover have "rest \<noteq> [] \<longrightarrow> hd rest = bits_of (pfx_u p) ! unat (pfx_prefixlen q)"
    using covers_next [OF assms(2) wf, of "hd rest" "tl rest"] assms(3) calculation
    by (cases rest) (auto simp: of_bool_eq_iff)
  ultimately show ?thesis by blast
qed

lemma radix_node:
  assumes "tree_at N par ptr (Node l a r)" and "radix (pfx_of N) (Node l a r)"
  obtains n where "ptr = Some a" and "N a = Some n" and "wf_prefix (rn_p n)" and "length (pfx_u (rn_p n)) = 16"
    and "pbits (pfx_of N) a = prefix_bits (rn_p n)" and "info_at N a = rn_info n"
    and "tree_at N (Some a) (rn_left n) l" and "tree_at N (Some a) (rn_right n) r"
    and "radix (pfx_of N) l" and "radix (pfx_of N) r"
  using assms by (auto simp: wf_node_prefix_def info_at_def)

lemma node_covers_bits:
  assumes "wf_prefix (rn_p n)" and "wf_prefix p"
  shows "node_covers n p = Some (covers_bits (prefix_bits (rn_p n)) (prefix_bits p))"
  using node_covers_iff [OF assms] by (simp add: covers_bits_def)

lemma same_prefixlen_iff:
  assumes "wf_prefix q" and "wf_prefix p" and "covers_bits (prefix_bits q) (prefix_bits p)"
  shows "pfx_prefixlen q = pfx_prefixlen p \<longleftrightarrow> prefix_bits p = prefix_bits q"
  using covers_bits_same_length [OF assms(3)] assms(1,2) by (simp add: word_unat_eq_iff)

lemma route_lookup_loop_finds:
  assumes "lookup_key p"
  shows "tree_at (rt_nodes t) par ptr T \<Longrightarrow> radix (pfx_of (rt_nodes t)) T \<Longrightarrow>
    \<exists>res. route_lookup_loop t ptr p = Some res
      \<and> (\<forall>a. res = Some a \<longleftrightarrow> node_found (rt_nodes t) T (prefix_bits p) a)"
proof (induction T arbitrary: par ptr)
  case Leaf
  then show ?case by (simp add: route_lookup_loop.simps node_found_def)
next
  case (Node l a r)
  let ?N = "rt_nodes t" and ?P = "pfx_of (rt_nodes t)" and ?T = "Node l a r"
  from radix_node [OF Node.prems] obtain n where n: "ptr = Some a" "?N a = Some n"
    "wf_prefix (rn_p n)" "pbits ?P a = prefix_bits (rn_p n)" "info_at ?N a = rn_info n"
    and sub: "tree_at ?N (Some a) (rn_left n) l" "tree_at ?N (Some a) (rn_right n) r"
      "radix ?P l" "radix ?P r" by blast
  have wf: "wf_prefix p" using assms by simp
  note cov = node_covers_bits [OF n(3) wf]
  note loop = route_lookup_loop.simps [of t "Some a" p]
  show ?case
  proof (cases "covers_bits (prefix_bits (rn_p n)) (prefix_bits p)")
    case False
    then have "\<not> node_found ?N ?T (prefix_bits p) b" for b
      using radix_covers_root [OF Node.prems(2), of b "prefix_bits p"] n(4)
      by (auto simp: node_found_def covers_bits_def)
    with False n cov show ?thesis by (simp add: loop)
  next
    case True
    note len = same_prefixlen_iff [OF n(3) wf True]
    show ?thesis
    proof (cases "prefix_bits p = prefix_bits (rn_p n) \<and> rn_info n \<noteq> None")
      case same: True
      then have "node_found ?N ?T (prefix_bits p) b \<longleftrightarrow> a = b" for b
        using radix_inj [OF Node.prems(2), of a b] n by (auto simp: node_found_def)
      with True same n cov len show ?thesis by (simp add: loop)
    next
      case other: False
      from True obtain rest where rest: "prefix_bits p = prefix_bits (rn_p n) @ rest"
        by (auto simp: covers_bits_def)
      from key_next_bit [OF assms n(3) rest] obtain c where
        c: "prefix_bit (pfx_u p) (pfx_prefixlen (rn_p n)) = Some (of_bool c)" "rest \<noteq> [] \<longrightarrow> hd rest = c"
        by blast
      let ?S = "if c then r else l"
      have step: "route_lookup_loop t ptr p = route_lookup_loop t (if c then rn_right n else rn_left n) p"
        using n cov True other len c by (auto simp: loop)
      have "node_found ?N ?T (prefix_bits p) b \<longleftrightarrow> node_found ?N ?S (prefix_bits p) b" for b
      proof
        assume found: "node_found ?N ?T (prefix_bits p) b"
        then have "b \<noteq> a" using other n by (auto simp: node_found_def)
        moreover have mem: "b \<in> set_tree ?T" and bits: "pbits ?P b = prefix_bits p"
          using found by (auto simp: node_found_def)
        ultimately have "rest \<noteq> []"
          using radix_inj [OF Node.prems(2) mem, of a] rest n by auto
        then have "prefix_bits p = pbits ?P a @ c # tl rest" using rest c n by (cases rest) auto
        then have "b \<in> set_tree ?S"
          using radix_side [OF Node.prems(2) mem \<open>b \<noteq> a\<close>, of c "tl rest"] bits
          by (simp add: covers_bits_def)
        with found show "node_found ?N ?S (prefix_bits p) b" by (simp add: node_found_def)
      qed (auto simp: node_found_def split: if_splits)
      with step Node.IH sub show ?thesis by (cases c) auto
    qed
  qed
qed

section \<open>Longest match\<close>

definition match_cand :: "(addr \<Rightarrow> 'a route_node option) \<Rightarrow> addr tree \<Rightarrow> bool list \<Rightarrow> addr \<Rightarrow> bool" where
  "match_cand N T bs a \<longleftrightarrow> a \<in> set_tree T \<and> covers_bits (pbits (pfx_of N) a) bs \<and> info_at N a \<noteq> None"

definition longest_match :: "(addr \<Rightarrow> 'a route_node option) \<Rightarrow> addr tree \<Rightarrow> bool list \<Rightarrow> addr \<Rightarrow> bool" where
  "longest_match N T bs a \<longleftrightarrow> match_cand N T bs a
     \<and> (\<forall>b. match_cand N T bs b \<longrightarrow> length (pbits (pfx_of N) b) \<le> length (pbits (pfx_of N) a))"

lemma route_match_loop_longest:
  assumes "lookup_key p"
  shows "tree_at (rt_nodes t) par ptr T \<Longrightarrow> radix (pfx_of (rt_nodes t)) T \<Longrightarrow>
    \<exists>res. route_match_loop t m ptr p = Some res
      \<and> (res = m \<and> (\<forall>a. \<not> match_cand (rt_nodes t) T (prefix_bits p) a)
         \<or> (\<exists>a. res = Some a \<and> longest_match (rt_nodes t) T (prefix_bits p) a))"
proof (induction T arbitrary: par ptr m)
  case Leaf
  then show ?case by (simp add: route_match_loop.simps match_cand_def)
next
  case (Node l a r)
  let ?N = "rt_nodes t" and ?P = "pfx_of (rt_nodes t)" and ?T = "Node l a r" and ?k = "prefix_bits p"
  from radix_node [OF Node.prems] obtain n where n: "ptr = Some a" "?N a = Some n"
    "wf_prefix (rn_p n)" "pbits ?P a = prefix_bits (rn_p n)" "info_at ?N a = rn_info n"
    and sub: "tree_at ?N (Some a) (rn_left n) l" "tree_at ?N (Some a) (rn_right n) r"
      "radix ?P l" "radix ?P r" by blast
  have wf: "wf_prefix p" using assms by simp
  note cov = node_covers_bits [OF n(3) wf]
  note loop = route_match_loop.simps [of t m "Some a" p]
  show ?case
  proof (cases "covers_bits (prefix_bits (rn_p n)) ?k")
    case False
    then have "\<not> match_cand ?N ?T ?k b" for b
      using radix_covers_root [OF Node.prems(2), of b ?k] n(4) by (auto simp: match_cand_def)
    with False n cov show ?thesis by (simp add: loop)
  next
    case True
    then obtain rest where rest: "?k = prefix_bits (rn_p n) @ rest" by (auto simp: covers_bits_def)
    from key_next_bit [OF assms n(3) rest] obtain c where
      c: "prefix_bit (pfx_u p) (pfx_prefixlen (rn_p n)) = Some (of_bool c)" "rest \<noteq> [] \<longrightarrow> hd rest = c"
      by blast
    let ?S = "if c then r else l" and ?m = "if rn_info n \<noteq> None then Some a else m"
    have step: "route_match_loop t m ptr p = route_match_loop t ?m (if c then rn_right n else rn_left n) p"
      using n cov True c by (auto simp: loop)
    have side: "match_cand ?N ?T ?k b \<longleftrightarrow> b = a \<and> rn_info n \<noteq> None \<or> match_cand ?N ?S ?k b" for b
    proof (cases "b = a")
      case True
      have "a \<notin> set_tree ?S" using radix_distinct [OF Node.prems(2)] by auto
      with True n \<open>covers_bits (prefix_bits (rn_p n)) ?k\<close> show ?thesis by (auto simp: match_cand_def)
    next
      case ba: False
      have "b \<in> set_tree ?S" if mem: "b \<in> set_tree ?T" and cb: "covers_bits (pbits ?P b) ?k"
      proof -
        have "below P' a d b \<Longrightarrow> length (pbits P' a) < length (pbits P' b)" for P' d
          by (rule below_longer)
        then have "length (pbits ?P a) < length ?k"
          using radix_below [OF Node.prems(2) mem] ba covers_bits_length [OF cb] by fastforce
        then have "rest \<noteq> []" using rest n by auto
        then have "?k = pbits ?P a @ c # tl rest" using rest c n by (cases rest) auto
        then show ?thesis using radix_side [OF Node.prems(2) mem ba, of c "tl rest"] cb by simp
      qed
      with ba show ?thesis by (auto simp: match_cand_def split: if_splits)
    qed
    have longer: "length (pbits ?P a) \<le> length (pbits ?P b)" if "match_cand ?N ?S ?k b" for b
    proof -
      have "b \<in> set_tree ?S" using that by (simp add: match_cand_def)
      then have "\<exists>d. below ?P a d b" using Node.prems(2) by (cases c) auto
      then show ?thesis using below_longer by fastforce
    qed
    have "\<exists>res. route_match_loop t ?m (if c then rn_right n else rn_left n) p = Some res
      \<and> (res = ?m \<and> (\<forall>a. \<not> match_cand ?N ?S ?k a) \<or> (\<exists>a. res = Some a \<and> longest_match ?N ?S ?k a))"
      using Node.IH sub by (cases c) auto
    then obtain res where res: "route_match_loop t ?m (if c then rn_right n else rn_left n) p = Some res"
      and cases: "res = ?m \<and> (\<forall>a. \<not> match_cand ?N ?S ?k a) \<or> (\<exists>a. res = Some a \<and> longest_match ?N ?S ?k a)"
      by blast
    from cases have "res = m \<and> (\<forall>a. \<not> match_cand ?N ?T ?k a) \<or> (\<exists>a. res = Some a \<and> longest_match ?N ?T ?k a)"
      using longer by (fastforce simp: longest_match_def side)
    with step res show ?thesis by simp
  qed
qed

end
