(* ===== verification/Lib_Table_Common.thy ===== *)
theory Lib_Table_Common
  imports Lib_Table_Lookup
begin

text \<open>
  \<open>route_common\<close> of \<open>lib/table.c\<close> computes the longest common bit string of two
  prefixes, and \<open>prefix_copy\<close> keeps the bit string it copies.
\<close>

section \<open>The byte loop\<close>

lemma common_bytes_spec:
  assumes "i + k \<le> length np" and "i + k \<le> length pp" and "i + k \<le> length newp"
    and "take i np = take i pp" and "take i newp = take i np"
  shows "\<exists>j newp'. common_bytes np pp newp i k = Some (j, newp') \<and> i \<le> j \<and> j \<le> i + k
    \<and> take j np = take j pp \<and> take j newp' = take j np \<and> length newp' = length newp
    \<and> (j < i + k \<longrightarrow> np ! j \<noteq> pp ! j)"
  using assms
proof (induction k arbitrary: i newp)
  case 0
  then show ?case by auto
next
  case (Suc k)
  show ?case
  proof (cases "np ! i = pp ! i")
    case True
    let ?newp = "newp[i := np ! i]"
    have 1: "take (Suc i) np = take (Suc i) pp"
      using Suc.prems True by (simp add: take_Suc_conv_app_nth)
    have 2: "take (Suc i) ?newp = take (Suc i) np"
      using Suc.prems by (simp add: take_Suc_conv_app_nth)
    have "common_bytes np pp newp i (Suc k) = common_bytes np pp ?newp (Suc i) k"
      using Suc.prems True by simp
    with Suc.IH [of "Suc i" ?newp] 1 2 Suc.prems show ?thesis by (auto simp: Suc_le_eq)
  next
    case False
    with Suc.prems show ?thesis by auto
  qed
qed

section \<open>The bit loop\<close>

lemma drop_bit_0x80_and:
  assumes "s < 8"
  shows "drop_bit s 0x80 AND diff = 0 \<longleftrightarrow> \<not> bit (diff :: u8) (7 - s)"
proof -
  have b: "bit (0x80 :: u8) j \<longleftrightarrow> j = 7" for j
  proof -
    have "(0x80 :: u8) = push_bit 7 1" by simp
    then show ?thesis by (simp only: bit_push_bit_iff) auto
  qed
  have "bit (drop_bit s (0x80 :: u8)) j \<longleftrightarrow> s + j = 7" for j
    by (simp only: bit_drop_bit_eq o_def b)
  moreover have "s + j = 7 \<longleftrightarrow> j = 7 - s" for j
    using assms by auto
  ultimately have "bit (drop_bit s 0x80 AND diff) j \<longleftrightarrow> j = 7 - s \<and> bit diff j" for j
    by (simp add: bit_and_iff)
  then have "(\<exists>j. bit (drop_bit s 0x80 AND diff) j) \<longleftrightarrow> bit diff (7 - s)" by auto
  moreover have "drop_bit s 0x80 AND diff = 0 \<longleftrightarrow> (\<nexists>j. bit (drop_bit s 0x80 AND diff) j)"
    using bit_word_eqI [of "drop_bit s 0x80 AND diff" 0] by (metis bit_0_eq bot_apply bot_bool_def)
  ultimately show ?thesis by blast
qed

lemma common_bits_spec:
  assumes "s \<le> 7" and "8 * i + s \<le> unat plen" and "unat plen \<le> 128"
    and "\<forall>j < s. \<not> bit diff (7 - j)" and "unat plen < 8 * i + 8 \<or> diff \<noteq> 0"
  shows "\<exists>m. common_bits diff (drop_bit s 0x80) (word_of_nat (8 * i + s)) plen = word_of_nat (8 * i + m)
    \<and> m \<le> 7 \<and> 8 * i + m \<le> unat plen \<and> (\<forall>j < m. \<not> bit diff (7 - j))
    \<and> (8 * i + m < unat plen \<longrightarrow> bit diff (7 - m))"
  using assms
proof (induction "unat plen - (8 * i + s)" arbitrary: s)
  case 0
  then have "unat plen = 8 * i + s" by simp
  then have "plen = word_of_nat (8 * i + s)" by (metis word_of_nat_inverse_u8)
  moreover from this have "common_bits diff (drop_bit s 0x80) (word_of_nat (8 * i + s)) plen = word_of_nat (8 * i + s)"
    by (simp add: common_bits.simps)
  ultimately show ?case using 0 by auto
next
  case (Suc d)
  let ?w = "word_of_nat (8 * i + s) :: u8"
  have w: "unat ?w = 8 * i + s" using Suc.prems by (intro unat_of_nat_u8) simp
  have lt: "8 * i + s < unat plen" using Suc.hyps by simp
  then have less: "?w < plen" using w by (simp add: word_less_nat_alt)
  show ?case
  proof (cases "bit diff (7 - s)")
    case True
    then have "common_bits diff (drop_bit s 0x80) ?w plen = ?w"
      using drop_bit_0x80_and [of s diff] Suc.prems(1) by (simp add: common_bits.simps)
    with True Suc.prems show ?thesis by auto
  next
    case False
    have step: "common_bits diff (drop_bit s 0x80) ?w plen
        = common_bits diff (drop_bit (Suc s) 0x80) (word_of_nat (8 * i + Suc s)) plen"
      using drop_bit_0x80_and [of s diff] Suc.prems(1) less False
      by (subst common_bits.simps) (simp add: drop_bit_drop_bit add.commute add.left_commute)
    have none: "\<forall>j < Suc s. \<not> bit diff (7 - j)" using Suc.prems(4) False by (auto simp: less_Suc_eq)
    have "Suc s \<le> 7"
    proof (rule ccontr)
      assume "\<not> Suc s \<le> 7"
      with Suc.prems(1) have "s = 7" by simp
      then have "\<not> bit diff j" if "j < 8" for j
        using none [rule_format, of "7 - j"] that by simp
      then have "diff = 0" by (intro byte_eqI) simp
      with Suc.prems(5) lt \<open>s = 7\<close> show False by simp
    qed
    with Suc.hyps(1) [of "Suc s"] Suc.hyps(2) lt none Suc.prems(3,5) show ?thesis
      by (simp only: step)
  qed
qed

section \<open>The common prefix\<close>

lemma take_byte_diff:
  assumes "m \<le> 7" and "\<forall>j < m. \<not> bit (a XOR b) (7 - j)"
  shows "take m (byte_bits a) = take m (byte_bits b)"
  using assms by (auto simp: take_eq_iff_nth byte_bits_nth bit_xor_iff)

lemma bits_at_byte:
  assumes "m \<le> 7" and "i < length xs"
  shows "take (8 * i + m) (bits_of xs) = bits_of (take i xs) @ take m (byte_bits (xs ! i))"
  using take_bits_of_split [of "8 * i + m" xs] assms by (cases "m = 0") auto

lemma bits_of_nth_byte: "m \<le> 7 \<Longrightarrow> i < length xs \<Longrightarrow> bits_of xs ! (8 * i + m) = bit (xs ! i) (7 - m)"
  using bits_of_nth [of "8 * i + m" xs] by simp

definition common_upto :: "nat \<Rightarrow> u8 list \<Rightarrow> prefix \<Rightarrow> prefix \<Rightarrow> bool" where
  "common_upto L np p q \<longleftrightarrow> unat (pfx_prefixlen q) = L \<and> L \<le> unat (pfx_prefixlen p)
     \<and> prefix_bits q = take L (bits_of np) \<and> take L (bits_of np) = take L (bits_of (pfx_u p))
     \<and> (L < unat (pfx_prefixlen p) \<longrightarrow> bits_of np ! L \<noteq> bits_of (pfx_u p) ! L)"

lemma common_upto_byte:
  assumes "i < length np" and "i < length (pfx_u p)" and "i < length newp" and "m \<le> 7"
    and "take i np = take i (pfx_u p)" and "take i newp = take i np"
    and "8 * i + m \<le> unat (pfx_prefixlen p)" and "unat (pfx_prefixlen p) \<le> 128"
    and "\<forall>j < m. \<not> bit (np ! i XOR pfx_u p ! i) (7 - j)"
    and "8 * i + m < unat (pfx_prefixlen p) \<longrightarrow> bit (np ! i XOR pfx_u p ! i) (7 - m)"
  shows "common_upto (8 * i + m) np p
    (new\<lparr>pfx_prefixlen := word_of_nat (8 * i + m), pfx_u := newp[i := np ! i AND maskbit ! m]\<rparr>)"
proof -
  let ?v = "newp[i := np ! i AND maskbit ! m]"
  have len: "unat (word_of_nat (8 * i + m) :: u8) = 8 * i + m"
    using assms(7,8) by (intro unat_of_nat_u8) simp
  have "take (8 * i + m) (bits_of ?v) = bits_of (take i np) @ take m (byte_bits (np ! i AND maskbit ! m))"
    using bits_at_byte [OF assms(4), of i ?v] assms by simp
  also have "\<dots> = take (8 * i + m) (bits_of np)"
    using bits_at_byte [OF assms(4,1)] assms(4) by (simp add: byte_bits_and_maskbit)
  finally have v: "take (8 * i + m) (bits_of ?v) = take (8 * i + m) (bits_of np)" .
  have "take (8 * i + m) (bits_of np) = take (8 * i + m) (bits_of (pfx_u p))"
    using bits_at_byte [OF assms(4,1)] bits_at_byte [OF assms(4,2)] take_byte_diff [OF assms(4,9)] assms(5)
    by simp
  moreover have "8 * i + m < unat (pfx_prefixlen p) \<longrightarrow> bits_of np ! (8 * i + m) \<noteq> bits_of (pfx_u p) ! (8 * i + m)"
    using assms(10) by (simp add: bits_of_nth_byte [OF assms(4,1)] bits_of_nth_byte [OF assms(4,2)] bit_xor_iff)
  ultimately show ?thesis using v len assms(7) by (simp add: common_upto_def prefix_bits_def)
qed

lemma route_common_partial:
  assumes "common_bytes (pfx_u n) (pfx_u p) (pfx_u new) 0 (unat (pfx_prefixlen p) div 8) = Some (i, newp)"
    and "word_of_nat (i * 8) \<noteq> pfx_prefixlen p"
    and "common_bits (pfx_u n ! i XOR pfx_u p ! i) 0x80 (word_of_nat (i * 8)) (pfx_prefixlen p) = len"
    and "i < length (pfx_u n)" and "i < length (pfx_u p)" and "i < length newp"
  shows "route_common n p new =
    Some (new\<lparr>pfx_prefixlen := len, pfx_u := newp[i := pfx_u n ! i AND maskbit ! (unat len mod 8)]\<rparr>)"
proof -
  have "unat len mod 8 < length maskbit" by (simp add: less_Suc_eq_le less_imp_le)
  then show ?thesis
    using assms by (simp only: route_common_def Let_def bind.simps prod.case if_True not_False_eq_True
        rd_in wr_in if_not_P refl simp_thms)
qed

lemma route_common_spec:
  assumes "length (pfx_u n) = 16" and "wf_prefix p" and "unat (pfx_prefixlen p) \<le> 128"
    and "length (pfx_u new) = 16"
  shows "\<exists>q L. route_common n p new = Some q \<and> pfx_family q = pfx_family new
    \<and> length (pfx_u q) = 16 \<and> common_upto L (pfx_u n) p q"
proof -
  let ?plen = "unat (pfx_prefixlen p)" and ?np = "pfx_u n" and ?pp = "pfx_u p"
  have k: "?plen div 8 \<le> 16" "?plen div 8 \<le> length ?pp"
    using assms by (auto simp: wf_prefix_def)
  from common_bytes_spec [of 0 "?plen div 8" ?np ?pp "pfx_u new"] k assms obtain i newp where
    cb: "common_bytes ?np ?pp (pfx_u new) 0 (?plen div 8) = Some (i, newp)" and
    i: "i \<le> ?plen div 8" "take i ?np = take i ?pp" "take i newp = take i ?np" "length newp = 16"
       "i < ?plen div 8 \<longrightarrow> ?np ! i \<noteq> ?pp ! i"
    by auto
  have i8: "8 * i \<le> ?plen" using i(1) by linarith
  then have u: "unat (word_of_nat (i * 8) :: u8) = 8 * i" using assms(3) by (subst unat_of_nat_u8) simp_all
  show ?thesis
  proof (cases "8 * i = ?plen")
    case True
    then have "word_of_nat (i * 8) = pfx_prefixlen p" using u by (simp add: word_unat_eq_iff)
    then have "route_common n p new = Some (new\<lparr>pfx_prefixlen := pfx_prefixlen p, pfx_u := newp\<rparr>)"
      using cb by (simp add: route_common_def)
    moreover have "take (8 * i) (bits_of newp) = take (8 * i) (bits_of ?np)"
      "take (8 * i) (bits_of ?np) = take (8 * i) (bits_of ?pp)"
      using i by (simp_all add: bits_of_take)
    ultimately show ?thesis using True i(4) by (simp add: common_upto_def prefix_bits_def)
  next
    case False
    then have lt: "8 * i < ?plen" using i8 by simp
    then have il: "i < 16" "i < length ?pp" using assms by (auto simp: wf_prefix_def)
    have ne: "word_of_nat (i * 8) \<noteq> pfx_prefixlen p" using u False by auto
    have "?plen < 8 * i + 8 \<or> ?np ! i XOR ?pp ! i \<noteq> 0"
    proof (cases "i < ?plen div 8")
      case True
      with i(5) show ?thesis by (metis xor.right_neutral xor_self_eq bit.xor_left_self)
    next
      case False
      with i(1) have "i = ?plen div 8" by simp
      then show ?thesis by linarith
    qed
    from common_bits_spec [of 0 i "pfx_prefixlen p" "?np ! i XOR ?pp ! i", OF _ _ assms(3) _ this,
        unfolded drop_bit_0 id_apply add_0_right, OF zero_le i8]
    obtain m where m: "common_bits (?np ! i XOR ?pp ! i) 0x80 (word_of_nat (8 * i)) (pfx_prefixlen p) = word_of_nat (8 * i + m)"
      "m \<le> 7" "8 * i + m \<le> ?plen" "\<forall>j < m. \<not> bit (?np ! i XOR ?pp ! i) (7 - j)"
      "8 * i + m < ?plen \<longrightarrow> bit (?np ! i XOR ?pp ! i) (7 - m)"
      by (auto simp only: not_less_zero simp_thms)
    have m1: "common_bits (?np ! i XOR ?pp ! i) 0x80 (word_of_nat (i * 8)) (pfx_prefixlen p) = word_of_nat (8 * i + m)"
      using m(1) by (simp only: mult.commute [of i 8])
    have mm: "unat (word_of_nat (8 * i + m) :: u8) mod 8 = m"
      using m(2,3) assms(3) by (subst unat_of_nat_u8) simp_all
    have "route_common n p new =
      Some (new\<lparr>pfx_prefixlen := word_of_nat (8 * i + m), pfx_u := newp[i := ?np ! i AND maskbit ! m]\<rparr>)"
      using route_common_partial [OF cb ne m1, unfolded mm] il i(4) assms(1) by simp
    with common_upto_byte [OF _ il(2) _ m(2) i(2,3) m(3) assms(3) m(4,5), of new] il i(4) assms(1)
    show ?thesis by auto
  qed
qed

section \<open>Copies\<close>

text \<open>The number of address bytes \<open>prefix_copy\<close> moves for a family.\<close>

definition family_size :: "u8 \<Rightarrow> nat option" where
  "family_size f = (if f = AF_INET then Some 4 else if f = AF_INET6 then Some 16
     else if f = AF_UNSPEC then Some 8 else None)"

definition get_key :: "prefix \<Rightarrow> bool" where
  "get_key p \<longleftrightarrow> (case family_size (pfx_family p) of None \<Rightarrow> False
     | Some k \<Rightarrow> k \<le> length (pfx_u p) \<and> unat (pfx_prefixlen p) \<le> 8 * k)"

lemma get_key_wf: "get_key p \<Longrightarrow> wf_prefix p \<and> unat (pfx_prefixlen p) \<le> 128"
  by (auto simp: get_key_def wf_prefix_def family_size_def split: if_splits)

lemma copy_bytes_bits:
  assumes "k \<le> 16" and "k \<le> length src" and "len \<le> 8 * k"
  shows "\<exists>v. copy_bytes k (replicate 16 0) src = Some v \<and> length v = 16
    \<and> take len (bits_of v) = take len (bits_of src)"
proof -
  let ?v = "take k src @ drop k (replicate 16 0)"
  have "take (8 * k) (bits_of ?v) = take (8 * k) (bits_of src)"
    using assms by (simp only: bits_of_take) simp
  then have "take len (take (8 * k) (bits_of ?v)) = take len (take (8 * k) (bits_of src))" by (rule arg_cong)
  then have "take len (bits_of ?v) = take len (bits_of src)"
    using assms(3) by (simp only: take_take min.absorb1)
  then show ?thesis using assms by (simp add: copy_bytes_def)
qed

lemma prefix_copy_get_key:
  assumes "get_key p"
  shows "\<exists>q. prefix_copy prefix_new p = Some q \<and> length (pfx_u q) = 16 \<and> wf_prefix q
    \<and> pfx_family q = pfx_family p \<and> pfx_prefixlen q = pfx_prefixlen p \<and> prefix_bits q = prefix_bits p"
proof -
  from assms obtain k where k: "family_size (pfx_family p) = Some k" "k \<le> length (pfx_u p)"
    "unat (pfx_prefixlen p) \<le> 8 * k" "k \<le> 16"
    by (auto simp: get_key_def family_size_def split: if_splits)
  from copy_bytes_bits [OF k(4,2,3)] obtain v where v: "copy_bytes k (replicate 16 0) (pfx_u p) = Some v"
    "length v = 16" "take (unat (pfx_prefixlen p)) (bits_of v) = prefix_bits p"
    by (auto simp: prefix_bits_def)
  have "prefix_copy prefix_new p = Some (prefix_new\<lparr>pfx_family := pfx_family p,
      pfx_prefixlen := pfx_prefixlen p, pfx_u := v\<rparr>)"
    using k(1) v(1) by (auto simp: prefix_copy_def prefix_new_def family_size_def Let_def split: if_splits)
  with v get_key_wf [OF assms] show ?thesis
    by (simp add: wf_prefix_def prefix_bits_def)
qed

end
