(* ===== verification/Lib_Table_Ctx.thy ===== *)
theory Lib_Table_Ctx
  imports Lib_Table_Common
begin

text \<open>
  Positions inside the tree of a route table, as contexts: the list of frames from a hole
  up to the root, each with the side the hole is on, the node and its other subtree. The
  lemmas say when a filled context is a tree in the store and a radix tree, and what
  relinking the hole does.
\<close>

section \<open>Contexts in the store\<close>

type_synonym frame = "bool \<times> addr \<times> addr tree"

fun plug :: "frame list \<Rightarrow> addr tree \<Rightarrow> addr tree" where
  "plug [] T = T"
| "plug ((d, a, s) # c) T = plug c (if d then Node s a T else Node T a s)"

fun ctx_set :: "frame list \<Rightarrow> addr set" where
  "ctx_set [] = {}"
| "ctx_set ((d, a, s) # c) = insert a (set_tree s \<union> ctx_set c)"

lemma set_tree_plug: "set_tree (plug c T) = ctx_set c \<union> set_tree T"
  by (induction c T rule: plug.induct) auto

fun ctx_at :: "(addr \<Rightarrow> 'a route_node option) \<Rightarrow> addr option \<Rightarrow> frame list \<Rightarrow> addr option \<Rightarrow> addr option \<Rightarrow> bool" where
  "ctx_at N tp [] hp h \<longleftrightarrow> hp = None \<and> h = tp"
| "ctx_at N tp ((d, a, s) # c) hp h \<longleftrightarrow>
     hp = Some a \<and> (\<exists>n. N a = Some n
       \<and> (if d then rn_right n = h \<and> tree_at N (Some a) (rn_left n) s
           else rn_left n = h \<and> tree_at N (Some a) (rn_right n) s)
       \<and> ctx_at N tp c (rn_parent n) (Some a))"

lemma tree_at_plug:
  "tree_at N None tp (plug c T) \<longleftrightarrow> (\<exists>hp h. ctx_at N tp c hp h \<and> tree_at N hp h T)"
  by (induction c T rule: plug.induct) (auto split: if_splits)

lemma shape_eqD: "shape N' a = shape N a \<Longrightarrow> N a = Some n \<Longrightarrow>
  \<exists>n'. N' a = Some n' \<and> rn_parent n' = rn_parent n \<and> rn_left n' = rn_left n \<and> rn_right n' = rn_right n"
  by (cases "N' a") (auto simp: shape_def)

lemma ctx_at_mono:
  "(\<And>a. a \<in> ctx_set c \<Longrightarrow> shape N' a = shape N a) \<Longrightarrow> ctx_at N tp c hp h \<Longrightarrow> ctx_at N' tp c hp h"
proof (induction c arbitrary: hp h)
  case (Cons f c)
  obtain d a s where f: "f = (d, a, s)" by (cases f)
  from Cons.prems(2) f obtain n where n: "hp = Some a" "N a = Some n"
    "if d then rn_right n = h \<and> tree_at N (Some a) (rn_left n) s
     else rn_left n = h \<and> tree_at N (Some a) (rn_right n) s"
    "ctx_at N tp c (rn_parent n) (Some a)" by auto
  from shape_eqD [of N' a N n] n(2) Cons.prems(1) f obtain n' where n': "N' a = Some n'"
    "rn_parent n' = rn_parent n" "rn_left n' = rn_left n" "rn_right n' = rn_right n" by auto
  have "tree_at N' (Some a) x s = tree_at N (Some a) x s" for x
    by (rule tree_at_cong) (use Cons.prems(1) f in simp)
  moreover have "ctx_at N' tp c (rn_parent n) (Some a)"
    using Cons.IH [OF _ n(4)] Cons.prems(1) f by simp
  ultimately show ?case using n n' f by (auto split: if_splits)
qed simp

section \<open>Contexts of radix trees\<close>

definition fits :: "(addr \<Rightarrow> prefix option) \<Rightarrow> frame list \<Rightarrow> bool list \<Rightarrow> bool" where
  "fits P c bs \<longleftrightarrow> (\<forall>(d, a, s)\<in>set c. \<exists>zs. bs = pbits P a @ d # zs)"

fun ctx_ok :: "(addr \<Rightarrow> prefix option) \<Rightarrow> frame list \<Rightarrow> bool" where
  "ctx_ok P [] \<longleftrightarrow> True"
| "ctx_ok P ((d, a, s) # c) \<longleftrightarrow> wf_node_prefix (P a) \<and> radix P s \<and> (\<forall>b\<in>set_tree s. below P a (\<not> d) b)
     \<and> (\<forall>b\<in>insert a (set_tree s). fits P c (pbits P b)) \<and> ctx_ok P c"

lemma fits_Nil [simp]: "fits P [] bs"
  by (simp add: fits_def)

lemma fits_Cons [simp]:
  "fits P ((d, a, s) # c) bs \<longleftrightarrow> (\<exists>zs. bs = pbits P a @ d # zs) \<and> fits P c bs"
  by (simp add: fits_def)

lemma fits_append: "fits P c bs \<Longrightarrow> fits P c (bs @ zs)"
  by (auto simp: fits_def)

lemma radix_plug:
  "radix P (plug c T) \<longleftrightarrow> radix P T \<and> ctx_ok P c \<and> (\<forall>b\<in>set_tree T. fits P c (pbits P b))"
proof (induction c T rule: plug.induct)
  case (2 d a s c T)
  then show ?case by (cases d) (auto simp: below_def)
qed simp

lemma fits_notin: "ctx_ok P c \<Longrightarrow> fits P c (pbits P b) \<Longrightarrow> b \<notin> ctx_set c"
  by (induction c rule: ctx_set.induct) (auto simp: below_def)

lemma ctx_ok_cong: "(\<And>a. a \<in> ctx_set c \<Longrightarrow> P' a = P a) \<Longrightarrow> ctx_ok P' c = ctx_ok P c"
proof (induction c rule: ctx_set.induct)
  case (2 d a s c)
  have eq: "pbits P' b = pbits P b" if "b \<in> ctx_set ((d, a, s) # c)" for b
    using 2(2) [OF that] by (simp add: pbits_def)
  have mem: "a' \<in> ctx_set c" if "(d', a', s') \<in> set c" for d' a' s'
    using that by (induction c rule: ctx_set.induct) auto
  have "fits P' c bs = fits P c bs" for bs
    unfolding fits_def using eq mem by fastforce
  moreover have "radix P' s = radix P s" by (rule radix_cong) (use 2(2) in simp)
  moreover have "\<forall>b\<in>set_tree s. below P' a x b = below P a x b" for x
    using eq by (simp add: below_def)
  ultimately show ?case using 2 eq by auto
qed simp

lemma fits_cong: "(\<And>a. a \<in> ctx_set c \<Longrightarrow> P' a = P a) \<Longrightarrow> fits P' c bs = fits P c bs"
proof (induction c rule: ctx_set.induct)
  case (2 d a s c)
  then have "pbits P' a = pbits P a" by (simp add: pbits_def)
  with 2 show ?case by simp
qed simp

section \<open>Payloads\<close>

text \<open>What relinking leaves alone: the prefix, the lock and the info of every node.\<close>

definition payload :: "(addr \<Rightarrow> 'a route_node option) \<Rightarrow> addr \<Rightarrow> (prefix \<times> u32 \<times> 'a option) option" where
  "payload N a = map_option (\<lambda>n. (rn_p n, rn_lock n, rn_info n)) (N a)"

lemma payload_pfx_of: "payload N' a = payload N a \<Longrightarrow> pfx_of N' a = pfx_of N a"
  by (cases "N a"; cases "N' a") (auto simp: payload_def pfx_of_def)

lemma payload_info_at: "payload N' a = payload N a \<Longrightarrow> info_at N' a = info_at N a"
  by (cases "N a"; cases "N' a") (auto simp: payload_def info_at_def)

lemma payload_dom: "payload N' a = payload N a \<Longrightarrow> a \<in> dom N' \<longleftrightarrow> a \<in> dom N"
  by (cases "N a"; cases "N' a") (auto simp: payload_def dom_def)

lemma table_tree_cong:
  assumes "table_tree t T" and "shape (rt_nodes t') = shape (rt_nodes t)"
    and "pfx_of (rt_nodes t') = pfx_of (rt_nodes t)" and "rt_top t' = rt_top t"
    and "rt_fresh t \<le> rt_fresh t'"
  shows "table_tree t' T"
proof -
  have "tree_at (rt_nodes t') None (rt_top t') T"
    using assms tree_at_cong [of T "rt_nodes t'" "rt_nodes t"] by (simp add: table_tree_def)
  moreover have "(a \<in> dom (rt_nodes t')) = (a \<in> dom (rt_nodes t))" for a
    using fun_cong [OF assms(2), of a] by (auto simp: shape_def dom_def map_option_case split: option.splits)
  ultimately show ?thesis using assms by (force simp: table_tree_def)
qed

section \<open>Relinking the hole\<close>

lemma link_or_top_ctx:
  assumes ctx: "ctx_at (rt_nodes t) (rt_top t) c hp h"
    and ok: "ctx_ok (pfx_of (rt_nodes t)) c"
    and new: "rt_nodes t x = Some nx" "x \<notin> ctx_set c" "rn_parent nx = None"
    and fit: "fits (pfx_of (rt_nodes t)) c (prefix_bits (rn_p nx))" "wf_prefix (rn_p nx)"
  shows "\<exists>t'. link_or_top hp x t = Some t' \<and> ctx_at (rt_nodes t') (rt_top t') c hp (Some x)
    \<and> rt_nodes t' x = Some (nx\<lparr>rn_parent := hp\<rparr>) \<and> payload (rt_nodes t') = payload (rt_nodes t)
    \<and> (\<forall>b. b \<notin> insert x (ctx_set c) \<longrightarrow> rt_nodes t' b = rt_nodes t b) \<and> rt_fresh t' = rt_fresh t"
proof (cases c)
  case Nil
  with ctx new show ?thesis by (simp add: link_or_top_def)
next
  case (Cons f c')
  obtain d a s where f: "f = (d, a, s)" by (cases f)
  let ?N = "rt_nodes t" and ?P = "pfx_of (rt_nodes t)"
  from ctx Cons f obtain n where n: "hp = Some a" "?N a = Some n"
    "if d then rn_right n = h \<and> tree_at ?N (Some a) (rn_left n) s
     else rn_left n = h \<and> tree_at ?N (Some a) (rn_right n) s"
    "ctx_at ?N (rt_top t) c' (rn_parent n) (Some a)" by auto
  from ok Cons f n have wfa: "wf_prefix (rn_p n)" by (auto simp: wf_node_prefix_def)
  from fit(1) Cons f n obtain zs where "prefix_bits (rn_p nx) = prefix_bits (rn_p n) @ d # zs" by auto
  from covers_next [OF wfa fit(2) this] have bit: "prefix_bit (pfx_u (rn_p nx)) (pfx_prefixlen (rn_p n)) = Some (of_bool d)" .
  have ax: "a \<noteq> x" using new(2) Cons f by auto
  let ?n' = "if d then n\<lparr>rn_right := Some x\<rparr> else n\<lparr>rn_left := Some x\<rparr>"
  let ?N' = "?N(a \<mapsto> ?n', x \<mapsto> nx\<lparr>rn_parent := Some a\<rparr>)"
  have link: "link_or_top hp x t = Some (t\<lparr>rt_nodes := ?N'\<rparr>)"
    using n new ax bit by (auto simp: link_or_top_def set_link_def upd_node_def)
  have "a \<notin> set_tree s" using ok Cons f below_neq by fastforce
  then have s: "tree_at ?N' (Some a) y s = tree_at ?N (Some a) y s" for y
    by (intro tree_at_cong) (use new(2) Cons f in \<open>auto simp: shape_def\<close>)
  have "a \<notin> ctx_set c'" using fits_notin [of ?P c' a] ok Cons f by simp
  then have c': "ctx_at ?N' (rt_top t) c' (rn_parent n) (Some a)"
    by (intro ctx_at_mono [OF _ n(4)]) (use new(2) Cons f in \<open>auto simp: shape_def\<close>)
  have "ctx_at ?N' (rt_top t) c hp (Some x)"
    using n s c' Cons f ax by (auto split: if_splits)
  moreover have "payload ?N' = payload ?N"
    using n new ax by (auto simp: payload_def fun_eq_iff)
  ultimately show ?thesis using link n Cons f by auto
qed

end
