(* ===== verification/Lib_Table_Get.thy ===== *)
theory Lib_Table_Get
  imports Lib_Table_Ctx
begin

text \<open>
  \<open>route_node_get\<close> of \<open>lib/table.c\<close>: its descent ends at the node that carries the key
  or at the hole where the key belongs; adding a leaf there, or a branching node above
  the node the descent stopped at, keeps the table well formed and every payload.
\<close>

section \<open>The descent\<close>

definition stops_at :: "'a route_table \<Rightarrow> prefix \<Rightarrow> frame list \<Rightarrow> addr tree \<Rightarrow> addr option \<Rightarrow> addr option \<Rightarrow> bool" where
  "stops_at t p c S hp h \<longleftrightarrow> ctx_at (rt_nodes t) (rt_top t) c hp h \<and> tree_at (rt_nodes t) hp h S
     \<and> fits (pfx_of (rt_nodes t)) c (prefix_bits p)
     \<and> (\<forall>l x r. S = Node l x r \<longrightarrow> \<not> covers_bits (pbits (pfx_of (rt_nodes t)) x) (prefix_bits p))"

lemma route_get_loop_descends:
  assumes "wf_prefix p"
  shows "tree_at (rt_nodes t) hp ptr T \<Longrightarrow> radix (pfx_of (rt_nodes t)) T \<Longrightarrow>
    ctx_at (rt_nodes t) (rt_top t) c hp ptr \<Longrightarrow> fits (pfx_of (rt_nodes t)) c (prefix_bits p) \<Longrightarrow>
    (\<exists>a. route_get_loop t hp ptr p = Some (Exact a) \<and> a \<in> set_tree T
       \<and> pbits (pfx_of (rt_nodes t)) a = prefix_bits p)
    \<or> (\<exists>c' S hp' h'. route_get_loop t hp ptr p = Some (Stopped hp' h') \<and> plug c T = plug c' S
       \<and> stops_at t p c' S hp' h')"
proof (induction T arbitrary: hp ptr c)
  case Leaf
  then have "route_get_loop t hp ptr p = Some (Stopped hp None)" and "stops_at t p c Leaf hp None"
    by (simp_all add: route_get_loop.simps stops_at_def)
  then show ?case by blast
next
  case (Node l a r)
  let ?N = "rt_nodes t" and ?P = "pfx_of (rt_nodes t)" and ?T = "Node l a r"
  from radix_node [OF Node.prems(1,2)] obtain n where n: "ptr = Some a" "?N a = Some n"
    "wf_prefix (rn_p n)" "pbits ?P a = prefix_bits (rn_p n)"
    and sub: "tree_at ?N (Some a) (rn_left n) l" "tree_at ?N (Some a) (rn_right n) r"
      "radix ?P l" "radix ?P r" by blast
  note cov = node_covers_bits [OF n(3) assms]
  note loop = route_get_loop.simps [of t hp "Some a" p]
  show ?case
  proof (cases "covers_bits (prefix_bits (rn_p n)) (prefix_bits p)")
    case False
    then have "route_get_loop t hp ptr p = Some (Stopped hp ptr)" using n cov by (simp add: loop)
    moreover have "stops_at t p c ?T hp ptr" using Node.prems False n by (simp add: stops_at_def)
    ultimately show ?thesis by blast
  next
    case True
    note len = same_prefixlen_iff [OF n(3) assms True]
    show ?thesis
    proof (cases "prefix_bits p = prefix_bits (rn_p n)")
      case same: True
      with n cov True len have "route_get_loop t hp ptr p = Some (Exact a)" by (simp add: loop)
      with same n show ?thesis by auto
    next
      case other: False
      from True other obtain d rest where rest: "prefix_bits p = prefix_bits (rn_p n) @ d # rest"
        by (auto simp: covers_bits_def neq_Nil_conv)
      let ?S = "if d then r else l" and ?o = "if d then l else r" and ?h = "if d then rn_right n else rn_left n"
      have step: "route_get_loop t hp ptr p = route_get_loop t (Some a) ?h p"
        using n cov True other len covers_next [OF n(3) assms rest] by (simp add: loop)
      have "rn_parent n = hp" using Node.prems(1) n by auto
      then have ctx: "ctx_at ?N (rt_top t) ((d, a, ?o) # c) (Some a) ?h"
        using n sub Node.prems(3) by auto
      have fit: "fits ?P ((d, a, ?o) # c) (prefix_bits p)" using Node.prems(4) rest n by auto
      have pl: "plug ((d, a, ?o) # c) ?S = plug c ?T" by simp
      note hyps = ctx fit
      have "(\<exists>b. route_get_loop t (Some a) ?h p = Some (Exact b) \<and> b \<in> set_tree ?S \<and> pbits ?P b = prefix_bits p)
        \<or> (\<exists>c' S' hp' h'. route_get_loop t (Some a) ?h p = Some (Stopped hp' h')
           \<and> plug ((d, a, ?o) # c) ?S = plug c' S' \<and> stops_at t p c' S' hp' h')"
      proof (cases d)
        case True
        with Node.IH(2) [OF sub(2,4), of "(d, a, ?o) # c"] hyps show ?thesis by simp
      next
        case False
        with Node.IH(1) [OF sub(1,3), of "(d, a, ?o) # c"] hyps show ?thesis by simp
      qed
      then show ?thesis
        by (simp only: pl step) (auto split: if_splits)
    qed
  qed
qed

section \<open>Adding a leaf\<close>

definition keeps_payload :: "'a route_table \<Rightarrow> 'a route_table \<Rightarrow> bool" where
  "keeps_payload t t' \<longleftrightarrow> (\<forall>b\<in>dom (rt_nodes t). payload (rt_nodes t') b = payload (rt_nodes t) b)
     \<and> (\<forall>b\<in>dom (rt_nodes t') - dom (rt_nodes t). \<exists>p. payload (rt_nodes t') b = Some (p, 0, None))"

lemma keeps_payload_refl [simp]: "keeps_payload t t"
  by (simp add: keeps_payload_def)

lemma keeps_payload_trans:
  assumes "keeps_payload t1 t2" and "keeps_payload t2 t3"
  shows "keeps_payload t1 t3"
proof -
  have sub: "b \<in> dom (rt_nodes t2)" if "b \<in> dom (rt_nodes t1)" for b
    using assms(1) that payload_dom [of "rt_nodes t2" b "rt_nodes t1"] by (auto simp: keeps_payload_def)
  have "\<exists>p. payload (rt_nodes t3) b = Some (p, 0, None)" if "b \<in> dom (rt_nodes t3)" "b \<notin> dom (rt_nodes t1)" for b
    using assms that by (cases "b \<in> dom (rt_nodes t2)") (simp_all add: keeps_payload_def)
  moreover have "payload (rt_nodes t3) b = payload (rt_nodes t1) b" if "b \<in> dom (rt_nodes t1)" for b
    using assms sub [OF that] that by (simp add: keeps_payload_def)
  ultimately show ?thesis by (auto simp: keeps_payload_def)
qed

text \<open>The fresh address is outside the store, and storing a node there changes no other place.\<close>

lemma fresh_notin: "table_tree t T \<Longrightarrow> rt_fresh t \<notin> set_tree T"
  by (auto simp: table_tree_def)

lemma table_tree_plugD:
  assumes "table_tree t (plug c S)"
  shows "radix (pfx_of (rt_nodes t)) S" and "ctx_ok (pfx_of (rt_nodes t)) c"
    and "\<forall>b\<in>set_tree S. fits (pfx_of (rt_nodes t)) c (pbits (pfx_of (rt_nodes t)) b)"
    and "dom (rt_nodes t) = ctx_set c \<union> set_tree S" and "\<forall>a\<in>ctx_set c \<union> set_tree S. a < rt_fresh t"
  using assms by (auto simp: table_tree_def radix_plug set_tree_plug)

lemma table_treeI:
  assumes "ctx_at (rt_nodes t) (rt_top t) c hp h" and "tree_at (rt_nodes t) hp h S"
    and "radix (pfx_of (rt_nodes t)) S" and "ctx_ok (pfx_of (rt_nodes t)) c"
    and "\<forall>b\<in>set_tree S. fits (pfx_of (rt_nodes t)) c (pbits (pfx_of (rt_nodes t)) b)"
    and "dom (rt_nodes t) = ctx_set c \<union> set_tree S" and "\<forall>a\<in>ctx_set c \<union> set_tree S. a < rt_fresh t"
  shows "table_tree t (plug c S)"
  using assms by (auto simp: table_tree_def radix_plug set_tree_plug tree_at_plug)

text \<open>A node stored outside a context or a tree does not disturb it.\<close>

lemma ctx_upd_other:
  assumes "w \<notin> ctx_set c"
  shows "ctx_at N tp c hp h \<Longrightarrow> ctx_at (N(w \<mapsto> n)) tp c hp h"
    and "ctx_ok (pfx_of (N(w \<mapsto> n))) c = ctx_ok (pfx_of N) c"
    and "fits (pfx_of (N(w \<mapsto> n))) c bs = fits (pfx_of N) c bs"
proof -
  have *: "shape (N(w \<mapsto> n)) a = shape N a" "pfx_of (N(w \<mapsto> n)) a = pfx_of N a" if "a \<in> ctx_set c" for a
    using that assms by (auto simp: pfx_of_def shape_def)
  show "ctx_at N tp c hp h \<Longrightarrow> ctx_at (N(w \<mapsto> n)) tp c hp h" by (rule ctx_at_mono [OF *(1)])
  show "ctx_ok (pfx_of (N(w \<mapsto> n))) c = ctx_ok (pfx_of N) c" by (rule ctx_ok_cong [OF *(2)])
  show "fits (pfx_of (N(w \<mapsto> n))) c bs = fits (pfx_of N) c bs" by (rule fits_cong [OF *(2)])
qed

lemma tree_upd_other:
  assumes "w \<notin> set_tree T"
  shows "tree_at (N(w \<mapsto> n)) par ptr T = tree_at N par ptr T"
    and "radix (pfx_of (N(w \<mapsto> n))) T = radix (pfx_of N) T"
proof -
  have *: "shape (N(w \<mapsto> n)) a = shape N a" "pfx_of (N(w \<mapsto> n)) a = pfx_of N a" if "a \<in> set_tree T" for a
    using that assms by (auto simp: pfx_of_def shape_def)
  show "tree_at (N(w \<mapsto> n)) par ptr T = tree_at N par ptr T" by (rule tree_at_cong [OF *(1)])
  show "radix (pfx_of (N(w \<mapsto> n))) T = radix (pfx_of N) T" by (rule radix_cong [OF *(2)])
qed

definition add_leaf :: "addr option \<Rightarrow> prefix \<Rightarrow> 'a route_table \<Rightarrow> (addr \<times> 'a route_table) option" where
  "add_leaf hp p t = do { (new, t) \<leftarrow> route_node_set t p; t \<leftarrow> link_or_top hp new t; Some (new, t) }"

lemma add_leaf_tree:
  assumes tree: "table_tree t (plug c Leaf)" and ctx: "ctx_at (rt_nodes t) (rt_top t) c hp None"
    and fit: "fits (pfx_of (rt_nodes t)) c (prefix_bits p)" and key: "get_key p"
  shows "\<exists>t'. add_leaf hp p t = Some (rt_fresh t, t')
    \<and> table_tree t' (plug c (Node Leaf (rt_fresh t) Leaf)) \<and> keeps_payload t t'
    \<and> pbits (pfx_of (rt_nodes t')) (rt_fresh t) = prefix_bits p"
proof -
  let ?w = "rt_fresh t" and ?N = "rt_nodes t" and ?P = "pfx_of (rt_nodes t)"
  note D = table_tree_plugD [OF tree]
  from prefix_copy_get_key [OF key] obtain q where q: "prefix_copy prefix_new p = Some q"
    "length (pfx_u q) = 16" "wf_prefix q" "prefix_bits q = prefix_bits p" by blast
  let ?nw = "null_node\<lparr>rn_p := q\<rparr>"
  let ?t1 = "t\<lparr>rt_nodes := ?N(?w \<mapsto> ?nw), rt_fresh := Suc ?w\<rparr>"
  have set: "route_node_set t p = Some (?w, ?t1)"
    using q(1) by (simp add: route_node_set_def route_node_new_def upd_node_def)
  have w: "?w \<notin> ctx_set c" "?w \<notin> dom ?N" using D(4,5) by auto
  have ok1: "ctx_ok (pfx_of (rt_nodes ?t1)) c" using D(2) by (simp add: ctx_upd_other [OF w(1)])
  have fit1: "fits (pfx_of (rt_nodes ?t1)) c bs = fits ?P c bs" for bs by (simp add: ctx_upd_other [OF w(1)])
  have ctx1: "ctx_at (rt_nodes ?t1) (rt_top ?t1) c hp None" using ctx by (simp add: ctx_upd_other [OF w(1)])
  from link_or_top_ctx [OF ctx1 ok1, of ?w ?nw] w fit1 fit q obtain t' where
    link: "link_or_top hp ?w ?t1 = Some t'" and ctx': "ctx_at (rt_nodes t') (rt_top t') c hp (Some ?w)"
    and nw: "rt_nodes t' ?w = Some (?nw\<lparr>rn_parent := hp\<rparr>)" and pl: "payload (rt_nodes t') = payload (rt_nodes ?t1)"
    and fr: "rt_fresh t' = Suc ?w"
    by (auto simp: null_node_def)
  have P': "pfx_of (rt_nodes t') = pfx_of (rt_nodes ?t1)"
    using pl payload_pfx_of by (metis ext)
  have dom': "dom (rt_nodes t') = insert ?w (ctx_set c)"
    using payload_dom [of "rt_nodes t'" _ "rt_nodes ?t1"] pl D(4) by auto
  have "table_tree t' (plug c (Node Leaf ?w Leaf))"
    by (rule table_treeI [OF ctx'])
      (use nw P' ok1 fit1 fit q dom' D(5) fr in \<open>auto simp: null_node_def wf_node_prefix_def\<close>)
  moreover have "keeps_payload t t'"
    using pl w(2) nw dom' D(4) by (auto simp: keeps_payload_def payload_def info_at_def null_node_def)
  moreover have "pbits (pfx_of (rt_nodes t')) ?w = prefix_bits p" using nw q by simp
  ultimately show ?thesis using set link by (simp add: add_leaf_def)
qed

section \<open>Adding a branching node\<close>

lemma common_split:
  "Q @ d # xs = A @ e # z1 \<Longrightarrow> Q @ (\<not> d) # ys = A @ e # z2 \<Longrightarrow> \<exists>z. Q = A @ e # z"
proof (induction Q arbitrary: A)
  case Nil
  then show ?case by (cases A) auto
next
  case (Cons q Q)
  then show ?case by (cases A) auto
qed

lemma fits_common:
  assumes "fits P c (Q @ d # xs)" and "fits P c B" and "B = Q \<or> (\<exists>ys. B = Q @ (\<not> d) # ys)"
  shows "fits P c Q"
  using assms(3)
proof
  assume "\<exists>ys. B = Q @ (\<not> d) # ys"
  then obtain ys where B: "B = Q @ (\<not> d) # ys" ..
  show ?thesis unfolding fits_def
  proof safe
    fix e a s
    assume "(e, a, s) \<in> set c"
    with assms(1,2) obtain z1 z2 where "Q @ d # xs = pbits P a @ e # z1" "Q @ (\<not> d) # ys = pbits P a @ e # z2"
      unfolding fits_def B by fastforce
    then show "\<exists>zs. Q = pbits P a @ e # zs" by (rule common_split)
  qed
qed (use assms in simp)

lemma common_upto_split:
  assumes "common_upto L (pfx_u n) p q" and "wf_prefix n" and "wf_prefix p"
    and "\<not> covers_bits (prefix_bits n) (prefix_bits p)"
  shows "\<exists>d xs. prefix_bits n = prefix_bits q @ d # xs
    \<and> (if pfx_prefixlen q = pfx_prefixlen p then prefix_bits p = prefix_bits q
        else \<exists>ys. prefix_bits p = prefix_bits q @ (\<not> d) # ys)"
proof -
  let ?X = "prefix_bits n" and ?B = "prefix_bits p" and ?Q = "prefix_bits q"
  let ?nl = "unat (pfx_prefixlen n)" and ?pl = "unat (pfx_prefixlen p)"
  from assms(1) have L: "unat (pfx_prefixlen q) = L" "L \<le> ?pl" "?Q = take L (bits_of (pfx_u n))"
    "take L (bits_of (pfx_u n)) = take L (bits_of (pfx_u p))"
    "L < ?pl \<longrightarrow> bits_of (pfx_u n) ! L \<noteq> bits_of (pfx_u p) ! L" by (auto simp: common_upto_def)
  have QB: "?Q = take L ?B" using L by (simp add: prefix_bits_def min_def)
  have lt: "L < ?nl"
  proof (rule ccontr)
    assume "\<not> L < ?nl"
    then have "?X = take ?nl ?Q" using L(3) by (simp add: prefix_bits_def min_def)
    also have "\<dots> = take ?nl ?B" using QB \<open>\<not> L < ?nl\<close> by (simp add: min_def)
    finally have "?B = ?X @ drop ?nl ?B" by (metis append_take_drop_id)
    with assms(4) show False by (auto simp: covers_bits_def)
  qed
  have QX: "?Q = take L ?X" using L(3) lt by (simp add: prefix_bits_def min_def)
  have nl: "L < length ?X" using lt assms(2) by simp
  have X: "?X = ?Q @ ?X ! L # drop (Suc L) ?X"
    using id_take_nth_drop [OF nl] QX by simp
  show ?thesis
  proof (cases "L < ?pl")
    case True
    then have B: "?B = ?Q @ ?B ! L # drop (Suc L) ?B"
      using id_take_nth_drop [of L ?B] QB assms(3) by simp
    have "?B ! L = (\<not> ?X ! L)" using True lt L(5) by (auto simp: prefix_bits_def)
    then have "?B = ?Q @ (\<not> ?X ! L) # drop (Suc L) ?B" by (subst B) simp
    then have "\<exists>ys. ?B = ?Q @ (\<not> ?X ! L) # ys" by (rule exI)
    moreover have "pfx_prefixlen q \<noteq> pfx_prefixlen p" using True L(1) by auto
    ultimately show ?thesis using X by (intro exI [of _ "?X ! L"] exI [of _ "drop (Suc L) ?X"]) simp
  next
    case False
    with L have "?pl = L" by simp
    then have "?B = ?Q" using QB assms(3) by simp
    moreover have "pfx_prefixlen q = pfx_prefixlen p" using L(1) \<open>?pl = L\<close> by (simp add: word_unat_eq_iff)
    ultimately show ?thesis using X by auto
  qed
qed

definition add_branch :: "addr option \<Rightarrow> addr \<Rightarrow> prefix \<Rightarrow> 'a route_table \<Rightarrow> (addr \<times> prefix \<times> 'a route_table) option" where
  "add_branch hp x p t =
     do {
       nn \<leftarrow> rt_nodes t x;
       let (new, t) = route_node_new t;
       q \<leftarrow> route_common (rn_p nn) p prefix_new;
       t \<leftarrow> upd_node new (\<lambda>n. n\<lparr>rn_p := q\<lparr>pfx_family := pfx_family p\<rparr>\<rparr>) t;
       t \<leftarrow> set_link new x t;
       t \<leftarrow> link_or_top hp new t;
       Some (new, q, t)
     }"

definition branch_tree :: "bool \<Rightarrow> addr \<Rightarrow> addr tree \<Rightarrow> addr tree" where
  "branch_tree d w S = (if d then Node Leaf w S else Node S w Leaf)"

lemma set_branch_tree [simp]: "set_tree (branch_tree d w S) = insert w (set_tree S)"
  by (simp add: branch_tree_def)

definition splits_key :: "prefix \<Rightarrow> prefix \<Rightarrow> bool \<Rightarrow> bool" where
  "splits_key q p d \<longleftrightarrow> (if pfx_prefixlen q = pfx_prefixlen p then prefix_bits p = prefix_bits q
     else \<exists>ys. prefix_bits p = prefix_bits q @ (\<not> d) # ys)"

lemma branch_prefix:
  assumes "wf_prefix n" and "length (pfx_u n) = 16" and "get_key p"
    and "\<not> covers_bits (prefix_bits n) (prefix_bits p)"
    and "fits P c (prefix_bits n)" and "fits P c (prefix_bits p)"
  shows "\<exists>q d xs. route_common n p prefix_new = Some q \<and> length (pfx_u q) = 16 \<and> wf_prefix q
    \<and> prefix_bits n = prefix_bits q @ d # xs \<and> splits_key q p d \<and> fits P c (prefix_bits q)"
proof -
  note kwf = get_key_wf [OF assms(3)]
  have "length (pfx_u prefix_new) = 16" by (simp add: prefix_new_def)
  from route_common_spec [OF assms(2) conjunct1 [OF kwf] conjunct2 [OF kwf] this] obtain q L where
    q: "route_common n p prefix_new = Some q" "length (pfx_u q) = 16" "common_upto L (pfx_u n) p q"
    by blast
  have "wf_prefix q" using q(2,3) kwf by (auto simp: common_upto_def wf_prefix_def)
  moreover from common_upto_split [OF q(3) assms(1) conjunct1 [OF kwf] assms(4)] obtain d xs where
    X: "prefix_bits n = prefix_bits q @ d # xs" and B: "splits_key q p d"
    by (auto simp: splits_key_def)
  moreover have "fits P c (prefix_bits q)"
    by (rule fits_common [OF assms(5) [unfolded X] assms(6)]) (use B in \<open>auto simp: splits_key_def split: if_splits\<close>)
  ultimately show ?thesis using q by blast
qed

text \<open>The store after the new node has been given its prefix and the node below it.\<close>

definition branch_node :: "prefix \<Rightarrow> bool \<Rightarrow> addr \<Rightarrow> 'a route_node" where
  "branch_node q d x = (if d then null_node\<lparr>rn_p := q, rn_right := Some x\<rparr> else null_node\<lparr>rn_p := q, rn_left := Some x\<rparr>)"

lemma branch_node_simps [simp]:
  "rn_lock (branch_node q d x) = 0"
  "rn_p (branch_node q d x) = q" "rn_parent (branch_node q d x) = None"
  "rn_info (branch_node q d x) = None"
  "rn_left (branch_node q d x) = (if d then None else Some x)"
  "rn_right (branch_node q d x) = (if d then Some x else None)"
  by (simp_all add: branch_node_def null_node_def)

lemma add_branch_steps:
  assumes "rt_nodes t x = Some n" and "x \<noteq> rt_fresh t"
    and "route_common (rn_p n) p prefix_new = Some q"
    and "prefix_bit (pfx_u (rn_p n)) (pfx_prefixlen q) = Some (of_bool d)"
  shows "add_branch hp x p t =
    do { t' \<leftarrow> link_or_top hp (rt_fresh t) (t\<lparr>rt_fresh := Suc (rt_fresh t),
           rt_nodes := (rt_nodes t)(rt_fresh t \<mapsto> branch_node (q\<lparr>pfx_family := pfx_family p\<rparr>) d x,
             x \<mapsto> n\<lparr>rn_parent := Some (rt_fresh t)\<rparr>)\<rparr>);
         Some (rt_fresh t, q, t') }"
  using assms
  by (auto simp: add_branch_def route_node_new_def upd_node_def set_link_def null_node_def
      branch_node_def fun_upd_twist)

lemma branch_tree_at:
  assumes "N' w = Some (m\<lparr>rn_parent := hp\<rparr>)" and "rn_left m = (if d then None else Some x)"
    and "rn_right m = (if d then Some x else None)" and "N' x = Some (n\<lparr>rn_parent := Some w\<rparr>)"
    and "tree_at N (Some x) (rn_left n) l" and "tree_at N (Some x) (rn_right n) r"
    and "\<And>b. b \<in> set_tree l \<union> set_tree r \<Longrightarrow> N' b = N b"
  shows "tree_at N' hp (Some w) (branch_tree d w (Node l x r))"
proof -
  have "tree_at N' (Some x) y T = tree_at N (Some x) y T" if "T \<in> {l, r}" for y T
    by (rule tree_at_cong) (use that assms(7) in \<open>auto simp: shape_def\<close>)
  with assms show ?thesis by (auto simp: branch_tree_def)
qed

lemma branch_radix:
  assumes "wf_node_prefix (P' w)" and "pbits P' w = prefix_bits q" and "radix P (Node l x r)"
    and "pbits P x = prefix_bits q @ d # xs"
    and "\<And>b. b \<in> set_tree (Node l x r) \<Longrightarrow> P' b = P b"
  shows "radix P' (branch_tree d w (Node l x r))"
proof -
  have S: "radix P' (Node l x r)" using radix_cong [of "Node l x r" P' P] assms(3,5) by simp
  have "pbits P' x = prefix_bits q @ d # xs" using assms(4,5) by (simp add: pbits_def)
  moreover have "covers_bits (pbits P' x) (pbits P' b)" if "b \<in> set_tree (Node l x r)" for b
    using radix_covers_root [OF S that, of "pbits P' b"] by (simp add: covers_bits_def)
  ultimately have "below P' w d b" if "b \<in> set_tree (Node l x r)" for b
    using that assms(2) by (fastforce simp: below_def covers_bits_def)
  then show ?thesis using S assms(1) by (auto simp: branch_tree_def)
qed

lemma add_branch_tree:
  assumes tree: "table_tree t (plug c (Node l x r))"
    and stop: "stops_at t p c (Node l x r) hp (Some x)" and key: "get_key p"
  shows "\<exists>t' q d. add_branch hp x p t = Some (rt_fresh t, q, t')
    \<and> table_tree t' (plug c (branch_tree d (rt_fresh t) (Node l x r))) \<and> keeps_payload t t'
    \<and> pbits (pfx_of (rt_nodes t')) (rt_fresh t) = prefix_bits q \<and> splits_key q p d
    \<and> fits (pfx_of (rt_nodes t')) c (prefix_bits p)"
proof -
  let ?w = "rt_fresh t" and ?N = "rt_nodes t" and ?P = "pfx_of (rt_nodes t)" and ?S = "Node l x r"
  note D = table_tree_plugD [OF tree]
  from stop have ctx: "ctx_at ?N (rt_top t) c hp (Some x)" and tS: "tree_at ?N hp (Some x) ?S"
    and fit: "fits ?P c (prefix_bits p)" and nc: "\<not> covers_bits (pbits ?P x) (prefix_bits p)"
    by (auto simp: stops_at_def)
  from radix_node [OF tS D(1)] obtain n where n: "?N x = Some n" "wf_prefix (rn_p n)" "length (pfx_u (rn_p n)) = 16"
    "pbits ?P x = prefix_bits (rn_p n)" "tree_at ?N (Some x) (rn_left n) l" "tree_at ?N (Some x) (rn_right n) r"
    by blast
  from branch_prefix [OF n(2,3) key, of ?P c] nc n(4) D(3) fit obtain q d xs where
    q: "route_common (rn_p n) p prefix_new = Some q" "length (pfx_u q) = 16" "wf_prefix q"
    "prefix_bits (rn_p n) = prefix_bits q @ d # xs" "splits_key q p d" "fits ?P c (prefix_bits q)"
    by auto
  let ?q = "q\<lparr>pfx_family := pfx_family p\<rparr>"
  have q': "prefix_bits ?q = prefix_bits q" "wf_prefix ?q" using q(3) by (simp_all add: prefix_bits_def wf_prefix_def)
  let ?nw = "branch_node ?q d x"
  let ?N3 = "?N(?w \<mapsto> ?nw, x \<mapsto> n\<lparr>rn_parent := Some ?w\<rparr>)"
  let ?t3 = "t\<lparr>rt_fresh := Suc ?w, rt_nodes := ?N3\<rparr>"
  have w: "?w \<notin> ctx_set c" "?w \<notin> set_tree ?S" "?w \<notin> dom ?N" using D(4,5) by auto
  then have xw: "x \<noteq> ?w" by auto
  have xc: "b \<notin> ctx_set c" if "b \<in> set_tree ?S" for b using fits_notin [OF D(2)] D(3) that by blast
  note steps = add_branch_steps [OF n(1) xw q(1) covers_next [OF q(3) n(2) q(4)], of hp]
  have ctx3: "ctx_at (rt_nodes ?t3) (rt_top ?t3) c hp (Some x)" and ok3: "ctx_ok (pfx_of (rt_nodes ?t3)) c"
    and fit3: "fits (pfx_of (rt_nodes ?t3)) c bs = fits ?P c bs" for bs
    using ctx D(2) w xc [of x] by (simp_all add: ctx_upd_other del: fun_upd_apply)
  have "rt_nodes ?t3 ?w = Some ?nw" using xw by simp
  from link_or_top_ctx [OF ctx3 ok3 this w(1)] fit3 q(6) q' obtain t' where
    link: "link_or_top hp ?w ?t3 = Some t'" and ctx': "ctx_at (rt_nodes t') (rt_top t') c hp (Some ?w)"
    and nw: "rt_nodes t' ?w = Some (?nw\<lparr>rn_parent := hp\<rparr>)" and pl: "payload (rt_nodes t') = payload ?N3"
    and rest: "\<forall>b. b \<notin> insert ?w (ctx_set c) \<longrightarrow> rt_nodes t' b = ?N3 b" and fr: "rt_fresh t' = Suc ?w"
    by auto
  have P': "pfx_of (rt_nodes t') = pfx_of ?N3" using pl payload_pfx_of by (metis ext)
  have P3: "pfx_of (rt_nodes t') b = ?P b" if "b \<in> set_tree ?S" for b
  proof -
    have "b \<noteq> ?w" using that w(2) by blast
    with P' n(1) show ?thesis by (simp add: pfx_of_def)
  qed
  have dom': "dom (rt_nodes t') = insert ?w (dom ?N)"
  proof -
    have "a \<in> dom (rt_nodes t') \<longleftrightarrow> a \<in> dom ?N3" for a using payload_dom pl by metis
    then have "dom (rt_nodes t') = dom ?N3" by blast
    with n(1) show ?thesis by auto
  qed
  have rest': "rt_nodes t' b = ?N b" if "b \<in> set_tree l \<union> set_tree r" for b
  proof -
    have "b \<noteq> x" "b \<noteq> ?w" "b \<notin> ctx_set c" using that radix_distinct [OF D(1)] w(2) xc [of b] by auto
    with rest show ?thesis by simp
  qed
  have x': "rt_nodes t' x = Some (n\<lparr>rn_parent := Some ?w\<rparr>)" using rest xw xc [of x] by simp
  have at': "tree_at (rt_nodes t') hp (Some ?w) (branch_tree d ?w ?S)"
    by (rule branch_tree_at [where N' = "rt_nodes t'" and w = ?w, OF nw _ _ x' n(5,6) rest']) simp_all
  have bw: "wf_node_prefix (pfx_of (rt_nodes t') ?w)" "pbits (pfx_of (rt_nodes t')) ?w = prefix_bits q"
    using nw q' q(2) by (auto simp: wf_node_prefix_def)
  have rad: "radix (pfx_of (rt_nodes t')) (branch_tree d ?w ?S)"
    by (rule branch_radix [OF bw D(1) _ P3]) (use n(4) q(4) in auto)
  have fits': "fits (pfx_of (rt_nodes t')) c bs = fits ?P c bs" for bs using fit3 P' by simp
  have "table_tree t' (plug c (branch_tree d ?w ?S))"
  proof (rule table_treeI [OF ctx' at' rad])
    show "ctx_ok (pfx_of (rt_nodes t')) c" using ok3 P' by simp
    show "\<forall>b\<in>set_tree (branch_tree d ?w ?S). fits (pfx_of (rt_nodes t')) c (pbits (pfx_of (rt_nodes t')) b)"
    proof
      fix b
      assume "b \<in> set_tree (branch_tree d ?w ?S)"
      then consider "b = ?w" | "b \<in> set_tree ?S" by auto
      then show "fits (pfx_of (rt_nodes t')) c (pbits (pfx_of (rt_nodes t')) b)"
        using q(6) bw(2) D(3) P3 by cases (auto simp: fits' pbits_def)
    qed
  qed (use dom' D(4,5) fr in \<open>auto simp: less_Suc_eq\<close>)
  moreover have "keeps_payload t t'"
    using pl n(1) w(3) dom' nw by (auto simp: keeps_payload_def payload_def info_at_def)
  ultimately show ?thesis using steps link bw(2) q(5) fit fits' by auto
qed

section \<open>The whole operation\<close>

lemma route_node_get_alt:
  "route_node_get t p =
     do {
       d \<leftarrow> route_get_loop t None (rt_top t) p;
       (new, t) \<leftarrow> (case d of Exact a \<Rightarrow> Some (a, t)
          | Stopped hp None \<Rightarrow> add_leaf hp p t
          | Stopped hp (Some x) \<Rightarrow>
              do {
                (new, q, t) \<leftarrow> add_branch hp x p t;
                if pfx_prefixlen q \<noteq> pfx_prefixlen p then add_leaf (Some new) p t else Some (new, t)
              });
       t \<leftarrow> route_lock_node new t;
       Some (new, t)
     }"
  by (auto simp: route_node_get_def add_leaf_def add_branch_def link_or_top_def Let_def
      split: descent.splits option.splits prod.splits bind_splits)

lemma route_lock_node_table:
  assumes "table_tree t T" and "a \<in> set_tree T"
  shows "\<exists>n. rt_nodes t a = Some n
    \<and> route_lock_node a t = Some (t\<lparr>rt_nodes := (rt_nodes t)(a \<mapsto> n\<lparr>rn_lock := rn_lock n + 1\<rparr>)\<rparr>)
    \<and> table_tree (t\<lparr>rt_nodes := (rt_nodes t)(a \<mapsto> n\<lparr>rn_lock := rn_lock n + 1\<rparr>)\<rparr>) T"
proof -
  from assms obtain n where n: "rt_nodes t a = Some n" by (auto simp: table_tree_def)
  let ?t = "t\<lparr>rt_nodes := (rt_nodes t)(a \<mapsto> n\<lparr>rn_lock := rn_lock n + 1\<rparr>)\<rparr>"
  have "table_tree ?t T"
    by (rule table_tree_cong [OF assms(1)]) (use n in \<open>auto simp: shape_def pfx_of_def fun_eq_iff\<close>)
  with n show ?thesis by (simp add: route_lock_node_def upd_node_def)
qed

end
