(* ===== verification/Lib_Table_Map.thy ===== *)
theory Lib_Table_Map
  imports Lib_Table_Get
begin

text \<open>
  What a route table means to its clients: a map from bit strings to the info of nodes.
  The interface \<open>prefix_map\<close> states the laws of looking up and storing under a prefix;
  the route table is an instance of it.
\<close>

section \<open>\<open>route_node_get\<close>\<close>

lemma stops_at_Leaf: "stops_at t p c S hp None \<Longrightarrow> S = Leaf"
  by (cases S) (auto simp: stops_at_def)

lemma stops_at_Node: "stops_at t p c S hp (Some x) \<Longrightarrow> \<exists>l r. S = Node l x r"
  by (cases S) (auto simp: stops_at_def)

lemma branch_ctx:
  assumes "table_tree t (plug c (branch_tree d w S))" and "pbits (pfx_of (rt_nodes t)) w = prefix_bits q"
    and "prefix_bits p = prefix_bits q @ (\<not> d) # ys" and "fits (pfx_of (rt_nodes t)) c (prefix_bits p)"
  shows "table_tree t (plug ((\<not> d, w, S) # c) Leaf)"
    and "ctx_at (rt_nodes t) (rt_top t) ((\<not> d, w, S) # c) (Some w) None"
    and "fits (pfx_of (rt_nodes t)) ((\<not> d, w, S) # c) (prefix_bits p)"
proof -
  show tree: "table_tree t (plug ((\<not> d, w, S) # c) Leaf)" using assms(1) by (cases d) (simp_all add: branch_tree_def)
  from assms(1) show "ctx_at (rt_nodes t) (rt_top t) ((\<not> d, w, S) # c) (Some w) None"
    by (auto simp: table_tree_def tree_at_plug branch_tree_def split: if_splits)
  show "fits (pfx_of (rt_nodes t)) ((\<not> d, w, S) # c) (prefix_bits p)" using assms by simp
qed

text \<open>Everything \<open>route_node_get\<close> does before it locks the node it returns.\<close>

definition get_unlocked :: "'a route_table \<Rightarrow> prefix \<Rightarrow> (addr \<times> 'a route_table) option" where
  "get_unlocked t p =
     do {
       d \<leftarrow> route_get_loop t None (rt_top t) p;
       (case d of Exact a \<Rightarrow> Some (a, t)
          | Stopped hp None \<Rightarrow> add_leaf hp p t
          | Stopped hp (Some x) \<Rightarrow>
              do {
                (new, q, t) \<leftarrow> add_branch hp x p t;
                if pfx_prefixlen q \<noteq> pfx_prefixlen p then add_leaf (Some new) p t else Some (new, t)
              })
     }"

lemma route_node_get_unlocked:
  "route_node_get t p = do { (a, t) \<leftarrow> get_unlocked t p; t \<leftarrow> route_lock_node a t; Some (a, t) }"
  by (simp add: route_node_get_alt get_unlocked_def)

text \<open>A node with nodes on both sides below it.\<close>

definition branching :: "'a route_table \<Rightarrow> addr \<Rightarrow> bool" where
  "branching t b \<longleftrightarrow> (\<forall>d. \<exists>x\<in>dom (rt_nodes t). below (pfx_of (rt_nodes t)) b d x)"

definition got :: "'a route_table \<Rightarrow> prefix \<Rightarrow> addr \<Rightarrow> 'a route_table \<Rightarrow> bool" where
  "got t p a t' \<longleftrightarrow> (\<exists>T. table_tree t' T \<and> a \<in> set_tree T) \<and> keeps_payload t t'
     \<and> pbits (pfx_of (rt_nodes t')) a = prefix_bits p
     \<and> (\<forall>b\<in>dom (rt_nodes t') - dom (rt_nodes t). b = a \<or> branching t' b)"

lemma table_tree_dom: "table_tree t T \<Longrightarrow> dom (rt_nodes t) = set_tree T"
  by (simp add: table_tree_def)

lemma branch_side:
  assumes "table_tree t (plug c (branch_tree d w (Node l x r)))"
  shows "below (pfx_of (rt_nodes t)) w d x" and "x \<in> dom (rt_nodes t)"
  using table_tree_plugD [OF assms] by (auto simp: branch_tree_def split: if_splits)

lemma add_branch_got:
  assumes "table_tree t (plug c S)" and "stops_at t p c S hp (Some x)" and "get_key p"
  shows "\<exists>a t'. do { (new, q, t) \<leftarrow> add_branch hp x p t;
      if pfx_prefixlen q \<noteq> pfx_prefixlen p then add_leaf (Some new) p t else Some (new, t) } = Some (a, t')
    \<and> got t p a t'"
proof -
  from stops_at_Node [OF assms(2)] obtain l r where S: "S = Node l x r" by blast
  from add_branch_tree [OF assms(1,2) [unfolded S] assms(3)] obtain t1 q d where
    b: "add_branch hp x p t = Some (rt_fresh t, q, t1)" "table_tree t1 (plug c (branch_tree d (rt_fresh t) S))"
    "keeps_payload t t1" "pbits (pfx_of (rt_nodes t1)) (rt_fresh t) = prefix_bits q" "splits_key q p d"
    "fits (pfx_of (rt_nodes t1)) c (prefix_bits p)" unfolding S by blast
  show ?thesis
  proof (cases "pfx_prefixlen q = pfx_prefixlen p")
    case True
    moreover have "dom (rt_nodes t1) - dom (rt_nodes t) \<subseteq> {rt_fresh t}"
      using table_tree_dom [OF b(2)] table_tree_dom [OF assms(1)] by (auto simp: set_tree_plug)
    ultimately have "got t p (rt_fresh t) t1" using b by (auto simp: got_def splits_key_def set_tree_plug)
    with b True show ?thesis by simp
  next
    case False
    with b(5) obtain ys where ys: "prefix_bits p = prefix_bits q @ (\<not> d) # ys" by (auto simp: splits_key_def)
    note B = branch_ctx [OF b(2,4) ys b(6)]
    from add_leaf_tree [OF B assms(3)] obtain t2 where
      l: "add_leaf (Some (rt_fresh t)) p t1 = Some (rt_fresh t1, t2)"
      "table_tree t2 (plug ((\<not> d, rt_fresh t, S) # c) (Node Leaf (rt_fresh t1) Leaf))"
      "keeps_payload t1 t2" "pbits (pfx_of (rt_nodes t2)) (rt_fresh t1) = prefix_bits p" by blast
    have "rt_fresh t1 \<in> set_tree (plug ((\<not> d, rt_fresh t, S) # c) (Node Leaf (rt_fresh t1) Leaf))"
      by (simp only: set_tree_plug) simp
    moreover have "dom (rt_nodes t2) - dom (rt_nodes t) \<subseteq> {rt_fresh t, rt_fresh t1}"
      using table_tree_dom [OF l(2)] table_tree_dom [OF assms(1)] by (auto simp: set_tree_plug)
    moreover have "branching t2 (rt_fresh t)"
    proof -
      note X = branch_side [OF b(2) [unfolded S]]
      have same: "pfx_of (rt_nodes t2) y = pfx_of (rt_nodes t1) y" "y \<in> dom (rt_nodes t2)" if "y \<in> dom (rt_nodes t1)" for y
        using that l(3) payload_pfx_of payload_dom unfolding keeps_payload_def by blast+
      have w: "rt_fresh t \<in> dom (rt_nodes t1)" using table_tree_dom [OF b(2)] by (simp add: set_tree_plug)
      have "below (pfx_of (rt_nodes t2)) (rt_fresh t) d x" using X same(1) [OF X(2)] same(1) [OF w] by (simp add: below_def pbits_def)
      moreover have "below (pfx_of (rt_nodes t2)) (rt_fresh t) (\<not> d) (rt_fresh t1)"
        using b(4) l(4) ys same(1) [OF w] by (simp add: below_def pbits_def)
      moreover have "rt_fresh t1 \<in> dom (rt_nodes t2)" using table_tree_dom [OF l(2)] by (simp add: set_tree_plug)
      ultimately have "\<exists>y\<in>dom (rt_nodes t2). below (pfx_of (rt_nodes t2)) (rt_fresh t) e y" for e
        using same(2) [OF X(2)] by (cases "e = d") auto
      then show ?thesis by (simp add: branching_def)
    qed
    ultimately have "got t p (rt_fresh t1) t2"
      using l keeps_payload_trans [OF b(3) l(3)] unfolding got_def by blast
    with b l False show ?thesis by simp
  qed
qed

lemma get_unlocked_got:
  assumes "wf_table t" and "get_key p"
  shows "\<exists>a t'. get_unlocked t p = Some (a, t') \<and> got t p a t'"
proof -
  from assms(1) obtain T where T: "table_tree t T" by (auto simp: wf_table_def)
  then have root: "tree_at (rt_nodes t) None (rt_top t) T" "radix (pfx_of (rt_nodes t)) T"
    by (auto simp: table_tree_def)
  from route_get_loop_descends [OF conjunct1 [OF get_key_wf [OF assms(2)]] root, of "[]"]
  consider (Exact) a where "route_get_loop t None (rt_top t) p = Some (Exact a)" "a \<in> set_tree T"
      "pbits (pfx_of (rt_nodes t)) a = prefix_bits p"
    | (Stopped) c S hp h where "route_get_loop t None (rt_top t) p = Some (Stopped hp h)" "T = plug c S"
      "stops_at t p c S hp h"
    by auto
  then show ?thesis
  proof cases
    case Exact
    with T show ?thesis by (auto simp: get_unlocked_def got_def)
  next
    case Stopped
    show ?thesis
    proof (cases h)
      case None
      with Stopped stops_at_Leaf have "S = Leaf" by blast
      with Stopped T None have "table_tree t (plug c Leaf)" "ctx_at (rt_nodes t) (rt_top t) c hp None"
        "fits (pfx_of (rt_nodes t)) c (prefix_bits p)" by (auto simp: stops_at_def)
      from add_leaf_tree [OF this assms(2)] obtain t' where t': "add_leaf hp p t = Some (rt_fresh t, t')"
        "table_tree t' (plug c (Node Leaf (rt_fresh t) Leaf))" "keeps_payload t t'"
        "pbits (pfx_of (rt_nodes t')) (rt_fresh t) = prefix_bits p" by blast
      have "dom (rt_nodes t') - dom (rt_nodes t) \<subseteq> {rt_fresh t}"
        using table_tree_dom [OF t'(2)] table_tree_dom [OF T] Stopped(2) by (auto simp: set_tree_plug)
      with t' Stopped None show ?thesis by (force simp: get_unlocked_def got_def set_tree_plug)
    next
      case (Some x)
      with add_branch_got [of t c S p hp x] Stopped T assms(2) show ?thesis
        by (simp add: get_unlocked_def)
    qed
  qed
qed

lemma got_nodes:
  assumes "got t p a t'"
  shows "\<exists>n. rt_nodes t' a = Some n \<and> prefix_bits (rn_p n) = prefix_bits p"
    and "rt_nodes t b = Some m \<Longrightarrow> \<exists>m'. rt_nodes t' b = Some m' \<and> rn_p m' = rn_p m \<and> rn_info m' = rn_info m \<and> rn_lock m' = rn_lock m"
    and "rt_nodes t b = None \<Longrightarrow> rt_nodes t' b = Some m' \<Longrightarrow> rn_info m' = None \<and> rn_lock m' = 0"
proof -
  from assms obtain T where T: "table_tree t' T" "a \<in> set_tree T" "keeps_payload t t'"
    "pbits (pfx_of (rt_nodes t')) a = prefix_bits p" by (auto simp: got_def)
  then obtain n where "rt_nodes t' a = Some n" using tree_at_dom by (fastforce simp: table_tree_def)
  with T(4) show "\<exists>n. rt_nodes t' a = Some n \<and> prefix_bits (rn_p n) = prefix_bits p" by simp
  show "\<exists>m'. rt_nodes t' b = Some m' \<and> rn_p m' = rn_p m \<and> rn_info m' = rn_info m \<and> rn_lock m' = rn_lock m"
    if "rt_nodes t b = Some m"
  proof -
    have "payload (rt_nodes t') b = payload (rt_nodes t) b" using T(3) that by (auto simp: keeps_payload_def)
    with that show ?thesis by (auto simp: payload_def)
  qed
  show "rn_info m' = None \<and> rn_lock m' = 0" if "rt_nodes t b = None" "rt_nodes t' b = Some m'"
    using T(3) that by (force simp: keeps_payload_def payload_def)
qed

lemma route_node_get_got:
  assumes "wf_table t" and "get_key p"
  shows "\<exists>a t1 n. got t p a t1 \<and> rt_nodes t1 a = Some n
    \<and> route_node_get t p = Some (a, t1\<lparr>rt_nodes := (rt_nodes t1)(a \<mapsto> n\<lparr>rn_lock := rn_lock n + 1\<rparr>)\<rparr>)
    \<and> wf_table (t1\<lparr>rt_nodes := (rt_nodes t1)(a \<mapsto> n\<lparr>rn_lock := rn_lock n + 1\<rparr>)\<rparr>)"
proof -
  from get_unlocked_got [OF assms] obtain a t1 T where g: "get_unlocked t p = Some (a, t1)" "got t p a t1"
    "table_tree t1 T" "a \<in> set_tree T" by (auto simp: got_def)
  from route_lock_node_table [OF g(3,4)] g(1,2) show ?thesis
    by (fastforce simp: route_node_get_unlocked wf_table_def)
qed

text \<open>C6. \<open>route_node_get\<close> always succeeds on a well-formed table and a key of a known family,
  keeps the table well formed, returns a node that carries exactly the key's bits, and
  leaves the prefix and the info of every node as they were; the lock of the returned node
  grows by one, the other locks do not change; a node it has created has no info and is
  unlocked, except that the returned node then has the lock 1.\<close>

theorem route_node_get_correct:
  assumes "wf_table t" and "get_key p"
  shows "\<exists>a n t'. route_node_get t p = Some (a, t') \<and> wf_table t' \<and> rt_nodes t' a = Some n
    \<and> prefix_bits (rn_p n) = prefix_bits p
    \<and> (\<forall>b m. rt_nodes t b = Some m \<longrightarrow> (\<exists>m'. rt_nodes t' b = Some m' \<and> rn_p m' = rn_p m
        \<and> rn_info m' = rn_info m \<and> rn_lock m' = rn_lock m + (if b = a then 1 else 0)))
    \<and> (\<forall>b m'. rt_nodes t b = None \<and> rt_nodes t' b = Some m' \<longrightarrow>
        rn_info m' = None \<and> rn_lock m' = (if b = a then 1 else 0))"
proof -
  from route_node_get_got [OF assms] obtain a t1 n where g: "got t p a t1" and n: "rt_nodes t1 a = Some n"
    and get: "route_node_get t p = Some (a, t1\<lparr>rt_nodes := (rt_nodes t1)(a \<mapsto> n\<lparr>rn_lock := rn_lock n + 1\<rparr>)\<rparr>)"
    and wf: "wf_table (t1\<lparr>rt_nodes := (rt_nodes t1)(a \<mapsto> n\<lparr>rn_lock := rn_lock n + 1\<rparr>)\<rparr>)" by blast
  let ?t' = "t1\<lparr>rt_nodes := (rt_nodes t1)(a \<mapsto> n\<lparr>rn_lock := rn_lock n + 1\<rparr>)\<rparr>"
  show ?thesis
  proof (intro exI conjI)
    show "rt_nodes ?t' a = Some (n\<lparr>rn_lock := rn_lock n + 1\<rparr>)" by simp
    show "prefix_bits (rn_p (n\<lparr>rn_lock := rn_lock n + 1\<rparr>)) = prefix_bits p" using got_nodes(1) [OF g] n by auto
    show "\<forall>b m. rt_nodes t b = Some m \<longrightarrow> (\<exists>m'. rt_nodes ?t' b = Some m' \<and> rn_p m' = rn_p m
      \<and> rn_info m' = rn_info m \<and> rn_lock m' = rn_lock m + (if b = a then 1 else 0))"
      using got_nodes(2) [OF g] n by fastforce
    show "\<forall>b m'. rt_nodes t b = None \<and> rt_nodes ?t' b = Some m' \<longrightarrow> rn_info m' = None \<and> rn_lock m' = (if b = a then 1 else 0)"
      using got_nodes(3) [OF g] n by auto
  qed (rule get wf)+
qed

lemma wf_table_init [simp]: "wf_table route_table_init"
  unfolding wf_table_def
  by (rule exI [of _ Leaf]) (simp add: table_tree_def route_table_init_def)

theorem route_node_get_correct_witness:
  "\<exists>a n t'. route_node_get route_table_init \<lparr>pfx_family = AF_INET, pfx_prefixlen = 9, pfx_u = [10, 128, 0, 0]\<rparr> = Some (a, t')
     \<and> wf_table t' \<and> rt_nodes t' a = Some n
     \<and> prefix_bits (rn_p n) = [False, False, False, False, True, False, True, False, True]"
proof -
  let ?p = "\<lparr>pfx_family = AF_INET, pfx_prefixlen = 9, pfx_u = [10, 128, 0, 0]\<rparr>"
  have "get_key ?p" by (simp add: get_key_def family_size_def)
  from route_node_get_correct [OF wf_table_init this] show ?thesis
    by (simp add: prefix_bits_def byte_bits_def upt_rec bit_numeral_rec) blast
qed

section \<open>Searches\<close>

lemma wf_table_node:
  assumes "table_tree t T"
  shows "a \<in> set_tree T \<and> pbits (pfx_of (rt_nodes t)) a = bs \<and> info_at (rt_nodes t) a = i
    \<longleftrightarrow> (\<exists>n. rt_nodes t a = Some n \<and> prefix_bits (rn_p n) = bs \<and> rn_info n = i)"
proof -
  have "a \<in> set_tree T \<longleftrightarrow> a \<in> dom (rt_nodes t)" using assms by (simp add: table_tree_def)
  then show ?thesis by (auto simp: info_at_def)
qed

text \<open>Locking the node a search returns.\<close>

definition lock_at :: "addr option \<Rightarrow> 'a route_table \<Rightarrow> 'a route_table" where
  "lock_at r t = (case r of None \<Rightarrow> t
     | Some a \<Rightarrow> t\<lparr>rt_nodes := (rt_nodes t)(a := map_option (\<lambda>n. n\<lparr>rn_lock := rn_lock n + 1\<rparr>) (rt_nodes t a))\<rparr>)"

lemma lock_at_table:
  assumes "table_tree t T" and "\<forall>a. r = Some a \<longrightarrow> a \<in> set_tree T"
  shows "(case r of None \<Rightarrow> Some (None, t) | Some a \<Rightarrow> do { t \<leftarrow> route_lock_node a t; Some (Some a, t) })
      = Some (r, lock_at r t)" and "wf_table (lock_at r t)"
  using assms route_lock_node_table [OF assms(1)]
  by (cases r; fastforce simp: lock_at_def wf_table_def)+

lemma route_node_lookup_finds:
  assumes "wf_table t" and "lookup_key p"
  shows "\<exists>r. route_node_lookup t p = Some (r, lock_at r t) \<and> wf_table (lock_at r t)
    \<and> (\<forall>a. r = Some a \<longleftrightarrow> (\<exists>n i. rt_nodes t a = Some n \<and> prefix_bits (rn_p n) = prefix_bits p \<and> rn_info n = Some i))"
proof -
  from assms(1) obtain T where T: "table_tree t T" by (auto simp: wf_table_def)
  then have root: "tree_at (rt_nodes t) None (rt_top t) T" "radix (pfx_of (rt_nodes t)) T"
    by (auto simp: table_tree_def)
  from route_lookup_loop_finds [OF assms(2) root] obtain r where
    r: "route_lookup_loop t (rt_top t) p = Some r"
    "\<forall>a. r = Some a \<longleftrightarrow> node_found (rt_nodes t) T (prefix_bits p) a" by blast
  have found: "node_found (rt_nodes t) T bs a \<longleftrightarrow>
      (\<exists>n i. rt_nodes t a = Some n \<and> prefix_bits (rn_p n) = bs \<and> rn_info n = Some i)" for bs a
    using wf_table_node [OF T, of a bs] unfolding node_found_def by (metis not_None_eq)
  have "\<forall>a. r = Some a \<longrightarrow> a \<in> set_tree T" using r(2) by (auto simp: node_found_def)
  from lock_at_table [OF T this] r found show ?thesis by (auto simp: route_node_lookup_def)
qed

lemma route_node_match_finds:
  assumes "wf_table t" and "lookup_key p"
  shows "\<exists>r. route_node_match t p = Some (r, lock_at r t) \<and> wf_table (lock_at r t)
    \<and> (case r of
         None \<Rightarrow> \<forall>b m i. rt_nodes t b = Some m \<and> rn_info m = Some i \<longrightarrow> \<not> covers_bits (prefix_bits (rn_p m)) (prefix_bits p)
       | Some a \<Rightarrow> \<exists>n i. rt_nodes t a = Some n \<and> rn_info n = Some i \<and> covers_bits (prefix_bits (rn_p n)) (prefix_bits p)
           \<and> (\<forall>b m j. rt_nodes t b = Some m \<and> rn_info m = Some j \<and> covers_bits (prefix_bits (rn_p m)) (prefix_bits p)
                \<longrightarrow> length (prefix_bits (rn_p m)) \<le> length (prefix_bits (rn_p n))))"
proof -
  from assms(1) obtain T where T: "table_tree t T" by (auto simp: wf_table_def)
  then have root: "tree_at (rt_nodes t) None (rt_top t) T" "radix (pfx_of (rt_nodes t)) T"
    by (auto simp: table_tree_def)
  let ?k = "prefix_bits p" and ?N = "rt_nodes t"
  from route_match_loop_longest [OF assms(2) root, of None] obtain r where
    r: "route_match_loop t None (rt_top t) p = Some r"
    "r = None \<and> (\<forall>a. \<not> match_cand ?N T ?k a) \<or> (\<exists>a. r = Some a \<and> longest_match ?N T ?k a)" by blast
  have cand: "match_cand ?N T ?k b \<longleftrightarrow> (\<exists>m i. ?N b = Some m \<and> rn_info m = Some i \<and> covers_bits (prefix_bits (rn_p m)) ?k)" for b
    using wf_table_node [OF T, of b] unfolding match_cand_def by (metis not_None_eq)
  have mem: "\<forall>a. r = Some a \<longrightarrow> a \<in> set_tree T" using r(2) by (auto simp: longest_match_def match_cand_def)
  have "route_node_match t p = Some (r, lock_at r t)" "wf_table (lock_at r t)"
    using lock_at_table [OF T mem] r(1) by (simp_all add: route_node_match_def)
  moreover have "case r of
         None \<Rightarrow> \<forall>b m i. ?N b = Some m \<and> rn_info m = Some i \<longrightarrow> \<not> covers_bits (prefix_bits (rn_p m)) ?k
       | Some a \<Rightarrow> \<exists>n i. ?N a = Some n \<and> rn_info n = Some i \<and> covers_bits (prefix_bits (rn_p n)) ?k
           \<and> (\<forall>b m j. ?N b = Some m \<and> rn_info m = Some j \<and> covers_bits (prefix_bits (rn_p m)) ?k
                \<longrightarrow> length (prefix_bits (rn_p m)) \<le> length (prefix_bits (rn_p n)))"
  proof (cases r)
    case None
    with r(2) cand show ?thesis by fastforce
  next
    case (Some a)
    with r(2) have lm: "match_cand ?N T ?k a"
      "\<And>b. match_cand ?N T ?k b \<Longrightarrow> length (pbits (pfx_of ?N) b) \<le> length (pbits (pfx_of ?N) a)"
      by (auto simp: longest_match_def)
    from lm(1) obtain n i where n: "?N a = Some n" "rn_info n = Some i" "covers_bits (prefix_bits (rn_p n)) ?k"
      unfolding cand by blast
    have "length (prefix_bits (rn_p m)) \<le> length (prefix_bits (rn_p n))"
      if "?N b = Some m" "rn_info m = Some j" "covers_bits (prefix_bits (rn_p m)) ?k" for b m j
      using lm(2) [of b] that n(1) cand [of b] by simp
    with n Some show ?thesis by auto
  qed
  ultimately show ?thesis by blast
qed

section \<open>The map of a table\<close>

definition holds :: "'a route_table \<Rightarrow> bool list \<Rightarrow> addr \<Rightarrow> 'a \<Rightarrow> bool" where
  "holds t bs a i \<longleftrightarrow> (\<exists>n. rt_nodes t a = Some n \<and> prefix_bits (rn_p n) = bs \<and> rn_info n = Some i)"

definition table_map :: "'a route_table \<Rightarrow> bool list \<Rightarrow> 'a option" where
  "table_map t bs = (if \<exists>a i. holds t bs a i then Some (THE i. \<exists>a. holds t bs a i) else None)"

lemma wf_table_inj:
  assumes "wf_table t" and "rt_nodes t a = Some n" and "rt_nodes t b = Some m"
    and "prefix_bits (rn_p n) = prefix_bits (rn_p m)"
  shows "a = b"
proof -
  from assms(1) obtain T where T: "table_tree t T" by (auto simp: wf_table_def)
  then have "radix (pfx_of (rt_nodes t)) T" "a \<in> set_tree T" "b \<in> set_tree T"
    using assms(2,3) by (auto simp: table_tree_def)
  moreover have "pbits (pfx_of (rt_nodes t)) a = prefix_bits (rn_p n)" "pbits (pfx_of (rt_nodes t)) b = prefix_bits (rn_p m)"
    using assms(2,3) by simp_all
  ultimately show ?thesis using radix_inj [of _ T a b] assms(4) by simp
qed

lemma holds_unique: "wf_table t \<Longrightarrow> holds t bs a i \<Longrightarrow> holds t bs b j \<Longrightarrow> a = b \<and> i = j"
proof -
  assume wf: "wf_table t" and a: "holds t bs a i" and b: "holds t bs b j"
  from a obtain n where n: "rt_nodes t a = Some n" "prefix_bits (rn_p n) = bs" "rn_info n = Some i"
    by (auto simp: holds_def)
  from b obtain m where m: "rt_nodes t b = Some m" "prefix_bits (rn_p m) = bs" "rn_info m = Some j"
    by (auto simp: holds_def)
  have "a = b" by (rule wf_table_inj [OF wf n(1) m(1) trans [OF n(2) m(2) [symmetric]]])
  then have "n = m" using n(1) m(1) by simp
  then show ?thesis using \<open>a = b\<close> n(3) m(3) by simp
qed

lemma table_map_iff: "wf_table t \<Longrightarrow> table_map t bs = Some i \<longleftrightarrow> (\<exists>a. holds t bs a i)"
proof -
  assume wf: "wf_table t"
  have the: "(THE i. \<exists>a. holds t bs a i) = j" if "holds t bs a j" for a j
  proof (rule the_equality)
    show "\<exists>a. holds t bs a j" using that ..
    show "k = j" if "\<exists>a. holds t bs a k" for k using that holds_unique [OF wf \<open>holds t bs a j\<close>] by auto
  qed
  show ?thesis
  proof
    assume "\<exists>a. holds t bs a i"
    with the show "table_map t bs = Some i" by (auto simp: table_map_def)
  next
    assume "table_map t bs = Some i"
    then obtain a j where j: "holds t bs a j" "i = (THE i. \<exists>a. holds t bs a i)"
      by (auto simp: table_map_def split: if_splits)
    with the [OF j(1)] show "\<exists>a. holds t bs a i" by auto
  qed
qed

lemma table_map_eqI:
  assumes "wf_table t" and "\<And>bs i. (\<exists>a. holds t bs a i) \<longleftrightarrow> f bs = Some i"
  shows "table_map t = f"
proof
  fix bs
  show "table_map t bs = f bs"
    using table_map_iff [OF assms(1), of bs] assms(2) [of bs]
    by (cases "f bs"; cases "table_map t bs") auto
qed

lemma table_map_init [simp]: "table_map route_table_init = (\<lambda>_. None)"
  by (rule ext) (simp add: table_map_def holds_def route_table_init_def)

lemma holds_lock_at [simp]: "holds (lock_at r t) bs a i \<longleftrightarrow> holds t bs a i"
  by (cases r) (auto simp: lock_at_def holds_def map_option_case split: option.splits)

lemma table_map_lock_at [simp]: "table_map (lock_at r t) = table_map t"
  by (rule ext) (simp add: table_map_def)

text \<open>The client idioms: look a prefix up and read the node's info; get the node of a prefix
  and set its info.\<close>

definition lookup_info :: "'a route_table \<Rightarrow> prefix \<Rightarrow> ('a option \<times> 'a route_table) option" where
  "lookup_info t p =
     do {
       (r, t) \<leftarrow> route_node_lookup t p;
       (case r of None \<Rightarrow> Some (None, t)
        | Some a \<Rightarrow> do { n \<leftarrow> rt_nodes t a; Some (rn_info n, t) })
     }"

definition store_info :: "'a route_table \<Rightarrow> prefix \<Rightarrow> 'a \<Rightarrow> 'a route_table option" where
  "store_info t p i = do { (a, t) \<leftarrow> route_node_get t p; route_node_info a (Some i) t }"

lemma lookup_info_map:
  assumes "wf_table t" and "lookup_key p"
  shows "\<exists>t'. lookup_info t p = Some (table_map t (prefix_bits p), t') \<and> wf_table t' \<and> table_map t' = table_map t"
proof -
  from route_node_lookup_finds [OF assms] obtain r where r: "route_node_lookup t p = Some (r, lock_at r t)"
    "wf_table (lock_at r t)" "\<And>a. r = Some a \<longleftrightarrow> (\<exists>i. holds t (prefix_bits p) a i)"
    unfolding holds_def by auto
  show ?thesis
  proof (cases r)
    case None
    with r(3) have "table_map t (prefix_bits p) = None" by (simp add: table_map_def)
    with r(1,2) None show ?thesis by (simp add: lookup_info_def)
  next
    case (Some a)
    with r(3) obtain i where i: "holds t (prefix_bits p) a i" by blast
    then have "table_map t (prefix_bits p) = Some i" using table_map_iff [OF assms(1)] by blast
    moreover from i obtain n where n: "rt_nodes (lock_at (Some a) t) a = Some n" "rn_info n = Some i"
      by (auto simp: holds_def lock_at_def)
    ultimately show ?thesis using r(1,2) Some by (simp add: lookup_info_def)
  qed
qed

lemma wf_table_upd_info:
  assumes "wf_table t" and "rt_nodes t a = Some n"
  shows "wf_table (t\<lparr>rt_nodes := (rt_nodes t)(a \<mapsto> n\<lparr>rn_info := i\<rparr>)\<rparr>)"
proof -
  from assms(1) obtain T where "table_tree t T" by (auto simp: wf_table_def)
  then have "table_tree (t\<lparr>rt_nodes := (rt_nodes t)(a \<mapsto> n\<lparr>rn_info := i\<rparr>)\<rparr>) T"
    by (rule table_tree_cong) (use assms(2) in \<open>auto simp: shape_def pfx_of_def fun_eq_iff\<close>)
  then show ?thesis by (auto simp: wf_table_def)
qed

lemma route_node_info_map:
  assumes "wf_table t" and "rt_nodes t a = Some n"
  shows "\<exists>t'. route_node_info a i t = Some t' \<and> wf_table t' \<and> table_map t' = (table_map t)(prefix_bits (rn_p n) := i)"
proof -
  let ?t = "t\<lparr>rt_nodes := (rt_nodes t)(a \<mapsto> n\<lparr>rn_info := i\<rparr>)\<rparr>"
  note wf = wf_table_upd_info [OF assms, of i]
  have "table_map ?t = (table_map t)(prefix_bits (rn_p n) := i)"
  proof (rule table_map_eqI [OF wf])
    fix bs j
    have same: "holds ?t bs b j \<longleftrightarrow> (if b = a then prefix_bits (rn_p n) = bs \<and> i = Some j else holds t bs b j)" for b
      by (simp add: holds_def)
    have "b = a" if "holds t (prefix_bits (rn_p n)) b j" for b
      using that wf_table_inj [OF assms(1) _ assms(2)] by (auto simp: holds_def)
    moreover have "\<not> holds t bs a j" if "bs \<noteq> prefix_bits (rn_p n)" using assms(2) that by (auto simp: holds_def)
    ultimately have "(\<exists>b. holds ?t bs b j) \<longleftrightarrow> (if bs = prefix_bits (rn_p n) then i = Some j else (\<exists>b. holds t bs b j))"
      unfolding same by (cases "bs = prefix_bits (rn_p n)") metis+
    then show "(\<exists>b. holds ?t bs b j) \<longleftrightarrow> ((table_map t)(prefix_bits (rn_p n) := i)) bs = Some j"
      by (simp add: table_map_iff [OF assms(1)])
  qed
  with wf assms(2) show ?thesis by (simp add: route_node_info_def upd_node_def)
qed

lemma route_node_get_map:
  assumes "wf_table t" and "get_key p"
  shows "\<exists>a n t'. route_node_get t p = Some (a, t') \<and> wf_table t' \<and> table_map t' = table_map t
    \<and> rt_nodes t' a = Some n \<and> prefix_bits (rn_p n) = prefix_bits p \<and> rn_info n = table_map t (prefix_bits p)"
proof -
  from route_node_get_got [OF assms] obtain a t1 n where g: "got t p a t1" and n: "rt_nodes t1 a = Some n"
    and get: "route_node_get t p = Some (a, t1\<lparr>rt_nodes := (rt_nodes t1)(a \<mapsto> n\<lparr>rn_lock := rn_lock n + 1\<rparr>)\<rparr>)"
    and wf: "wf_table (t1\<lparr>rt_nodes := (rt_nodes t1)(a \<mapsto> n\<lparr>rn_lock := rn_lock n + 1\<rparr>)\<rparr>)" by blast
  let ?t' = "t1\<lparr>rt_nodes := (rt_nodes t1)(a \<mapsto> n\<lparr>rn_lock := rn_lock n + 1\<rparr>)\<rparr>"
  have bits: "prefix_bits (rn_p n) = prefix_bits p" using got_nodes(1) [OF g] n by auto
  have holds: "holds ?t' bs b i \<longleftrightarrow> holds t bs b i" for bs b i
  proof -
    have "holds ?t' bs b i \<longleftrightarrow> holds t1 bs b i" using n by (auto simp: holds_def)
    also have "\<dots> \<longleftrightarrow> holds t bs b i"
    proof (cases "rt_nodes t b")
      case None
      with got_nodes(3) [OF g] show ?thesis by (force simp: holds_def)
    next
      case (Some m)
      with got_nodes(2) [OF g Some] show ?thesis by (auto simp: holds_def)
    qed
    finally show ?thesis .
  qed
  then have map: "table_map ?t' = table_map t" by (intro ext) (simp add: table_map_def)
  have "rn_info n = Some i \<longleftrightarrow> table_map ?t' (prefix_bits p) = Some i" for i
  proof -
    have "(\<exists>b. holds ?t' (prefix_bits p) b i) \<longleftrightarrow> holds ?t' (prefix_bits p) a i"
    proof
      assume "\<exists>b. holds ?t' (prefix_bits p) b i"
      then obtain b m where b: "rt_nodes ?t' b = Some m" "prefix_bits (rn_p m) = prefix_bits p" "rn_info m = Some i"
        unfolding holds_def by blast
      have "b = a" by (rule wf_table_inj [OF wf b(1), of a "n\<lparr>rn_lock := rn_lock n + 1\<rparr>"]) (use b(2) bits in simp_all)
      with b show "holds ?t' (prefix_bits p) a i" unfolding holds_def by blast
    qed blast
    also have "\<dots> \<longleftrightarrow> rn_info n = Some i" using bits by (simp add: holds_def)
    finally show ?thesis using table_map_iff [OF wf] by simp
  qed
  then have "rn_info n = table_map t (prefix_bits p)" using map by (metis option.exhaust)
  with get wf map bits show ?thesis by auto
qed

section \<open>The interface of a prefix map\<close>

locale prefix_map =
  fixes invar :: "'t \<Rightarrow> bool"
    and mp :: "'t \<Rightarrow> bool list \<Rightarrow> 'a option"
    and lookup :: "'t \<Rightarrow> prefix \<Rightarrow> ('a option \<times> 't) option"
    and store :: "'t \<Rightarrow> prefix \<Rightarrow> 'a \<Rightarrow> 't option"
  assumes lookup_law: "invar t \<Longrightarrow> lookup_key p \<Longrightarrow>
      \<exists>t'. lookup t p = Some (mp t (prefix_bits p), t') \<and> invar t' \<and> mp t' = mp t"
    and store_law: "invar t \<Longrightarrow> get_key p \<Longrightarrow>
      \<exists>t'. store t p x = Some t' \<and> invar t' \<and> mp t' = (mp t)(prefix_bits p \<mapsto> x)"
begin

lemma lookup_store:
  assumes "invar t" and "get_key p" and "lookup_key q"
  shows "\<exists>t1 t2. store t p x = Some t1
    \<and> lookup t1 q = Some (if prefix_bits q = prefix_bits p then Some x else mp t (prefix_bits q), t2)
    \<and> invar t2 \<and> mp t2 = (mp t)(prefix_bits p \<mapsto> x)"
proof -
  from store_law [OF assms(1,2)] obtain t1 where
    t1: "store t p x = Some t1" "invar t1" "mp t1 = (mp t)(prefix_bits p \<mapsto> x)" by blast
  from lookup_law [OF t1(2) assms(3)] t1 show ?thesis by auto
qed

lemma store_store:
  assumes "invar t" and "get_key p"
  shows "\<exists>t1 t2. store t p x = Some t1 \<and> store t1 p y = Some t2 \<and> invar t2
    \<and> mp t2 = (mp t)(prefix_bits p \<mapsto> y)"
proof -
  from store_law [OF assms, of x] obtain t1 where
    t1: "store t p x = Some t1" "invar t1" "mp t1 = (mp t)(prefix_bits p \<mapsto> x)" by blast
  from store_law [OF t1(2) assms(2), of y] t1 show ?thesis by auto
qed

end

lemma store_info_map:
  assumes "wf_table t" and "get_key p"
  shows "\<exists>t'. store_info t p i = Some t' \<and> wf_table t' \<and> table_map t' = (table_map t)(prefix_bits p \<mapsto> i)"
proof -
  from route_node_get_map [OF assms] obtain a n t1 where g: "route_node_get t p = Some (a, t1)" "wf_table t1"
    "table_map t1 = table_map t" "rt_nodes t1 a = Some n" "prefix_bits (rn_p n) = prefix_bits p" by blast
  from route_node_info_map [OF g(2,4), of "Some i"] obtain t' where t': "route_node_info a (Some i) t1 = Some t'"
    "wf_table t'" "table_map t' = (table_map t1)(prefix_bits (rn_p n) := Some i)" by blast
  then show ?thesis using g(1,3,5) by (auto simp only: store_info_def bind.simps prod.case)
qed

interpretation rt: prefix_map wf_table table_map lookup_info store_info
  by unfold_locales (use lookup_info_map store_info_map in auto)

end
