(* ===== verification/Lib_Table_Del.thy ===== *)
theory Lib_Table_Del
  imports Lib_Table_Map
begin

text \<open>
  \<open>route_node_delete\<close> and \<open>route_unlock_node\<close> of \<open>lib/table.c\<close>: unlinking a node that
  has at most one child, and its unlocked ancestors after it, keeps the table well formed
  and loses no info. The locking discipline they need is that a node with info is locked.
\<close>

section \<open>Unlinking one node\<close>

lemma ctx_relink:
  assumes ctx: "ctx_at N tp c hp h" and ok: "ctx_ok P c"
    and upd: "case c of [] \<Rightarrow> tp' = h'
      | (d, b, s) # c' \<Rightarrow> tp' = tp \<and> (\<exists>m. N b = Some m \<and> N' b = Some (if d then m\<lparr>rn_right := h'\<rparr> else m\<lparr>rn_left := h'\<rparr>))
          \<and> (\<forall>x\<in>ctx_set c - {b}. shape N' x = shape N x)"
  shows "ctx_at N' tp' c hp h'"
proof (cases c)
  case Nil
  with ctx upd show ?thesis by simp
next
  case (Cons f c')
  obtain d b s where f: "f = (d, b, s)" by (cases f)
  from ctx Cons f obtain n where n: "hp = Some b" "N b = Some n"
    "if d then rn_right n = h \<and> tree_at N (Some b) (rn_left n) s
     else rn_left n = h \<and> tree_at N (Some b) (rn_right n) s"
    "ctx_at N tp c' (rn_parent n) (Some b)" by auto
  from upd Cons f n have N': "tp' = tp" "N' b = Some (if d then n\<lparr>rn_right := h'\<rparr> else n\<lparr>rn_left := h'\<rparr>)"
    and sh: "\<And>x. x \<in> ctx_set c - {b} \<Longrightarrow> shape N' x = shape N x" by auto
  have "b \<notin> set_tree s" using ok Cons f below_neq by fastforce
  then have "tree_at N' (Some b) y s = tree_at N (Some b) y s" for y
    by (intro tree_at_cong sh) (use Cons f in auto)
  moreover have "b \<notin> ctx_set c'" using fits_notin [of P c' b] ok Cons f by simp
  then have "ctx_at N' tp c' (rn_parent n) (Some b)"
    by (intro ctx_at_mono [OF sh n(4)]) (use Cons f in auto)
  ultimately show ?thesis using n N' Cons f by (auto split: if_splits)
qed

lemma tree_at_reparent:
  assumes "tree_at N par ptr S" and "radix P S"
    and "\<And>b. b \<in> set_tree S \<Longrightarrow> Some b \<noteq> ptr \<Longrightarrow> shape N' b = shape N b"
    and "\<And>x. ptr = Some x \<Longrightarrow> \<exists>n. N x = Some n \<and> N' x = Some (n\<lparr>rn_parent := par'\<rparr>)"
  shows "tree_at N' par' ptr S"
proof (cases S)
  case (Node l x r)
  with assms(1) have ptr: "ptr = Some x" by simp
  with assms(1,4) Node obtain n where n: "N x = Some n" "N' x = Some (n\<lparr>rn_parent := par'\<rparr>)"
    "tree_at N (Some x) (rn_left n) l" "tree_at N (Some x) (rn_right n) r" by fastforce
  have "tree_at N' (Some x) y T = tree_at N (Some x) y T" if "T \<in> {l, r}" for y T
    by (intro tree_at_cong assms(3)) (use that Node ptr radix_distinct [of P l x r] assms(2) in auto)
  with n ptr Node show ?thesis by simp
qed (use assms(1) in simp)

text \<open>The child that replaces a deleted node, as pointer and as tree.\<close>

definition only_child :: "'a route_node \<Rightarrow> addr option" where
  "only_child n = (if rn_left n \<noteq> None then rn_left n else rn_right n)"

definition unlinked :: "addr \<Rightarrow> 'a route_node \<Rightarrow> 'a route_table \<Rightarrow> 'a route_table" where
  "unlinked a n t =
     (let child = only_child n;
          N = (case child of None \<Rightarrow> rt_nodes t
               | Some x \<Rightarrow> (rt_nodes t)(x := map_option (\<lambda>m. m\<lparr>rn_parent := rn_parent n\<rparr>) (rt_nodes t x)))
      in case rn_parent n of
           None \<Rightarrow> t\<lparr>rt_top := child, rt_nodes := N(a := None)\<rparr>
         | Some b \<Rightarrow> t\<lparr>rt_nodes := N(b := map_option (\<lambda>m. if rn_left m = Some a then m\<lparr>rn_left := child\<rparr>
                                         else m\<lparr>rn_right := child\<rparr>) (N b), a := None)\<rparr>)"

lemma unlinked_fields:
  shows "rt_fresh (unlinked a n t) = rt_fresh t" and "rt_nodes (unlinked a n t) a = None"
    and "x \<noteq> a \<Longrightarrow> payload (rt_nodes (unlinked a n t)) x = payload (rt_nodes t) x"
    and "x \<noteq> a \<Longrightarrow> Some x \<noteq> only_child n \<Longrightarrow> Some x \<noteq> rn_parent n \<Longrightarrow> rt_nodes (unlinked a n t) x = rt_nodes t x"
    and "rt_top (unlinked a n t) = (if rn_parent n = None then only_child n else rt_top t)"
  by (auto simp: unlinked_def Let_def payload_def map_option_case split: option.splits)

lemma route_node_delete_step:
  assumes "rt_nodes t a = Some n" and "rn_lock n = 0" and "rn_info n = None"
    and "\<not> (rn_left n \<noteq> None \<and> rn_right n \<noteq> None)"
    and "\<And>x. only_child n = Some x \<Longrightarrow> rt_nodes t x \<noteq> None"
    and "\<And>b. rn_parent n = Some b \<Longrightarrow> b \<noteq> a \<and> rt_nodes t b \<noteq> None"
  shows "route_node_delete a t =
    (case rn_parent n of None \<Rightarrow> Some (unlinked a n t)
     | Some b \<Rightarrow> do { pn \<leftarrow> rt_nodes (unlinked a n t) b;
                      if rn_lock pn = 0 then route_node_delete b (unlinked a n t) else Some (unlinked a n t) })"
proof -
  define ch where "ch = only_child n"
  define N where "N = (case ch of None \<Rightarrow> rt_nodes t
      | Some x \<Rightarrow> (rt_nodes t)(x := map_option (\<lambda>m. m\<lparr>rn_parent := rn_parent n\<rparr>) (rt_nodes t x)))"
  note ch = ch_def [unfolded only_child_def, symmetric]
  have unl: "unlinked a n t = (case rn_parent n of
           None \<Rightarrow> t\<lparr>rt_top := ch, rt_nodes := N(a := None)\<rparr>
         | Some b \<Rightarrow> t\<lparr>rt_nodes := N(b := map_option (\<lambda>m. if rn_left m = Some a then m\<lparr>rn_left := ch\<rparr>
                                         else m\<lparr>rn_right := ch\<rparr>) (N b), a := None)\<rparr>)"
    by (simp only: unlinked_def Let_def ch_def N_def)
  have par: "(case ch of None \<Rightarrow> Some t | Some c \<Rightarrow> upd_node c (\<lambda>m. m\<lparr>rn_parent := rn_parent n\<rparr>) t)
      = Some (t\<lparr>rt_nodes := N\<rparr>)"
    using assms(5) by (cases ch) (auto simp: upd_node_def N_def simp flip: ch_def)
  have none: "N b = None \<longleftrightarrow> rt_nodes t b = None" for b by (auto simp: N_def split: option.split)
  have go: "route_node_delete a t =
    (case rn_parent n of None \<Rightarrow> Some (t\<lparr>rt_nodes := N, rt_top := ch, rt_nodes := (rt_nodes (t\<lparr>rt_nodes := N\<rparr>))(a := None)\<rparr>)
     | Some b \<Rightarrow> do {
         t1 \<leftarrow> upd_node b (\<lambda>m. if rn_left m = Some a then m\<lparr>rn_left := ch\<rparr> else m\<lparr>rn_right := ch\<rparr>) (t\<lparr>rt_nodes := N\<rparr>);
         let t1 = t1\<lparr>rt_nodes := (rt_nodes t1)(a := None)\<rparr>;
         pn \<leftarrow> rt_nodes t1 b;
         if rn_lock pn = 0 then route_node_delete b t1 else Some t1 })"
    by (subst route_node_delete.simps)
      (simp only: assms(1-4) bind.simps simp_thms if_False Let_def ch par refl)
  show ?thesis
  proof (cases "rn_parent n")
    case None
    then show ?thesis by (simp add: go unl)
  next
    case (Some b)
    with assms(6) none [of b] obtain m where m: "N b = Some m" "b \<noteq> a" by auto
    with Some show ?thesis by (simp add: go unl upd_node_def)
  qed
qed

definition spliced :: "addr tree \<Rightarrow> addr tree \<Rightarrow> addr tree" where
  "spliced l r = (if l = Leaf then r else l)"

lemma tree_at_None_iff: "tree_at N par ptr T \<Longrightarrow> ptr = None \<longleftrightarrow> T = Leaf"
  by (cases T) auto

lemma tree_at_root: "tree_at N par (Some x) T \<Longrightarrow> x \<in> set_tree T"
  by (cases T) auto

lemma unlinked_child:
  assumes "only_child n = Some x" and "rt_nodes t x = Some m" and "x \<noteq> a" and "rn_parent n \<noteq> Some x"
  shows "rt_nodes (unlinked a n t) x = Some (m\<lparr>rn_parent := rn_parent n\<rparr>)"
  using assms by (auto simp: unlinked_def Let_def split: option.split)

lemma unlinked_parent:
  assumes "rn_parent n = Some b" and "rt_nodes t b = Some m" and "b \<noteq> a" and "only_child n \<noteq> Some b"
  shows "rt_nodes (unlinked a n t) b = Some (if rn_left m = Some a then m\<lparr>rn_left := only_child n\<rparr>
    else m\<lparr>rn_right := only_child n\<rparr>)"
  using assms by (auto simp: unlinked_def Let_def split: option.split)

lemma unlinked_ctx:
  assumes ctx: "ctx_at (rt_nodes t) (rt_top t) c (rn_parent n) (Some a)" and ok: "ctx_ok P c"
    and a: "a \<notin> ctx_set c" and x: "\<And>b. only_child n = Some b \<Longrightarrow> b \<notin> ctx_set c"
  shows "ctx_at (rt_nodes (unlinked a n t)) (rt_top (unlinked a n t)) c (rn_parent n) (only_child n)"
proof (rule ctx_relink [OF ctx ok])
  let ?N = "rt_nodes t" and ?t = "unlinked a n t" and ?x = "only_child n"
  let ?N' = "rt_nodes ?t"
  show "case c of [] \<Rightarrow> rt_top ?t = ?x
    | (d, b, s) # c' \<Rightarrow> rt_top ?t = rt_top t \<and> (\<exists>m. ?N b = Some m \<and> ?N' b = Some (if d then m\<lparr>rn_right := ?x\<rparr> else m\<lparr>rn_left := ?x\<rparr>))
        \<and> (\<forall>x\<in>ctx_set c - {b}. shape ?N' x = shape ?N x)"
  proof (cases c)
    case Nil
    with ctx show ?thesis by (simp add: unlinked_fields)
  next
    case (Cons f c')
    obtain d b s where f: "f = (d, b, s)" by (cases f)
    from ctx Cons f obtain m where m: "rn_parent n = Some b" "?N b = Some m"
      "if d then rn_right m = Some a \<and> tree_at ?N (Some b) (rn_left m) s
       else rn_left m = Some a \<and> tree_at ?N (Some b) (rn_right m) s" by auto
    have "a \<notin> set_tree s" using a Cons f by auto
    then have side: "rn_left m = Some a \<longleftrightarrow> \<not> d" using m(3) tree_at_root [of ?N "Some b" a s] by (auto split: if_splits)
    have "b \<noteq> a" "?x \<noteq> Some b" using a x [of b] Cons f by auto
    from unlinked_parent [where t = t, OF m(1,2) this] side
    have b: "?N' b = Some (if d then m\<lparr>rn_right := ?x\<rparr> else m\<lparr>rn_left := ?x\<rparr>)" by simp
    have "shape ?N' y = shape ?N y" if "y \<in> ctx_set c - {b}" for y
    proof -
      have "y \<noteq> a" "Some y \<noteq> ?x" "Some y \<noteq> rn_parent n" using that a x [of y] m(1) by auto
      from unlinked_fields(4) [where t = t, OF this] show ?thesis by (simp add: shape_def)
    qed
    with b m Cons f show ?thesis by (simp add: unlinked_fields)
  qed
qed

lemma unlinked_tree:
  assumes tree: "table_tree t (plug c (Node l a r))" and n: "rt_nodes t a = Some n" and one: "l = Leaf \<or> r = Leaf"
  shows "table_tree (unlinked a n t) (plug c (spliced l r))"
proof -
  let ?N = "rt_nodes t" and ?t = "unlinked a n t" and ?S = "spliced l r" and ?x = "only_child n"
  let ?N' = "rt_nodes ?t"
  note D = table_tree_plugD [OF tree]
  from tree n have ctx: "ctx_at ?N (rt_top t) c (rn_parent n) (Some a)"
    and lr: "tree_at ?N (Some a) (rn_left n) l" "tree_at ?N (Some a) (rn_right n) r"
    by (auto simp: table_tree_def tree_at_plug)
  have S: "tree_at ?N (Some a) ?x ?S" "set_tree ?S = set_tree l \<union> set_tree r" "radix (pfx_of ?N) ?S"
    using lr one D(1) tree_at_None_iff [OF lr(1)] by (auto simp: spliced_def only_child_def)
  have dist: "a \<notin> set_tree ?S" "a \<notin> ctx_set c" "\<And>b. b \<in> set_tree ?S \<Longrightarrow> b \<notin> ctx_set c"
    using radix_distinct [OF D(1)] fits_notin [OF D(2)] D(3) S(2) by auto
  have xS: "b \<in> set_tree ?S" if "?x = Some b" for b using S(1) that tree_at_root by metis
  have hp: "b \<in> ctx_set c" if "rn_parent n = Some b" for b using ctx that by (cases c) auto
  have payl: "payload ?N' b = payload ?N b" if "b \<noteq> a" for b using unlinked_fields(3) that .
  have P': "pfx_of ?N' b = pfx_of ?N b" if "b \<in> ctx_set c \<union> set_tree ?S" for b
  proof -
    have "b \<noteq> a" using that dist by auto
    then show ?thesis by (intro payload_pfx_of payl)
  qed
  have ctx': "ctx_at ?N' (rt_top ?t) c (rn_parent n) ?x"
    by (rule unlinked_ctx [OF ctx D(2) dist(2)]) (use xS dist in blast)
  have S': "tree_at ?N' (rn_parent n) ?x ?S"
  proof (rule tree_at_reparent [OF S(1,3)])
    fix b
    assume b: "b \<in> set_tree ?S" "Some b \<noteq> ?x"
    have "b \<noteq> a" "Some b \<noteq> rn_parent n" using dist(1) dist(3) [OF b(1)] hp [of b] b(1) by auto
    from unlinked_fields(4) [where t = t, OF this(1) b(2) this(2)] show "shape ?N' b = shape ?N b" by (simp add: shape_def)
  next
    fix x
    assume x: "?x = Some x"
    then obtain m where m: "?N x = Some m" using S(1) by (cases ?S) auto
    have "x \<noteq> a" "rn_parent n \<noteq> Some x" using xS [OF x] dist hp by auto
    from unlinked_child [OF x m this] m show "\<exists>n'. ?N x = Some n' \<and> ?N' x = Some (n'\<lparr>rn_parent := rn_parent n\<rparr>)" by simp
  qed
  have "dom ?N' = dom ?N - {a}"
  proof (rule set_eqI)
    fix b
    show "b \<in> dom ?N' \<longleftrightarrow> b \<in> dom ?N - {a}"
      using payload_dom [OF payl, of b] unlinked_fields(2) [of a n t] by (cases "b = a") auto
  qed
  then have dom': "dom ?N' = ctx_set c \<union> set_tree ?S" using D(4) dist S(2) by auto
  have fits': "fits (pfx_of ?N') c bs = fits (pfx_of ?N) c bs" for bs by (rule fits_cong) (simp add: P')
  show ?thesis
  proof (rule table_treeI [OF ctx' S'])
    show "radix (pfx_of ?N') ?S" using radix_cong [of ?S "pfx_of ?N'" "pfx_of ?N"] P' S(3) by simp
    show "ctx_ok (pfx_of ?N') c" using ctx_ok_cong [of c "pfx_of ?N'" "pfx_of ?N"] P' D(2) by simp
    show "\<forall>b\<in>set_tree ?S. fits (pfx_of ?N') c (pbits (pfx_of ?N') b)"
      using D(3) S(2) P' by (simp add: fits' pbits_def)
  qed (use dom' D(5) S(2) unlinked_fields(1) [of a n t] in auto)
qed

section \<open>Deleting upwards\<close>

definition info_locked :: "'a route_table \<Rightarrow> bool" where
  "info_locked t \<longleftrightarrow> (\<forall>a n. rt_nodes t a = Some n \<and> rn_info n \<noteq> None \<longrightarrow> rn_lock n \<noteq> 0)"

text \<open>Some unlocked nodes without info are gone, the others keep prefix, lock and info.\<close>

definition prunes :: "'a route_table \<Rightarrow> 'a route_table \<Rightarrow> bool" where
  "prunes t t' \<longleftrightarrow> (\<forall>b. payload (rt_nodes t') b = payload (rt_nodes t) b
     \<or> rt_nodes t' b = None \<and> (\<exists>p. payload (rt_nodes t) b = Some (p, 0, None)))"

lemma prunes_refl [simp]: "prunes t t"
  by (simp add: prunes_def)

lemma payload_None: "payload N b = None \<longleftrightarrow> N b = None"
  by (simp add: payload_def)

lemma prunes_trans:
  assumes "prunes t1 t2" and "prunes t2 t3"
  shows "prunes t1 t3"
  using assms payload_None unfolding prunes_def by metis

lemma prunes_holds: "prunes t t' \<Longrightarrow> holds t' bs b i = holds t bs b i"
  unfolding prunes_def holds_def payload_def
  by (drule spec [of _ b], cases "rt_nodes t b"; cases "rt_nodes t' b") auto

lemma prunes_map: "prunes t t' \<Longrightarrow> table_map t' = table_map t"
  by (rule ext) (simp add: table_map_def prunes_holds)

lemma prunes_node:
  assumes "prunes t t'" and "rt_nodes t' a = Some n"
  shows "\<exists>m. rt_nodes t a = Some m \<and> rn_p m = rn_p n \<and> rn_lock m = rn_lock n \<and> rn_info m = rn_info n"
proof -
  have "payload (rt_nodes t') a = payload (rt_nodes t) a" using assms unfolding prunes_def by (metis option.distinct(1))
  with assms(2) show ?thesis by (cases "rt_nodes t a") (auto simp: payload_def)
qed

lemma prunes_keeps:
  assumes "prunes t t'" and "rt_nodes t a = Some m" and "rn_lock m \<noteq> 0 \<or> rn_info m \<noteq> None"
  shows "\<exists>n. rt_nodes t' a = Some n \<and> rn_p m = rn_p n \<and> rn_lock m = rn_lock n \<and> rn_info m = rn_info n"
proof -
  have "payload (rt_nodes t') a = payload (rt_nodes t) a" using assms unfolding prunes_def payload_def by fastforce
  with assms(2) show ?thesis by (auto simp: payload_def)
qed

lemma prunes_info_locked: "prunes t t' \<Longrightarrow> info_locked t \<Longrightarrow> info_locked t'"
  unfolding info_locked_def using prunes_node by metis

lemma prunes_unlinked:
  assumes "rt_nodes t a = Some n" and "rn_info n = None" and "rn_lock n = 0"
  shows "prunes t (unlinked a n t)"
proof -
  have "\<exists>p. payload (rt_nodes t) a = Some (p, 0, None)" using assms by (simp add: payload_def)
  then show ?thesis unfolding prunes_def
    using unlinked_fields(2,3) [where a = a and n = n and t = t] by metis
qed

text \<open>A stub is a node that nobody needs: unlocked, without info and with at most one child.\<close>

definition stub :: "'a route_table \<Rightarrow> addr \<Rightarrow> bool" where
  "stub t a \<longleftrightarrow> (\<exists>n. rt_nodes t a = Some n \<and> rn_lock n = 0 \<and> rn_info n = None \<and> (rn_left n = None \<or> rn_right n = None))"

lemma stub_unlinked:
  assumes "stub (unlinked a n t) x" and "rn_parent n \<noteq> Some x"
  shows "stub t x \<and> x \<noteq> a"
proof -
  have "x \<noteq> a" using assms(1) unlinked_fields(2) [of a n t] by (auto simp: stub_def)
  moreover have "stub t x"
    using assms \<open>x \<noteq> a\<close> by (auto simp: stub_def unlinked_def Let_def split: option.splits if_splits)
  ultimately show ?thesis by simp
qed

lemma route_node_delete_prunes:
  assumes "table_tree t (plug c (Node l a r))" and "rt_nodes t a = Some n" and "rn_lock n = 0" and "info_locked t"
  shows "\<exists>t' T'. route_node_delete a t = Some t' \<and> table_tree t' T' \<and> prunes t t' \<and> (\<forall>x. stub t' x \<longrightarrow> stub t x \<and> x \<noteq> a)"
  using assms
proof (induction c arbitrary: t l a r n)
  case (Nil t l a r n)
  have info: "rn_info n = None" using Nil.prems(2-4) unfolding info_locked_def by metis
  have at: "rn_parent n = None" "tree_at (rt_nodes t) (Some a) (rn_left n) l" "tree_at (rt_nodes t) (Some a) (rn_right n) r"
    using Nil.prems(1,2) by (auto simp: table_tree_def)
  show ?case
  proof (cases "rn_left n \<noteq> None \<and> rn_right n \<noteq> None")
    case True
    then have "route_node_delete a t = Some t"
      using Nil.prems(2,3) info by (simp add: route_node_delete.simps)
    moreover have "\<not> stub t a" using True Nil.prems(2) by (simp add: stub_def)
    ultimately show ?thesis using Nil.prems(1) by auto
  next
    case False
    with at have one: "l = Leaf \<or> r = Leaf" using tree_at_None_iff by blast
    have ch: "rt_nodes t x \<noteq> None" if "only_child n = Some x" for x
      using that at tree_at_root tree_at_dom by (metis only_child_def)
    from route_node_delete_step [OF Nil.prems(2,3) info False ch] at(1)
    have "route_node_delete a t = Some (unlinked a n t)" by simp
    moreover have "stub t x \<and> x \<noteq> a" if "stub (unlinked a n t) x" for x by (rule stub_unlinked [OF that]) (simp add: at(1))
    ultimately show ?thesis
      using unlinked_tree [OF Nil.prems(1,2) one] prunes_unlinked [OF Nil.prems(2) info Nil.prems(3)] by blast
  qed
next
  case (Cons f c t l a r n)
  obtain d b s where f: "f = (d, b, s)" by (cases f)
  have info: "rn_info n = None" using Cons.prems(2-4) unfolding info_locked_def by metis
  from Cons.prems(1,2) f obtain m where at: "rn_parent n = Some b" "rt_nodes t b = Some m"
    "tree_at (rt_nodes t) (Some a) (rn_left n) l" "tree_at (rt_nodes t) (Some a) (rn_right n) r"
    by (auto simp: table_tree_def tree_at_plug simp del: plug.simps)
  show ?case
  proof (cases "rn_left n \<noteq> None \<and> rn_right n \<noteq> None")
    case True
    then have "route_node_delete a t = Some t"
      using Cons.prems(2,3) info by (simp add: route_node_delete.simps)
    moreover have "\<not> stub t a" using True Cons.prems(2) by (simp add: stub_def)
    ultimately show ?thesis using Cons.prems(1) by auto
  next
    case False
    with at have one: "l = Leaf \<or> r = Leaf" using tree_at_None_iff by blast
    have ch: "rt_nodes t x \<noteq> None" if "only_child n = Some x" for x
      using that at tree_at_root tree_at_dom by (metis only_child_def)
    have ab: "b \<noteq> a" using fits_notin [of "pfx_of (rt_nodes t)" "f # c" a] table_tree_plugD(2,3) [OF Cons.prems(1)] f by auto
    let ?t = "unlinked a n t"
    have step: "route_node_delete a t =
      do { pn \<leftarrow> rt_nodes ?t b; if rn_lock pn = 0 then route_node_delete b ?t else Some ?t }"
      using route_node_delete_step [OF Cons.prems(2,3) info False ch] at(1,2) ab by simp
    have tree: "table_tree ?t (plug (f # c) (spliced l r))" by (rule unlinked_tree [OF Cons.prems(1,2) one])
    have pr: "prunes t ?t" by (rule prunes_unlinked [OF Cons.prems(2) info Cons.prems(3)])
    have "payload (rt_nodes ?t) b = payload (rt_nodes t) b" using unlinked_fields(3) ab by blast
    then obtain pn where pn: "rt_nodes ?t b = Some pn" using at(2) by (auto simp: payload_def)
    have st: "stub t x \<and> x \<noteq> a" if "stub ?t x" "x \<noteq> b" for x by (rule stub_unlinked [OF that(1)]) (use at(1) that(2) in simp)
    show ?thesis
    proof (cases "rn_lock pn = 0")
      case True
      from tree f have "\<exists>l' r'. table_tree ?t (plug c (Node l' b r'))" by (cases d) auto
      then obtain l' r' where "table_tree ?t (plug c (Node l' b r'))" by blast
      from Cons.IH [OF this pn True prunes_info_locked [OF pr Cons.prems(4)]] obtain t' T' where
        "route_node_delete b ?t = Some t'" "table_tree t' T'" "prunes ?t t'" "\<forall>x. stub t' x \<longrightarrow> stub ?t x \<and> x \<noteq> b" by blast
      with step pn True prunes_trans [OF pr] st show ?thesis by auto
    next
      case False
      then have "\<not> stub ?t b" using pn by (simp add: stub_def)
      with False step pn tree pr st show ?thesis by auto
    qed
  qed
qed

lemma plug_append: "plug (c @ c') T = plug c' (plug c T)"
  by (induction c T rule: plug.induct) auto

lemma tree_mem_plug: "a \<in> set_tree T \<Longrightarrow> \<exists>c l r. T = plug c (Node l a r)"
proof (induction T)
  case (Node l x r)
  consider "a = x" | "a \<in> set_tree l" | "a \<in> set_tree r" using Node.prems by auto
  then show ?case
  proof cases
    case 1
    then show ?thesis by (metis plug.simps(1))
  next
    case 2
    with Node.IH(1) obtain c l' r' where "l = plug c (Node l' a r')" by blast
    then have "Node l x r = plug (c @ [(False, x, r)]) (Node l' a r')" by (simp add: plug_append)
    then show ?thesis by blast
  next
    case 3
    with Node.IH(2) obtain c l' r' where "r = plug c (Node l' a r')" by blast
    then have "Node l x r = plug (c @ [(True, x, l)]) (Node l' a r')" by (simp add: plug_append)
    then show ?thesis by blast
  qed
qed simp

lemma route_unlock_node_stubs:
  assumes "wf_table t" and "rt_nodes t a = Some n" and "info_locked t"
    and "rn_info n \<noteq> None \<longrightarrow> rn_lock n \<noteq> 1"
  shows "\<exists>t'. route_unlock_node a t = Some t' \<and> wf_table t' \<and> info_locked t' \<and> table_map t' = table_map t
    \<and> prunes (t\<lparr>rt_nodes := (rt_nodes t)(a \<mapsto> n\<lparr>rn_lock := rn_lock n - 1\<rparr>)\<rparr>) t' \<and> (\<forall>x. stub t' x \<longrightarrow> stub t x \<and> x \<noteq> a)"
proof -
  let ?n = "n\<lparr>rn_lock := rn_lock n - 1\<rparr>"
  let ?t = "t\<lparr>rt_nodes := (rt_nodes t)(a \<mapsto> ?n)\<rparr>"
  from assms(1) obtain T where T: "table_tree t T" by (auto simp: wf_table_def)
  have T': "table_tree ?t T"
    by (rule table_tree_cong [OF T]) (use assms(2) in \<open>auto simp: shape_def pfx_of_def fun_eq_iff\<close>)
  have locked: "info_locked ?t" using assms(3,4) by (auto simp: info_locked_def)
  have "holds ?t bs b i = holds t bs b i" for bs b i using assms(2) by (auto simp: holds_def)
  then have map: "table_map ?t = table_map t" by (intro ext) (simp add: table_map_def)
  have other: "stub ?t x = stub t x" if "x \<noteq> a" for x using that by (simp add: stub_def)
  have unlock: "route_unlock_node a t = (if rn_lock ?n = 0 then route_node_delete a ?t else Some ?t)"
    using assms(2) by (simp add: route_unlock_node_def upd_node_def)
  show ?thesis
  proof (cases "rn_lock ?n = 0")
    case True
    have "a \<in> set_tree T" using T assms(2) by (auto simp: table_tree_def)
    then obtain c l r where "T = plug c (Node l a r)" using tree_mem_plug by blast
    with route_node_delete_prunes [of ?t c l a r ?n] T' True locked obtain t' T'' where
      d: "route_node_delete a ?t = Some t'" "table_tree t' T''" "prunes ?t t'" "\<forall>x. stub t' x \<longrightarrow> stub ?t x \<and> x \<noteq> a" by auto
    then show ?thesis
      using unlock True map locked prunes_map [OF d(3)] prunes_info_locked [OF d(3)] other
      by (auto simp: wf_table_def)
  next
    case False
    then have "\<not> stub ?t a" by (simp add: stub_def)
    then have "stub t x \<and> x \<noteq> a" if "stub ?t x" for x using that other [of x] by (cases "x = a") auto
    with False unlock map locked T' show ?thesis by (auto simp: wf_table_def)
  qed
qed

lemma route_unlock_node_prunes:
  assumes "wf_table t" and "rt_nodes t a = Some n" and "info_locked t"
    and "rn_info n \<noteq> None \<longrightarrow> rn_lock n \<noteq> 1"
  shows "\<exists>t'. route_unlock_node a t = Some t' \<and> wf_table t' \<and> info_locked t' \<and> table_map t' = table_map t
    \<and> prunes (t\<lparr>rt_nodes := (rt_nodes t)(a \<mapsto> n\<lparr>rn_lock := rn_lock n - 1\<rparr>)\<rparr>) t'"
  using route_unlock_node_stubs [OF assms] by blast

section \<open>Locks after \<open>route_node_get\<close>\<close>

definition same_entry :: "'a route_table \<Rightarrow> addr \<Rightarrow> 'a route_node \<Rightarrow> u32 \<Rightarrow> bool" where
  "same_entry t b m' k \<longleftrightarrow> (case rt_nodes t b of
       Some m \<Rightarrow> rn_lock m' = rn_lock m + k \<and> rn_info m' = rn_info m
     | None \<Rightarrow> rn_lock m' = k \<and> rn_info m' = None)"

lemma route_node_get_locks:
  assumes "wf_table t" and "get_key p" and "route_node_get t p = Some (a, t')" and "rt_nodes t' b = Some m'"
  shows "same_entry t b m' (if b = a then 1 else 0)"
proof -
  from route_node_get_got [OF assms(1,2)] assms(3) obtain t1 n where g: "got t p a t1" "rt_nodes t1 a = Some n"
    "t' = t1\<lparr>rt_nodes := (rt_nodes t1)(a \<mapsto> n\<lparr>rn_lock := rn_lock n + 1\<rparr>)\<rparr>" by auto
  obtain m1 where m1: "rt_nodes t1 b = Some m1" "m' = (if b = a then m1\<lparr>rn_lock := rn_lock m1 + 1\<rparr> else m1)"
    using assms(4) g(2,3) by (auto split: if_splits)
  show ?thesis
  proof (cases "rt_nodes t b")
    case None
    with got_nodes(3) [OF g(1) None m1(1)] m1(2) show ?thesis by (simp add: same_entry_def)
  next
    case (Some m)
    with got_nodes(2) [OF g(1) Some] m1 show ?thesis by (auto simp: same_entry_def)
  qed
qed

text \<open>The client idiom that takes an entry out: find its node, clear the info, and release
  the lock of the search.\<close>

definition clear_info :: "'a route_table \<Rightarrow> prefix \<Rightarrow> 'a route_table option" where
  "clear_info t p =
     do {
       (r, t) \<leftarrow> route_node_lookup t p;
       (case r of None \<Rightarrow> Some t
        | Some a \<Rightarrow> do { t \<leftarrow> route_node_info a None t; route_unlock_node a t })
     }"

lemma prunes_unlocked:
  assumes "prunes (t\<lparr>rt_nodes := (rt_nodes t)(a \<mapsto> n\<lparr>rn_lock := rn_lock n - 1\<rparr>)\<rparr>) t'" and "rt_nodes t a = Some n" and "rt_nodes t x = Some m"
  shows "case rt_nodes t' x of
      Some m' \<Rightarrow> rn_p m' = rn_p m \<and> rn_info m' = rn_info m \<and> rn_lock m' = rn_lock m - (if x = a then 1 else 0)
    | None \<Rightarrow> rn_info m = None \<and> rn_lock m = (if x = a then 1 else 0)"
  using assms unfolding prunes_def by (drule_tac spec [of _ x]) (auto simp: payload_def split: option.splits)

text \<open>C7. Releasing a lock on a node of a well-formed table in which every node with info is
  locked (and stays locked) always returns. The lock of the node drops by one; the node and
  its ancestors are deleted as far as they have become stubs, that is unlocked nodes
  without info and with at most one child: afterwards the node is not a stub, and no other node is
  one that was not before. All other nodes keep prefix, lock and info, deleted nodes had
  neither lock nor info, and the table stays well formed with every entry in place.\<close>

theorem route_unlock_node_correct:
  assumes "wf_table t" and "rt_nodes t a = Some n" and "info_locked t"
    and "rn_info n \<noteq> None \<longrightarrow> rn_lock n \<noteq> 1"
  shows "\<exists>t'. route_unlock_node a t = Some t' \<and> wf_table t' \<and> info_locked t' \<and> table_map t' = table_map t
    \<and> (\<forall>x. stub t' x \<longrightarrow> stub t x \<and> x \<noteq> a)
    \<and> (\<forall>x m. rt_nodes t x = Some m \<longrightarrow> (case rt_nodes t' x of
          Some m' \<Rightarrow> rn_p m' = rn_p m \<and> rn_info m' = rn_info m \<and> rn_lock m' = rn_lock m - (if x = a then 1 else 0)
        | None \<Rightarrow> rn_info m = None \<and> rn_lock m = (if x = a then 1 else 0)))
    \<and> dom (rt_nodes t') \<subseteq> dom (rt_nodes t)"
proof -
  from route_unlock_node_stubs [OF assms] obtain t' where
    t': "route_unlock_node a t = Some t'" "wf_table t'" "info_locked t'" "table_map t' = table_map t" "\<forall>x. stub t' x \<longrightarrow> stub t x \<and> x \<noteq> a"
    and pr: "prunes (t\<lparr>rt_nodes := (rt_nodes t)(a \<mapsto> n\<lparr>rn_lock := rn_lock n - 1\<rparr>)\<rparr>) t'" by blast
  have "dom (rt_nodes t') \<subseteq> dom (rt_nodes t)" using prunes_node [OF pr] assms(2) by (force split: if_splits)
  with t' prunes_unlocked [OF pr assms(2)] show ?thesis by blast
qed

theorem route_unlock_node_correct_witness:
  "\<exists>a t t'. route_node_get (route_table_init :: nat route_table)
       \<lparr>pfx_family = AF_INET, pfx_prefixlen = 9, pfx_u = [10, 128, 0, 0]\<rparr> = Some (a, t)
     \<and> route_unlock_node a t = Some t' \<and> wf_table t' \<and> table_map t' = (\<lambda>_. None) \<and> \<not> stub t' a"
proof -
  let ?p = "\<lparr>pfx_family = AF_INET, pfx_prefixlen = 9, pfx_u = [10, 128, 0, 0]\<rparr>"
  have "get_key ?p" by (simp add: get_key_def family_size_def)
  from route_node_get_map [OF wf_table_init this] obtain a n and t :: "nat route_table" where
    g: "route_node_get route_table_init ?p = Some (a, t)" "wf_table t" "table_map t = (\<lambda>_. None)"
    "rt_nodes t a = Some n" "rn_info n = None" by auto
  have "info_locked t"
  proof -
    have "\<nexists>b m. rt_nodes t b = Some m \<and> rn_info m \<noteq> None"
      using g(2,3) table_map_iff [OF g(2)] by (fastforce simp: holds_def)
    then show ?thesis by (auto simp: info_locked_def)
  qed
  from route_unlock_node_correct [OF g(2,4) this] g show ?thesis by auto
qed

end
