(* ===== verification/Lib_Links.thy ===== *)
theory Lib_Links
  imports Prelude
begin

text \<open>
  Sequences in memory: the ends of a list, and nodes that are linked to both neighbours, as
  the entries of a link state database and the threads of a scheduler list are. The lemmas
  hold for every type of node with two links.
\<close>

section \<open>Ends of a list\<close>

definition first_of :: "'b list \<Rightarrow> 'b option" where
  "first_of xs = (case xs of [] \<Rightarrow> None | x # _ \<Rightarrow> Some x)"

definition last_of :: "'b list \<Rightarrow> 'b option" where
  "last_of xs = (if xs = [] then None else Some (last xs))"

lemma first_of_simps [simp]: "first_of [] = None" "first_of (x # xs) = Some x"
  by (simp_all add: first_of_def)

lemma first_of_None [simp]: "first_of xs = None \<longleftrightarrow> xs = []"
  by (cases xs) auto

lemma first_of_append: "first_of (xs @ ys) = (if xs = [] then first_of ys else first_of xs)"
  by (cases xs) auto

lemma last_of_simps [simp]: "last_of [] = None" "last_of (xs @ [x]) = Some x"
  by (simp_all add: last_of_def)

lemma last_of_append: "last_of (xs @ ys) = (if ys = [] then last_of xs else last_of ys)"
  by (simp add: last_of_def)

lemma last_of_Cons: "last_of (x # xs) = (if xs = [] then Some x else last_of xs)"
  by (simp add: last_of_def)

lemma last_of_eq_None [simp]: "last_of xs = None \<longleftrightarrow> xs = []"
  by (simp add: last_of_def)

lemma last_of_mem: "last_of xs = Some x \<Longrightarrow> x \<in> set xs" and first_of_mem: "first_of xs = Some x \<Longrightarrow> x \<in> set xs"
  by (auto simp: last_of_def first_of_def split: if_splits list.splits)

lemma split_at_cases:
  "xs @ a # ys = us @ b # vs \<Longrightarrow> (\<exists>ws. us = xs @ a # ws \<and> ys = ws @ b # vs) \<or> (us = xs \<and> b = a \<and> vs = ys)
     \<or> (\<exists>ws. xs = us @ b # ws \<and> vs = ws @ a # ys)"
  by (auto simp: append_eq_append_conv2 Cons_eq_append_conv append_eq_Cons_conv)

lemma split_cases:
  "xs @ ys = us @ b # vs \<Longrightarrow> (\<exists>ws. us = xs @ ws \<and> ys = ws @ b # vs) \<or> (\<exists>ws. xs = us @ b # ws \<and> vs = ws @ ys)"
  by (auto simp: append_eq_append_conv2 Cons_eq_append_conv append_eq_Cons_conv)

section \<open>Linked nodes\<close>

definition linked_by :: "('n \<Rightarrow> nat option) \<Rightarrow> ('n \<Rightarrow> nat option) \<Rightarrow> (nat \<Rightarrow> 'n option) \<Rightarrow> nat list \<Rightarrow> bool" where
  "linked_by prv nxt H L \<longleftrightarrow> (\<forall>xs a ys. L = xs @ a # ys \<longrightarrow>
     (\<exists>n. H a = Some n \<and> prv n = last_of xs \<and> nxt n = first_of ys))"

lemma linkedD: "linked_by prv nxt H (xs @ a # ys) \<Longrightarrow> \<exists>n. H a = Some n \<and> prv n = last_of xs \<and> nxt n = first_of ys"
  unfolding linked_by_def by blast

lemma linked_mem: "linked_by prv nxt H L \<Longrightarrow> a \<in> set L \<Longrightarrow> H a \<noteq> None"
  using linkedD by (metis option.distinct(1) split_list)

lemma linked_Nil [simp]: "linked_by prv nxt H []"
  by (simp add: linked_by_def)

lemma linked_cong:
  assumes "linked_by prv nxt H L" and "\<And>a n. a \<in> set L \<Longrightarrow> H a = Some n \<Longrightarrow> \<exists>n'. H' a = Some n' \<and> prv n' = prv n \<and> nxt n' = nxt n"
  shows "linked_by prv nxt H' L"
  unfolding linked_by_def
proof (intro allI impI)
  fix xs a ys
  assume L: "L = xs @ a # ys"
  with assms(1) obtain n where "H a = Some n" "prv n = last_of xs" "nxt n = first_of ys" unfolding linked_by_def by blast
  with assms(2) [of a n] L show "\<exists>n. H' a = Some n \<and> prv n = last_of xs \<and> nxt n = first_of ys" by fastforce
qed

text \<open>Putting a node between two parts of a sequence, in place of what was there.\<close>

lemma linked_between:
  assumes lk: "linked_by prv nxt H (xs @ zs @ ys)" and dis: "distinct (xs @ zs @ ys)" and a: "a \<notin> set (xs @ ys)"
    and new: "\<exists>n. H' a = Some n \<and> prv n = last_of xs \<and> nxt n = first_of ys"
    and old: "\<And>x n. x \<in> set (xs @ ys) \<Longrightarrow> H x = Some n \<Longrightarrow> \<exists>n'. H' x = Some n'
      \<and> prv n' = (if first_of ys = Some x then Some a else prv n) \<and> nxt n' = (if last_of xs = Some x then Some a else nxt n)"
  shows "linked_by prv nxt H' (xs @ a # ys)"
  unfolding linked_by_def
proof (intro allI impI)
  fix us b vs
  assume "xs @ a # ys = us @ b # vs"
  from split_at_cases [OF this] consider ws where "us = xs @ a # ws" "ys = ws @ b # vs"
    | "us = xs" "b = a" "vs = ys" | ws where "xs = us @ b # ws" "vs = ws @ a # ys" by blast
  then show "\<exists>n. H' b = Some n \<and> prv n = last_of us \<and> nxt n = first_of vs"
  proof cases
    case 1
    from linkedD [of prv nxt H "xs @ zs @ ws" b vs] lk 1 obtain n where
      n: "H b = Some n" "prv n = last_of (xs @ zs @ ws)" "nxt n = first_of vs" by auto
    have "last_of xs \<noteq> Some b" "first_of ys = Some b \<longleftrightarrow> ws = []"
      using dis 1 last_of_mem [of xs b] by (auto simp: first_of_append dest: first_of_mem)
    with old [of b n] n 1 show ?thesis by (auto simp: last_of_append last_of_Cons)
  next
    case 2
    with new show ?thesis by simp
  next
    case 3
    from linkedD [of prv nxt H us b "ws @ zs @ ys"] lk 3 obtain n where
      n: "H b = Some n" "prv n = last_of us" "nxt n = first_of (ws @ zs @ ys)" by auto
    have "first_of ys \<noteq> Some b" "last_of xs = Some b \<longleftrightarrow> ws = []"
      using dis 3 first_of_mem [of ys b] by (auto simp: last_of_append last_of_Cons dest: last_of_mem)
    with old [of b n] n 3 show ?thesis by (auto simp: first_of_append)
  qed
qed

text \<open>Taking a node out.\<close>

lemma linked_without:
  assumes lk: "linked_by prv nxt H (xs @ a # ys)" and dis: "distinct (xs @ a # ys)"
    and old: "\<And>x n. x \<in> set (xs @ ys) \<Longrightarrow> H x = Some n \<Longrightarrow> \<exists>n'. H' x = Some n'
      \<and> prv n' = (if first_of ys = Some x then last_of xs else prv n) \<and> nxt n' = (if last_of xs = Some x then first_of ys else nxt n)"
  shows "linked_by prv nxt H' (xs @ ys)"
  unfolding linked_by_def
proof (intro allI impI)
  fix us b vs
  assume "xs @ ys = us @ b # vs"
  from split_cases [OF this] consider ws where "us = xs @ ws" "ys = ws @ b # vs"
    | ws where "xs = us @ b # ws" "vs = ws @ ys" by blast
  then show "\<exists>n. H' b = Some n \<and> prv n = last_of us \<and> nxt n = first_of vs"
  proof cases
    case 1
    from linkedD [of prv nxt H "xs @ a # ws" b vs] lk 1 obtain n where
      n: "H b = Some n" "prv n = last_of (xs @ a # ws)" "nxt n = first_of vs" by auto
    have "last_of xs \<noteq> Some b" "first_of ys = Some b \<longleftrightarrow> ws = []"
      using dis 1 last_of_mem [of xs b] by (auto simp: first_of_append dest: first_of_mem)
    with old [of b n] n 1 show ?thesis by (auto simp: last_of_append last_of_Cons)
  next
    case 2
    from linkedD [of prv nxt H us b "ws @ a # ys"] lk 2 obtain n where
      n: "H b = Some n" "prv n = last_of us" "nxt n = first_of (ws @ a # ys)" by auto
    have "first_of ys \<noteq> Some b" "last_of xs = Some b \<longleftrightarrow> ws = []"
      using dis 2 first_of_mem [of ys b] by (auto simp: last_of_append last_of_Cons dest: last_of_mem)
    with old [of b n] n 2 show ?thesis by (auto simp: first_of_append)
  qed
qed

section \<open>Updates of the heap\<close>

definition heap_upd :: "nat \<Rightarrow> ('n \<Rightarrow> 'n) \<Rightarrow> (nat \<Rightarrow> 'n option) \<Rightarrow> (nat \<Rightarrow> 'n option) option" where
  "heap_upd a f H = do { l \<leftarrow> H a; Some (H(a \<mapsto> f l)) }"

definition heap_upd_opt :: "nat option \<Rightarrow> ('n \<Rightarrow> 'n) \<Rightarrow> (nat \<Rightarrow> 'n option) \<Rightarrow> (nat \<Rightarrow> 'n option) option" where
  "heap_upd_opt r f H = (case r of None \<Rightarrow> Some H | Some a \<Rightarrow> heap_upd a f H)"

definition heap_map :: "(nat \<Rightarrow> 'n \<Rightarrow> 'n) \<Rightarrow> (nat \<Rightarrow> 'n option) \<Rightarrow> nat \<Rightarrow> 'n option" where
  "heap_map f H x = map_option (f x) (H x)"

lemma heap_map_comp: "heap_map f (heap_map g H) = heap_map (\<lambda>x l. f x (g x l)) H"
  by (auto simp: heap_map_def fun_eq_iff option.map_comp comp_def)

lemma heap_map_cong: "(\<And>x l. f x l = g x l) \<Longrightarrow> heap_map f H = heap_map g H"
  by (metis (no_types, lifting) ext heap_map_def)

lemma heap_map_None [simp]: "heap_map f H x = None \<longleftrightarrow> H x = None"
  by (simp add: heap_map_def)

lemma heap_map_Some: "H x = Some l \<Longrightarrow> heap_map f H x = Some (f x l)"
  by (simp add: heap_map_def)

lemma heap_map_id [simp]: "heap_map (\<lambda>x l. l) H = H"
  by (simp add: heap_map_def fun_eq_iff option.map_ident)

lemma heap_upd_map: "H a \<noteq> None \<Longrightarrow> heap_upd a f H = Some (heap_map (\<lambda>x l. if x = a then f l else l) H)"
  by (auto simp: heap_upd_def heap_map_def fun_eq_iff option.map_ident split: option.splits)

lemma heap_upd_opt_map:
  "(\<And>a. r = Some a \<Longrightarrow> H a \<noteq> None) \<Longrightarrow> heap_upd_opt r f H = Some (heap_map (\<lambda>x l. if r = Some x then f l else l) H)"
proof (cases r)
  case (Some a)
  assume "\<And>a. r = Some a \<Longrightarrow> H a \<noteq> None"
  with heap_upd_map [of H a f] Some show ?thesis by (auto simp: heap_upd_opt_def eq_commute)
qed (simp add: heap_upd_opt_def)

end
