(* ===== verification/Lib_Table_Walk.thy ===== *)
theory Lib_Table_Walk
  imports Lib_Table_Del Lib_Links
begin

text \<open>
  Walking a table: the successor that \<open>route_next\<close> of \<open>lib/table.c\<close> computes is the next
  node in preorder, so a walk from \<open>route_top\<close> visits every node exactly once, in the
  lexicographic order of their bit strings.
\<close>

section \<open>Preorder around a hole\<close>

fun after :: "frame list \<Rightarrow> addr list" where
  "after [] = []"
| "after ((d, b, s) # c) = (if d then after c else preorder s @ after c)"

fun before :: "frame list \<Rightarrow> addr list" where
  "before [] = []"
| "before ((d, b, s) # c) = before c @ (if d then b # preorder s else [b])"

lemma preorder_plug: "preorder (plug c T) = before c @ preorder T @ after c"
  by (induction c T rule: plug.induct) auto

lemma tree_at_first: "tree_at N par ptr T \<Longrightarrow> ptr = first_of (preorder T)"
  by (cases T) auto

lemma preorder_Nil_iff: "preorder T = [] \<longleftrightarrow> T = Leaf"
  by (cases T) auto

section \<open>The successor\<close>

lemma route_ascend_after:
  assumes "ctx_at (rt_nodes t) (rt_top t) c (rn_parent n) (Some a)" and "rt_nodes t a = Some n"
    and "ctx_ok (pfx_of (rt_nodes t)) c" and "a \<notin> ctx_set c"
  shows "route_ascend t None a = Some (first_of (after c))"
  using assms
proof (induction c arbitrary: a n)
  case Nil
  then show ?case by (simp add: route_ascend.simps)
next
  case (Cons f c)
  obtain d b s where f: "f = (d, b, s)" by (cases f)
  from Cons.prems(1) f obtain m where m: "rn_parent n = Some b" "rt_nodes t b = Some m"
    "if d then rn_right m = Some a \<and> tree_at (rt_nodes t) (Some b) (rn_left m) s
     else rn_left m = Some a \<and> tree_at (rt_nodes t) (Some b) (rn_right m) s"
    "ctx_at (rt_nodes t) (rt_top t) c (rn_parent m) (Some b)" by auto
  have "a \<notin> set_tree s" using Cons.prems(4) f by auto
  then have side: "rn_left m = Some a \<longleftrightarrow> \<not> d"
    using m(3) tree_at_root [of "rt_nodes t" "Some b" a s] by (auto split: if_splits)
  have "b \<notin> ctx_set c" using fits_notin [of "pfx_of (rt_nodes t)" c b] Cons.prems(3) f by simp
  with Cons.IH [OF m(4,2)] Cons.prems(3) f have up: "route_ascend t None b = Some (first_of (after c))" by simp
  have s: "rn_right m = first_of (preorder s)" if "\<not> d" using m(3) tree_at_first that by auto
  show ?case
    using Cons.prems(2) m(1,2) side up s f
    by (subst route_ascend.simps) (auto simp: first_of_append)
qed

lemma radix_distinct_preorder: "radix P T \<Longrightarrow> distinct (preorder T)"
proof (induction T)
  case (Node l a r)
  with radix_distinct [OF Node.prems] show ?case by auto
qed simp

lemma distinct_split: "distinct (xs @ a # ys) \<Longrightarrow> xs @ a # ys = xs' @ a # ys' \<Longrightarrow> ys = ys'"
proof (induction xs arbitrary: xs')
  case Nil
  then show ?case by (cases xs') auto
next
  case (Cons x xs)
  then obtain zs where zs: "xs' = x # zs" "xs @ a # ys = zs @ a # ys'" by (cases xs') auto
  with Cons.IH [of zs] Cons.prems(1) show ?case by simp
qed

lemma route_succ_preorder:
  assumes "table_tree t T" and "preorder T = xs @ a # ys"
  shows "route_succ t None a = Some (first_of ys)"
proof -
  have mem: "a \<in> set_tree T" using assms(2) by (metis in_set_conv_decomp set_preorder)
  then obtain c l r where T: "T = plug c (Node l a r)" using tree_mem_plug by blast
  note D = table_tree_plugD [OF assms(1) [unfolded T]]
  from assms(1) T obtain n where n: "rt_nodes t a = Some n"
    "ctx_at (rt_nodes t) (rt_top t) c (rn_parent n) (Some a)"
    "tree_at (rt_nodes t) (Some a) (rn_left n) l" "tree_at (rt_nodes t) (Some a) (rn_right n) r"
    by (auto simp: table_tree_def tree_at_plug)
  have "a \<notin> ctx_set c" using fits_notin [OF D(2)] D(3) by simp
  from route_ascend_after [OF n(2,1) D(2) this] have up: "route_ascend t None a = Some (first_of (after c))" .
  have pre: "preorder T = before c @ a # (preorder l @ preorder r @ after c)"
    using T by (simp add: preorder_plug)
  have "distinct (preorder T)" using radix_distinct_preorder assms(1) by (auto simp: table_tree_def)
  from distinct_split [OF this [unfolded pre] trans [OF pre [symmetric] assms(2)]]
  have ys: "ys = preorder l @ preorder r @ after c" by (rule sym)
  show ?thesis
    using n(1) up tree_at_first [OF n(3)] tree_at_first [OF n(4)]
    by (simp add: route_succ_def ys first_of_append)
qed

section \<open>The order of a walk\<close>

definition bits_less :: "bool list \<Rightarrow> bool list \<Rightarrow> bool" where
  "bits_less xs ys \<longleftrightarrow> (xs, ys) \<in> lexord {(False, True)}"

lemma below_bits_less: "below P a d b \<Longrightarrow> bits_less (pbits P a) (pbits P b)"
  by (auto simp: below_def bits_less_def lexord_append_rightI)

lemma sides_bits_less: "below P a False b \<Longrightarrow> below P a True b' \<Longrightarrow> bits_less (pbits P b) (pbits P b')"
  by (auto simp: below_def bits_less_def intro!: lexord_append_leftI)

lemma radix_sorted: "radix P T \<Longrightarrow> sorted_wrt (\<lambda>a b. bits_less (pbits P a) (pbits P b)) (preorder T)"
proof (induction T)
  case (Node l a r)
  then show ?case
    by (auto simp: sorted_wrt_append intro: below_bits_less sides_bits_less)
qed simp

text \<open>The nodes a walk with \<open>route_next\<close> passes, as a list: at most \<open>k\<close> steps.\<close>

fun walk :: "'a route_table \<Rightarrow> nat \<Rightarrow> addr option \<Rightarrow> addr list option" where
  "walk t k None = Some []"
| "walk t 0 (Some a) = None"
| "walk t (Suc k) (Some a) = do { nx \<leftarrow> route_succ t None a; rest \<leftarrow> walk t k nx; Some (a # rest) }"

lemma walk_suffix:
  assumes "table_tree t T"
  shows "preorder T = xs @ ys \<Longrightarrow> walk t (length ys) (first_of ys) = Some ys"
proof (induction ys arbitrary: xs)
  case (Cons a ys)
  from route_succ_preorder [OF assms Cons.prems] Cons.IH [of "xs @ [a]"] Cons.prems show ?case by simp
qed simp

lemma walk_from_top:
  assumes "table_tree t T"
  shows "walk t (size T) (rt_top t) = Some (preorder T)"
proof -
  have "rt_top t = first_of (preorder T)" using assms tree_at_first by (auto simp: table_tree_def)
  with walk_suffix [OF assms, of "[]" "preorder T"] show ?thesis by simp
qed

text \<open>Following the successors that \<open>route_next\<close> computes from the top of a well-formed
  table visits every node of the table, in strictly increasing lexicographic order of
  their bit strings (so each exactly once), and then stops.\<close>

lemma successors_in_order:
  assumes "wf_table t"
  shows "\<exists>k xs. walk t k (rt_top t) = Some xs \<and> set xs = dom (rt_nodes t)
    \<and> sorted_wrt (\<lambda>a b. bits_less (pbits (pfx_of (rt_nodes t)) a) (pbits (pfx_of (rt_nodes t)) b)) xs"
proof -
  from assms obtain T where T: "table_tree t T" by (auto simp: wf_table_def)
  then have "radix (pfx_of (rt_nodes t)) T" "dom (rt_nodes t) = set_tree T" by (auto simp: table_tree_def)
  with walk_from_top [OF T] radix_sorted show ?thesis by (auto intro!: exI [of _ "size T"])
qed

section \<open>Longest match over the map\<close>

lemma covers_bits_take: "covers_bits xs ys \<longleftrightarrow> length xs \<le> length ys \<and> xs = take (length xs) ys"
  unfolding covers_bits_def by (metis append_eq_conv_conj append_take_drop_id length_append le_add1)

lemma holds_take_iff:
  assumes "wf_table t"
  shows "(\<exists>b m i. rt_nodes t b = Some m \<and> rn_info m = Some i \<and> covers_bits (prefix_bits (rn_p m)) bs \<and> length (prefix_bits (rn_p m)) = j)
    \<longleftrightarrow> j \<le> length bs \<and> table_map t (take j bs) \<noteq> None"
proof -
  have "table_map t (take j bs) \<noteq> None \<longleftrightarrow> (\<exists>b i. holds t (take j bs) b i)"
    using table_map_iff [OF assms, of "take j bs"] by (metis option.exhaust option.simps(3))
  then show ?thesis unfolding holds_def covers_bits_take
    by (metis length_take min.absorb2)
qed

text \<open>C9. \<open>route_node_match\<close> always returns on a well-formed table: the node of the longest
  initial segment of the key that has an entry, or none when no segment has one. The
  entries are unchanged.\<close>

theorem route_node_match_longest:
  assumes "wf_table t" and "lookup_key p"
  shows "\<exists>r t'. route_node_match t p = Some (r, t') \<and> wf_table t' \<and> table_map t' = table_map t
    \<and> (case r of
         None \<Rightarrow> \<forall>j \<le> length (prefix_bits p). table_map t (take j (prefix_bits p)) = None
       | Some a \<Rightarrow> \<exists>k i. k \<le> length (prefix_bits p) \<and> holds t (take k (prefix_bits p)) a i
           \<and> table_map t (take k (prefix_bits p)) = Some i
           \<and> (\<forall>j. k < j \<and> j \<le> length (prefix_bits p) \<longrightarrow> table_map t (take j (prefix_bits p)) = None))"
proof -
  let ?bs = "prefix_bits p"
  note iff = holds_take_iff [OF assms(1), of ?bs]
  from route_node_match_finds [OF assms] obtain r where r: "route_node_match t p = Some (r, lock_at r t)" "wf_table (lock_at r t)"
    "case r of
         None \<Rightarrow> \<forall>b m i. rt_nodes t b = Some m \<and> rn_info m = Some i \<longrightarrow> \<not> covers_bits (prefix_bits (rn_p m)) ?bs
       | Some a \<Rightarrow> \<exists>n i. rt_nodes t a = Some n \<and> rn_info n = Some i \<and> covers_bits (prefix_bits (rn_p n)) ?bs
           \<and> (\<forall>b m j. rt_nodes t b = Some m \<and> rn_info m = Some j \<and> covers_bits (prefix_bits (rn_p m)) ?bs
                \<longrightarrow> length (prefix_bits (rn_p m)) \<le> length (prefix_bits (rn_p n)))" by blast
  have "case r of
         None \<Rightarrow> \<forall>j \<le> length ?bs. table_map t (take j ?bs) = None
       | Some a \<Rightarrow> \<exists>k i. k \<le> length ?bs \<and> holds t (take k ?bs) a i \<and> table_map t (take k ?bs) = Some i
           \<and> (\<forall>j. k < j \<and> j \<le> length ?bs \<longrightarrow> table_map t (take j ?bs) = None)"
  proof (cases r)
    case None
    with r(3) iff show ?thesis by (simp, metis)
  next
    case (Some a)
    with r(3) obtain n i where n: "rt_nodes t a = Some n" "rn_info n = Some i" "covers_bits (prefix_bits (rn_p n)) ?bs"
      and longest: "\<And>b m j. rt_nodes t b = Some m \<Longrightarrow> rn_info m = Some j \<Longrightarrow> covers_bits (prefix_bits (rn_p m)) ?bs
                \<Longrightarrow> length (prefix_bits (rn_p m)) \<le> length (prefix_bits (rn_p n))" by auto
    let ?k = "length (prefix_bits (rn_p n))"
    have k: "?k \<le> length ?bs" "take ?k ?bs = prefix_bits (rn_p n)" using n(3) covers_bits_take by auto
    then have "holds t (take ?k ?bs) a i" using n by (simp add: holds_def)
    moreover from this have "table_map t (take ?k ?bs) = Some i" using table_map_iff [OF assms(1)] by blast
    moreover have "table_map t (take j ?bs) = None" if "?k < j" "j \<le> length ?bs" for j
      using iff [of j] that longest by (metis leD)
    ultimately show ?thesis using Some k(1) by auto
  qed
  with r(1,2) show ?thesis by auto
qed

theorem route_node_match_longest_witness:
  "\<exists>t a t'. store_info route_table_init \<lparr>pfx_family = AF_INET, pfx_prefixlen = 9, pfx_u = [10, 128, 0, 0]\<rparr> (7 :: nat) = Some t
     \<and> route_node_match t \<lparr>pfx_family = AF_INET, pfx_prefixlen = 24, pfx_u = [10, 200, 1, 0]\<rparr> = Some (Some a, t')"
proof -
  let ?p = "\<lparr>pfx_family = AF_INET, pfx_prefixlen = 9, pfx_u = [10, 128, 0, 0]\<rparr>"
  let ?q = "\<lparr>pfx_family = AF_INET, pfx_prefixlen = 24, pfx_u = [10, 200, 1, 0]\<rparr>"
  have "get_key ?p" by (simp add: get_key_def family_size_def)
  from store_info_map [OF wf_table_init this, of 7] obtain t where
    t: "store_info route_table_init ?p (7 :: nat) = Some t" "wf_table t" "table_map t = [prefix_bits ?p \<mapsto> 7]" by auto
  have key: "lookup_key ?q" by (simp add: lookup_key_def)
  have bits: "prefix_bits ?p = take 9 (prefix_bits ?q)" "length (prefix_bits ?q) = 24" by code_simp+
  from route_node_match_longest [OF t(2) key] obtain r t' where m: "route_node_match t ?q = Some (r, t')"
    "case r of None \<Rightarrow> \<forall>j \<le> length (prefix_bits ?q). table_map t (take j (prefix_bits ?q)) = None | Some a \<Rightarrow> True"
    by (auto split: option.splits)
  have "table_map t (take 9 (prefix_bits ?q)) \<noteq> None" using t(3) bits(1) by simp
  then have "r \<noteq> None" using m(2) bits(2) by (auto split: option.splits)
  then show ?thesis using t(1) m(1) by auto
qed

text \<open>C10. What is stored under a prefix is what a lookup of the same bits returns, and no other
  key is affected: the table is a map from bit strings.\<close>

theorem store_then_lookup:
  assumes "wf_table t" and "get_key p" and "lookup_key q"
  shows "\<exists>t1 t2. store_info t p i = Some t1
    \<and> lookup_info t1 q = Some (if prefix_bits q = prefix_bits p then Some i else table_map t (prefix_bits q), t2)
    \<and> wf_table t2 \<and> table_map t2 = (table_map t)(prefix_bits p \<mapsto> i)"
  using rt.lookup_store [OF assms] .

theorem store_then_lookup_witness:
  "\<exists>t1 t2. store_info route_table_init \<lparr>pfx_family = AF_INET, pfx_prefixlen = 9, pfx_u = [10, 128, 0, 0]\<rparr> (7 :: nat) = Some t1
     \<and> lookup_info t1 \<lparr>pfx_family = AF_INET, pfx_prefixlen = 9, pfx_u = [10, 128, 1, 1]\<rparr> = Some (Some 7, t2)"
proof -
  let ?p = "\<lparr>pfx_family = AF_INET, pfx_prefixlen = 9, pfx_u = [10, 128, 0, 0]\<rparr>"
  let ?q = "\<lparr>pfx_family = AF_INET, pfx_prefixlen = 9, pfx_u = [10, 128, 1, 1]\<rparr>"
  have "get_key ?p" "lookup_key ?q" by (simp_all add: get_key_def family_size_def lookup_key_def)
  moreover have "prefix_bits ?q = prefix_bits ?p" by code_simp
  ultimately show ?thesis using store_then_lookup [OF wf_table_init, of ?p ?q 7] by auto
qed

end
