(* ===== verification/Lib_Table_Iter.thy ===== *)
theory Lib_Table_Iter
  imports Lib_Table_Walk
begin

text \<open>
  The loop \<open>for (rn = route_top (t); rn; rn = route_next (rn))\<close> with its reference counts.
  \<open>route_next\<close> locks the next node and unlocks the current one, which may delete stubs
  from the table on the way; the loop still meets every node with info exactly once, in
  the order of the prefixes, and leaves every entry of the table as it was.
\<close>

section \<open>Orders\<close>

lemma sorted_wrt_unique:
  assumes "\<And>x y. R x y \<Longrightarrow> \<not> R y x"
  shows "sorted_wrt R xs \<Longrightarrow> sorted_wrt R ys \<Longrightarrow> set xs = set ys \<Longrightarrow> xs = ys"
proof (induction xs arbitrary: ys)
  case (Cons x xs)
  then obtain y ys' where ys: "ys = y # ys'" by (cases ys) auto
  have irr: "\<not> R z z" for z using assms by blast
  have "x = y"
  proof (rule ccontr)
    assume "x \<noteq> y"
    with Cons.prems ys have "R y x" "R x y" by auto
    with assms show False by blast
  qed
  moreover have "x \<notin> set xs" "y \<notin> set ys'" using Cons.prems ys irr by auto
  then have "set xs = set ys'" using Cons.prems(3) ys \<open>x = y\<close> by auto
  ultimately show ?case using Cons.IH [of ys'] Cons.prems ys by simp
qed simp

lemma bits_less_asym: "bits_less xs ys \<Longrightarrow> \<not> bits_less ys xs"
  unfolding bits_less_def using lexord_asymmetric [of "{(False, True)}"] by (auto simp: asym_on_def)

text \<open>Pruning keeps the order of the nodes that stay.\<close>

lemma prunes_preorder:
  assumes "table_tree t T" and "table_tree t' T'" and "prunes t t'"
  shows "preorder T' = filter (\<lambda>a. rt_nodes t' a \<noteq> None) (preorder T)"
proof -
  let ?R = "\<lambda>a b. bits_less (pbits (pfx_of (rt_nodes t)) a) (pbits (pfx_of (rt_nodes t)) b)"
  have same: "pfx_of (rt_nodes t') a = pfx_of (rt_nodes t) a" if "rt_nodes t' a \<noteq> None" for a
    using that prunes_node [OF assms(3)] by (force simp: pfx_of_def)
  have dom': "set (preorder T') = dom (rt_nodes t')" "set (preorder T) = dom (rt_nodes t)"
    using assms(1,2) by (auto simp: table_tree_def)
  have eq: "pbits (pfx_of (rt_nodes t')) a = pbits (pfx_of (rt_nodes t)) a" if "a \<in> set (preorder T')" for a
    unfolding pbits_def by (subst same) (use that dom'(1) in auto)
  have s': "sorted_wrt ?R (preorder T')"
    using radix_sorted [of "pfx_of (rt_nodes t')" T'] assms(2) eq
    by (auto simp: table_tree_def simp del: set_preorder intro: sorted_wrt_mono_rel [rotated])
  have s: "sorted_wrt ?R (filter (\<lambda>a. rt_nodes t' a \<noteq> None) (preorder T))"
    using radix_sorted [of "pfx_of (rt_nodes t)" T] assms(1) by (auto simp: table_tree_def intro: sorted_wrt_filter)
  have sub: "dom (rt_nodes t') \<subseteq> dom (rt_nodes t)" using prunes_node [OF assms(3)] by blast
  show ?thesis
    by (rule sorted_wrt_unique [OF _ s' s]) (use dom' sub bits_less_asym in \<open>auto simp del: set_preorder\<close>)
qed

section \<open>One step\<close>

text \<open>No lock is about to overflow.\<close>

definition few_locks :: "'a route_table \<Rightarrow> bool" where
  "few_locks t \<longleftrightarrow> (\<forall>a n. rt_nodes t a = Some n \<longrightarrow> unat (rn_lock n) < 2 ^ 32 - 2)"

text \<open>
  The table \<open>t\<close> while a loop over the table \<open>t0\<close> is at node \<open>cur\<close>: the nodes are those of
  \<open>t0\<close> less some without info, and the lock of the current one counts the loop as well.
\<close>

definition iter_node :: "'a route_table \<Rightarrow> addr option \<Rightarrow> addr \<Rightarrow> 'a route_node \<Rightarrow> bool" where
  "iter_node t0 cur x m \<longleftrightarrow> (\<exists>m0. rt_nodes t0 x = Some m0 \<and> rn_p m = rn_p m0 \<and> rn_info m = rn_info m0
     \<and> rn_lock m = rn_lock m0 + (if cur = Some x then 1 else 0))"

definition iter_at :: "'a route_table \<Rightarrow> addr option \<Rightarrow> 'a route_table \<Rightarrow> bool" where
  "iter_at t0 cur t \<longleftrightarrow> wf_table t \<and> (\<forall>x m. rt_nodes t x = Some m \<longrightarrow> iter_node t0 cur x m)
     \<and> (\<forall>x m0. rt_nodes t0 x = Some m0 \<and> rn_info m0 \<noteq> None \<longrightarrow> rt_nodes t x \<noteq> None)"

lemma small_lock:
  assumes "unat (k :: u32) < 2 ^ 32 - 2"
  shows "k + 1 \<noteq> 0" and "k \<noteq> 0 \<Longrightarrow> k + 1 \<noteq> 1"
proof
  assume "k + 1 = 0"
  then have "k = - 1" by (simp add: add_eq_0_iff2)
  with assms show False by (simp add: unsigned_minus_1_eq_mask mask_eq_exp_minus_1)
qed simp

lemma iter_at_node: "iter_at t0 cur t \<Longrightarrow> rt_nodes t x = Some m \<Longrightarrow> iter_node t0 cur x m"
  by (simp add: iter_at_def)

lemma iter_at_info_locked:
  assumes "iter_at t0 cur t" and "info_locked t0" and "few_locks t0"
  shows "info_locked t"
  unfolding info_locked_def
proof (intro allI impI)
  fix a n
  assume n: "rt_nodes t a = Some n \<and> rn_info n \<noteq> None"
  with assms(1) obtain m0 where m0: "rt_nodes t0 a = Some m0" "rn_info n = rn_info m0"
    "rn_lock n = rn_lock m0 + (if cur = Some a then 1 else 0)"
    using iter_at_node [OF assms(1)] unfolding iter_node_def by metis
  from m0(1) assms(3) have "unat (rn_lock m0) < 2 ^ 32 - 2" unfolding few_locks_def by blast
  moreover have "rn_lock m0 \<noteq> 0" using m0 n assms(2) unfolding info_locked_def by metis
  ultimately show "rn_lock n \<noteq> 0" using m0(3) small_lock by auto
qed

text \<open>Locking the next node, and then unlocking the current one, before stubs are deleted.\<close>

definition handed_over :: "addr \<Rightarrow> addr option \<Rightarrow> 'a route_table \<Rightarrow> 'a route_table" where
  "handed_over a b t = (let t1 = lock_at b t in
     t1\<lparr>rt_nodes := (rt_nodes t1)(a := map_option (\<lambda>n. n\<lparr>rn_lock := rn_lock n - 1\<rparr>) (rt_nodes t1 a))\<rparr>)"

lemma lock_at_nodes:
  "rt_nodes (lock_at b t) x = map_option (\<lambda>n. n\<lparr>rn_lock := rn_lock n + (if b = Some x then 1 else 0)\<rparr>) (rt_nodes t x)"
  by (cases b; cases "rt_nodes t x") (auto simp: lock_at_def)

lemma lock_at_tree: "table_tree t T \<Longrightarrow> table_tree (lock_at b t) T"
  by (erule table_tree_cong)
    (auto simp: shape_def pfx_of_def lock_at_nodes option.map_comp comp_def fun_eq_iff lock_at_def split: option.splits)

lemma handed_over_nodes:
  assumes "b \<noteq> Some a"
  shows "rt_nodes (handed_over a b t) x = map_option (\<lambda>n. n\<lparr>rn_lock := rn_lock n + (if b = Some x then 1 else 0) - (if x = a then 1 else 0)\<rparr>) (rt_nodes t x)"
  using assms by (cases "rt_nodes t x") (auto simp: handed_over_def Let_def lock_at_nodes)

lemma handed_over_tree:
  assumes "table_tree t T" and "b \<noteq> Some a"
  shows "table_tree (handed_over a b t) T"
  by (rule table_tree_cong [OF assms(1)])
    (auto simp: shape_def pfx_of_def handed_over_nodes [OF assms(2)] handed_over_def Let_def lock_at_def option.map_comp comp_def fun_eq_iff
      split: option.splits)

lemma handed_over_iter:
  assumes "iter_at t0 (Some a) t" and "b \<noteq> Some a" and "rt_nodes (handed_over a b t) x = Some m"
  shows "iter_node t0 b x m"
proof -
  from assms(3) obtain n where n: "rt_nodes t x = Some n" "m = n\<lparr>rn_lock := rn_lock n + (if b = Some x then 1 else 0) - (if x = a then 1 else 0)\<rparr>"
    by (auto simp: handed_over_nodes [OF assms(2)])
  from iter_at_node [OF assms(1) n(1)] show ?thesis using assms(2) n(2) by (auto simp: iter_node_def)
qed

text \<open>\<open>route_next\<close> at a node of the loop.\<close>

lemma route_next_iter:
  assumes t0: "info_locked t0" "few_locks t0" and it: "iter_at t0 (Some a) t" and T: "table_tree t T" and pre: "preorder T = xs @ a # ys"
  shows "\<exists>t' T' xs'. route_next a t = Some (first_of ys, t') \<and> iter_at t0 (first_of ys) t' \<and> table_tree t' T'
    \<and> preorder T' = xs' @ filter (\<lambda>x. rt_nodes t' x \<noteq> None) ys \<and> first_of (filter (\<lambda>x. rt_nodes t' x \<noteq> None) ys) = first_of ys"
proof -
  let ?b = "first_of ys"
  have dis: "distinct (xs @ a # ys)" using radix_distinct_preorder T pre by (metis table_tree_def)
  have mem: "set (xs @ a # ys) = dom (rt_nodes t)" using T pre by (metis table_tree_def set_preorder)
  have b: "\<forall>x. ?b = Some x \<longrightarrow> x \<in> set_tree T \<and> x \<noteq> a" using dis pre set_preorder [of T] by (cases ys) auto
  have lock: "(case ?b of None \<Rightarrow> Some t | Some b \<Rightarrow> route_lock_node b t) = Some (lock_at ?b t)" "wf_table (lock_at ?b t)"
    using lock_at_table [OF T, of ?b] b by (auto split: option.splits bind_splits)
  let ?t1 = "lock_at ?b t" let ?t2 = "handed_over a ?b t"
  have ba: "?b \<noteq> Some a" using b by blast
  obtain n where n: "rt_nodes t a = Some n" using mem by auto
  have n1: "rt_nodes ?t1 a = Some n" using n ba by (simp add: lock_at_nodes)
  from iter_at_node [OF it n] obtain m0 where m0: "rt_nodes t0 a = Some m0" "rn_p n = rn_p m0" "rn_info n = rn_info m0" "rn_lock n = rn_lock m0 + 1"
    by (auto simp: iter_node_def)
  have sm: "unat (rn_lock m) < 2 ^ 32 - 2" if "rt_nodes t0 x = Some m" for x m using that t0(2) unfolding few_locks_def by blast
  have nz: "rn_lock m \<noteq> 0" if "rt_nodes t0 x = Some m" "rn_info m \<noteq> None" for x m using that t0(1) unfolding info_locked_def by blast
  have il: "info_locked ?t1" unfolding info_locked_def
  proof (intro allI impI)
    fix x k
    assume k: "rt_nodes ?t1 x = Some k \<and> rn_info k \<noteq> None"
    then obtain k' where k': "rt_nodes t x = Some k'" "k = k'\<lparr>rn_lock := rn_lock k' + (if ?b = Some x then 1 else 0)\<rparr>"
      by (auto simp: lock_at_nodes)
    from iter_at_node [OF it k'(1)] obtain k0 where k0: "rt_nodes t0 x = Some k0" "rn_info k' = rn_info k0"
      "rn_lock k' = rn_lock k0 + (if Some a = Some x then 1 else 0)" unfolding iter_node_def by blast
    have "rn_info k0 \<noteq> None" using k k'(2) k0(2) by simp
    moreover have "rn_lock k = rn_lock k0 \<or> rn_lock k = rn_lock k0 + 1" using k'(2) k0(3) ba by auto
    ultimately show "rn_lock k \<noteq> 0" using small_lock(1) [OF sm [OF k0(1)]] nz [OF k0(1)] by auto
  qed
  have "rn_info n \<noteq> None \<longrightarrow> rn_lock n \<noteq> 1" using m0 small_lock(2) [OF sm] nz by simp
  from route_unlock_node_prunes [OF lock(2) n1 il this] obtain t' where t': "route_unlock_node a ?t1 = Some t'" "wf_table t'"
    and pr: "prunes (?t1\<lparr>rt_nodes := (rt_nodes ?t1)(a \<mapsto> n\<lparr>rn_lock := rn_lock n - 1\<rparr>)\<rparr>) t'" by blast
  have pr: "prunes ?t2 t'" using pr n1 by (simp add: handed_over_def Let_def)
  from t'(2) obtain T' where T': "table_tree t' T'" by (auto simp: wf_table_def)
  have nxt: "route_next a t = Some (?b, t')"
    using route_succ_preorder [OF T pre] lock(1) t'(1) by (simp add: route_next_def route_advance_def)
  have keepb: "rt_nodes t' x \<noteq> None" if bx: "?b = Some x" for x
  proof -
    obtain k where k: "rt_nodes t x = Some k" using b bx T by (fastforce simp: table_tree_def)
    from iter_at_node [OF it k] bx ba obtain k0 where "rt_nodes t0 x = Some k0" "rn_lock k = rn_lock k0" by (auto simp: iter_node_def)
    with small_lock(1) [OF sm] have "rn_lock k + 1 \<noteq> 0" by metis
    moreover have "rt_nodes ?t2 x = Some (k\<lparr>rn_lock := rn_lock k + 1\<rparr>)" using handed_over_nodes [OF ba, of t x] k bx ba by simp
    ultimately have "\<exists>m. rt_nodes ?t2 x = Some m \<and> rn_lock m \<noteq> 0" by simp
    with prunes_keeps [OF pr] show ?thesis by (metis option.distinct(1))
  qed
  have "iter_at t0 ?b t'" unfolding iter_at_def
  proof (intro conjI allI impI)
    fix x m
    assume "rt_nodes t' x = Some m"
    from prunes_node [OF pr this] obtain m2 where m2: "rt_nodes ?t2 x = Some m2" "rn_p m2 = rn_p m" "rn_lock m2 = rn_lock m" "rn_info m2 = rn_info m" by blast
    from handed_over_iter [OF it ba m2(1)] m2 show "iter_node t0 ?b x m" by (simp add: iter_node_def)
  next
    fix x k0
    assume k0: "rt_nodes t0 x = Some k0 \<and> rn_info k0 \<noteq> None"
    with it obtain k where k: "rt_nodes t x = Some k" unfolding iter_at_def by blast
    from iter_at_node [OF it k] k0 have "rn_info k \<noteq> None" by (auto simp: iter_node_def)
    with k have "\<exists>m. rt_nodes ?t2 x = Some m \<and> rn_info m \<noteq> None" by (simp add: handed_over_nodes [OF ba])
    with prunes_keeps [OF pr] show "rt_nodes t' x \<noteq> None" by (metis option.distinct(1))
  qed (rule t'(2))
  moreover have "preorder T' = filter (\<lambda>x. rt_nodes t' x \<noteq> None) (xs @ [a]) @ filter (\<lambda>x. rt_nodes t' x \<noteq> None) ys"
    using prunes_preorder [OF handed_over_tree [OF T ba] T' pr] pre by simp
  moreover have "first_of (filter (\<lambda>x. rt_nodes t' x \<noteq> None) ys) = ?b" using keepb by (cases ys) auto
  ultimately show ?thesis using nxt T' by blast
qed

section \<open>Loops\<close>

text \<open>The entries of a table in the order of their prefixes.\<close>

definition entries_of :: "'a route_table \<Rightarrow> addr list \<Rightarrow> (prefix \<times> 'a) list" where
  "entries_of t xs = concat (map (\<lambda>a. case rt_nodes t a of None \<Rightarrow> []
     | Some n \<Rightarrow> (case rn_info n of None \<Rightarrow> [] | Some i \<Rightarrow> [(rn_p n, i)])) xs)"

lemma entries_of_simps [simp]: "entries_of t [] = []" "entries_of t (xs @ ys) = entries_of t xs @ entries_of t ys"
  by (simp_all add: entries_of_def)

lemma entries_of_Cons: "entries_of t (a # xs) = entries_of t [a] @ entries_of t xs"
  by (simp add: entries_of_def)

lemma entries_of_filter:
  assumes "\<And>x. x \<in> set xs \<Longrightarrow> \<not> P x \<Longrightarrow> entries_of t [x] = []"
  shows "entries_of t (filter P xs) = entries_of t xs"
  using assms
proof (induction xs)
  case (Cons x xs)
  then have "entries_of t (filter P xs) = entries_of t xs" by simp
  with Cons.prems [of x] entries_of_Cons [of t x xs] entries_of_Cons [of t x "filter P xs"] show ?case by simp
qed simp

lemma set_entries_of:
  "(p, i) \<in> set (entries_of t xs) \<longleftrightarrow> (\<exists>a\<in>set xs. \<exists>n. rt_nodes t a = Some n \<and> rn_p n = p \<and> rn_info n = Some i)"
proof (induction xs)
  case (Cons a xs)
  have "(p, i) \<in> set (entries_of t [a]) \<longleftrightarrow> (\<exists>n. rt_nodes t a = Some n \<and> rn_p n = p \<and> rn_info n = Some i)"
    by (cases "rt_nodes t a") (auto simp: entries_of_def split: option.splits)
  with Cons show ?case by (subst entries_of_Cons) simp
qed simp

lemma entries_of_sorted:
  assumes "sorted_wrt (\<lambda>a b. bits_less (pbits (pfx_of (rt_nodes t)) a) (pbits (pfx_of (rt_nodes t)) b)) xs"
  shows "sorted_wrt (\<lambda>x y. bits_less (prefix_bits (fst x)) (prefix_bits (fst y))) (entries_of t xs)"
  using assms
proof (induction xs)
  case (Cons a xs)
  have "bits_less (prefix_bits (fst x)) (prefix_bits (fst y))" if "x \<in> set (entries_of t [a])" "y \<in> set (entries_of t xs)" for x y
  proof -
    obtain p i q j where xy: "x = (p, i)" "y = (q, j)" by (cases x, cases y) auto
    from that xy obtain b n m where "b \<in> set xs" "rt_nodes t a = Some n" "rn_p n = p" "rt_nodes t b = Some m" "rn_p m = q"
      by (auto simp: set_entries_of)
    with Cons.prems xy show ?thesis by fastforce
  qed
  moreover have "length (entries_of t [a]) \<le> 1" by (simp add: entries_of_def split: option.splits)
  then have "sorted_wrt (\<lambda>x y. bits_less (prefix_bits (fst x)) (prefix_bits (fst y))) (entries_of t [a])"
    by (cases "entries_of t [a]") auto
  ultimately show ?case using Cons by (subst entries_of_Cons) (simp add: sorted_wrt_append)
qed simp

lemma entries_of_table:
  assumes "table_tree t T"
  shows "table_map t bs = Some i \<longleftrightarrow> (\<exists>p. (p, i) \<in> set (entries_of t (preorder T)) \<and> prefix_bits p = bs)"
    and "sorted_wrt (\<lambda>x y. bits_less (prefix_bits (fst x)) (prefix_bits (fst y))) (entries_of t (preorder T))"
proof -
  have wf: "wf_table t" and dom: "set (preorder T) = dom (rt_nodes t)" and rad: "radix (pfx_of (rt_nodes t)) T"
    using assms by (auto simp: wf_table_def table_tree_def)
  show "table_map t bs = Some i \<longleftrightarrow> (\<exists>p. (p, i) \<in> set (entries_of t (preorder T)) \<and> prefix_bits p = bs)"
    unfolding table_map_iff [OF wf] holds_def set_entries_of dom by blast
  show "sorted_wrt (\<lambda>x y. bits_less (prefix_bits (fst x)) (prefix_bits (fst y))) (entries_of t (preorder T))"
    by (rule entries_of_sorted [OF radix_sorted [OF rad]])
qed

text \<open>After the loop every node that is left has its lock back, and every entry is left.\<close>

lemma iter_done:
  assumes "iter_at t None t'"
  shows "table_map t' = table_map t" "info_locked t \<Longrightarrow> info_locked t'" "few_locks t \<Longrightarrow> few_locks t'"
proof -
  have node: "\<exists>m0. rt_nodes t x = Some m0 \<and> rn_p m = rn_p m0 \<and> rn_info m = rn_info m0 \<and> rn_lock m = rn_lock m0"
    if "rt_nodes t' x = Some m" for x m using iter_at_node [OF assms that] by (auto simp: iter_node_def)
  have stays: "\<exists>m. rt_nodes t' x = Some m \<and> rn_p m = rn_p m0 \<and> rn_info m = rn_info m0"
    if "rt_nodes t x = Some m0" "rn_info m0 \<noteq> None" for x m0
    using assms that node unfolding iter_at_def by (metis option.exhaust option.inject)
  have "holds t' bs x i = holds t bs x i" for bs x i
    unfolding holds_def using node stays by (metis option.distinct(1))
  then show "table_map t' = table_map t" by (intro ext) (simp add: table_map_def)
  show "info_locked t \<Longrightarrow> info_locked t'" "few_locks t \<Longrightarrow> few_locks t'"
    using node unfolding info_locked_def few_locks_def by metis+
qed

text \<open>
  A loop that produces some output at every node: \<open>out\<close> depends on the prefix and the info
  only, and there is none at a node without info.
\<close>

locale table_loop =
  fixes loop :: "addr option \<Rightarrow> 'a route_table \<Rightarrow> ('e list \<times> 'a route_table) option"
    and out :: "'a route_node \<Rightarrow> 'e list" and item :: "prefix \<times> 'a \<Rightarrow> 'e list"
  assumes loop_None: "loop None t = Some ([], t)"
    and loop_Some: "loop (Some a) t =
      do { n \<leftarrow> rt_nodes t a; (nx, t) \<leftarrow> route_next a t; (es, t) \<leftarrow> loop nx t; Some (out n @ es, t) }"
    and out_item: "out n = (case rn_info n of None \<Rightarrow> [] | Some i \<Rightarrow> item (rn_p n, i))"
begin

lemma loop_from:
  assumes t0: "info_locked t0" "few_locks t0"
  shows "iter_at t0 (first_of ys) t \<Longrightarrow> table_tree t T \<Longrightarrow> preorder T = xs @ ys \<Longrightarrow>
    \<exists>t'. loop (first_of ys) t = Some (concat (map item (entries_of t0 ys)), t') \<and> iter_at t0 None t'"
proof (induction "length ys" arbitrary: xs ys t T rule: less_induct)
  case less
  show ?case
  proof (cases ys)
    case Nil
    with less.prems show ?thesis by (simp add: loop_None)
  next
    case (Cons a zs)
    from less.prems Cons have it: "iter_at t0 (Some a) t" and pre: "preorder T = xs @ a # zs" by simp_all
    from route_next_iter [OF t0 it less.prems(2) pre] obtain t1 T1 xs1 where r: "route_next a t = Some (first_of zs, t1)"
      "iter_at t0 (first_of zs) t1" "table_tree t1 T1"
      and pre1: "preorder T1 = xs1 @ filter (\<lambda>x. rt_nodes t1 x \<noteq> None) zs"
      and fo: "first_of (filter (\<lambda>x. rt_nodes t1 x \<noteq> None) zs) = first_of zs" by blast
    let ?zs = "filter (\<lambda>x. rt_nodes t1 x \<noteq> None) zs"
    have "length ?zs < length ys" using Cons length_filter_le [of _ zs] by (simp add: le_imp_less_Suc)
    from less.hyps [OF this _ r(3) pre1] r(2) fo obtain t' where
      t': "loop (first_of zs) t1 = Some (concat (map item (entries_of t0 ?zs)), t')" "iter_at t0 None t'" by auto
    have "entries_of t0 ?zs = entries_of t0 zs"
    proof (rule entries_of_filter)
      fix x
      assume "\<not> rt_nodes t1 x \<noteq> None"
      with r(2) have "\<forall>m0. rt_nodes t0 x = Some m0 \<longrightarrow> rn_info m0 = None" unfolding iter_at_def by metis
      then show "entries_of t0 [x] = []" by (simp add: entries_of_def split: option.splits)
    qed
    moreover obtain n where n: "rt_nodes t a = Some n"
      using less.prems(2) pre set_preorder [of T] unfolding table_tree_def by (metis domD in_set_conv_decomp)
    moreover from iter_at_node [OF it n] have "out n = concat (map item (entries_of t0 [a]))"
      by (auto simp: iter_node_def out_item entries_of_def split: option.splits)
    ultimately show ?thesis using Cons r(1) t' entries_of_Cons [of t0 a zs] by (simp add: loop_Some)
  qed
qed

lemma loop_top_iter:
  assumes "table_tree t T" and "info_locked t" and "few_locks t"
  shows "\<exists>t'. do { (rn, t) \<leftarrow> route_top t; loop rn t } = Some (concat (map item (entries_of t (preorder T))), t') \<and> iter_at t None t'"
proof -
  have b: "rt_top t = first_of (preorder T)" using assms(1) tree_at_first by (auto simp: table_tree_def)
  have mem: "\<forall>x. rt_top t = Some x \<longrightarrow> x \<in> set_tree T" using b set_preorder [of T] by (cases "preorder T") auto
  have top: "route_top t = Some (rt_top t, lock_at (rt_top t) t)"
    using lock_at_table(1) [OF assms(1) mem] by (simp add: route_top_def)
  have tree: "table_tree (lock_at (rt_top t) t) T" by (rule lock_at_tree [OF assms(1)])
  have "iter_at t (rt_top t) (lock_at (rt_top t) t)"
    using tree by (auto simp: iter_at_def iter_node_def lock_at_nodes wf_table_def)
  from loop_from [OF assms(2,3), of "preorder T" _ T "[]"] this tree b top show ?thesis by auto
qed

lemma loop_top:
  assumes "table_tree t T" and "info_locked t" and "few_locks t"
  shows "\<exists>t'. do { (rn, t) \<leftarrow> route_top t; loop rn t } = Some (concat (map item (entries_of t (preorder T))), t')
    \<and> wf_table t' \<and> info_locked t' \<and> few_locks t' \<and> table_map t' = table_map t"
proof -
  from loop_top_iter [OF assms] obtain t' where
    t': "do { (rn, t) \<leftarrow> route_top t; loop rn t } = Some (concat (map item (entries_of t (preorder T))), t')" "iter_at t None t'" by blast
  show ?thesis using t' iter_done [OF t'(2)] assms(2,3) by (auto simp: iter_at_def)
qed

end

section \<open>All entries\<close>

text \<open>The loop as its clients write it, which notes the prefix and the info of every node that has one.\<close>

partial_function (option) visit :: "addr option \<Rightarrow> 'a route_table \<Rightarrow> ((prefix \<times> 'a) list \<times> 'a route_table) option" where
  "visit rn t =
     (case rn of None \<Rightarrow> Some ([], t)
      | Some a \<Rightarrow>
          do {
            n \<leftarrow> rt_nodes t a;
            (nx, t) \<leftarrow> route_next a t;
            (es, t) \<leftarrow> visit nx t;
            Some ((case rn_info n of None \<Rightarrow> [] | Some i \<Rightarrow> [(rn_p n, i)]) @ es, t)
          })"

interpretation visits: table_loop visit "\<lambda>n. case rn_info n of None \<Rightarrow> [] | Some i \<Rightarrow> [(rn_p n, i)]" "\<lambda>x. [x]"
  by unfold_locales (subst visit.simps, simp, subst visit.simps, simp, simp)

text \<open>
  C8. The loop \<open>for (rn = route_top (t); rn; rn = route_next (rn))\<close> ends. It meets every entry of
  the table exactly once, in strictly increasing order of the bit strings, although
  \<open>route_next\<close> may delete stubs on its way. Afterwards every node that is left has its prefix,
  its info and its lock from before, so no lock of the loop remains, only nodes without info
  are gone, and the table is well formed. Nodes with info are locked before, and no lock is about to
  overflow.
\<close>

theorem route_next_walks_in_order:
  assumes "wf_table t" and "info_locked t" and "few_locks t"
  shows "\<exists>es t'. do { (rn, t) \<leftarrow> route_top t; visit rn t } = Some (es, t')
    \<and> sorted_wrt (\<lambda>x y. bits_less (prefix_bits (fst x)) (prefix_bits (fst y))) es
    \<and> (\<forall>p i. (p, i) \<in> set es \<longleftrightarrow> (\<exists>a n. rt_nodes t a = Some n \<and> rn_p n = p \<and> rn_info n = Some i))
    \<and> wf_table t'
    \<and> (\<forall>a m. rt_nodes t' a = Some m \<longrightarrow> (\<exists>n. rt_nodes t a = Some n \<and> rn_p m = rn_p n \<and> rn_info m = rn_info n \<and> rn_lock m = rn_lock n))
    \<and> (\<forall>a n. rt_nodes t a = Some n \<and> rn_info n \<noteq> None \<longrightarrow> rt_nodes t' a \<noteq> None)"
proof -
  from assms(1) obtain T where T: "table_tree t T" by (auto simp: wf_table_def)
  from visits.loop_top_iter [OF T assms(2,3)] obtain t' where
    t': "do { (rn, t) \<leftarrow> route_top t; visit rn t } = Some (entries_of t (preorder T), t')" "iter_at t None t'" by auto
  have "set (preorder T) = dom (rt_nodes t)" using T by (simp add: table_tree_def)
  then have "(p, i) \<in> set (entries_of t (preorder T)) \<longleftrightarrow> (\<exists>a n. rt_nodes t a = Some n \<and> rn_p n = p \<and> rn_info n = Some i)" for p i
    unfolding set_entries_of by blast
  moreover have "\<exists>n. rt_nodes t a = Some n \<and> rn_p m = rn_p n \<and> rn_info m = rn_info n \<and> rn_lock m = rn_lock n" if "rt_nodes t' a = Some m" for a m
    using iter_at_node [OF t'(2) that] by (simp add: iter_node_def)
  ultimately show ?thesis using t' entries_of_table(2) [OF T] by (auto simp: iter_at_def)
qed

lemma store_info_first:
  assumes "get_key p"
  shows "\<exists>t a n. store_info route_table_init p i = Some t \<and> wf_table t \<and> info_locked t \<and> few_locks t \<and> rt_nodes t a = Some n \<and> rn_info n = Some i
    \<and> (\<forall>b m. rt_nodes t b = Some m \<longrightarrow> rn_info m = (if b = a then Some i else None))"
proof -
  from store_info_map [OF wf_table_init assms, of i] obtain t where t: "store_info route_table_init p i = Some t" "wf_table t" by blast
  from t(1) obtain a t1 n where g: "route_node_get route_table_init p = Some (a, t1)" "rt_nodes t1 a = Some n"
    "t = t1\<lparr>rt_nodes := (rt_nodes t1)(a \<mapsto> n\<lparr>rn_info := Some i\<rparr>)\<rparr>"
    by (auto simp: store_info_def route_node_info_def upd_node_def split: bind_splits option.splits)
  have "rn_lock m = (if b = a then 1 else 0) \<and> rn_info m = (if b = a then Some i else None)" if "rt_nodes t b = Some m" for b m
    using that g(2,3) route_node_get_locks [OF wf_table_init assms g(1), of b]
    by (auto simp: same_entry_def route_table_init_def split: if_splits)
  then have l: "\<forall>b m. rt_nodes t b = Some m \<longrightarrow> rn_lock m = (if b = a then 1 else 0) \<and> rn_info m = (if b = a then Some i else None)" by blast
  have "info_locked t" unfolding info_locked_def
  proof (intro allI impI)
    fix b m
    assume "rt_nodes t b = Some m \<and> rn_info m \<noteq> None"
    with l show "rn_lock m \<noteq> 0" by (cases "b = a") auto
  qed
  moreover have "few_locks t" unfolding few_locks_def
  proof (intro allI impI)
    fix b m
    assume "rt_nodes t b = Some m"
    with l show "unat (rn_lock m) < 2 ^ 32 - 2" by (cases "b = a") auto
  qed
  moreover have "rt_nodes t a = Some (n\<lparr>rn_info := Some i\<rparr>)" using g(3) by simp
  ultimately show ?thesis using t l by (intro exI [of _ t] exI [of _ a] exI [of _ "n\<lparr>rn_info := Some i\<rparr>"] conjI) auto
qed

theorem route_next_walks_in_order_witness:
  "\<exists>t es t'. store_info route_table_init \<lparr>pfx_family = AF_INET, pfx_prefixlen = 9, pfx_u = [10, 128, 0, 0]\<rparr> (7 :: nat) = Some t
     \<and> do { (rn, t) \<leftarrow> route_top t; visit rn t } = Some (es, t') \<and> snd ` set es = {7}"
proof -
  let ?p = "\<lparr>pfx_family = AF_INET, pfx_prefixlen = 9, pfx_u = [10, 128, 0, 0]\<rparr>"
  have "get_key ?p" by (simp add: get_key_def family_size_def)
  from store_info_first [OF this, of 7] obtain t :: "nat route_table" and a n where
    t: "store_info route_table_init ?p 7 = Some t" "wf_table t" "info_locked t" "few_locks t" "rt_nodes t a = Some n" "rn_info n = Some 7"
      "\<forall>b m. rt_nodes t b = Some m \<longrightarrow> rn_info m = (if b = a then Some 7 else None)" by blast
  from route_next_walks_in_order [OF t(2-4)] obtain es t' where
    e: "do { (rn, t) \<leftarrow> route_top t; visit rn t } = Some (es, t')"
      "\<forall>p i. (p, i) \<in> set es \<longleftrightarrow> (\<exists>a n. rt_nodes t a = Some n \<and> rn_p n = p \<and> rn_info n = Some i)" by blast
  have mem: "(rn_p n, 7) \<in> set es" using e(2) t(5,6) by blast
  have only: "snd x = 7" if "x \<in> set es" for x
  proof -
    have "(fst x, snd x) \<in> set es" using that by simp
    then obtain b m where "rt_nodes t b = Some m" "rn_info m = Some (snd x)" using e(2) by blast
    with t(7) show ?thesis by (cases "b = a") auto
  qed
  have "snd ` set es \<subseteq> {7}" using only by (intro image_subsetI) simp
  moreover have "7 \<in> snd ` set es" using imageI [OF mem, of snd] by simp
  ultimately have "snd ` set es = {7}" by (intro subset_antisym) simp_all
  then show ?thesis by (intro exI conjI) (rule t(1) e(1) | assumption)+
qed

end
