(* ===== verification/Lib_Vector.thy ===== *)
theory Lib_Vector
  imports Prelude
begin

text \<open>
  The growing pointer arrays of \<open>lib/vector.c\<close>. A slot is \<open>None\<close> when it holds the null
  pointer; the number of allocated slots is the length of the index. Slot numbers are
  natural numbers.
\<close>

section \<open>Data and operations\<close>

record 'a vector =
  vec_active :: nat
  vec_index :: "'a option list"

definition vec_alloced :: "'a vector \<Rightarrow> nat" where
  "vec_alloced v = length (vec_index v)"

definition vector_init :: "nat \<Rightarrow> 'a vector" where
  "vector_init n = \<lparr>vec_active = 0, vec_index = replicate (if n = 0 then 1 else n) None\<rparr>"

definition vector_copy :: "'a vector \<Rightarrow> 'a vector" where
  "vector_copy v = \<lparr>vec_active = vec_active v, vec_index = take (vec_alloced v) (vec_index v)\<rparr>"

partial_function (option) vector_ensure :: "'a vector \<Rightarrow> nat \<Rightarrow> 'a vector option" where
  "vector_ensure v num =
     (if vec_alloced v > num then Some v
      else
        (let v = v\<lparr>vec_index := vec_index v @ replicate (vec_alloced v) None\<rparr> in
         if vec_alloced v \<le> num then vector_ensure v num else Some v))"

declare vector_ensure.simps [code]

fun empty_from :: "'a option list \<Rightarrow> nat \<Rightarrow> nat \<Rightarrow> nat option" where
  "empty_from idx i 0 = Some i"
| "empty_from idx i (Suc k) =
     do { s \<leftarrow> rd idx i; if s = None then Some i else empty_from idx (Suc i) k }"

definition vector_empty_slot :: "'a vector \<Rightarrow> nat option" where
  "vector_empty_slot v = (if vec_active v = 0 then Some 0 else empty_from (vec_index v) 0 (vec_active v))"

definition vector_set_index :: "'a vector \<Rightarrow> nat \<Rightarrow> 'a option \<Rightarrow> (nat \<times> 'a vector) option" where
  "vector_set_index v i val =
     do {
       v \<leftarrow> vector_ensure v i;
       idx \<leftarrow> wr (vec_index v) i val;
       Some (i, v\<lparr>vec_index := idx, vec_active := (if vec_active v \<le> i then i + 1 else vec_active v)\<rparr>)
     }"

definition vector_set :: "'a vector \<Rightarrow> 'a option \<Rightarrow> (nat \<times> 'a vector) option" where
  "vector_set v val = do { i \<leftarrow> vector_empty_slot v; vector_set_index v i val }"

definition vector_lookup :: "'a vector \<Rightarrow> nat \<Rightarrow> 'a option option" where
  "vector_lookup v i = (if i \<ge> vec_active v then Some None else rd (vec_index v) i)"

section \<open>Behaviour\<close>

definition wf_vector :: "'a vector \<Rightarrow> bool" where
  "wf_vector v \<longleftrightarrow> 0 < vec_alloced v \<and> vec_active v \<le> vec_alloced v
     \<and> (\<forall>j. vec_active v \<le> j \<and> j < vec_alloced v \<longrightarrow> vec_index v ! j = None)"

definition vec_slots :: "'a vector \<Rightarrow> 'a option list" where
  "vec_slots v = take (vec_active v) (vec_index v)"

lemma wf_vector_init [simp]: "wf_vector (vector_init n)"
  by (simp add: wf_vector_def vector_init_def vec_alloced_def)

lemma vector_ensure_grows:
  assumes "0 < vec_alloced v"
  shows "\<exists>k. vector_ensure v num = Some (v\<lparr>vec_index := vec_index v @ replicate k None\<rparr>) \<and> num < vec_alloced v + k"
  using assms
proof (induction "num - vec_alloced v" arbitrary: v rule: less_induct)
  case less
  let ?v = "v\<lparr>vec_index := vec_index v @ replicate (vec_alloced v) None\<rparr>"
  show ?case
  proof (cases "vec_alloced v > num")
    case True
    then show ?thesis by (intro exI [of _ 0]) (simp add: vector_ensure.simps)
  next
    case False
    show ?thesis
    proof (cases "vec_alloced ?v \<le> num")
      case True
      then have "num - vec_alloced ?v < num - vec_alloced v" "0 < vec_alloced ?v"
        using less.prems by (auto simp: vec_alloced_def simp del: length_greater_0_conv)
      from less.hyps [OF this] obtain k where
        "vector_ensure ?v num = Some (?v\<lparr>vec_index := vec_index ?v @ replicate k None\<rparr>)" "num < vec_alloced ?v + k" by blast
      then show ?thesis using False True
        by (intro exI [of _ "vec_alloced v + k"])
          (simp add: vector_ensure.simps [of v] vec_alloced_def replicate_add)
    next
      case stop: False
      then show ?thesis using False
        by (intro exI [of _ "vec_alloced v"]) (simp add: vector_ensure.simps [of v] vec_alloced_def)
    qed
  qed
qed

lemma vector_set_index_slots:
  assumes "wf_vector v"
  shows "\<exists>v'. vector_set_index v i val = Some (i, v') \<and> wf_vector v'
    \<and> vec_active v' = max (vec_active v) (i + 1)
    \<and> (\<forall>j. vector_lookup v' j = (if j = i then Some val else vector_lookup v j))"
proof -
  from vector_ensure_grows [of v i] assms obtain k where
    k: "vector_ensure v i = Some (v\<lparr>vec_index := vec_index v @ replicate k None\<rparr>)" "i < vec_alloced v + k"
    by (auto simp: wf_vector_def)
  let ?idx = "(vec_index v @ replicate k None)[i := val]"
  let ?v' = "v\<lparr>vec_index := ?idx, vec_active := (if vec_active v \<le> i then i + 1 else vec_active v)\<rparr>"
  have set: "vector_set_index v i val = Some (i, ?v')"
    using k by (simp add: vector_set_index_def vec_alloced_def)
  have "wf_vector ?v'" using assms k by (auto simp: wf_vector_def vec_alloced_def nth_append nth_list_update)
  moreover have "vector_lookup ?v' j = (if j = i then Some val else vector_lookup v j)" for j
    using assms k(2) by (auto simp: vector_lookup_def wf_vector_def vec_alloced_def rd_def nth_append nth_list_update)
  ultimately show ?thesis using set by (auto simp: max_def)
qed

lemma empty_from_least:
  "i + k \<le> length idx \<Longrightarrow> \<exists>s. empty_from idx i k = Some s \<and> i \<le> s \<and> s \<le> i + k
    \<and> (\<forall>j. i \<le> j \<and> j < s \<longrightarrow> idx ! j \<noteq> None) \<and> (s < i + k \<longrightarrow> idx ! s = None)"
proof (induction k arbitrary: i)
  case (Suc k)
  show ?case
  proof (cases "idx ! i = None")
    case True
    with Suc.prems show ?thesis by auto
  next
    case False
    from Suc.IH [of "Suc i"] Suc.prems obtain s where
      s: "empty_from idx (Suc i) k = Some s" "Suc i \<le> s" "s \<le> Suc i + k"
        "\<forall>j. Suc i \<le> j \<and> j < s \<longrightarrow> idx ! j \<noteq> None" "s < Suc i + k \<longrightarrow> idx ! s = None" by auto
    have "idx ! j \<noteq> None" if "i \<le> j" "j < s" for j
      using s(4) False that by (cases "j = i") auto
    with s False Suc.prems show ?thesis by auto
  qed
qed auto

text \<open>\<open>vector_set\<close> stores in the smallest empty slot, growing the index if there is none, and
  changes no other slot; it never writes outside the index, and the doubling ends.\<close>

theorem vector_set_smallest_empty:
  assumes "wf_vector v"
  shows "\<exists>i v'. vector_set v (Some x) = Some (i, v') \<and> wf_vector v'
    \<and> vector_lookup v i = Some None \<and> (\<forall>j < i. vector_lookup v j \<noteq> Some None)
    \<and> vector_lookup v' i = Some (Some x) \<and> (\<forall>j. j \<noteq> i \<longrightarrow> vector_lookup v' j = vector_lookup v j)"
proof -
  have "vec_active v \<le> length (vec_index v)" using assms by (simp add: wf_vector_def vec_alloced_def)
  with empty_from_least [of 0 "vec_active v" "vec_index v"] obtain i where
    i: "empty_from (vec_index v) 0 (vec_active v) = Some i" "i \<le> vec_active v"
      "\<forall>j < i. vec_index v ! j \<noteq> None" "i < vec_active v \<longrightarrow> vec_index v ! i = None" by auto
  have slot: "vector_empty_slot v = Some i" using i(1,2) by (auto simp: vector_empty_slot_def)
  have len: "j < length (vec_index v)" if "j < vec_active v" for j
    using that assms by (simp add: wf_vector_def vec_alloced_def)
  have "vector_lookup v i = Some None" using i(4) len by (auto simp: vector_lookup_def rd_def)
  moreover have "vector_lookup v j \<noteq> Some None" if "j < i" for j
  proof -
    have "j < vec_active v" using that i(2) by simp
    with i(3) that len show ?thesis by (simp add: vector_lookup_def)
  qed
  ultimately show ?thesis
    using vector_set_index_slots [OF assms, of i "Some x"] slot by (auto simp: vector_set_def)
qed

end
