(* ===== verification/Ctrl_Rib.thy ===== *)
theory Ctrl_Rib
  imports Lib_Table_Iter Lib_Vector
begin

text \<open>
  The routing information base of the controller, \<open>controller/rib.c\<close>: a vector of VRFs,
  each with one route table per address family and sub-family. The info of a route node
  is the chain of its routes, newest first (\<open>None\<close> is the null pointer).
\<close>

section \<open>Data\<close>

definition AFI_IP :: nat where "AFI_IP = 1"
definition AFI_IP6 :: nat where "AFI_IP6 = 2"
definition AFI_MAX :: nat where "AFI_MAX = 3"
definition SAFI_UNICAST :: nat where "SAFI_UNICAST = 1"
definition SAFI_MULTICAST :: nat where "SAFI_MULTICAST = 2"
definition SAFI_MAX :: nat where "SAFI_MAX = 5"
definition DISTANCE_INFINITY :: u8 where "DISTANCE_INFINITY = 255"

record rib =
  rib_rn_status :: u8
  rib_uptime :: int
  rib_type :: int
  rib_table :: int
  rib_metric :: u32
  rib_distance :: u8
  rib_flags :: u8
  rib_status :: u8

type_synonym rib_table = "rib list route_table"

record vrf =
  vrf_id :: u32
  vrf_name :: "string option"
  vrf_tables :: "nat \<times> nat \<Rightarrow> rib_table option"
  vrf_stables :: "nat \<times> nat \<Rightarrow> rib_table option"

record route_ipv4 =
  rt_type :: int
  rt_flags :: int
  rt_p :: prefix
  rt_vrf_id :: u32
  rt_metric :: u32
  rt_distance :: u8

section \<open>Operations\<close>

definition vrf_alloc :: "string option \<Rightarrow> vrf" where
  "vrf_alloc name =
     (let tabs = [(AFI_IP, SAFI_UNICAST) \<mapsto> route_table_init, (AFI_IP6, SAFI_UNICAST) \<mapsto> route_table_init,
        (AFI_IP, SAFI_MULTICAST) \<mapsto> route_table_init, (AFI_IP6, SAFI_MULTICAST) \<mapsto> route_table_init]
      in \<lparr>vrf_id = 0, vrf_name = name, vrf_tables = tabs, vrf_stables = tabs\<rparr>)"

definition vrf_lookup :: "nat \<Rightarrow> vrf vector \<Rightarrow> vrf option option" where
  "vrf_lookup i V = vector_lookup V i"

definition vrf_init :: "vrf vector option" where
  "vrf_init = do { (_, V) \<leftarrow> vector_set_index (vector_init 1) 0 (Some (vrf_alloc (Some ''Default-IP-Routing-Table''))); Some V }"

definition rib_init :: "vrf vector option" where
  "rib_init = vrf_init"

definition vrf_table :: "nat \<Rightarrow> nat \<Rightarrow> nat \<Rightarrow> vrf vector \<Rightarrow> rib_table option option" where
  "vrf_table afi safi i V =
     do {
       vrf \<leftarrow> vrf_lookup i V;
       (case vrf of None \<Rightarrow> Some None
        | Some vrf \<Rightarrow> if afi < AFI_MAX \<and> safi < SAFI_MAX then Some (vrf_tables vrf (afi, safi)) else None)
     }"

definition vrf_static_table :: "nat \<Rightarrow> nat \<Rightarrow> nat \<Rightarrow> vrf vector \<Rightarrow> rib_table option option" where
  "vrf_static_table afi safi i V =
     do {
       vrf \<leftarrow> vrf_lookup i V;
       (case vrf of None \<Rightarrow> Some None
        | Some vrf \<Rightarrow> if afi < AFI_MAX \<and> safi < SAFI_MAX then Some (vrf_stables vrf (afi, safi)) else None)
     }"

text \<open>Writing a table back: the tables are reached through pointers in the source.\<close>

definition put_table :: "nat \<Rightarrow> nat \<Rightarrow> nat \<Rightarrow> rib_table \<Rightarrow> vrf vector \<Rightarrow> vrf vector option" where
  "put_table afi safi i t V =
     do {
       vrf \<leftarrow> vrf_lookup i V;
       vrf \<leftarrow> vrf;
       idx \<leftarrow> wr (vec_index V) i (Some (vrf\<lparr>vrf_tables := (vrf_tables vrf)((afi, safi) \<mapsto> t)\<rparr>));
       Some (V\<lparr>vec_index := idx\<rparr>)
     }"

text \<open>\<open>rib_lookup_ipv4\<close> finds the node and releases it again; the code that would select a
  route from its chain is commented out, so it returns the null pointer.\<close>

definition rib_lookup_ipv4 :: "prefix \<Rightarrow> vrf vector \<Rightarrow> (rib option \<times> vrf vector) option" where
  "rib_lookup_ipv4 p V =
     do {
       table \<leftarrow> vrf_table AFI_IP SAFI_UNICAST 0 V;
       (case table of None \<Rightarrow> Some (None, V)
        | Some t \<Rightarrow>
            do {
              (rn, t) \<leftarrow> route_node_lookup t p;
              (case rn of None \<Rightarrow> do { V \<leftarrow> put_table AFI_IP SAFI_UNICAST 0 t V; Some (None, V) }
               | Some a \<Rightarrow>
                   do {
                     t \<leftarrow> route_unlock_node a t;
                     n \<leftarrow> rt_nodes t a;
                     V \<leftarrow> put_table AFI_IP SAFI_UNICAST 0 t V;
                     Some (None, V)
                   })
            })
     }"

definition rib_link :: "addr \<Rightarrow> rib \<Rightarrow> rib_table \<Rightarrow> rib_table option" where
  "rib_link a rib t =
     do {
       t \<leftarrow> route_lock_node a t;
       n \<leftarrow> rt_nodes t a;
       (case rn_info n of
          Some (head # rest) \<Rightarrow> route_node_info a (Some (rib\<lparr>rib_rn_status := rib_rn_status head\<rparr> # head # rest)) t
        | _ \<Rightarrow> route_node_info a (Some [rib]) t)
     }"

definition rib_addnode :: "addr \<Rightarrow> rib \<Rightarrow> rib_table \<Rightarrow> rib_table option" where
  "rib_addnode a rib t = rib_link a rib t"

definition new_rib :: "route_ipv4 \<Rightarrow> int \<Rightarrow> rib" where
  "new_rib route now = \<lparr>rib_rn_status = 0, rib_uptime = now, rib_type = rt_type route,
     rib_table = sint (rt_vrf_id route), rib_metric = rt_metric route, rib_distance = rt_distance route,
     rib_flags = word_of_int (rt_flags route), rib_status = 0\<rparr>"

text \<open>The prefix of the route is masked in place: the route is part of the result.\<close>

definition rib_add_ipv4 :: "route_ipv4 \<Rightarrow> nat \<Rightarrow> int \<Rightarrow> vrf vector \<Rightarrow> (int \<times> route_ipv4 \<times> vrf vector) option" where
  "rib_add_ipv4 route safi now V =
     do {
       table \<leftarrow> vrf_table AFI_IP safi 0 V;
       (case table of None \<Rightarrow> Some (0, route, V)
        | Some t \<Rightarrow>
            do {
              p \<leftarrow> apply_mask_ipv4 (rt_p route);
              let route = route\<lparr>rt_p := p\<rparr>;
              (rn, t) \<leftarrow> route_node_get t (rt_p route);
              t \<leftarrow> rib_addnode rn (new_rib route now) t;
              t \<leftarrow> route_unlock_node rn t;
              V \<leftarrow> put_table AFI_IP safi 0 t V;
              Some (0, route, V)
            })
     }"

section \<open>Adding a route\<close>

text \<open>The table invariant: well formed, and a node is locked as long as it has routes.\<close>

definition rib_ok :: "rib_table \<Rightarrow> bool" where
  "rib_ok t \<longleftrightarrow> wf_table t \<and> info_locked t \<and> (\<forall>bs. table_map t bs \<noteq> Some [])"

definition prepend :: "rib \<Rightarrow> rib list option \<Rightarrow> rib list" where
  "prepend rib chain = (case chain of Some (head # rest) \<Rightarrow> rib\<lparr>rib_rn_status := rib_rn_status head\<rparr> # head # rest | _ \<Rightarrow> [rib])"

lemma prepend_nonempty [simp]: "prepend rib c \<noteq> []"
  by (simp add: prepend_def split: option.splits list.splits)

lemma apply_mask_ipv4_key:
  assumes "pfx_family p = AF_INET" and "unat (pfx_prefixlen p) \<le> 32" and "4 \<le> length (pfx_u p)"
  shows "\<exists>q. apply_mask_ipv4 p = Some q \<and> get_key q \<and> prefix_bits q = prefix_bits p"
proof -
  let ?i = "unat (pfx_prefixlen p) div 8" and ?o = "unat (pfx_prefixlen p) mod 8"
  show ?thesis
  proof (cases "?i < 4")
    case True
    let ?u = "pfx_u p" let ?v = "?u[?i := ?u ! ?i AND maskbit ! ?o]"
    let ?w = "take (Suc ?i) ?v @ replicate (4 - Suc ?i) 0 @ drop 4 ?v"
    have i: "?i < length ?u" using True assms(3) by simp
    have o: "?o \<le> 8" by (simp add: less_imp_le)
    have m: "apply_mask_ipv4 p = Some (p\<lparr>pfx_u := ?w\<rparr>)"
      using True assms(3) by (simp add: apply_mask_ipv4_def apply_mask_bytes_def Let_def less_imp_le)
    have len: "length ?w = length ?u" using True assms(3) by simp
    have bits: "take (unat (pfx_prefixlen p)) (bits_of ?w) = take (unat (pfx_prefixlen p)) (bits_of ?u)"
    proof -
      have tk: "take ?i ?w = take ?i ?u" using i by (simp add: min_def)
      have nth: "?w ! ?i = ?u ! ?i AND maskbit ! ?o" using i by (simp add: nth_append)
      have le: "unat (pfx_prefixlen p) \<le> 8 * length ?w" "unat (pfx_prefixlen p) \<le> 8 * length ?u"
        using assms(2,3) len by simp_all
      show ?thesis
        unfolding take_bits_of_split [OF le(1)] take_bits_of_split [OF le(2)] tk nth byte_bits_and_maskbit [OF o] by simp
    qed
    then show ?thesis using m assms len by (simp add: get_key_def family_size_def prefix_bits_def)
  next
    case False
    then show ?thesis using assms by (simp add: apply_mask_ipv4_def apply_mask_bytes_def get_key_def family_size_def)
  qed
qed

text \<open>The part of \<open>rib_add_ipv4\<close> that works on one table.\<close>

definition rib_insert :: "rib_table \<Rightarrow> prefix \<Rightarrow> rib \<Rightarrow> rib_table option" where
  "rib_insert t p rib =
     do {
       (rn, t) \<leftarrow> route_node_get t p;
       t \<leftarrow> rib_addnode rn rib t;
       route_unlock_node rn t
     }"

lemma rib_link_node:
  assumes "wf_table t" and "rt_nodes t a = Some n" and "rn_info n \<noteq> Some []"
  shows "\<exists>t' n'. rib_link a rib t = Some t' \<and> wf_table t' \<and> rt_nodes t' a = Some n'
    \<and> table_map t' = (table_map t)(prefix_bits (rn_p n) \<mapsto> prepend rib (rn_info n))
    \<and> rn_lock n' = rn_lock n + 1 \<and> rn_info n' = Some (prepend rib (rn_info n))
    \<and> (\<forall>b. b \<noteq> a \<longrightarrow> rt_nodes t' b = rt_nodes t b)"
proof -
  let ?n1 = "n\<lparr>rn_lock := rn_lock n + 1\<rparr>" let ?t1 = "t\<lparr>rt_nodes := (rt_nodes t)(a \<mapsto> ?n1)\<rparr>"
  from assms(1) obtain T where T: "table_tree t T" by (auto simp: wf_table_def)
  have "a \<in> set_tree T" using T assms(2) by (auto simp: table_tree_def)
  from route_lock_node_table [OF T this] assms(2) have lock: "route_lock_node a t = Some ?t1" and wf: "wf_table ?t1"
    by (auto simp: wf_table_def)
  have map: "table_map ?t1 = table_map t"
    using table_map_lock_at [of "Some a" t] assms(2) by (simp add: lock_at_def)
  let ?i = "Some (prepend rib (rn_info n))"
  have link: "rib_link a rib t = route_node_info a ?i ?t1"
    using lock assms(3) by (auto simp: rib_link_def prepend_def split: option.splits list.splits)
  from route_node_info_map [OF wf, of a ?n1 ?i] obtain t' where t': "route_node_info a ?i ?t1 = Some t'" "wf_table t'"
    "table_map t' = (table_map t)(prefix_bits (rn_p n) := ?i)" using map by auto
  have "rt_nodes t' = (rt_nodes t)(a \<mapsto> ?n1\<lparr>rn_info := ?i\<rparr>)"
    using t'(1) by (auto simp: route_node_info_def upd_node_def)
  with link t' show ?thesis by auto
qed

lemma rib_insert_map:
  assumes "rib_ok t" and "few_locks t" and "get_key p"
  shows "\<exists>t'. rib_insert t p rib = Some t' \<and> rib_ok t'
    \<and> table_map t' = (table_map t)(prefix_bits p \<mapsto> prepend rib (table_map t (prefix_bits p)))"
proof -
  from assms(1) have ok: "wf_table t" "info_locked t" "\<forall>bs. table_map t bs \<noteq> Some []" by (auto simp: rib_ok_def)
  from route_node_get_map [OF ok(1) assms(3)] obtain a n t1 where g: "route_node_get t p = Some (a, t1)" "wf_table t1"
    "table_map t1 = table_map t" "rt_nodes t1 a = Some n" "prefix_bits (rn_p n) = prefix_bits p"
    "rn_info n = table_map t (prefix_bits p)" by blast
  note locks = route_node_get_locks [OF ok(1) assms(3) g(1)]
  from rib_link_node [OF g(2,4), of rib] g(6) ok(3) obtain t2 n2 where l: "rib_link a rib t1 = Some t2" "wf_table t2"
    "rt_nodes t2 a = Some n2" "table_map t2 = (table_map t1)(prefix_bits (rn_p n) \<mapsto> prepend rib (rn_info n))"
    "rn_lock n2 = rn_lock n + 1" "rn_info n2 \<noteq> None" "\<forall>b. b \<noteq> a \<longrightarrow> rt_nodes t2 b = rt_nodes t1 b" by auto
  have n1: "unat (rn_lock n) < 2 ^ 32 - 1 \<and> rn_lock n \<noteq> 0"
  proof (cases "rt_nodes t a")
    case None
    with locks [OF g(4)] show ?thesis by (simp add: same_entry_def)
  next
    case (Some m)
    then have "unat (rn_lock m) < 2 ^ 32 - 2" using assms(2) by (auto simp: few_locks_def)
    moreover have "rn_lock n = rn_lock m + 1" using locks [OF g(4)] Some by (simp add: same_entry_def)
    moreover have "rn_lock m < 0xffffffff" using calculation(1) by (simp add: word_less_nat_alt)
    ultimately show ?thesis using unat_plus_one_less [of "rn_lock m" "0xffffffff"] by (auto simp: word_unat_eq_iff)
  qed
  then have "rn_lock n < 0xffffffff" by (simp add: word_less_nat_alt)
  then have n2: "unat (rn_lock n2) = Suc (unat (rn_lock n))" using l(5) unat_plus_one_less by simp
  have lock1: "rn_lock m' \<noteq> 0" if "rt_nodes t2 b = Some m'" "rn_info m' \<noteq> None" for b m'
  proof (cases "b = a")
    case True
    with that l(3) n2 show ?thesis by auto
  next
    case False
    with that l(7) have "rt_nodes t1 b = Some m'" by simp
    from locks [OF this] False that(2) have "\<exists>m. rt_nodes t b = Some m \<and> rn_lock m' = rn_lock m \<and> rn_info m' = rn_info m"
      by (auto simp: same_entry_def split: option.splits)
    with ok(2) that(2) show ?thesis by (auto simp: info_locked_def)
  qed
  have "rn_lock n2 \<noteq> 1"
  proof
    assume "rn_lock n2 = 1"
    with n2 have "unat (rn_lock n) = 0" by simp
    with n1 show False by (simp add: unat_eq_zero)
  qed
  with route_unlock_node_prunes [OF l(2,3)] lock1 obtain t3 where t3: "route_unlock_node a t2 = Some t3" "wf_table t3"
    "info_locked t3" "table_map t3 = table_map t2" by (auto simp: info_locked_def)
  have map: "table_map t3 = (table_map t)(prefix_bits p \<mapsto> prepend rib (table_map t (prefix_bits p)))"
    using t3(4) l(4) g(3,5,6) by simp
  moreover have "rib_insert t p rib = Some t3" using g(1) l(1) t3(1) by (simp add: rib_insert_def rib_addnode_def)
  moreover have "table_map t3 bs \<noteq> Some []" for bs
    using ok(3) prepend_nonempty by (simp add: map)
  then have "rib_ok t3" using t3(2,3) by (simp add: rib_ok_def)
  ultimately show ?thesis by blast
qed

lemma vrf_table_put:
  assumes "vrf_table afi safi i V = Some (Some t)"
  shows "\<exists>V'. put_table afi safi i t' V = Some V' \<and> vrf_table afi safi i V' = Some (Some t')"
proof -
  from assms obtain vrf where v: "vector_lookup V i = Some (Some vrf)" "afi < AFI_MAX" "safi < SAFI_MAX"
    by (auto simp: vrf_table_def vrf_lookup_def split: bind_splits option.splits if_splits)
  then have i: "i < vec_active V" "i < length (vec_index V)"
    by (auto simp: vector_lookup_def rd_def split: if_splits)
  with v show ?thesis
    by (simp add: put_table_def vrf_table_def vrf_lookup_def vector_lookup_def)
qed

text \<open>C14. \<open>rib_add_ipv4\<close> masks the prefix of the route, puts the new route in front of the chain
  of that prefix in the table of the default VRF and keeps every other chain; the table stays
  well formed, and every node with a chain is locked. The table number of the route is the VRF id
  converted to a signed integer. The table exists, its nodes with chains are locked before and no
  lock is about to overflow; the prefix is an IPv4 prefix of at most 32 bits.\<close>

theorem rib_add_ipv4_prepends:
  assumes "vrf_table AFI_IP safi 0 V = Some (Some t)" and "rib_ok t" and "few_locks t"
    and "pfx_family (rt_p route) = AF_INET" and "unat (pfx_prefixlen (rt_p route)) \<le> 32" and "4 \<le> length (pfx_u (rt_p route))"
  shows "\<exists>q V' t'. apply_mask_ipv4 (rt_p route) = Some q \<and> prefix_bits q = prefix_bits (rt_p route)
    \<and> rib_add_ipv4 route safi now V = Some (0, route\<lparr>rt_p := q\<rparr>, V') \<and> vrf_table AFI_IP safi 0 V' = Some (Some t') \<and> rib_ok t'
    \<and> table_map t' = (table_map t)(prefix_bits (rt_p route) \<mapsto>
        prepend (new_rib route now) (table_map t (prefix_bits (rt_p route))))"
proof -
  from apply_mask_ipv4_key [OF assms(4-6)] obtain q where
    q: "apply_mask_ipv4 (rt_p route) = Some q" "get_key q" "prefix_bits q = prefix_bits (rt_p route)" by blast
  from rib_insert_map [OF assms(2,3) q(2), of "new_rib route now"] obtain t' where
    t': "rib_insert t q (new_rib route now) = Some t'" "rib_ok t'"
      "table_map t' = (table_map t)(prefix_bits q \<mapsto> prepend (new_rib route now) (table_map t (prefix_bits q)))" by blast
  from vrf_table_put [OF assms(1), of t'] obtain V' where
    V': "put_table AFI_IP safi 0 t' V = Some V'" "vrf_table AFI_IP safi 0 V' = Some (Some t')" by blast
  have "new_rib (route\<lparr>rt_p := q\<rparr>) now = new_rib route now" by (simp add: new_rib_def)
  then have "rib_add_ipv4 route safi now V = Some (0, route\<lparr>rt_p := q\<rparr>, V')"
    using assms(1) q(1) t'(1) V'(1) by (auto simp: rib_add_ipv4_def rib_insert_def Let_def split: bind_splits)
  with V' t' q(1,3) show ?thesis by auto
qed

lemma rib_ok_init: "rib_ok route_table_init"
  by (simp add: rib_ok_def info_locked_def) (simp add: route_table_init_def)

lemma vrf_table_init:
  "\<exists>V. rib_init = Some V \<and> vrf_table AFI_IP SAFI_UNICAST 0 V = Some (Some route_table_init)"
  using vector_set_index_slots [OF wf_vector_init, of 1 0 "Some (vrf_alloc (Some ''Default-IP-Routing-Table''))"]
  by (auto simp: rib_init_def vrf_init_def vrf_table_def vrf_lookup_def vrf_alloc_def Let_def
      AFI_IP_def AFI_IP6_def AFI_MAX_def SAFI_UNICAST_def SAFI_MULTICAST_def SAFI_MAX_def)

theorem rib_add_ipv4_prepends_witness:
  "\<exists>V V' t' r. rib_init = Some V
     \<and> rib_add_ipv4 \<lparr>rt_type = 1, rt_flags = 0, rt_p = \<lparr>pfx_family = AF_INET, pfx_prefixlen = 8, pfx_u = [10, 1, 2, 3, 0, 0, 0, 0]\<rparr>,
         rt_vrf_id = 0xffffffff, rt_metric = 20, rt_distance = 110\<rparr> SAFI_UNICAST 5 V = Some (0, r, V')
     \<and> vrf_table AFI_IP SAFI_UNICAST 0 V' = Some (Some t')
     \<and> table_map t' [False, False, False, False, True, False, True, False]
         = Some [\<lparr>rib_rn_status = 0, rib_uptime = 5, rib_type = 1, rib_table = - 1, rib_metric = 20,
             rib_distance = 110, rib_flags = 0, rib_status = 0\<rparr>]"
proof -
  let ?p = "\<lparr>pfx_family = AF_INET, pfx_prefixlen = 8, pfx_u = [10, 1, 2, 3, 0, 0, 0, 0]\<rparr>"
  let ?r = "\<lparr>rt_type = 1, rt_flags = 0, rt_p = ?p, rt_vrf_id = 0xffffffff, rt_metric = 20, rt_distance = 110\<rparr>"
  obtain V where V: "rib_init = Some V" "vrf_table AFI_IP SAFI_UNICAST 0 V = Some (Some route_table_init)"
    using vrf_table_init by blast
  have room: "few_locks route_table_init" by (simp add: few_locks_def route_table_init_def)
  have bits: "prefix_bits ?p = [False, False, False, False, True, False, True, False]" by code_simp
  from rib_add_ipv4_prepends [OF V(2) rib_ok_init room, of ?r 5] obtain q V' t' where
    "rib_add_ipv4 ?r SAFI_UNICAST 5 V = Some (0, ?r\<lparr>rt_p := q\<rparr>, V')" "vrf_table AFI_IP SAFI_UNICAST 0 V' = Some (Some t')"
    "table_map t' = [prefix_bits ?p \<mapsto> prepend (new_rib ?r 5) None]"
    by (auto simp: fun_upd_def)
  with V(1) bits show ?thesis by (auto simp: prepend_def new_rib_def)
qed

end
