(* ===== verification/Lib_Rfpbuf.thy ===== *)
theory Lib_Rfpbuf
  imports Prelude
begin

text \<open>
  Message buffers, \<open>lib/rfpbuf.c\<close>, and the message header of \<open>lib/rfp-msgs.c\<close>. A
  buffer is its allocated memory, in which a byte that has never been written is
  \<open>None\<close>, the offset at which the data in use start, and their size. Field values are
  stored as on a little-endian machine, on which \<open>htons\<close> and \<open>htonl\<close> swap the bytes.
\<close>

section \<open>Data\<close>

datatype rfpbuf_source = RFPBUF_MALLOC | RFPBUF_STACK | RFPBUF_STUB

record rfpbuf =
  rb_base :: "u8 option list"
  rb_source :: rfpbuf_source
  rb_data :: nat
  rb_size :: nat

definition rb_allocated :: "rfpbuf \<Rightarrow> nat" where
  "rb_allocated b = length (rb_base b)"

section \<open>Operations\<close>

text \<open>\<open>malloc\<close> gives bytes that are not initialised.\<close>

definition malloc_bytes :: "nat \<Rightarrow> u8 option list" where
  "malloc_bytes n = replicate n None"

definition rfpbuf_init :: "nat \<Rightarrow> rfpbuf" where
  "rfpbuf_init sz = \<lparr>rb_base = malloc_bytes sz, rb_source = RFPBUF_MALLOC, rb_data = 0, rb_size = 0\<rparr>"

definition rfpbuf_new :: "nat \<Rightarrow> rfpbuf" where
  "rfpbuf_new sz = rfpbuf_init sz"

definition rfpbuf_tail :: "rfpbuf \<Rightarrow> nat" where
  "rfpbuf_tail b = rb_data b + rb_size b"

definition rfpbuf_headroom :: "rfpbuf \<Rightarrow> nat" where
  "rfpbuf_headroom b = rb_data b"

definition rfpbuf_tailroom :: "rfpbuf \<Rightarrow> nat" where
  "rfpbuf_tailroom b = rb_allocated b - rfpbuf_tail b"

text \<open>\<open>memcpy\<close> of \<open>n\<close> bytes between two memory areas, with both ranges checked.\<close>

definition mem_copy :: "u8 option list \<Rightarrow> nat \<Rightarrow> u8 option list \<Rightarrow> nat \<Rightarrow> nat \<Rightarrow> u8 option list option" where
  "mem_copy dst i src j n =
     (if i + n \<le> length dst \<and> j + n \<le> length src
      then Some (take i dst @ take n (drop j src) @ drop (i + n) dst) else None)"

definition rfpbuf_copy :: "rfpbuf \<Rightarrow> u8 option list \<Rightarrow> nat \<Rightarrow> nat \<Rightarrow> u8 option list option" where
  "rfpbuf_copy b new_base new_headroom new_tailroom =
     (let old_headroom = rfpbuf_headroom b; old_tailroom = rfpbuf_tailroom b;
          copy_headroom = min old_headroom new_headroom; copy_tailroom = min old_tailroom new_tailroom
      in mem_copy new_base (new_headroom - copy_headroom) (rb_base b) (old_headroom - copy_headroom)
           (copy_headroom + rb_size b + copy_tailroom))"

definition rfpbuf_resize :: "rfpbuf \<Rightarrow> nat \<Rightarrow> nat \<Rightarrow> rfpbuf option" where
  "rfpbuf_resize b new_headroom new_tailroom =
     (let new_allocated = new_headroom + rb_size b + new_tailroom in
      do {
        (new_base, src) \<leftarrow>
          (case rb_source b of
             RFPBUF_MALLOC \<Rightarrow>
               if new_headroom = rfpbuf_headroom b
               then Some (take new_allocated (rb_base b) @ malloc_bytes (new_allocated - rb_allocated b), RFPBUF_MALLOC)
               else do {
                      nb \<leftarrow> rfpbuf_copy b (malloc_bytes new_allocated) new_headroom new_tailroom;
                      Some (nb, RFPBUF_MALLOC)
                    }
           | RFPBUF_STACK \<Rightarrow> None
           | RFPBUF_STUB \<Rightarrow>
               do {
                 nb \<leftarrow> rfpbuf_copy b (malloc_bytes new_allocated) new_headroom new_tailroom;
                 Some (nb, RFPBUF_MALLOC)
               });
        Some (b\<lparr>rb_base := new_base, rb_source := src, rb_data := new_headroom\<rparr>)
      })"

definition rfpbuf_prealloc_tailroom :: "rfpbuf \<Rightarrow> nat \<Rightarrow> rfpbuf option" where
  "rfpbuf_prealloc_tailroom b sz =
     (if sz > rfpbuf_tailroom b then rfpbuf_resize b (rfpbuf_headroom b) (max sz 64) else Some b)"

definition rfpbuf_put_uninit :: "rfpbuf \<Rightarrow> nat \<Rightarrow> (nat \<times> rfpbuf) option" where
  "rfpbuf_put_uninit b sz =
     do {
       b \<leftarrow> rfpbuf_prealloc_tailroom b sz;
       let p = rfpbuf_tail b;
       Some (p, b\<lparr>rb_size := rb_size b + sz\<rparr>)
     }"

definition rfpbuf_put :: "rfpbuf \<Rightarrow> u8 option list \<Rightarrow> rfpbuf option" where
  "rfpbuf_put b src =
     do {
       (dst, b) \<leftarrow> rfpbuf_put_uninit b (length src);
       base \<leftarrow> mem_copy (rb_base b) dst src 0 (length src);
       Some (b\<lparr>rb_base := base\<rparr>)
     }"

definition rfpbuf_reserve :: "rfpbuf \<Rightarrow> nat \<Rightarrow> rfpbuf option" where
  "rfpbuf_reserve b sz =
     do { b \<leftarrow> rfpbuf_prealloc_tailroom b sz; Some (b\<lparr>rb_data := rb_data b + sz\<rparr>) }"

definition rfpbuf_new_with_headroom :: "nat \<Rightarrow> nat \<Rightarrow> rfpbuf option" where
  "rfpbuf_new_with_headroom sz headroom = rfpbuf_reserve (rfpbuf_new (sz + headroom)) headroom"

text \<open>The data in use.\<close>

definition rb_bytes :: "rfpbuf \<Rightarrow> u8 option list" where
  "rb_bytes b = take (rb_size b) (drop (rb_data b) (rb_base b))"

definition rfpbuf_clone_data_with_headroom :: "u8 option list \<Rightarrow> nat \<Rightarrow> rfpbuf option" where
  "rfpbuf_clone_data_with_headroom data headroom =
     do { b \<leftarrow> rfpbuf_new_with_headroom (length data) headroom; rfpbuf_put b data }"

definition rfpbuf_clone_with_headroom :: "rfpbuf \<Rightarrow> nat \<Rightarrow> rfpbuf option" where
  "rfpbuf_clone_with_headroom b headroom = rfpbuf_clone_data_with_headroom (rb_bytes b) headroom"

definition rfpbuf_clone :: "rfpbuf \<Rightarrow> rfpbuf option" where
  "rfpbuf_clone b = rfpbuf_clone_with_headroom b 0"

definition rfpbuf_equal :: "rfpbuf \<Rightarrow> rfpbuf \<Rightarrow> bool" where
  "rfpbuf_equal a b \<longleftrightarrow> rb_size a = rb_size b \<and> rb_bytes a = rb_bytes b"

definition rfpbuf_at_assert :: "rfpbuf \<Rightarrow> nat \<Rightarrow> nat \<Rightarrow> nat option" where
  "rfpbuf_at_assert b offset sz = (if offset + sz \<le> rb_size b then Some (rb_data b + offset) else None)"

section \<open>Invariant and meaning\<close>

definition wf_rfpbuf :: "rfpbuf \<Rightarrow> bool" where
  "wf_rfpbuf b \<longleftrightarrow> rb_data b + rb_size b \<le> length (rb_base b) \<and> rb_source b \<noteq> RFPBUF_STACK"

lemma wf_rfpbuf_init [simp]: "wf_rfpbuf (rfpbuf_init n)" "rb_bytes (rfpbuf_init n) = []" "rb_size (rfpbuf_init n) = 0"
  by (simp_all add: wf_rfpbuf_def rfpbuf_init_def malloc_bytes_def rb_bytes_def)

lemma length_rb_bytes [simp]: "wf_rfpbuf b \<Longrightarrow> length (rb_bytes b) = rb_size b"
  by (auto simp: rb_bytes_def wf_rfpbuf_def)

lemma rfpbuf_copy_bytes:
  assumes "wf_rfpbuf b" and "length nb = nh + rb_size b + nt"
  shows "\<exists>m. rfpbuf_copy b nb nh nt = Some m \<and> length m = length nb
    \<and> take (rb_size b) (drop nh m) = rb_bytes b"
proof -
  let ?ch = "min (rb_data b) nh" and ?ct = "min (rfpbuf_tailroom b) nt"
  let ?n = "?ch + rb_size b + ?ct"
  let ?m = "take (nh - ?ch) nb @ take ?n (drop (rb_data b - ?ch) (rb_base b)) @ drop (nh - ?ch + ?n) nb"
  have fit: "nh - ?ch + ?n \<le> length nb" "rb_data b - ?ch + ?n \<le> length (rb_base b)"
    using assms by (auto simp: wf_rfpbuf_def rfpbuf_tailroom_def rb_allocated_def rfpbuf_tail_def min_def)
  then have copy: "rfpbuf_copy b nb nh nt = Some ?m"
    by (simp add: rfpbuf_copy_def mem_copy_def Let_def rfpbuf_headroom_def)
  have len: "length (take (nh - ?ch) nb) = nh - ?ch" using fit(1) by simp
  have "drop nh ?m = drop ?ch (take ?n (drop (rb_data b - ?ch) (rb_base b))) @ drop (nh - ?ch + ?n) nb"
    using len fit(2) by (simp add: min_def)
  moreover have "take (rb_size b) (drop ?ch (take ?n (drop (rb_data b - ?ch) (rb_base b)))) = rb_bytes b"
    using fit(2) by (simp add: rb_bytes_def take_drop min_def add.commute)
  ultimately have "take (rb_size b) (drop nh ?m) = rb_bytes b" using fit(2) assms(1)
    by (simp add: wf_rfpbuf_def)
  moreover have "length ?m = length nb" using fit by simp
  ultimately show ?thesis using copy by blast
qed

lemma rfpbuf_resize_bytes:
  assumes "wf_rfpbuf b"
  shows "\<exists>b'. rfpbuf_resize b nh nt = Some b' \<and> wf_rfpbuf b' \<and> rb_bytes b' = rb_bytes b
    \<and> rb_size b' = rb_size b \<and> rb_data b' = nh \<and> rfpbuf_tailroom b' = nt"
proof -
  let ?n = "nh + rb_size b + nt"
  have "length (malloc_bytes ?n) = nh + rb_size b + nt" by (simp add: malloc_bytes_def)
  from rfpbuf_copy_bytes [OF assms this] obtain m where m: "rfpbuf_copy b (malloc_bytes ?n) nh nt = Some m"
    "length m = ?n" "take (rb_size b) (drop nh m) = rb_bytes b" by (auto simp: malloc_bytes_def)
  let ?r = "take ?n (rb_base b) @ malloc_bytes (?n - rb_allocated b)"
  have r: "length ?r = ?n" by (simp add: malloc_bytes_def rb_allocated_def)
  have rb: "take (rb_size b) (drop nh ?r) = rb_bytes b" if "nh = rb_data b"
    using assms that by (auto simp: rb_bytes_def wf_rfpbuf_def take_drop min_def)
  have src: "rb_source b \<noteq> RFPBUF_STACK" using assms by (simp add: wf_rfpbuf_def)
  show ?thesis
    using m r rb src
    by (cases "rb_source b"; cases "nh = rfpbuf_headroom b")
      (auto simp: rfpbuf_resize_def Let_def rfpbuf_headroom_def wf_rfpbuf_def rb_bytes_def rfpbuf_tailroom_def
        rb_allocated_def rfpbuf_tail_def)
qed

lemma rfpbuf_prealloc_bytes:
  assumes "wf_rfpbuf b"
  shows "\<exists>b'. rfpbuf_prealloc_tailroom b n = Some b' \<and> wf_rfpbuf b' \<and> rb_bytes b' = rb_bytes b
    \<and> rb_size b' = rb_size b \<and> rb_data b' = rb_data b \<and> n \<le> rfpbuf_tailroom b'"
  using rfpbuf_resize_bytes [OF assms, of "rb_data b" "max n 64"] assms
  by (auto simp: rfpbuf_prealloc_tailroom_def rfpbuf_headroom_def)

lemma rfpbuf_put_bytes:
  assumes "wf_rfpbuf b"
  shows "\<exists>b'. rfpbuf_put b src = Some b' \<and> wf_rfpbuf b' \<and> rb_bytes b' = rb_bytes b @ src
    \<and> rb_size b' = rb_size b + length src \<and> rb_data b' = rb_data b"
proof -
  from rfpbuf_prealloc_bytes [OF assms, of "length src"] obtain c where
    c: "rfpbuf_prealloc_tailroom b (length src) = Some c" "wf_rfpbuf c" "rb_bytes c = rb_bytes b"
      "rb_size c = rb_size b" "rb_data c = rb_data b" "length src \<le> rfpbuf_tailroom c" by blast
  let ?t = "rb_data c + rb_size c"
  have fit: "?t + length src \<le> length (rb_base c)"
    using c(2,6) by (auto simp: wf_rfpbuf_def rfpbuf_tailroom_def rb_allocated_def rfpbuf_tail_def)
  let ?base = "take ?t (rb_base c) @ src @ drop (?t + length src) (rb_base c)"
  let ?b' = "c\<lparr>rb_size := rb_size c + length src, rb_base := ?base\<rparr>"
  have "rfpbuf_put b src = Some ?b'"
    using c(1) fit by (simp add: rfpbuf_put_def rfpbuf_put_uninit_def mem_copy_def rfpbuf_tail_def)
  moreover have "rb_bytes ?b' = rb_bytes c @ src"
    using fit by (simp add: rb_bytes_def drop_take)
  moreover have "wf_rfpbuf ?b'" using fit c(2) by (simp add: wf_rfpbuf_def)
  ultimately show ?thesis using c(3-5) by auto
qed

lemma rfpbuf_reserve_bytes:
  assumes "wf_rfpbuf b" and "rb_size b = 0"
  shows "\<exists>b'. rfpbuf_reserve b n = Some b' \<and> wf_rfpbuf b' \<and> rb_bytes b' = [] \<and> rb_size b' = 0"
proof -
  from rfpbuf_prealloc_bytes [OF assms(1), of n] obtain c where
    "rfpbuf_prealloc_tailroom b n = Some c" "wf_rfpbuf c" "rb_size c = rb_size b" "n \<le> rfpbuf_tailroom c" by blast
  with assms(2) show ?thesis
    by (auto simp: rfpbuf_reserve_def wf_rfpbuf_def rb_bytes_def rfpbuf_tailroom_def rb_allocated_def rfpbuf_tail_def)
qed

lemma rfpbuf_clone_bytes:
  assumes "wf_rfpbuf b"
  shows "\<exists>b'. rfpbuf_clone_with_headroom b h = Some b' \<and> wf_rfpbuf b' \<and> rb_bytes b' = rb_bytes b \<and> rb_size b' = rb_size b"
proof -
  from rfpbuf_reserve_bytes [OF wf_rfpbuf_init(1) wf_rfpbuf_init(3), of "length (rb_bytes b) + h" h] obtain c where
    c: "rfpbuf_reserve (rfpbuf_init (length (rb_bytes b) + h)) h = Some c" "wf_rfpbuf c" "rb_bytes c = []" "rb_size c = 0"
    by blast
  from rfpbuf_put_bytes [OF c(2), of "rb_bytes b"] c assms show ?thesis
    by (auto simp: rfpbuf_clone_with_headroom_def rfpbuf_clone_data_with_headroom_def rfpbuf_new_with_headroom_def
        rfpbuf_new_def)
qed

section \<open>Headers\<close>

definition be16 :: "u16 \<Rightarrow> u8 list" where
  "be16 w = [ucast (drop_bit 8 w), ucast w]"

definition be32 :: "u32 \<Rightarrow> u8 list" where
  "be32 w = [ucast (drop_bit 24 w), ucast (drop_bit 16 w), ucast (drop_bit 8 w), ucast w]"

definition get_be16 :: "u8 \<Rightarrow> u8 \<Rightarrow> u16" where
  "get_be16 a b = push_bit 8 (ucast a) OR ucast b"

definition get_be32 :: "u8 \<Rightarrow> u8 \<Rightarrow> u8 \<Rightarrow> u8 \<Rightarrow> u32" where
  "get_be32 a b c d = push_bit 24 (ucast a) OR push_bit 16 (ucast b) OR push_bit 8 (ucast c) OR ucast d"

lemma get_be32_be32: "be32 w = [a, b, c, d] \<Longrightarrow> get_be32 a b c d = w"
proof (rule bit_word_eqI)
  fix n
  assume w: "be32 w = [a, b, c, d]" and "n < LENGTH(32)"
  then consider "n < 8" | "8 \<le> n" "n < 16" | "16 \<le> n" "n < 24" | "24 \<le> n" "n < 32" by fastforce
  then show "bit (get_be32 a b c d) n = bit w n"
    using w by cases (auto simp: be32_def get_be32_def bit_simps)
qed

lemma get_be16_be16: "be16 w = [a, b] \<Longrightarrow> get_be16 a b = w"
  unfolding be16_def get_be16_def
  by (rule bit_word_eqI) (auto simp: bit_simps)

text \<open>The header \<open>struct rfp_header\<close>: version, type, length and transaction id, all in
  network order on the wire. \<open>routeflow_put__\<close> stores the transaction id it is given as
  it is, so its memory holds the little-endian bytes of the argument.\<close>

definition RFP10_VERSION :: u8 where "RFP10_VERSION = 1"

definition rfp_header_size :: nat where "rfp_header_size = 8"

definition routeflow_put :: "u8 \<Rightarrow> u8 \<Rightarrow> u32 \<Rightarrow> nat \<Rightarrow> rfpbuf \<Rightarrow> rfpbuf option" where
  "routeflow_put type version xid len buf =
     (if len < rfp_header_size \<or> 65535 < len then None
      else do {
             (l2, buf) \<leftarrow> rfpbuf_put_uninit buf len;
             base \<leftarrow> mem_copy (rb_base buf) l2
               (map Some ([version, type] @ be16 (word_of_nat len) @ rev (be32 xid) @ replicate (len - rfp_header_size) 0)) 0 len;
             Some (buf\<lparr>rb_base := base\<rparr>)
           })"

definition routeflow_alloc_xid :: "u8 \<Rightarrow> u8 \<Rightarrow> u32 \<Rightarrow> nat \<Rightarrow> rfpbuf option" where
  "routeflow_alloc_xid type version xid len = routeflow_put type version xid len (rfpbuf_new len)"

text \<open>\<open>htonl\<close> on a little-endian machine.\<close>

definition htonl :: "u32 \<Rightarrow> u32" where
  "htonl w = (case be32 w of [a, b, c, d] \<Rightarrow> get_be32 d c b a | _ \<Rightarrow> 0)"

definition alloc_xid :: "u32 \<Rightarrow> u32 \<times> u32" where
  "alloc_xid next_xid = (htonl next_xid, next_xid + 1)"

definition routeflow_alloc :: "u8 \<Rightarrow> u8 \<Rightarrow> nat \<Rightarrow> u32 \<Rightarrow> (rfpbuf \<times> u32) option" where
  "routeflow_alloc type version len next_xid =
     do {
       let (xid, next_xid) = alloc_xid next_xid;
       buf \<leftarrow> routeflow_alloc_xid type version xid len;
       Some (buf, next_xid)
     }"

definition rfpmsg_update_length :: "rfpbuf \<Rightarrow> rfpbuf option" where
  "rfpmsg_update_length buf =
     do {
       p \<leftarrow> rfpbuf_at_assert buf 0 rfp_header_size;
       base \<leftarrow> mem_copy (rb_base buf) (p + 2) (map Some (be16 (word_of_nat (rb_size buf)))) 0 2;
       Some (buf\<lparr>rb_base := base\<rparr>)
     }"

text \<open>Reading the header of a received message.\<close>

definition rh_type :: "u8 list \<Rightarrow> u8 option" where
  "rh_type m = rd m 1"

definition rh_length :: "u8 list \<Rightarrow> u16 option" where
  "rh_length m = do { a \<leftarrow> rd m 2; b \<leftarrow> rd m 3; Some (get_be16 a b) }"

definition rh_xid :: "u8 list \<Rightarrow> u32 option" where
  "rh_xid m = do { a \<leftarrow> rd m 4; b \<leftarrow> rd m 5; c \<leftarrow> rd m 6; d \<leftarrow> rd m 7; Some (get_be32 a b c d) }"

lemma mem_copy_whole:
  assumes "i + length src \<le> length dst"
  shows "mem_copy dst i src 0 (length src) = Some (take i dst @ src @ drop (i + length src) dst)"
  using assms by (simp add: mem_copy_def)

lemma htonl_swap: "rev (be32 (htonl w)) = be32 w"
proof -
  have "be32 (get_be32 a b c d) = [a, b, c, d]" for a b c d
    unfolding be32_def get_be32_def by (simp, intro conjI; rule bit_word_eqI; auto simp: bit_simps dest: bit_imp_le_length)
  then show ?thesis by (simp add: htonl_def be32_def)
qed

lemma routeflow_alloc_xid_bytes:
  assumes "rfp_header_size \<le> len" and "len \<le> 65535"
  shows "\<exists>b. routeflow_alloc_xid type version xid len = Some b \<and> wf_rfpbuf b
    \<and> rb_bytes b = map Some ([version, type] @ be16 (word_of_nat len) @ rev (be32 xid) @ replicate (len - rfp_header_size) 0)"
proof -
  let ?m = "map Some ([version, type] @ be16 (word_of_nat len) @ rev (be32 xid) @ replicate (len - rfp_header_size) 0)"
  have m: "length ?m = len" using assms(1) by (simp add: be16_def be32_def rfp_header_size_def)
  have "rfpbuf_put_uninit (rfpbuf_new len) len = Some (0, (rfpbuf_new len)\<lparr>rb_size := len\<rparr>)"
    by (simp add: rfpbuf_put_uninit_def rfpbuf_prealloc_tailroom_def rfpbuf_tailroom_def rfpbuf_new_def rfpbuf_init_def
        rb_allocated_def rfpbuf_tail_def malloc_bytes_def)
  moreover have "mem_copy (rb_base ((rfpbuf_new len)\<lparr>rb_size := len\<rparr>)) 0 ?m 0 len = Some ?m"
    using mem_copy_whole [of 0 ?m "malloc_bytes len"] m by (simp add: rfpbuf_new_def rfpbuf_init_def malloc_bytes_def)
  ultimately have "routeflow_alloc_xid type version xid len = Some ((rfpbuf_new len)\<lparr>rb_size := len, rb_base := ?m\<rparr>)"
    using assms by (simp add: routeflow_alloc_xid_def routeflow_put_def)
  then show ?thesis using m by (simp add: wf_rfpbuf_def rb_bytes_def rfpbuf_new_def rfpbuf_init_def)
qed

lemma header_fields:
  assumes "m = [version, type] @ be16 l @ be32 x @ rest"
  shows "rh_type m = Some type" and "rh_length m = Some l" and "rh_xid m = Some x"
  using assms get_be32_be32 [of x] get_be16_be16 [of l]
  by (simp_all add: rh_type_def rh_length_def rh_xid_def be16_def be32_def)

text \<open>C13. Appending with \<open>rfpbuf_put\<close> never writes outside the allocated memory, growing the
  buffer when needed, and the data in use become the old ones followed by the new ones;
  a clone with any headroom compares equal to its original.\<close>

theorem rfpbuf_put_clone:
  assumes "wf_rfpbuf b"
  shows "\<exists>b' c. rfpbuf_put b src = Some b' \<and> wf_rfpbuf b' \<and> rb_bytes b' = rb_bytes b @ src
    \<and> rfpbuf_clone_with_headroom b' h = Some c \<and> wf_rfpbuf c \<and> rfpbuf_equal b' c"
proof -
  from rfpbuf_put_bytes [OF assms] obtain b' where
    b': "rfpbuf_put b src = Some b'" "wf_rfpbuf b'" "rb_bytes b' = rb_bytes b @ src" by blast
  from rfpbuf_clone_bytes [OF b'(2), of h] b' show ?thesis by (auto simp: rfpbuf_equal_def)
qed

theorem rfpbuf_put_clone_witness:
  "\<exists>b' c. rfpbuf_put (rfpbuf_init 2) (map Some [1, 2, 3]) = Some b' \<and> rb_bytes b' = map Some [1, 2, 3]
     \<and> rfpbuf_clone_with_headroom b' 5 = Some c \<and> rfpbuf_equal b' c"
  using rfpbuf_put_clone [OF wf_rfpbuf_init(1), of 2 "map Some [1, 2, 3]" 5] by auto

text \<open>A message made by \<open>routeflow_alloc\<close> carries the type, the length and the next
  transaction id, as the receiver decodes them, and the counter advances by one (modulo
  $2^{32}$). A message made by \<open>routeflow_alloc_xid\<close> carries the byte-swapped argument: its
  callers have to pass the id in network order.\<close>

lemma routeflow_alloc_header:
  assumes "rfp_header_size \<le> len" and "len \<le> 65535"
  shows "\<exists>b m b2 m2. routeflow_alloc type version len next_xid = Some (b, next_xid + 1) \<and> rb_bytes b = map Some m
    \<and> rh_type m = Some type \<and> rh_length m = Some (word_of_nat len) \<and> rh_xid m = Some next_xid
    \<and> routeflow_alloc_xid type version next_xid len = Some b2 \<and> rb_bytes b2 = map Some m2 \<and> rh_xid m2 = Some (htonl next_xid)"
proof -
  have swap: "rev (be32 x) = be32 (htonl x)" for x
    using htonl_swap [of "htonl x"] htonl_swap [of x] by (metis rev_rev_ident)
  let ?m = "[version, type] @ be16 (word_of_nat len) @ be32 next_xid @ replicate (len - rfp_header_size) 0"
  let ?m2 = "[version, type] @ be16 (word_of_nat len) @ be32 (htonl next_xid) @ replicate (len - rfp_header_size) 0"
  from routeflow_alloc_xid_bytes [OF assms, of type version "htonl next_xid"] obtain b where
    b: "routeflow_alloc_xid type version (htonl next_xid) len = Some b" "rb_bytes b = map Some ?m"
    by (auto simp: htonl_swap)
  from routeflow_alloc_xid_bytes [OF assms, of type version next_xid] obtain b2 where
    b2: "routeflow_alloc_xid type version next_xid len = Some b2" "rb_bytes b2 = map Some ?m2"
    by (auto simp: swap)
  from header_fields [of ?m version type _ next_xid] header_fields(3) [of ?m2] b b2 show ?thesis
    unfolding routeflow_alloc_def alloc_xid_def by (intro exI [of _ b] exI [of _ ?m] exI [of _ b2] exI [of _ ?m2]) simp
qed

end
