(* ===== verification/Lib_Dblist.thy ===== *)
theory Lib_Dblist
  imports Prelude
begin

text \<open>
  The circular doubly linked lists of \<open>lib/dblist.c\<close>, which hold the message queues, the
  neighbors and the interfaces of the daemons. List heads and elements live in one store
  of link pairs; an access to an address outside the store is undefined. The lemmas show
  that the operations implement a queue over the sequence of elements, which is how the
  component theories represent these lists.
\<close>

section \<open>Data and operations\<close>

record dlinks =
  dl_prev :: nat
  dl_next :: nat

type_synonym dl_store = "nat \<Rightarrow> dlinks option"

definition set_prev :: "nat \<Rightarrow> nat \<Rightarrow> dl_store \<Rightarrow> dl_store option" where
  "set_prev a p N = do { n \<leftarrow> N a; Some (N(a \<mapsto> n\<lparr>dl_prev := p\<rparr>)) }"

definition set_next :: "nat \<Rightarrow> nat \<Rightarrow> dl_store \<Rightarrow> dl_store option" where
  "set_next a p N = do { n \<leftarrow> N a; Some (N(a \<mapsto> n\<lparr>dl_next := p\<rparr>)) }"

definition list_init :: "nat \<Rightarrow> dl_store \<Rightarrow> dl_store option" where
  "list_init l N = do { N \<leftarrow> set_prev l l N; set_next l l N }"

definition list_insert :: "nat \<Rightarrow> nat \<Rightarrow> dl_store \<Rightarrow> dl_store option" where
  "list_insert before elem N =
     do {
       b \<leftarrow> N before;
       N \<leftarrow> set_prev elem (dl_prev b) N;
       N \<leftarrow> set_next elem before N;
       b \<leftarrow> N before;
       N \<leftarrow> set_next (dl_prev b) elem N;
       set_prev before elem N
     }"

definition list_push_back :: "nat \<Rightarrow> nat \<Rightarrow> dl_store \<Rightarrow> dl_store option" where
  "list_push_back l elem N = list_insert l elem N"

definition list_remove :: "nat \<Rightarrow> dl_store \<Rightarrow> (nat \<times> dl_store) option" where
  "list_remove elem N =
     do {
       e \<leftarrow> N elem;
       N \<leftarrow> set_next (dl_prev e) (dl_next e) N;
       e \<leftarrow> N elem;
       N \<leftarrow> set_prev (dl_next e) (dl_prev e) N;
       e \<leftarrow> N elem;
       Some (dl_next e, N)
     }"

definition list_pop_front :: "nat \<Rightarrow> dl_store \<Rightarrow> (nat \<times> dl_store) option" where
  "list_pop_front l N =
     do {
       h \<leftarrow> N l;
       let front = dl_next h;
       (_, N) \<leftarrow> list_remove front N;
       Some (front, N)
     }"

definition list_peek_front :: "nat \<Rightarrow> dl_store \<Rightarrow> nat option" where
  "list_peek_front l N = do { h \<leftarrow> N l; Some (dl_next h) }"

partial_function (option) list_count :: "nat \<Rightarrow> nat \<Rightarrow> nat \<Rightarrow> dl_store \<Rightarrow> nat option" where
  "list_count l e cnt N =
     (if e = l then Some cnt else do { n \<leftarrow> N e; list_count l (dl_next n) (cnt + 1) N })"

declare list_count.simps [code]

definition list_size :: "nat \<Rightarrow> dl_store \<Rightarrow> nat option" where
  "list_size l N = do { h \<leftarrow> N l; list_count l (dl_next h) 0 N }"

definition list_empty :: "nat \<Rightarrow> dl_store \<Rightarrow> bool option" where
  "list_empty l N = do { n \<leftarrow> list_size l N; Some (n = 0) }"

section \<open>Chains of links\<close>

text \<open>From \<open>a\<close> the links lead through \<open>xs\<close> to \<open>b\<close>, and back.\<close>

fun chain :: "dl_store \<Rightarrow> nat \<Rightarrow> nat list \<Rightarrow> nat \<Rightarrow> bool" where
  "chain N a [] b \<longleftrightarrow> (\<exists>n m. N a = Some n \<and> N b = Some m \<and> dl_next n = b \<and> dl_prev m = a)"
| "chain N a (x # xs) b \<longleftrightarrow> (\<exists>n m. N a = Some n \<and> N x = Some m \<and> dl_next n = x \<and> dl_prev m = a) \<and> chain N x xs b"

definition ring :: "dl_store \<Rightarrow> nat \<Rightarrow> nat list \<Rightarrow> bool" where
  "ring N l xs \<longleftrightarrow> distinct (l # xs) \<and> chain N l xs l"

lemma chain_append: "chain N a (xs @ y # ys) b \<longleftrightarrow> chain N a xs y \<and> chain N y ys b"
  by (induction xs arbitrary: a) auto

lemma chain_cong:
  assumes "\<And>x. x \<in> insert a (set xs) \<Longrightarrow> map_option dl_next (N' x) = map_option dl_next (N x)"
    and "\<And>x. x \<in> insert b (set xs) \<Longrightarrow> map_option dl_prev (N' x) = map_option dl_prev (N x)"
  shows "chain N' a xs b = chain N a xs b"
proof -
  have link: "(\<exists>n m. M c = Some n \<and> M d = Some m \<and> dl_next n = d \<and> dl_prev m = c)
      \<longleftrightarrow> map_option dl_next (M c) = Some d \<and> map_option dl_prev (M d) = Some c" for M :: dl_store and c d
    by (auto simp: map_option_case split: option.splits)
  show ?thesis using assms
  proof (induction xs arbitrary: a)
    case Nil
    then show ?case by (simp only: chain.simps link) simp
  next
    case (Cons x xs)
    then have "chain N' x xs b = chain N x xs b" by (intro Cons.IH) auto
    with Cons.prems show ?case by (simp only: chain.simps link) simp
  qed
qed

lemma chain_ends: "chain N a xs b \<Longrightarrow> N a \<noteq> None \<and> N b \<noteq> None"
  by (induction xs arbitrary: a) auto

text \<open>The two link functions of a store, and what an insertion and a removal make of them.\<close>

definition nxt :: "dl_store \<Rightarrow> nat \<Rightarrow> nat option" where "nxt N x = map_option dl_next (N x)"
definition prv :: "dl_store \<Rightarrow> nat \<Rightarrow> nat option" where "prv N x = map_option dl_prev (N x)"

lemma chain_Nil_views: "chain N a [] b \<longleftrightarrow> nxt N a = Some b \<and> prv N b = Some a"
  by (auto simp: nxt_def prv_def)

lemma chain_views_cong:
  assumes "\<And>x. x \<in> insert a (set xs) \<Longrightarrow> nxt N' x = nxt N x" and "\<And>x. x \<in> insert b (set xs) \<Longrightarrow> prv N' x = prv N x"
  shows "chain N' a xs b = chain N a xs b"
  by (rule chain_cong) (use assms in \<open>auto simp: nxt_def prv_def\<close>)

lemma list_insert_views:
  assumes "prv N l = Some p" and "nxt N p \<noteq> None" and "N e \<noteq> None" and "e \<noteq> l" and "e \<noteq> p"
  shows "\<exists>N'. list_insert l e N = Some N' \<and> nxt N' = (nxt N)(e \<mapsto> l, p \<mapsto> e) \<and> prv N' = (prv N)(e \<mapsto> p, l \<mapsto> e)"
proof -
  from assms obtain nl np ne where n: "N l = Some nl" "dl_prev nl = p" "N p = Some np" "N e = Some ne"
    by (auto simp: nxt_def prv_def)
  then show ?thesis using assms(4,5)
    by (cases "p = l") (simp_all add: list_insert_def set_prev_def set_next_def,
      auto simp: nxt_def prv_def intro!: ext)
qed

lemma list_remove_views:
  assumes "nxt N e = Some b" and "prv N e = Some a" and "nxt N a \<noteq> None" and "prv N b \<noteq> None"
    and "e \<noteq> a" and "e \<noteq> b"
  shows "\<exists>N'. list_remove e N = Some (b, N') \<and> nxt N' = (nxt N)(a \<mapsto> b) \<and> prv N' = (prv N)(b \<mapsto> a)"
proof -
  from assms obtain ne na nb where n: "N e = Some ne" "dl_next ne = b" "dl_prev ne = a" "N a = Some na" "N b = Some nb"
    by (auto simp: nxt_def prv_def)
  then show ?thesis using assms(5,6)
    by (cases "a = b") (simp_all add: list_remove_def set_prev_def set_next_def,
      auto simp: nxt_def prv_def intro!: ext)
qed

section \<open>The queue a ring represents\<close>

lemma ring_last: "ring N l xs \<Longrightarrow> prv N l = Some (last (l # xs)) \<and> nxt N (last (l # xs)) = Some l"
proof (cases xs rule: rev_cases)
  case (snoc ys p)
  then show "ring N l xs \<Longrightarrow> ?thesis" by (auto simp: ring_def chain_append nxt_def prv_def)
qed (auto simp: ring_def nxt_def prv_def)

lemma list_push_back_ring:
  assumes "ring N l xs" and "N e \<noteq> None" and "e \<notin> set (l # xs)"
  shows "\<exists>N'. list_push_back l e N = Some N' \<and> ring N' l (xs @ [e])"
proof -
  let ?p = "last (l # xs)"
  have p: "?p \<in> set (l # xs)" by (rule last_in_set) simp
  with assms(3) have ep: "e \<noteq> ?p" by metis
  from list_insert_views [of N l ?p e] ring_last [OF assms(1)] assms(2,3) ep obtain N' where
    N': "list_insert l e N = Some N'" "nxt N' = (nxt N)(e \<mapsto> l, ?p \<mapsto> e)" "prv N' = (prv N)(e \<mapsto> ?p, l \<mapsto> e)" by auto
  have "chain N' l xs e"
  proof (cases xs rule: rev_cases)
    case Nil
    with N' assms(3) show ?thesis by (simp only: chain_Nil_views) simp
  next
    case (snoc ys q)
    have "chain N' l ys q = chain N l ys q"
      by (rule chain_views_cong) (use N' assms(1,3) snoc in \<open>auto simp: ring_def\<close>)
    moreover have "chain N' q [] e" using N' assms(3) snoc by (simp only: chain_Nil_views) auto
    ultimately show ?thesis using assms(1) snoc by (simp add: ring_def chain_append del: chain.simps)
  qed
  moreover have "chain N' e [] l" using N' ep assms(3) by (simp only: chain_Nil_views) auto
  ultimately have "chain N' l (xs @ [e]) l" by (simp only: chain_append)
  then show ?thesis using N'(1) assms(1,3) by (auto simp: list_push_back_def ring_def)
qed

lemma list_pop_front_ring:
  assumes "ring N l (x # xs)"
  shows "\<exists>N'. list_pop_front l N = Some (x, N') \<and> ring N' l xs"
proof -
  from assms have d: "x \<noteq> l" "x \<notin> set xs" "l \<notin> set xs" "distinct xs" and c: "chain N l [] x" "chain N x xs l"
    by (auto simp: ring_def)
  let ?b = "hd (xs @ [l])"
  have b: "nxt N x = Some ?b" "prv N ?b = Some x" using c(2) by (cases xs; auto simp: nxt_def prv_def)+
  have lx: "nxt N l = Some x" "prv N x = Some l" using c(1) by (simp_all only: chain_Nil_views)
  have xb: "x \<noteq> ?b" using d by (cases xs) auto
  from list_remove_views [OF b(1) lx(2)] lx b xb d(1) obtain N' where
    N': "list_remove x N = Some (?b, N')" "nxt N' = (nxt N)(l \<mapsto> ?b)" "prv N' = (prv N)(?b \<mapsto> l)" by auto
  have "list_pop_front l N = Some (x, N')"
    using N'(1) lx(1) by (auto simp: list_pop_front_def nxt_def)
  moreover have "chain N' l xs l"
  proof (cases xs)
    case Nil
    with N' show ?thesis by (simp only: chain_Nil_views) simp
  next
    case (Cons y ys)
    have "chain N' y ys l = chain N y ys l"
      by (rule chain_views_cong) (use N' d Cons in auto)
    moreover have "chain N' l [] y" using N' Cons by (simp only: chain_Nil_views) simp
    ultimately show ?thesis using c(2) Cons by auto
  qed
  ultimately show ?thesis using d by (simp add: ring_def)
qed

lemma list_count_chain:
  "chain N a xs l \<Longrightarrow> l \<notin> set xs \<Longrightarrow> N a = Some n \<Longrightarrow> list_count l (dl_next n) k N = Some (k + length xs)"
proof (induction xs arbitrary: a n k)
  case (Cons x xs)
  from Cons.prems(1,3) obtain m where m: "N x = Some m" "dl_next n = x" "chain N x xs l" by auto
  with Cons.prems(2) Cons.IH [OF m(3) _ m(1), of "k + 1"] show ?case by (simp add: list_count.simps [of l x])
qed (auto simp: list_count.simps)

lemma list_size_ring:
  assumes "ring N l xs"
  shows "list_size l N = Some (length xs)"
proof -
  from assms have c: "chain N l xs l" "l \<notin> set xs" by (auto simp: ring_def)
  with chain_ends obtain n where "N l = Some n" by blast
  with list_count_chain [OF c this, of 0] show ?thesis by (simp add: list_size_def)
qed

lemma list_init_ring: "N l \<noteq> None \<Longrightarrow> \<exists>N'. list_init l N = Some N' \<and> ring N' l []"
  by (auto simp: list_init_def set_prev_def set_next_def ring_def)

section \<open>Queues\<close>

text \<open>The interface the message queues of the daemons rely on: a first-in first-out queue
  with a representation predicate.\<close>

locale fifo =
  fixes rep :: "'s \<Rightarrow> 'e list \<Rightarrow> bool"
    and fresh :: "'s \<Rightarrow> 'e \<Rightarrow> bool"
    and push :: "'e \<Rightarrow> 's \<Rightarrow> 's option"
    and pop :: "'s \<Rightarrow> ('e \<times> 's) option"
    and len :: "'s \<Rightarrow> nat option"
  assumes push_law: "rep s xs \<Longrightarrow> fresh s x \<Longrightarrow> x \<notin> set xs \<Longrightarrow> \<exists>s'. push x s = Some s' \<and> rep s' (xs @ [x])"
    and pop_law: "rep s (x # xs) \<Longrightarrow> \<exists>s'. pop s = Some (x, s') \<and> rep s' xs"
    and len_law: "rep s xs \<Longrightarrow> len s = Some (length xs)"
begin

lemma pop_push:
  assumes "rep s xs" and "fresh s x" and "x \<notin> set xs"
  shows "\<exists>s1 y s2. push x s = Some s1 \<and> pop s1 = Some (y, s2)
    \<and> y = hd (xs @ [x]) \<and> rep s2 (tl (xs @ [x])) \<and> len s2 = Some (length xs)"
proof -
  from push_law [OF assms] obtain s1 where s1: "push x s = Some s1" "rep s1 (xs @ [x])" by blast
  then have "rep s1 (hd (xs @ [x]) # tl (xs @ [x]))" by simp
  from pop_law [OF this] s1(1) len_law show ?thesis by force
qed

end

interpretation dl: fifo "\<lambda>N xs. ring N l xs" "\<lambda>N e. N e \<noteq> None \<and> e \<noteq> l" "list_push_back l" "list_pop_front l" "list_size l" for l
  by unfold_locales (use list_push_back_ring list_pop_front_ring list_size_ring in auto)

text \<open>C12. Pushing an element that is not in the list at the back and popping at the front
  behaves as on the sequence of elements: the oldest element comes out, the rest stays in
  order, and \<open>list_size\<close> counts it; no link outside the store is followed.\<close>

theorem dblist_is_fifo:
  assumes "ring N l xs" and "N e \<noteq> None" and "e \<notin> set (l # xs)"
  shows "\<exists>N1 y N2. list_push_back l e N = Some N1 \<and> list_pop_front l N1 = Some (y, N2)
    \<and> y = hd (xs @ [e]) \<and> ring N2 l (tl (xs @ [e])) \<and> list_size l N2 = Some (length xs)"
  using dl.pop_push [of N l xs e] assms by simp

theorem dblist_is_fifo_witness:
  "\<exists>N1 y N2. list_push_back 0 1 [0 \<mapsto> \<lparr>dl_prev = 2, dl_next = 2\<rparr>, 1 \<mapsto> \<lparr>dl_prev = 7, dl_next = 7\<rparr>, 2 \<mapsto> \<lparr>dl_prev = 0, dl_next = 0\<rparr>] = Some N1
     \<and> list_pop_front 0 N1 = Some (y, N2) \<and> y = 2 \<and> ring N2 0 [1]"
proof -
  let ?N = "[0 \<mapsto> \<lparr>dl_prev = 2, dl_next = 2\<rparr>, 1 \<mapsto> \<lparr>dl_prev = 7, dl_next = 7\<rparr>, 2 \<mapsto> \<lparr>dl_prev = 0, dl_next = 0\<rparr>] :: dl_store"
  have "ring ?N 0 [2]" by (simp add: ring_def)
  from dblist_is_fifo [OF this, of 1] show ?thesis by auto
qed

end
