(* ===== verification/Ctrl_Sib_Router.thy ===== *)
theory Ctrl_Sib_Router
  imports Ctrl_Rib Lib_Rfpbuf Lib_Dblist
begin

text \<open>
  The sibling side of the controller, \<open>controller/sib_router.c\<close>: redundant routing
  processes ("siblings") compute the same protocol messages, and the controller forwards
  a message to the routers only when a majority of the siblings agree on it.

  A message is the list of its bytes; the queue of received messages of a sibling, a
  circular list in the source, is the sequence it represents. What the controller sends
  or stores elsewhere is recorded in the order in which it happens. A connection that has
  been destroyed is \<open>None\<close>, and sending on it is undefined. A buffer is freed by a send
  that writes all of it and by no other (\<open>vconn_stream_send\<close>), so a buffer that is sent
  again may be used after it was freed, which is undefined; whether a send writes the whole
  buffer is the answer of the operating system and a parameter of the state. Log messages
  have no effect except that the pointers they print are followed; the message about a
  failed send is not modelled.
\<close>

section \<open>Data\<close>

datatype sib_router_state = SIB_CONNECTING | SIB_CONNECTED | SIB_FEATURES_REQ_RCVD | SIB_REDISTRIBUTE_REQ_RCVD
  | SIB_FEATURES_REDIS_REQ_RCVD | SIB_FEATURES_ADDR_REQ_RCVD | SIB_ROUTING | SIB_DISCONNECTED

type_synonym msg = "u8 list"

record sib_router =
  sr_rconn :: "nat option"
  sr_state :: sib_router_state
  sr_ingress_xid :: u32
  sr_ingress_ack :: bool
  sr_ack_timeout :: u16
  sr_egress_xid :: u32
  sr_waiting :: bool
  sr_queue :: "msg list"
  sr_is_leader :: bool

text \<open>A pointer to a sibling, by the array it is in.\<close>

datatype sref = Ospf6 nat | Bgp nat

text \<open>An interface of a router as the controller knows it.\<close>

record port_info =
  pi_ifindex :: u32
  pi_state :: u32
  pi_mtu :: u32
  pi_name :: string
  pi_connected :: "prefix list"

text \<open>The port description of a features reply, by its fields.\<close>

record phy_port =
  pp_port_no :: u16
  pp_name :: string
  pp_state :: u32
  pp_mtu :: u32

text \<open>
  What leaves the module: messages forwarded to a router, messages sent on a connection
  (with the fields that are filled in, the transaction id as it is handed to
  \<open>routeflow_alloc_xid\<close>) and the values stored in the database.
\<close>

datatype effect =
    RouterForward nat msg
  | SendFeaturesReply nat u32 "phy_port list"
  | SendAddressReply u8 nat u32 u16 u16 "u8 list"
  | SendRouteReply u8 nat u32 u16 "u8 list"
  | SendMsg nat msg
  | SendLeaderElect nat u32
  | DbSetEgressXid u32

text \<open>
  The state of the module. \<open>ct_full c k\<close> tells whether the send recorded at position
  \<open>k\<close> of the output writes its whole buffer; no operation changes it.
\<close>

record ctrl =
  ct_ospf6 :: "sib_router list"
  ct_bgp :: "sib_router list"
  ct_routing :: int
  ct_leader :: "sref option"
  ct_num_sibs :: int
  ct_voter :: int
  ct_ports :: "port_info list list"
  ct_rib :: "vrf vector"
  ct_out :: "effect list"
  ct_full :: "nat \<Rightarrow> bool"

definition VOTER_ANY :: int where "VOTER_ANY = 0"
definition VOTER_ALL :: int where "VOTER_ALL = 1"
definition MAX_OSPF6_SIBLINGS :: nat where "MAX_OSPF6_SIBLINGS = 9"
definition MAX_BGP_SIBLINGS :: nat where "MAX_BGP_SIBLINGS = 3"

definition RFPT_ACK :: u8 where "RFPT_ACK = 1"
definition RFPT_FEATURES_REQUEST :: u8 where "RFPT_FEATURES_REQUEST = 8"
definition RFPT_REDISTRIBUTE_REQUEST :: u8 where "RFPT_REDISTRIBUTE_REQUEST = 17"
definition RFPT_IPV6_ROUTE_SET_REQUEST :: u8 where "RFPT_IPV6_ROUTE_SET_REQUEST = 19"
definition RFPT_IPV4_ROUTE_ADD :: u8 where "RFPT_IPV4_ROUTE_ADD = 18"
definition RFPT_IF_ADDRESS_REQ :: u8 where "RFPT_IF_ADDRESS_REQ = 20"
definition RFPT_IPV4_ADDRESS_ADD :: u8 where "RFPT_IPV4_ADDRESS_ADD = 21"
definition RFPT_IPV6_ADDRESS_ADD :: u8 where "RFPT_IPV6_ADDRESS_ADD = 22"
definition RFPT_FORWARD_OSPF6 :: u8 where "RFPT_FORWARD_OSPF6 = 23"
definition RFPT_FORWARD_BGP :: u8 where "RFPT_FORWARD_BGP = 24"
definition RFPT_REDISTRIBUTE_LEADER_ELECT :: u8 where "RFPT_REDISTRIBUTE_LEADER_ELECT = 25"

section \<open>Access\<close>

fun get_sib :: "sref \<Rightarrow> ctrl \<Rightarrow> sib_router option" where
  "get_sib (Ospf6 i) c = rd (ct_ospf6 c) i"
| "get_sib (Bgp i) c = rd (ct_bgp c) i"

fun put_sib :: "sref \<Rightarrow> sib_router \<Rightarrow> ctrl \<Rightarrow> ctrl" where
  "put_sib (Ospf6 i) s c = c\<lparr>ct_ospf6 := (ct_ospf6 c)[i := s]\<rparr>"
| "put_sib (Bgp i) s c = c\<lparr>ct_bgp := (ct_bgp c)[i := s]\<rparr>"

definition upd_sib :: "sref \<Rightarrow> (sib_router \<Rightarrow> sib_router) \<Rightarrow> ctrl \<Rightarrow> ctrl option" where
  "upd_sib r f c = do { s \<leftarrow> get_sib r c; Some (put_sib r (f s) c) }"

definition emit :: "effect list \<Rightarrow> ctrl \<Rightarrow> ctrl" where
  "emit es c = c\<lparr>ct_out := ct_out c @ es\<rparr>"

section \<open>State transitions and leader election\<close>

fun leader_elect_msgs :: "sib_router list \<Rightarrow> effect list option" where
  "leader_elect_msgs [] = Some []"
| "leader_elect_msgs (s # ss) =
     do { conn \<leftarrow> sr_rconn s; es \<leftarrow> leader_elect_msgs ss; Some (SendLeaderElect conn (sr_ingress_xid s) # es) }"

definition sib_router_send_leader_elect :: "ctrl \<Rightarrow> ctrl option" where
  "sib_router_send_leader_elect c = do { es \<leftarrow> leader_elect_msgs (ct_ospf6 c); Some (emit es c) }"

definition enters :: "sib_router_state \<Rightarrow> sib_router_state \<Rightarrow> bool" where
  "enters old new \<longleftrightarrow> (old = SIB_FEATURES_REDIS_REQ_RCVD \<or> old = SIB_FEATURES_ADDR_REQ_RCVD) \<and> new = SIB_ROUTING"

definition leaves :: "sib_router_state \<Rightarrow> sib_router_state \<Rightarrow> bool" where
  "leaves old new \<longleftrightarrow> old = SIB_ROUTING \<and> new = SIB_DISCONNECTED"

definition state_transition :: "sref \<Rightarrow> sib_router_state \<Rightarrow> ctrl \<Rightarrow> ctrl option" where
  "state_transition r st c =
     do {
       s \<leftarrow> get_sib r c;
       let c = c\<lparr>ct_routing := ct_routing c + of_bool (enters (sr_state s) st) - of_bool (leaves (sr_state s) st)\<rparr>;
       let c = put_sib r (s\<lparr>sr_waiting := (enters (sr_state s) st \<or> sr_waiting s), sr_state := st\<rparr>) c;
       if ct_routing c = ct_num_sibs c then sib_router_send_leader_elect c else Some c
     }"

section \<open>Connections\<close>

definition fresh_sib :: "nat \<Rightarrow> sib_router" where
  "fresh_sib conn = \<lparr>sr_rconn = Some conn, sr_state = SIB_CONNECTING, sr_ingress_xid = 0, sr_ingress_ack = False,
     sr_ack_timeout = 5, sr_egress_xid = 0, sr_waiting = False, sr_queue = [], sr_is_leader = False\<rparr>"

text \<open>
  A new sibling: the counter of the array is advanced before the sibling is created and
  stored, so a leader election started while it is created meets a null entry. The source
  does not compare the counter with the size of the array: the result is \<open>None\<close> where it
  stores the sibling behind the array. The state
  that \<open>state_transition\<close> reads from the new memory does not matter, since the new state
  is \<open>SIB_CONNECTING\<close>. The acknowledgement flag is not initialised by the source.
\<close>

definition new_sib_router_ospf6 :: "nat \<Rightarrow> ctrl \<Rightarrow> ctrl option" where
  "new_sib_router_ospf6 conn c =
     (if length (ct_ospf6 c) \<ge> MAX_OSPF6_SIBLINGS then None
      else if ct_routing c = ct_num_sibs c then None
      else Some (c\<lparr>ct_ospf6 := ct_ospf6 c @ [fresh_sib conn]\<rparr>))"

definition new_sib_router_bgp :: "nat \<Rightarrow> ctrl \<Rightarrow> ctrl option" where
  "new_sib_router_bgp conn c =
     (if length (ct_bgp c) \<ge> MAX_BGP_SIBLINGS then None
      else do {
             c \<leftarrow> (if ct_routing c = ct_num_sibs c then sib_router_send_leader_elect c else Some c);
             Some (c\<lparr>ct_bgp := ct_bgp c @ [fresh_sib conn]\<rparr>)
           })"

text \<open>\<open>sib_router_reuse\<close>: every field but the leader and acknowledgement flags is reset.\<close>

definition reuse_sib_router :: "nat \<Rightarrow> nat \<Rightarrow> ctrl \<Rightarrow> ctrl option" where
  "reuse_sib_router i conn c =
     do {
       c \<leftarrow> upd_sib (Ospf6 i) (\<lambda>s. s\<lparr>sr_rconn := Some conn\<rparr>) c;
       c \<leftarrow> state_transition (Ospf6 i) SIB_CONNECTING c;
       upd_sib (Ospf6 i) (\<lambda>s. s\<lparr>sr_queue := [], sr_egress_xid := 0, sr_waiting := False,
         sr_ingress_xid := 0, sr_ack_timeout := 5\<rparr>) c
     }"

fun find_disconnected :: "sib_router list \<Rightarrow> nat \<Rightarrow> nat option" where
  "find_disconnected [] i = None"
| "find_disconnected (s # ss) i = (if sr_state s = SIB_DISCONNECTED then Some i else find_disconnected ss (Suc i))"

definition accept_ospf6 :: "nat \<Rightarrow> ctrl \<Rightarrow> ctrl option" where
  "accept_ospf6 conn c =
     (case find_disconnected (ct_ospf6 c) 0 of
        Some i \<Rightarrow> reuse_sib_router i conn c
      | None \<Rightarrow> new_sib_router_ospf6 conn c)"

text \<open>\<open>sib_listener_accept\<close> after a successful \<open>pvconn_accept\<close>, by the listener's port.\<close>

definition sib_listener_accept :: "bool \<Rightarrow> nat \<Rightarrow> ctrl \<Rightarrow> ctrl option" where
  "sib_listener_accept ospf6 conn c = (if ospf6 then accept_ospf6 conn c else new_sib_router_bgp conn c)"

section \<open>Voting\<close>

text \<open>The float comparison \<open>(float)n / m > 0.5\<close> for a non-negative \<open>n\<close>.\<close>

definition over_half :: "int \<Rightarrow> int \<Rightarrow> bool" where
  "over_half n m \<longleftrightarrow> (if m > 0 then 2 * n > m else m = 0 \<and> n > 0)"

definition num_waiting_on_first_egress_msg :: "ctrl \<Rightarrow> int" where
  "num_waiting_on_first_egress_msg c = int (length (filter sr_waiting (ct_ospf6 c)))"

text \<open>The number of voters; for any other configuration value it is not initialised.\<close>

definition num_hosts :: "ctrl \<Rightarrow> int option" where
  "num_hosts c =
     (if ct_voter c = VOTER_ALL then Some (ct_num_sibs c)
      else if ct_voter c = VOTER_ANY then Some (ct_routing c - num_waiting_on_first_egress_msg c)
      else None)"

text \<open>The loop of \<open>majority_have_msg_rcvd\<close> advances its index also to count.\<close>

function count_rcvd :: "sib_router list \<Rightarrow> nat \<Rightarrow> nat" where
  "count_rcvd ss i =
     (if i < length ss
      then count_rcvd ss (if sr_state (ss ! i) \<noteq> SIB_DISCONNECTED \<and> sr_queue (ss ! i) \<noteq> [] then i + 2 else i + 1)
      else i)"
  by pat_completeness auto
termination by (relation "measure (\<lambda>(ss, i). length ss - i)") auto

declare count_rcvd.simps [simp del]

definition majority_have_msg_rcvd :: "ctrl \<Rightarrow> bool option" where
  "majority_have_msg_rcvd c =
     do { m \<leftarrow> num_hosts c; Some (over_half (int (count_rcvd (ct_ospf6 c) 0)) m) }"

definition append_msg_to_rcvd_queue :: "sref \<Rightarrow> msg \<Rightarrow> ctrl \<Rightarrow> ctrl option" where
  "append_msg_to_rcvd_queue r m c = upd_sib r (\<lambda>s. s\<lparr>sr_queue := sr_queue s @ [m]\<rparr>) c"

text \<open>
  The first sibling with a queued message: the loop tests the queue before the index, so it
  runs into the null entry after the last sibling when every queue is empty.
\<close>

fun first_queued :: "sib_router list \<Rightarrow> nat \<Rightarrow> (nat \<times> msg) option" where
  "first_queued [] j = None"
| "first_queued (s # ss) j = (case sr_queue s of [] \<Rightarrow> first_queued ss (Suc j) | m # _ \<Rightarrow> Some (j, m))"

text \<open>The messages equal to the first one among the later siblings.\<close>

fun count_equal :: "msg \<Rightarrow> sib_router list \<Rightarrow> int \<Rightarrow> int" where
  "count_equal a [] n = n"
| "count_equal a (s # ss) n =
     (if sr_state s = SIB_DISCONNECTED then count_equal a ss n
      else (case sr_queue s of [] \<Rightarrow> count_equal a ss n
            | b # _ \<Rightarrow> if a \<noteq> b then count_equal a ss n else count_equal b ss (n + 1)))"

definition pop_queue :: "sib_router \<Rightarrow> sib_router" where
  "pop_queue s = s\<lparr>sr_queue := tl (sr_queue s)\<rparr>"

definition bump_egress :: "sib_router \<Rightarrow> sib_router" where
  "bump_egress s = s\<lparr>sr_egress_xid := sr_egress_xid s + 1\<rparr>"

text \<open>
  Sends of one buffer, the first of them at position \<open>k\<close> of the output: the buffer must not
  have been freed when it is sent again.
\<close>

fun send_shared :: "(nat \<Rightarrow> bool) \<Rightarrow> nat \<Rightarrow> effect list \<Rightarrow> effect list option" where
  "send_shared full k [] = Some []"
| "send_shared full k [e] = Some [e]"
| "send_shared full k (e # e' # es) =
     (if full k then None else do { es \<leftarrow> send_shared full (Suc k) (e' # es); Some (e # es) })"

text \<open>\<open>router_forward\<close> of one buffer to every router.\<close>

definition forward_to_routers :: "msg \<Rightarrow> ctrl \<Rightarrow> effect list option" where
  "forward_to_routers a c =
     send_shared (ct_full c) (length (ct_out c)) (map (\<lambda>i. RouterForward i a) [0..<length (ct_ports c)])"

definition store_egress :: "ctrl \<Rightarrow> ctrl option" where
  "store_egress c =
     (case ct_leader c of None \<Rightarrow> Some c
      | Some r \<Rightarrow> do {
            l \<leftarrow> get_sib r c;
            if sr_state l \<noteq> SIB_DISCONNECTED then Some (emit [DbSetEgressXid (sr_egress_xid l)] c) else Some c
          })"

definition vote_majority :: "ctrl \<Rightarrow> ctrl option" where
  "vote_majority c =
     do {
       (j, a) \<leftarrow> first_queued (ct_ospf6 c) 0;
       let n = count_equal a (drop (Suc j) (ct_ospf6 c)) 1;
       m \<leftarrow> num_hosts c;
       if over_half n m
       then do {
              let c = c\<lparr>ct_ospf6 := map pop_queue (ct_ospf6 c)\<rparr>;
              es \<leftarrow> forward_to_routers a c;
              let c = emit es c;
              let c = c\<lparr>ct_ospf6 := map bump_egress (ct_ospf6 c)\<rparr>;
              store_egress c
            }
       else Some c
     }"

definition all_have_msg_rcvd :: "ctrl \<Rightarrow> bool" where
  "all_have_msg_rcvd c \<longleftrightarrow> (\<forall>s\<in>set (ct_ospf6 c). sr_queue s \<noteq> [])"

section \<open>Replies\<close>

definition sib_conn :: "sref \<Rightarrow> ctrl \<Rightarrow> nat option" where
  "sib_conn r c = do { s \<leftarrow> get_sib r c; sr_rconn s }"

definition phy_port_of :: "port_info \<Rightarrow> phy_port" where
  "phy_port_of p = \<lparr>pp_port_no = ucast (pi_ifindex p), pp_name = pi_name p, pp_state = pi_state p, pp_mtu = pi_mtu p\<rparr>"

text \<open>
  One buffer is filled and sent once per router, so that a second router makes the source
  append to the ports of the first one, or to a buffer that the first send has freed.
\<close>

definition sib_router_send_features_reply :: "sref \<Rightarrow> u32 \<Rightarrow> ctrl \<Rightarrow> ctrl option" where
  "sib_router_send_features_reply r xid c =
     (if ct_ports c = [] then Some c
      else do {
             conn \<leftarrow> sib_conn r c;
             es \<leftarrow> send_shared (ct_full c) (length (ct_out c))
               (map (\<lambda>i. SendFeaturesReply conn xid (map phy_port_of (concat (take (Suc i) (ct_ports c))))) [0..<length (ct_ports c)]);
             Some (emit es c)
           })"

definition sib_router_send_address_reply :: "u8 \<Rightarrow> nat \<Rightarrow> prefix \<Rightarrow> u32 \<Rightarrow> u32 \<Rightarrow> effect" where
  "sib_router_send_address_reply type conn ifc ifindex xid =
     SendAddressReply type conn xid (ucast ifindex) (ucast (pfx_prefixlen ifc))
       (take (if type = RFPT_IPV4_ADDRESS_ADD then 4 else 16) (pfx_u ifc))"

definition address_replies :: "nat \<Rightarrow> u32 \<Rightarrow> port_info \<Rightarrow> effect list" where
  "address_replies conn xid p = concat (map (\<lambda>ifc.
     if pfx_family ifc = AF_INET then [sib_router_send_address_reply RFPT_IPV4_ADDRESS_ADD conn ifc (pi_ifindex p) xid]
     else if pfx_family ifc = AF_INET6 then [sib_router_send_address_reply RFPT_IPV6_ADDRESS_ADD conn ifc (pi_ifindex p) xid]
     else []) (pi_connected p))"

definition sib_router_if_addr_add :: "sref \<Rightarrow> u32 \<Rightarrow> ctrl \<Rightarrow> ctrl option" where
  "sib_router_if_addr_add r xid c =
     do { conn \<leftarrow> sib_conn r c; Some (emit (concat (map (address_replies conn xid) (concat (ct_ports c)))) c) }"

definition sib_router_send_route_reply :: "u8 \<Rightarrow> nat \<Rightarrow> prefix \<Rightarrow> u32 \<Rightarrow> effect" where
  "sib_router_send_route_reply type conn p xid = SendRouteReply type conn xid (ucast (pfx_prefixlen p)) (take 4 (pfx_u p))"

text \<open>The routes of one node that are reachable, one reply each.\<close>

definition route_replies :: "nat \<Rightarrow> u32 \<Rightarrow> rib list route_node \<Rightarrow> effect list" where
  "route_replies conn xid n =
     map (\<lambda>_. sib_router_send_route_reply RFPT_IPV4_ROUTE_ADD conn (rn_p n) xid)
       (filter (\<lambda>rib. rib_distance rib \<noteq> DISTANCE_INFINITY) (case rn_info n of None \<Rightarrow> [] | Some ribs \<Rightarrow> ribs))"

partial_function (option) redistribute_loop ::
  "nat \<Rightarrow> u32 \<Rightarrow> addr option \<Rightarrow> rib_table \<Rightarrow> (effect list \<times> rib_table) option" where
  "redistribute_loop conn xid rn t =
     (case rn of None \<Rightarrow> Some ([], t)
      | Some a \<Rightarrow>
          do {
            n \<leftarrow> rt_nodes t a;
            (nx, t) \<leftarrow> route_next a t;
            (es, t) \<leftarrow> redistribute_loop conn xid nx t;
            Some (route_replies conn xid n @ es, t)
          })"

declare redistribute_loop.simps [code]

definition sib_router_redistribute :: "sref \<Rightarrow> u32 \<Rightarrow> ctrl \<Rightarrow> ctrl option" where
  "sib_router_redistribute r xid c =
     do {
       conn \<leftarrow> sib_conn r c;
       table \<leftarrow> vrf_table AFI_IP SAFI_UNICAST 0 (ct_rib c);
       (case table of None \<Rightarrow> Some c
        | Some t \<Rightarrow>
            do {
              (rn, t) \<leftarrow> route_top t;
              (es, t) \<leftarrow> redistribute_loop conn xid rn t;
              V \<leftarrow> put_table AFI_IP SAFI_UNICAST 0 t (ct_rib c);
              Some (emit es (c\<lparr>ct_rib := V\<rparr>))
            })
     }"

section \<open>Received messages\<close>

definition next_egress :: "sref \<Rightarrow> ctrl \<Rightarrow> ctrl option" where
  "next_egress r c = upd_sib r bump_egress c"

definition process_features_request :: "sref \<Rightarrow> u32 \<Rightarrow> ctrl \<Rightarrow> ctrl option" where
  "process_features_request r xid c =
     do {
       s \<leftarrow> get_sib r c;
       if xid = sr_egress_xid s \<and> (sr_state s = SIB_CONNECTED \<or> sr_state s = SIB_REDISTRIBUTE_REQ_RCVD)
       then do {
              c \<leftarrow> next_egress r c;
              c \<leftarrow> sib_router_send_features_reply r xid c;
              if sr_state s = SIB_CONNECTED then state_transition r SIB_FEATURES_REQ_RCVD c
              else if sr_state s = SIB_REDISTRIBUTE_REQ_RCVD then state_transition r SIB_FEATURES_REDIS_REQ_RCVD c
              else Some c
            }
       else Some c
     }"

text \<open>The second disjunct of the guard is the constant \<open>SIB_FEATURES_REDIS_REQ_RCVD\<close>, not a
  comparison, so the state is not tested.\<close>

definition process_if_address_req :: "sref \<Rightarrow> u32 \<Rightarrow> ctrl \<Rightarrow> ctrl option" where
  "process_if_address_req r xid c =
     do {
       s \<leftarrow> get_sib r c;
       if xid = sr_egress_xid s \<and> (sr_state s = SIB_FEATURES_REQ_RCVD \<or> True)
       then do {
              c \<leftarrow> next_egress r c;
              c \<leftarrow> sib_router_if_addr_add r xid c;
              if sr_state s = SIB_FEATURES_REQ_RCVD then state_transition r SIB_FEATURES_ADDR_REQ_RCVD c
              else if sr_state s = SIB_FEATURES_REDIS_REQ_RCVD then state_transition r SIB_ROUTING c
              else Some c
            }
       else Some c
     }"

definition process_redistribute_request :: "sref \<Rightarrow> u32 \<Rightarrow> ctrl \<Rightarrow> ctrl option" where
  "process_redistribute_request r xid c =
     do {
       s \<leftarrow> get_sib r c;
       if xid = sr_egress_xid s \<and>
          (sr_state s = SIB_CONNECTED \<or> sr_state s = SIB_FEATURES_REQ_RCVD \<or> sr_state s = SIB_FEATURES_ADDR_REQ_RCVD)
       then do {
              c \<leftarrow> next_egress r c;
              c \<leftarrow> sib_router_redistribute r xid c;
              if sr_state s = SIB_CONNECTED then state_transition r SIB_REDISTRIBUTE_REQ_RCVD c
              else if sr_state s = SIB_FEATURES_REQ_RCVD then state_transition r SIB_FEATURES_REDIS_REQ_RCVD c
              else if sr_state s = SIB_FEATURES_ADDR_REQ_RCVD then state_transition r SIB_ROUTING c
              else Some c
            }
       else Some c
     }"

text \<open>The part that route-set requests and forwarded OSPF messages have in common.\<close>

definition process_egress_msg :: "sref \<Rightarrow> u32 \<Rightarrow> msg \<Rightarrow> ctrl \<Rightarrow> ctrl option" where
  "process_egress_msg r xid m c =
     do {
       s \<leftarrow> get_sib r c;
       if xid = sr_egress_xid s
       then do {
              c \<leftarrow> append_msg_to_rcvd_queue r m c;
              if int (length (ct_ospf6 c)) = ct_num_sibs c
              then do { maj \<leftarrow> majority_have_msg_rcvd c; if maj then vote_majority c else Some c }
              else Some c
            }
       else if xid > sr_egress_xid s then append_msg_to_rcvd_queue r m c
       else Some c
     }"

definition leader_egress :: "sref \<Rightarrow> ctrl \<Rightarrow> ctrl option" where
  "leader_egress r c =
     do {
       s \<leftarrow> get_sib r c;
       if sr_waiting s
       then do {
              c \<leftarrow> (if \<not> sr_is_leader s
                   then (case ct_leader c of None \<Rightarrow> Some c
                         | Some l \<Rightarrow> do { ls \<leftarrow> get_sib l c; upd_sib r (\<lambda>s. s\<lparr>sr_egress_xid := sr_egress_xid ls\<rparr>) c })
                   else Some c);
              upd_sib r (\<lambda>s. s\<lparr>sr_waiting := False\<rparr>) c
            }
       else Some c
     }"

text \<open>A message whose id matches also has its OSPF type printed, which reads byte 9.\<close>

definition process_forward_ospf6 :: "sref \<Rightarrow> u32 \<Rightarrow> msg \<Rightarrow> ctrl \<Rightarrow> ctrl option" where
  "process_forward_ospf6 r xid m c =
     do {
       c \<leftarrow> leader_egress r c;
       s \<leftarrow> get_sib r c;
       if xid = sr_egress_xid s \<and> rd m 9 = None then None else process_egress_msg r xid m c
     }"

definition process_forward_bgp :: "msg \<Rightarrow> ctrl \<Rightarrow> ctrl" where
  "process_forward_bgp m c = emit (map (\<lambda>i. RouterForward i m) [0..<length (ct_ports c)]) c"

definition process_ack :: "sref \<Rightarrow> u32 \<Rightarrow> ctrl \<Rightarrow> ctrl option" where
  "process_ack r xid c =
     do {
       s \<leftarrow> get_sib r c;
       if xid = sr_ingress_xid s then upd_sib r (\<lambda>s. s\<lparr>sr_ingress_ack := True\<rparr>) c else Some c
     }"

text \<open>The log message of a leader election follows the pointer to the leader and to its
  connection.\<close>

definition process_leader_elect :: "sref \<Rightarrow> msg \<Rightarrow> ctrl \<Rightarrow> ctrl option" where
  "process_leader_elect r m c =
     do {
       b \<leftarrow> rd m 8;
       c \<leftarrow> upd_sib r (\<lambda>s. s\<lparr>sr_is_leader := (b = 1)\<rparr>) c;
       let c = (if b = 1 then c\<lparr>ct_leader := Some r\<rparr> else c);
       l \<leftarrow> ct_leader c;
       _ \<leftarrow> sib_conn r c;
       _ \<leftarrow> sib_conn l c;
       Some c
     }"

definition sib_router_process_packet :: "sref \<Rightarrow> msg \<Rightarrow> ctrl \<Rightarrow> ctrl option" where
  "sib_router_process_packet r m c =
     do {
       type \<leftarrow> rh_type m;
       xid \<leftarrow> rh_xid m;
       if type = RFPT_FEATURES_REQUEST then process_features_request r xid c
       else if type = RFPT_IF_ADDRESS_REQ then process_if_address_req r xid c
       else if type = RFPT_REDISTRIBUTE_REQUEST then process_redistribute_request r xid c
       else if type = RFPT_IPV6_ROUTE_SET_REQUEST then process_egress_msg r xid m c
       else if type = RFPT_FORWARD_OSPF6 then process_forward_ospf6 r xid m c
       else if type = RFPT_FORWARD_BGP then Some (process_forward_bgp m c)
       else if type = RFPT_ACK then process_ack r xid c
       else if type = RFPT_REDISTRIBUTE_LEADER_ELECT then process_leader_elect r m c
       else Some c
     }"

section \<open>The life of a connection\<close>

definition sib_router_destroy :: "sref \<Rightarrow> ctrl \<Rightarrow> ctrl option" where
  "sib_router_destroy r c =
     do {
       c \<leftarrow> state_transition r SIB_DISCONNECTED c;
       upd_sib r (\<lambda>s. s\<lparr>sr_waiting := False, sr_queue := [], sr_rconn := None\<rparr>) c
     }"

fun process_packets :: "sref \<Rightarrow> msg list \<Rightarrow> ctrl \<Rightarrow> ctrl option" where
  "process_packets r [] c = Some c"
| "process_packets r (m # ms) c = do { c \<leftarrow> sib_router_process_packet r m c; process_packets r ms c }"

text \<open>
  One activation of \<open>sib_router_run\<close>: \<open>msgs\<close> are the messages that the connection delivers
  before it has none, of which at most fifty are processed, and \<open>alive\<close> tells whether the
  connection is alive afterwards.
\<close>

definition sib_router_run :: "sref \<Rightarrow> msg list \<Rightarrow> bool \<Rightarrow> ctrl \<Rightarrow> ctrl option" where
  "sib_router_run r msgs alive c =
     do {
       s \<leftarrow> get_sib r c;
       _ \<leftarrow> sr_rconn s;
       if sr_state s = SIB_CONNECTING then state_transition r SIB_CONNECTED c
       else do {
              c \<leftarrow> process_packets r (take 50 msgs) c;
              if alive then Some c else sib_router_destroy r c
            }
     }"

definition sib_router_init :: "port_info list list \<Rightarrow> int \<Rightarrow> int \<Rightarrow> vrf vector \<Rightarrow> (nat \<Rightarrow> bool) \<Rightarrow> ctrl" where
  "sib_router_init routers num_sibs voter V full =
     \<lparr>ct_ospf6 = [], ct_bgp = [], ct_routing = 0, ct_leader = None, ct_num_sibs = num_sibs, ct_voter = voter,
      ct_ports = routers, ct_rib = V, ct_out = [], ct_full = full\<rparr>"

section \<open>Messages from the routers\<close>

definition forward_to_sib :: "msg \<Rightarrow> u32 \<Rightarrow> sib_router \<Rightarrow> (effect list \<times> sib_router) option" where
  "forward_to_sib m xid s =
     (if sr_state s = SIB_ROUTING
      then do { conn \<leftarrow> sr_rconn s; Some ([SendMsg conn m], s\<lparr>sr_ingress_xid := xid, sr_ingress_ack := False\<rparr>) }
      else Some ([], s))"

fun forward_to_sibs :: "msg \<Rightarrow> u32 \<Rightarrow> sib_router list \<Rightarrow> (effect list \<times> sib_router list) option" where
  "forward_to_sibs m xid [] = Some ([], [])"
| "forward_to_sibs m xid (s # ss) =
     do { (e, s) \<leftarrow> forward_to_sib m xid s; (es, ss) \<leftarrow> forward_to_sibs m xid ss; Some (e @ es, s # ss) }"

definition sib_router_forward_ospf6 :: "msg \<Rightarrow> u32 \<Rightarrow> ctrl \<Rightarrow> ctrl option" where
  "sib_router_forward_ospf6 m xid c =
     do { (es, ss) \<leftarrow> forward_to_sibs m xid (ct_ospf6 c); Some (emit es (c\<lparr>ct_ospf6 := ss\<rparr>)) }"

text \<open>The same buffer goes to every BGP sibling.\<close>

fun sib_conns :: "sib_router list \<Rightarrow> nat list option" where
  "sib_conns [] = Some []"
| "sib_conns (s # ss) = do { conn \<leftarrow> sr_rconn s; conns \<leftarrow> sib_conns ss; Some (conn # conns) }"

definition sib_router_forward_bgp :: "msg \<Rightarrow> ctrl \<Rightarrow> ctrl option" where
  "sib_router_forward_bgp m c =
     do {
       conns \<leftarrow> sib_conns (ct_bgp c);
       es \<leftarrow> send_shared (ct_full c) (length (ct_out c)) (map (\<lambda>conn. SendMsg conn m) conns);
       Some (emit es c)
     }"

end
