(* ===== verification/Ctrl_Sib_Inv.thy ===== *)
theory Ctrl_Sib_Inv
  imports Ctrl_Sib_Router
begin

text \<open>
  The invariant of the sibling table of the controller. The counter
  \<open>n_ospf6_siblings_routing\<close> is the number of siblings of both kinds in the routing state,
  a sibling waits for its first egress message only while it is routing, and a sibling is
  disconnected exactly when it has no connection. Every operation keeps it, so it holds in
  every state the controller reaches.
\<close>

section \<open>The invariant\<close>

definition sib_ok :: "sib_router \<Rightarrow> bool" where
  "sib_ok s \<longleftrightarrow> (sr_waiting s \<longrightarrow> sr_state s = SIB_ROUTING) \<and> (sr_rconn s = None \<longleftrightarrow> sr_state s = SIB_DISCONNECTED)
     \<and> (sr_state s = SIB_DISCONNECTED \<longrightarrow> sr_queue s = [])"

definition routing_count :: "sib_router list \<Rightarrow> int" where
  "routing_count ss = int (length (filter (\<lambda>s. sr_state s = SIB_ROUTING) ss))"

definition rcount :: "ctrl \<Rightarrow> int" where
  "rcount c = routing_count (ct_ospf6 c) + routing_count (ct_bgp c)"

definition all_sibs :: "(sib_router \<Rightarrow> bool) \<Rightarrow> ctrl \<Rightarrow> bool" where
  "all_sibs P c \<longleftrightarrow> (\<forall>s\<in>set (ct_ospf6 c). P s) \<and> (\<forall>s\<in>set (ct_bgp c). P s)"

definition ctrl_inv :: "ctrl \<Rightarrow> bool" where
  "ctrl_inv c \<longleftrightarrow> all_sibs sib_ok c \<and> ct_routing c = rcount c"

named_theorems sib_defs

lemma bind_SomeD: "Option.bind x f = Some y \<Longrightarrow> (\<And>z. x = Some z \<Longrightarrow> f z = Some y \<Longrightarrow> P) \<Longrightarrow> P"
  by (cases x) auto

section \<open>Single siblings\<close>

lemma emit_simps [simp]:
  "ct_ospf6 (emit es c) = ct_ospf6 c" "ct_bgp (emit es c) = ct_bgp c" "ct_routing (emit es c) = ct_routing c"
  "ct_num_sibs (emit es c) = ct_num_sibs c" "ct_voter (emit es c) = ct_voter c" "ct_leader (emit es c) = ct_leader c"
  "ct_ports (emit es c) = ct_ports c" "ct_full (emit es c) = ct_full c" "ct_out (emit es c) = ct_out c @ es" "get_sib r (emit es c) = get_sib r c"
  by (cases r; simp add: emit_def)+

lemma put_sib_simps [simp]:
  "ct_routing (put_sib r s c) = ct_routing c" "ct_num_sibs (put_sib r s c) = ct_num_sibs c"
  "ct_voter (put_sib r s c) = ct_voter c" "ct_leader (put_sib r s c) = ct_leader c" "ct_ports (put_sib r s c) = ct_ports c"
  "ct_out (put_sib r s c) = ct_out c" "ct_rib (put_sib r s c) = ct_rib c"
  "length (ct_ospf6 (put_sib r s c)) = length (ct_ospf6 c)" "length (ct_bgp (put_sib r s c)) = length (ct_bgp c)"
  by (cases r; simp)+

lemma get_sib_routing [simp]: "get_sib r (c\<lparr>ct_routing := k\<rparr>) = get_sib r c"
  by (cases r) auto

lemma get_put_sib: "get_sib r c = Some s \<Longrightarrow> get_sib r (put_sib r s' c) = Some s'"
  by (cases r) (auto simp: rd_def split: if_splits)

lemma upd_sib_Some: "upd_sib r f c = Some c' \<longleftrightarrow> (\<exists>s. get_sib r c = Some s \<and> c' = put_sib r (f s) c)"
  by (auto simp: upd_sib_def split: bind_splits)

lemma all_sibs_get: "all_sibs P c \<Longrightarrow> get_sib r c = Some s \<Longrightarrow> P s"
  by (cases r) (auto simp: all_sibs_def rd_def split: if_splits)

lemma all_sibs_put: "all_sibs P c \<Longrightarrow> P s \<Longrightarrow> all_sibs P (put_sib r s c)"
  by (cases r) (auto simp: all_sibs_def dest!: set_update_subset_insert [THEN subsetD])

lemma routing_count_update:
  assumes "i < length ss"
  shows "routing_count (ss[i := s]) =
    routing_count ss + of_bool (sr_state s = SIB_ROUTING) - of_bool (sr_state (ss ! i) = SIB_ROUTING)"
proof -
  have split: "ss = take i ss @ ss ! i # drop (Suc i) ss" by (rule id_take_nth_drop [OF assms])
  have upd: "ss[i := s] = take i ss @ s # drop (Suc i) ss" by (rule upd_conv_take_nth_drop [OF assms])
  show ?thesis
    unfolding upd using arg_cong [OF split, of routing_count] by (simp add: routing_count_def)
qed

lemma rcount_put:
  assumes "get_sib r c = Some s"
  shows "rcount (put_sib r s' c) = rcount c + of_bool (sr_state s' = SIB_ROUTING) - of_bool (sr_state s = SIB_ROUTING)"
  using assms by (cases r) (auto simp: rcount_def rd_def routing_count_update split: if_splits)

lemma rcount_routing [simp]: "rcount (c\<lparr>ct_routing := k\<rparr>) = rcount c" "rcount (emit es c) = rcount c"
  by (simp_all add: rcount_def)

lemma all_sibs_simps [simp]: "all_sibs P (c\<lparr>ct_routing := k\<rparr>) = all_sibs P c" "all_sibs P (emit es c) = all_sibs P c"
  by (simp_all add: all_sibs_def)

text \<open>An update that keeps the state and leaves the sibling in order keeps the invariant.\<close>

lemma ctrl_inv_put:
  assumes "ctrl_inv c" and "get_sib r c = Some s" and "sib_ok s'" and "sr_state s' = sr_state s"
  shows "ctrl_inv (put_sib r s' c)"
  using assms by (auto simp: ctrl_inv_def all_sibs_put rcount_put)

lemma ctrl_inv_upd:
  assumes "ctrl_inv c" and "upd_sib r f c = Some c'"
    and "\<And>s. sib_ok s \<Longrightarrow> sib_ok (f s) \<and> sr_state (f s) = sr_state s"
  shows "ctrl_inv c'"
proof -
  from assms(2) obtain s where s: "get_sib r c = Some s" "c' = put_sib r (f s) c" by (auto simp: upd_sib_Some)
  have "sib_ok s" using assms(1) all_sibs_get s(1) by (auto simp: ctrl_inv_def)
  with assms s show ?thesis by (auto intro: ctrl_inv_put)
qed

lemma ctrl_inv_emit [simp]: "ctrl_inv (emit es c) = ctrl_inv c"
  by (simp add: ctrl_inv_def)

lemma ctrl_inv_leader [simp]: "ctrl_inv (c\<lparr>ct_leader := l\<rparr>) = ctrl_inv c" "ctrl_inv (c\<lparr>ct_rib := V\<rparr>) = ctrl_inv c"
  "ctrl_inv (c\<lparr>ct_ports := ps\<rparr>) = ctrl_inv c"
  by (simp_all add: ctrl_inv_def all_sibs_def rcount_def)

section \<open>State transitions\<close>

lemma send_leader_elect_emits:
  "sib_router_send_leader_elect c = Some c' \<Longrightarrow> \<exists>es. c' = emit es c"
  by (auto simp: sib_router_send_leader_elect_def split: bind_splits)

lemma emit_Nil [simp]: "emit [] c = c"
  by (simp add: emit_def)

lemma emit_emit [simp]: "emit es' (emit es c) = emit (es @ es') c"
  by (simp add: emit_def)

lemma emit_ospf6 [simp]: "(emit es c)\<lparr>ct_ospf6 := ss\<rparr> = emit es (c\<lparr>ct_ospf6 := ss\<rparr>)"
  by (simp add: emit_def)

lemma maybe_elect_emits:
  "(if b then sib_router_send_leader_elect c else Some c) = Some c' \<Longrightarrow> \<exists>es. c' = emit es c"
  using send_leader_elect_emits [of c c'] by (cases b) (auto intro: exI [of _ "[]"])

lemma state_transition_emits:
  assumes "state_transition r st c = Some c'"
  obtains s k es where "get_sib r c = Some s"
    and "c' = emit es (put_sib r (s\<lparr>sr_waiting := (enters (sr_state s) st \<or> sr_waiting s), sr_state := st\<rparr>) (c\<lparr>ct_routing := k\<rparr>))"
    and "k = ct_routing c + of_bool (enters (sr_state s) st) - of_bool (leaves (sr_state s) st)"
proof -
  let ?s' = "\<lambda>s. s\<lparr>sr_waiting := (enters (sr_state s) st \<or> sr_waiting s), sr_state := st\<rparr>"
  let ?k = "\<lambda>s. ct_routing c + of_bool (enters (sr_state s) st) - of_bool (leaves (sr_state s) st)"
  from assms obtain s where s: "get_sib r c = Some s" by (auto simp: state_transition_def split: bind_splits)
  let ?c = "put_sib r (?s' s) (c\<lparr>ct_routing := ?k s\<rparr>)"
  have "(if ct_routing ?c = ct_num_sibs ?c then sib_router_send_leader_elect ?c else Some ?c) = Some c'"
    using assms s by (simp add: state_transition_def Let_def)
  from maybe_elect_emits [OF this] s that show ?thesis by blast
qed

text \<open>The transitions the handlers make: into routing only from the last state of the
  handshake, out of routing only to disconnected.\<close>

definition allowed :: "sib_router_state \<Rightarrow> sib_router_state \<Rightarrow> bool" where
  "allowed old new \<longleftrightarrow> (new = SIB_ROUTING \<longrightarrow> enters old new) \<and> (old = SIB_ROUTING \<longrightarrow> new = SIB_DISCONNECTED)"

lemma state_transition_counts:
  assumes "state_transition r st c = Some c'" and "get_sib r c = Some s" and "allowed (sr_state s) st"
    and "ct_routing c = rcount c"
  shows "ct_routing c' = rcount c'"
proof -
  from state_transition_emits [OF assms(1)] obtain k es where
    c': "c' = emit es (put_sib r (s\<lparr>sr_waiting := (enters (sr_state s) st \<or> sr_waiting s), sr_state := st\<rparr>) (c\<lparr>ct_routing := k\<rparr>))"
    and k: "k = ct_routing c + of_bool (enters (sr_state s) st) - of_bool (leaves (sr_state s) st)"
    using assms(2) by (metis option.inject)
  have "rcount (put_sib r (s\<lparr>sr_waiting := (enters (sr_state s) st \<or> sr_waiting s), sr_state := st\<rparr>) (c\<lparr>ct_routing := k\<rparr>))
      = rcount c + of_bool (st = SIB_ROUTING) - of_bool (sr_state s = SIB_ROUTING)"
    using assms(2) by (simp add: rcount_put [where s = s])
  with assms(3,4) show ?thesis by (auto simp: c' k allowed_def enters_def leaves_def of_bool_def)
qed

lemma state_transition_inv:
  assumes "state_transition r st c = Some c'" and "get_sib r c = Some s" and "allowed (sr_state s) st"
    and "ctrl_inv c" and "sr_state s \<noteq> SIB_ROUTING" and "sr_state s \<noteq> SIB_DISCONNECTED" and "st \<noteq> SIB_DISCONNECTED"
  shows "ctrl_inv c'"
proof -
  from state_transition_emits [OF assms(1)] obtain k es where
    c': "c' = emit es (put_sib r (s\<lparr>sr_waiting := (enters (sr_state s) st \<or> sr_waiting s), sr_state := st\<rparr>) (c\<lparr>ct_routing := k\<rparr>))"
    using assms(2) by (metis option.inject)
  have "sib_ok s" using assms(2,4) all_sibs_get by (auto simp: ctrl_inv_def)
  then have "sib_ok (s\<lparr>sr_waiting := (enters (sr_state s) st \<or> sr_waiting s), sr_state := st\<rparr>)"
    using assms(5-7) by (auto simp: sib_ok_def enters_def)
  then have "all_sibs sib_ok c'" using assms(4) by (auto simp: c' ctrl_inv_def intro!: all_sibs_put)
  with state_transition_counts [OF assms(1-3)] assms(4) show ?thesis by (auto simp: ctrl_inv_def c')
qed


section \<open>Replies and handlers\<close>

text \<open>Operations that only send, or change the routing tables, leave the siblings alone.\<close>

definition same_sibs :: "ctrl \<Rightarrow> ctrl \<Rightarrow> bool" where
  "same_sibs c c' \<longleftrightarrow> ct_ospf6 c' = ct_ospf6 c \<and> ct_bgp c' = ct_bgp c \<and> ct_routing c' = ct_routing c"

lemma same_sibs_inv: "same_sibs c c' \<Longrightarrow> ctrl_inv c \<Longrightarrow> ctrl_inv c'"
  by (simp add: same_sibs_def ctrl_inv_def all_sibs_def rcount_def)

lemma same_sibs_get: "same_sibs c c' \<Longrightarrow> get_sib r c' = get_sib r c"
  by (cases r) (simp_all add: same_sibs_def)

lemma send_features_reply_same: "sib_router_send_features_reply r xid c = Some c' \<Longrightarrow> same_sibs c c'"
  by (auto simp: sib_router_send_features_reply_def same_sibs_def split: bind_splits if_splits)

lemma if_addr_add_same: "sib_router_if_addr_add r xid c = Some c' \<Longrightarrow> same_sibs c c'"
  by (auto simp: sib_router_if_addr_add_def same_sibs_def split: bind_splits)

lemma redistribute_same: "sib_router_redistribute r xid c = Some c' \<Longrightarrow> same_sibs c c'"
  by (auto simp: sib_router_redistribute_def same_sibs_def split: bind_splits option.splits)

lemma bump_egress_state [simp]: "sr_state (bump_egress s) = sr_state s" "sr_queue (bump_egress s) = sr_queue s"
  "sr_rconn (bump_egress s) = sr_rconn s" "sr_waiting (bump_egress s) = sr_waiting s"
  by (simp_all add: bump_egress_def)

lemma next_egress_inv:
  assumes "next_egress r c = Some c'" and "ctrl_inv c" and "get_sib r c = Some s"
  shows "ctrl_inv c' \<and> get_sib r c' = Some (bump_egress s)"
proof -
  have "ctrl_inv c'"
    by (rule ctrl_inv_upd [OF assms(2) assms(1) [unfolded next_egress_def]]) (simp add: sib_ok_def)
  then show ?thesis using assms by (auto simp: next_egress_def upd_sib_Some get_put_sib)
qed

text \<open>The three handshake handlers share this shape: advance the transaction id, reply,
  then change the state.\<close>

lemma handshake_inv:
  assumes "ctrl_inv c" and "get_sib r c = Some s" and "next_egress r c = Some c1" and "reply r xid c1 = Some c2"
    and "\<And>c c'. reply r xid c = Some c' \<Longrightarrow> same_sibs c c'" and "state_transition r st c2 = Some c3"
    and "allowed (sr_state s) st" and "sr_state s \<noteq> SIB_ROUTING" and "sr_state s \<noteq> SIB_DISCONNECTED" and "st \<noteq> SIB_DISCONNECTED"
  shows "ctrl_inv c3"
proof -
  have 1: "ctrl_inv c1" "get_sib r c1 = Some (bump_egress s)" using next_egress_inv [OF assms(3,1,2)] by auto
  have 2: "ctrl_inv c2" "get_sib r c2 = Some (bump_egress s)"
    using 1 assms(5) [OF assms(4)] by (auto simp: same_sibs_inv same_sibs_get)
  show ?thesis by (rule state_transition_inv [OF assms(6) 2(2) _ 2(1)]) (use assms(7-10) in simp_all)
qed

lemma allowed_steps [simp]:
  "allowed SIB_CONNECTED SIB_FEATURES_REQ_RCVD" "allowed SIB_REDISTRIBUTE_REQ_RCVD SIB_FEATURES_REDIS_REQ_RCVD"
  "allowed SIB_FEATURES_REQ_RCVD SIB_FEATURES_ADDR_REQ_RCVD" "allowed SIB_FEATURES_REDIS_REQ_RCVD SIB_ROUTING"
  "allowed SIB_CONNECTED SIB_REDISTRIBUTE_REQ_RCVD" "allowed SIB_FEATURES_REQ_RCVD SIB_FEATURES_REDIS_REQ_RCVD"
  "allowed SIB_FEATURES_ADDR_REQ_RCVD SIB_ROUTING" "allowed SIB_CONNECTING SIB_CONNECTED"
  "allowed SIB_DISCONNECTED SIB_CONNECTING" "allowed st SIB_DISCONNECTED"
  by (simp_all add: allowed_def enters_def)

lemma process_features_request_inv:
  assumes "process_features_request r xid c = Some c'" and "ctrl_inv c"
  shows "ctrl_inv c'"
proof -
  from assms(1) obtain s where s: "get_sib r c = Some s" by (auto simp: process_features_request_def split: bind_splits)
  note H = handshake_inv [where reply = sib_router_send_features_reply, OF assms(2) s _ _ send_features_reply_same]
  show ?thesis using assms s by (auto simp: process_features_request_def split: bind_splits if_splits intro: H)
qed

lemma process_redistribute_request_inv:
  assumes "process_redistribute_request r xid c = Some c'" and "ctrl_inv c"
  shows "ctrl_inv c'"
proof -
  from assms(1) obtain s where s: "get_sib r c = Some s" by (auto simp: process_redistribute_request_def split: bind_splits)
  note H = handshake_inv [where reply = sib_router_redistribute, OF assms(2) s _ _ redistribute_same]
  show ?thesis using assms s by (auto simp: process_redistribute_request_def split: bind_splits if_splits intro: H)
qed

lemma process_if_address_req_inv:
  assumes "process_if_address_req r xid c = Some c'" and "ctrl_inv c"
  shows "ctrl_inv c'"
proof -
  from assms(1) obtain s where s: "get_sib r c = Some s" by (auto simp: process_if_address_req_def split: bind_splits)
  note H = handshake_inv [where reply = sib_router_if_addr_add, OF assms(2) s _ _ if_addr_add_same]
  have N: "ctrl_inv c2" if "next_egress r c = Some c1" "sib_router_if_addr_add r xid c1 = Some c2" for c1 c2
    using next_egress_inv [OF that(1) assms(2) s] if_addr_add_same [OF that(2)] by (auto intro: same_sibs_inv)
  show ?thesis using assms s by (auto simp: process_if_address_req_def split: bind_splits if_splits intro: H N)
qed

section \<open>Queues and votes\<close>

lemma map_sibs_inv:
  assumes "ctrl_inv c" and "\<And>s. sib_ok s \<Longrightarrow> sib_ok (f s)" and "\<And>s. sr_state (f s) = sr_state s"
  shows "ctrl_inv (c\<lparr>ct_ospf6 := map f (ct_ospf6 c)\<rparr>)"
  using assms by (auto simp: ctrl_inv_def all_sibs_def rcount_def routing_count_def filter_map comp_def)

lemma store_egress_emits: "store_egress c = Some c' \<Longrightarrow> \<exists>es. c' = emit es c"
  by (auto simp: store_egress_def split: option.splits bind_splits if_splits intro: exI [of _ "[]"])

lemma vote_majority_inv:
  assumes "vote_majority c = Some c'" and "ctrl_inv c"
  shows "ctrl_inv c'"
proof -
  let ?f = "\<lambda>s. bump_egress (pop_queue s)"
  have "ctrl_inv (c\<lparr>ct_ospf6 := map ?f (ct_ospf6 c)\<rparr>)"
    by (rule map_sibs_inv [OF assms(2)]) (auto simp: sib_ok_def pop_queue_def)
  moreover have "c' = c \<or> (\<exists>es. c' = emit es (c\<lparr>ct_ospf6 := map ?f (ct_ospf6 c)\<rparr>))"
    using assms(1) by (auto simp: vote_majority_def Let_def comp_def split: bind_splits if_splits dest!: store_egress_emits) blast
  ultimately show ?thesis using assms(2) by auto
qed

lemma append_msg_inv:
  assumes "append_msg_to_rcvd_queue r m c = Some c'" and "ctrl_inv c" and "get_sib r c = Some s" and "sr_state s \<noteq> SIB_DISCONNECTED"
  shows "ctrl_inv c'"
proof -
  have "sib_ok s" using assms(2,3) all_sibs_get by (auto simp: ctrl_inv_def)
  with assms show ?thesis
    by (auto simp: append_msg_to_rcvd_queue_def upd_sib_Some sib_ok_def intro!: ctrl_inv_put)
qed

lemma process_egress_msg_inv:
  assumes "process_egress_msg r xid m c = Some c'" and "ctrl_inv c" and "get_sib r c = Some s" and "sr_state s \<noteq> SIB_DISCONNECTED"
  shows "ctrl_inv c'"
  using assms append_msg_inv [OF _ assms(2-4)]
  by (auto simp: process_egress_msg_def split: bind_splits if_splits intro: vote_majority_inv)

lemma leader_egress_inv:
  assumes "leader_egress r c = Some c'" and "ctrl_inv c" and "get_sib r c = Some s"
  shows "ctrl_inv c' \<and> (\<exists>s'. get_sib r c' = Some s' \<and> sr_state s' = sr_state s)"
proof -
  have U: "ctrl_inv c2 \<and> (\<exists>s'. get_sib r c2 = Some s' \<and> sr_state s' = sr_state s)"
    if "upd_sib r f c1 = Some c2" "ctrl_inv c1" "\<exists>s1. get_sib r c1 = Some s1 \<and> sr_state s1 = sr_state s"
      and f: "\<And>s. sib_ok s \<Longrightarrow> sib_ok (f s)" "\<And>s. sr_state (f s) = sr_state s" for f c1 c2
  proof -
    have "ctrl_inv c2" by (rule ctrl_inv_upd [OF that(2,1)]) (simp add: f)
    with that(1,3) f(2) show ?thesis by (auto simp: upd_sib_Some get_put_sib)
  qed
  have "c' = c \<or> upd_sib r (\<lambda>s. s\<lparr>sr_waiting := False\<rparr>) c = Some c'
      \<or> (\<exists>c1 x. upd_sib r (\<lambda>s. s\<lparr>sr_egress_xid := x\<rparr>) c = Some c1 \<and> upd_sib r (\<lambda>s. s\<lparr>sr_waiting := False\<rparr>) c1 = Some c')"
    using assms(1,3) unfolding leader_egress_def
    by (cases "sr_waiting s"; cases "sr_is_leader s"; cases "ct_leader c") (simp; blast elim!: bind_SomeD)+
  then consider "c' = c" | "upd_sib r (\<lambda>s. s\<lparr>sr_waiting := False\<rparr>) c = Some c'"
    | c1 x where "upd_sib r (\<lambda>s. s\<lparr>sr_egress_xid := x\<rparr>) c = Some c1" "upd_sib r (\<lambda>s. s\<lparr>sr_waiting := False\<rparr>) c1 = Some c'"
    by blast
  then show ?thesis
  proof cases
    case 1
    with assms show ?thesis by auto
  next
    case 2
    then show ?thesis using assms by (intro U [OF 2]) (auto simp: sib_ok_def)
  next
    case 3
    have "ctrl_inv c1 \<and> (\<exists>s'. get_sib r c1 = Some s' \<and> sr_state s' = sr_state s)"
      using assms by (intro U [OF 3(1)]) (auto simp: sib_ok_def)
    then show ?thesis by (intro U [OF 3(2)]) (auto simp: sib_ok_def)
  qed
qed

lemma process_forward_ospf6_inv:
  assumes "process_forward_ospf6 r xid m c = Some c'" and "ctrl_inv c" and "get_sib r c = Some s" and "sr_state s \<noteq> SIB_DISCONNECTED"
  shows "ctrl_inv c'"
proof -
  from assms(1) obtain c1 where c1: "leader_egress r c = Some c1" "process_egress_msg r xid m c1 = Some c'"
    by (auto simp: process_forward_ospf6_def split: bind_splits if_splits)
  from leader_egress_inv [OF c1(1) assms(2,3)] obtain s1 where
    "ctrl_inv c1" "get_sib r c1 = Some s1" "sr_state s1 = sr_state s" by blast
  with process_egress_msg_inv [OF c1(2)] assms(4) show ?thesis by auto
qed

lemma process_leader_elect_inv:
  assumes "process_leader_elect r m c = Some c'" and "ctrl_inv c"
  shows "ctrl_inv c'"
proof -
  from assms(1) obtain b c1 where c1: "upd_sib r (\<lambda>s. s\<lparr>sr_is_leader := (b = (1 :: u8))\<rparr>) c = Some c1"
      "c' = (if b = 1 then c1\<lparr>ct_leader := Some r\<rparr> else c1)"
    by (auto simp: process_leader_elect_def Let_def split: bind_splits if_splits)
  have "ctrl_inv c1" by (rule ctrl_inv_upd [OF assms(2) c1(1)]) (simp add: sib_ok_def)
  with c1(2) show ?thesis by simp
qed

lemma process_ack_inv:
  assumes "process_ack r xid c = Some c'" and "ctrl_inv c"
  shows "ctrl_inv c'"
proof -
  have "c' = c \<or> upd_sib r (\<lambda>s. s\<lparr>sr_ingress_ack := True\<rparr>) c = Some c'"
    using assms(1) by (auto simp: process_ack_def split: bind_splits if_splits)
  then show ?thesis
  proof
    assume u: "upd_sib r (\<lambda>s. s\<lparr>sr_ingress_ack := True\<rparr>) c = Some c'"
    show ?thesis by (rule ctrl_inv_upd [OF assms(2) u]) (simp add: sib_ok_def)
  qed (use assms in simp)
qed

lemmas handler_inv = process_features_request_inv process_if_address_req_inv process_redistribute_request_inv
  process_leader_elect_inv process_ack_inv

lemma process_packet_inv:
  assumes "sib_router_process_packet r m c = Some c'" and "ctrl_inv c" and "get_sib r c = Some s" and "sr_state s \<noteq> SIB_DISCONNECTED"
  shows "ctrl_inv c'"
proof -
  from assms(1) obtain type xid where "rh_type m = Some type" "rh_xid m = Some xid"
    by (cases "rh_type m"; cases "rh_xid m") (simp_all add: sib_router_process_packet_def)
  with assms(1) have
    "(if type = RFPT_FEATURES_REQUEST then process_features_request r xid c
      else if type = RFPT_IF_ADDRESS_REQ then process_if_address_req r xid c
      else if type = RFPT_REDISTRIBUTE_REQUEST then process_redistribute_request r xid c
      else if type = RFPT_IPV6_ROUTE_SET_REQUEST then process_egress_msg r xid m c
      else if type = RFPT_FORWARD_OSPF6 then process_forward_ospf6 r xid m c
      else if type = RFPT_FORWARD_BGP then Some (process_forward_bgp m c)
      else if type = RFPT_ACK then process_ack r xid c
      else if type = RFPT_REDISTRIBUTE_LEADER_ELECT then process_leader_elect r m c
      else Some c) = Some c'"
    by (simp add: sib_router_process_packet_def)
  then show ?thesis
    using handler_inv [OF _ assms(2)] process_egress_msg_inv [OF _ assms(2-4)] process_forward_ospf6_inv [OF _ assms(2-4)] assms(2)
    by (simp add: process_forward_bgp_def split: if_splits) auto
qed

text \<open>No message disconnects a sibling.\<close>

definition alive_at :: "sref \<Rightarrow> ctrl \<Rightarrow> bool" where
  "alive_at r c \<longleftrightarrow> (\<exists>s. get_sib r c = Some s \<and> sr_rconn s \<noteq> None)"

lemma alive_at_inv: "ctrl_inv c \<Longrightarrow> alive_at r c \<longleftrightarrow> (\<exists>s. get_sib r c = Some s \<and> sr_state s \<noteq> SIB_DISCONNECTED)"
  using all_sibs_get [of sib_ok c r] by (auto simp: alive_at_def ctrl_inv_def sib_ok_def)

lemma get_put_other: "get_sib r c = Some s \<Longrightarrow> get_sib r (put_sib q s' c) = Some (if r = q then s' else s)"
  by (cases r; cases q) (auto simp: rd_def split: if_splits)

lemma alive_at_put:
  assumes "alive_at r c" and "get_sib q c = Some s" and "sr_rconn s' = sr_rconn s"
  shows "alive_at r (put_sib q s' c)"
proof -
  from assms(1) obtain s1 where s1: "get_sib r c = Some s1" "sr_rconn s1 \<noteq> None" by (auto simp: alive_at_def)
  from get_put_other [OF s1(1), of q s'] s1 assms(2,3) show ?thesis by (cases "r = q") (simp_all add: alive_at_def)
qed

lemma alive_at_emit [simp]: "alive_at r (emit es c) = alive_at r c" "alive_at r (c\<lparr>ct_routing := k\<rparr>) = alive_at r c"
  "alive_at r (c\<lparr>ct_leader := l\<rparr>) = alive_at r c"
  by (cases r; simp add: alive_at_def)+

lemma alive_at_upd:
  "upd_sib q f c = Some c' \<Longrightarrow> alive_at r c \<Longrightarrow> (\<And>s. sr_rconn (f s) = sr_rconn s) \<Longrightarrow> alive_at r c'"
  by (auto simp: upd_sib_Some intro: alive_at_put)

lemma alive_at_transition: "state_transition q st c = Some c' \<Longrightarrow> alive_at r c \<Longrightarrow> alive_at r c'"
  by (erule state_transition_emits) (simp add: alive_at_put)

lemma same_sibs_alive: "same_sibs c c' \<Longrightarrow> alive_at r c' = alive_at r c"
  by (simp add: alive_at_def same_sibs_get)

lemma alive_at_map:
  assumes "alive_at r c" and "\<And>s. sr_rconn (f s) = sr_rconn s"
  shows "alive_at r (c\<lparr>ct_ospf6 := map f (ct_ospf6 c)\<rparr>)"
  using assms by (cases r) (auto simp: alive_at_def rd_def split: if_splits)

lemma alive_at_vote: "vote_majority c = Some c' \<Longrightarrow> alive_at r c \<Longrightarrow> alive_at r c'"
proof -
  let ?c = "c\<lparr>ct_ospf6 := map (\<lambda>s. bump_egress (pop_queue s)) (ct_ospf6 c)\<rparr>"
  assume "vote_majority c = Some c'" and a: "alive_at r c"
  then have "c' = c \<or> (\<exists>es. c' = emit es ?c)"
    by (auto simp: vote_majority_def Let_def comp_def split: bind_splits if_splits dest!: store_egress_emits) blast
  moreover have "alive_at r ?c" by (rule alive_at_map [OF a]) (simp add: pop_queue_def)
  ultimately show ?thesis using a by auto
qed

lemma alive_at_append: "append_msg_to_rcvd_queue q m c = Some c' \<Longrightarrow> alive_at r c \<Longrightarrow> alive_at r c'"
  unfolding append_msg_to_rcvd_queue_def by (erule alive_at_upd) simp_all

lemma alive_at_next: "next_egress q c = Some c' \<Longrightarrow> alive_at r c \<Longrightarrow> alive_at r c'"
  unfolding next_egress_def by (erule alive_at_upd) simp_all

lemmas alive_steps = alive_at_next alive_at_append alive_at_vote alive_at_transition
  send_features_reply_same [THEN same_sibs_alive, THEN iffD2] if_addr_add_same [THEN same_sibs_alive, THEN iffD2]
  redistribute_same [THEN same_sibs_alive, THEN iffD2]

lemma alive_at_handshake:
  "process_features_request q xid c = Some c' \<Longrightarrow> alive_at r c \<Longrightarrow> alive_at r c'"
  "process_if_address_req q xid c = Some c' \<Longrightarrow> alive_at r c \<Longrightarrow> alive_at r c'"
  "process_redistribute_request q xid c = Some c' \<Longrightarrow> alive_at r c \<Longrightarrow> alive_at r c'"
  "process_egress_msg q xid m c = Some c' \<Longrightarrow> alive_at r c \<Longrightarrow> alive_at r c'"
  by (auto simp: process_features_request_def process_if_address_req_def process_redistribute_request_def
      process_egress_msg_def split: bind_splits if_splits dest!: alive_steps)

lemma alive_at_process:
  assumes "sib_router_process_packet q m c = Some c'" and "alive_at r c"
  shows "alive_at r c'"
proof -
  have ack: "alive_at r c'" if "process_ack q xid c = Some c'" for xid
    using that assms(2) by (auto simp: process_ack_def split: bind_splits if_splits elim: alive_at_upd)
  have elect: "alive_at r c'" if "process_leader_elect q m c = Some c'"
    using that assms(2)
    by (auto simp: process_leader_elect_def Let_def split: bind_splits if_splits elim!: alive_at_upd)
  have lead: "alive_at r c1" if "leader_egress q c = Some c1" for c1
    using that assms(2)
    by (auto simp: leader_egress_def split: bind_splits if_splits option.splits elim!: alive_at_upd)
  have ospf6: "alive_at r c'" if "process_forward_ospf6 q xid m c = Some c'" for xid
    using that lead by (auto simp: process_forward_ospf6_def split: bind_splits if_splits intro: alive_at_handshake)
  from assms(1) obtain type xid where "rh_type m = Some type" "rh_xid m = Some xid"
    by (cases "rh_type m"; cases "rh_xid m") (simp_all add: sib_router_process_packet_def)
  with assms alive_at_handshake [where r = r and c = c and c' = c'] ack elect ospf6 show ?thesis
    by (simp add: sib_router_process_packet_def process_forward_bgp_def split: if_splits) auto
qed

lemma process_packets_inv:
  "process_packets r ms c = Some c' \<Longrightarrow> ctrl_inv c \<Longrightarrow> alive_at r c \<Longrightarrow> ctrl_inv c' \<and> alive_at r c'"
proof (induction ms arbitrary: c)
  case (Cons m ms)
  from Cons.prems(1) obtain c1 where c1: "sib_router_process_packet r m c = Some c1" "process_packets r ms c1 = Some c'"
    by (auto split: bind_splits)
  from Cons.prems(2,3) obtain s where "get_sib r c = Some s" "sr_state s \<noteq> SIB_DISCONNECTED" by (auto simp: alive_at_inv)
  with process_packet_inv [OF c1(1) Cons.prems(2)] alive_at_process [OF c1(1) Cons.prems(3)] Cons.IH [OF c1(2)]
  show ?case by blast
qed simp

section \<open>Connections\<close>

lemma sib_router_destroy_inv:
  assumes "sib_router_destroy r c = Some c'" and "ctrl_inv c"
  shows "ctrl_inv c'"
proof -
  let ?f = "\<lambda>s. s\<lparr>sr_waiting := False, sr_queue := [], sr_rconn := None\<rparr>"
  from assms(1) obtain c1 where c1: "state_transition r SIB_DISCONNECTED c = Some c1" "upd_sib r ?f c1 = Some c'"
    by (auto simp: sib_router_destroy_def split: bind_splits)
  from state_transition_emits [OF c1(1)] obtain s k es where s: "get_sib r c = Some s"
    and e: "c1 = emit es (put_sib r (s\<lparr>sr_waiting := (enters (sr_state s) SIB_DISCONNECTED \<or> sr_waiting s), sr_state := SIB_DISCONNECTED\<rparr>)
        (c\<lparr>ct_routing := k\<rparr>))" by blast
  have r1: "ct_routing c1 = rcount c1"
    using state_transition_counts [OF c1(1) s] assms(2) by (simp add: ctrl_inv_def)
  from c1(2) obtain s1 where s1: "get_sib r c1 = Some s1" "c' = put_sib r (?f s1) c1" by (auto simp: upd_sib_Some)
  have "sr_state s1 = SIB_DISCONNECTED" using s1(1) s by (auto simp: e get_put_sib)
  then have "sib_ok (?f s1)" "ct_routing c' = rcount c'" using r1 s1 by (auto simp: sib_ok_def rcount_put)
  moreover have "all_sibs sib_ok c'"
  proof -
    have "c' = emit es (put_sib r (?f s1) (c\<lparr>ct_routing := k\<rparr>))"
      unfolding s1(2) e by (cases r) (simp_all add: emit_def)
    then show ?thesis using assms(2) \<open>sib_ok (?f s1)\<close> by (auto simp: ctrl_inv_def intro!: all_sibs_put)
  qed
  ultimately show ?thesis using assms(2) s1(2) by (auto simp: ctrl_inv_def e)
qed

lemma sib_router_run_inv:
  assumes "sib_router_run r msgs alive c = Some c'" and "ctrl_inv c"
  shows "ctrl_inv c'"
proof -
  from assms(1) obtain s where s: "get_sib r c = Some s" "sr_rconn s \<noteq> None"
    by (auto simp: sib_router_run_def split: bind_splits)
  then have a: "alive_at r c" by (auto simp: alive_at_def)
  show ?thesis
  proof (cases "sr_state s = SIB_CONNECTING")
    case True
    with assms(1) s have "state_transition r SIB_CONNECTED c = Some c'" by (auto simp: sib_router_run_def)
    then show ?thesis by (rule state_transition_inv [OF _ s(1) _ assms(2)]) (simp_all add: True)
  next
    case False
    with assms(1) s obtain c1 where c1: "process_packets r (take 50 msgs) c = Some c1"
      "(if alive then Some c1 else sib_router_destroy r c1) = Some c'"
      by (auto simp: sib_router_run_def split: bind_splits)
    with process_packets_inv [OF c1(1) assms(2) a] sib_router_destroy_inv show ?thesis by (auto split: if_splits)
  qed
qed

lemma sib_ok_fresh [simp]: "sib_ok (fresh_sib conn)"
  by (simp add: sib_ok_def fresh_sib_def)

lemma routing_count_append [simp]: "routing_count (ss @ [fresh_sib conn]) = routing_count ss"
  by (simp add: routing_count_def fresh_sib_def)

lemma new_sib_router_ospf6_inv: "new_sib_router_ospf6 conn c = Some c' \<Longrightarrow> ctrl_inv c \<Longrightarrow> ctrl_inv c'"
  by (auto simp: new_sib_router_ospf6_def ctrl_inv_def all_sibs_def rcount_def split: if_splits)

lemma new_sib_router_bgp_inv:
  assumes "new_sib_router_bgp conn c = Some c'" and "ctrl_inv c"
  shows "ctrl_inv c'"
proof -
  from assms(1) obtain c1 where c1: "(if ct_routing c = ct_num_sibs c then sib_router_send_leader_elect c else Some c) = Some c1"
      "c' = c1\<lparr>ct_bgp := ct_bgp c1 @ [fresh_sib conn]\<rparr>" and len: "length (ct_bgp c) < MAX_BGP_SIBLINGS"
    unfolding new_sib_router_bgp_def by (simp add: bind_eq_Some_conv split: if_split_asm) blast+
  from maybe_elect_emits [OF c1(1)] obtain es where "c1 = emit es c" by blast
  with assms(2) c1(2) len show ?thesis by (auto simp: ctrl_inv_def all_sibs_def rcount_def)
qed

lemma find_disconnected_Some:
  "find_disconnected ss i = Some k \<Longrightarrow> i \<le> k \<and> k < i + length ss \<and> sr_state (ss ! (k - i)) = SIB_DISCONNECTED"
proof (induction ss arbitrary: i)
  case (Cons s ss)
  show ?case
  proof (cases "sr_state s = SIB_DISCONNECTED")
    case False
    with Cons.prems Cons.IH [of "Suc i"] show ?thesis by (auto simp: nth_Cons')
  qed (use Cons.prems in simp)
qed simp

lemma reuse_sib_router_inv:
  assumes "reuse_sib_router i conn c = Some c'" and "ctrl_inv c" and "find_disconnected (ct_ospf6 c) 0 = Some i"
  shows "ctrl_inv c'"
proof -
  let ?g = "\<lambda>s. s\<lparr>sr_queue := [], sr_egress_xid := 0, sr_waiting := False, sr_ingress_xid := 0, sr_ack_timeout := 5\<rparr>"
  from find_disconnected_Some [OF assms(3)] have d: "i < length (ct_ospf6 c)" "sr_state (ct_ospf6 c ! i) = SIB_DISCONNECTED" by auto
  from assms(1) obtain c1 c2 where c12: "upd_sib (Ospf6 i) (\<lambda>s. s\<lparr>sr_rconn := Some conn\<rparr>) c = Some c1"
    "state_transition (Ospf6 i) SIB_CONNECTING c1 = Some c2" "upd_sib (Ospf6 i) ?g c2 = Some c'"
    unfolding reuse_sib_router_def by (auto simp: bind_eq_Some_conv)
  from c12(1) obtain s1 where s1: "get_sib (Ospf6 i) c = Some s1" "c1 = put_sib (Ospf6 i) (s1\<lparr>sr_rconn := Some conn\<rparr>) c"
    by (auto simp: upd_sib_Some)
  with d have st: "sr_state s1 = SIB_DISCONNECTED" by (auto simp: rd_def)
  have g1: "get_sib (Ospf6 i) c1 = Some (s1\<lparr>sr_rconn := Some conn\<rparr>)" using s1 get_put_sib by blast
  have r1: "ct_routing c1 = rcount c1" using assms(2) rcount_put [OF s1(1)] by (simp add: s1(2) ctrl_inv_def)
  have r2: "ct_routing c2 = rcount c2" by (rule state_transition_counts [OF c12(2) g1 _ r1]) (simp add: st)
  from state_transition_emits [OF c12(2)] obtain s k es where s: "get_sib (Ospf6 i) c1 = Some s"
    and "c2 = emit es (put_sib (Ospf6 i) (s\<lparr>sr_waiting := (enters (sr_state s) SIB_CONNECTING \<or> sr_waiting s), sr_state := SIB_CONNECTING\<rparr>)
        (c1\<lparr>ct_routing := k\<rparr>))" by blast
  then have e: "c2 = emit es (put_sib (Ospf6 i) (s1\<lparr>sr_rconn := Some conn, sr_state := SIB_CONNECTING\<rparr>) (c1\<lparr>ct_routing := k\<rparr>))"
    using g1 by (simp add: enters_def)
  let ?s2 = "?g (s1\<lparr>sr_rconn := Some conn, sr_state := SIB_CONNECTING\<rparr>)"
  have c': "c' = put_sib (Ospf6 i) ?s2 c2"
    using c12(3) g1 get_put_sib [of "Ospf6 i" "c1\<lparr>ct_routing := k\<rparr>" "s1\<lparr>sr_rconn := Some conn\<rparr>"] by (auto simp: upd_sib_Some e)
  have g2: "get_sib (Ospf6 i) c2 = Some (s1\<lparr>sr_rconn := Some conn, sr_state := SIB_CONNECTING\<rparr>)"
    using g1 by (simp add: e get_put_sib [where s = "s1\<lparr>sr_rconn := Some conn\<rparr>"] del: get_sib.simps put_sib.simps)
  have "ct_ospf6 c' = (ct_ospf6 c)[i := ?s2]" "ct_bgp c' = ct_bgp c" by (simp_all add: c' e s1(2))
  moreover have "sib_ok ?s2" by (simp add: sib_ok_def)
  moreover have "ct_routing c' = rcount c'" using r2 rcount_put [OF g2, of ?s2] by (simp add: c' del: put_sib.simps)
  ultimately show ?thesis
    using assms(2) by (auto simp: ctrl_inv_def all_sibs_def dest!: set_update_subset_insert [THEN subsetD])
qed

lemma sib_listener_accept_inv:
  "sib_listener_accept ospf6 conn c = Some c' \<Longrightarrow> ctrl_inv c \<Longrightarrow> ctrl_inv c'"
  by (auto simp: sib_listener_accept_def accept_ospf6_def split: if_splits option.splits
      intro: new_sib_router_ospf6_inv new_sib_router_bgp_inv reuse_sib_router_inv)

lemma forward_to_sibs_shape:
  "forward_to_sibs m xid ss = Some (es, ss') \<Longrightarrow>
   ss' = map (\<lambda>s. if sr_state s = SIB_ROUTING then s\<lparr>sr_ingress_xid := xid, sr_ingress_ack := False\<rparr> else s) ss
   \<and> es = map (\<lambda>s. SendMsg (the (sr_rconn s)) m) (filter (\<lambda>s. sr_state s = SIB_ROUTING) ss)"
  by (induction ss arbitrary: es ss') (auto simp: forward_to_sib_def split: bind_splits if_splits)

lemma forward_to_sibs_total:
  "\<forall>s\<in>set ss. sib_ok s \<Longrightarrow> \<exists>es ss'. forward_to_sibs m xid ss = Some (es, ss')"
  by (induction ss) (auto simp: forward_to_sib_def sib_ok_def)

lemma sib_router_forward_ospf6_inv:
  assumes "sib_router_forward_ospf6 m xid c = Some c'" and "ctrl_inv c"
  shows "ctrl_inv c'"
proof -
  let ?f = "\<lambda>s. if sr_state s = SIB_ROUTING then s\<lparr>sr_ingress_xid := xid, sr_ingress_ack := False\<rparr> else s"
  from assms(1) obtain es where "c' = emit es (c\<lparr>ct_ospf6 := map ?f (ct_ospf6 c)\<rparr>)"
    by (auto simp: sib_router_forward_ospf6_def split: bind_splits dest!: forward_to_sibs_shape)
  moreover have "ctrl_inv (c\<lparr>ct_ospf6 := map ?f (ct_ospf6 c)\<rparr>)"
    by (rule map_sibs_inv [OF assms(2)]) (simp_all add: sib_ok_def)
  ultimately show ?thesis by simp
qed

lemma sib_router_forward_bgp_same: "sib_router_forward_bgp m c = Some c' \<Longrightarrow> same_sibs c c'"
  by (auto simp: sib_router_forward_bgp_def same_sibs_def split: bind_splits)

section \<open>Reachable states\<close>

text \<open>
  What can happen to the module: a connection is accepted, the thread of a sibling runs, a
  router's message is forwarded, and the routers and the routing tables, which other parts
  of the controller own, change.
\<close>

inductive ctrl_step :: "ctrl \<Rightarrow> ctrl \<Rightarrow> bool" where
  accept: "sib_listener_accept ospf6 conn c = Some c' \<Longrightarrow> ctrl_step c c'"
| run: "sib_router_run r msgs alive c = Some c' \<Longrightarrow> ctrl_step c c'"
| forward_ospf6: "sib_router_forward_ospf6 m xid c = Some c' \<Longrightarrow> ctrl_step c c'"
| forward_bgp: "sib_router_forward_bgp m c = Some c' \<Longrightarrow> ctrl_step c c'"
| environment: "ctrl_step c (c\<lparr>ct_ports := ps, ct_rib := V\<rparr>)"

inductive ctrl_reachable :: "int \<Rightarrow> int \<Rightarrow> ctrl \<Rightarrow> bool" for num_sibs voter where
  init: "ctrl_reachable num_sibs voter (sib_router_init routers num_sibs voter V full)"
| step: "ctrl_reachable num_sibs voter c \<Longrightarrow> ctrl_step c c' \<Longrightarrow> ctrl_reachable num_sibs voter c'"

lemma ctrl_step_inv: "ctrl_step c c' \<Longrightarrow> ctrl_inv c \<Longrightarrow> ctrl_inv c'"
proof (induction rule: ctrl_step.induct)
  case (environment c ps V)
  then show ?case by (simp add: ctrl_inv_def all_sibs_def rcount_def)
qed (auto intro: sib_listener_accept_inv sib_router_run_inv sib_router_forward_ospf6_inv
    same_sibs_inv [OF sib_router_forward_bgp_same])

lemma ctrl_inv_init [simp]: "ctrl_inv (sib_router_init routers num_sibs voter V full)"
  by (simp add: sib_router_init_def ctrl_inv_def all_sibs_def rcount_def routing_count_def)

lemma ctrl_reachable_inv: "ctrl_reachable num_sibs voter c \<Longrightarrow> ctrl_inv c"
  by (induction rule: ctrl_reachable.induct) (auto intro: ctrl_step_inv)

end
