(* ===== verification/Ctrl_Sib_Vote.thy ===== *)
theory Ctrl_Sib_Vote
  imports Ctrl_Sib_Inv
begin

text \<open>
  What the voting of the controller guarantees. The interface of a majority vote is a
  locale: a decision is supported by more than half of the hosts. It is interpreted on the
  decision that \<open>vote_majority\<close> takes in a state that satisfies the invariant of the
  sibling table.
\<close>

section \<open>Majority votes\<close>

definition support :: "'v \<Rightarrow> 'v option list \<Rightarrow> nat" where
  "support v hs = length (filter (\<lambda>h. h = Some v) hs)"

lemma support_simps [simp]: "support v [] = 0" "support v (h # hs) = (if h = Some v then 1 else 0) + support v hs"
  "support v (hs @ hs') = support v hs + support v hs'"
  by (simp_all add: support_def)

lemma support_disjoint: "v \<noteq> w \<Longrightarrow> support v hs + support w hs \<le> length hs"
  by (induction hs) auto

locale majority_vote =
  fixes ballots :: "'s \<Rightarrow> 'v option list" and hosts :: "'s \<Rightarrow> int option" and decide :: "'s \<Rightarrow> 'v option" and valid :: "'s \<Rightarrow> bool"
  assumes decide_supported: "valid s \<Longrightarrow> decide s = Some v \<Longrightarrow> \<exists>m. hosts s = Some m \<and> m < 2 * int (support v (ballots s))"
begin

lemma no_rival:
  assumes "valid s" and "decide s = Some v" and "hosts s = Some m" and "int (length (ballots s)) \<le> m" and "w \<noteq> v"
  shows "2 * int (support w (ballots s)) < m"
  using decide_supported [OF assms(1,2)] support_disjoint [OF assms(5), of "ballots s"] assms(3,4) by auto

end

section \<open>The decision of the controller\<close>

definition queue_head :: "sib_router \<Rightarrow> msg option" where
  "queue_head s = (case sr_queue s of [] \<Rightarrow> None | m # _ \<Rightarrow> Some m)"

definition heads :: "ctrl \<Rightarrow> msg option list" where
  "heads c = map queue_head (ct_ospf6 c)"

definition vote_decision :: "ctrl \<Rightarrow> msg option" where
  "vote_decision c =
     do {
       (j, a) \<leftarrow> first_queued (ct_ospf6 c) 0;
       m \<leftarrow> num_hosts c;
       if over_half (count_equal a (drop (Suc j) (ct_ospf6 c)) 1) m then Some a else None
     }"

lemma first_queued_split:
  "first_queued ss j = Some (k, a) \<Longrightarrow>
   \<exists>pre s post. ss = pre @ s # post \<and> k = j + length pre \<and> (\<forall>t\<in>set pre. queue_head t = None) \<and> queue_head s = Some a"
proof (induction ss j rule: first_queued.induct)
  case (2 s ss j)
  show ?case
  proof (cases "sr_queue s")
    case Nil
    with 2 obtain pre t post where "ss = pre @ t # post" "k = Suc j + length pre" "\<forall>t\<in>set pre. queue_head t = None" "queue_head t = Some a"
      by auto
    with Nil show ?thesis
      by (intro exI [of _ "s # pre"] exI [of _ t] exI [of _ post]) (auto simp: queue_head_def)
  next
    case (Cons m ms)
    with 2 show ?thesis by (intro exI [of _ "[]"]) (auto simp: queue_head_def)
  qed
qed simp

lemma count_equal_support:
  "\<forall>s\<in>set ss. sib_ok s \<Longrightarrow> count_equal a ss n = n + int (support a (map queue_head ss))"
  by (induction ss arbitrary: n) (auto simp: queue_head_def sib_ok_def split: list.splits)

lemma support_none: "\<forall>t\<in>set ss. queue_head t = None \<Longrightarrow> support a (map queue_head ss) = 0"
  by (induction ss) auto

text \<open>The count of \<open>vote_majority\<close> is the support of the first queued message.\<close>

lemma vote_count:
  assumes "\<forall>s\<in>set (ct_ospf6 c). sib_ok s" and "first_queued (ct_ospf6 c) 0 = Some (j, a)"
  shows "count_equal a (drop (Suc j) (ct_ospf6 c)) 1 = int (support a (heads c))"
proof -
  from first_queued_split [OF assms(2)] obtain pre s post where
    "ct_ospf6 c = pre @ s # post" "j = length pre" "\<forall>t\<in>set pre. queue_head t = None" "queue_head s = Some a" by auto
  with assms(1) show ?thesis by (simp add: count_equal_support heads_def support_none)
qed

lemma over_half_twice: "over_half n m \<Longrightarrow> 0 \<le> n \<Longrightarrow> m < 2 * n"
  by (auto simp: over_half_def split: if_splits)

interpretation cv: majority_vote heads num_hosts vote_decision ctrl_inv
proof
  fix c v
  assume "ctrl_inv c" and d: "vote_decision c = Some v"
  then have ok: "\<forall>s\<in>set (ct_ospf6 c). sib_ok s" by (simp add: ctrl_inv_def all_sibs_def)
  from d obtain j m where "first_queued (ct_ospf6 c) 0 = Some (j, v)" "num_hosts c = Some m"
    "over_half (count_equal v (drop (Suc j) (ct_ospf6 c)) 1) m"
    by (auto simp: vote_decision_def split: bind_splits if_splits)
  with vote_count [OF ok] over_half_twice show "\<exists>m. num_hosts c = Some m \<and> m < 2 * int (support v (heads c))" by auto
qed

text \<open>Sends of one buffer happen all or not at all; they all happen when only the last one
  writes the whole buffer.\<close>

lemma send_shared_Some: "send_shared full k es = Some es' \<Longrightarrow> es' = es"
  by (induction full k es arbitrary: es' rule: send_shared.induct) (auto split: if_splits bind_splits)

lemma send_shared_total: "(\<And>i. Suc i < length es \<Longrightarrow> \<not> full (k + i)) \<Longrightarrow> send_shared full k es = Some es"
proof (induction full k es rule: send_shared.induct)
  case (3 full k e e' es)
  have "\<not> full k" using 3(2) [of 0] by simp
  moreover have "send_shared full (Suc k) (e' # es) = Some (e' # es)"
    by (rule 3(1)) (use \<open>\<not> full k\<close> 3(2) [of "Suc i" for i] in auto)
  ultimately show ?case by simp
qed simp_all

definition router_forwards :: "msg \<Rightarrow> ctrl \<Rightarrow> effect list" where
  "router_forwards a c = map (\<lambda>i. RouterForward i a) [0..<length (ct_ports c)]"

lemma forward_to_routers_Some: "forward_to_routers a c = Some es \<Longrightarrow> es = router_forwards a c"
  by (auto simp: forward_to_routers_def router_forwards_def dest: send_shared_Some)

lemma forward_to_routers_total:
  "(\<And>k. Suc k < length (ct_ports c) \<Longrightarrow> \<not> ct_full c (length (ct_out c) + k))
   \<Longrightarrow> forward_to_routers a c = Some (router_forwards a c)"
  unfolding forward_to_routers_def router_forwards_def by (rule send_shared_total) simp

text \<open>What a vote does, by its decision.\<close>

lemma vote_majority_decided:
  assumes "vote_majority c = Some c'"
  shows "case vote_decision c of
      None \<Rightarrow> c' = c
    | Some a \<Rightarrow> (\<exists>ds. (\<forall>d\<in>set ds. \<exists>x. d = DbSetEgressXid x)
        \<and> c' = emit (router_forwards a c @ ds) (c\<lparr>ct_ospf6 := map (\<lambda>s. bump_egress (pop_queue s)) (ct_ospf6 c)\<rparr>))"
proof -
  have store: "\<exists>ds. (\<forall>d\<in>set ds. \<exists>x. d = DbSetEgressXid x) \<and> c2 = emit ds c1" if "store_egress c1 = Some c2" for c1 c2
  proof -
    from that have "c2 = c1 \<or> (\<exists>x. c2 = emit [DbSetEgressXid x] c1)"
      by (auto simp: store_egress_def split: option.splits bind_splits if_splits)
    then show ?thesis
    proof
      assume "c2 = c1"
      then show ?thesis by (intro exI [of _ "[]"]) simp
    next
      assume "\<exists>x. c2 = emit [DbSetEgressXid x] c1"
      then obtain x where "c2 = emit [DbSetEgressXid x] c1" by blast
      then show ?thesis by (intro exI [of _ "[DbSetEgressXid x]"]) simp
    qed
  qed
  from assms obtain j a m where v: "first_queued (ct_ospf6 c) 0 = Some (j, a)" "num_hosts c = Some m"
    by (auto simp: vote_majority_def split: bind_splits)
  show ?thesis
  proof (cases "over_half (count_equal a (drop (Suc j) (ct_ospf6 c)) 1) m")
    case False
    with assms v show ?thesis by (simp add: vote_majority_def vote_decision_def)
  next
    case True
    have "forward_to_routers a (c\<lparr>ct_ospf6 := map pop_queue (ct_ospf6 c)\<rparr>) = forward_to_routers a c"
      by (simp add: forward_to_routers_def)
    with assms v True obtain es where es: "forward_to_routers a c = Some es"
      "store_egress (emit es (c\<lparr>ct_ospf6 := map (\<lambda>s. bump_egress (pop_queue s)) (ct_ospf6 c)\<rparr>)) = Some c'"
      by (auto simp: vote_majority_def Let_def comp_def split: bind_splits)
    from store [OF es(2)] obtain ds where "\<forall>d\<in>set ds. \<exists>x. d = DbSetEgressXid x"
      "c' = emit (es @ ds) (c\<lparr>ct_ospf6 := map (\<lambda>s. bump_egress (pop_queue s)) (ct_ospf6 c)\<rparr>)" by auto
    with v True forward_to_routers_Some [OF es(1)] show ?thesis by (auto simp: vote_decision_def)
  qed
qed


section \<open>Executable runs\<close>

datatype event = Accept bool nat | Run sref "msg list" bool | ForwardOspf6 msg u32

fun perform :: "event \<Rightarrow> ctrl \<Rightarrow> ctrl option" where
  "perform (Accept ospf6 conn) c = sib_listener_accept ospf6 conn c"
| "perform (Run r msgs alive) c = sib_router_run r msgs alive c"
| "perform (ForwardOspf6 m xid) c = sib_router_forward_ospf6 m xid c"

fun perform_all :: "event list \<Rightarrow> ctrl \<Rightarrow> ctrl option" where
  "perform_all [] c = Some c"
| "perform_all (e # es) c = do { c \<leftarrow> perform e c; perform_all es c }"

lemma perform_step: "perform e c = Some c' \<Longrightarrow> ctrl_step c c'"
  by (cases e) (auto intro: ctrl_step.intros)

lemma perform_all_reachable:
  "perform_all es c = Some c' \<Longrightarrow> ctrl_reachable n v c \<Longrightarrow> ctrl_reachable n v c'"
proof (induction es arbitrary: c)
  case (Cons e es)
  from Cons.prems(1) obtain c1 where c1: "perform e c = Some c1" "perform_all es c1 = Some c'" by (auto split: bind_splits)
  show ?case by (rule Cons.IH [OF c1(2)]) (rule ctrl_reachable.step [OF Cons.prems(2) perform_step [OF c1(1)]])
qed simp

text \<open>Three siblings that complete their handshakes, and the messages they then send.\<close>

definition mk_msg :: "u8 \<Rightarrow> u8 \<Rightarrow> u8 list \<Rightarrow> msg" where
  "mk_msg type xid body = [1, type, 0, word_of_nat (8 + length body), 0, 0, 0, xid] @ body"

definition handshake :: "nat \<Rightarrow> event list" where
  "handshake k = [Accept True k, Run (Ospf6 k) [] True,
     Run (Ospf6 k) [mk_msg RFPT_FEATURES_REQUEST 0 [], mk_msg RFPT_REDISTRIBUTE_REQUEST 1 [], mk_msg RFPT_IF_ADDRESS_REQ 2 []] True]"

definition three_sibs :: "event list" where
  "three_sibs = handshake 0 @ handshake 1 @ handshake 2"

definition example_init :: ctrl where
  "example_init = sib_router_init [[]] 3 VOTER_ALL (vector_init 1) (\<lambda>_. True)"

lemma example_reachable: "perform_all es example_init = Some c \<Longrightarrow> ctrl_reachable 3 VOTER_ALL c"
  unfolding example_init_def by (erule perform_all_reachable) (rule ctrl_reachable.init)

section \<open>Properties\<close>



text \<open>C16. Whatever \<open>vote_majority\<close> forwards to a router in a reachable state is at the head of the
  queues of more siblings than half the number of voters. All siblings with a queue count,
  also those that are still in their handshake and do not count as voters under
  \<open>VOTER_ANY\<close>; only if there are at least as many voters as siblings does it follow that
  no other message heads the queues of half that number of siblings.\<close>

theorem vote_majority_safe:
  assumes "ctrl_reachable num_sibs voter c" and "vote_majority c = Some c'" and "ct_out c' = ct_out c @ es"
    and "RouterForward i a \<in> set es"
  shows "\<exists>m. num_hosts c = Some m \<and> m < 2 * int (support a (heads c))
    \<and> (int (length (ct_ospf6 c)) \<le> m \<longrightarrow> (\<forall>b. b \<noteq> a \<longrightarrow> 2 * int (support b (heads c)) < m))"
proof -
  from ctrl_reachable_inv [OF assms(1)] have inv: "ctrl_inv c" .
  from vote_majority_decided [OF assms(2)] assms(3,4) have d: "vote_decision c = Some a"
    by (auto simp: router_forwards_def split: option.splits dest!: bspec)
  from cv.decide_supported [OF inv d] obtain m where "num_hosts c = Some m" "m < 2 * int (support a (heads c))" by blast
  moreover have "2 * int (support b (heads c)) < m" if "int (length (ct_ospf6 c)) \<le> m" "b \<noteq> a" for b
    using cv.no_rival [OF inv d \<open>num_hosts c = Some m\<close> _ that(2)] that(1) by (simp add: heads_def)
  ultimately show ?thesis by blast
qed

definition hello_msg :: "u8 \<Rightarrow> u8 \<Rightarrow> msg" where
  "hello_msg xid b = mk_msg RFPT_FORWARD_OSPF6 xid [3, 1, b]"

text \<open>Two siblings have sent the same message ahead of its turn, so it is queued.\<close>

definition two_agree :: "event list" where
  "two_agree = three_sibs @ [Run (Ospf6 0) [hello_msg 4 7] True, Run (Ospf6 1) [hello_msg 4 7] True]"

theorem vote_majority_safe_witness:
  "\<exists>c c'. perform_all two_agree example_init = Some c \<and> vote_majority c = Some c'
     \<and> RouterForward 0 (hello_msg 4 7) \<in> set (drop (length (ct_out c)) (ct_out c'))
     \<and> 3 < 2 * int (support (hello_msg 4 7) (heads c)) \<and> 2 * int (support (hello_msg 4 8) (heads c)) < 3"
proof -
  have "case perform_all two_agree example_init of None \<Rightarrow> False
    | Some c \<Rightarrow> length (ct_ospf6 c) = 3 \<and> num_hosts c = Some 3 \<and>
        (case vote_majority c of None \<Rightarrow> False
         | Some c' \<Rightarrow> ct_out c' = ct_out c @ [RouterForward 0 (hello_msg 4 7)])" by code_simp
  then obtain c c' where c: "perform_all two_agree example_init = Some c" "length (ct_ospf6 c) = 3" "num_hosts c = Some 3"
    "vote_majority c = Some c'" "ct_out c' = ct_out c @ [RouterForward 0 (hello_msg 4 7)]" by (auto split: option.splits)
  have "hello_msg 4 8 \<noteq> hello_msg 4 7" by (simp add: hello_msg_def mk_msg_def)
  with vote_majority_safe [OF example_reachable [OF c(1)] c(4,5), of 0 "hello_msg 4 7"] c show ?thesis by auto
qed

text \<open>C17. A vote in a reachable state whose first queued message is at the head of the queues of
  more siblings than half the number of voters, where that number is not negative and the
  leader, if there is one, is a sibling of the table, succeeds as long as none of the
  routers before the last one takes the whole buffer at once: it hands the message to every
  router once, in their order, takes the first message off every queue and advances the
  egress id of every sibling.\<close>

theorem vote_majority_forwards:
  assumes "ctrl_reachable num_sibs voter c" and "first_queued (ct_ospf6 c) 0 = Some (j, a)" and "num_hosts c = Some m"
    and "0 \<le> m" and "m < 2 * int (support a (heads c))"
    and "\<And>k. Suc k < length (ct_ports c) \<Longrightarrow> \<not> ct_full c (length (ct_out c) + k)"
    and "\<forall>r. ct_leader c = Some r \<longrightarrow> get_sib r c \<noteq> None"
  shows "\<exists>c' ds. vote_majority c = Some c' \<and> ct_out c' = ct_out c @ map (\<lambda>i. RouterForward i a) [0..<length (ct_ports c)] @ ds
    \<and> (\<forall>d\<in>set ds. \<exists>x. d = DbSetEgressXid x)
    \<and> ct_ospf6 c' = map (\<lambda>s. s\<lparr>sr_queue := tl (sr_queue s), sr_egress_xid := sr_egress_xid s + 1\<rparr>) (ct_ospf6 c)"
proof -
  from ctrl_reachable_inv [OF assms(1)] have "\<forall>s\<in>set (ct_ospf6 c). sib_ok s" by (simp add: ctrl_inv_def all_sibs_def)
  then have over: "over_half (count_equal a (drop (Suc j) (ct_ospf6 c)) 1) m"
    using vote_count [OF _ assms(2)] assms(4,5) by (auto simp: over_half_def)
  let ?ss = "map (\<lambda>s. bump_egress (pop_queue s)) (ct_ospf6 c)"
  let ?c = "emit (router_forwards a c) (c\<lparr>ct_ospf6 := ?ss\<rparr>)"
  have "forward_to_routers a (c\<lparr>ct_ospf6 := map pop_queue (ct_ospf6 c)\<rparr>) = Some (router_forwards a c)"
    using forward_to_routers_total [OF assms(6)] by (simp add: forward_to_routers_def)
  then have "vote_majority c = store_egress ?c"
    using assms(2,3) over by (simp add: vote_majority_def Let_def comp_def)
  moreover have "store_egress ?c \<noteq> None"
  proof (cases "ct_leader c")
    case (Some r)
    then have "get_sib r ?c \<noteq> None" using assms(7) by (cases r) (auto simp: rd_def split: if_splits)
    with Some show ?thesis by (auto simp: store_egress_def)
  qed (simp add: store_egress_def)
  ultimately obtain c' where c': "vote_majority c = Some c'" by fastforce
  have "vote_decision c = Some a" using assms(2,3) over by (simp add: vote_decision_def)
  with vote_majority_decided [OF c'] obtain ds where ds: "\<forall>d\<in>set ds. \<exists>x. d = DbSetEgressXid x"
    "c' = emit (router_forwards a c @ ds) (c\<lparr>ct_ospf6 := ?ss\<rparr>)" by auto
  with c' show ?thesis
    by (intro exI [of _ c'] exI [of _ ds]) (simp add: bump_egress_def pop_queue_def router_forwards_def)
qed

text \<open>Two routers; of two sends of one buffer only the second one writes all of it.\<close>

definition two_routers :: ctrl where
  "two_routers = sib_router_init [[], []] 3 VOTER_ALL (vector_init 1) (\<lambda>k. k \<in> {1, 3, 5, 10})"

theorem vote_majority_forwards_witness:
  "\<exists>c c' ds. perform_all two_agree two_routers = Some c \<and> vote_majority c = Some c'
     \<and> ct_out c' = ct_out c @ [RouterForward 0 (hello_msg 4 7), RouterForward 1 (hello_msg 4 7)] @ ds"
proof -
  have "case perform_all two_agree two_routers of None \<Rightarrow> False
    | Some c \<Rightarrow> first_queued (ct_ospf6 c) 0 = Some (0, hello_msg 4 7) \<and> num_hosts c = Some 3
        \<and> support (hello_msg 4 7) (heads c) = 2 \<and> length (ct_ports c) = 2 \<and> ct_leader c = None
        \<and> \<not> ct_full c (length (ct_out c))" by code_simp
  then obtain c where c: "perform_all two_agree two_routers = Some c" "first_queued (ct_ospf6 c) 0 = Some (0, hello_msg 4 7)"
    "num_hosts c = Some 3" "support (hello_msg 4 7) (heads c) = 2" "length (ct_ports c) = 2" "ct_leader c = None"
    "\<not> ct_full c (length (ct_out c))" by (auto split: option.splits)
  have "ctrl_reachable 3 VOTER_ALL c"
    using c(1) unfolding two_routers_def by (rule perform_all_reachable) (rule ctrl_reachable.init)
  from vote_majority_forwards [OF this c(2,3)] c(4-7) have
    "\<exists>c' ds. vote_majority c = Some c' \<and> ct_out c' = ct_out c @ map (\<lambda>i. RouterForward i (hello_msg 4 7)) [0..<2] @ ds"
    by fastforce
  with c(1) show ?thesis by (simp add: upt_rec numeral_2_eq_2)
qed

text \<open>C18. The comparison starts from the first queued message only: as long as that message is at
  the head of the queues of at most half as many siblings as there are voters, a vote in a
  reachable state changes nothing and forwards nothing, whatever support another message
  has. So a single sibling, if it comes first, keeps the message of the majority from being
  forwarded.\<close>

theorem minority_blocks_vote:
  assumes "ctrl_reachable num_sibs voter c" and "first_queued (ct_ospf6 c) 0 = Some (j, a)" and "num_hosts c = Some m"
    and "0 < m" and "2 * int (support a (heads c)) \<le> m"
  shows "vote_majority c = Some c"
proof -
  from ctrl_reachable_inv [OF assms(1)] have "\<forall>s\<in>set (ct_ospf6 c). sib_ok s" by (simp add: ctrl_inv_def all_sibs_def)
  from vote_count [OF this assms(2)] assms(4,5) have "\<not> over_half (count_equal a (drop (Suc j) (ct_ospf6 c)) 1) m"
    by (simp add: over_half_def)
  with assms(2,3) show ?thesis by (simp add: vote_majority_def)
qed

definition one_differs :: "event list" where
  "one_differs = three_sibs @ [Run (Ospf6 0) [hello_msg 3 8] True, Run (Ospf6 1) [hello_msg 3 7] True, Run (Ospf6 2) [hello_msg 3 7] True]"

theorem minority_blocks_vote_witness:
  "\<exists>c. perform_all one_differs example_init = Some c \<and> num_hosts c = Some 3
     \<and> support (hello_msg 3 8) (heads c) = 1 \<and> support (hello_msg 3 7) (heads c) = 2 \<and> vote_majority c = Some c"
proof -
  have "case perform_all one_differs example_init of None \<Rightarrow> False
    | Some c \<Rightarrow> first_queued (ct_ospf6 c) 0 = Some (0, hello_msg 3 8) \<and> num_hosts c = Some 3
        \<and> support (hello_msg 3 8) (heads c) = 1 \<and> support (hello_msg 3 7) (heads c) = 2" by code_simp
  then obtain c where c: "perform_all one_differs example_init = Some c" "first_queued (ct_ospf6 c) 0 = Some (0, hello_msg 3 8)"
    "num_hosts c = Some 3" "support (hello_msg 3 8) (heads c) = 1" "support (hello_msg 3 7) (heads c) = 2"
    by (auto split: option.splits)
  from minority_blocks_vote [OF example_reachable [OF c(1)] c(2,3)] c show ?thesis by simp
qed

lemma count_rcvd_bound: "length ss \<le> count_rcvd ss i"
proof (induction ss i rule: count_rcvd.induct)
  case (1 ss i)
  then show ?case by (subst count_rcvd.simps) simp
qed

text \<open>The loop that counts the siblings with a queued message uses its own index as the
  counter, so it always ends at or above the number of siblings: with every sibling
  present, the test for a majority of messages always succeeds.\<close>

lemma majority_guard_always_true:
  assumes "ct_voter c = VOTER_ALL" and "int (length (ct_ospf6 c)) = ct_num_sibs c" and "ct_ospf6 c \<noteq> []"
  shows "majority_have_msg_rcvd c = Some True"
proof -
  have "0 < ct_num_sibs c" unfolding assms(2) [symmetric] using assms(3) by simp
  moreover have "length (ct_ospf6 c) \<le> count_rcvd (ct_ospf6 c) 0" by (rule count_rcvd_bound)
  ultimately show ?thesis
    using assms(1,2) by (auto simp: majority_have_msg_rcvd_def num_hosts_def over_half_def)
qed

text \<open>A message with an id below the one expected from its sibling is dropped; one above it
  is queued behind the messages of that sibling without a vote and without any output.\<close>

theorem egress_order:
  assumes "get_sib r c = Some s"
  shows "(xid < sr_egress_xid s \<longrightarrow> process_egress_msg r xid m c = Some c)
    \<and> (sr_egress_xid s < xid \<longrightarrow> process_egress_msg r xid m c = Some (put_sib r (s\<lparr>sr_queue := sr_queue s @ [m]\<rparr>) c))"
  using assms by (auto simp: process_egress_msg_def append_msg_to_rcvd_queue_def upd_sib_def)

text \<open>C19. A decided vote advances the id expected from every sibling, also from one that is still
  in its handshake: the features request with the id that was expected before the vote is
  then ignored.\<close>

theorem vote_breaks_handshake:
  assumes "vote_majority c = Some c'" and "vote_decision c = Some a" and "get_sib (Ospf6 i) c = Some s"
    and "sr_state s = SIB_CONNECTED"
  shows "process_features_request (Ospf6 i) (sr_egress_xid s) c' = Some c'"
proof -
  from vote_majority_decided [OF assms(1)] assms(2) obtain es where
    "c' = emit es (c\<lparr>ct_ospf6 := map (\<lambda>s. bump_egress (pop_queue s)) (ct_ospf6 c)\<rparr>)" by auto
  with assms(3) have "get_sib (Ospf6 i) c' = Some (bump_egress (pop_queue s))" by (auto simp: rd_def split: if_splits)
  moreover have "sr_egress_xid (bump_egress (pop_queue s)) \<noteq> sr_egress_xid s" by (simp add: bump_egress_def pop_queue_def)
  ultimately show ?thesis by (simp add: process_features_request_def del: get_sib.simps)
qed

theorem vote_breaks_handshake_witness:
  "\<exists>c c'. perform_all (handshake 0 @ handshake 1 @ [Accept True 2, Run (Ospf6 2) [] True,
        Run (Ospf6 0) [hello_msg 4 7] True, Run (Ospf6 1) [hello_msg 4 7] True]) example_init = Some c
     \<and> vote_majority c = Some c' \<and> process_features_request (Ospf6 2) 0 c' = Some c'"
proof -
  let ?es = "handshake 0 @ handshake 1 @ [Accept True 2, Run (Ospf6 2) [] True,
        Run (Ospf6 0) [hello_msg 4 7] True, Run (Ospf6 1) [hello_msg 4 7] True]"
  have "case perform_all ?es example_init of None \<Rightarrow> False
    | Some c \<Rightarrow> vote_majority c \<noteq> None \<and> vote_decision c \<noteq> None \<and>
        (case get_sib (Ospf6 2) c of None \<Rightarrow> False | Some s \<Rightarrow> sr_state s = SIB_CONNECTED \<and> sr_egress_xid s = 0)" by code_simp
  then obtain c c' s a where c: "perform_all ?es example_init = Some c" "vote_majority c = Some c'" "vote_decision c = Some a"
    "get_sib (Ospf6 2) c = Some s" "sr_state s = SIB_CONNECTED" "sr_egress_xid s = 0" by (auto split: option.splits)
  from vote_breaks_handshake [OF c(2-5)] c show ?thesis by auto
qed

text \<open>C20. A router's message is copied to exactly the siblings in the routing state, in the order
  of the array, and their acknowledgements are expected anew.\<close>

theorem forward_ospf6_to_routing:
  assumes "ctrl_reachable num_sibs voter c"
  shows "\<exists>c'. sib_router_forward_ospf6 m xid c = Some c'
    \<and> ct_out c' = ct_out c @ map (\<lambda>s. SendMsg (the (sr_rconn s)) m) (filter (\<lambda>s. sr_state s = SIB_ROUTING) (ct_ospf6 c))
    \<and> ct_ospf6 c' = map (\<lambda>s. if sr_state s = SIB_ROUTING then s\<lparr>sr_ingress_xid := xid, sr_ingress_ack := False\<rparr> else s) (ct_ospf6 c)"
proof -
  from ctrl_reachable_inv [OF assms] have "\<forall>s\<in>set (ct_ospf6 c). sib_ok s" by (simp add: ctrl_inv_def all_sibs_def)
  from forward_to_sibs_total [OF this] obtain es ss where f: "forward_to_sibs m xid (ct_ospf6 c) = Some (es, ss)" by blast
  with forward_to_sibs_shape [OF f] show ?thesis by (auto simp: sib_router_forward_ospf6_def)
qed

theorem forward_ospf6_to_routing_witness:
  "\<exists>c c'. perform_all three_sibs example_init = Some c \<and> sib_router_forward_ospf6 (hello_msg 9 7) 9 c = Some c'
     \<and> length (filter (\<lambda>s. sr_state s = SIB_ROUTING) (ct_ospf6 c)) = 3 \<and> length (ct_out c') = length (ct_out c) + 3"
proof -
  have "case perform_all three_sibs example_init of None \<Rightarrow> False
    | Some c \<Rightarrow> length (filter (\<lambda>s. sr_state s = SIB_ROUTING) (ct_ospf6 c)) = 3" by code_simp
  then obtain c where c: "perform_all three_sibs example_init = Some c" "length (filter (\<lambda>s. sr_state s = SIB_ROUTING) (ct_ospf6 c)) = 3"
    by (auto split: option.splits)
  from forward_ospf6_to_routing [OF example_reachable [OF c(1)], of "hello_msg 9 7" 9] c show ?thesis by auto
qed

end
