(* ===== verification/Ctrl_Sib_Redist.thy ===== *)
theory Ctrl_Sib_Redist
  imports Ctrl_Sib_Inv
begin

text \<open>
  Redistribution of the controller's routes to a sibling, \<open>sib_router_redistribute\<close> of
  \<open>controller/sib_router.c\<close>: the loop over the route table instantiates the general law of
  such loops.
\<close>

definition route_item :: "nat \<Rightarrow> u32 \<Rightarrow> prefix \<times> rib list \<Rightarrow> effect list" where
  "route_item conn xid e = map (\<lambda>_. SendRouteReply RFPT_IPV4_ROUTE_ADD conn xid (ucast (pfx_prefixlen (fst e))) (take 4 (pfx_u (fst e))))
     (filter (\<lambda>rib. rib_distance rib \<noteq> DISTANCE_INFINITY) (snd e))"

interpretation redis: table_loop "redistribute_loop conn xid" "route_replies conn xid" "route_item conn xid" for conn xid
proof
  fix a and t :: rib_table and n :: "rib list route_node"
  show "redistribute_loop conn xid None t = Some ([], t)" by (simp add: redistribute_loop.simps)
  show "redistribute_loop conn xid (Some a) t =
      do { n \<leftarrow> rt_nodes t a; (nx, t) \<leftarrow> route_next a t; (es, t) \<leftarrow> redistribute_loop conn xid nx t; Some (route_replies conn xid n @ es, t) }"
    by (subst redistribute_loop.simps) simp
  show "route_replies conn xid n = (case rn_info n of None \<Rightarrow> [] | Some i \<Rightarrow> route_item conn xid (rn_p n, i))"
    by (simp add: route_replies_def route_item_def sib_router_send_route_reply_def split: option.splits)
qed

text \<open>C21. A redistribute request is answered completely: the loop over the route table ends, one
  reply is sent for every reachable route, in the order of the prefixes, and the table
  keeps all its routes.\<close>

theorem redistribute_sends_all_routes:
  assumes "sib_conn r c = Some conn" and "vrf_table AFI_IP SAFI_UNICAST 0 (ct_rib c) = Some (Some t)" and "rib_ok t" and "few_locks t"
  shows "\<exists>c' t' L. sib_router_redistribute r xid c = Some c' \<and> ct_out c' = ct_out c @ concat (map (route_item conn xid) L)
    \<and> (\<forall>bs ribs. table_map t bs = Some ribs \<longleftrightarrow> (\<exists>p. (p, ribs) \<in> set L \<and> prefix_bits p = bs))
    \<and> sorted_wrt (\<lambda>x y. bits_less (prefix_bits (fst x)) (prefix_bits (fst y))) L
    \<and> vrf_table AFI_IP SAFI_UNICAST 0 (ct_rib c') = Some (Some t') \<and> rib_ok t' \<and> table_map t' = table_map t"
proof -
  from assms(3) obtain T where T: "table_tree t T" and ok: "info_locked t" "\<forall>bs. table_map t bs \<noteq> Some []"
    by (auto simp: rib_ok_def wf_table_def)
  let ?L = "entries_of t (preorder T)"
  from redis.loop_top [OF T ok(1) assms(4), of conn xid] obtain t' where
    l: "do { (rn, t) \<leftarrow> route_top t; redistribute_loop conn xid rn t } = Some (concat (map (route_item conn xid) ?L), t')"
    and t': "rib_ok t'" "table_map t' = table_map t" using ok(2) by (auto simp: rib_ok_def)
  from vrf_table_put [OF assms(2), of t'] obtain V' where
    V': "put_table AFI_IP SAFI_UNICAST 0 t' (ct_rib c) = Some V'" "vrf_table AFI_IP SAFI_UNICAST 0 V' = Some (Some t')" by blast
  have "sib_router_redistribute r xid c = Some (emit (concat (map (route_item conn xid) ?L)) (c\<lparr>ct_rib := V'\<rparr>))"
    using assms(1,2) l V'(1) by (auto simp: sib_router_redistribute_def split: bind_splits)
  moreover have "ct_rib (emit es c1) = ct_rib c1" for es c1 by (simp add: emit_def)
  ultimately show ?thesis
    using entries_of_table [OF T] V'(2) t'
    by (intro exI [of _ "emit (concat (map (route_item conn xid) ?L)) (c\<lparr>ct_rib := V'\<rparr>)"] exI [of _ t'] exI [of _ ?L]) auto
qed

text \<open>A table with one route: the node of \<open>10.128.0.0/9\<close>.\<close>

definition one_node :: "rib list route_node" where
  "one_node = \<lparr>rn_p = \<lparr>pfx_family = AF_INET, pfx_prefixlen = 9, pfx_u = [10, 128, 0, 0, 0, 0, 0, 0, 0, 0, 0, 0, 0, 0, 0, 0]\<rparr>,
     rn_parent = None, rn_left = None, rn_right = None, rn_lock = 1, rn_info = Some [new_rib
       \<lparr>rt_type = 0, rt_flags = 0, rt_p = prefix_new, rt_vrf_id = 0, rt_metric = 3, rt_distance = 10\<rparr> 0]\<rparr>"

definition one_route :: rib_table where
  "one_route = \<lparr>rt_top = Some 0, rt_nodes = [0 \<mapsto> one_node], rt_fresh = 1\<rparr>"

lemma one_route_ok: "rib_ok one_route" "few_locks one_route" "table_tree one_route (Node Leaf 0 Leaf)"
proof -
  show tree: "table_tree one_route (Node Leaf 0 Leaf)"
    by (simp add: table_tree_def one_route_def one_node_def pfx_of_def wf_node_prefix_def wf_prefix_def family_size_def)
  show "few_locks one_route" by (simp add: few_locks_def one_route_def one_node_def)
  have "table_map one_route bs \<noteq> Some []" for bs
    using entries_of_table(1) [OF tree, of bs "[]"] by (auto simp: entries_of_def one_route_def one_node_def)
  then show "rib_ok one_route"
    using tree by (auto simp: rib_ok_def wf_table_def info_locked_def one_route_def one_node_def split: if_splits)
qed

theorem redistribute_sends_all_routes_witness:
  "\<exists>c c' L. vrf_table AFI_IP SAFI_UNICAST 0 (ct_rib c) = Some (Some one_route) \<and> ct_out c = []
     \<and> sib_router_redistribute (Ospf6 0) 7 c = Some c' \<and> ct_out c' = concat (map (route_item 5 7) L) \<and> L \<noteq> []"
proof -
  from vrf_table_init obtain V where V: "vrf_table AFI_IP SAFI_UNICAST 0 V = Some (Some route_table_init)" by blast
  from vrf_table_put [OF V, of one_route] obtain V' where V': "vrf_table AFI_IP SAFI_UNICAST 0 V' = Some (Some one_route)" by blast
  let ?c = "(sib_router_init [] 3 VOTER_ALL V' (\<lambda>_. True))\<lparr>ct_ospf6 := [fresh_sib 5]\<rparr>"
  have "sib_conn (Ospf6 0) ?c = Some 5" by (simp add: sib_conn_def rd_def fresh_sib_def)
  moreover have c: "vrf_table AFI_IP SAFI_UNICAST 0 (ct_rib ?c) = Some (Some one_route)"
    using V' by (simp add: sib_router_init_def)
  ultimately obtain c' L where c': "sib_router_redistribute (Ospf6 0) 7 ?c = Some c'" "ct_out c' = ct_out ?c @ concat (map (route_item 5 7) L)"
    and L: "\<forall>bs ribs. table_map one_route bs = Some ribs \<longleftrightarrow> (\<exists>p. (p, ribs) \<in> set L \<and> prefix_bits p = bs)"
    using redistribute_sends_all_routes [OF _ _ one_route_ok(1,2), of "Ospf6 0" ?c 5 7] by blast
  have "table_map one_route (prefix_bits (rn_p one_node)) = rn_info one_node"
    using entries_of_table(1) [OF one_route_ok(3)] by (auto simp: entries_of_def one_route_def one_node_def)
  with L have "L \<noteq> []" by (auto simp: one_node_def)
  moreover have "ct_out ?c = []" by (simp add: sib_router_init_def)
  ultimately show ?thesis using c c' by fastforce
qed

end
