(* ===== verification/Lib_Timeval.thy ===== *)
theory Lib_Timeval
  imports Prelude
begin

text \<open>
  Times of day, the \<open>struct timeval\<close> arithmetic of \<open>lib/thread.c\<close>. Seconds and
  microseconds are the numbers the 64-bit fields hold; the clock never comes near their
  bounds.
\<close>

record timeval =
  tv_sec :: int
  tv_usec :: int

definition timeval_zero :: timeval where "timeval_zero = \<lparr>tv_sec = 0, tv_usec = 0\<rparr>"

definition TIMER_SECOND_MICRO :: int where "TIMER_SECOND_MICRO = 1000000"

section \<open>Operations\<close>

text \<open>The two loops of \<open>timeval_adjust\<close>.\<close>

function carry_seconds :: "timeval \<Rightarrow> timeval" where
  "carry_seconds a =
     (if tv_usec a \<ge> TIMER_SECOND_MICRO
      then carry_seconds \<lparr>tv_sec = tv_sec a + 1, tv_usec = tv_usec a - TIMER_SECOND_MICRO\<rparr> else a)"
  by auto
termination
  by (relation "measure (\<lambda>a. nat (tv_usec a))") (auto simp: TIMER_SECOND_MICRO_def)

function borrow_seconds :: "timeval \<Rightarrow> timeval" where
  "borrow_seconds a =
     (if tv_usec a < 0
      then borrow_seconds \<lparr>tv_sec = tv_sec a - 1, tv_usec = tv_usec a + TIMER_SECOND_MICRO\<rparr> else a)"
  by auto
termination
  by (relation "measure (\<lambda>a. nat (- tv_usec a))") (auto simp: TIMER_SECOND_MICRO_def)

declare carry_seconds.simps [simp del] borrow_seconds.simps [simp del]

definition timeval_adjust :: "timeval \<Rightarrow> timeval" where
  "timeval_adjust a =
     (let a = carry_seconds a; a = borrow_seconds a in if tv_sec a < 0 then \<lparr>tv_sec = 0, tv_usec = 0\<rparr> else a)"

definition timeval_subtract :: "timeval \<Rightarrow> timeval \<Rightarrow> timeval" where
  "timeval_subtract a b = timeval_adjust \<lparr>tv_sec = tv_sec a - tv_sec b, tv_usec = tv_usec a - tv_usec b\<rparr>"

definition timeval_cmp :: "timeval \<Rightarrow> timeval \<Rightarrow> int" where
  "timeval_cmp a b = (if tv_sec a = tv_sec b then tv_usec a - tv_usec b else tv_sec a - tv_sec b)"

section \<open>A time as a number of microseconds\<close>

definition usecs :: "timeval \<Rightarrow> int" where
  "usecs a = tv_sec a * TIMER_SECOND_MICRO + tv_usec a"

definition timeval_of :: "int \<Rightarrow> timeval" where
  "timeval_of u = \<lparr>tv_sec = u div TIMER_SECOND_MICRO, tv_usec = u mod TIMER_SECOND_MICRO\<rparr>"

definition timeval_wf :: "timeval \<Rightarrow> bool" where
  "timeval_wf a \<longleftrightarrow> 0 \<le> tv_usec a \<and> tv_usec a < TIMER_SECOND_MICRO"

lemma usecs_timeval_of [simp]: "usecs (timeval_of u) = u"
  by (simp add: usecs_def timeval_of_def)

lemma timeval_of_wf [simp]: "timeval_wf (timeval_of u)"
  by (simp add: timeval_wf_def timeval_of_def TIMER_SECOND_MICRO_def)

lemma timeval_of_usecs: "timeval_wf a \<Longrightarrow> timeval_of (usecs a) = a"
  by (simp add: timeval_of_def usecs_def timeval_wf_def)

lemma usecs_carry [simp]: "usecs (carry_seconds a) = usecs a"
  by (induction a rule: carry_seconds.induct) (subst carry_seconds.simps, auto simp: usecs_def algebra_simps)

lemma usecs_borrow [simp]: "usecs (borrow_seconds a) = usecs a"
  by (induction a rule: borrow_seconds.induct) (subst borrow_seconds.simps, auto simp: usecs_def algebra_simps)

lemma carry_below: "tv_usec (carry_seconds a) < TIMER_SECOND_MICRO"
  by (induction a rule: carry_seconds.induct) (subst carry_seconds.simps, auto)

lemma borrow_wf: "tv_usec a < TIMER_SECOND_MICRO \<Longrightarrow> timeval_wf (borrow_seconds a)"
  by (induction a rule: borrow_seconds.induct) (subst borrow_seconds.simps, auto simp: timeval_wf_def)

lemma timeval_adjust_max: "timeval_adjust a = timeval_of (max 0 (usecs a))"
proof -
  let ?b = "borrow_seconds (carry_seconds a)"
  have wf: "timeval_wf ?b" by (rule borrow_wf [OF carry_below])
  have eq: "timeval_of (usecs a) = ?b" using timeval_of_usecs [OF wf] by simp
  have "tv_sec ?b < 0 \<longleftrightarrow> usecs a < 0"
    unfolding eq [symmetric] by (simp add: timeval_of_def TIMER_SECOND_MICRO_def pos_imp_zdiv_neg_iff)
  then show ?thesis by (auto simp: timeval_adjust_def Let_def max_def eq) (simp_all add: timeval_of_def)
qed

lemma timeval_cmp_usecs:
  assumes "timeval_wf a" "timeval_wf b"
  shows "timeval_cmp a b \<le> 0 \<longleftrightarrow> usecs a \<le> usecs b" "timeval_cmp a b < 0 \<longleftrightarrow> usecs a < usecs b"
  using assms by (auto simp: timeval_cmp_def usecs_def timeval_wf_def TIMER_SECOND_MICRO_def)

text \<open>
  The loops of the timer arithmetic are the division they stand for: the difference
  of two times is the one of their microseconds, cut off at zero, with the microseconds
  below a million.
\<close>

lemma timeval_subtract_exact:
  "timeval_subtract a b = timeval_of (max 0 (usecs a - usecs b)) \<and> timeval_wf (timeval_subtract a b)"
  by (simp add: timeval_subtract_def timeval_adjust_max) (simp add: usecs_def algebra_simps)

end
