(* ===== verification/Ospf6_Lsa.thy ===== *)
theory Ospf6_Lsa
  imports Lib_Rfpbuf Lib_Timeval
begin

text \<open>
  Link state advertisements, \<open>ospf6-sibling/ospf6_lsa.c\<close>: aging, comparison of two
  instances, copying, reference counts and the Fletcher checksum.

  The header fields are kept as the numbers they denote; the memory of an LSA is their
  big-endian encoding followed by the body. The current time of the monotonic clock is an
  argument. A failed assertion, a read outside the LSA and a signed overflow are \<open>None\<close>.
\<close>

section \<open>Data\<close>

definition MAXAGE :: u16 where "MAXAGE = 3600"
definition MAX_AGE_DIFF :: int where "MAX_AGE_DIFF = 900"

record ospf6_lsa_header =
  lh_age :: u16
  lh_type :: u16
  lh_id :: u32
  lh_adv_router :: u32
  lh_seqnum :: u32
  lh_checksum :: u16
  lh_length :: u16

definition lsa_header_size :: nat where "lsa_header_size = 20"

text \<open>The databases an LSA can belong to, named by the object they are part of.\<close>

datatype lsdb_ref = Interface_lsdb nat | Area_lsdb nat | Process_lsdb

text \<open>A pointer to a pending thread is kept as whether it is set.\<close>

record ospf6_lsa =
  lsa_prev :: "nat option"
  lsa_next :: "nat option"
  lsa_lock :: u8
  lsa_flag :: u8
  lsa_birth :: timeval
  lsa_originated :: timeval
  lsa_received :: timeval
  lsa_installed :: timeval
  lsa_expire :: bool
  lsa_refresh :: bool
  lsa_retrans_count :: int
  lsa_lsdb :: "lsdb_ref option"
  lsa_header :: ospf6_lsa_header
  lsa_body :: "u8 list"
  lsa_hostnum :: u32

definition OSPF6_LSA_HEADERONLY :: u8 where "OSPF6_LSA_HEADERONLY = 0x01"
definition OSPF6_LSA_FLOODBACK :: u8 where "OSPF6_LSA_FLOODBACK = 0x02"
definition OSPF6_LSA_DUPLICATE :: u8 where "OSPF6_LSA_DUPLICATE = 0x04"
definition OSPF6_LSA_IMPLIEDACK :: u8 where "OSPF6_LSA_IMPLIEDACK = 0x08"

definition lsa_zero :: "ospf6_lsa_header \<Rightarrow> u8 list \<Rightarrow> ospf6_lsa" where
  "lsa_zero h body = \<lparr>lsa_prev = None, lsa_next = None, lsa_lock = 0, lsa_flag = 0, lsa_birth = timeval_zero,
     lsa_originated = timeval_zero, lsa_received = timeval_zero, lsa_installed = timeval_zero, lsa_expire = False,
     lsa_refresh = False, lsa_retrans_count = 0, lsa_lsdb = None, lsa_header = h, lsa_body = body, lsa_hostnum = 0\<rparr>"

definition OSPF6_LSA_IS_SAME :: "ospf6_lsa \<Rightarrow> ospf6_lsa \<Rightarrow> bool" where
  "OSPF6_LSA_IS_SAME a b \<longleftrightarrow> lh_adv_router (lsa_header a) = lh_adv_router (lsa_header b)
     \<and> lh_id (lsa_header a) = lh_id (lsa_header b) \<and> lh_type (lsa_header a) = lh_type (lsa_header b)"

section \<open>Age\<close>

definition set_age :: "u16 \<Rightarrow> ospf6_lsa \<Rightarrow> ospf6_lsa" where
  "set_age age lsa = lsa\<lparr>lsa_header := (lsa_header lsa)\<lparr>lh_age := age\<rparr>\<rparr>"

definition ospf6_lsa_age_set :: "timeval \<Rightarrow> ospf6_lsa \<Rightarrow> ospf6_lsa" where
  "ospf6_lsa_age_set now lsa =
     lsa\<lparr>lsa_birth := \<lparr>tv_sec = tv_sec now - uint (lh_age (lsa_header lsa)), tv_usec = tv_usec now\<rparr>\<rparr>"

definition ospf6_lsa_age_current :: "timeval \<Rightarrow> ospf6_lsa \<Rightarrow> u16 \<times> ospf6_lsa" where
  "ospf6_lsa_age_current now lsa =
     (if lh_age (lsa_header lsa) \<ge> MAXAGE then (MAXAGE, set_age MAXAGE lsa)
      else (let ulage = (word_of_int (tv_sec now - tv_sec (lsa_birth lsa)) :: u32);
                age = (if ulage > ucast MAXAGE then MAXAGE else ucast ulage)
            in (age, set_age age lsa)))"

definition ospf6_lsa_age_update_to_send :: "timeval \<Rightarrow> u32 \<Rightarrow> ospf6_lsa \<Rightarrow> ospf6_lsa" where
  "ospf6_lsa_age_update_to_send now transdelay lsa =
     (let (cur, lsa) = ospf6_lsa_age_current now lsa;
          age = (ucast (ucast cur + transdelay) :: u16);
          age = (if age > MAXAGE then MAXAGE else age)
      in set_age age lsa)"

text \<open>\<open>ospf6_lsa_expire\<close>, which is run at once, has no effect.\<close>

definition ospf6_lsa_expire :: "ospf6_lsa \<Rightarrow> ospf6_lsa" where
  "ospf6_lsa_expire lsa = lsa"

definition ospf6_lsa_premature_aging :: "ospf6_lsa \<Rightarrow> ospf6_lsa" where
  "ospf6_lsa_premature_aging lsa = ospf6_lsa_expire (set_age MAXAGE lsa)"

definition OSPF6_LSA_IS_MAXAGE :: "timeval \<Rightarrow> ospf6_lsa \<Rightarrow> bool \<times> ospf6_lsa" where
  "OSPF6_LSA_IS_MAXAGE now lsa = (let (age, lsa) = ospf6_lsa_age_current now lsa in (age = MAXAGE, lsa))"

section \<open>Comparison\<close>

text \<open>\<open>memcmp\<close> of the first bytes behind the headers, as equal or not.\<close>

definition bodies_differ :: "nat \<Rightarrow> ospf6_lsa \<Rightarrow> ospf6_lsa \<Rightarrow> bool option" where
  "bodies_differ len a b =
     (if len \<le> length (lsa_body a) \<and> len \<le> length (lsa_body b)
      then Some (take len (lsa_body a) \<noteq> take len (lsa_body b)) else None)"

definition ospf6_lsa_is_changed :: "timeval \<Rightarrow> ospf6_lsa \<Rightarrow> ospf6_lsa \<Rightarrow> (bool \<times> ospf6_lsa \<times> ospf6_lsa) option" where
  "ospf6_lsa_is_changed now a b =
     (let (ma, a) = OSPF6_LSA_IS_MAXAGE now a; (mb, b) = OSPF6_LSA_IS_MAXAGE now b in
      if ma \<noteq> mb then Some (True, a, b)
      else if lh_length (lsa_header a) \<noteq> lh_length (lsa_header b) then Some (True, a, b)
      else if unat (lh_length (lsa_header a)) \<le> lsa_header_size then None
      else do { d \<leftarrow> bodies_differ (unat (lh_length (lsa_header a)) - lsa_header_size) a b; Some (d, a, b) })"

text \<open>A length below the size of the header makes the number of bytes to compare a huge
  \<open>size_t\<close>.\<close>

definition ospf6_lsa_is_differ :: "timeval \<Rightarrow> ospf6_lsa \<Rightarrow> ospf6_lsa \<Rightarrow> (bool \<times> ospf6_lsa \<times> ospf6_lsa) option" where
  "ospf6_lsa_is_differ now a b =
     (if \<not> OSPF6_LSA_IS_SAME a b then None
      else let (agea, a) = ospf6_lsa_age_current now a; (ageb, b) = ospf6_lsa_age_current now b in
        if agea = MAXAGE \<and> ageb \<noteq> MAXAGE then Some (True, a, b)
        else if agea \<noteq> MAXAGE \<and> ageb = MAXAGE then Some (True, a, b)
        else if lh_length (lsa_header a) \<noteq> lh_length (lsa_header b) then Some (True, a, b)
        else if unat (lh_length (lsa_header a)) < lsa_header_size then None
        else do { d \<leftarrow> bodies_differ (unat (lh_length (lsa_header a)) - lsa_header_size) a b; Some (d, a, b) })"

definition ospf6_lsa_compare :: "timeval \<Rightarrow> ospf6_lsa \<Rightarrow> ospf6_lsa \<Rightarrow> (int \<times> ospf6_lsa \<times> ospf6_lsa) option" where
  "ospf6_lsa_compare now a b =
     (if \<not> OSPF6_LSA_IS_SAME a b then None
      else let seqnuma = sint (lh_seqnum (lsa_header a)); seqnumb = sint (lh_seqnum (lsa_header b)) in
        if seqnuma > seqnumb then Some (-1, a, b)
        else if seqnuma < seqnumb then Some (1, a, b)
        else if lh_checksum (lsa_header a) > lh_checksum (lsa_header b) then Some (-1, a, b)
        else if lh_checksum (lsa_header a) < lh_checksum (lsa_header b) then Some (0, a, b)
        else let (agea, a) = ospf6_lsa_age_current now a; (ageb, b) = ospf6_lsa_age_current now b in
          if agea = MAXAGE \<and> ageb \<noteq> MAXAGE then Some (-1, a, b)
          else if agea \<noteq> MAXAGE \<and> ageb = MAXAGE then Some (1, a, b)
          else if agea > ageb \<and> uint agea - uint ageb \<ge> MAX_AGE_DIFF then Some (1, a, b)
          else if agea < ageb \<and> uint ageb - uint agea \<ge> MAX_AGE_DIFF then Some (-1, a, b)
          else Some (0, a, b))"

section \<open>Creation, copies and reference counts\<close>

definition ospf6_lsa_create_headeronly :: "timeval \<Rightarrow> ospf6_lsa_header \<Rightarrow> ospf6_lsa" where
  "ospf6_lsa_create_headeronly now h = ospf6_lsa_age_set now ((lsa_zero h [])\<lparr>lsa_flag := OSPF6_LSA_HEADERONLY\<rparr>)"

text \<open>The LSA in memory at a header: as many bytes as its length field says, of which the
  header itself is the first part.\<close>

definition ospf6_lsa_create :: "timeval \<Rightarrow> ospf6_lsa_header \<Rightarrow> u8 list \<Rightarrow> ospf6_lsa option" where
  "ospf6_lsa_create now h body =
     (let n = unat (lh_length h) in
      if lsa_header_size \<le> n \<and> n - lsa_header_size \<le> length body
      then Some (ospf6_lsa_age_set now (lsa_zero h (take (n - lsa_header_size) body)))
      else None)"

definition ospf6_lsa_copy :: "timeval \<Rightarrow> ospf6_lsa \<Rightarrow> (ospf6_lsa \<times> ospf6_lsa) option" where
  "ospf6_lsa_copy now lsa =
     do {
       let (_, lsa) = ospf6_lsa_age_current now lsa;
       copy \<leftarrow> (if lsa_flag lsa AND OSPF6_LSA_HEADERONLY \<noteq> 0
               then Some (ospf6_lsa_create_headeronly now (lsa_header lsa))
               else ospf6_lsa_create now (lsa_header lsa) (lsa_body lsa));
       Some (copy\<lparr>lsa_birth := lsa_birth lsa, lsa_originated := lsa_originated lsa, lsa_received := lsa_received lsa,
         lsa_installed := lsa_installed lsa, lsa_lsdb := lsa_lsdb lsa\<rparr>, lsa)
     }"

definition ospf6_lsa_lock :: "ospf6_lsa \<Rightarrow> ospf6_lsa" where
  "ospf6_lsa_lock lsa = lsa\<lparr>lsa_lock := lsa_lock lsa + 1\<rparr>"

text \<open>The result is \<open>None\<close> inside when the LSA has been freed.\<close>

definition ospf6_lsa_delete :: "ospf6_lsa \<Rightarrow> ospf6_lsa option option" where
  "ospf6_lsa_delete lsa = (if lsa_lock lsa = 0 then Some None else None)"

definition ospf6_lsa_unlock :: "ospf6_lsa \<Rightarrow> ospf6_lsa option option" where
  "ospf6_lsa_unlock lsa =
     (if lsa_lock lsa = 0 then None
      else let lsa = lsa\<lparr>lsa_lock := lsa_lock lsa - 1\<rparr> in
        if lsa_lock lsa \<noteq> 0 then Some (Some lsa) else ospf6_lsa_delete lsa)"

section \<open>Checksum\<close>

definition MODX :: nat where "MODX = 4102"
definition LSA_CHECKSUM_OFFSET :: int where "LSA_CHECKSUM_OFFSET = 15"

definition INT_MAX :: int where "INT_MAX = 2 ^ 31 - 1"

definition c_add :: "int \<Rightarrow> int \<Rightarrow> int option" where
  "c_add a b = (if - INT_MAX - 1 \<le> a + b \<and> a + b \<le> INT_MAX then Some (a + b) else None)"

text \<open>The remainder of C, which truncates towards zero.\<close>

definition c_rem :: "int \<Rightarrow> int \<Rightarrow> int" where
  "c_rem a b = (if 0 \<le> a then a mod b else - (- a mod b))"

fun checksum_inner :: "u8 list \<Rightarrow> int \<Rightarrow> int \<Rightarrow> (int \<times> int) option" where
  "checksum_inner [] c0 c1 = Some (c0, c1)"
| "checksum_inner (p # ps) c0 c1 = do { c0 \<leftarrow> c_add c0 (uint p); c1 \<leftarrow> c_add c1 c0; checksum_inner ps c0 c1 }"

function checksum_outer :: "u8 list \<Rightarrow> int \<Rightarrow> int \<Rightarrow> (int \<times> int) option" where
  "checksum_outer bs c0 c1 =
     (if bs = [] then Some (c0, c1)
      else do {
             (c0, c1) \<leftarrow> checksum_inner (take MODX bs) c0 c1;
             checksum_outer (drop MODX bs) (c_rem c0 255) (c_rem c1 255)
           })"
  by pat_completeness auto
termination by (relation "measure (\<lambda>(bs, _). length bs)") (auto simp: MODX_def)

declare checksum_outer.simps [simp del]

text \<open>The bytes of an LSA from the type field on.\<close>

definition lsa_tail :: "ospf6_lsa_header \<Rightarrow> u8 list \<Rightarrow> u8 list" where
  "lsa_tail h body = be16 (lh_type h) @ be32 (lh_id h) @ be32 (lh_adv_router h) @ be32 (lh_seqnum h)
     @ be16 (lh_checksum h) @ be16 (lh_length h) @ body"

definition ospf6_lsa_checksum :: "ospf6_lsa_header \<Rightarrow> u8 list \<Rightarrow> (u16 \<times> ospf6_lsa_header) option" where
  "ospf6_lsa_checksum h body =
     do {
       let h = h\<lparr>lh_checksum := 0\<rparr>;
       let len = unat (lh_length h - 2);
       bs \<leftarrow> (if len \<le> length (lsa_tail h body) then Some (take len (lsa_tail h body)) else None);
       (c0, c1) \<leftarrow> checksum_outer bs 0 0;
       let x = c_rem ((int len - LSA_CHECKSUM_OFFSET) * c0 - c1) 255;
       let x = (if x \<le> 0 then x + 255 else x);
       let y = 510 - c0 - x;
       let y = (if y > 255 then y - 255 else y);
       let r = (word_of_int (x * 256 + y) :: u16);
       Some (r, h\<lparr>lh_checksum := r\<rparr>)
     }"

end
