(* ===== verification/Ospf6_Lsa_Checksum.thy ===== *)
theory Ospf6_Lsa_Checksum
  imports Ospf6_Lsa
begin

text \<open>
  The checksum of \<open>ospf6_lsa_checksum\<close>. The reference is Fletcher's pair of sums modulo 255:
  the sum of the bytes and the sum of the bytes weighted by their distance from the end.
  The blockwise loop of the source computes it without signed overflow, and the two check
  bytes it stores make both sums vanish.
\<close>

section \<open>Fletcher sums\<close>

fun fl0 :: "u8 list \<Rightarrow> int" where
  "fl0 [] = 0"
| "fl0 (b # bs) = uint b + fl0 bs"

fun fl1 :: "u8 list \<Rightarrow> int" where
  "fl1 [] = 0"
| "fl1 (b # bs) = int (length bs + 1) * uint b + fl1 bs"

definition fletcher_ok :: "u8 list \<Rightarrow> bool" where
  "fletcher_ok bs \<longleftrightarrow> fl0 bs mod 255 = 0 \<and> fl1 bs mod 255 = 0"

lemma fl0_append [simp]: "fl0 (xs @ ys) = fl0 xs + fl0 ys"
  by (induction xs) auto

lemma fl1_append [simp]: "fl1 (xs @ ys) = fl1 xs + int (length ys) * fl0 xs + fl1 ys"
  by (induction xs) (auto simp: algebra_simps)

lemma uint_byte: "0 \<le> uint (b :: u8)" "uint (b :: u8) \<le> 255"
  using uint_lt2p [of b] by auto

lemma fl0_nonneg: "0 \<le> fl0 bs"
  by (induction bs) (auto simp: uint_byte)

section \<open>The loop\<close>

fun tri :: "nat \<Rightarrow> int" where
  "tri 0 = 0"
| "tri (Suc n) = tri n + int n + 1"

lemma tri_closed: "2 * tri n = int n * (int n + 1)"
  by (induction n) (auto simp: algebra_simps)

lemma tri_nonneg: "0 \<le> tri n"
  by (induction n) auto

lemma tri_mono: "m \<le> n \<Longrightarrow> tri m \<le> tri n"
  by (induction n) (auto simp: le_Suc_eq)

text \<open>Within a block the sums stay below the bound that the block size was chosen for.\<close>

lemma checksum_inner_sums:
  assumes "0 \<le> c0" and "0 \<le> c1" and "c0 + 255 * int (length ps) \<le> INT_MAX"
    and "c1 + int (length ps) * c0 + 255 * tri (length ps) \<le> INT_MAX"
  shows "checksum_inner ps c0 c1 = Some (c0 + fl0 ps, c1 + int (length ps) * c0 + fl1 ps)"
  using assms
proof (induction ps arbitrary: c0 c1)
  case (Cons p ps)
  let ?n = "int (length ps)"
  have p: "0 \<le> uint p" "uint p \<le> 255" by (rule uint_byte)+
  have np: "(?n + 1) * uint p \<le> (?n + 1) * 255" by (rule mult_left_mono) (use p in auto)
  have nn: "0 \<le> ?n * (c0 + uint p)" using Cons.prems(1) p by simp
  have bound: "c1 + (c0 + uint p) + ?n * (c0 + uint p) + 255 * tri (length ps) \<le> INT_MAX"
    using Cons.prems(4) np by (simp add: algebra_simps)
  then have le: "c1 + (c0 + uint p) \<le> INT_MAX" using nn tri_nonneg [of "length ps"] by linarith
  have pos: "0 \<le> c0 + uint p" "0 \<le> c1 + (c0 + uint p)" using Cons.prems(1,2) by simp_all
  have le0: "c0 + uint p \<le> INT_MAX" using Cons.prems(3) p(2) by simp
  have a0: "c_add c0 (uint p) = Some (c0 + uint p)"
    using pos(1) le0 by (simp add: c_add_def INT_MAX_def)
  have a1: "c_add c1 (c0 + uint p) = Some (c1 + (c0 + uint p))"
    using pos(2) le by (simp add: c_add_def INT_MAX_def)
  have "checksum_inner ps (c0 + uint p) (c1 + (c0 + uint p))
      = Some (c0 + uint p + fl0 ps, c1 + (c0 + uint p) + ?n * (c0 + uint p) + fl1 ps)"
    using Cons.prems(3) p(2) pos bound by (intro Cons.IH) auto
  then show ?case by (simp add: a0 a1 algebra_simps)
qed simp

definition small :: "int \<Rightarrow> bool" where "small c \<longleftrightarrow> 0 \<le> c \<and> c < 255"

lemma checksum_block:
  assumes "small c0" and "small c1" and "length ps \<le> MODX"
  shows "checksum_inner ps c0 c1 = Some (c0 + fl0 ps, c1 + int (length ps) * c0 + fl1 ps)"
proof (rule checksum_inner_sums)
  have n: "int (length ps) \<le> 4102" using assms(3) by (simp add: MODX_def)
  have t: "tri (length ps) \<le> 8415253"
  proof -
    have "tri (length ps) \<le> tri 4102" using assms(3) by (intro tri_mono) (simp add: MODX_def)
    also have "2 * tri 4102 = 16830506" by (simp add: tri_closed)
    finally show ?thesis by simp
  qed
  have "int (length ps) * c0 \<le> 4102 * 254" using n assms(1) by (intro mult_mono) (auto simp: small_def)
  with t assms(2) show "c1 + int (length ps) * c0 + 255 * tri (length ps) \<le> INT_MAX" by (simp add: small_def INT_MAX_def)
  show "c0 + 255 * int (length ps) \<le> INT_MAX" using n assms(1) by (simp add: small_def INT_MAX_def)
qed (use assms in \<open>simp_all add: small_def\<close>)

lemma c_rem_mod: "0 \<le> a \<Longrightarrow> c_rem a 255 = a mod 255"
  by (simp add: c_rem_def)

lemma fl1_nonneg: "0 \<le> fl1 bs"
  by (induction bs) (auto simp: uint_byte)

lemma checksum_outer_sums:
  "small c0 \<Longrightarrow> small c1 \<Longrightarrow>
   checksum_outer bs c0 c1 = Some ((c0 + fl0 bs) mod 255, (c1 + int (length bs) * c0 + fl1 bs) mod 255)"
proof (induction bs c0 c1 rule: checksum_outer.induct)
  case (1 bs c0 c1)
  show ?case
  proof (cases "bs = []")
    case True
    with 1 show ?thesis by (simp add: checksum_outer.simps small_def)
  next
    case False
    let ?b = "take MODX bs" and ?r = "drop MODX bs"
    let ?d0 = "c0 + fl0 ?b" and ?d1 = "c1 + int (length ?b) * c0 + fl1 ?b"
    have inner: "checksum_inner ?b c0 c1 = Some (?d0, ?d1)" by (rule checksum_block [OF "1.prems"]) simp
    have nn: "0 \<le> ?d0" "0 \<le> ?d1"
      using "1.prems" fl0_nonneg [of ?b] fl1_nonneg [of ?b] by (auto simp: small_def)
    have r: "checksum_outer ?r (?d0 mod 255) (?d1 mod 255)
        = Some ((?d0 mod 255 + fl0 ?r) mod 255, (?d1 mod 255 + int (length ?r) * (?d0 mod 255) + fl1 ?r) mod 255)"
      using "1.IH" [OF False inner refl] nn by (simp add: c_rem_mod small_def)
    have "(?d0 mod 255 + fl0 ?r) mod 255 = (?d0 + fl0 ?r) mod 255" by (simp add: mod_simps)
    also have "?d0 + fl0 ?r = c0 + fl0 bs" using fl0_append [of ?b ?r] by simp
    finally have e0: "(?d0 mod 255 + fl0 ?r) mod 255 = (c0 + fl0 bs) mod 255" .
    have "(?d1 mod 255 + int (length ?r) * (?d0 mod 255) + fl1 ?r) mod 255 = (?d1 + int (length ?r) * ?d0 + fl1 ?r) mod 255"
      by (intro mod_add_cong mod_mult_cong refl) simp_all
    also have "?d1 + int (length ?r) * ?d0 + fl1 ?r = c1 + int (length ?b + length ?r) * c0 + fl1 (?b @ ?r)"
      unfolding fl1_append by (simp add: algebra_simps)
    also have "\<dots> = c1 + int (length bs) * c0 + fl1 bs" by (simp add: min_def)
    finally have e1: "(?d1 mod 255 + int (length ?r) * (?d0 mod 255) + fl1 ?r) mod 255 = (c1 + int (length bs) * c0 + fl1 bs) mod 255" .
    have "checksum_outer bs c0 c1 = checksum_outer ?r (?d0 mod 255) (?d1 mod 255)"
      unfolding checksum_outer.simps [of bs c0 c1] inner using False by (simp only: if_False bind.bind_lunit prod.case c_rem_mod [OF nn(1)] c_rem_mod [OF nn(2)])
    then show ?thesis unfolding r e0 e1 .
  qed
qed

section \<open>The check bytes\<close>

lemma be16_bytes:
  assumes "0 \<le> x" and "x < 256" and "0 \<le> y" and "y < 256"
  shows "be16 (word_of_int (x * 256 + y)) = [word_of_int x, word_of_int y]"
proof -
  define w where "w = (word_of_int (x * 256 + y) :: u16)"
  have u: "uint w = x * 256 + y"
    unfolding w_def uint_word_of_int using assms by simp
  have hi: "uint (drop_bit 8 w) = x"
    using assms by (simp add: drop_bit_eq_div uint_div u)
  have "ucast (drop_bit 8 w) = (word_of_int x :: u8)" unfolding ucast_eq hi by (rule refl)
  moreover have "ucast w = (word_of_int y :: u8)"
  proof -
    have "ucast w = (word_of_int (uint w) :: u8)" by (rule ucast_eq)
    also have "\<dots> = word_of_int y" unfolding u by (subst word_of_int_eq_iff) (simp add: take_bit_eq_mod)
    finally show ?thesis .
  qed
  ultimately show ?thesis unfolding be16_def w_def [symmetric] by simp
qed

text \<open>The values that the end of \<open>ospf6_lsa_checksum\<close> computes from the two sums.\<close>

definition check_x :: "int \<Rightarrow> int \<Rightarrow> int \<Rightarrow> int" where
  "check_x len c0 c1 = (let x = c_rem ((len - LSA_CHECKSUM_OFFSET) * c0 - c1) 255 in if x \<le> 0 then x + 255 else x)"

definition check_y :: "int \<Rightarrow> int \<Rightarrow> int" where
  "check_y c0 x = (let y = 510 - c0 - x in if y > 255 then y - 255 else y)"

lemma c_rem_cong: "c_rem a 255 mod 255 = a mod 255" "- 255 < c_rem a 255" "c_rem a 255 < 255"
proof -
  have "(- (- a mod 255)) mod 255 = a mod 255" by (simp add: mod_minus_eq)
  then show "c_rem a 255 mod 255 = a mod 255" by (simp add: c_rem_def)
  show "- 255 < c_rem a 255" "c_rem a 255 < 255"
    using pos_mod_sign [of 255 a] pos_mod_bound [of 255 a] pos_mod_sign [of 255 "- a"] pos_mod_bound [of 255 "- a"]
    by (auto simp: c_rem_def simp del: pos_mod_sign pos_mod_bound)
qed

lemma check_x_props: "check_x len c0 c1 mod 255 = ((len - 15) * c0 - c1) mod 255" "1 \<le> check_x len c0 c1" "check_x len c0 c1 \<le> 255"
proof -
  let ?a = "(len - LSA_CHECKSUM_OFFSET) * c0 - c1"
  show "check_x len c0 c1 mod 255 = ((len - 15) * c0 - c1) mod 255"
    using c_rem_cong(1) [of ?a] by (auto simp: check_x_def Let_def LSA_CHECKSUM_OFFSET_def)
  show "1 \<le> check_x len c0 c1" "check_x len c0 c1 \<le> 255"
    using c_rem_cong(2,3) [of ?a] by (auto simp: check_x_def Let_def)
qed

lemma check_y_props:
  assumes "small c0" and "1 \<le> x" and "x \<le> 255"
  shows "(c0 + x + check_y c0 x) mod 255 = 0" "0 \<le> check_y c0 x" "check_y c0 x \<le> 255"
  using assms by (auto simp: check_y_def small_def Let_def)

lemma check_sums:
  assumes "small c0" and "x mod 255 = ((len - 15) * c0 - c1) mod 255" and "(c0 + x + y) mod 255 = 0"
  shows "(c1 + (len - 14) * x + (len - 15) * y) mod 255 = 0"
proof -
  have "(c1 + (len - 14) * x + (len - 15) * y) = (len - 15) * (c0 + x + y) + (x - ((len - 15) * c0 - c1))"
    by (simp add: algebra_simps)
  moreover have "(x - ((len - 15) * c0 - c1)) mod 255 = 0" using assms(2) by (simp add: mod_eq_dvd_iff)
  moreover have "((len - 15) * (c0 + x + y)) mod 255 = 0" using assms(3) by (metis mod_mult_right_eq mult_zero_right mod_0)
  ultimately show ?thesis by (metis mod_add_eq add_0 mod_0)
qed

text \<open>Two zero bytes replaced by the check bytes.\<close>

lemma fletcher_fill:
  assumes "length pre = 14" and "len = length pre + 2 + length post"
    and "c0 = fl0 (pre @ [0, 0] @ post) mod 255" and "c1 = fl1 (pre @ [0, 0] @ post) mod 255"
    and "x = check_x (int len) c0 c1" and "y = check_y c0 x"
  shows "fletcher_ok (pre @ [word_of_int x, word_of_int y] @ post)"
proof -
  have sm: "small c0" using assms(3) by (simp add: small_def)
  note X = check_x_props [of "int len" c0 c1, folded assms(5)]
  note Y = check_y_props [OF sm X(2,3), folded assms(6)]
  have xy: "uint (word_of_int x :: u8) = x" "uint (word_of_int y :: u8) = y"
    using X(2,3) Y(2,3) by (simp_all add: uint_word_of_int take_bit_int_eq_self)
  let ?s0 = "fl0 pre + fl0 post" let ?s1 = "fl1 (pre @ [0, 0] @ post)"
  have 0: "fl0 (pre @ [word_of_int x, word_of_int y] @ post) = ?s0 + x + y" by (simp add: xy)
  have 1: "fl1 (pre @ [word_of_int x, word_of_int y] @ post) = ?s1 + (int len - 14) * x + (int len - 15) * y"
    using assms(1,2) by (simp add: xy algebra_simps)
  have "(?s0 + x + y) mod 255 = (c0 + x + y) mod 255" unfolding assms(3) by (intro mod_add_cong refl) simp
  moreover have "(?s1 + (int len - 14) * x + (int len - 15) * y) mod 255 = (c1 + (int len - 14) * x + (int len - 15) * y) mod 255"
    unfolding assms(4) by (intro mod_add_cong refl) simp
  ultimately show ?thesis
    unfolding fletcher_ok_def 0 1 using Y(1) check_sums [OF sm X(1) Y(1)] by simp
qed

lemma fl0_update:
  assumes "i < length bs"
  shows "fl0 (bs[i := b]) = fl0 bs + uint b - uint (bs ! i)"
proof -
  have "bs = take i bs @ bs ! i # drop (Suc i) bs" by (rule id_take_nth_drop [OF assms])
  from arg_cong [OF this, of fl0] have "fl0 bs = fl0 (take i bs) + uint (bs ! i) + fl0 (drop (Suc i) bs)" by simp
  then show ?thesis by (simp add: upd_conv_take_nth_drop [OF assms])
qed

lemma fletcher_detects:
  assumes "fletcher_ok bs" and "i < length bs" and "uint b mod 255 \<noteq> uint (bs ! i) mod 255"
  shows "\<not> fletcher_ok (bs[i := b])"
proof
  assume "fletcher_ok (bs[i := b])"
  then have "(fl0 bs + uint b - uint (bs ! i)) mod 255 = fl0 bs mod 255"
    using assms(1,2) by (simp add: fletcher_ok_def fl0_update)
  then have "255 dvd (uint b - uint (bs ! i))" by (simp add: mod_eq_dvd_iff)
  with assms(3) show False by (simp add: mod_eq_dvd_iff)
qed

lemma length_be [simp]: "length (be16 w) = 2" "length (be32 v) = 4"
  by (simp_all add: be16_def be32_def)

lemma be16_zero: "be16 0 = [0, 0]"
  by (simp add: be16_def)

text \<open>C3. For an LSA of which the whole length is in memory, the checksum is computed without
  signed overflow, only the checksum field changes, the bytes from the type field on pass
  Fletcher's check, and after a change of a single byte (other than between 0 and 255) they
  do not.\<close>

theorem lsa_checksum_verifies:
  assumes "lsa_header_size \<le> unat (lh_length h)" and "unat (lh_length h) \<le> lsa_header_size + length body"
  shows "\<exists>r. ospf6_lsa_checksum h body = Some (r, h\<lparr>lh_checksum := r\<rparr>)
    \<and> (let bs = take (unat (lh_length h) - 2) (lsa_tail (h\<lparr>lh_checksum := r\<rparr>) body) in
        fletcher_ok bs \<and> (\<forall>i b. i < length bs \<longrightarrow> uint b mod 255 \<noteq> uint (bs ! i) mod 255 \<longrightarrow> \<not> fletcher_ok (bs[i := b])))"
proof -
  let ?len = "unat (lh_length h) - 2"
  let ?pre = "be16 (lh_type h) @ be32 (lh_id h) @ be32 (lh_adv_router h) @ be32 (lh_seqnum h)"
  let ?post = "take (?len - 16) (be16 (lh_length h) @ body)"
  have len: "unat (lh_length h - 2) = ?len"
    using assms(1) by (subst unat_sub) (auto simp: word_le_nat_alt lsa_header_size_def)
  have ulen: "uint (lh_length h - 2) = int ?len" using len uint_nat [of "lh_length h - 2"] by simp
  have n: "18 \<le> ?len" "?len \<le> 18 + length body" using assms by (simp_all add: lsa_header_size_def)
  have pl: "length ?pre = 14" by simp
  have tail: "take ?len (lsa_tail (h\<lparr>lh_checksum := r\<rparr>) body) = ?pre @ be16 r @ ?post" for r
    using n(1) by (simp add: lsa_tail_def take_append)
  let ?bs = "?pre @ [0, 0] @ ?post"
  define c0 c1 where c: "c0 = fl0 ?bs mod 255" "c1 = fl1 ?bs mod 255"
  define x y where xy: "x = check_x (int ?len) c0 c1" "y = check_y c0 x"
  have outer: "checksum_outer ?bs 0 0 = Some (c0, c1)"
    using checksum_outer_sums [of 0 0 ?bs] by (simp add: small_def c)
  have fits: "?len \<le> length (lsa_tail (h\<lparr>lh_checksum := 0\<rparr>) body)" using n(2) by (simp add: lsa_tail_def)
  let ?r = "word_of_int (x * 256 + y) :: u16"
  have run: "ospf6_lsa_checksum h body = Some (?r, h\<lparr>lh_checksum := ?r\<rparr>)"
    using len ulen fits outer tail [of 0]
    by (simp add: ospf6_lsa_checksum_def Let_def be16_zero xy check_x_def check_y_def)
  have sm: "small c0" by (simp add: c small_def)
  have bx: "1 \<le> x" "x \<le> 255" using check_x_props(2,3) by (simp_all add: xy)
  have by': "0 \<le> y" "y \<le> 255" using check_y_props(2,3) [OF sm bx] by (simp_all add: xy)
  have "be16 ?r = [word_of_int x, word_of_int y]" using bx by' by (intro be16_bytes) auto
  moreover have "fletcher_ok (?pre @ [word_of_int x, word_of_int y] @ ?post)"
    by (rule fletcher_fill [OF pl _ c xy]) (use n in simp)
  ultimately have "fletcher_ok (take ?len (lsa_tail (h\<lparr>lh_checksum := ?r\<rparr>) body))" by (simp only: tail)
  with run fletcher_detects show ?thesis unfolding Let_def by blast
qed

theorem lsa_checksum_verifies_witness:
  "\<exists>r. ospf6_lsa_checksum \<lparr>lh_age = 1, lh_type = 0x2001, lh_id = 7, lh_adv_router = 0x01020304, lh_seqnum = 0x80000001,
        lh_checksum = 99, lh_length = 24\<rparr> [0, 0, 0, 0x33]
      = Some (r, \<lparr>lh_age = 1, lh_type = 0x2001, lh_id = 7, lh_adv_router = 0x01020304, lh_seqnum = 0x80000001,
        lh_checksum = r, lh_length = 24\<rparr>)"
proof -
  let ?h = "\<lparr>lh_age = 1, lh_type = 0x2001, lh_id = 7, lh_adv_router = 0x01020304, lh_seqnum = 0x80000001,
        lh_checksum = 99, lh_length = 24\<rparr> :: ospf6_lsa_header"
  from lsa_checksum_verifies [of ?h "[0, 0, 0, 0x33]"] show ?thesis by (auto simp: lsa_header_size_def)
qed

section \<open>Comparison and age\<close>

lemma age_current_fields [simp]:
  "lsa_header (snd (ospf6_lsa_age_current now a)) = (lsa_header a)\<lparr>lh_age := fst (ospf6_lsa_age_current now a)\<rparr>"
  by (simp add: ospf6_lsa_age_current_def set_age_def Let_def)

lemma age_current_bound: "fst (ospf6_lsa_age_current now a) \<le> MAXAGE"
proof -
  have "ucast u \<le> MAXAGE" if "\<not> u > ucast MAXAGE" for u :: u32
    using that by (simp add: MAXAGE_def word_le_nat_alt word_less_nat_alt unsigned_ucast_eq take_bit_nat_eq_self)
  then show ?thesis by (auto simp: ospf6_lsa_age_current_def Let_def)
qed

text \<open>C5. The age of an LSA never exceeds the maximum, and an LSA sent with a transmission delay
  that does not overflow 16 bits is aged by exactly that delay, up to the maximum.\<close>

theorem lsa_age_bounds:
  assumes "unat transdelay \<le> 61935"
  shows "unat (fst (ospf6_lsa_age_current now a)) \<le> 3600
    \<and> unat (lh_age (lsa_header (ospf6_lsa_age_update_to_send now transdelay a)))
        = min 3600 (unat (fst (ospf6_lsa_age_current now a)) + unat transdelay)"
proof -
  let ?c = "fst (ospf6_lsa_age_current now a)"
  have b: "unat ?c \<le> 3600" using age_current_bound [of now a] by (simp add: MAXAGE_def word_le_nat_alt)
  have "unat (ucast ?c + transdelay :: u32) = unat ?c + unat transdelay"
    using b assms by (subst unat_add_lem [THEN iffD1]) (simp_all add: unsigned_ucast_eq take_bit_nat_eq_self)
  then have s: "unat (ucast (ucast ?c + transdelay :: u32) :: u16) = unat ?c + unat transdelay"
    using b assms by (simp add: unsigned_ucast_eq take_bit_nat_eq_self)
  have "lh_age (lsa_header (ospf6_lsa_age_update_to_send now transdelay a))
      = (if (ucast (ucast ?c + transdelay :: u32) :: u16) > MAXAGE then MAXAGE else ucast (ucast ?c + transdelay :: u32))"
    by (simp add: ospf6_lsa_age_update_to_send_def set_age_def Let_def case_prod_unfold)
  then show ?thesis using b s by (auto simp: MAXAGE_def word_less_nat_alt min_def)
qed

definition example_lsa :: "u32 \<Rightarrow> u16 \<Rightarrow> ospf6_lsa" where
  "example_lsa seqnum checksum = (lsa_zero \<lparr>lh_age = 1, lh_type = 0x2001, lh_id = 0, lh_adv_router = 1, lh_seqnum = seqnum,
     lh_checksum = checksum, lh_length = 20\<rparr> [])\<lparr>lsa_birth := \<lparr>tv_sec = 90, tv_usec = 0\<rparr>\<rparr>"

theorem lsa_age_bounds_witness:
  "unat (1 :: u32) \<le> 61935 \<and> unat (fst (ospf6_lsa_age_current \<lparr>tv_sec = 100, tv_usec = 0\<rparr> (example_lsa 5 0))) \<le> 3600"
  using lsa_age_bounds [of 1 "\<lparr>tv_sec = 100, tv_usec = 0\<rparr>" "example_lsa 5 0"] by simp

lemma set_age_simps [simp]:
  "lh_age (lsa_header (set_age n a)) = n" "lh_length (lsa_header (set_age n a)) = lh_length (lsa_header a)"
  "lsa_body (set_age n a) = lsa_body a"
  by (simp_all add: set_age_def)

lemma lsa_zero_simps [simp]: "lsa_header (lsa_zero h bs) = h" "lsa_body (lsa_zero h bs) = bs"
  by (simp_all add: lsa_zero_def)

lemma age_current_set: "snd (ospf6_lsa_age_current now a) = set_age (fst (ospf6_lsa_age_current now a)) a"
  by (simp add: ospf6_lsa_age_current_def Let_def)

text \<open>C4. Two instances of the same LSA are ordered by sequence number (as signed numbers). For
  equal sequence numbers and checksums the comparison is antisymmetric; when the checksums
  differ it is not: the instance with the larger checksum is found more recent in one
  order of the arguments, and the two are found equal in the other.\<close>

theorem lsa_compare_order:
  assumes "OSPF6_LSA_IS_SAME a b"
  shows "\<exists>r a1 b1 r' a2 b2. ospf6_lsa_compare now a b = Some (r, a1, b1) \<and> ospf6_lsa_compare now b a = Some (r', b2, a2)
    \<and> (sint (lh_seqnum (lsa_header a)) < sint (lh_seqnum (lsa_header b)) \<longrightarrow> r = 1 \<and> r' = -1)
    \<and> (lh_checksum (lsa_header a) = lh_checksum (lsa_header b) \<longrightarrow> r' = - r)
    \<and> (lh_seqnum (lsa_header a) = lh_seqnum (lsa_header b) \<and> lh_checksum (lsa_header a) < lh_checksum (lsa_header b) \<longrightarrow> r = 0 \<and> r' = -1)"
proof -
  obtain agea a3 where A: "ospf6_lsa_age_current now a = (agea, a3)" by (cases "ospf6_lsa_age_current now a")
  obtain ageb b3 where B: "ospf6_lsa_age_current now b = (ageb, b3)" by (cases "ospf6_lsa_age_current now b")
  have same: "OSPF6_LSA_IS_SAME b a" using assms by (auto simp: OSPF6_LSA_IS_SAME_def)
  consider "sint (lh_seqnum (lsa_header a)) < sint (lh_seqnum (lsa_header b))"
    | "sint (lh_seqnum (lsa_header b)) < sint (lh_seqnum (lsa_header a))"
    | "lh_seqnum (lsa_header a) = lh_seqnum (lsa_header b)" by (metis linorder_neqE signed_word_eqI)
  then show ?thesis
  proof cases
    case seq: 3
    consider "lh_checksum (lsa_header a) < lh_checksum (lsa_header b)" | "lh_checksum (lsa_header b) < lh_checksum (lsa_header a)"
      | "lh_checksum (lsa_header a) = lh_checksum (lsa_header b)" by fastforce
    then show ?thesis
    proof cases
      case 3
      with seq assms same show ?thesis
        by (simp add: ospf6_lsa_compare_def A B MAX_AGE_DIFF_def)
    qed (use seq assms same in \<open>auto simp: ospf6_lsa_compare_def\<close>)
  qed (use assms same in \<open>auto simp: ospf6_lsa_compare_def\<close>)
qed

theorem lsa_compare_order_witness:
  "\<exists>a1 b1 a2 b2. ospf6_lsa_compare timeval_zero (example_lsa 5 1) (example_lsa 5 2) = Some (0, a1, b1)
     \<and> ospf6_lsa_compare timeval_zero (example_lsa 5 2) (example_lsa 5 1) = Some (-1, b2, a2)"
proof -
  have "OSPF6_LSA_IS_SAME (example_lsa 5 1) (example_lsa 5 2)"
    by (simp add: OSPF6_LSA_IS_SAME_def example_lsa_def lsa_zero_def)
  from lsa_compare_order [OF this, of timeval_zero] show ?thesis by (auto simp: example_lsa_def lsa_zero_def)
qed

definition complete_lsa :: "ospf6_lsa \<Rightarrow> bool" where
  "complete_lsa a \<longleftrightarrow> lsa_flag a AND OSPF6_LSA_HEADERONLY = 0 \<and> lsa_header_size < unat (lh_length (lsa_header a))
     \<and> length (lsa_body a) = unat (lh_length (lsa_header a)) - lsa_header_size"

lemma age_current_idem:
  "fst (ospf6_lsa_age_current now a) = fst (ospf6_lsa_age_current now b)"
  if "lsa_birth a = lsa_birth b" and "lh_age (lsa_header a) < MAXAGE \<longleftrightarrow> lh_age (lsa_header b) < MAXAGE"
  using that by (auto simp: ospf6_lsa_age_current_def Let_def)

text \<open>A copy of an LSA that is complete in memory has the same header (with the age brought up
  to date), body and times, is unreferenced, and is found unchanged and equally recent.\<close>

theorem lsa_copy_same:
  assumes "complete_lsa a"
  shows "\<exists>c a'. ospf6_lsa_copy now a = Some (c, a') \<and> lsa_header c = lsa_header a' \<and> lsa_body c = lsa_body a
    \<and> lsa_lock c = 0 \<and> lsa_birth c = lsa_birth a
    \<and> lsa_header a' = (lsa_header a)\<lparr>lh_age := fst (ospf6_lsa_age_current now a)\<rparr>
    \<and> (\<exists>c1 a1. ospf6_lsa_is_changed now a' c = Some (False, a1, c1)) \<and> (\<exists>c1 a1. ospf6_lsa_compare now a' c = Some (0, a1, c1))"
proof -
  obtain w where w: "ospf6_lsa_age_current now a = (w, set_age w a)" by (metis age_current_set prod.collapse)
  let ?a = "set_age w a"
  let ?c = "(lsa_zero (lsa_header ?a) (lsa_body a))\<lparr>lsa_birth := lsa_birth a, lsa_originated := lsa_originated a,
    lsa_received := lsa_received a, lsa_installed := lsa_installed a, lsa_lsdb := lsa_lsdb a\<rparr>"
  have copy: "ospf6_lsa_copy now a = Some (?c, ?a)"
    using assms w by (simp add: ospf6_lsa_copy_def complete_lsa_def ospf6_lsa_create_def Let_def ospf6_lsa_age_set_def set_age_def lsa_zero_def)
  have age: "fst (ospf6_lsa_age_current now ?a) = fst (ospf6_lsa_age_current now ?c)"
    by (rule age_current_idem) (simp_all add: set_age_def lsa_zero_def)
  obtain x a1 where A: "ospf6_lsa_age_current now ?a = (x, a1)" by (cases "ospf6_lsa_age_current now ?a")
  with age obtain c1 where C: "ospf6_lsa_age_current now ?c = (x, c1)" by (cases "ospf6_lsa_age_current now ?c") auto
  have f: "lsa_body a1 = lsa_body a" "lsa_body c1 = lsa_body a" "lh_length (lsa_header a1) = lh_length (lsa_header a)"
    "lh_length (lsa_header c1) = lh_length (lsa_header a)"
    using age_current_set [of now ?a] age_current_set [of now ?c] A C by (auto simp: lsa_zero_def)
  have "ospf6_lsa_is_changed now ?a ?c = Some (False, a1, c1)"
    using assms f by (simp add: ospf6_lsa_is_changed_def OSPF6_LSA_IS_MAXAGE_def A C bodies_differ_def complete_lsa_def)
  moreover have "ospf6_lsa_compare now ?a ?c = Some (0, a1, c1)"
    by (simp add: ospf6_lsa_compare_def A C OSPF6_LSA_IS_SAME_def)
  ultimately show ?thesis using copy w by (auto simp: set_age_def lsa_zero_def)
qed

end
