(* ===== verification/Ospf6_Lsdb.thy ===== *)
theory Ospf6_Lsdb
  imports Lib_Table_Iter Ospf6_Lsa_Checksum Lib_Links
begin

text \<open>
  The link state database, \<open>ospf6-sibling/ospf6_lsdb.c\<close>: a radix tree whose keys are the
  type, the advertising router and the id of an LSA, and whose entries are also linked to
  their neighbours in key order. LSAs are shared between databases, so the tree and the
  links hold addresses into a heap of LSAs. Calls of the hooks are recorded in order.
\<close>

section \<open>Data\<close>

type_synonym lsa_heap = "nat \<Rightarrow> ospf6_lsa option"

datatype hook_call = HookAdd nat | HookRemove nat

record ospf6_lsdb =
  db_count :: u32
  db_table :: "nat route_table"
  db_hook_add :: bool
  db_hook_remove :: bool

definition ospf6_lsdb_create :: ospf6_lsdb where
  "ospf6_lsdb_create = \<lparr>db_count = 0, db_table = route_table_init, db_hook_add = False, db_hook_remove = False\<rparr>"

definition INITIAL_SEQUENCE_NUMBER :: u32 where "INITIAL_SEQUENCE_NUMBER = 0x80000001"

section \<open>Keys\<close>

definition key_zero :: prefix where
  "key_zero = \<lparr>pfx_family = 0, pfx_prefixlen = 0, pfx_u = replicate 16 0\<rparr>"

definition ospf6_lsdb_set_key :: "prefix \<Rightarrow> u8 list \<Rightarrow> prefix option" where
  "ospf6_lsdb_set_key key bytes =
     (let i = unat (pfx_prefixlen key) div 8 in
      if unat (pfx_prefixlen key) mod 8 = 0 \<and> i + length bytes \<le> length (pfx_u key)
      then Some \<lparr>pfx_family = AF_INET6, pfx_prefixlen = pfx_prefixlen key + word_of_nat (length bytes * 8),
             pfx_u = take i (pfx_u key) @ bytes @ drop (i + length bytes) (pfx_u key)\<rparr>
      else None)"

definition lsdb_key :: "u16 \<Rightarrow> u32 \<Rightarrow> u32 \<Rightarrow> prefix option" where
  "lsdb_key type adv_router lsid =
     do {
       key \<leftarrow> ospf6_lsdb_set_key key_zero (be16 type);
       key \<leftarrow> ospf6_lsdb_set_key key (be32 adv_router);
       ospf6_lsdb_set_key key (be32 lsid)
     }"

section \<open>Lookup\<close>

text \<open>\<open>route_node_lookup\<close> locks the node it returns; the lock is never released here.\<close>

definition ospf6_lsdb_lookup :: "u16 \<Rightarrow> u32 \<Rightarrow> u32 \<Rightarrow> ospf6_lsdb \<Rightarrow> (nat option \<times> ospf6_lsdb) option" where
  "ospf6_lsdb_lookup type lsid adv_router lsdb =
     do {
       key \<leftarrow> lsdb_key type adv_router lsid;
       (node, t) \<leftarrow> route_node_lookup (db_table lsdb) key;
       let lsdb = lsdb\<lparr>db_table := t\<rparr>;
       (case node of None \<Rightarrow> Some (None, lsdb)
        | Some a \<Rightarrow> do { n \<leftarrow> rt_nodes t a; Some (rn_info n, lsdb) })
     }"

text \<open>The number is a \<open>signed long\<close>, then truncated to 32 bits.\<close>

definition ospf6_new_ls_seqnum :: "u16 \<Rightarrow> u32 \<Rightarrow> u32 \<Rightarrow> lsa_heap \<Rightarrow> ospf6_lsdb \<Rightarrow> (u32 \<times> ospf6_lsdb) option" where
  "ospf6_new_ls_seqnum type lsid adv_router H lsdb =
     do {
       (lsa, lsdb) \<leftarrow> ospf6_lsdb_lookup type lsid adv_router lsdb;
       (case lsa of None \<Rightarrow> Some (INITIAL_SEQUENCE_NUMBER, lsdb)
        | Some a \<Rightarrow> do { l \<leftarrow> H a; Some (word_of_int (uint (lh_seqnum (lsa_header l)) + 1), lsdb) })
     }"

section \<open>Insertion\<close>

definition heap_unlock :: "nat \<Rightarrow> lsa_heap \<Rightarrow> lsa_heap option" where
  "heap_unlock a H = do { l \<leftarrow> H a; l' \<leftarrow> ospf6_lsa_unlock l; Some (H(a := l')) }"

text \<open>The loops that skip the nodes without information.\<close>

partial_function (option) skip_next :: "addr \<Rightarrow> nat route_table \<Rightarrow> (addr option \<times> nat route_table) option" where
  "skip_next node t =
     do {
       (nx, t) \<leftarrow> route_next node t;
       (case nx of None \<Rightarrow> Some (None, t)
        | Some a \<Rightarrow> do { n \<leftarrow> rt_nodes t a; if rn_info n = None then skip_next a t else Some (Some a, t) })
     }"

partial_function (option) skip_prev :: "addr \<Rightarrow> nat route_table \<Rightarrow> (addr option \<times> nat route_table) option" where
  "skip_prev node t =
     do {
       (pv, t) \<leftarrow> route_prev node t;
       (case pv of None \<Rightarrow> Some (None, t)
        | Some a \<Rightarrow> do { n \<leftarrow> rt_nodes t a; if rn_info n = None then skip_prev a t else Some (Some a, t) })
     }"

declare skip_next.simps [code] skip_prev.simps [code]

text \<open>The next entry is linked in behind the new one, the previous entry before it.\<close>

definition link_next :: "addr \<Rightarrow> nat \<Rightarrow> nat route_table \<Rightarrow> lsa_heap \<Rightarrow> (nat route_table \<times> lsa_heap) option" where
  "link_next current lsa t H =
     do {
       t \<leftarrow> route_lock_node current t;
       (nextnode, t) \<leftarrow> skip_next current t;
       (case nextnode of
          None \<Rightarrow> do { H \<leftarrow> heap_upd lsa (\<lambda>l. l\<lparr>lsa_next := None\<rparr>) H; Some (t, H) }
        | Some a \<Rightarrow>
            do {
              n \<leftarrow> rt_nodes t a;
              next \<leftarrow> rn_info n;
              H \<leftarrow> heap_upd lsa (\<lambda>l. l\<lparr>lsa_next := Some next\<rparr>) H;
              H \<leftarrow> heap_upd next (\<lambda>l. l\<lparr>lsa_prev := Some lsa\<rparr>) H;
              t \<leftarrow> route_unlock_node a t;
              Some (t, H)
            })
     }"

definition link_prev :: "addr \<Rightarrow> nat \<Rightarrow> nat route_table \<Rightarrow> lsa_heap \<Rightarrow> (nat route_table \<times> lsa_heap) option" where
  "link_prev current lsa t H =
     do {
       t \<leftarrow> route_lock_node current t;
       (prevnode, t) \<leftarrow> skip_prev current t;
       (case prevnode of
          None \<Rightarrow> do { H \<leftarrow> heap_upd lsa (\<lambda>l. l\<lparr>lsa_prev := None\<rparr>) H; Some (t, H) }
        | Some a \<Rightarrow>
            do {
              n \<leftarrow> rt_nodes t a;
              prev \<leftarrow> rn_info n;
              H \<leftarrow> heap_upd lsa (\<lambda>l. l\<lparr>lsa_prev := Some prev\<rparr>) H;
              H \<leftarrow> heap_upd prev (\<lambda>l. l\<lparr>lsa_next := Some lsa\<rparr>) H;
              t \<leftarrow> route_unlock_node a t;
              Some (t, H)
            })
     }"

definition is_maxage_at :: "timeval \<Rightarrow> nat \<Rightarrow> lsa_heap \<Rightarrow> (bool \<times> lsa_heap) option" where
  "is_maxage_at now a H = do { l \<leftarrow> H a; let (m, l) = OSPF6_LSA_IS_MAXAGE now l; Some (m, H(a \<mapsto> l)) }"

definition is_changed_at :: "timeval \<Rightarrow> nat \<Rightarrow> nat \<Rightarrow> lsa_heap \<Rightarrow> (bool \<times> lsa_heap) option" where
  "is_changed_at now a b H =
     do {
       la \<leftarrow> H a;
       lb \<leftarrow> H b;
       (c, la, lb) \<leftarrow> ospf6_lsa_is_changed now la lb;
       Some (c, H(a \<mapsto> la, b \<mapsto> lb))
     }"

definition hook_add :: "ospf6_lsdb \<Rightarrow> nat \<Rightarrow> hook_call list" where
  "hook_add lsdb a = (if db_hook_add lsdb then [HookAdd a] else [])"

definition hook_remove :: "ospf6_lsdb \<Rightarrow> nat \<Rightarrow> hook_call list" where
  "hook_remove lsdb a = (if db_hook_remove lsdb then [HookRemove a] else [])"

text \<open>Which hooks a new instance of an LSA triggers.\<close>

definition add_hooks :: "timeval \<Rightarrow> nat option \<Rightarrow> nat \<Rightarrow> ospf6_lsdb \<Rightarrow> lsa_heap \<Rightarrow> (hook_call list \<times> lsa_heap) option" where
  "add_hooks now old lsa lsdb H =
     (case old of
        Some o' \<Rightarrow>
          do {
            (changed, H) \<leftarrow> is_changed_at now o' lsa H;
            if changed
            then do {
                   (m, H) \<leftarrow> is_maxage_at now lsa H;
                   if m then Some (hook_remove lsdb o' @ hook_remove lsdb lsa, H)
                   else do {
                          (mo, H) \<leftarrow> is_maxage_at now o' H;
                          if mo then Some (hook_add lsdb lsa, H)
                          else Some (hook_remove lsdb o' @ hook_add lsdb lsa, H)
                        }
                 }
            else Some ([], H)
          }
      | None \<Rightarrow>
          do {
            (m, H) \<leftarrow> is_maxage_at now lsa H;
            Some (if m then hook_remove lsdb lsa else hook_add lsdb lsa, H)
          })"

definition lsa_key_of :: "ospf6_lsa \<Rightarrow> prefix option" where
  "lsa_key_of l = lsdb_key (lh_type (lsa_header l)) (lh_adv_router (lsa_header l)) (lh_id (lsa_header l))"

definition ospf6_lsdb_add :: "timeval \<Rightarrow> nat \<Rightarrow> ospf6_lsdb \<Rightarrow> lsa_heap \<Rightarrow> (hook_call list \<times> ospf6_lsdb \<times> lsa_heap) option" where
  "ospf6_lsdb_add now lsa lsdb H =
     do {
       l \<leftarrow> H lsa;
       key \<leftarrow> lsa_key_of l;
       (current, t) \<leftarrow> route_node_get (db_table lsdb) key;
       n \<leftarrow> rt_nodes t current;
       let old = rn_info n;
       t \<leftarrow> route_node_info current (Some lsa) t;
       H \<leftarrow> heap_upd lsa ospf6_lsa_lock H;
       (t, H, count) \<leftarrow>
         (case old of
            Some o' \<Rightarrow>
              do {
                ol \<leftarrow> H o';
                H \<leftarrow> heap_upd_opt (lsa_prev ol) (\<lambda>l. l\<lparr>lsa_next := Some lsa\<rparr>) H;
                H \<leftarrow> heap_upd_opt (lsa_next ol) (\<lambda>l. l\<lparr>lsa_prev := Some lsa\<rparr>) H;
                ol \<leftarrow> H o';
                H \<leftarrow> heap_upd lsa (\<lambda>l. l\<lparr>lsa_next := lsa_next ol\<rparr>) H;
                ol \<leftarrow> H o';
                H \<leftarrow> heap_upd lsa (\<lambda>l. l\<lparr>lsa_prev := lsa_prev ol\<rparr>) H;
                Some (t, H, db_count lsdb)
              }
          | None \<Rightarrow>
              do {
                (t, H) \<leftarrow> link_next current lsa t H;
                (t, H) \<leftarrow> link_prev current lsa t H;
                Some (t, H, db_count lsdb + 1)
              });
       let lsdb = lsdb\<lparr>db_table := t, db_count := count\<rparr>;
       (hooks, H) \<leftarrow> add_hooks now old lsa lsdb H;
       H \<leftarrow> (case old of None \<Rightarrow> Some H | Some o' \<Rightarrow> heap_unlock o' H);
       Some (hooks, lsdb, H)
     }"

section \<open>Removal\<close>

definition ospf6_lsdb_remove :: "nat \<Rightarrow> ospf6_lsdb \<Rightarrow> lsa_heap \<Rightarrow> (hook_call list \<times> ospf6_lsdb \<times> lsa_heap) option" where
  "ospf6_lsdb_remove lsa lsdb H =
     do {
       l \<leftarrow> H lsa;
       key \<leftarrow> lsa_key_of l;
       (node, t) \<leftarrow> route_node_lookup (db_table lsdb) key;
       a \<leftarrow> node;
       n \<leftarrow> rt_nodes t a;
       if rn_info n \<noteq> Some lsa then None
       else do {
              H \<leftarrow> heap_upd_opt (lsa_prev l) (\<lambda>p. p\<lparr>lsa_next := lsa_next l\<rparr>) H;
              H \<leftarrow> heap_upd_opt (lsa_next l) (\<lambda>p. p\<lparr>lsa_prev := lsa_prev l\<rparr>) H;
              t \<leftarrow> route_node_info a None t;
              let hooks = hook_remove lsdb lsa;
              H \<leftarrow> heap_unlock lsa H;
              t \<leftarrow> route_unlock_node a t;
              Some (hooks, lsdb\<lparr>db_table := t, db_count := db_count lsdb - 1\<rparr>, H)
            }
     }"

section \<open>Iteration\<close>

text \<open>\<open>ospf6_lsdb_head\<close> and the two restricted heads share the search for the first entry
  from a locked node on; the node is unlocked before its entry is read.\<close>

definition first_entry :: "addr option \<Rightarrow> nat route_table \<Rightarrow> (addr option \<times> nat route_table) option" where
  "first_entry node t =
     (case node of None \<Rightarrow> Some (None, t)
      | Some a \<Rightarrow> do { n \<leftarrow> rt_nodes t a; if rn_info n = None then skip_next a t else Some (Some a, t) })"

definition ospf6_lsdb_head :: "ospf6_lsdb \<Rightarrow> lsa_heap \<Rightarrow> (nat option \<times> ospf6_lsdb \<times> lsa_heap) option" where
  "ospf6_lsdb_head lsdb H =
     do {
       (node, t) \<leftarrow> route_top (db_table lsdb);
       (node, t) \<leftarrow> first_entry node t;
       (case node of None \<Rightarrow> Some (None, lsdb\<lparr>db_table := t\<rparr>, H)
        | Some a \<Rightarrow>
            do {
              t \<leftarrow> route_unlock_node a t;
              n \<leftarrow> rt_nodes t a;
              (case rn_info n of None \<Rightarrow> Some (None, lsdb\<lparr>db_table := t\<rparr>, H)
               | Some l \<Rightarrow> do { H \<leftarrow> heap_upd l ospf6_lsa_lock H; Some (Some l, lsdb\<lparr>db_table := t\<rparr>, H) })
            })
     }"

definition ospf6_lsdb_next :: "nat \<Rightarrow> lsa_heap \<Rightarrow> (nat option \<times> lsa_heap) option" where
  "ospf6_lsdb_next lsa H =
     do {
       l \<leftarrow> H lsa;
       H \<leftarrow> heap_unlock lsa H;
       H \<leftarrow> heap_upd_opt (lsa_next l) ospf6_lsa_lock H;
       Some (lsa_next l, H)
     }"

partial_function (option) walk_down :: "prefix \<Rightarrow> addr option \<Rightarrow> nat route_table \<Rightarrow> addr option option" where
  "walk_down key node t =
     (case node of None \<Rightarrow> Some None
      | Some a \<Rightarrow>
          do {
            n \<leftarrow> rt_nodes t a;
            m \<leftarrow> (if pfx_prefixlen (rn_p n) \<le> pfx_prefixlen key then prefix_match (rn_p n) key else Some 0);
            if m \<noteq> 0
            then do { b \<leftarrow> prefix_bit (pfx_u key) (pfx_prefixlen (rn_p n)); walk_down key (node_link n b) t }
            else Some (Some a)
          })"

declare walk_down.simps [code]

text \<open>The common part of the restricted heads: the first entry under a key, which gets a
  reference.\<close>

definition head_under :: "prefix \<Rightarrow> ospf6_lsdb \<Rightarrow> lsa_heap \<Rightarrow> (nat option \<times> ospf6_lsdb \<times> lsa_heap) option" where
  "head_under key lsdb H =
     do {
       node \<leftarrow> walk_down key (rt_top (db_table lsdb)) (db_table lsdb);
       t \<leftarrow> (case node of None \<Rightarrow> Some (db_table lsdb) | Some a \<Rightarrow> route_lock_node a (db_table lsdb));
       (node, t) \<leftarrow> first_entry node t;
       (case node of None \<Rightarrow> Some (None, lsdb\<lparr>db_table := t\<rparr>, H)
        | Some a \<Rightarrow>
            do {
              t \<leftarrow> route_unlock_node a t;
              n \<leftarrow> rt_nodes t a;
              m \<leftarrow> prefix_match key (rn_p n);
              if m = 0 then Some (None, lsdb\<lparr>db_table := t\<rparr>, H)
              else do {
                     l \<leftarrow> rn_info n;
                     H \<leftarrow> heap_upd l ospf6_lsa_lock H;
                     Some (Some l, lsdb\<lparr>db_table := t\<rparr>, H)
                   }
            })
     }"

definition ospf6_lsdb_type_router_head :: "u16 \<Rightarrow> u32 \<Rightarrow> ospf6_lsdb \<Rightarrow> lsa_heap \<Rightarrow> (nat option \<times> ospf6_lsdb \<times> lsa_heap) option" where
  "ospf6_lsdb_type_router_head type adv_router lsdb H =
     do {
       key \<leftarrow> ospf6_lsdb_set_key key_zero (be16 type);
       key \<leftarrow> ospf6_lsdb_set_key key (be32 adv_router);
       head_under key lsdb H
     }"

definition ospf6_lsdb_type_head :: "u16 \<Rightarrow> ospf6_lsdb \<Rightarrow> lsa_heap \<Rightarrow> (nat option \<times> ospf6_lsdb \<times> lsa_heap) option" where
  "ospf6_lsdb_type_head type lsdb H = do { key \<leftarrow> ospf6_lsdb_set_key key_zero (be16 type); head_under key lsdb H }"

text \<open>The restricted successors: the link to the next entry if it satisfies a condition; the
  next entry is referenced before the current one is released.\<close>

definition next_if :: "(ospf6_lsa_header \<Rightarrow> bool) \<Rightarrow> nat \<Rightarrow> lsa_heap \<Rightarrow> (nat option \<times> lsa_heap) option" where
  "next_if P lsa H =
     do {
       l \<leftarrow> H lsa;
       next \<leftarrow> (case lsa_next l of None \<Rightarrow> Some None
                | Some b \<Rightarrow> do { lb \<leftarrow> H b; Some (if P (lsa_header lb) then Some b else None) });
       H \<leftarrow> heap_upd_opt next ospf6_lsa_lock H;
       H \<leftarrow> heap_unlock lsa H;
       Some (next, H)
     }"

definition ospf6_lsdb_type_router_next :: "u16 \<Rightarrow> u32 \<Rightarrow> nat \<Rightarrow> lsa_heap \<Rightarrow> (nat option \<times> lsa_heap) option" where
  "ospf6_lsdb_type_router_next type adv_router lsa H =
     next_if (\<lambda>h. \<not> (lh_type h \<noteq> type \<or> lh_adv_router h \<noteq> adv_router)) lsa H"

definition ospf6_lsdb_type_next :: "u16 \<Rightarrow> nat \<Rightarrow> lsa_heap \<Rightarrow> (nat option \<times> lsa_heap) option" where
  "ospf6_lsdb_type_next type lsa H = next_if (\<lambda>h. \<not> lh_type h \<noteq> type) lsa H"

partial_function (option) remove_from ::
  "nat option \<Rightarrow> ospf6_lsdb \<Rightarrow> lsa_heap \<Rightarrow> (hook_call list \<times> ospf6_lsdb \<times> lsa_heap) option" where
  "remove_from lsa lsdb H =
     (case lsa of None \<Rightarrow> Some ([], lsdb, H)
      | Some a \<Rightarrow>
          do {
            (hooks, lsdb, H) \<leftarrow> ospf6_lsdb_remove a lsdb H;
            (next, H) \<leftarrow> ospf6_lsdb_next a H;
            (rest, lsdb, H) \<leftarrow> remove_from next lsdb H;
            Some (hooks @ rest, lsdb, H)
          })"

declare remove_from.simps [code]

definition ospf6_lsdb_remove_all :: "ospf6_lsdb \<Rightarrow> lsa_heap \<Rightarrow> (hook_call list \<times> ospf6_lsdb \<times> lsa_heap) option" where
  "ospf6_lsdb_remove_all lsdb H =
     do { (lsa, lsdb, H) \<leftarrow> ospf6_lsdb_head lsdb H; remove_from lsa lsdb H }"

end
