(* ===== verification/Lib_Table_Tidy.thy ===== *)
theory Lib_Table_Tidy
  imports Lib_Table_Iter
begin

text \<open>
  Tables in which an unlocked node is only ever a branching point. There releasing a lock
  never deletes a node, so that \<open>route_next\<close> and \<open>route_prev\<close> of \<open>lib/table.c\<close> only hand the
  lock over to the neighbour in the order of the prefixes.
\<close>

section \<open>Tidy tables\<close>

definition tidy :: "'a route_table \<Rightarrow> bool" where
  "tidy t \<longleftrightarrow> (\<forall>a n. rt_nodes t a = Some n \<and> rn_lock n = 0 \<longrightarrow> rn_info n = None \<and> branching t a)"

text \<open>Every lock can be taken \<open>k\<close> more times.\<close>

definition slack :: "nat \<Rightarrow> 'a route_table \<Rightarrow> bool" where
  "slack k t \<longleftrightarrow> (\<forall>a n. rt_nodes t a = Some n \<longrightarrow> unat (rn_lock n) + k < 2 ^ 32)"

lemma slack_mono: "slack k t \<Longrightarrow> j \<le> k \<Longrightarrow> slack j t"
  unfolding slack_def by (meson add_left_mono le_less_trans)

lemma tidy_info_locked: "tidy t \<Longrightarrow> info_locked t"
  by (auto simp: tidy_def info_locked_def)

lemma tidy_init [simp]: "tidy route_table_init" and slack_init [simp]: "slack k route_table_init"
  by (simp_all add: tidy_def slack_def route_table_init_def)

lemma lock_step:
  assumes "unat (k :: u32) + Suc j < 2 ^ 32"
  shows "k + 1 \<noteq> 0" and "unat (k + 1) + j < 2 ^ 32"
proof -
  have "k < 0xffffffff" using assms by (simp add: word_less_nat_alt)
  then have "unat (k + 1) = Suc (unat k)" by (rule unat_plus_one_less)
  then show "k + 1 \<noteq> 0" "unat (k + 1) + j < 2 ^ 32" using assms by (auto simp del: add_eq_0_iff2)
qed

lemma slack_lock_at: "slack (Suc k) t \<Longrightarrow> slack k (lock_at b t)"
  unfolding slack_def using lock_step(2) [of _ k] by (fastforce simp: lock_at_nodes intro: less_trans)

lemma branching_cong:
  assumes "pfx_of (rt_nodes t') = pfx_of (rt_nodes t)"
  shows "branching t' a = branching t a"
proof -
  have "dom (rt_nodes t') = dom (rt_nodes t)"
    using fun_cong [OF assms] by (auto simp: pfx_of_def dom_def) (metis map_option_is_None option.distinct(1) option.exhaust)+
  with assms show ?thesis by (simp add: branching_def)
qed

lemma pfx_of_lock_at [simp]: "pfx_of (rt_nodes (lock_at b t)) = pfx_of (rt_nodes t)"
  by (rule ext) (simp add: pfx_of_def lock_at_nodes option.map_comp comp_def)

lemma tidy_lock_at:
  assumes "tidy t" and "slack 1 t"
  shows "tidy (lock_at b t)"
  unfolding tidy_def
proof (intro allI impI)
  fix a n
  assume n: "rt_nodes (lock_at b t) a = Some n \<and> rn_lock n = 0"
  then obtain m where m: "rt_nodes t a = Some m" "n = m\<lparr>rn_lock := rn_lock m + (if b = Some a then 1 else 0)\<rparr>"
    by (auto simp: lock_at_nodes)
  from m(1) assms(2) have "unat (rn_lock m) + Suc 0 < 2 ^ 32" unfolding slack_def by fastforce
  from lock_step(1) [OF this] m(2) n have "rn_lock m = 0" by (auto split: if_splits)
  with assms(1) m show "rn_info n = None \<and> branching (lock_at b t) a"
    by (auto simp: tidy_def branching_cong [OF pfx_of_lock_at])
qed

lemma lock_at_commute: "lock_at a (lock_at b t) = lock_at b (lock_at a t)"
  by (rule route_table.equality) (auto simp: fun_eq_iff lock_at_nodes option.map_comp comp_def lock_at_def split: option.splits)

lemma route_lock_node_at:
  assumes "b \<in> dom (rt_nodes t)"
  shows "route_lock_node b t = Some (lock_at (Some b) t)"
  using assms by (auto simp: route_lock_node_def upd_node_def lock_at_def)

lemma dom_lock_at [simp]: "dom (rt_nodes (lock_at b t)) = dom (rt_nodes t)"
  by (auto simp: dom_def lock_at_nodes)

section \<open>Branching nodes have two children\<close>

lemma below_child:
  assumes "tree_at N par ptr T" and "radix (pfx_of N) T" and "a \<in> set_tree T" and "x \<in> set_tree T"
    and "below (pfx_of N) a d x"
  shows "\<exists>n. N a = Some n \<and> (if d then rn_right n else rn_left n) \<noteq> None"
  using assms
proof (induction T arbitrary: par ptr)
  case (Node l b r)
  let ?P = "pfx_of N"
  from Node.prems(1) obtain n where n: "N b = Some n" "tree_at N (Some b) (rn_left n) l" "tree_at N (Some b) (rn_right n) r"
    by auto
  from Node.prems(2) have rad: "radix ?P l" "radix ?P r" and lo: "\<forall>y\<in>set_tree l. below ?P b False y"
    and hi: "\<forall>y\<in>set_tree r. below ?P b True y" by auto
  have ne: "rn_left n \<noteq> None" if "y \<in> set_tree l" for y using n(2) that by (cases l) auto
  have ne': "rn_right n \<noteq> None" if "y \<in> set_tree r" for y using n(3) that by (cases r) auto
  have irr: "\<not> below ?P b e b" for b e by (auto simp: below_def)
  have asym: "\<not> below ?P b e' y" if "below ?P y e b" for b y e e' using that by (auto simp: below_def)
  have other: "\<not> below ?P y e z" if "below ?P b f y" "below ?P b (\<not> f) z" for y z e f
    using that by (auto simp: below_def)
  have one: "\<not> below ?P b False y" if "below ?P b True y" for y using that by (auto simp: below_def)
  show ?case
  proof (cases "a = b")
    case True
    with Node.prems(4,5) irr have "x \<in> set_tree l \<or> x \<in> set_tree r" by auto
    with True Node.prems(5) lo hi one ne ne' n(1) show ?thesis by (cases d) auto
  next
    case False
    then consider "a \<in> set_tree l" | "a \<in> set_tree r" using Node.prems(3) by auto
    then show ?thesis
    proof cases
      case 1
      with lo Node.prems(4,5) hi asym other [where f = False and y = a and z = x] have "x \<in> set_tree l" by auto
      from Node.IH(1) [OF n(2) rad(1) 1 this Node.prems(5)] show ?thesis .
    next
      case 2
      with hi Node.prems(4,5) lo asym other [where f = True and y = a and z = x] have "x \<in> set_tree r" by auto
      from Node.IH(2) [OF n(3) rad(2) 2 this Node.prems(5)] show ?thesis .
    qed
  qed
qed simp

lemma branching_children:
  assumes "wf_table t" and "branching t a" and "rt_nodes t a = Some n"
  shows "rn_left n \<noteq> None" and "rn_right n \<noteq> None"
proof -
  from assms(1) obtain T where T: "table_tree t T" by (auto simp: wf_table_def)
  then have tr: "tree_at (rt_nodes t) None (rt_top t) T" "radix (pfx_of (rt_nodes t)) T" "a \<in> set_tree T"
    using assms(3) by (auto simp: table_tree_def)
  have "(if d then rn_right n else rn_left n) \<noteq> None" for d
  proof -
    from assms(2) obtain x where "x \<in> dom (rt_nodes t)" "below (pfx_of (rt_nodes t)) a d x" unfolding branching_def by blast
    with below_child [OF tr, of x d] T assms(3) show ?thesis by (auto simp: table_tree_def)
  qed
  from this [of False] this [of True] show "rn_left n \<noteq> None" "rn_right n \<noteq> None" by simp_all
qed

section \<open>Handing locks over\<close>

lemma unlock_tidy:
  assumes "wf_table t" and "tidy t" and "a \<in> dom (rt_nodes t)"
  shows "route_unlock_node a (lock_at (Some a) t) = Some t"
proof -
  from assms(3) obtain n where n: "rt_nodes t a = Some n" by auto
  then have same: "(rt_nodes t)(a \<mapsto> n) = rt_nodes t" by (simp add: fun_upd_idem)
  have upd: "upd_node a (\<lambda>n. n\<lparr>rn_lock := rn_lock n - 1\<rparr>) (lock_at (Some a) t) = Some t"
    using n same by (simp add: upd_node_def lock_at_def)
  show ?thesis
  proof (cases "rn_lock n = 0")
    case True
    with assms(2) n have "rn_info n = None" and br: "branching t a" by (auto simp: tidy_def)
    with branching_children [OF assms(1) br n] True n upd show ?thesis
      by (simp add: route_unlock_node_def) (subst route_node_delete.simps, auto)
  qed (use upd n in \<open>simp add: route_unlock_node_def\<close>)
qed

lemma wf_table_lock_at: "wf_table t \<Longrightarrow> wf_table (lock_at b t)"
  unfolding wf_table_def using lock_at_tree by blast

lemma route_next_exact:
  assumes "table_tree t T" and "tidy t" and "slack 1 t" and "preorder T = xs @ a # ys"
  shows "route_next a (lock_at (Some a) t) = Some (first_of ys, lock_at (first_of ys) t)"
proof -
  have wf: "wf_table t" using assms(1) by (auto simp: wf_table_def)
  have mem: "dom (rt_nodes t) = set (xs @ a # ys)" using assms(1,4) by (metis table_tree_dom set_preorder)
  have succ: "route_succ (lock_at (Some a) t) None a = Some (first_of ys)"
    by (rule route_succ_preorder [OF lock_at_tree [OF assms(1)] assms(4)])
  have lock: "(case first_of ys of None \<Rightarrow> Some (lock_at (Some a) t) | Some b \<Rightarrow> route_lock_node b (lock_at (Some a) t))
      = Some (lock_at (first_of ys) (lock_at (Some a) t))"
  proof (cases ys)
    case (Cons b zs)
    with mem have "b \<in> dom (rt_nodes (lock_at (Some a) t))" by simp
    with Cons show ?thesis by (simp add: route_lock_node_at)
  qed (simp add: lock_at_def)
  have "route_unlock_node a (lock_at (Some a) (lock_at (first_of ys) t)) = Some (lock_at (first_of ys) t)"
    using unlock_tidy [OF wf_table_lock_at [OF wf] tidy_lock_at [OF assms(2,3)]] mem by simp
  with succ lock show ?thesis by (simp add: route_next_def route_advance_def lock_at_commute [of "first_of ys"])
qed

text \<open>The node before another one.\<close>

lemma route_prev_loop_exact:
  assumes T: "table_tree t T" and tidy: "tidy t" "slack 2 t" and stop: "preorder T = us @ b # vs @ stop # ys"
  shows "route_prev_loop stop pv (Some b) (lock_at (Some b) (lock_at (Some stop) t)) = Some (last_of (b # vs), lock_at (Some stop) t)"
  using stop
proof (induction vs arbitrary: us b pv)
  case Nil
  let ?t = "lock_at (Some stop) t"
  have wf: "wf_table t" using T by (auto simp: wf_table_def)
  have mem: "stop \<in> dom (rt_nodes t)" using T Nil by (metis table_tree_dom set_preorder in_set_conv_decomp append_Cons append_Nil append_assoc)
  have sl: "slack 1 t" "slack 1 ?t" using slack_mono [OF tidy(2)] slack_lock_at [of 1 t] tidy(2) by (simp_all add: numeral_2_eq_2)
  have td: "tidy ?t" by (rule tidy_lock_at [OF tidy(1) sl(1)])
  have nx: "route_next b (lock_at (Some b) ?t) = Some (Some stop, lock_at (Some stop) ?t)"
    using route_next_exact [OF lock_at_tree [OF T] td sl(2), of us b "stop # ys"] Nil by simp
  have un: "route_unlock_node stop (lock_at (Some stop) ?t) = Some ?t"
    using unlock_tidy [OF wf_table_lock_at [OF wf] td] mem by simp
  show ?case using nx un by (subst route_prev_loop.simps) (simp add: route_prev_loop.simps [of _ _ None] last_of_def)
next
  case (Cons v vs)
  let ?t = "lock_at (Some stop) t"
  have sl: "slack 1 t" "slack 1 ?t" using slack_mono [OF tidy(2)] slack_lock_at [of 1 t] tidy(2) by (simp_all add: numeral_2_eq_2)
  have td: "tidy ?t" by (rule tidy_lock_at [OF tidy(1) sl(1)])
  have "distinct (preorder T)" using T radix_distinct_preorder by (auto simp: table_tree_def)
  with Cons.prems have "v \<noteq> stop" by auto
  moreover have "route_next b (lock_at (Some b) ?t) = Some (Some v, lock_at (Some v) ?t)"
    using route_next_exact [OF lock_at_tree [OF T] td sl(2), of us b "v # vs @ stop # ys"] Cons.prems by simp
  moreover have "route_prev_loop stop (Some b) (Some v) (lock_at (Some v) ?t) = Some (last_of (v # vs), ?t)"
    using Cons.IH [of "us @ [b]" v] Cons.prems by simp
  ultimately show ?case by (subst route_prev_loop.simps) (simp add: last_of_def)
qed

lemma parent_before:
  assumes "table_tree t T" and "preorder T = xs @ a # ys" and "rt_nodes t a = Some n"
  shows "case rn_parent n of None \<Rightarrow> xs = [] | Some b \<Rightarrow> b \<in> set xs"
proof -
  have mem: "a \<in> set_tree T" using assms(2) by (metis in_set_conv_decomp set_preorder)
  then obtain c l r where T: "T = plug c (Node l a r)" using tree_mem_plug by blast
  from assms(1,3) T have ctx: "ctx_at (rt_nodes t) (rt_top t) c (rn_parent n) (Some a)"
    by (auto simp: table_tree_def tree_at_plug)
  have pre: "preorder T = before c @ a # (preorder l @ preorder r @ after c)" using T by (simp add: preorder_plug)
  have dis: "distinct (preorder T)" using radix_distinct_preorder assms(1) by (auto simp: table_tree_def)
  have "length xs = length (before c)"
    using distinct_split [OF dis [unfolded pre] trans [OF pre [symmetric] assms(2)]] arg_cong [OF trans [OF pre [symmetric] assms(2)], of length] by simp
  then have "xs = before c" using pre assms(2) by simp
  with ctx show ?thesis by (cases c) (auto split: if_splits)
qed

lemma route_prev_exact:
  assumes T: "table_tree t T" and tidy: "tidy t" "slack 2 t" and pre: "preorder T = xs @ a # ys"
  shows "route_prev a (lock_at (Some a) t) = Some (last_of xs, lock_at (last_of xs) t)"
proof -
  have wf: "wf_table t" using T by (auto simp: wf_table_def)
  have mem: "dom (rt_nodes t) = set (xs @ a # ys)" using T pre by (metis table_tree_dom set_preorder)
  let ?t = "lock_at (Some a) t"
  from mem obtain n where n: "rt_nodes ?t a = Some n" by (force simp: lock_at_nodes)
  have par: "case rn_parent n of None \<Rightarrow> xs = [] | Some b \<Rightarrow> b \<in> set xs"
    by (rule parent_before [OF lock_at_tree [OF T] pre n])
  have loop: "do { u \<leftarrow> (case rn_parent n of None \<Rightarrow> Some ?t | Some b \<Rightarrow> route_lock_node b ?t);
      route_prev_loop a None (rn_parent n) u } = Some (last_of xs, ?t)"
  proof (cases "rn_parent n")
    case None
    with par show ?thesis by (simp add: route_prev_loop.simps)
  next
    case (Some b)
    with par obtain us vs where xs: "xs = us @ b # vs" by (auto dest: split_list)
    then have "route_lock_node b ?t = Some (lock_at (Some b) ?t)" using mem by (intro route_lock_node_at) simp
    moreover have "last_of xs = last_of (b # vs)" using xs by (simp add: last_of_def)
    ultimately show ?thesis using Some route_prev_loop_exact [OF T tidy, of us b vs a ys None] pre xs by simp
  qed
  have un: "route_unlock_node a ?t = Some t" using unlock_tidy [OF wf tidy(1)] mem by simp
  have lock: "(case last_of xs of None \<Rightarrow> Some t | Some b \<Rightarrow> route_lock_node b t) = Some (lock_at (last_of xs) t)"
    using mem by (cases "xs = []") (auto simp: last_of_def lock_at_def route_lock_node_at [unfolded lock_at_def])
  have "route_prev a ?t = do { (prev, u) \<leftarrow> do { u \<leftarrow> (case rn_parent n of None \<Rightarrow> Some ?t | Some b \<Rightarrow> route_lock_node b ?t);
      route_prev_loop a None (rn_parent n) u }; u \<leftarrow> route_unlock_node a u;
      u \<leftarrow> (case prev of None \<Rightarrow> Some u | Some b \<Rightarrow> route_lock_node b u); Some (prev, u) }"
    using n by (auto simp: route_prev_def split: bind_splits)
  also have "\<dots> = Some (last_of xs, lock_at (last_of xs) t)" unfolding loop using un lock by simp
  finally show ?thesis .
qed

section \<open>Getting a node\<close>

lemma tidy_get:
  assumes "wf_table t" and "tidy t" and "slack 1 t" and "get_key p" and "route_node_get t p = Some (a, t')"
  shows "tidy t'"
proof -
  from route_node_get_got [OF assms(1,4)] assms(5) obtain t1 n where g: "got t p a t1" "rt_nodes t1 a = Some n"
    "t' = t1\<lparr>rt_nodes := (rt_nodes t1)(a \<mapsto> n\<lparr>rn_lock := rn_lock n + 1\<rparr>)\<rparr>" by auto
  then have t': "t' = lock_at (Some a) t1" by (simp add: lock_at_def)
  from g(1) have keep: "keeps_payload t t1" and new: "\<forall>b\<in>dom (rt_nodes t1) - dom (rt_nodes t). b = a \<or> branching t1 b"
    by (auto simp: got_def)
  have old: "branching t1 b" if "branching t b" "b \<in> dom (rt_nodes t)" for b
  proof -
    have "pfx_of (rt_nodes t1) y = pfx_of (rt_nodes t) y" "y \<in> dom (rt_nodes t1)" if "y \<in> dom (rt_nodes t)" for y
      using that keep payload_pfx_of payload_dom unfolding keeps_payload_def by blast+
    with that show ?thesis unfolding branching_def below_def pbits_def by metis
  qed
  show ?thesis unfolding tidy_def
  proof (intro allI impI)
    fix b m'
    assume m': "rt_nodes t' b = Some m' \<and> rn_lock m' = 0"
    from route_node_get_locks [OF assms(1,4,5)] m' have same: "same_entry t b m' (if b = a then 1 else 0)" by blast
    have "b \<noteq> a"
    proof
      assume "b = a"
      with same m' assms(3) lock_step(1) [of _ 0] show False
        by (cases "rt_nodes t b") (force simp: same_entry_def slack_def)+
    qed
    have "rn_info m' = None \<and> branching t1 b"
    proof (cases "rt_nodes t b")
      case None
      with same new m' \<open>b \<noteq> a\<close> t' show ?thesis by (auto simp: same_entry_def lock_at_nodes split: if_splits)
    next
      case (Some m)
      with same m' \<open>b \<noteq> a\<close> have "rn_lock m = 0" "rn_info m' = rn_info m" by (auto simp: same_entry_def)
      with Some assms(2) old [of b] show ?thesis by (auto simp: tidy_def)
    qed
    then show "rn_info m' = None \<and> branching t' b" using t' by (simp add: branching_cong [OF pfx_of_lock_at])
  qed
qed

lemma slack_get:
  assumes "wf_table t" and "slack (Suc k) t" and "Suc k < 2 ^ 32" and "get_key p" and "route_node_get t p = Some (a, t')"
  shows "slack k t'"
  unfolding slack_def
proof (intro allI impI)
  fix b m'
  assume "rt_nodes t' b = Some m'"
  from route_node_get_locks [OF assms(1,4,5) this] have same: "same_entry t b m' (if b = a then 1 else 0)" .
  show "unat (rn_lock m') + k < 2 ^ 32"
  proof (cases "rt_nodes t b")
    case None
    with same assms(3) show ?thesis by (auto simp: same_entry_def split: if_splits)
  next
    case (Some m)
    with assms(2) have "unat (rn_lock m) + Suc k < 2 ^ 32" unfolding slack_def by blast
    with same Some lock_step(2) [OF this] show ?thesis by (auto simp: same_entry_def)
  qed
qed

lemma tidy_info:
  assumes "tidy t" and "rt_nodes t a = Some n" and "rn_lock n \<noteq> 0" and "route_node_info a i t = Some t'"
  shows "tidy t'"
proof -
  have t': "t' = t\<lparr>rt_nodes := (rt_nodes t)(a \<mapsto> n\<lparr>rn_info := i\<rparr>)\<rparr>" using assms(2,4) by (auto simp: route_node_info_def upd_node_def)
  have "pfx_of (rt_nodes t') = pfx_of (rt_nodes t)" using assms(2) by (auto simp: t' pfx_of_def fun_eq_iff)
  from branching_cong [OF this] show ?thesis using assms(1,3) by (auto simp: tidy_def t')
qed

end
