(* ===== verification/Ospf6_Lsdb_Inv.thy ===== *)
theory Ospf6_Lsdb_Inv
  imports Ospf6_Lsdb Lib_Table_Tidy
begin

text \<open>
  Correctness of the link state database: the tree, the links between the LSAs and the
  counter represent one sequence of LSAs in the order of their keys, every operation acts
  on that sequence, and every entry can be found under its key.
\<close>

section \<open>Keys\<close>

definition key_bits :: "u16 \<Rightarrow> u32 \<Rightarrow> u32 \<Rightarrow> bool list" where
  "key_bits type adv_router lsid = bits_of (be16 type @ be32 adv_router @ be32 lsid)"

definition lsa_bits :: "ospf6_lsa \<Rightarrow> bool list" where
  "lsa_bits l = key_bits (lh_type (lsa_header l)) (lh_adv_router (lsa_header l)) (lh_id (lsa_header l))"

lemma lsdb_key_eq:
  "lsdb_key type adv lsid = Some \<lparr>pfx_family = AF_INET6, pfx_prefixlen = 80,
     pfx_u = be16 type @ be32 adv @ be32 lsid @ replicate 6 0\<rparr>"
proof -
  have r: "replicate 16 (0 :: u8) = replicate 2 0 @ replicate 4 0 @ replicate 4 0 @ replicate 6 0"
    by (simp add: replicate_add [symmetric])
  have "ospf6_lsdb_set_key key_zero (be16 type) = Some \<lparr>pfx_family = AF_INET6, pfx_prefixlen = 16,
      pfx_u = be16 type @ replicate 4 0 @ replicate 4 0 @ replicate 6 0\<rparr>"
    by (simp add: ospf6_lsdb_set_key_def key_zero_def r)
  moreover have "ospf6_lsdb_set_key \<lparr>pfx_family = AF_INET6, pfx_prefixlen = 16,
      pfx_u = be16 type @ replicate 4 0 @ replicate 4 0 @ replicate 6 0\<rparr> (be32 adv)
    = Some \<lparr>pfx_family = AF_INET6, pfx_prefixlen = 48, pfx_u = be16 type @ be32 adv @ replicate 4 0 @ replicate 6 0\<rparr>"
    by (simp add: ospf6_lsdb_set_key_def)
  moreover have "ospf6_lsdb_set_key \<lparr>pfx_family = AF_INET6, pfx_prefixlen = 48,
      pfx_u = be16 type @ be32 adv @ replicate 4 0 @ replicate 6 0\<rparr> (be32 lsid)
    = Some \<lparr>pfx_family = AF_INET6, pfx_prefixlen = 80, pfx_u = be16 type @ be32 adv @ be32 lsid @ replicate 6 0\<rparr>"
    by (simp add: ospf6_lsdb_set_key_def)
  ultimately show ?thesis by (simp add: lsdb_key_def)
qed

lemma lsdb_key_ok:
  "\<exists>k. lsdb_key type adv lsid = Some k \<and> get_key k \<and> lookup_key k \<and> prefix_bits k = key_bits type adv lsid"
  by (simp add: lsdb_key_eq get_key_def lookup_key_def family_size_def AF_INET_def AF_INET6_def prefix_bits_def key_bits_def)

lemma lsa_key_ok: "\<exists>k. lsa_key_of l = Some k \<and> get_key k \<and> lookup_key k \<and> prefix_bits k = lsa_bits l"
  unfolding lsa_key_of_def lsa_bits_def by (rule lsdb_key_ok)

lemma be16_roundtrip: "get_be16 (be16 v ! 0) (be16 v ! 1) = v"
  by (rule bit_word_eqI) (auto simp: be16_def get_be16_def bit_simps)

lemma be16_inj: "be16 v = be16 w \<longleftrightarrow> v = w"
  using be16_roundtrip by metis

lemma be32_inj: "be32 v = be32 w \<longleftrightarrow> v = w"
proof
  assume eq: "be32 v = be32 w"
  show "v = w"
  proof (rule bit_word_eqI)
    fix n
    assume "n < LENGTH(32)"
    then consider "n < 8" | "8 \<le> n" "n < 16" | "16 \<le> n" "n < 24" | "24 \<le> n" "n < 32" by fastforce
    then show "bit v n = bit w n"
    proof cases
      case 1
      have "bit (ucast v :: u8) n = bit (ucast w :: u8) n" using eq by (simp add: be32_def)
      with 1 show ?thesis by (simp add: bit_simps)
    next
      case 2
      have "bit (ucast (drop_bit 8 v) :: u8) (n - 8) = bit (ucast (drop_bit 8 w) :: u8) (n - 8)" using eq by (simp add: be32_def)
      with 2 show ?thesis by (auto simp: bit_simps)
    next
      case 3
      have "bit (ucast (drop_bit 16 v) :: u8) (n - 16) = bit (ucast (drop_bit 16 w) :: u8) (n - 16)" using eq by (simp add: be32_def)
      with 3 show ?thesis by (auto simp: bit_simps)
    next
      case 4
      have "bit (ucast (drop_bit 24 v) :: u8) (n - 24) = bit (ucast (drop_bit 24 w) :: u8) (n - 24)" using eq by (simp add: be32_def)
      with 4 show ?thesis by (auto simp: bit_simps)
    qed
  qed
qed simp

lemma key_bits_inj: "key_bits t r i = key_bits t' r' i' \<longleftrightarrow> t = t' \<and> r = r' \<and> i = i'"
proof -
  have "key_bits t r i = key_bits t' r' i' \<longleftrightarrow> be16 t @ be32 r @ be32 i = be16 t' @ be32 r' @ be32 i'"
    unfolding key_bits_def by (rule bits_of_inj) simp
  then show ?thesis by (simp add: be16_inj be32_inj)
qed

lemma lsa_bits_same: "lsa_bits a = lsa_bits b \<longleftrightarrow> OSPF6_LSA_IS_SAME a b"
  by (auto simp: lsa_bits_def key_bits_inj OSPF6_LSA_IS_SAME_def)

section \<open>The sequence of entries\<close>

text \<open>Every LSA of a sequence is linked to its neighbours.\<close>

abbreviation linked :: "lsa_heap \<Rightarrow> nat list \<Rightarrow> bool" where
  "linked \<equiv> linked_by lsa_prev lsa_next"

text \<open>The entries of the tree are LSAs under their keys, each of them referenced.\<close>

definition entry_ok :: "lsa_heap \<Rightarrow> prefix \<times> nat \<Rightarrow> bool" where
  "entry_ok H e \<longleftrightarrow> (\<exists>l. H (snd e) = Some l \<and> lsa_bits l = prefix_bits (fst e) \<and> lsa_lock l \<noteq> 0)"

definition lsdb_rep :: "lsa_heap \<Rightarrow> ospf6_lsdb \<Rightarrow> nat list \<Rightarrow> bool" where
  "lsdb_rep H db L \<longleftrightarrow> tidy (db_table db) \<and> db_count db = of_nat (length L) \<and> linked H L
     \<and> (\<exists>T. table_tree (db_table db) T \<and> L = map snd (entries_of (db_table db) (preorder T))
          \<and> (\<forall>e\<in>set (entries_of (db_table db) (preorder T)). entry_ok H e))"

lemma lsdb_rep_create: "lsdb_rep H ospf6_lsdb_create []"
proof -
  have "table_tree route_table_init Leaf" by (simp add: table_tree_def route_table_init_def)
  then show ?thesis
    by (auto simp: lsdb_rep_def ospf6_lsdb_create_def linked_by_def intro!: exI [of _ Leaf])
qed

lemma entries_of_unique:
  assumes "table_tree t T" and "table_tree t' T'"
    and "\<And>p i. (\<exists>a n. rt_nodes t a = Some n \<and> rn_p n = p \<and> rn_info n = Some i) \<longleftrightarrow>
      (\<exists>a n. rt_nodes t' a = Some n \<and> rn_p n = p \<and> rn_info n = Some i)"
  shows "entries_of t' (preorder T') = entries_of t (preorder T)"
proof (rule sorted_wrt_unique [OF _ entries_of_table(2) [OF assms(2)] entries_of_table(2) [OF assms(1)]])
  show "set (entries_of t' (preorder T')) = set (entries_of t (preorder T))"
  proof (intro set_eqI)
    fix e :: "prefix \<times> 'a"
    obtain p i where e: "e = (p, i)" by (cases e)
    have "(p, i) \<in> set (entries_of t' (preorder T')) \<longleftrightarrow> (\<exists>a n. rt_nodes t' a = Some n \<and> rn_p n = p \<and> rn_info n = Some i)"
      using table_tree_dom [OF assms(2)] by (auto simp: set_entries_of dom_def)
    moreover have "(p, i) \<in> set (entries_of t (preorder T)) \<longleftrightarrow> (\<exists>a n. rt_nodes t a = Some n \<and> rn_p n = p \<and> rn_info n = Some i)"
      using table_tree_dom [OF assms(1)] by (auto simp: set_entries_of dom_def)
    ultimately show "e \<in> set (entries_of t' (preorder T')) \<longleftrightarrow> e \<in> set (entries_of t (preorder T))" using assms(3) e by simp
  qed
qed (use bits_less_asym in blast)

lemma entries_of_lock_at [simp]: "entries_of (lock_at b t) xs = entries_of t xs"
  by (induction xs) (simp, subst (1 2) entries_of_Cons, simp add: entries_of_def lock_at_nodes split: option.splits)

lemma lsdb_rep_lock:
  assumes "lsdb_rep H db L" and "slack 1 (db_table db)"
  shows "lsdb_rep H (db\<lparr>db_table := lock_at b (db_table db)\<rparr>) L"
proof -
  from assms(1) obtain T where "table_tree (db_table db) T" "L = map snd (entries_of (db_table db) (preorder T))"
    "\<forall>e\<in>set (entries_of (db_table db) (preorder T)). entry_ok H e" "tidy (db_table db)"
    "db_count db = of_nat (length L)" "linked H L" unfolding lsdb_rep_def by blast
  with lock_at_tree tidy_lock_at [OF _ assms(2)] show ?thesis unfolding lsdb_rep_def by fastforce
qed

text \<open>Looking a key up in the tree finds the LSA of the sequence with that key.\<close>

lemma rep_lsa:
  assumes "lsdb_rep H db L" and "a \<in> set L"
  shows "\<exists>l. H a = Some l \<and> lsa_lock l \<noteq> 0 \<and> table_map (db_table db) (lsa_bits l) = Some a"
proof -
  from assms obtain T p where T: "table_tree (db_table db) T" "(p, a) \<in> set (entries_of (db_table db) (preorder T))"
    "entry_ok H (p, a)" unfolding lsdb_rep_def by fastforce
  with entries_of_table(1) [OF T(1), of "prefix_bits p" a] show ?thesis by (auto simp: entry_ok_def)
qed

lemma rep_map:
  assumes "lsdb_rep H db L" and "table_map (db_table db) bs = Some a"
  shows "a \<in> set L \<and> (\<exists>l. H a = Some l \<and> lsa_bits l = bs)"
proof -
  from assms(1) obtain T where T: "table_tree (db_table db) T" "L = map snd (entries_of (db_table db) (preorder T))"
    "\<forall>e\<in>set (entries_of (db_table db) (preorder T)). entry_ok H e" unfolding lsdb_rep_def by blast
  from entries_of_table(1) [OF T(1)] assms(2) obtain p where "(p, a) \<in> set (entries_of (db_table db) (preorder T))" "prefix_bits p = bs"
    by blast
  with T show ?thesis by (force simp: entry_ok_def)
qed

lemma rep_sorted:
  assumes "lsdb_rep H db L"
  shows "sorted_wrt (\<lambda>a b. bits_less (lsa_bits (the (H a))) (lsa_bits (the (H b)))) L"
proof -
  from assms obtain T where T: "table_tree (db_table db) T" "L = map snd (entries_of (db_table db) (preorder T))"
    "\<forall>e\<in>set (entries_of (db_table db) (preorder T)). entry_ok H e" unfolding lsdb_rep_def by blast
  have "lsa_bits (the (H (snd e))) = prefix_bits (fst e)" if "e \<in> set (entries_of (db_table db) (preorder T))" for e
    using T(3) that by (force simp: entry_ok_def)
  with entries_of_table(2) [OF T(1)] show ?thesis
    by (auto simp: T(2) sorted_wrt_map intro: sorted_wrt_mono_rel [rotated])
qed

lemma rep_distinct: "lsdb_rep H db L \<Longrightarrow> distinct L"
  using rep_sorted [of H db L] bits_less_asym by (auto simp: strict_sorted_iff distinct_conv_nth sorted_wrt_iff_nth_less) (metis linorder_neqE_nat)

text \<open>The LSA a key denotes in a sequence.\<close>

definition find_lsa :: "lsa_heap \<Rightarrow> bool list \<Rightarrow> nat list \<Rightarrow> nat option" where
  "find_lsa H bs L = find (\<lambda>a. lsa_bits (the (H a)) = bs) L"

lemma rep_find:
  assumes "lsdb_rep H db L"
  shows "table_map (db_table db) bs = find_lsa H bs L"
proof (cases "find_lsa H bs L")
  case None
  then have "\<forall>a\<in>set L. lsa_bits (the (H a)) \<noteq> bs" by (auto simp: find_lsa_def find_None_iff)
  then have "table_map (db_table db) bs \<noteq> Some a" for a using rep_map [OF assms, of bs a] by force
  with None show ?thesis by (cases "table_map (db_table db) bs") auto
next
  case (Some a)
  then have "a \<in> set L" "lsa_bits (the (H a)) = bs" by (auto simp: find_lsa_def find_Some_iff)
  with rep_lsa [OF assms] Some show ?thesis by force
qed

lemma lookup_rep:
  assumes "lsdb_rep H db L" and "slack 1 (db_table db)"
  shows "\<exists>db'. ospf6_lsdb_lookup type lsid adv db = Some (find_lsa H (key_bits type adv lsid) L, db')
    \<and> lsdb_rep H db' L \<and> (\<exists>r. db' = db\<lparr>db_table := lock_at r (db_table db)\<rparr>)"
proof -
  obtain k where k: "lsdb_key type adv lsid = Some k" "lookup_key k" "prefix_bits k = key_bits type adv lsid"
    using lsdb_key_ok by blast
  have wf: "wf_table (db_table db)" using assms(1) by (auto simp: lsdb_rep_def wf_table_def)
  from route_node_lookup_finds [OF wf k(2)] obtain r where
    r: "route_node_lookup (db_table db) k = Some (r, lock_at r (db_table db))" by blast
  from lookup_info_map [OF wf k(2)] have "\<exists>t'. lookup_info (db_table db) k = Some (find_lsa H (key_bits type adv lsid) L, t')"
    using rep_find [OF assms(1)] k(3) by auto
  then have "ospf6_lsdb_lookup type lsid adv db
      = Some (find_lsa H (key_bits type adv lsid) L, db\<lparr>db_table := lock_at r (db_table db)\<rparr>)"
    using k(1) r by (auto simp: ospf6_lsdb_lookup_def lookup_info_def split: option.splits bind_splits)
  with lsdb_rep_lock [OF assms] show ?thesis by blast
qed

end
