(* ===== verification/Ospf6_Lsdb_Ops.thy ===== *)
theory Ospf6_Lsdb_Ops
  imports Ospf6_Lsdb_Inv
begin

text \<open>
  The operations of the link state database act on the sequence of LSAs it represents.
\<close>

section \<open>Links\<close>

definition relink :: "nat \<Rightarrow> nat option \<Rightarrow> nat option \<Rightarrow> nat \<Rightarrow> ospf6_lsa \<Rightarrow> ospf6_lsa" where
  "relink a p n x l = l\<lparr>lsa_prev := (if x = a then p else if n = Some x then Some a else lsa_prev l),
     lsa_next := (if x = a then n else if p = Some x then Some a else lsa_next l)\<rparr>"

definition unlink :: "nat option \<Rightarrow> nat option \<Rightarrow> nat \<Rightarrow> ospf6_lsa \<Rightarrow> ospf6_lsa" where
  "unlink p n x l = l\<lparr>lsa_prev := (if n = Some x then p else lsa_prev l), lsa_next := (if p = Some x then n else lsa_next l)\<rparr>"

lemma linked_relink:
  assumes lk: "linked H (xs @ zs @ ys)" and dis: "distinct (xs @ zs @ ys)" and a: "a \<notin> set (xs @ ys)" "H a \<noteq> None"
  shows "linked (heap_map (relink a (last_of xs) (first_of ys)) H) (xs @ a # ys)"
  by (rule linked_between [OF lk dis a(1)]) (use a in \<open>auto simp: heap_map_def relink_def\<close>)

lemma linked_unlink:
  assumes lk: "linked H (xs @ a # ys)" and dis: "distinct (xs @ a # ys)"
  shows "linked (heap_map (unlink (last_of xs) (first_of ys)) H) (xs @ ys)"
  by (rule linked_without [OF lk dis]) (auto simp: heap_map_def unlink_def)

section \<open>The neighbours in the tree\<close>

definition has_info :: "'a route_table \<Rightarrow> addr \<Rightarrow> bool" where
  "has_info t x \<longleftrightarrow> (case rt_nodes t x of None \<Rightarrow> False | Some n \<Rightarrow> rn_info n \<noteq> None)"

lemma has_info_node: "rt_nodes t x = Some n \<Longrightarrow> has_info t x \<longleftrightarrow> rn_info n \<noteq> None"
  by (simp add: has_info_def)

lemma skip_next_exact:
  assumes "table_tree t T" and "tidy t" and "slack 1 t"
  shows "preorder T = xs @ a # ys \<Longrightarrow> skip_next a (lock_at (Some a) t)
    = Some (first_of (filter (has_info t) ys), lock_at (first_of (filter (has_info t) ys)) t)"
proof (induction ys arbitrary: xs a)
  case Nil
  from route_next_exact [OF assms Nil] show ?case by (subst skip_next.simps) (simp add: lock_at_def)
next
  case (Cons b ys)
  have "b \<in> dom (rt_nodes t)" using table_tree_dom [OF assms(1)] set_preorder [of T] Cons.prems by auto
  then obtain n where n: "rt_nodes t b = Some n" by auto
  have hi: "has_info t b \<longleftrightarrow> rn_info n \<noteq> None" using n by (rule has_info_node)
  from route_next_exact [OF assms Cons.prems] Cons.IH [of "xs @ [a]" b] Cons.prems n show ?case
    by (subst skip_next.simps) (auto simp: lock_at_nodes hi)
qed

lemma skip_prev_exact:
  assumes "table_tree t T" and "tidy t" and "slack 2 t"
  shows "preorder T = xs @ a # ys \<Longrightarrow> skip_prev a (lock_at (Some a) t)
    = Some (last_of (filter (has_info t) xs), lock_at (last_of (filter (has_info t) xs)) t)"
proof (induction xs arbitrary: ys a rule: rev_induct)
  case Nil
  from route_prev_exact [OF assms Nil] show ?case by (subst skip_prev.simps) (simp add: lock_at_def)
next
  case (snoc b xs)
  have "b \<in> dom (rt_nodes t)" using table_tree_dom [OF assms(1)] set_preorder [of T] snoc.prems by auto
  then obtain n where n: "rt_nodes t b = Some n" by auto
  have hi: "has_info t b \<longleftrightarrow> rn_info n \<noteq> None" using n by (rule has_info_node)
  from route_prev_exact [OF assms snoc.prems] snoc.IH [of b "a # ys"] snoc.prems n show ?case
    by (subst skip_prev.simps) (auto simp: lock_at_nodes hi)
qed

definition seq_of :: "nat route_table \<Rightarrow> addr list \<Rightarrow> nat list" where
  "seq_of t xs = map snd (entries_of t xs)"

lemma seq_of_simps [simp]: "seq_of t [] = []" "seq_of t (xs @ ys) = seq_of t xs @ seq_of t ys"
  by (simp_all add: seq_of_def)

lemma seq_of_Cons: "seq_of t (a # xs) = seq_of t [a] @ seq_of t xs"
  by (simp add: seq_of_def entries_of_def)

lemma seq_of_single: "rt_nodes t a = Some n \<Longrightarrow> seq_of t [a] = (case rn_info n of None \<Rightarrow> [] | Some i \<Rightarrow> [i])"
  by (simp add: seq_of_def entries_of_def split: option.splits)

lemma seq_of_filter:
  assumes "set xs \<subseteq> dom (rt_nodes t)"
  shows "filter (has_info t) xs = [] \<longleftrightarrow> seq_of t xs = []"
    and "filter (has_info t) xs = x # ws \<Longrightarrow> \<exists>n. rt_nodes t x = Some n \<and> rn_info n = first_of (seq_of t xs)"
    and "filter (has_info t) xs = ws @ [x] \<Longrightarrow> \<exists>n. rt_nodes t x = Some n \<and> rn_info n = last_of (seq_of t xs)"
proof -
  show "filter (has_info t) xs = [] \<longleftrightarrow> seq_of t xs = []"
    using assms
  proof (induction xs)
    case (Cons b xs)
    then show ?case by (subst seq_of_Cons) (auto simp: seq_of_single has_info_node split: option.splits)
  qed simp
  show "filter (has_info t) xs = x # ws \<Longrightarrow> \<exists>n. rt_nodes t x = Some n \<and> rn_info n = first_of (seq_of t xs)"
    using assms
  proof (induction xs)
    case (Cons b xs)
    then show ?case
      by (subst seq_of_Cons) (auto simp: seq_of_single has_info_node first_of_append split: if_splits option.splits)
  qed simp
  show "filter (has_info t) xs = ws @ [x] \<Longrightarrow> \<exists>n. rt_nodes t x = Some n \<and> rn_info n = last_of (seq_of t xs)"
    using assms
  proof (induction xs rule: rev_induct)
    case (snoc b xs)
    then show ?case
      by (auto simp: seq_of_single has_info_node last_of_append last_of_Cons split: if_splits option.splits)
  qed simp
qed

text \<open>The two halves of \<open>relink\<close>.\<close>

lemma link_next_exact:
  assumes T: "table_tree t T" "tidy t" "slack 1 t" and pre: "preorder T = us @ c # vs"
    and H: "H a \<noteq> None" "\<And>b. b \<in> set (seq_of t vs) \<Longrightarrow> H b \<noteq> None"
  shows "link_next c a t H = Some (t, heap_map (\<lambda>x l. let l = (if x = a then l\<lparr>lsa_next := first_of (seq_of t vs)\<rparr> else l) in
    if first_of (seq_of t vs) = Some x then l\<lparr>lsa_prev := Some a\<rparr> else l) H)"
proof -
  have mem: "dom (rt_nodes t) = set (us @ c # vs)" using T(1) pre by (metis table_tree_dom set_preorder)
  then have vs: "set vs \<subseteq> dom (rt_nodes t)" by auto
  have wf: "wf_table t" using T(1) by (auto simp: wf_table_def)
  have lock: "route_lock_node c t = Some (lock_at (Some c) t)" using mem by (intro route_lock_node_at) simp
  note skip = skip_next_exact [OF T pre]
  show ?thesis
  proof (cases "filter (has_info t) vs")
    case Nil
    with seq_of_filter(1) [OF vs] have "seq_of t vs = []" by simp
    with Nil lock skip show ?thesis by (simp add: link_next_def heap_upd_map [where H = H, OF H(1)] lock_at_def cong: if_cong)
  next
    case (Cons x ws)
    from seq_of_filter(2) [OF vs Cons] obtain n where n: "rt_nodes t x = Some n" "rn_info n = first_of (seq_of t vs)" by blast
    have "seq_of t vs \<noteq> []" using seq_of_filter(1) [OF vs] Cons by simp
    then obtain b where b: "first_of (seq_of t vs) = Some b" "b \<in> set (seq_of t vs)" by (cases "seq_of t vs") auto
    have un: "route_unlock_node x (lock_at (Some x) t) = Some t" by (rule unlock_tidy [OF wf T(2)]) (use n in auto)
    have H1: "heap_upd b g (heap_map f H) = Some (heap_map (\<lambda>x l. if x = b then g l else l) (heap_map f H))" for f g
      using H(2) b by (intro heap_upd_map) simp
    show ?thesis
      using lock skip Cons n b un
      by (auto simp: link_next_def heap_upd_map [where H = H, OF H(1)] H1 heap_map_comp lock_at_nodes
        Let_def intro!: heap_map_cong)
  qed
qed

lemma link_prev_exact:
  assumes T: "table_tree t T" "tidy t" "slack 2 t" and pre: "preorder T = us @ c # vs"
    and H: "H a \<noteq> None" "\<And>b. b \<in> set (seq_of t us) \<Longrightarrow> H b \<noteq> None"
  shows "link_prev c a t H = Some (t, heap_map (\<lambda>x l. let l = (if x = a then l\<lparr>lsa_prev := last_of (seq_of t us)\<rparr> else l) in
    if last_of (seq_of t us) = Some x then l\<lparr>lsa_next := Some a\<rparr> else l) H)"
proof -
  have mem: "dom (rt_nodes t) = set (us @ c # vs)" using T(1) pre by (metis table_tree_dom set_preorder)
  then have us: "set us \<subseteq> dom (rt_nodes t)" by auto
  have wf: "wf_table t" using T(1) by (auto simp: wf_table_def)
  have lock: "route_lock_node c t = Some (lock_at (Some c) t)" using mem by (intro route_lock_node_at) simp
  note skip = skip_prev_exact [OF T pre]
  show ?thesis
  proof (cases "filter (has_info t) us" rule: rev_cases)
    case Nil
    with seq_of_filter(1) [OF us] have "seq_of t us = []" by simp
    with Nil lock skip show ?thesis by (simp add: link_prev_def heap_upd_map [where H = H, OF H(1)] lock_at_def cong: if_cong)
  next
    case (snoc ws x)
    from seq_of_filter(3) [OF us snoc] obtain n where n: "rt_nodes t x = Some n" "rn_info n = last_of (seq_of t us)" by blast
    have "seq_of t us \<noteq> []" using seq_of_filter(1) [OF us] snoc by simp
    then obtain b where b: "last_of (seq_of t us) = Some b" "b \<in> set (seq_of t us)" by (auto simp: last_of_def)
    have un: "route_unlock_node x (lock_at (Some x) t) = Some t" by (rule unlock_tidy [OF wf T(2)]) (use n in auto)
    have H1: "heap_upd b g (heap_map f H) = Some (heap_map (\<lambda>x l. if x = b then g l else l) (heap_map f H))" for f g
      using H(2) b by (intro heap_upd_map) simp
    show ?thesis
      using lock skip snoc n b un
      by (auto simp: link_prev_def heap_upd_map [where H = H, OF H(1)] H1 heap_map_comp lock_at_nodes
        Let_def intro!: heap_map_cong)
  qed
qed

section \<open>Hooks\<close>

definition ages :: "(nat \<Rightarrow> ospf6_lsa \<Rightarrow> ospf6_lsa) \<Rightarrow> bool" where
  "ages f \<longleftrightarrow> (\<forall>x l. \<exists>g. f x l = set_age g l)"

lemma set_age_keeps [simp]:
  "lsa_prev (set_age g l) = lsa_prev l" "lsa_next (set_age g l) = lsa_next l" "lsa_lock (set_age g l) = lsa_lock l"
  "lsa_bits (set_age g l) = lsa_bits l" "complete_lsa (set_age g l) = complete_lsa l" "set_age g (set_age h l) = set_age g l"
  by (simp_all add: set_age_def lsa_bits_def complete_lsa_def)

lemma set_age_self: "set_age (lh_age (lsa_header l)) l = l"
  by (simp add: set_age_def)

lemma ages_comp: "ages f \<Longrightarrow> ages g \<Longrightarrow> ages (\<lambda>x l. f x (g x l))"
  unfolding ages_def by (metis set_age_keeps(6))

lemma ages_id: "ages (\<lambda>x l. l)"
  unfolding ages_def by (metis set_age_self)

lemma age_current_sets: "\<exists>g. snd (ospf6_lsa_age_current now l) = set_age g l"
  by (auto simp: ospf6_lsa_age_current_def Let_def)

lemma is_maxage_at_ages: "H a \<noteq> None \<Longrightarrow> \<exists>m f. is_maxage_at now a H = Some (m, heap_map f H) \<and> ages f"
proof -
  assume "H a \<noteq> None"
  then obtain l where l: "H a = Some l" by auto
  let ?f = "\<lambda>x l. if x = a then snd (ospf6_lsa_age_current now l) else l"
  have "ages ?f" unfolding ages_def using age_current_sets set_age_self by metis
  moreover have "\<exists>m. is_maxage_at now a H = Some (m, heap_map ?f H)"
    using l by (auto simp: is_maxage_at_def OSPF6_LSA_IS_MAXAGE_def Let_def split_beta heap_map_def fun_eq_iff option.map_ident)
  ultimately show ?thesis by blast
qed

lemma is_changed_total:
  assumes "complete_lsa la" and "complete_lsa lb"
  shows "\<exists>c g h. ospf6_lsa_is_changed now la lb = Some (c, set_age g la, set_age h lb)"
proof -
  obtain g h where gh: "snd (ospf6_lsa_age_current now la) = set_age g la" "snd (ospf6_lsa_age_current now lb) = set_age h lb"
    using age_current_sets by metis
  have "complete_lsa (set_age g la)" "complete_lsa (set_age h lb)" using assms by simp_all
  then show ?thesis using gh
    by (auto simp: ospf6_lsa_is_changed_def OSPF6_LSA_IS_MAXAGE_def Let_def split_beta complete_lsa_def bodies_differ_def)
qed

lemma is_changed_at_ages:
  assumes "H a = Some la" and "H b = Some lb" and "complete_lsa la" and "complete_lsa lb" and "a \<noteq> b"
  shows "\<exists>c f. is_changed_at now a b H = Some (c, heap_map f H) \<and> ages f"
proof -
  from is_changed_total [OF assms(3,4)] obtain c g h where
    c: "ospf6_lsa_is_changed now la lb = Some (c, set_age g la, set_age h lb)" by blast
  let ?f = "\<lambda>x l. if x = b then set_age h l else if x = a then set_age g l else l"
  have "ages ?f" unfolding ages_def using set_age_self by metis
  moreover have "is_changed_at now a b H = Some (c, heap_map ?f H)"
    using c assms by (auto simp: is_changed_at_def heap_map_def fun_eq_iff option.map_ident)
  ultimately show ?thesis by blast
qed

lemma add_hooks_ages:
  assumes "H a = Some l" and "\<And>o'. old = Some o' \<Longrightarrow> o' \<noteq> a \<and> complete_lsa l \<and> (\<exists>ol. H o' = Some ol \<and> complete_lsa ol)"
  shows "\<exists>hooks f. add_hooks now old a db H = Some (hooks, heap_map f H) \<and> ages f"
proof (cases old)
  case None
  from is_maxage_at_ages [of H a now] assms(1) obtain m f where m: "is_maxage_at now a H = Some (m, heap_map f H)" "ages f" by auto
  with None show ?thesis by (auto simp: add_hooks_def)
next
  case (Some o')
  from assms(2) [OF Some] obtain ol where o': "o' \<noteq> a" "complete_lsa l" "H o' = Some ol" "complete_lsa ol" by blast
  from is_changed_at_ages [OF o'(3) assms(1) o'(4,2,1), of now] obtain c f where
    c: "is_changed_at now o' a H = Some (c, heap_map f H)" "ages f" by blast
  show ?thesis
  proof (cases c)
    case True
    from is_maxage_at_ages [of "heap_map f H" a now] assms(1) obtain m g where
      m: "is_maxage_at now a (heap_map f H) = Some (m, heap_map g (heap_map f H))" "ages g" by auto
    from is_maxage_at_ages [of "heap_map g (heap_map f H)" o' now] o' obtain m' g' where
      m': "is_maxage_at now o' (heap_map g (heap_map f H)) = Some (m', heap_map g' (heap_map g (heap_map f H)))" "ages g'" by auto
    have "ages (\<lambda>x l. g x (f x l))" "ages (\<lambda>x l. g' x (g x (f x l)))"
      using ages_comp c(2) m(2) m'(2) by metis+
    with Some True c(1) m(1) m'(1) show ?thesis
      by (cases m; cases m') (auto simp: add_hooks_def heap_map_comp)
  next
    case False
    with Some c show ?thesis by (auto simp: add_hooks_def)
  qed
qed

section \<open>Insertion\<close>

text \<open>The part of the tree operations: the new entry takes its place among the others.\<close>

lemma table_tree_info:
  assumes "table_tree t T" and "rt_nodes t c = Some n"
  shows "table_tree (t\<lparr>rt_nodes := (rt_nodes t)(c \<mapsto> n\<lparr>rn_info := i\<rparr>)\<rparr>) T"
  by (rule table_tree_cong [OF assms(1)]) (use assms(2) in \<open>auto simp: shape_def pfx_of_def fun_eq_iff\<close>)

lemma entries_of_other:
  assumes "c \<notin> set xs"
  shows "entries_of (t\<lparr>rt_nodes := (rt_nodes t)(c \<mapsto> n)\<rparr>) xs = entries_of t xs"
  using assms by (induction xs) (simp, subst (1 2) entries_of_Cons, simp add: entries_of_def)

lemma got_entries:
  assumes "got t k c t0"
  shows "(\<exists>a n. rt_nodes t0 a = Some n \<and> rn_p n = p \<and> rn_info n = Some j)
    \<longleftrightarrow> (\<exists>a n. rt_nodes t a = Some n \<and> rn_p n = p \<and> rn_info n = Some j)"
proof (intro iffI; elim exE conjE)
  fix a n
  assume n: "rt_nodes t0 a = Some n" "rn_p n = p" "rn_info n = Some j"
  show "\<exists>a n. rt_nodes t a = Some n \<and> rn_p n = p \<and> rn_info n = Some j"
  proof (cases "rt_nodes t a")
    case None
    with got_nodes(3) [OF assms None n(1)] n(3) show ?thesis by simp
  next
    case (Some m)
    with got_nodes(2) [OF assms Some] n show ?thesis by fastforce
  qed
next
  fix a n
  assume n: "rt_nodes t a = Some n" "rn_p n = p" "rn_info n = Some j"
  with got_nodes(2) [OF assms n(1)] show "\<exists>a n. rt_nodes t0 a = Some n \<and> rn_p n = p \<and> rn_info n = Some j" by fastforce
qed

lemma insert_tree:
  assumes t: "table_tree t T" "tidy t" "slack 3 t" and k: "get_key k"
  shows "\<exists>c t1 t2 n T2 us vs. route_node_get t k = Some (c, t1) \<and> rt_nodes t1 c = Some n
    \<and> rn_info n = table_map t (prefix_bits k) \<and> route_node_info c (Some i) t1 = Some t2
    \<and> table_tree t2 T2 \<and> tidy t2 \<and> slack 2 t2 \<and> preorder T2 = us @ c # vs
    \<and> entries_of t (preorder T) = entries_of t2 us @ (case rn_info n of None \<Rightarrow> [] | Some j \<Rightarrow> [(rn_p n, j)]) @ entries_of t2 vs
    \<and> entries_of t2 (preorder T2) = entries_of t2 us @ (rn_p n, i) # entries_of t2 vs \<and> prefix_bits (rn_p n) = prefix_bits k"
proof -
  have wf: "wf_table t" using t(1) by (auto simp: wf_table_def)
  from route_node_get_map [OF wf k] obtain c n t1 where g: "route_node_get t k = Some (c, t1)" "wf_table t1"
    "rt_nodes t1 c = Some n" "prefix_bits (rn_p n) = prefix_bits k" "rn_info n = table_map t (prefix_bits k)" by blast
  from g(2) obtain T1 where T1: "table_tree t1 T1" by (auto simp: wf_table_def)
  have sl: "slack 1 t" "slack 2 t1"
    using slack_mono [OF t(3), of 1] slack_get [OF wf _ _ k g(1), of 2] t(3) by simp_all
  have td: "tidy t1" by (rule tidy_get [OF wf t(2) sl(1) k g(1)])
  note locks = route_node_get_locks [OF wf k g(1)]
  have nz: "rn_lock n \<noteq> 0"
  proof (cases "rt_nodes t c")
    case None
    with locks [OF g(3)] show ?thesis by (simp add: same_entry_def)
  next
    case (Some m)
    then have "unat (rn_lock m) + Suc 2 < 2 ^ 32" using t(3) unfolding slack_def by fastforce
    with locks [OF g(3)] Some lock_step(1) [OF this] show ?thesis by (simp add: same_entry_def)
  qed
  let ?t2 = "t1\<lparr>rt_nodes := (rt_nodes t1)(c \<mapsto> n\<lparr>rn_info := Some i\<rparr>)\<rparr>"
  have i: "route_node_info c (Some i) t1 = Some ?t2" using g(3) by (simp add: route_node_info_def upd_node_def)
  have T2: "table_tree ?t2 T1" by (rule table_tree_info [OF T1 g(3)])
  have "tidy ?t2" by (rule tidy_info [OF td g(3) nz i])
  moreover have "slack 2 ?t2" using sl(2) g(3) unfolding slack_def by (auto split: if_splits)
  moreover have "c \<in> set (preorder T1)" using T1 g(3) by (auto simp: table_tree_def)
  then obtain us vs where pre: "preorder T1 = us @ c # vs" by (meson split_list)
  have "distinct (preorder T1)" using T1 radix_distinct_preorder by (auto simp: table_tree_def)
  with pre have out: "c \<notin> set us" "c \<notin> set vs" by auto
  have ent1: "entries_of t1 (preorder T1) = entries_of t (preorder T)"
  proof (rule entries_of_unique [OF t(1) T1])
    fix p j
    from route_node_get_got [OF wf k] g(1) obtain t0 m where o: "got t k c t0" "rt_nodes t0 c = Some m"
      "t1 = t0\<lparr>rt_nodes := (rt_nodes t0)(c \<mapsto> m\<lparr>rn_lock := rn_lock m + 1\<rparr>)\<rparr>" by auto
    have "t1 = lock_at (Some c) t0" using o(2,3) by (simp add: lock_at_def)
    then have "(\<exists>a n. rt_nodes t1 a = Some n \<and> rn_p n = p \<and> rn_info n = Some j)
        \<longleftrightarrow> (\<exists>a n. rt_nodes t0 a = Some n \<and> rn_p n = p \<and> rn_info n = Some j)" by (fastforce simp: lock_at_nodes)
    also have "\<dots> \<longleftrightarrow> (\<exists>a n. rt_nodes t a = Some n \<and> rn_p n = p \<and> rn_info n = Some j)"
      by (rule got_entries [OF o(1)])
    finally show "(\<exists>a n. rt_nodes t a = Some n \<and> rn_p n = p \<and> rn_info n = Some j)
        \<longleftrightarrow> (\<exists>a n. rt_nodes t1 a = Some n \<and> rn_p n = p \<and> rn_info n = Some j)" by simp
  qed
  have same: "entries_of ?t2 us = entries_of t1 us" "entries_of ?t2 vs = entries_of t1 vs"
    by (rule entries_of_other [OF out(1)], rule entries_of_other [OF out(2)])
  have one: "entries_of t1 [c] = (case rn_info n of None \<Rightarrow> [] | Some j \<Rightarrow> [(rn_p n, j)])" "entries_of ?t2 [c] = [(rn_p n, i)]"
    using g(3) by (simp_all add: entries_of_def split: option.splits)
  have "entries_of t (preorder T) = entries_of ?t2 us @ (case rn_info n of None \<Rightarrow> [] | Some j \<Rightarrow> [(rn_p n, j)]) @ entries_of ?t2 vs"
    using ent1 same one(1) pre entries_of_Cons [of t1 c vs] by simp
  moreover have "entries_of ?t2 (preorder T1) = entries_of ?t2 us @ (rn_p n, i) # entries_of ?t2 vs"
    using one(2) pre entries_of_Cons [of ?t2 c vs] by simp
  ultimately show ?thesis using g i T2 pre by blast
qed

text \<open>The entries before and after a key.\<close>

definition before_key :: "lsa_heap \<Rightarrow> bool list \<Rightarrow> nat list \<Rightarrow> nat list" where
  "before_key H bs L = filter (\<lambda>a. bits_less (lsa_bits (the (H a))) bs) L"

definition after_key :: "lsa_heap \<Rightarrow> bool list \<Rightarrow> nat list \<Rightarrow> nat list" where
  "after_key H bs L = filter (\<lambda>a. bits_less bs (lsa_bits (the (H a)))) L"

lemma around_key:
  assumes "\<And>x. x \<in> set xs \<Longrightarrow> bits_less (lsa_bits (the (H x))) bs" and "\<And>x. x \<in> set ys \<Longrightarrow> bits_less bs (lsa_bits (the (H x)))"
    and "\<And>x. x \<in> set zs \<Longrightarrow> lsa_bits (the (H x)) = bs"
  shows "before_key H bs (xs @ zs @ ys) = xs" and "after_key H bs (xs @ zs @ ys) = ys"
proof -
  have irr: "\<not> bits_less bs bs" using bits_less_asym by blast
  have "filter (\<lambda>a. bits_less (lsa_bits (the (H a))) bs) xs = xs" "filter (\<lambda>a. bits_less bs (lsa_bits (the (H a)))) ys = ys"
    using assms(1,2) by simp_all
  moreover have "filter (\<lambda>a. bits_less (lsa_bits (the (H a))) bs) ys = []" "filter (\<lambda>a. bits_less bs (lsa_bits (the (H a)))) xs = []"
    using assms(1,2) bits_less_asym unfolding filter_empty_conv by metis+
  moreover have "filter (\<lambda>a. bits_less (lsa_bits (the (H a))) bs) zs = []" "filter (\<lambda>a. bits_less bs (lsa_bits (the (H a)))) zs = []"
    using assms(3) irr unfolding filter_empty_conv by metis+
  ultimately show "before_key H bs (xs @ zs @ ys) = xs" "after_key H bs (xs @ zs @ ys) = ys"
    by (simp_all add: before_key_def after_key_def)
qed

text \<open>What the operations on the tree and on the links make of the sequence.\<close>

lemma relink_new:
  assumes T: "table_tree t T" "tidy t" "slack 2 t" and pre: "preorder T = us @ c # vs" and H: "H a \<noteq> None"
    and mem: "\<And>b. b \<in> set (seq_of t us @ seq_of t vs) \<Longrightarrow> H b \<noteq> None" and a: "a \<notin> set (seq_of t us @ seq_of t vs)"
    and dis: "distinct (seq_of t us @ seq_of t vs)"
  shows "do { (t, H) \<leftarrow> link_next c a t H; (t, H) \<leftarrow> link_prev c a t H; Some (t, H) }
    = Some (t, heap_map (relink a (last_of (seq_of t us)) (first_of (seq_of t vs))) H)"
proof -
  let ?p = "last_of (seq_of t us)" and ?n = "first_of (seq_of t vs)"
  have pn: "?p \<noteq> Some a" "?n \<noteq> Some a" using a last_of_mem first_of_mem by fastforce+
  have both: "\<not> (?p = Some x \<and> ?n = Some x)" for x using dis last_of_mem first_of_mem by fastforce
  let ?f = "\<lambda>x l. let l = (if x = a then l\<lparr>lsa_next := ?n\<rparr> else l) in if ?n = Some x then l\<lparr>lsa_prev := Some a\<rparr> else l"
  have sl: "slack 1 t" using slack_mono [OF T(3)] by simp
  have "link_next c a t H = Some (t, heap_map ?f H)" by (rule link_next_exact [OF T(1,2) sl pre]) (use mem H in auto)
  moreover have "link_prev c a t (heap_map ?f H) = Some (t, heap_map (\<lambda>x l. let l = (if x = a then l\<lparr>lsa_prev := ?p\<rparr> else l) in
      if ?p = Some x then l\<lparr>lsa_next := Some a\<rparr> else l) (heap_map ?f H))"
    by (rule link_prev_exact [OF T pre]) (use mem H in auto)
  moreover have "heap_map (\<lambda>x l. let l = (if x = a then l\<lparr>lsa_prev := ?p\<rparr> else l) in if ?p = Some x then l\<lparr>lsa_next := Some a\<rparr> else l) (heap_map ?f H)
      = heap_map (relink a ?p ?n) H"
    unfolding heap_map_comp by (rule heap_map_cong) (use pn both in \<open>auto simp: relink_def Let_def\<close>)
  ultimately show ?thesis by simp
qed

lemma relink_old:
  assumes lk: "linked H (xs @ b # ys)" and dis: "distinct (xs @ b # ys)" and a: "a \<notin> set (xs @ b # ys)" "H a \<noteq> None"
  shows "do {
      ol \<leftarrow> H b;
      H \<leftarrow> heap_upd_opt (lsa_prev ol) (\<lambda>l. l\<lparr>lsa_next := Some a\<rparr>) H;
      H \<leftarrow> heap_upd_opt (lsa_next ol) (\<lambda>l. l\<lparr>lsa_prev := Some a\<rparr>) H;
      ol \<leftarrow> H b;
      H \<leftarrow> heap_upd a (\<lambda>l. l\<lparr>lsa_next := lsa_next ol\<rparr>) H;
      ol \<leftarrow> H b;
      heap_upd a (\<lambda>l. l\<lparr>lsa_prev := lsa_prev ol\<rparr>) H } = Some (heap_map (relink a (last_of xs) (first_of ys)) H)"
proof -
  from linkedD [OF lk] obtain ol where ol: "H b = Some ol" "lsa_prev ol = last_of xs" "lsa_next ol = first_of ys" by blast
  let ?p = "last_of xs" and ?n = "first_of ys"
  have mem: "H x \<noteq> None" if "?p = Some x \<or> ?n = Some x" for x
    using that linked_mem [OF lk, of x] last_of_mem [of xs x] first_of_mem [of ys x] by auto
  have pn: "?p \<noteq> Some a" "?n \<noteq> Some a" "?p \<noteq> Some b" "?n \<noteq> Some b" "a \<noteq> b"
    using a dis last_of_mem first_of_mem by fastforce+
  have both: "\<not> (?p = Some x \<and> ?n = Some x)" for x using dis last_of_mem [of xs x] first_of_mem [of ys x] by auto
  have u1: "heap_upd_opt ?p f H = Some (heap_map (\<lambda>x l. if ?p = Some x then f l else l) H)" for f
    by (rule heap_upd_opt_map) (use mem in auto)
  have u2: "heap_upd_opt ?n f (heap_map g H) = Some (heap_map (\<lambda>x l. if ?n = Some x then f l else l) (heap_map g H))" for f g
    by (rule heap_upd_opt_map) (use mem in auto)
  have u3: "heap_upd a f (heap_map g H) = Some (heap_map (\<lambda>x l. if x = a then f l else l) (heap_map g H))" for f g
    by (rule heap_upd_map) (use a in auto)
  show ?thesis
    using ol pn by (simp add: u1 u2 u3 heap_map_comp heap_map_Some) (rule heap_map_cong, use ol pn both in \<open>auto simp: relink_def\<close>)
qed

lemma heap_unlock_other:
  assumes "H b = Some l" and "lsa_lock l \<noteq> 0"
  shows "\<exists>H'. heap_unlock b H = Some H' \<and> (\<forall>x. x \<noteq> b \<longrightarrow> H' x = H x)"
  using assms by (auto simp: heap_unlock_def ospf6_lsa_unlock_def ospf6_lsa_delete_def Let_def)

lemma relink_simps [simp]:
  "lsa_lock (relink a p n x l) = lsa_lock l" "lsa_bits (relink a p n x l) = lsa_bits l"
  "complete_lsa (relink a p n x l) = complete_lsa l"
  by (simp_all add: relink_def lsa_bits_def complete_lsa_def)

lemma lock_simps [simp]:
  "lsa_bits (ospf6_lsa_lock l) = lsa_bits l" "complete_lsa (ospf6_lsa_lock l) = complete_lsa l"
  "lsa_prev (ospf6_lsa_lock l) = lsa_prev l" "lsa_next (ospf6_lsa_lock l) = lsa_next l" "lsa_lock (ospf6_lsa_lock l) = lsa_lock l + 1"
  by (simp_all add: ospf6_lsa_lock_def lsa_bits_def complete_lsa_def)

text \<open>
  The heap after the LSAs have been linked and the hooks have been run; the replaced LSA is
  still to be released.
\<close>

lemma add_linked:
  assumes rep: "linked H (xs @ zs @ ys)" "distinct (xs @ zs @ ys)" and a: "a \<notin> set (xs @ zs @ ys)" "H a = Some l"
    and f: "ages f"
  defines "H' \<equiv> heap_map f (heap_map (relink a (last_of xs) (first_of ys)) (heap_map (\<lambda>x l. if x = a then ospf6_lsa_lock l else l) H))"
  shows "linked H' (xs @ a # ys)"
    and "H x = Some m \<Longrightarrow> \<exists>m'. H' x = Some m' \<and> lsa_bits m' = lsa_bits m \<and> lsa_lock m' = lsa_lock m + (if x = a then 1 else 0)"
proof -
  let ?H1 = "heap_map (\<lambda>x l. if x = a then ospf6_lsa_lock l else l) H"
  have f': "lsa_prev (f x l) = lsa_prev l" "lsa_next (f x l) = lsa_next l" "lsa_bits (f x l) = lsa_bits l" "lsa_lock (f x l) = lsa_lock l" for x l
    using f unfolding ages_def by (metis set_age_keeps)+
  have "linked ?H1 (xs @ zs @ ys)" by (rule linked_cong [OF rep(1)]) (use a in \<open>auto simp: heap_map_Some\<close>)
  then have "linked (heap_map (relink a (last_of xs) (first_of ys)) ?H1) (xs @ a # ys)"
    by (rule linked_relink) (use rep a in auto)
  then show "linked H' (xs @ a # ys)" unfolding H'_def by (rule linked_cong) (auto simp: heap_map_Some f')
  show "\<exists>m'. H' x = Some m' \<and> lsa_bits m' = lsa_bits m \<and> lsa_lock m' = lsa_lock m + (if x = a then 1 else 0)" if "H x = Some m"
    using that unfolding H'_def by (simp add: heap_map_Some f')
qed

lemma add_links:
  assumes t2: "table_tree t2 T2" "tidy t2" "slack 2 t2" "preorder T2 = us @ c # vs"
    and L: "L = seq_of t2 us @ (case old of None \<Rightarrow> [] | Some b \<Rightarrow> [b]) @ seq_of t2 vs" and lk: "linked H L" "distinct L"
    and a: "a \<notin> set L" "H a \<noteq> None"
  shows "(case old of
      Some o' \<Rightarrow> do {
          ol \<leftarrow> H o';
          H \<leftarrow> heap_upd_opt (lsa_prev ol) (\<lambda>l. l\<lparr>lsa_next := Some a\<rparr>) H;
          H \<leftarrow> heap_upd_opt (lsa_next ol) (\<lambda>l. l\<lparr>lsa_prev := Some a\<rparr>) H;
          ol \<leftarrow> H o';
          H \<leftarrow> heap_upd a (\<lambda>l. l\<lparr>lsa_next := lsa_next ol\<rparr>) H;
          ol \<leftarrow> H o';
          H \<leftarrow> heap_upd a (\<lambda>l. l\<lparr>lsa_prev := lsa_prev ol\<rparr>) H;
          Some (t2, H, cnt)
        }
    | None \<Rightarrow> do {
          (t, H) \<leftarrow> link_next c a t2 H;
          (t, H) \<leftarrow> link_prev c a t H;
          Some (t, H, cnt + 1)
        }) = Some (t2, heap_map (relink a (last_of (seq_of t2 us)) (first_of (seq_of t2 vs))) H,
           if old = None then cnt + 1 else cnt)"
proof (cases old)
  case None
  have L': "L = seq_of t2 us @ seq_of t2 vs" using L None by simp
  have "do { (t, H) \<leftarrow> link_next c a t2 H; (t, H) \<leftarrow> link_prev c a t H; Some (t, H) }
    = Some (t2, heap_map (relink a (last_of (seq_of t2 us)) (first_of (seq_of t2 vs))) H)"
    by (rule relink_new [OF t2]) (use linked_mem [OF lk(1)] a lk(2) in \<open>auto simp: L'\<close>)
  with None show ?thesis by (auto split: bind_splits)
next
  case (Some b)
  have L': "L = seq_of t2 us @ b # seq_of t2 vs" using L Some by simp
  from relink_old [OF lk(1) [unfolded L'] lk(2) [unfolded L'] a(1) [unfolded L'] a(2)] Some show ?thesis
    by (auto split: bind_splits)
qed

end
