(* ===== verification/Ospf6_Lsdb_Seq.thy ===== *)
theory Ospf6_Lsdb_Seq
  imports Ospf6_Lsdb_Ops
begin

text \<open>
  What insertion, lookup, removal and iteration do to the sequence of LSAs that a link state
  database represents, and the properties of the database.
\<close>

section \<open>Insertion\<close>

lemma find_lsa_SomeD: "find_lsa H bs L = Some x \<Longrightarrow> x \<in> set L \<and> lsa_bits (the (H x)) = bs"
  by (auto simp: find_lsa_def find_Some_iff)

lemma add_rep:
  assumes rep: "lsdb_rep H db L" and sl: "slack 3 (db_table db)" and a: "H a = Some l" "a \<notin> set L" "lsa_lock l + 1 \<noteq> 0"
    and full: "\<And>b. find_lsa H (lsa_bits l) L = Some b \<Longrightarrow> complete_lsa l \<and> complete_lsa (the (H b))"
  shows "\<exists>hooks db' H'. ospf6_lsdb_add now a db H = Some (hooks, db', H')
    \<and> lsdb_rep H' db' (before_key H (lsa_bits l) L @ a # after_key H (lsa_bits l) L) \<and> slack 2 (db_table db')
    \<and> (\<forall>x m. H x = Some m \<and> find_lsa H (lsa_bits l) L \<noteq> Some x \<longrightarrow>
        (\<exists>m'. H' x = Some m' \<and> lsa_bits m' = lsa_bits m \<and> lsa_lock m' = lsa_lock m + (if x = a then 1 else 0)))"
proof -
  from rep obtain T where t: "table_tree (db_table db) T" "tidy (db_table db)" "L = map snd (entries_of (db_table db) (preorder T))"
    and ent: "\<forall>e\<in>set (entries_of (db_table db) (preorder T)). entry_ok H e" and lk: "linked H L" and cnt: "db_count db = of_nat (length L)"
    unfolding lsdb_rep_def by blast
  have dis: "distinct L" by (rule rep_distinct [OF rep])
  obtain k where k: "lsa_key_of l = Some k" "get_key k" "prefix_bits k = lsa_bits l" using lsa_key_ok by blast
  define old where "old = find_lsa H (lsa_bits l) L"
  from insert_tree [OF t(1,2) sl k(2), of a] rep_find [OF rep] k(3) obtain c t1 t2 n T2 us vs where
    get: "route_node_get (db_table db) k = Some (c, t1)" "rt_nodes t1 c = Some n" "rn_info n = old" "route_node_info c (Some a) t1 = Some t2"
    and t2: "table_tree t2 T2" "tidy t2" "slack 2 t2" "preorder T2 = us @ c # vs"
    and e: "entries_of (db_table db) (preorder T) = entries_of t2 us @ (case old of None \<Rightarrow> [] | Some j \<Rightarrow> [(rn_p n, j)]) @ entries_of t2 vs"
    and e2: "entries_of t2 (preorder T2) = entries_of t2 us @ (rn_p n, a) # entries_of t2 vs" and pk: "prefix_bits (rn_p n) = lsa_bits l"
    unfolding old_def by metis
  let ?X = "seq_of t2 us" and ?Z = "case old of None \<Rightarrow> [] | Some b \<Rightarrow> [b]" and ?Y = "seq_of t2 vs"
  have L: "L = ?X @ ?Z @ ?Y" using t(3) e by (cases old) (simp_all add: seq_of_def)
  let ?H1 = "heap_map (\<lambda>x l. if x = a then ospf6_lsa_lock l else l) H"
  let ?H2 = "heap_map (relink a (last_of ?X) (first_of ?Y)) ?H1"
  have up: "heap_upd a ospf6_lsa_lock H = Some ?H1" using a(1) by (intro heap_upd_map) simp
  have lk1: "linked ?H1 L" by (rule linked_cong [OF lk]) (use a(2) in \<open>auto simp: heap_map_Some\<close>)
  note links = add_links [OF t2 L lk1 dis a(2), where cnt = "db_count db"]
  let ?db = "db\<lparr>db_table := t2, db_count := (if old = None then db_count db + 1 else db_count db)\<rparr>"
  have H2a: "?H2 a = Some (relink a (last_of ?X) (first_of ?Y) a (ospf6_lsa_lock l))" using a(1) by (simp add: heap_map_Some)
  have old: "o' \<noteq> a \<and> complete_lsa l \<and> (\<exists>ol. ?H2 o' = Some ol \<and> complete_lsa ol)" if "old = Some o'" for o'
  proof -
    have "o' \<in> set L" using L that by simp
    with rep_lsa [OF rep] a(2) obtain ol where "H o' = Some ol" "o' \<noteq> a" by blast
    with full [of o'] that show ?thesis by (auto simp: old_def heap_map_Some)
  qed
  from add_hooks_ages [where H = "?H2" and a = a and old = old and now = now and db = "?db", OF H2a] old obtain hooks f where
    hk: "add_hooks now old a ?db ?H2 = Some (hooks, heap_map f ?H2)" "ages f" by auto
  let ?H3 = "heap_map f ?H2"
  note A = add_linked [OF lk [unfolded L] dis [unfolded L] a(2) [unfolded L] a(1) hk(2)]
  have rel: "\<exists>H4. (case old of None \<Rightarrow> Some ?H3 | Some o' \<Rightarrow> heap_unlock o' ?H3) = Some H4 \<and> (\<forall>x. old \<noteq> Some x \<longrightarrow> H4 x = ?H3 x)"
  proof (cases old)
    case (Some b)
    with L have "b \<in> set L" by simp
    with rep_lsa [OF rep] obtain m where m: "H b = Some m" "lsa_lock m \<noteq> 0" by blast
    have "b \<noteq> a" using a(2) \<open>b \<in> set L\<close> by auto
    with A(2) [OF m(1)] m(2) obtain m' where "?H3 b = Some m'" "lsa_lock m' \<noteq> 0" by auto
    from heap_unlock_other [where H = "?H3" and b = b, OF this] Some show ?thesis by fastforce
  qed simp
  then obtain H4 where H4: "(case old of None \<Rightarrow> Some ?H3 | Some o' \<Rightarrow> heap_unlock o' ?H3) = Some H4"
    "\<And>x. old \<noteq> Some x \<Longrightarrow> H4 x = ?H3 x" by blast
  have add: "ospf6_lsdb_add now a db H = Some (hooks, ?db, H4)"
    using a(1) k(1) get up hk(1) H4(1) links by (simp add: ospf6_lsdb_add_def)
  have keep: "\<exists>m'. H4 x = Some m' \<and> lsa_bits m' = lsa_bits m \<and> lsa_lock m' = lsa_lock m + (if x = a then 1 else 0)"
    if "H x = Some m" "old \<noteq> Some x" for x m using A(2) [OF that(1)] H4(2) [OF that(2)] by simp
  have notold: "old \<noteq> Some x" if "x \<in> set (?X @ a # ?Y)" for x
    using that dis a(2) L by (cases old) auto
  have "linked H4 (?X @ a # ?Y)" by (rule linked_cong [OF A(1)]) (use H4(2) notold in auto)
  moreover have "entry_ok H4 e" if "e \<in> set (entries_of t2 (preorder T2))" for e
  proof (cases "snd e \<in> set ?X \<union> set ?Y")
    case True
    with that e e2 a(2) L have "e \<in> set (entries_of (db_table db) (preorder T))" "snd e \<noteq> a" by auto
    with ent obtain m where "H (snd e) = Some m" "lsa_bits m = prefix_bits (fst e)" "lsa_lock m \<noteq> 0" by (auto simp: entry_ok_def)
    with keep [of "snd e" m] notold [of "snd e"] True \<open>snd e \<noteq> a\<close> show ?thesis by (auto simp: entry_ok_def)
  next
    case False
    with that e2 have "e = (rn_p n, a)" by (force simp: seq_of_def)
    with keep [OF a(1)] notold [of a] pk a(3) show ?thesis by (auto simp: entry_ok_def)
  qed
  moreover have "(if old = None then db_count db + 1 else db_count db) = of_nat (length (?X @ a # ?Y))"
    using cnt L by (cases old) (simp_all add: add_ac)
  moreover have "?X @ a # ?Y = map snd (entries_of t2 (preorder T2))" using e2 by (simp add: seq_of_def)
  ultimately have rep': "lsdb_rep H4 ?db (?X @ a # ?Y)" unfolding lsdb_rep_def using t2(1,2) by auto
  have bits: "lsa_bits (the (H4 x)) = lsa_bits (the (H x))" if "x \<in> set (?X @ a # ?Y)" for x
  proof -
    from that L linked_mem [OF lk, of x] a(1) obtain m where "H x = Some m" by fastforce
    with keep [of x m] notold [OF that] show ?thesis by auto
  qed
  have "bits_less (lsa_bits (the (H x))) (lsa_bits l)" if "x \<in> set ?X" for x
    using rep_sorted [OF rep'] that bits [of x] bits [of a] a(1) by (auto simp: sorted_wrt_append)
  moreover have "bits_less (lsa_bits l) (lsa_bits (the (H x)))" if "x \<in> set ?Y" for x
    using rep_sorted [OF rep'] that bits [of x] bits [of a] a(1) by (auto simp: sorted_wrt_append)
  moreover have "lsa_bits (the (H x)) = lsa_bits l" if "x \<in> set ?Z" for x
    using that find_lsa_SomeD [of H "lsa_bits l" L] by (cases old) (auto simp: old_def)
  ultimately have "before_key H (lsa_bits l) L = ?X" "after_key H (lsa_bits l) L = ?Y"
    using around_key [of ?X H "lsa_bits l" ?Y ?Z] L by metis+
  with add rep' t2(3) keep show ?thesis unfolding old_def [symmetric] by auto
qed

section \<open>Removal\<close>

lemma entries_of_removed:
  assumes "table_tree t T" and "rt_nodes t c = Some n" and "rn_info n = Some a"
  shows "\<exists>us vs. preorder T = us @ c # vs \<and> entries_of t (preorder T) = entries_of t us @ (rn_p n, a) # entries_of t vs
    \<and> entries_of (t\<lparr>rt_nodes := (rt_nodes t)(c \<mapsto> n\<lparr>rn_info := None\<rparr>)\<rparr>) (preorder T) = entries_of t us @ entries_of t vs"
proof -
  let ?t = "t\<lparr>rt_nodes := (rt_nodes t)(c \<mapsto> n\<lparr>rn_info := None\<rparr>)\<rparr>"
  have "c \<in> set (preorder T)" using assms(1,2) by (auto simp: table_tree_def)
  then obtain us vs where pre: "preorder T = us @ c # vs" by (meson split_list)
  have "distinct (preorder T)" using assms(1) radix_distinct_preorder by (auto simp: table_tree_def)
  with pre have out: "c \<notin> set us" "c \<notin> set vs" by auto
  have "entries_of ?t us = entries_of t us" "entries_of ?t vs = entries_of t vs"
    by (rule entries_of_other [OF out(1)], rule entries_of_other [OF out(2)])
  moreover have "entries_of t [c] = [(rn_p n, a)]" "entries_of ?t [c] = []" using assms(2,3) by (simp_all add: entries_of_def)
  ultimately show ?thesis
    using pre entries_of_Cons [of t c vs] entries_of_Cons [of ?t c vs] by (intro exI [of _ us] exI [of _ vs]) simp
qed

lemma distinct_split_both: "distinct (xs @ a # ys) \<Longrightarrow> xs @ a # ys = xs' @ a # ys' \<Longrightarrow> xs = xs' \<and> ys = ys'"
  using distinct_split [of xs a ys xs' ys'] by auto

lemma unlink_heap:
  assumes lk: "linked H (xs @ a # ys)" and dis: "distinct (xs @ a # ys)" and l: "H a = Some l"
  shows "do { H \<leftarrow> heap_upd_opt (lsa_prev l) (\<lambda>p. p\<lparr>lsa_next := lsa_next l\<rparr>) H;
      heap_upd_opt (lsa_next l) (\<lambda>p. p\<lparr>lsa_prev := lsa_prev l\<rparr>) H } = Some (heap_map (unlink (last_of xs) (first_of ys)) H)"
proof -
  let ?p = "last_of xs" and ?n = "first_of ys"
  have pn: "lsa_prev l = ?p" "lsa_next l = ?n" using linkedD [OF lk] l by auto
  have mem: "H x \<noteq> None" if "?p = Some x \<or> ?n = Some x" for x
    using that linked_mem [OF lk, of x] last_of_mem [of xs x] first_of_mem [of ys x] by auto
  have both: "\<not> (?p = Some x \<and> ?n = Some x)" for x using dis last_of_mem [of xs x] first_of_mem [of ys x] by auto
  have u1: "heap_upd_opt ?p f H = Some (heap_map (\<lambda>x l. if ?p = Some x then f l else l) H)" for f
    by (rule heap_upd_opt_map) (use mem in auto)
  have u2: "heap_upd_opt ?n f (heap_map g H) = Some (heap_map (\<lambda>x l. if ?n = Some x then f l else l) (heap_map g H))" for f g
    by (rule heap_upd_opt_map) (use mem in auto)
  show ?thesis
    by (simp add: pn u1 u2 heap_map_comp) (rule heap_map_cong, use both in \<open>auto simp: unlink_def\<close>)
qed

lemma unlink_simps [simp]: "lsa_lock (unlink p n x l) = lsa_lock l" "lsa_bits (unlink p n x l) = lsa_bits l"
  by (simp_all add: unlink_def lsa_bits_def)

lemma heap_unlock_at:
  assumes "H b = Some l" and "lsa_lock l \<noteq> 0"
  shows "heap_unlock b H = Some (H(b := (if lsa_lock l = 1 then None else Some (l\<lparr>lsa_lock := lsa_lock l - 1\<rparr>))))"
  using assms by (auto simp: heap_unlock_def ospf6_lsa_unlock_def ospf6_lsa_delete_def Let_def)

text \<open>The tree after a removal: the node stays, locked, without its entry.\<close>

lemma remove_tree:
  assumes wf: "wf_table t" and tidy: "tidy t" "slack 1 t" and n: "rt_nodes t c = Some n" "rn_info n = Some a"
  shows "\<exists>t'. route_node_info c None (lock_at (Some c) t) = Some t'
    \<and> route_unlock_node c t' = Some (t\<lparr>rt_nodes := (rt_nodes t)(c \<mapsto> n\<lparr>rn_info := None\<rparr>)\<rparr>)"
proof -
  have "rn_lock n \<noteq> 0" using tidy(1) n by (auto simp: tidy_def)
  with n show ?thesis
    by (simp add: route_node_info_def upd_node_def lock_at_def route_unlock_node_def)
qed

lemma remove_rep:
  assumes rep: "lsdb_rep H db (xs @ a # ys)" and sl: "slack 1 (db_table db)"
  shows "\<exists>db' H' l. ospf6_lsdb_remove a db H = Some (hook_remove db a, db', H') \<and> lsdb_rep H' db' (xs @ ys)
    \<and> H a = Some l \<and> H' = (heap_map (unlink (last_of xs) (first_of ys)) H)(a := (if lsa_lock l = 1 then None else Some (l\<lparr>lsa_lock := lsa_lock l - 1\<rparr>)))
    \<and> (\<forall>k. slack k (db_table db) \<longrightarrow> slack k (db_table db'))"
proof -
  let ?L = "xs @ a # ys" let ?t = "db_table db"
  from rep obtain T where t: "table_tree ?t T" "tidy ?t" "?L = map snd (entries_of ?t (preorder T))"
    and ent: "\<forall>e\<in>set (entries_of ?t (preorder T)). entry_ok H e" and lk: "linked H ?L" and cnt: "db_count db = of_nat (length ?L)"
    unfolding lsdb_rep_def by metis
  have dis: "distinct ?L" by (rule rep_distinct [OF rep])
  have wf: "wf_table ?t" using t(1) by (auto simp: wf_table_def)
  from rep_lsa [OF rep, of a] obtain l where l: "H a = Some l" "lsa_lock l \<noteq> 0" "table_map ?t (lsa_bits l) = Some a" by auto
  obtain k where k: "lsa_key_of l = Some k" "lookup_key k" "prefix_bits k = lsa_bits l" using lsa_key_ok by blast
  from l(3) table_map_iff [OF wf] obtain c n where n: "rt_nodes ?t c = Some n" "prefix_bits (rn_p n) = lsa_bits l" "rn_info n = Some a"
    by (auto simp: holds_def)
  from route_node_lookup_finds [OF wf k(2)] n k(3) have look: "route_node_lookup ?t k = Some (Some c, lock_at (Some c) ?t)" by metis
  from remove_tree [OF wf t(2) sl n(1,3)] obtain t1 where
    t1: "route_node_info c None (lock_at (Some c) ?t) = Some t1"
      "route_unlock_node c t1 = Some (?t\<lparr>rt_nodes := (rt_nodes ?t)(c \<mapsto> n\<lparr>rn_info := None\<rparr>)\<rparr>)" by blast
  let ?t2 = "?t\<lparr>rt_nodes := (rt_nodes ?t)(c \<mapsto> n\<lparr>rn_info := None\<rparr>)\<rparr>"
  from entries_of_removed [OF t(1) n(1,3)] obtain us vs where e: "entries_of ?t (preorder T) = entries_of ?t us @ (rn_p n, a) # entries_of ?t vs"
    "entries_of ?t2 (preorder T) = entries_of ?t us @ entries_of ?t vs" by blast
  have xy: "xs = map snd (entries_of ?t us)" "ys = map snd (entries_of ?t vs)"
    using distinct_split_both [OF dis] t(3) e(1) by auto
  let ?H1 = "heap_map (unlink (last_of xs) (first_of ys)) H"
  have a1: "?H1 a = Some l"
    using l(1) dis last_of_mem [of xs a] first_of_mem [of ys a] by (auto simp: heap_map_Some unlink_def)
  let ?H2 = "?H1(a := (if lsa_lock l = 1 then None else Some (l\<lparr>lsa_lock := lsa_lock l - 1\<rparr>)))"
  have un: "heap_unlock a ?H1 = Some ?H2" by (rule heap_unlock_at [where H = "?H1", OF a1 l(2)])
  have info: "rt_nodes (lock_at (Some c) ?t) c = Some (n\<lparr>rn_lock := rn_lock n + 1\<rparr>)" using n(1) by (simp add: lock_at_nodes)
  let ?db = "db\<lparr>db_table := ?t2, db_count := db_count db - 1\<rparr>"
  have rem: "ospf6_lsdb_remove a db H = Some (hook_remove db a, ?db, ?H2)"
    using l(1) k(1) look info n(3) unlink_heap [OF lk dis l(1)] t1 un
    by (auto simp: ospf6_lsdb_remove_def bind_eq_Some_conv split: bind_splits)
  have "tidy ?t2"
  proof -
    have "rn_lock n \<noteq> 0" using t(2) n by (auto simp: tidy_def)
    with tidy_info [OF t(2) n(1), of None] show ?thesis using n(1) by (simp add: route_node_info_def upd_node_def)
  qed
  moreover have "linked ?H2 (xs @ ys)"
    by (rule linked_cong [OF linked_unlink [OF lk dis]]) (use dis in auto)
  moreover have "entry_ok ?H2 en" if "en \<in> set (entries_of ?t2 (preorder T))" for en
  proof -
    from that e xy dis have "en \<in> set (entries_of ?t (preorder T))" "snd en \<noteq> a" by auto
    with ent show ?thesis by (auto simp: entry_ok_def heap_map_Some)
  qed
  moreover have "db_count db - 1 = of_nat (length (xs @ ys))" using cnt by simp
  moreover have "xs @ ys = map snd (entries_of ?t2 (preorder T))" using e(2) xy by simp
  ultimately have "lsdb_rep ?H2 ?db (xs @ ys)" unfolding lsdb_rep_def using table_tree_info [OF t(1) n(1), of None] by auto
  moreover have "slack k ?t2" if "slack k ?t" for k using that n(1) unfolding slack_def by (auto split: if_splits)
  ultimately show ?thesis using rem l(1) by auto
qed

section \<open>Iteration\<close>

lemma first_entry_exact:
  assumes "table_tree t T" and "tidy t" and "slack 1 t"
  shows "do { (node, t) \<leftarrow> route_top t; first_entry node t }
    = Some (first_of (filter (has_info t) (preorder T)), lock_at (first_of (filter (has_info t) (preorder T))) t)"
proof (cases "preorder T")
  case Nil
  then have "rt_top t = None" using assms(1) tree_at_first by (auto simp: table_tree_def)
  with Nil show ?thesis by (simp add: route_top_def first_entry_def lock_at_def)
next
  case (Cons a ys)
  then have top: "rt_top t = Some a" using assms(1) tree_at_first by (fastforce simp: table_tree_def)
  have "a \<in> dom (rt_nodes t)" using table_tree_dom [OF assms(1)] set_preorder [of T] Cons by auto
  then obtain n where n: "rt_nodes t a = Some n" and lock: "route_lock_node a t = Some (lock_at (Some a) t)"
    using route_lock_node_at by blast
  have "skip_next a (lock_at (Some a) t) = Some (first_of (filter (has_info t) ys), lock_at (first_of (filter (has_info t) ys)) t)"
    by (rule skip_next_exact [OF assms, of "[]"]) (simp add: Cons)
  with top n lock Cons has_info_node [OF n] show ?thesis by (auto simp: route_top_def first_entry_def lock_at_nodes)
qed

definition lock_lsa :: "nat option \<Rightarrow> lsa_heap \<Rightarrow> lsa_heap" where
  "lock_lsa r H = heap_map (\<lambda>x l. if r = Some x then ospf6_lsa_lock l else l) H"

lemma head_rep:
  assumes rep: "lsdb_rep H db L" and sl: "slack 1 (db_table db)"
  shows "ospf6_lsdb_head db H = Some (first_of L, db, lock_lsa (first_of L) H)"
proof -
  let ?t = "db_table db"
  from rep obtain T where t: "table_tree ?t T" "tidy ?t" and L: "L = seq_of ?t (preorder T)" and lk: "linked H L"
    unfolding lsdb_rep_def seq_of_def by blast
  have sub: "set (preorder T) \<subseteq> dom (rt_nodes ?t)" using table_tree_dom [OF t(1)] by simp
  have wf: "wf_table ?t" using t(1) by (auto simp: wf_table_def)
  note fe = first_entry_exact [OF t sl]
  have split: "ospf6_lsdb_head db H = do { (node, t) \<leftarrow> do { (node, t) \<leftarrow> route_top ?t; first_entry node t };
       (case node of None \<Rightarrow> Some (None, db\<lparr>db_table := t\<rparr>, H)
        | Some a \<Rightarrow>
            do {
              t \<leftarrow> route_unlock_node a t;
              n \<leftarrow> rt_nodes t a;
              (case rn_info n of None \<Rightarrow> Some (None, db\<lparr>db_table := t\<rparr>, H)
               | Some l \<Rightarrow> do { H \<leftarrow> heap_upd l ospf6_lsa_lock H; Some (Some l, db\<lparr>db_table := t\<rparr>, H) })
            }) }"
    by (auto simp: ospf6_lsdb_head_def split: bind_splits)
  show ?thesis
  proof (cases "filter (has_info ?t) (preorder T)")
    case Nil
    with seq_of_filter(1) [OF sub] L have "L = []" by simp
    with Nil split fe show ?thesis by (simp add: lock_at_def lock_lsa_def)
  next
    case (Cons x ws)
    from seq_of_filter(2) [OF sub Cons] L obtain n where n: "rt_nodes ?t x = Some n" "rn_info n = first_of L" by auto
    have "L \<noteq> []" using seq_of_filter(1) [OF sub] Cons L by simp
    then obtain b where b: "first_of L = Some b" "b \<in> set L" by (cases L) auto
    have un: "route_unlock_node x (lock_at (Some x) ?t) = Some ?t" by (rule unlock_tidy [OF wf t(2)]) (use n in auto)
    have "heap_upd b ospf6_lsa_lock H = Some (lock_lsa (Some b) H)"
      using heap_upd_map [of H b] linked_mem [OF lk b(2)] by (simp add: lock_lsa_def eq_commute)
    with split fe Cons n b un show ?thesis by simp
  qed
qed

text \<open>Taking and releasing a reference leaves the heap as it was.\<close>

lemma lock_unlock:
  assumes "H a = Some l" and "lsa_lock l \<noteq> 0" and "lsa_lock l + 1 \<noteq> 0"
  shows "heap_unlock a (lock_lsa (Some a) H) = Some H"
proof -
  have a: "lock_lsa (Some a) H a = Some (ospf6_lsa_lock l)" using assms(1) by (simp add: lock_lsa_def heap_map_Some)
  have nz: "lsa_lock (ospf6_lsa_lock l) \<noteq> 0" "lsa_lock (ospf6_lsa_lock l) \<noteq> 1" using assms(2,3) by simp_all
  have "(ospf6_lsa_lock l)\<lparr>lsa_lock := lsa_lock (ospf6_lsa_lock l) - 1\<rparr> = l" by (simp add: ospf6_lsa_lock_def)
  then have "(lock_lsa (Some a) H)(a := Some ((ospf6_lsa_lock l)\<lparr>lsa_lock := lsa_lock (ospf6_lsa_lock l) - 1\<rparr>)) = H"
    using assms(1) by (auto simp: lock_lsa_def heap_map_def fun_eq_iff option.map_ident)
  with heap_unlock_at [where H = "lock_lsa (Some a) H" and b = a, OF a nz(1)] nz(2) show ?thesis by (simp del: lock_simps)
qed

lemma next_rep:
  assumes "linked H (xs @ a # ys)" and "H a = Some l" and "lsa_lock l \<noteq> 0" and "lsa_lock l + 1 \<noteq> 0"
  shows "ospf6_lsdb_next a (lock_lsa (Some a) H) = Some (first_of ys, lock_lsa (first_of ys) H)"
proof -
  have l: "lsa_next l = first_of ys" using linkedD [OF assms(1)] assms(2) by auto
  have "lock_lsa (Some a) H a = Some (ospf6_lsa_lock l)" using assms(2) by (simp add: lock_lsa_def heap_map_Some)
  moreover have "heap_upd_opt (first_of ys) ospf6_lsa_lock H = Some (lock_lsa (first_of ys) H)"
    unfolding lock_lsa_def by (rule heap_upd_opt_map) (use linked_mem [OF assms(1)] first_of_mem in fastforce)
  ultimately show ?thesis using lock_unlock [of H a, OF assms(2-4)] l by (simp add: ospf6_lsdb_next_def)
qed

text \<open>The loop \<open>for (lsa = ospf6_lsdb_head (db); lsa; lsa = ospf6_lsdb_next (lsa))\<close> and the LSAs it
  meets, at most \<open>k\<close> of them.\<close>

fun lsdb_walk :: "nat \<Rightarrow> nat option \<Rightarrow> lsa_heap \<Rightarrow> (nat list \<times> lsa_heap) option" where
  "lsdb_walk k None H = Some ([], H)"
| "lsdb_walk 0 (Some a) H = None"
| "lsdb_walk (Suc k) (Some a) H = do { (nx, H) \<leftarrow> ospf6_lsdb_next a H; (rest, H) \<leftarrow> lsdb_walk k nx H; Some (a # rest, H) }"

definition refs_ok :: "lsa_heap \<Rightarrow> nat list \<Rightarrow> bool" where
  "refs_ok H L \<longleftrightarrow> (\<forall>a\<in>set L. \<exists>l. H a = Some l \<and> lsa_lock l \<noteq> 0 \<and> lsa_lock l + 1 \<noteq> 0)"

lemma walk_rep:
  assumes "linked H L" and "refs_ok H L"
  shows "L = xs @ ys \<Longrightarrow> lsdb_walk (length ys) (first_of ys) (lock_lsa (first_of ys) H) = Some (ys, H)"
proof (induction ys arbitrary: xs)
  case Nil
  then show ?case by (simp add: lock_lsa_def)
next
  case (Cons a ys)
  from assms(2) Cons.prems obtain l where l: "H a = Some l" "lsa_lock l \<noteq> 0" "lsa_lock l + 1 \<noteq> 0" unfolding refs_ok_def by auto
  from next_rep [OF assms(1) [unfolded Cons.prems] l] Cons.IH [of "xs @ [a]"] Cons.prems show ?case by simp
qed

section \<open>Emptying a database\<close>

lemma linked_lock [simp]: "linked H L \<Longrightarrow> linked (lock_lsa r H) L"
  by (rule linked_cong) (auto simp: lock_lsa_def heap_map_Some)

lemma rep_heap:
  assumes "lsdb_rep H db L" and "\<And>a l. a \<in> set L \<Longrightarrow> H a = Some l \<Longrightarrow> \<exists>l'. H' a = Some l' \<and> lsa_prev l' = lsa_prev l
      \<and> lsa_next l' = lsa_next l \<and> lsa_bits l' = lsa_bits l \<and> (lsa_lock l \<noteq> 0 \<longrightarrow> lsa_lock l' \<noteq> 0)"
  shows "lsdb_rep H' db L"
proof -
  from assms(1) obtain T where t: "tidy (db_table db)" "db_count db = of_nat (length L)" "linked H L" "table_tree (db_table db) T"
    "L = map snd (entries_of (db_table db) (preorder T))" "\<forall>e\<in>set (entries_of (db_table db) (preorder T)). entry_ok H e"
    unfolding lsdb_rep_def by blast
  have "linked H' L" by (rule linked_cong [OF t(3)]) (use assms(2) in blast)
  moreover have "\<forall>e\<in>set (entries_of (db_table db) (preorder T)). entry_ok H' e"
  proof
    fix e
    assume e: "e \<in> set (entries_of (db_table db) (preorder T))"
    with t(6) obtain l where l: "H (snd e) = Some l" "lsa_bits l = prefix_bits (fst e)" "lsa_lock l \<noteq> 0" by (auto simp: entry_ok_def)
    with assms(2) [of "snd e" l] e t(5) show "entry_ok H' e" by (auto simp: entry_ok_def)
  qed
  ultimately show ?thesis unfolding lsdb_rep_def using t by blast
qed

lemma remove_from_rep:
  assumes "lsdb_rep H db ys" and "refs_ok H ys" and "slack 1 (db_table db)"
  shows "\<exists>hooks db' H'. remove_from (first_of ys) db (lock_lsa (first_of ys) H) = Some (hooks, db', H') \<and> lsdb_rep H' db' []
    \<and> hooks = concat (map (hook_remove db) ys)"
  using assms
proof (induction ys arbitrary: H db)
  case Nil
  then show ?case by (subst remove_from.simps) (auto simp: lock_lsa_def)
next
  case (Cons a ys)
  let ?H = "lock_lsa (Some a) H"
  from Cons.prems(2) obtain l where l: "H a = Some l" "lsa_lock l \<noteq> 0" "lsa_lock l + 1 \<noteq> 0" by (auto simp: refs_ok_def)
  have dis: "distinct (a # ys)" by (rule rep_distinct [OF Cons.prems(1)])
  have lk: "linked H (a # ys)" using Cons.prems(1) by (auto simp: lsdb_rep_def)
  have rep: "lsdb_rep ?H db ([] @ a # ys)"
  proof (simp, rule rep_heap [OF Cons.prems(1)])
    fix b m
    assume "b \<in> set (a # ys)" "H b = Some m"
    with l show "\<exists>l'. ?H b = Some l' \<and> lsa_prev l' = lsa_prev m \<and> lsa_next l' = lsa_next m \<and> lsa_bits l' = lsa_bits m
        \<and> (lsa_lock m \<noteq> 0 \<longrightarrow> lsa_lock l' \<noteq> 0)" by (auto simp: lock_lsa_def heap_map_Some)
  qed
  have la: "?H a = Some (ospf6_lsa_lock l)" using l(1) by (simp add: lock_lsa_def heap_map_Some)
  have nz: "lsa_lock (ospf6_lsa_lock l) \<noteq> 1" "lsa_lock (ospf6_lsa_lock l) - 1 = lsa_lock l" using l(2) by simp_all
  from remove_rep [OF rep Cons.prems(3)] la nz obtain db1 H1 where
    rm: "ospf6_lsdb_remove a db ?H = Some (hook_remove db a, db1, H1)" "lsdb_rep H1 db1 ys" "slack 1 (db_table db1)"
    and H1: "H1 = (heap_map (unlink None (first_of ys)) ?H)(a := Some ((ospf6_lsa_lock l)\<lparr>lsa_lock := lsa_lock l\<rparr>))"
    using Cons.prems(3) by auto
  have H1a: "H1 a = Some l" using H1 by (simp add: ospf6_lsa_lock_def)
  have nx: "lsa_next l = first_of ys" using linkedD [of lsa_prev lsa_next H "[]" a ys] lk l(1) by auto
  define H2 where "H2 = H1(a := (if lsa_lock l = 1 then None else Some (l\<lparr>lsa_lock := lsa_lock l - 1\<rparr>)))"
  have un: "heap_unlock a H1 = Some H2" unfolding H2_def by (rule heap_unlock_at [of H1 a, OF H1a l(2)])
  have H2: "H2 x = heap_map (unlink None (first_of ys)) H x" if "x \<in> set ys" for x
    using that dis by (auto simp: H2_def H1 lock_lsa_def heap_map_def option.map_comp comp_def option.map_ident)
  have rep2: "lsdb_rep H2 db1 ys" by (rule rep_heap [OF rm(2)]) (use dis in \<open>auto simp: H2_def\<close>)
  have refs: "refs_ok H2 ys" using Cons.prems(2) unfolding refs_ok_def by (auto simp: H2 heap_map_Some)
  have "heap_upd_opt (first_of ys) ospf6_lsa_lock H2 = Some (lock_lsa (first_of ys) H2)"
    unfolding lock_lsa_def
    by (rule heap_upd_opt_map) (use rep2 linked_mem first_of_mem in \<open>fastforce simp: lsdb_rep_def\<close>)
  then have nxt: "ospf6_lsdb_next a H1 = Some (first_of ys, lock_lsa (first_of ys) H2)"
    using H1a un nx by (simp add: ospf6_lsdb_next_def)
  from Cons.IH [OF rep2 refs rm(3)] obtain hooks db' H' where
    IH: "remove_from (first_of ys) db1 (lock_lsa (first_of ys) H2) = Some (hooks, db', H')" "lsdb_rep H' db' []"
      "hooks = concat (map (hook_remove db1) ys)" by blast
  have "hook_remove db1 = hook_remove db"
    using rm(1) by (auto simp: ospf6_lsdb_remove_def hook_remove_def fun_eq_iff split: bind_splits if_splits)
  with rm(1) nxt IH show ?case by (subst remove_from.simps) simp
qed

end
