(* ===== verification/Ospf6_Lsdb_Props.thy ===== *)
theory Ospf6_Lsdb_Props
  imports Ospf6_Lsdb_Seq
begin

text \<open>
  The properties of the link state database: what a client can rely on when it inserts,
  looks up, removes and iterates.
\<close>

section \<open>Finding\<close>

lemma bits_less_total: "bits_less xs ys \<or> xs = ys \<or> bits_less ys xs"
  using lexord_linear [of "{(False, True)}" xs ys] unfolding bits_less_def by (metis (full_types) insertI1)

lemma find_iff:
  assumes "lsdb_rep H db L"
  shows "find_lsa H bs L = Some x \<longleftrightarrow> x \<in> set L \<and> lsa_bits (the (H x)) = bs"
proof
  assume "x \<in> set L \<and> lsa_bits (the (H x)) = bs"
  with rep_lsa [OF assms, of x] rep_find [OF assms, of bs] show "find_lsa H bs L = Some x" by auto
qed (rule find_lsa_SomeD)

lemma around_mem:
  "x \<in> set (before_key H bs L @ a # after_key H bs L) \<longleftrightarrow> x = a \<or> x \<in> set L \<and> lsa_bits (the (H x)) \<noteq> bs"
  using bits_less_total [of "lsa_bits (the (H x))" bs] bits_less_asym [of bs bs] by (auto simp: before_key_def after_key_def)

lemma option_eqI: "(\<And>x. a = Some x \<longleftrightarrow> b = Some x) \<Longrightarrow> a = b"
  by (metis option.exhaust)

lemma find_after_add:
  assumes rep: "lsdb_rep H db L" "lsdb_rep H' db' (before_key H (lsa_bits l) L @ a # after_key H (lsa_bits l) L)"
    and a: "H a = Some l" "a \<notin> set L"
    and keep: "\<And>x m. H x = Some m \<Longrightarrow> find_lsa H (lsa_bits l) L \<noteq> Some x \<Longrightarrow> \<exists>m'. H' x = Some m' \<and> lsa_bits m' = lsa_bits m"
  shows "find_lsa H' bs (before_key H (lsa_bits l) L @ a # after_key H (lsa_bits l) L) = (if bs = lsa_bits l then Some a else find_lsa H bs L)"
proof (rule option_eqI)
  fix x
  let ?L = "before_key H (lsa_bits l) L @ a # after_key H (lsa_bits l) L"
  have ka: "lsa_bits (the (H' a)) = lsa_bits l" using keep [OF a(1)] a(2) find_lsa_SomeD by fastforce
  have kx: "lsa_bits (the (H' x)) = lsa_bits (the (H x))" if "x \<in> set L" "lsa_bits (the (H x)) \<noteq> lsa_bits l"
    using rep_lsa [OF rep(1) that(1)] keep [of x] that(2) find_lsa_SomeD [of H "lsa_bits l" L x] by force
  have "find_lsa H' bs ?L = Some x \<longleftrightarrow> x \<in> set ?L \<and> lsa_bits (the (H' x)) = bs" by (rule find_iff [OF rep(2)])
  also have "\<dots> \<longleftrightarrow> (x = a \<and> lsa_bits l = bs) \<or> (x \<in> set L \<and> lsa_bits (the (H x)) \<noteq> lsa_bits l \<and> lsa_bits (the (H x)) = bs)"
    unfolding around_mem using ka kx a(2) by auto
  also have "\<dots> \<longleftrightarrow> (if bs = lsa_bits l then Some a else find_lsa H bs L) = Some x"
    using find_iff [OF rep(1), of bs x] by auto
  finally show "(find_lsa H' bs ?L = Some x) = ((if bs = lsa_bits l then Some a else find_lsa H bs L) = Some x)" .
qed

section \<open>Properties\<close>

text \<open>C22. Adding an LSA puts it at its place in the key order, in the tree, in the links and in the
  counter alike, in place of an instance with the same key if there was one. No other LSA
  loses its key or its references. The hypotheses: no reference count is about to overflow,
  and an LSA that replaces another is complete in memory.\<close>

theorem lsdb_add_keeps_order:
  assumes "lsdb_rep H db L" and "slack 3 (db_table db)" and "H a = Some l" and "a \<notin> set L" and "lsa_lock l + 1 \<noteq> 0"
    and "\<forall>b. find_lsa H (lsa_bits l) L = Some b \<longrightarrow> complete_lsa l \<and> complete_lsa (the (H b))"
  shows "\<exists>hooks db' H'. ospf6_lsdb_add now a db H = Some (hooks, db', H')
    \<and> lsdb_rep H' db' (before_key H (lsa_bits l) L @ a # after_key H (lsa_bits l) L)
    \<and> (\<forall>x m. H x = Some m \<and> find_lsa H (lsa_bits l) L \<noteq> Some x \<longrightarrow>
        (\<exists>m'. H' x = Some m' \<and> lsa_bits m' = lsa_bits m \<and> lsa_lock m' = lsa_lock m + (if x = a then 1 else 0)))"
  using add_rep [OF assms(1-5), of now] assms(6) by blast

definition mk_lsa :: "u16 \<Rightarrow> u32 \<Rightarrow> u32 \<Rightarrow> u32 \<Rightarrow> ospf6_lsa" where
  "mk_lsa type lsid adv seqnum = lsa_zero \<lparr>lh_age = 1, lh_type = type, lh_id = lsid, lh_adv_router = adv, lh_seqnum = seqnum,
     lh_checksum = 0, lh_length = 24\<rparr> [1, 2, 3, 4]"

definition two_lsas :: lsa_heap where
  "two_lsas = [0 \<mapsto> mk_lsa 0x2001 0 7 0x80000001, 1 \<mapsto> mk_lsa 0x2001 0 7 0x80000002]"

lemma slack_create: "slack k (db_table ospf6_lsdb_create)"
  by (simp add: ospf6_lsdb_create_def)

lemma around_Nil: "before_key H bs [] = []" "after_key H bs [] = []" "find_lsa H bs [] = None"
  by (simp_all add: before_key_def after_key_def find_lsa_def)

lemma one_added:
  "\<exists>hooks db H. ospf6_lsdb_add now 0 ospf6_lsdb_create two_lsas = Some (hooks, db, H) \<and> lsdb_rep H db [0] \<and> slack 2 (db_table db)
    \<and> (\<exists>m. H 0 = Some m \<and> lsa_bits m = key_bits 0x2001 7 0 \<and> lsa_lock m = 1)"
proof -
  have l: "two_lsas 0 = Some (mk_lsa 0x2001 0 7 0x80000001)" by (simp add: two_lsas_def)
  have "lsa_lock (mk_lsa 0x2001 0 7 0x80000001) = 0" "lsa_bits (mk_lsa 0x2001 0 7 0x80000001) = key_bits 0x2001 7 0"
    by (simp_all add: mk_lsa_def lsa_zero_def lsa_bits_def)
  with add_rep [where H = two_lsas and a = 0 and now = now, OF lsdb_rep_create slack_create l] l show ?thesis by (fastforce simp: around_Nil)
qed

theorem lsdb_add_keeps_order_witness:
  "\<exists>hooks db H. ospf6_lsdb_add timeval_zero 0 ospf6_lsdb_create two_lsas = Some (hooks, db, H) \<and> lsdb_rep H db [0]"
proof -
  have l: "two_lsas 0 = Some (mk_lsa 0x2001 0 7 0x80000001)" by (simp add: two_lsas_def)
  have "lsa_lock (mk_lsa 0x2001 0 7 0x80000001) = 0" by (simp add: mk_lsa_def lsa_zero_def)
  with lsdb_add_keeps_order [where H = two_lsas and a = 0 and now = timeval_zero, OF lsdb_rep_create slack_create l] show ?thesis by (auto simp: around_Nil)
qed

text \<open>A lookup finds exactly the LSA with the given type, id and advertising router; after an
  LSA has been added, it is the one found under its key, and every other key gives what it
  gave before.\<close>

lemma lsdb_add_then_lookup:
  assumes "lsdb_rep H db L" and "slack 3 (db_table db)" and "H a = Some l" and "a \<notin> set L" and "lsa_lock l + 1 \<noteq> 0"
    and "\<forall>b. find_lsa H (lsa_bits l) L = Some b \<longrightarrow> complete_lsa l \<and> complete_lsa (the (H b))"
  shows "\<exists>hooks db' H' before after. ospf6_lsdb_add now a db H = Some (hooks, db', H')
    \<and> ospf6_lsdb_lookup type lsid adv db = Some (find_lsa H (key_bits type adv lsid) L, before)
    \<and> ospf6_lsdb_lookup type lsid adv db' = Some (
        if type = lh_type (lsa_header l) \<and> lsid = lh_id (lsa_header l) \<and> adv = lh_adv_router (lsa_header l) then Some a
        else find_lsa H (key_bits type adv lsid) L, after)"
proof -
  from add_rep [OF assms(1-5), of now] assms(6) obtain hooks db' H' where
    add: "ospf6_lsdb_add now a db H = Some (hooks, db', H')"
    and rep: "lsdb_rep H' db' (before_key H (lsa_bits l) L @ a # after_key H (lsa_bits l) L)" "slack 2 (db_table db')"
    and keep: "\<And>x m. H x = Some m \<Longrightarrow> find_lsa H (lsa_bits l) L \<noteq> Some x \<Longrightarrow> \<exists>m'. H' x = Some m' \<and> lsa_bits m' = lsa_bits m" by blast
  have key: "key_bits type adv lsid = lsa_bits l \<longleftrightarrow> type = lh_type (lsa_header l) \<and> lsid = lh_id (lsa_header l) \<and> adv = lh_adv_router (lsa_header l)"
    by (auto simp: lsa_bits_def key_bits_inj)
  note f = find_after_add [OF assms(1) rep(1) assms(3,4) keep, of "key_bits type adv lsid", unfolded key]
  have "slack 1 (db_table db)" "slack 1 (db_table db')" using slack_mono assms(2) rep(2) by fastforce+
  from lookup_rep [OF assms(1) this(1), of type lsid adv] lookup_rep [OF rep(1) this(2), of type lsid adv] obtain d1 d2 where
    "ospf6_lsdb_lookup type lsid adv db = Some (find_lsa H (key_bits type adv lsid) L, d1)"
    "ospf6_lsdb_lookup type lsid adv db' = Some (find_lsa H' (key_bits type adv lsid)
       (before_key H (lsa_bits l) L @ a # after_key H (lsa_bits l) L), d2)" by blast
  with add f show ?thesis by auto
qed

text \<open>C23. Removing an LSA takes it out of the sequence, calls the hook once, decrements the counter
  and releases one reference, which frees the LSA if it was the last one; the others stay
  in order.\<close>

theorem lsdb_remove_unlinks:
  assumes "lsdb_rep H db (xs @ a # ys)" and "slack 1 (db_table db)"
  shows "\<exists>db' H' l. ospf6_lsdb_remove a db H = Some (hook_remove db a, db', H') \<and> lsdb_rep H' db' (xs @ ys)
    \<and> H a = Some l \<and> H' a = (if lsa_lock l = 1 then None else Some (l\<lparr>lsa_lock := lsa_lock l - 1\<rparr>))"
proof -
  from remove_rep [OF assms] obtain db' H' l where "ospf6_lsdb_remove a db H = Some (hook_remove db a, db', H')"
    "lsdb_rep H' db' (xs @ ys)" "H a = Some l"
    "H' = (heap_map (unlink (last_of xs) (first_of ys)) H)(a := (if lsa_lock l = 1 then None else Some (l\<lparr>lsa_lock := lsa_lock l - 1\<rparr>)))"
    by blast
  then show ?thesis by auto
qed

theorem lsdb_remove_unlinks_witness:
  "\<exists>hooks db H db' H'. ospf6_lsdb_add timeval_zero 0 ospf6_lsdb_create two_lsas = Some (hooks, db, H)
     \<and> ospf6_lsdb_remove 0 db H = Some (hook_remove db 0, db', H') \<and> lsdb_rep H' db' [] \<and> H' 0 = None"
proof -
  from one_added [of timeval_zero] obtain hooks db H m where a: "ospf6_lsdb_add timeval_zero 0 ospf6_lsdb_create two_lsas = Some (hooks, db, H)"
    "lsdb_rep H db ([] @ 0 # [])" "slack 2 (db_table db)" "H 0 = Some m" "lsa_lock m = 1" by auto
  from lsdb_remove_unlinks [OF a(2) slack_mono [OF a(3)]] a show ?thesis by auto
qed

text \<open>C24. The loop from \<open>ospf6_lsdb_head\<close> along \<open>ospf6_lsdb_next\<close> ends, meets every LSA of the
  database exactly once, in strictly increasing order of the keys, and leaves the database
  and all reference counts as they were.\<close>

theorem lsdb_iteration:
  assumes "lsdb_rep H db L" and "slack 1 (db_table db)" and "refs_ok H L"
  shows "do { (r, db', H') \<leftarrow> ospf6_lsdb_head db H; (as, H') \<leftarrow> lsdb_walk (length L) r H'; Some (as, db', H') } = Some (L, db, H)
    \<and> sorted_wrt (\<lambda>a b. bits_less (lsa_bits (the (H a))) (lsa_bits (the (H b)))) L"
proof -
  have "linked H L" using assms(1) by (simp add: lsdb_rep_def)
  from walk_rep [OF this assms(3), of "[]" L] head_rep [OF assms(1,2)] rep_sorted [OF assms(1)] show ?thesis by simp
qed

theorem lsdb_iteration_witness:
  "\<exists>hooks db H. ospf6_lsdb_add timeval_zero 0 ospf6_lsdb_create two_lsas = Some (hooks, db, H)
     \<and> do { (r, db', H') \<leftarrow> ospf6_lsdb_head db H; (as, H') \<leftarrow> lsdb_walk 1 r H'; Some (as, db', H') } = Some ([0], db, H)"
proof -
  from one_added [of timeval_zero] obtain hooks db H m where a: "ospf6_lsdb_add timeval_zero 0 ospf6_lsdb_create two_lsas = Some (hooks, db, H)"
    "lsdb_rep H db [0]" "slack 2 (db_table db)" "H 0 = Some m" "lsa_lock m = 1" by auto
  then have "refs_ok H [0]" by (simp add: refs_ok_def)
  from lsdb_iteration [OF a(2) slack_mono [OF a(3)] this] a(1) show ?thesis by simp
qed

text \<open>C25. \<open>ospf6_lsdb_remove_all\<close> ends with an empty database after calling the removal hook once for
  every LSA, in key order.\<close>

theorem lsdb_remove_all_empties:
  assumes "lsdb_rep H db L" and "slack 1 (db_table db)" and "refs_ok H L"
  shows "\<exists>db' H'. ospf6_lsdb_remove_all db H = Some (concat (map (hook_remove db) L), db', H') \<and> lsdb_rep H' db' [] \<and> db_count db' = 0"
proof -
  from remove_from_rep [OF assms(1,3,2)] obtain db' H' where
    "remove_from (first_of L) db (lock_lsa (first_of L) H) = Some (concat (map (hook_remove db) L), db', H')" "lsdb_rep H' db' []" by blast
  moreover from this(2) have "db_count db' = 0" by (simp add: lsdb_rep_def)
  ultimately show ?thesis using head_rep [OF assms(1,2)] by (simp add: ospf6_lsdb_remove_all_def)
qed

theorem lsdb_remove_all_empties_witness:
  "\<exists>hooks db H db' H'. ospf6_lsdb_add timeval_zero 0 ospf6_lsdb_create two_lsas = Some (hooks, db, H)
     \<and> ospf6_lsdb_remove_all db H = Some (hook_remove db 0, db', H') \<and> db_count db' = 0"
proof -
  from one_added [of timeval_zero] obtain hooks db H m where a: "ospf6_lsdb_add timeval_zero 0 ospf6_lsdb_create two_lsas = Some (hooks, db, H)"
    "lsdb_rep H db [0]" "slack 2 (db_table db)" "H 0 = Some m" "lsa_lock m = 1" by auto
  then have "refs_ok H [0]" by (simp add: refs_ok_def)
  from lsdb_remove_all_empties [OF a(2) slack_mono [OF a(3)] this] a(1) show ?thesis by auto
qed

text \<open>The sequence number chosen for the next instance of an LSA makes it more recent than the
  instance in the database, until the largest signed number is reached; without an instance
  it is the initial number, the least one apart from the reserved one.\<close>

lemma new_seqnum_more_recent:
  assumes "lsdb_rep H db L" and "slack 1 (db_table db)" and "find_lsa H (key_bits type adv lsid) L = Some a" and "H a = Some l"
    and "lh_seqnum (lsa_header l) \<noteq> 0x7fffffff" and "OSPF6_LSA_IS_SAME new l"
  shows "\<exists>s db'. ospf6_new_ls_seqnum type lsid adv H db = Some (s, db')
    \<and> (lh_seqnum (lsa_header new) = s \<longrightarrow> ospf6_lsa_compare now new l = Some (-1, new, l))"
proof -
  from lookup_rep [OF assms(1,2), of type lsid adv] assms(3) obtain db' where
    "ospf6_lsdb_lookup type lsid adv db = Some (Some a, db')" by auto
  moreover have "(word_of_int (uint (lh_seqnum (lsa_header l)) + 1) :: u32) = lh_seqnum (lsa_header l) + 1"
    by simp
  ultimately have s: "ospf6_new_ls_seqnum type lsid adv H db = Some (lh_seqnum (lsa_header l) + 1, db')"
    using assms(4) by (simp add: ospf6_new_ls_seqnum_def)
  have "sint (lh_seqnum (lsa_header l)) < sint (lh_seqnum (lsa_header l) + 1)"
  proof -
    let ?w = "lh_seqnum (lsa_header l)"
    have "sint ?w \<noteq> 2 ^ 31 - 1"
    proof
      assume "sint ?w = 2 ^ 31 - 1"
      then have "word_of_int (sint ?w) = (word_of_int (2 ^ 31 - 1) :: u32)" by simp
      with assms(5) show False by simp
    qed
    moreover have "sint ?w < 2 ^ 31" "- (2 ^ 31) \<le> sint ?w" using sint_less [of ?w] sint_greater_eq [of ?w] by simp_all
    ultimately have "sint (?w + 1) = sint ?w + 1"
      by (simp add: sint_word_add signed_take_bit_int_eq_self)
    then show ?thesis by simp
  qed
  with s assms(6) show ?thesis by (auto simp: ospf6_lsa_compare_def)
qed

end
