(* ===== verification/Lib_Thread.thy ===== *)
theory Lib_Thread
  imports Lib_Timeval Lib_Links
begin

text \<open>
  The cooperative scheduler, \<open>lib/thread.c\<close>: threads wait on seven lists of one master
  (descriptors, timers, events, ready threads, and a free list), and \<open>thread_fetch\<close> picks
  the one that runs next.

  A thread is a node at an address of the heap; the lists are linked through the nodes.
  \<open>calloc\<close> hands out the addresses in order. There is one master, so the back pointer of a
  thread is not kept. The union \<open>u\<close> is a sum: reading a member that was not written is
  \<open>None\<close>, as are a failed assertion, a dangling pointer and a descriptor outside an
  \<open>fd_set\<close>. The clock and \<open>select\<close> are arguments of the operations that call them.
\<close>

section \<open>Data\<close>

datatype thread_type = THREAD_READ | THREAD_WRITE | THREAD_TIMER | THREAD_EVENT | THREAD_READY
  | THREAD_BACKGROUND | THREAD_UNUSED | THREAD_EXECUTE

datatype thread_u = U_val int | U_fd int | U_sands timeval

fun u_fd :: "thread_u \<Rightarrow> int option" where
  "u_fd (U_fd fd) = Some fd" |
  "u_fd _ = None"

fun u_sands :: "thread_u \<Rightarrow> timeval option" where
  "u_sands (U_sands t) = Some t" |
  "u_sands _ = None"

record ('f, 'a) thread =
  th_type :: thread_type
  th_add_type :: thread_type
  th_next :: "nat option"
  th_prev :: "nat option"
  th_func :: "'f option"
  th_arg :: "'a option"
  th_u :: thread_u
  th_funcname :: "string option"

record thread_list =
  tl_head :: "nat option"
  tl_tail :: "nat option"
  tl_count :: int

datatype tlist = L_read | L_write | L_timer | L_event | L_ready | L_unuse | L_background

datatype fdsel = S_readfd | S_writefd | S_exceptfd

record ('f, 'a) thread_master =
  tm_list :: "tlist \<Rightarrow> thread_list"
  tm_fds :: "fdsel \<Rightarrow> int set"
  tm_alloc :: "64 word"
  tm_heap :: "nat \<Rightarrow> ('f, 'a) thread option"
  tm_brk :: nat

definition list_empty :: thread_list where
  "list_empty = \<lparr>tl_head = None, tl_tail = None, tl_count = 0\<rparr>"

definition thread_zero :: "('f, 'a) thread" where
  "thread_zero = \<lparr>th_type = THREAD_READ, th_add_type = THREAD_READ, th_next = None, th_prev = None, th_func = None,
     th_arg = None, th_u = U_val 0, th_funcname = None\<rparr>"

definition thread_master_create :: "('f, 'a) thread_master" where
  "thread_master_create = \<lparr>tm_list = (\<lambda>_. list_empty), tm_fds = (\<lambda>_. {}), tm_alloc = 0, tm_heap = (\<lambda>_. None), tm_brk = 0\<rparr>"

definition FD_SETSIZE :: int where "FD_SETSIZE = 1024"

definition FD_ISSET :: "int \<Rightarrow> int set \<Rightarrow> bool option" where
  "FD_ISSET fd fds = (if 0 \<le> fd \<and> fd < FD_SETSIZE then Some (fd \<in> fds) else None)"

definition list_upd :: "tlist \<Rightarrow> (thread_list \<Rightarrow> thread_list) \<Rightarrow> ('f, 'a) thread_master \<Rightarrow> ('f, 'a) thread_master" where
  "list_upd l f m = m\<lparr>tm_list := (tm_list m)(l := f (tm_list m l))\<rparr>"

definition th_upd :: "nat \<Rightarrow> (('f, 'a) thread \<Rightarrow> ('f, 'a) thread) \<Rightarrow> ('f, 'a) thread_master \<Rightarrow> ('f, 'a) thread_master option" where
  "th_upd a f m = do { H \<leftarrow> heap_upd a f (tm_heap m); Some (m\<lparr>tm_heap := H\<rparr>) }"

definition fds_upd :: "fdsel \<Rightarrow> (int set \<Rightarrow> int set) \<Rightarrow> ('f, 'a) thread_master \<Rightarrow> ('f, 'a) thread_master" where
  "fds_upd s f m = m\<lparr>tm_fds := (tm_fds m)(s := f (tm_fds m s))\<rparr>"

section \<open>Lists of threads\<close>

definition thread_list_add :: "tlist \<Rightarrow> nat \<Rightarrow> ('f, 'a) thread_master \<Rightarrow> ('f, 'a) thread_master option" where
  "thread_list_add l thread m =
     do {
       m \<leftarrow> th_upd thread (\<lambda>t. t\<lparr>th_next := None, th_prev := tl_tail (tm_list m l)\<rparr>) m;
       m \<leftarrow> (case tl_tail (tm_list m l) of
          Some tail \<Rightarrow> th_upd tail (\<lambda>t. t\<lparr>th_next := Some thread\<rparr>) m
        | None \<Rightarrow> Some (list_upd l (\<lambda>x. x\<lparr>tl_head := Some thread\<rparr>) m));
       Some (list_upd l (\<lambda>x. x\<lparr>tl_tail := Some thread, tl_count := tl_count x + 1\<rparr>) m)
     }"

definition thread_list_add_before :: "tlist \<Rightarrow> nat \<Rightarrow> nat \<Rightarrow> ('f, 'a) thread_master \<Rightarrow> ('f, 'a) thread_master option" where
  "thread_list_add_before l point thread m =
     do {
       p \<leftarrow> tm_heap m point;
       m \<leftarrow> th_upd thread (\<lambda>t. t\<lparr>th_next := Some point, th_prev := th_prev p\<rparr>) m;
       p \<leftarrow> tm_heap m point;
       m \<leftarrow> (case th_prev p of
          Some prev \<Rightarrow> th_upd prev (\<lambda>t. t\<lparr>th_next := Some thread\<rparr>) m
        | None \<Rightarrow> Some (list_upd l (\<lambda>x. x\<lparr>tl_head := Some thread\<rparr>) m));
       m \<leftarrow> th_upd point (\<lambda>t. t\<lparr>th_prev := Some thread\<rparr>) m;
       Some (list_upd l (\<lambda>x. x\<lparr>tl_count := tl_count x + 1\<rparr>) m)
     }"

definition thread_list_delete :: "tlist \<Rightarrow> nat \<Rightarrow> ('f, 'a) thread_master \<Rightarrow> ('f, 'a) thread_master option" where
  "thread_list_delete l thread m =
     do {
       t \<leftarrow> tm_heap m thread;
       m \<leftarrow> (case th_next t of
          Some next \<Rightarrow> th_upd next (\<lambda>n. n\<lparr>th_prev := th_prev t\<rparr>) m
        | None \<Rightarrow> Some (list_upd l (\<lambda>x. x\<lparr>tl_tail := th_prev t\<rparr>) m));
       t \<leftarrow> tm_heap m thread;
       m \<leftarrow> (case th_prev t of
          Some prev \<Rightarrow> th_upd prev (\<lambda>n. n\<lparr>th_next := th_next t\<rparr>) m
        | None \<Rightarrow> Some (list_upd l (\<lambda>x. x\<lparr>tl_head := th_next t\<rparr>) m));
       m \<leftarrow> th_upd thread (\<lambda>t. t\<lparr>th_next := None, th_prev := None\<rparr>) m;
       Some (list_upd l (\<lambda>x. x\<lparr>tl_count := tl_count x - 1\<rparr>) m)
     }"

definition thread_add_unuse :: "nat \<Rightarrow> ('f, 'a) thread_master \<Rightarrow> ('f, 'a) thread_master option" where
  "thread_add_unuse thread m =
     do {
       t \<leftarrow> tm_heap m thread;
       if th_next t = None \<and> th_prev t = None \<and> th_type t = THREAD_UNUSED then thread_list_add L_unuse thread m else None
     }"

definition thread_empty :: "thread_list \<Rightarrow> bool" where
  "thread_empty list \<longleftrightarrow> tl_head list = None"

definition thread_trim_head :: "tlist \<Rightarrow> ('f, 'a) thread_master \<Rightarrow> (nat option \<times> ('f, 'a) thread_master) option" where
  "thread_trim_head l m =
     (if thread_empty (tm_list m l) then Some (None, m)
      else do { a \<leftarrow> tl_head (tm_list m l); m \<leftarrow> thread_list_delete l a m; Some (Some a, m) })"

section \<open>Creation of threads\<close>

text \<open>
  The buffer of \<open>strip_funcname\<close> holds 99 characters. The pointer \<open>e\<close> runs below the
  buffer when every character is a blank or a closing parenthesis. The terminating zero
  written at \<open>e\<close> lies before \<open>b\<close> when everything was stripped.
\<close>

definition strip_funcname :: "string \<Rightarrow> string option" where
  "strip_funcname funcname =
     (let buff = take 99 funcname;
          b = length (takeWhile (\<lambda>c. c = CHR '' '' \<or> c = CHR ''('') buff);
          e = length buff - length (takeWhile (\<lambda>c. c = CHR '' '' \<or> c = CHR '')'') (rev buff))
      in if e = 0 then None
         else if b \<le> e then Some (take (e - b) (drop b buff)) else Some (drop b buff))"

definition thread_get ::
  "thread_type \<Rightarrow> 'f \<Rightarrow> 'a \<Rightarrow> string \<Rightarrow> ('f, 'a) thread_master \<Rightarrow> (nat \<times> ('f, 'a) thread_master) option" where
  "thread_get type func arg funcname m =
     do {
       (thread, m) \<leftarrow> (if \<not> thread_empty (tm_list m L_unuse)
          then do { (r, m) \<leftarrow> thread_trim_head L_unuse m; a \<leftarrow> r; Some (a, m) }
          else Some (tm_brk m, m\<lparr>tm_heap := (tm_heap m)(tm_brk m \<mapsto> thread_zero), tm_brk := tm_brk m + 1, tm_alloc := tm_alloc m + 1\<rparr>));
       name \<leftarrow> strip_funcname funcname;
       m \<leftarrow> th_upd thread (\<lambda>t. t\<lparr>th_type := type, th_add_type := type, th_func := Some func, th_arg := Some arg,
              th_funcname := Some name\<rparr>) m;
       Some (thread, m)
     }"

definition thread_add_read ::
  "'f \<Rightarrow> 'a \<Rightarrow> int \<Rightarrow> string \<Rightarrow> ('f, 'a) thread_master \<Rightarrow> (nat option \<times> ('f, 'a) thread_master) option" where
  "thread_add_read func arg fd funcname m =
     do {
       set \<leftarrow> FD_ISSET fd (tm_fds m S_readfd);
       if set then Some (None, m)
       else do {
         (thread, m) \<leftarrow> thread_get THREAD_READ func arg funcname m;
         m \<leftarrow> Some (fds_upd S_readfd (insert fd) m);
         m \<leftarrow> th_upd thread (\<lambda>t. t\<lparr>th_u := U_fd fd\<rparr>) m;
         m \<leftarrow> thread_list_add L_read thread m;
         Some (Some thread, m)
       }
     }"

text \<open>The search for the place of a timer.\<close>

partial_function (option) timer_point ::
  "(nat \<Rightarrow> ('f, 'a) thread option) \<Rightarrow> timeval \<Rightarrow> nat option \<Rightarrow> nat option option" where
  "timer_point H sands tt =
     (case tt of None \<Rightarrow> Some None
      | Some a \<Rightarrow> do {
          t \<leftarrow> H a;
          s \<leftarrow> u_sands (th_u t);
          if timeval_cmp sands s \<le> 0 then Some (Some a) else timer_point H sands (th_next t)
        })"

definition thread_add_timer_timeval ::
  "timeval \<Rightarrow> 'f \<Rightarrow> thread_type \<Rightarrow> 'a \<Rightarrow> timeval \<Rightarrow> string \<Rightarrow> ('f, 'a) thread_master \<Rightarrow> (nat \<times> ('f, 'a) thread_master) option" where
  "thread_add_timer_timeval relative_time func type arg time_relative funcname m =
     (if type = THREAD_TIMER \<or> type = THREAD_BACKGROUND then
        do {
          list \<leftarrow> Some (if type = THREAD_TIMER then L_timer else L_background);
          (thread, m) \<leftarrow> thread_get type func arg funcname m;
          sands \<leftarrow> Some (timeval_adjust \<lparr>tv_sec = tv_sec relative_time + tv_sec time_relative,
             tv_usec = tv_usec relative_time + tv_usec time_relative\<rparr>);
          m \<leftarrow> th_upd thread (\<lambda>t. t\<lparr>th_u := U_sands sands\<rparr>) m;
          tt \<leftarrow> timer_point (tm_heap m) sands (tl_head (tm_list m list));
          m \<leftarrow> (case tt of Some p \<Rightarrow> thread_list_add_before list p thread m | None \<Rightarrow> thread_list_add list thread m);
          Some (thread, m)
        }
      else None)"

definition thread_add_timer ::
  "timeval \<Rightarrow> 'f \<Rightarrow> 'a \<Rightarrow> int \<Rightarrow> string \<Rightarrow> ('f, 'a) thread_master \<Rightarrow> (nat \<times> ('f, 'a) thread_master) option" where
  "thread_add_timer relative_time func arg timer funcname m =
     thread_add_timer_timeval relative_time func THREAD_TIMER arg \<lparr>tv_sec = timer, tv_usec = 0\<rparr> funcname m"

definition thread_add_event ::
  "'f \<Rightarrow> 'a \<Rightarrow> int \<Rightarrow> string \<Rightarrow> ('f, 'a) thread_master \<Rightarrow> (nat \<times> ('f, 'a) thread_master) option" where
  "thread_add_event func arg val funcname m =
     do {
       (thread, m) \<leftarrow> thread_get THREAD_EVENT func arg funcname m;
       m \<leftarrow> th_upd thread (\<lambda>t. t\<lparr>th_u := U_val val\<rparr>) m;
       m \<leftarrow> thread_list_add L_event thread m;
       Some (thread, m)
     }"

section \<open>Cancellation\<close>

definition clear_fd :: "fdsel \<Rightarrow> ('f, 'a) thread \<Rightarrow> ('f, 'a) thread_master \<Rightarrow> ('f, 'a) thread_master option" where
  "clear_fd s t m =
     do {
       fd \<leftarrow> u_fd (th_u t);
       set \<leftarrow> FD_ISSET fd (tm_fds m s);
       if set then Some (fds_upd s (\<lambda>fds. fds - {fd}) m) else None
     }"

definition thread_cancel :: "nat \<Rightarrow> ('f, 'a) thread_master \<Rightarrow> ('f, 'a) thread_master option" where
  "thread_cancel thread m =
     do {
       t \<leftarrow> tm_heap m thread;
       (list, m) \<leftarrow> (case th_type t of
          THREAD_READ \<Rightarrow> do { m \<leftarrow> clear_fd S_readfd t m; Some (Some L_read, m) }
        | THREAD_WRITE \<Rightarrow> do { m \<leftarrow> clear_fd S_writefd t m; Some (Some L_write, m) }
        | THREAD_TIMER \<Rightarrow> Some (Some L_timer, m)
        | THREAD_EVENT \<Rightarrow> Some (Some L_event, m)
        | THREAD_READY \<Rightarrow> Some (Some L_ready, m)
        | THREAD_BACKGROUND \<Rightarrow> Some (Some L_background, m)
        | _ \<Rightarrow> Some (None, m));
       (case list of None \<Rightarrow> Some m
        | Some l \<Rightarrow> do {
            m \<leftarrow> thread_list_delete l thread m;
            m \<leftarrow> th_upd thread (\<lambda>t. t\<lparr>th_type := THREAD_UNUSED\<rparr>) m;
            thread_add_unuse thread m
          })
     }"

section \<open>Fetching the next thread\<close>

definition thread_timer_wait :: "tlist \<Rightarrow> timeval \<Rightarrow> ('f, 'a) thread_master \<Rightarrow> timeval option option" where
  "thread_timer_wait l relative_time m =
     (case tl_head (tm_list m l) of None \<Rightarrow> Some None
      | Some a \<Rightarrow> do { t \<leftarrow> tm_heap m a; s \<leftarrow> u_sands (th_u t); Some (Some (timeval_subtract s relative_time)) })"

text \<open>The thread that \<open>thread_fetch\<close> returns is a copy; the node itself goes to the free list.\<close>

definition thread_run :: "nat \<Rightarrow> ('f, 'a) thread_master \<Rightarrow> (('f, 'a) thread \<times> ('f, 'a) thread_master) option" where
  "thread_run thread m =
     do {
       fetch \<leftarrow> tm_heap m thread;
       m \<leftarrow> th_upd thread (\<lambda>t. t\<lparr>th_type := THREAD_UNUSED, th_funcname := None\<rparr>) m;
       m \<leftarrow> thread_add_unuse thread m;
       Some (fetch, m)
     }"

partial_function (option) process_fd_loop ::
  "tlist \<Rightarrow> int set \<Rightarrow> fdsel \<Rightarrow> nat option \<Rightarrow> nat \<Rightarrow> ('f, 'a) thread_master \<Rightarrow> (nat \<times> ('f, 'a) thread_master) option" where
  "process_fd_loop l fdset mfdset thread ready m =
     (case thread of None \<Rightarrow> Some (ready, m)
      | Some a \<Rightarrow> do {
          t \<leftarrow> tm_heap m a;
          fd \<leftarrow> u_fd (th_u t);
          set \<leftarrow> FD_ISSET fd fdset;
          (if set then do {
             m \<leftarrow> clear_fd mfdset t m;
             m \<leftarrow> thread_list_delete l a m;
             m \<leftarrow> thread_list_add L_ready a m;
             m \<leftarrow> th_upd a (\<lambda>t. t\<lparr>th_type := THREAD_READY\<rparr>) m;
             process_fd_loop l fdset mfdset (th_next t) (ready + 1) m
           }
           else process_fd_loop l fdset mfdset (th_next t) ready m)
        })"

definition thread_process_fd ::
  "tlist \<Rightarrow> int set \<Rightarrow> fdsel \<Rightarrow> ('f, 'a) thread_master \<Rightarrow> (nat \<times> ('f, 'a) thread_master) option" where
  "thread_process_fd l fdset mfdset m = process_fd_loop l fdset mfdset (tl_head (tm_list m l)) 0 m"

text \<open>
  The loop of \<open>thread_timer_process\<close> goes on with the link of the thread it has just moved
  to the end of the ready list.
\<close>

partial_function (option) timer_process_loop ::
  "tlist \<Rightarrow> timeval \<Rightarrow> nat option \<Rightarrow> nat \<Rightarrow> ('f, 'a) thread_master \<Rightarrow> (nat \<times> ('f, 'a) thread_master) option" where
  "timer_process_loop l timenow thread ready m =
     (case thread of None \<Rightarrow> Some (ready, m)
      | Some a \<Rightarrow> do {
          t \<leftarrow> tm_heap m a;
          s \<leftarrow> u_sands (th_u t);
          if timeval_cmp timenow s < 0 then Some (ready, m)
          else do {
            m \<leftarrow> thread_list_delete l a m;
            m \<leftarrow> th_upd a (\<lambda>t. t\<lparr>th_type := THREAD_READY\<rparr>) m;
            m \<leftarrow> thread_list_add L_ready a m;
            t \<leftarrow> tm_heap m a;
            timer_process_loop l timenow (th_next t) (ready + 1) m
          }
        })"

definition thread_timer_process :: "tlist \<Rightarrow> timeval \<Rightarrow> ('f, 'a) thread_master \<Rightarrow> (nat \<times> ('f, 'a) thread_master) option" where
  "thread_timer_process l timenow m = timer_process_loop l timenow (tl_head (tm_list m l)) 0 m"

text \<open>
  What one turn of the loop of \<open>thread_fetch\<close> gets from the system: the time before the
  wait, the answer of \<open>select\<close> to the descriptors and the timeout, and the time after it.
\<close>

record poll =
  po_before :: timeval
  po_select :: "(fdsel \<Rightarrow> int set) \<Rightarrow> timeval option \<Rightarrow> int \<times> (fdsel \<Rightarrow> int set)"
  po_after :: timeval

definition wait_time :: "timeval \<Rightarrow> ('f, 'a) thread_master \<Rightarrow> timeval option option" where
  "wait_time relative_time m =
     do {
       timer_wait \<leftarrow> thread_timer_wait L_timer relative_time m;
       timer_wait_bg \<leftarrow> thread_timer_wait L_background relative_time m;
       Some (case timer_wait_bg of None \<Rightarrow> timer_wait
         | Some bg \<Rightarrow> (case timer_wait of None \<Rightarrow> Some bg
             | Some t \<Rightarrow> if timeval_cmp t bg > 0 then Some bg else Some t))
     }"

definition fetch_wait :: "poll \<Rightarrow> ('f, 'a) thread_master \<Rightarrow> ('f, 'a) thread_master option" where
  "fetch_wait p m =
     do {
       timer_wait \<leftarrow> wait_time (po_before p) m;
       (num, fds) \<leftarrow> Some (po_select p (tm_fds m) timer_wait);
       (ready, m) \<leftarrow> thread_timer_process L_timer (po_after p) m;
       if num > 0 then do {
         (ready, m) \<leftarrow> thread_process_fd L_read (fds S_readfd) S_readfd m;
         (ready, m) \<leftarrow> thread_process_fd L_write (fds S_writefd) S_readfd m;
         Some m
       }
       else Some m
     }"

text \<open>The result without a thread is a loop that is still waiting when the inputs end.\<close>

fun thread_fetch :: "poll list \<Rightarrow> ('f, 'a) thread_master \<Rightarrow> (('f, 'a) thread option \<times> ('f, 'a) thread_master) option" where
  "thread_fetch ps m =
     do {
       (event, m) \<leftarrow> thread_trim_head L_event m;
       (case event of Some a \<Rightarrow> do { (fetch, m) \<leftarrow> thread_run a m; Some (Some fetch, m) }
        | None \<Rightarrow> do {
            (ready, m) \<leftarrow> thread_trim_head L_ready m;
            (case ready of Some a \<Rightarrow> do { (fetch, m) \<leftarrow> thread_run a m; Some (Some fetch, m) }
             | None \<Rightarrow> (case ps of [] \<Rightarrow> Some (None, m)
                 | p # ps \<Rightarrow> do {
                     m \<leftarrow> fetch_wait p m;
                     (ready, m) \<leftarrow> thread_trim_head L_ready m;
                     (case ready of Some a \<Rightarrow> do { (fetch, m) \<leftarrow> thread_run a m; Some (Some fetch, m) }
                      | None \<Rightarrow> thread_fetch ps m)
                   }))
          })
     }"

declare thread_fetch.simps [simp del]
declare timer_point.simps [code] process_fd_loop.simps [code] timer_process_loop.simps [code]

text \<open>The thread that \<open>thread_execute\<close> hands to the function at once.\<close>

definition thread_execute :: "'f \<Rightarrow> 'a \<Rightarrow> int \<Rightarrow> string \<Rightarrow> ('f, 'a) thread option" where
  "thread_execute func arg val funcname =
     do {
       name \<leftarrow> strip_funcname funcname;
       Some (thread_zero\<lparr>th_type := THREAD_EVENT, th_add_type := THREAD_EXECUTE, th_func := Some func,
         th_arg := Some arg, th_u := U_val val, th_funcname := Some name\<rparr>)
     }"

end
