(* ===== verification/Lib_Thread_Inv.thy ===== *)
theory Lib_Thread_Inv
  imports Lib_Thread
begin

text \<open>
  The lists of the scheduler: each list of the master represents a sequence of threads, and
  the list operations act on these sequences without touching the contents of a thread.
\<close>

section \<open>What the lists represent\<close>

type_synonym queues = "tlist \<Rightarrow> nat list"

definition list_rep :: "(nat \<Rightarrow> ('f, 'a) thread option) \<Rightarrow> thread_list \<Rightarrow> nat list \<Rightarrow> bool" where
  "list_rep H L xs \<longleftrightarrow> linked_by th_prev th_next H xs \<and> distinct xs \<and> tl_head L = first_of xs
     \<and> tl_tail L = last_of xs \<and> tl_count L = int (length xs)"

definition lists_rep :: "('f, 'a) thread_master \<Rightarrow> queues \<Rightarrow> bool" where
  "lists_rep m A \<longleftrightarrow> (\<forall>l. list_rep (tm_heap m) (tm_list m l) (A l))
     \<and> (\<forall>l l'. l \<noteq> l' \<longrightarrow> set (A l) \<inter> set (A l') = {})"

definition content :: "('f, 'a) thread \<Rightarrow> ('f, 'a) thread" where
  "content t = t\<lparr>th_next := None, th_prev := None\<rparr>"

text \<open>Only the lists and the links of the threads differ.\<close>

definition relinked :: "('f, 'a) thread_master \<Rightarrow> ('f, 'a) thread_master \<Rightarrow> bool" where
  "relinked m m' \<longleftrightarrow> tm_fds m' = tm_fds m \<and> tm_alloc m' = tm_alloc m \<and> tm_brk m' = tm_brk m
     \<and> (\<forall>x. map_option content (tm_heap m' x) = map_option content (tm_heap m x))"

lemma relinked_refl [simp]: "relinked m m"
  by (simp add: relinked_def)

lemma relinked_trans: "relinked a b \<Longrightarrow> relinked b c \<Longrightarrow> relinked a c"
  by (simp add: relinked_def)

lemma content_simps [simp]:
  "th_type (content t) = th_type t" "th_u (content t) = th_u t" "th_func (content t) = th_func t" "th_arg (content t) = th_arg t"
  "th_add_type (content t) = th_add_type t" "th_funcname (content t) = th_funcname t"
  by (simp_all add: content_def)

lemma relinkedD:
  "relinked m m' \<Longrightarrow> tm_heap m x = Some t \<Longrightarrow> \<exists>t'. tm_heap m' x = Some t' \<and> content t' = content t"
  "relinked m m' \<Longrightarrow> tm_heap m' x = None \<longleftrightarrow> tm_heap m x = None"
  unfolding relinked_def by (metis map_option_eq_Some) (metis map_option_is_None)

lemma lists_repD:
  assumes "lists_rep m A"
  shows "linked_by th_prev th_next (tm_heap m) (A l)" "distinct (A l)" "tl_head (tm_list m l) = first_of (A l)"
    "tl_tail (tm_list m l) = last_of (A l)" "tl_count (tm_list m l) = int (length (A l))"
    "l \<noteq> l' \<Longrightarrow> x \<in> set (A l) \<Longrightarrow> x \<notin> set (A l')" "x \<in> set (A l) \<Longrightarrow> tm_heap m x \<noteq> None"
  using assms linked_mem [of th_prev th_next "tm_heap m" "A l" x]
  by (auto simp: lists_rep_def list_rep_def)

section \<open>Explicit updates\<close>

definition th_map :: "(nat \<Rightarrow> ('f, 'a) thread \<Rightarrow> ('f, 'a) thread) \<Rightarrow> ('f, 'a) thread_master \<Rightarrow> ('f, 'a) thread_master" where
  "th_map f m = m\<lparr>tm_heap := heap_map f (tm_heap m)\<rparr>"

lemma th_upd_map: "tm_heap m a \<noteq> None \<Longrightarrow> th_upd a f m = Some (th_map (\<lambda>x t. if x = a then f t else t) m)"
  by (simp add: th_upd_def th_map_def heap_upd_map)

lemma th_map_simps [simp]:
  "tm_heap (th_map f m) = heap_map f (tm_heap m)" "tm_list (th_map f m) = tm_list m" "tm_fds (th_map f m) = tm_fds m"
  "tm_alloc (th_map f m) = tm_alloc m" "tm_brk (th_map f m) = tm_brk m"
  by (simp_all add: th_map_def)

lemma list_upd_simps [simp]:
  "tm_heap (list_upd l g m) = tm_heap m" "tm_list (list_upd l g m) = (tm_list m)(l := g (tm_list m l))"
  "tm_fds (list_upd l g m) = tm_fds m" "tm_alloc (list_upd l g m) = tm_alloc m" "tm_brk (list_upd l g m) = tm_brk m"
  by (simp_all add: list_upd_def)

lemma fds_upd_simps [simp]:
  "tm_heap (fds_upd s g m) = tm_heap m" "tm_list (fds_upd s g m) = tm_list m"
  "tm_fds (fds_upd s g m) = (tm_fds m)(s := g (tm_fds m s))" "tm_alloc (fds_upd s g m) = tm_alloc m" "tm_brk (fds_upd s g m) = tm_brk m"
  by (simp_all add: fds_upd_def)

definition link_in :: "tlist \<Rightarrow> nat list \<Rightarrow> nat \<Rightarrow> nat list \<Rightarrow> ('f, 'a) thread_master \<Rightarrow> ('f, 'a) thread_master" where
  "link_in l xs a ys m = list_upd l (\<lambda>x. x\<lparr>tl_head := first_of (xs @ [a]), tl_tail := last_of (a # ys), tl_count := tl_count x + 1\<rparr>)
     (th_map (\<lambda>x t. t\<lparr>th_prev := (if x = a then last_of xs else if first_of ys = Some x then Some a else th_prev t),
        th_next := (if x = a then first_of ys else if last_of xs = Some x then Some a else th_next t)\<rparr>) m)"

definition link_out :: "tlist \<Rightarrow> nat list \<Rightarrow> nat \<Rightarrow> nat list \<Rightarrow> ('f, 'a) thread_master \<Rightarrow> ('f, 'a) thread_master" where
  "link_out l xs a ys m = list_upd l (\<lambda>x. x\<lparr>tl_head := first_of (xs @ ys), tl_tail := last_of (xs @ ys), tl_count := tl_count x - 1\<rparr>)
     (th_map (\<lambda>x t. t\<lparr>th_prev := (if x = a then None else if first_of ys = Some x then last_of xs else th_prev t),
        th_next := (if x = a then None else if last_of xs = Some x then first_of ys else th_next t)\<rparr>) m)"

lemma link_in_relinked: "relinked m (link_in l xs a ys m)"
  by (auto simp: relinked_def link_in_def heap_map_def content_def map_option_case split: option.split)

lemma link_out_relinked: "relinked m (link_out l xs a ys m)"
  by (auto simp: relinked_def link_out_def heap_map_def content_def map_option_case split: option.split)

lemma link_out_node: "tm_heap m a = Some t \<Longrightarrow> tm_heap (link_out l xs a ys m) a = Some (content t)"
  by (simp add: link_out_def heap_map_def content_def)

lemma list_rep_cong:
  fixes H H' :: "nat \<Rightarrow> ('f, 'a) thread option"
  assumes "list_rep H L xs" and "\<And>x t. x \<in> set xs \<Longrightarrow> H x = Some t \<Longrightarrow> \<exists>t'. H' x = Some t' \<and> th_prev t' = th_prev t \<and> th_next t' = th_next t"
  shows "list_rep H' L xs"
  using assms linked_cong [of th_prev th_next H xs H'] by (auto simp: list_rep_def)

lemma lists_rep_update:
  assumes "lists_rep m A" "list_rep (tm_heap m') (tm_list m' l) zs" "\<And>k. k \<noteq> l \<Longrightarrow> list_rep (tm_heap m') (tm_list m' k) (A k)"
    "\<And>k x. k \<noteq> l \<Longrightarrow> x \<in> set (A k) \<Longrightarrow> x \<notin> set zs"
  shows "lists_rep m' (A(l := zs))"
  using assms unfolding lists_rep_def by (simp add: disjoint_iff) metis

lemma link_in_rep:
  assumes rep: "lists_rep m A" and l: "A l = xs @ ys" and a: "\<And>k. a \<notin> set (A k)" "tm_heap m a \<noteq> None"
  shows "lists_rep (link_in l xs a ys m) (A(l := xs @ a # ys))"
proof -
  let ?m = "link_in l xs a ys m"
  note R = lists_repD [OF rep]
  have "linked_by th_prev th_next (tm_heap ?m) (xs @ a # ys)"
    by (rule linked_between [of _ _ "tm_heap m" xs "[]"]) (use R(1,2) [of l] a(1) [of l] a(2) l in \<open>auto simp: link_in_def heap_map_def\<close>)
  then have 1: "list_rep (tm_heap ?m) (tm_list ?m l) (xs @ a # ys)"
    using R(2,5) [of l] a(1) [of l] l
    by (auto simp: list_rep_def link_in_def first_of_append last_of_append last_of_Cons)
  have 2: "list_rep (tm_heap ?m) (tm_list ?m k) (A k)" if "k \<noteq> l" for k
  proof (rule list_rep_cong)
    show "list_rep (tm_heap m) (tm_list ?m k) (A k)" using rep that by (simp add: lists_rep_def link_in_def)
    fix x t
    assume x: "x \<in> set (A k)" "tm_heap m x = Some t"
    with R(6) [OF that] l have "x \<notin> set (xs @ ys)" by auto
    then have "x \<noteq> a" "first_of ys \<noteq> Some x" "last_of xs \<noteq> Some x" using a(1) [of k] x(1) first_of_mem last_of_mem by fastforce+
    then show "\<exists>t'. tm_heap ?m x = Some t' \<and> th_prev t' = th_prev t \<and> th_next t' = th_next t"
      using x(2) by (simp add: link_in_def heap_map_def)
  qed
  show ?thesis by (rule lists_rep_update [OF rep 1 2]) (use R(6) [where l' = l, unfolded l] a(1) in auto)
qed

lemma link_out_rep:
  assumes rep: "lists_rep m A" and l: "A l = xs @ a # ys"
  shows "lists_rep (link_out l xs a ys m) (A(l := xs @ ys))"
proof -
  let ?m = "link_out l xs a ys m"
  note R = lists_repD [OF rep]
  have "linked_by th_prev th_next (tm_heap ?m) (xs @ ys)"
    by (rule linked_without [of _ _ "tm_heap m" xs a]) (use R(1,2) [of l] l in \<open>auto simp: link_out_def heap_map_def\<close>)
  then have 1: "list_rep (tm_heap ?m) (tm_list ?m l) (xs @ ys)"
    using R(2,5) [of l] l by (auto simp: list_rep_def link_out_def)
  have 2: "list_rep (tm_heap ?m) (tm_list ?m k) (A k)" if "k \<noteq> l" for k
  proof (rule list_rep_cong)
    show "list_rep (tm_heap m) (tm_list ?m k) (A k)" using rep that by (simp add: lists_rep_def link_out_def)
    fix x t
    assume x: "x \<in> set (A k)" "tm_heap m x = Some t"
    with R(6) [OF that] l have "x \<notin> set (xs @ a # ys)" by auto
    then have "x \<noteq> a" "first_of ys \<noteq> Some x" "last_of xs \<noteq> Some x" using first_of_mem last_of_mem by fastforce+
    then show "\<exists>t'. tm_heap ?m x = Some t' \<and> th_prev t' = th_prev t \<and> th_next t' = th_next t"
      using x(2) by (simp add: link_out_def heap_map_def)
  qed
  show ?thesis by (rule lists_rep_update [OF rep 1 2]) (use R(6) [where l' = l, unfolded l] in auto)
qed

section \<open>The list operations\<close>

lemma master_eqI:
  "tm_list m = tm_list m' \<Longrightarrow> tm_heap m = tm_heap m' \<Longrightarrow> tm_fds m = tm_fds m' \<Longrightarrow> tm_alloc m = tm_alloc m' \<Longrightarrow> tm_brk m = tm_brk m'
    \<Longrightarrow> m = (m' :: ('f, 'a) thread_master)"
  by simp

lemma heap_map_eqI: "(\<And>t. H x = Some t \<Longrightarrow> f x t = g x t) \<Longrightarrow> heap_map f H x = heap_map g H x"
  by (auto simp: heap_map_def intro!: option.map_cong)

lemma thread_list_add_exact:
  assumes rep: "lists_rep m A" and a: "\<And>k. a \<notin> set (A k)" "tm_heap m a \<noteq> None"
  shows "thread_list_add l a m = Some (link_in l (A l) a [] m)"
proof (cases "A l = []")
  case True
  with lists_repD(3,4,5) [OF rep, of l] a show ?thesis
    by (auto simp: thread_list_add_def th_upd_map link_in_def fun_eq_iff last_of_Cons intro!: master_eqI heap_map_eqI)
next
  case False
  then obtain b where b: "last_of (A l) = Some b" "b \<in> set (A l)" by (metis last_of_def last_in_set)
  then have "b \<noteq> a" "tm_heap m b \<noteq> None" using a(1) lists_repD(7) [OF rep] by auto
  with lists_repD(3,4,5) [OF rep, of l] a b(1) False show ?thesis
    by (auto simp: thread_list_add_def th_upd_map link_in_def fun_eq_iff last_of_Cons first_of_append heap_map_comp
        intro!: master_eqI heap_map_eqI)
qed

lemma thread_list_add_before_exact:
  assumes rep: "lists_rep m A" and l: "A l = xs @ p # ys" and a: "\<And>k. a \<notin> set (A k)" "tm_heap m a \<noteq> None"
  shows "thread_list_add_before l p a m = Some (link_in l xs a (p # ys) m)"
proof -
  from linkedD lists_repD(1) [OF rep, of l] obtain t where t: "tm_heap m p = Some t" "th_prev t = last_of xs" unfolding l by blast
  have p: "p \<noteq> a" "p \<notin> set xs" using a(1) [of l] lists_repD(2) [OF rep, of l] l by auto
  note R = lists_repD(3,4,5) [OF rep, of l]
  show ?thesis
  proof (cases "xs = []")
    case True
    with R a t p l show ?thesis
      by (auto simp: thread_list_add_before_def th_upd_map link_in_def fun_eq_iff last_of_Cons heap_map_Some heap_map_comp
          intro!: master_eqI heap_map_eqI)
  next
    case False
    then obtain b where b: "last_of xs = Some b" "b \<in> set xs" by (metis last_of_def last_in_set)
    then have "b \<noteq> a" "b \<noteq> p" "tm_heap m b \<noteq> None" using a(1) [of l] p lists_repD(7) [OF rep, of b l] l by auto
    with R a t p b(1) l False show ?thesis
      by (auto simp: thread_list_add_before_def th_upd_map link_in_def fun_eq_iff last_of_Cons last_of_append first_of_append
          heap_map_Some heap_map_comp intro!: master_eqI heap_map_eqI)
  qed
qed

lemma thread_list_delete_exact:
  assumes rep: "lists_rep m A" and l: "A l = xs @ a # ys"
  shows "thread_list_delete l a m = Some (link_out l xs a ys m)"
proof -
  from linkedD lists_repD(1) [OF rep, of l] obtain t where
    t: "tm_heap m a = Some t" "th_prev t = last_of xs" "th_next t = first_of ys" unfolding l by blast
  have dis: "a \<notin> set xs" "a \<notin> set ys" "set xs \<inter> set ys = {}" using lists_repD(2) [OF rep, of l] l by auto
  have nb: "b \<noteq> a \<and> tm_heap m b \<noteq> None" if "b \<in> set (xs @ ys)" for b
    using that dis lists_repD(7) [OF rep, of b l] l by auto
  note R = lists_repD(3,4,5) [OF rep, of l]
  have ends: "last_of xs \<noteq> Some a" "first_of ys \<noteq> Some a" using dis last_of_mem [of xs a] first_of_mem [of ys a] by auto
  show ?thesis
  proof (cases "last_of xs")
    case None
    with R t dis l ends nb show ?thesis
      by (cases ys) (auto simp: thread_list_delete_def th_upd_map link_out_def fun_eq_iff last_of_Cons heap_map_Some heap_map_comp
          intro!: master_eqI heap_map_eqI)
  next
    case (Some b)
    with last_of_mem [OF Some] nb [of b] have "b \<noteq> a" "tm_heap m b \<noteq> None" "xs \<noteq> []" "b \<notin> set ys" using dis by auto
    with Some R t dis l ends nb show ?thesis
      by (cases ys) (auto simp: thread_list_delete_def th_upd_map link_out_def fun_eq_iff last_of_Cons last_of_append first_of_append
          heap_map_Some heap_map_comp intro!: master_eqI heap_map_eqI)
  qed
qed

end
