(* ===== verification/Lib_Thread_Sched.thy ===== *)
theory Lib_Thread_Sched
  imports Lib_Thread_Inv
begin

text \<open>
  The invariant of the scheduler and what its operations do: every thread that was ever
  allocated is on exactly one list, of the right kind, timers are in the order of their
  expiry, and the descriptors that are waited for are those of the waiting threads.
\<close>

section \<open>The invariant\<close>

definition sands_of :: "('f, 'a) thread_master \<Rightarrow> nat \<Rightarrow> int" where
  "sands_of m a = (case Option.bind (tm_heap m a) (u_sands \<circ> th_u) of Some s \<Rightarrow> usecs s | None \<Rightarrow> 0)"

definition fd_of :: "('f, 'a) thread_master \<Rightarrow> nat \<Rightarrow> int" where
  "fd_of m a = (case Option.bind (tm_heap m a) (u_fd \<circ> th_u) of Some fd \<Rightarrow> fd | None \<Rightarrow> 0)"

fun typed :: "tlist \<Rightarrow> ('f, 'a) thread \<Rightarrow> bool" where
  "typed L_read t \<longleftrightarrow> th_type t = THREAD_READ \<and> (\<exists>fd. th_u t = U_fd fd \<and> 0 \<le> fd \<and> fd < FD_SETSIZE)" |
  "typed L_write t \<longleftrightarrow> th_type t = THREAD_WRITE \<and> (\<exists>fd. th_u t = U_fd fd \<and> 0 \<le> fd \<and> fd < FD_SETSIZE)" |
  "typed L_timer t \<longleftrightarrow> th_type t = THREAD_TIMER \<and> (\<exists>s. th_u t = U_sands s \<and> timeval_wf s)" |
  "typed L_event t \<longleftrightarrow> th_type t = THREAD_EVENT" |
  "typed L_ready t \<longleftrightarrow> th_type t = THREAD_READY" |
  "typed L_unuse t \<longleftrightarrow> th_type t = THREAD_UNUSED" |
  "typed L_background t \<longleftrightarrow> th_type t = THREAD_BACKGROUND \<and> (\<exists>s. th_u t = U_sands s \<and> timeval_wf s)"

text \<open>The threads of \<open>P\<close> are being moved and stand on no list.\<close>

definition sched_out :: "nat set \<Rightarrow> ('f, 'a) thread_master \<Rightarrow> queues \<Rightarrow> bool" where
  "sched_out P m A \<longleftrightarrow> lists_rep m A \<and> (\<forall>a. tm_heap m a \<noteq> None \<longleftrightarrow> a < tm_brk m) \<and> tm_alloc m = word_of_nat (tm_brk m)
     \<and> (\<forall>a. (\<exists>l. a \<in> set (A l)) \<longleftrightarrow> a < tm_brk m \<and> a \<notin> P)
     \<and> (\<forall>l a t. a \<in> set (A l) \<longrightarrow> tm_heap m a = Some t \<longrightarrow> typed l t)
     \<and> sorted (map (sands_of m) (A L_timer)) \<and> sorted (map (sands_of m) (A L_background)) \<and> A L_write = []"

definition fds_ok :: "('f, 'a) thread_master \<Rightarrow> queues \<Rightarrow> bool" where
  "fds_ok m A \<longleftrightarrow> distinct (map (fd_of m) (A L_read)) \<and> tm_fds m S_readfd = fd_of m ` set (A L_read)"

definition sched :: "('f, 'a) thread_master \<Rightarrow> queues \<Rightarrow> bool" where
  "sched m A \<longleftrightarrow> sched_out {} m A \<and> fds_ok m A"

lemma sched_create: "sched thread_master_create (\<lambda>_. [])"
  by (simp add: sched_def sched_out_def fds_ok_def thread_master_create_def lists_rep_def list_rep_def list_empty_def)

lemma sched_outD:
  assumes "sched_out P m A"
  shows "lists_rep m A" "tm_heap m a = None \<longleftrightarrow> \<not> a < tm_brk m" "tm_alloc m = word_of_nat (tm_brk m)"
    "(\<exists>l. a \<in> set (A l)) \<longleftrightarrow> a < tm_brk m \<and> a \<notin> P" "a \<in> set (A l) \<Longrightarrow> tm_heap m a = Some t \<Longrightarrow> typed l t"
    "sorted (map (sands_of m) (A L_timer))" "sorted (map (sands_of m) (A L_background))" "A L_write = []"
  using assms unfolding sched_out_def by blast+

lemma out_not_listed: "sched_out P m A \<Longrightarrow> a \<in> P \<Longrightarrow> a \<notin> set (A l)"
  using sched_outD(4) by blast

text \<open>What is read from a thread does not depend on its links.\<close>

lemma typed_content [simp]: "typed l (content t) = typed l t"
  by (cases l) simp_all

lemma relinked_sands: "relinked m m' \<Longrightarrow> sands_of m' = sands_of m"
proof
  fix a
  assume "relinked m m'"
  then show "sands_of m' a = sands_of m a"
    using relinkedD [of m m' a] by (cases "tm_heap m a") (auto simp: sands_of_def, metis content_simps(2))
qed

lemma relinked_fd: "relinked m m' \<Longrightarrow> fd_of m' = fd_of m"
proof
  fix a
  assume "relinked m m'"
  then show "fd_of m' a = fd_of m a"
    using relinkedD [of m m' a] by (cases "tm_heap m a") (auto simp: fd_of_def, metis content_simps(2))
qed

lemma typed_relinked:
  assumes "relinked m m'" "\<And>t. tm_heap m a = Some t \<Longrightarrow> typed l t" "tm_heap m' a = Some t'"
  shows "typed l t'"
proof -
  from assms(1,3) relinkedD(2) [OF assms(1), of a] obtain t where t: "tm_heap m a = Some t" by fastforce
  with relinkedD(1) [OF assms(1) t] assms(3) have "content t' = content t" by simp
  with assms(2) [OF t] typed_content show ?thesis by metis
qed

section \<open>Moving threads\<close>

lemma sched_relinked:
  assumes s: "sched_out P m A" and r: "relinked m m'" and rep: "lists_rep m' (A(l := zs))"
    and P: "\<And>a. (\<exists>k. a \<in> set ((A(l := zs)) k)) \<longleftrightarrow> a < tm_brk m \<and> a \<notin> Q"
    and ty: "\<And>a t. a \<in> set zs \<Longrightarrow> tm_heap m a = Some t \<Longrightarrow> typed l t"
    and so: "l = L_timer \<or> l = L_background \<Longrightarrow> sorted (map (sands_of m) zs)" and w: "l = L_write \<Longrightarrow> zs = []"
  shows "sched_out Q m' (A(l := zs))"
proof -
  note D = sched_outD [OF s]
  have "typed k t'" if "a \<in> set ((A(l := zs)) k)" "tm_heap m' a = Some t'" for k a t'
    by (rule typed_relinked [OF r _ that(2)]) (use that(1) ty D(5) in \<open>auto split: if_splits\<close>)
  moreover have "tm_heap m' a \<noteq> None \<longleftrightarrow> a < tm_brk m'" "tm_alloc m' = word_of_nat (tm_brk m')" "tm_brk m' = tm_brk m" for a
    using relinkedD(2) [OF r] D(2,3) r by (auto simp: relinked_def)
  ultimately show ?thesis unfolding sched_out_def
    using rep P so w D(6,7,8) by (simp add: relinked_sands [OF r])
qed

lemma listed_upd: "(x \<in> set zs \<longleftrightarrow> x \<in> set (A l)) \<Longrightarrow> (\<exists>k. x \<in> set ((A(l := zs)) k)) \<longleftrightarrow> (\<exists>k. x \<in> set (A k))"
  by (rule ex_cong1) simp

lemma link_in_sched:
  assumes s: "sched_out {a} m A" and l: "A l = xs @ ys" "l \<noteq> L_write" and a: "tm_heap m a = Some t" "typed l t"
    and so: "l = L_timer \<or> l = L_background \<Longrightarrow> (\<forall>x\<in>set xs. sands_of m x \<le> sands_of m a) \<and> (\<forall>y\<in>set ys. sands_of m a \<le> sands_of m y)"
  shows "sched_out {} (link_in l xs a ys m) (A(l := xs @ a # ys))"
proof (rule sched_relinked [OF s link_in_relinked link_in_rep [OF sched_outD(1) [OF s] l(1)]])
  show "a \<notin> set (A k)" for k by (rule out_not_listed [OF s]) simp
  show "tm_heap m a \<noteq> None" using a by simp
  show "(\<exists>k. x \<in> set ((A(l := xs @ a # ys)) k)) \<longleftrightarrow> x < tm_brk m \<and> x \<notin> {}" for x
  proof (cases "x = a")
    case True
    then show ?thesis using a sched_outD(2) [OF s, of a] by (auto intro: exI [of _ l])
  next
    case False
    then have "(\<exists>k. x \<in> set ((A(l := xs @ a # ys)) k)) \<longleftrightarrow> (\<exists>k. x \<in> set (A k))" using l(1) by (intro listed_upd) simp
    then show ?thesis using sched_outD(4) [OF s, of x] False by simp
  qed
  show "typed l t'" if "x \<in> set (xs @ a # ys)" "tm_heap m x = Some t'" for x t'
    using that a l(1) sched_outD(5) [OF s, of x l] by (cases "x = a") auto
  show "sorted (map (sands_of m) (xs @ a # ys))" if "l = L_timer \<or> l = L_background"
  proof -
    have "sorted (map (sands_of m) (xs @ ys))" using that sched_outD(6,7) [OF s] l(1) by auto
    with so [OF that] show ?thesis by (fastforce simp: sorted_append)
  qed
qed (use l in simp)

lemma link_out_sched:
  assumes s: "sched_out {} m A" and l: "A l = xs @ a # ys"
  shows "sched_out {a} (link_out l xs a ys m) (A(l := xs @ ys))"
proof (rule sched_relinked [OF s link_out_relinked link_out_rep [OF sched_outD(1) [OF s] l]])
  have dis: "a \<notin> set (xs @ ys)" using lists_repD(2) [OF sched_outD(1) [OF s], of l] l by auto
  show "(\<exists>k. x \<in> set ((A(l := xs @ ys)) k)) \<longleftrightarrow> x < tm_brk m \<and> x \<notin> {a}" for x
  proof (cases "x = a")
    case True
    then show ?thesis using dis lists_repD(6) [OF sched_outD(1) [OF s], of l _ a] l by (auto split: if_splits)
  next
    case False
    then have "(\<exists>k. x \<in> set ((A(l := xs @ ys)) k)) \<longleftrightarrow> (\<exists>k. x \<in> set (A k))" using l by (intro listed_upd) simp
    then show ?thesis using sched_outD(4) [OF s, of x] False by simp
  qed
  show "typed l t'" if "x \<in> set (xs @ ys)" "tm_heap m x = Some t'" for x t'
    using that l sched_outD(5) [OF s, of x l] by auto
  show "sorted (map (sands_of m) (xs @ ys))" if "l = L_timer \<or> l = L_background"
    using that sched_outD(6,7) [OF s] l by (auto simp: sorted_append)
  show "xs @ ys = []" if "l = L_write" using that sched_outD(8) [OF s] l by simp
qed

text \<open>The contents of a thread that stands on no list can be changed.\<close>

lemma th_upd_sched:
  assumes s: "sched_out P m A" and a: "a \<in> P" "tm_heap m a = Some t"
  shows "\<exists>m'. th_upd a f m = Some m' \<and> sched_out P m' A \<and> tm_heap m' = (tm_heap m)(a \<mapsto> f t)
    \<and> tm_fds m' = tm_fds m \<and> tm_brk m' = tm_brk m \<and> tm_list m' = tm_list m"
proof (intro exI conjI)
  let ?m = "m\<lparr>tm_heap := (tm_heap m)(a \<mapsto> f t)\<rparr>"
  show "th_upd a f m = Some ?m" using a by (simp add: th_upd_def heap_upd_def)
  note D = sched_outD [OF s]
  have out: "x \<noteq> a" if "x \<in> set (A l)" for x l using out_not_listed [OF s a(1)] that by auto
  have "list_rep (tm_heap ?m) (tm_list ?m l) (A l)" for l
    by (rule list_rep_cong [of "tm_heap m"]) (use D(1) out in \<open>auto simp: lists_rep_def\<close>)
  then have "lists_rep ?m A" using D(1) by (simp add: lists_rep_def)
  moreover have "map (sands_of ?m) (A l) = map (sands_of m) (A l)" for l
    using out by (auto simp: sands_of_def)
  moreover have "tm_heap ?m x \<noteq> None \<longleftrightarrow> x < tm_brk m" for x using D(2) [of x] D(2) [of a] a by auto
  moreover have "typed l t'" if "x \<in> set (A l)" "tm_heap ?m x = Some t'" for x l t'
    using D(5) that out [OF that(1)] by simp
  ultimately show "sched_out P ?m A" unfolding sched_out_def using D(3,4,6-8) by (simp del: map_eq_conv)
qed simp_all

section \<open>Creation and release\<close>

text \<open>The contents of every other thread are the same.\<close>

definition others :: "nat \<Rightarrow> ('f, 'a) thread_master \<Rightarrow> ('f, 'a) thread_master \<Rightarrow> bool" where
  "others a m m' \<longleftrightarrow> (\<forall>x. x \<noteq> a \<longrightarrow> map_option content (tm_heap m' x) = map_option content (tm_heap m x))"

lemma others_trans: "others a m m' \<Longrightarrow> others a m' m'' \<Longrightarrow> others a m m''"
  by (simp add: others_def)

lemma relinked_others: "relinked m m' \<Longrightarrow> others a m m'"
  by (simp add: others_def relinked_def)

lemma others_fd: "others a m m' \<Longrightarrow> x \<noteq> a \<Longrightarrow> fd_of m' x = fd_of m x"
proof -
  assume "others a m m'" "x \<noteq> a"
  then have "map_option (th_u \<circ> content) (tm_heap m' x) = map_option (th_u \<circ> content) (tm_heap m x)"
    by (metis others_def option.map_comp)
  then have "map_option th_u (tm_heap m' x) = map_option th_u (tm_heap m x)" by (simp add: comp_def)
  then show ?thesis by (cases "tm_heap m x"; cases "tm_heap m' x") (auto simp: fd_of_def)
qed

lemma fds_keep:
  assumes "fds_ok m A" "others a m m'" "a \<notin> set (A L_read)" "A' L_read = A L_read" "tm_fds m' S_readfd = tm_fds m S_readfd"
  shows "fds_ok m' A'"
proof -
  have "fd_of m' x = fd_of m x" if "x \<in> set (A L_read)" for x using others_fd [OF assms(2)] that assms(3) by metis
  then have "map (fd_of m') (A L_read) = map (fd_of m) (A L_read)" by simp
  then show ?thesis using assms(1,4,5) unfolding fds_ok_def by (metis list.set_map)
qed

lemma calloc_sched:
  fixes t :: "('f, 'a) thread" and m :: "('f, 'a) thread_master"
  assumes s: "sched_out {} m A"
  defines "m1 \<equiv> m\<lparr>tm_heap := (tm_heap m)(tm_brk m \<mapsto> t), tm_brk := tm_brk m + 1, tm_alloc := tm_alloc m + 1\<rparr>"
  shows "sched_out {tm_brk m} m1 A"
proof -
  note D = sched_outD [OF s]
  have out: "x \<noteq> tm_brk m" if "x \<in> set (A l)" for x l using D(4) [of x] that by auto
  have "list_rep (tm_heap m1) (tm_list m1 l) (A l)" for l
    by (rule list_rep_cong [of "tm_heap m"]) (use D(1) out in \<open>auto simp: lists_rep_def m1_def\<close>)
  then have "lists_rep m1 A" using D(1) by (simp add: lists_rep_def)
  moreover have "map (sands_of m1) (A l) = map (sands_of m) (A l)" for l using out by (auto simp: sands_of_def m1_def)
  moreover have "tm_heap m1 x \<noteq> None \<longleftrightarrow> x < tm_brk m1" for x using D(2) [of x] by (auto simp: m1_def)
  moreover have "typed l t'" if "x \<in> set (A l)" "tm_heap m1 x = Some t'" for x l t'
    using D(5) that out [OF that(1)] by (simp add: m1_def)
  moreover have "(\<exists>l. x \<in> set (A l)) \<longleftrightarrow> x < tm_brk m1 \<and> x \<notin> {tm_brk m}" for x using D(4) [of x] by (auto simp: m1_def)
  ultimately show ?thesis unfolding sched_out_def using D(3,6-8) by (simp del: map_eq_conv add: m1_def)
qed

definition next_free :: "('f, 'a) thread_master \<Rightarrow> queues \<Rightarrow> nat" where
  "next_free m A = (case A L_unuse of [] \<Rightarrow> tm_brk m | a # _ \<Rightarrow> a)"

definition fresh_thread :: "thread_type \<Rightarrow> 'f \<Rightarrow> 'a \<Rightarrow> thread_u \<Rightarrow> string \<Rightarrow> ('f, 'a) thread" where
  "fresh_thread type func arg u name = \<lparr>th_type = type, th_add_type = type, th_next = None, th_prev = None, th_func = Some func,
     th_arg = Some arg, th_u = u, th_funcname = Some name\<rparr>"

lemma take_thread:
  assumes s: "sched_out {} m A" and e: "\<not> thread_empty (tm_list m L_unuse)"
  shows "\<exists>a m' t. thread_trim_head L_unuse m = Some (Some a, m') \<and> a = next_free m A \<and> tm_heap m' a = Some t \<and> content t = t
    \<and> sched_out {a} m' (A(L_unuse := tl (A L_unuse))) \<and> relinked m m'"
proof -
  note D = sched_outD [OF s]
  from e lists_repD(3) [OF D(1), of L_unuse] obtain a ys where ys: "A L_unuse = [] @ a # ys"
    by (cases "A L_unuse") (auto simp: thread_empty_def)
  from lists_repD(7) [OF D(1), of a L_unuse] ys obtain t where t: "tm_heap m a = Some t" by auto
  have "thread_trim_head L_unuse m = Some (Some a, link_out L_unuse [] a ys m)"
    using e lists_repD(3) [OF D(1), of L_unuse] ys by (simp add: thread_trim_head_def thread_list_delete_exact [OF D(1) ys])
  with link_out_sched [OF s ys] link_out_node [OF t] link_out_relinked show ?thesis
    by (fastforce simp: next_free_def ys content_def)
qed

lemma thread_get_sched:
  assumes s: "sched_out {} m A" and n: "strip_funcname funcname = Some name"
  shows "\<exists>m' u. thread_get type func arg funcname m = Some (next_free m A, m')
    \<and> sched_out {next_free m A} m' (A(L_unuse := tl (A L_unuse)))
    \<and> tm_heap m' (next_free m A) = Some (fresh_thread type func arg u name) \<and> tm_fds m' = tm_fds m \<and> others (next_free m A) m m'"
proof -
  let ?a = "next_free m A" and ?A = "A(L_unuse := tl (A L_unuse))"
  let ?f = "\<lambda>t. t\<lparr>th_type := type, th_add_type := type, th_func := Some func, th_arg := Some arg, th_funcname := Some name\<rparr>"
  define step where "step = (if \<not> thread_empty (tm_list m L_unuse)
    then do { (r, m) \<leftarrow> thread_trim_head L_unuse m; a \<leftarrow> r; Some (a, m) }
    else Some (tm_brk m, m\<lparr>tm_heap := (tm_heap m)(tm_brk m \<mapsto> thread_zero), tm_brk := tm_brk m + 1, tm_alloc := tm_alloc m + 1\<rparr>))"
  have "\<exists>m1 t. step = Some (?a, m1) \<and> tm_heap m1 ?a = Some t \<and> content t = t \<and> sched_out {?a} m1 ?A \<and> tm_fds m1 = tm_fds m \<and> others ?a m m1"
  proof (cases "thread_empty (tm_list m L_unuse)")
    case True
    then have A: "A L_unuse = []" using lists_repD(3) [OF sched_outD(1) [OF s], of L_unuse] by (simp add: thread_empty_def)
    from calloc_sched [OF s, of thread_zero] A True show ?thesis
      by (simp add: step_def next_free_def fun_upd_idem others_def content_def thread_zero_def)
  next
    case False
    from take_thread [OF s False] False show ?thesis by (auto simp: step_def relinked_others) (simp add: relinked_def)
  qed
  then obtain m1 t where m1: "step = Some (?a, m1)" "tm_heap m1 ?a = Some t" "content t = t" "sched_out {?a} m1 ?A"
    "tm_fds m1 = tm_fds m" "others ?a m m1" by blast
  from th_upd_sched [OF m1(4) _ m1(2), of ?f] obtain m2 where m2: "th_upd ?a ?f m1 = Some m2" "sched_out {?a} m2 ?A"
    "tm_heap m2 = (tm_heap m1)(?a \<mapsto> ?f t)" "tm_fds m2 = tm_fds m1" by auto
  have "thread_get type func arg funcname m = Some (?a, m2)"
    using m1(1) m2(1) n by (simp add: thread_get_def step_def [symmetric])
  moreover have "?f t = fresh_thread type func arg (th_u t) name"
    using m1(3) by (cases t) (simp add: fresh_thread_def content_def)
  moreover have "others ?a m m2" using m1(6) m2(3) by (auto simp: others_def)
  ultimately show ?thesis using m1(5) m2 by (intro exI [of _ m2] exI [of _ "th_u t"]) simp
qed

lemma content_id: "content t = t \<longleftrightarrow> th_next t = None \<and> th_prev t = None"
  by (cases t) (auto simp: content_def)

lemma thread_add_unuse_sched:
  assumes s: "sched_out {a} m A" and t: "tm_heap m a = Some t" "content t = t" "th_type t = THREAD_UNUSED"
  shows "\<exists>m'. thread_add_unuse a m = Some m' \<and> sched_out {} m' (A(L_unuse := A L_unuse @ [a])) \<and> relinked m m'"
proof -
  have "th_next t = None" "th_prev t = None" using t(2) by (simp_all add: content_id)
  then have "thread_add_unuse a m = thread_list_add L_unuse a m" using t by (simp add: thread_add_unuse_def)
  also have "\<dots> = Some (link_in L_unuse (A L_unuse) a [] m)"
    by (rule thread_list_add_exact [OF sched_outD(1) [OF s]]) (use out_not_listed [OF s] t in auto)
  finally show ?thesis using link_in_sched [OF s, of L_unuse "A L_unuse" "[]" t] t link_in_relinked by fastforce
qed

end
