(* ===== verification/Lib_Thread_Ops.thy ===== *)
theory Lib_Thread_Ops
  imports Lib_Thread_Sched
begin

text \<open>
  The operations of the scheduler on the sequences its lists represent.
\<close>

section \<open>Adding threads\<close>

text \<open>A thread that was taken from the free list is filled in and put in its place.\<close>

lemma place_thread:
  assumes s: "sched_out {a} m A" and t: "tm_heap m a = Some t" and l: "A l = xs @ ys" "l \<noteq> L_write" "typed l t"
    and so: "l = L_timer \<or> l = L_background \<Longrightarrow> (\<forall>x\<in>set xs. sands_of m x \<le> sands_of m a) \<and> (\<forall>y\<in>set ys. sands_of m a \<le> sands_of m y)"
  shows "\<exists>m'. (case ys of [] \<Rightarrow> thread_list_add l a m | p # _ \<Rightarrow> thread_list_add_before l p a m) = Some m'
    \<and> sched_out {} m' (A(l := xs @ a # ys)) \<and> relinked m m'"
proof -
  have a: "\<And>k. a \<notin> set (A k)" "tm_heap m a \<noteq> None" using out_not_listed [OF s] t by auto
  have "(case ys of [] \<Rightarrow> thread_list_add l a m | p # _ \<Rightarrow> thread_list_add_before l p a m) = Some (link_in l xs a ys m)"
    using thread_list_add_exact [OF sched_outD(1) [OF s] a, of l] thread_list_add_before_exact [OF sched_outD(1) [OF s] _ a, of l xs] l(1)
    by (cases ys) auto
  with link_in_sched [OF s l(1,2) t l(3) so] link_in_relinked show ?thesis by blast
qed

lemmas place_last = place_thread [where ys = "[]", simplified]

lemma free_not_read:
  assumes "sched_out {} m A"
  shows "next_free m A \<notin> set (A L_read)"
proof (cases "A L_unuse")
  case Nil
  have "tm_brk m \<notin> set (A L_read)" using sched_outD(4) [OF assms, of "tm_brk m"] by blast
  with Nil show ?thesis by (simp add: next_free_def)
next
  case (Cons a xs)
  with lists_repD(6) [OF sched_outD(1) [OF assms], of L_unuse L_read a] show ?thesis by (simp add: next_free_def)
qed

text \<open>A thread is taken from the free list, or allocated, and its member of the union is written.\<close>

lemma new_thread:
  assumes s: "sched m A" and n: "strip_funcname funcname = Some name"
  shows "\<exists>m1 m2. thread_get type func arg funcname m = Some (next_free m A, m1)
    \<and> th_upd (next_free m A) (\<lambda>t. t\<lparr>th_u := u\<rparr>) m1 = Some m2
    \<and> sched_out {next_free m A} m2 (A(L_unuse := tl (A L_unuse)))
    \<and> tm_heap m2 (next_free m A) = Some (fresh_thread type func arg u name) \<and> tm_fds m1 = tm_fds m \<and> tm_fds m2 = tm_fds m \<and> others (next_free m A) m m2"
proof -
  let ?a = "next_free m A" and ?A = "A(L_unuse := tl (A L_unuse))"
  from s have "sched_out {} m A" by (simp add: sched_def)
  from thread_get_sched [OF this n, of type func arg] obtain m1 u0 where
    m1: "thread_get type func arg funcname m = Some (?a, m1)" "sched_out {?a} m1 ?A"
      "tm_heap m1 ?a = Some (fresh_thread type func arg u0 name)" "tm_fds m1 = tm_fds m" "others ?a m m1" by blast
  from th_upd_sched [OF m1(2) _ m1(3), of "\<lambda>t. t\<lparr>th_u := u\<rparr>"] obtain m2 where
    m2: "th_upd ?a (\<lambda>t. t\<lparr>th_u := u\<rparr>) m1 = Some m2" "sched_out {?a} m2 ?A"
      "tm_heap m2 = (tm_heap m1)(?a \<mapsto> fresh_thread type func arg u name)" "tm_fds m2 = tm_fds m1"
    by (auto simp: fresh_thread_def)
  have "others ?a m m2" by (rule others_trans [OF m1(5)]) (simp add: others_def m2(3))
  with m1 m2 show ?thesis by (intro exI [of _ m1] exI [of _ m2]) simp
qed

text \<open>What holds of a thread once it stands in its place.\<close>

lemma placed_thread:
  assumes "others a m m2" "tm_heap m2 a = Some (fresh_thread type func arg u name)" "relinked m2 m3"
  shows "others a m m3 \<and> map_option content (tm_heap m3 a) = Some (fresh_thread type func arg u name)"
  using others_trans [OF assms(1) relinked_others [OF assms(3)]] assms(2,3)
  by (simp add: relinked_def content_def fresh_thread_def)

lemma thread_add_event_sched:
  assumes s: "sched m A" and n: "strip_funcname funcname = Some name"
  shows "\<exists>m'. thread_add_event func arg val funcname m = Some (next_free m A, m')
    \<and> sched m' (A(L_unuse := tl (A L_unuse), L_event := A L_event @ [next_free m A]))
    \<and> others (next_free m A) m m'
    \<and> map_option content (tm_heap m' (next_free m A)) = Some (fresh_thread THREAD_EVENT func arg (U_val val) name)"
proof -
  let ?a = "next_free m A" and ?A = "A(L_unuse := tl (A L_unuse))"
  from s have so: "sched_out {} m A" and fo: "fds_ok m A" by (auto simp: sched_def)
  from new_thread [OF s n, of THREAD_EVENT func arg "U_val val"] obtain m1 m2 where
    m2: "thread_get THREAD_EVENT func arg funcname m = Some (?a, m1)" "th_upd ?a (\<lambda>t. t\<lparr>th_u := U_val val\<rparr>) m1 = Some m2"
      "sched_out {?a} m2 ?A" "tm_heap m2 ?a = Some (fresh_thread THREAD_EVENT func arg (U_val val) name)"
      "tm_fds m2 = tm_fds m" "others ?a m m2" by blast
  from place_last [OF m2(3,4), of L_event] obtain m3 where
    m3: "thread_list_add L_event ?a m2 = Some m3" "sched_out {} m3 (?A(L_event := A L_event @ [?a]))" "relinked m2 m3"
    by (auto simp: fresh_thread_def)
  note P = placed_thread [OF m2(6,4) m3(3)]
  have "fds_ok m3 (?A(L_event := A L_event @ [?a]))"
    by (rule fds_keep [OF fo _ free_not_read [OF so]]) (use P m3(3) m2(5) in \<open>simp_all add: relinked_def\<close>)
  with P m2(1,2) m3(1,2) show ?thesis by (simp add: thread_add_event_def sched_def)
qed

lemma sched_out_fds: "sched_out P (fds_upd k g m) A \<longleftrightarrow> sched_out P m A"
proof -
  have "sands_of (fds_upd k g m) = sands_of m" by (simp add: sands_of_def fun_eq_iff)
  then show ?thesis by (simp add: sched_out_def lists_rep_def)
qed

lemma th_upd_fds: "th_upd a f (fds_upd k g m) = map_option (fds_upd k g) (th_upd a f m)"
  by (simp add: th_upd_def fds_upd_def map_option_case split: option.split bind_split)

lemma thread_add_read_sched:
  assumes s: "sched m A" and n: "strip_funcname funcname = Some name" and fd: "0 \<le> fd" "fd < FD_SETSIZE" "fd \<notin> tm_fds m S_readfd"
  shows "\<exists>m'. thread_add_read func arg fd funcname m = Some (Some (next_free m A), m')
    \<and> sched m' (A(L_unuse := tl (A L_unuse), L_read := A L_read @ [next_free m A]))
    \<and> tm_fds m' S_readfd = insert fd (tm_fds m S_readfd) \<and> others (next_free m A) m m'
    \<and> map_option content (tm_heap m' (next_free m A)) = Some (fresh_thread THREAD_READ func arg (U_fd fd) name)"
proof -
  let ?a = "next_free m A" and ?A = "A(L_unuse := tl (A L_unuse))"
  from s have so: "sched_out {} m A" and fo: "fds_ok m A" by (auto simp: sched_def)
  from new_thread [OF s n, of THREAD_READ func arg "U_fd fd"] obtain m1 m2 where
    m2: "thread_get THREAD_READ func arg funcname m = Some (?a, m1)" "th_upd ?a (\<lambda>t. t\<lparr>th_u := U_fd fd\<rparr>) m1 = Some m2"
      "sched_out {?a} m2 ?A" "tm_heap m2 ?a = Some (fresh_thread THREAD_READ func arg (U_fd fd) name)"
      "tm_fds m2 = tm_fds m" "others ?a m m2" by blast
  let ?m2 = "fds_upd S_readfd (insert fd) m2"
  have "sched_out {?a} ?m2 ?A" using m2(3) by (simp add: sched_out_fds)
  from place_last [OF this, of "fresh_thread THREAD_READ func arg (U_fd fd) name" L_read] m2(4) fd obtain m3 where
    m3: "thread_list_add L_read ?a ?m2 = Some m3" "sched_out {} m3 (?A(L_read := A L_read @ [?a]))" "relinked ?m2 m3"
    by (auto simp: fresh_thread_def)
  have P: "others ?a m m3 \<and> map_option content (tm_heap m3 ?a) = Some (fresh_thread THREAD_READ func arg (U_fd fd) name)"
    by (rule placed_thread [OF _ _ m3(3)]) (use m2(4,6) in \<open>simp_all add: others_def\<close>)
  have fa: "fd_of m3 ?a = fd" using relinked_fd [OF m3(3)] m2(4) by (simp add: fd_of_def fresh_thread_def)
  have fds: "tm_fds m3 S_readfd = insert fd (tm_fds m S_readfd)" using m3(3) m2(5) by (simp add: relinked_def)
  have fx: "fd_of m3 x = fd_of m x" if "x \<in> set (A L_read)" for x
    using others_fd P free_not_read [OF so] that by metis
  have "fds_ok m3 (?A(L_read := A L_read @ [?a]))"
    using fo fd(3) fa fds fx by (auto simp: fds_ok_def distinct_map cong: inj_on_cong)
  with P m2(1,2) m3(1,2) fds fd show ?thesis
    by (simp add: thread_add_read_def sched_def FD_ISSET_def th_upd_fds)
qed

lemma thread_add_read_twice:
  "0 \<le> fd \<Longrightarrow> fd < FD_SETSIZE \<Longrightarrow> fd \<in> tm_fds m S_readfd \<Longrightarrow> thread_add_read func arg fd funcname m = Some (None, m)"
  by (simp add: thread_add_read_def FD_ISSET_def)

section \<open>Timers\<close>

definition timer_list :: "thread_type \<Rightarrow> tlist" where
  "timer_list type = (if type = THREAD_TIMER then L_timer else L_background)"

lemma timer_node:
  assumes s: "sched_out P m A" and x: "x \<in> set (A l)" "l = L_timer \<or> l = L_background"
  shows "\<exists>t s. tm_heap m x = Some t \<and> th_u t = U_sands s \<and> timeval_wf s \<and> sands_of m x = usecs s"
proof -
  from lists_repD(7) [OF sched_outD(1) [OF s] x(1)] obtain t where t: "tm_heap m x = Some t" by auto
  with sched_outD(5) [OF s x(1) t] x(2) show ?thesis by (auto simp: sands_of_def)
qed

lemma timer_point_exact:
  assumes s: "sched_out P m A" and l: "l = L_timer \<or> l = L_background" and w: "timeval_wf sands"
  shows "A l = xs @ ys \<Longrightarrow> timer_point (tm_heap m) sands (first_of ys) = Some (first_of (dropWhile (\<lambda>x. sands_of m x < usecs sands) ys))"
proof (induction ys arbitrary: xs)
  case Nil
  then show ?case by (simp add: timer_point.simps)
next
  case (Cons a ys)
  have "linked_by th_prev th_next (tm_heap m) (xs @ a # ys)" using lists_repD(1) [OF sched_outD(1) [OF s], of l] Cons.prems by simp
  from linkedD [OF this] have nx: "\<exists>t. tm_heap m a = Some t \<and> th_next t = first_of ys" by blast
  from Cons.prems have "a \<in> set (A l)" by simp
  from timer_node [OF s this l] nx obtain t s where t: "tm_heap m a = Some t" "th_u t = U_sands s" "timeval_wf s"
    "sands_of m a = usecs s" "th_next t = first_of ys" by auto
  have "timer_point (tm_heap m) sands (first_of ys) = Some (first_of (dropWhile (\<lambda>x. sands_of m x < usecs sands) ys))"
    by (rule Cons.IH [of "xs @ [a]"]) (simp add: Cons.prems)
  then show ?case using t timeval_cmp_usecs(1) [OF w t(3)] by (subst timer_point.simps) (simp add: not_less)
qed

lemma sorted_dropWhile_ge:
  "sorted (map f ys) \<Longrightarrow> y \<in> set (dropWhile (\<lambda>x. f x < (u :: int)) ys) \<Longrightarrow> u \<le> f y"
  by (induction ys) (auto split: if_splits)

lemma others_sands: "others a m m' \<Longrightarrow> x \<noteq> a \<Longrightarrow> sands_of m' x = sands_of m x"
proof -
  assume "others a m m'" "x \<noteq> a"
  then have "map_option (th_u \<circ> content) (tm_heap m' x) = map_option (th_u \<circ> content) (tm_heap m x)"
    by (metis others_def option.map_comp)
  then have "map_option th_u (tm_heap m' x) = map_option th_u (tm_heap m x)" by (simp add: comp_def)
  then show ?thesis by (cases "tm_heap m x"; cases "tm_heap m' x") (auto simp: sands_of_def)
qed

lemma alarm_time:
  "timeval_adjust \<lparr>tv_sec = tv_sec now + tv_sec rel, tv_usec = tv_usec now + tv_usec rel\<rparr> = timeval_of (max 0 (usecs now + usecs rel))"
  unfolding timeval_adjust_max by (simp add: usecs_def algebra_simps)

lemma place_timer:
  assumes s: "sched_out {a} m A" and l: "l = L_timer \<or> l = L_background" and t: "tm_heap m a = Some t" "typed l t" "th_u t = U_sands sands"
    and w: "timeval_wf sands"
  defines "early \<equiv> \<lambda>x. sands_of m x < usecs sands"
  shows "\<exists>m'. do { tt \<leftarrow> timer_point (tm_heap m) sands (tl_head (tm_list m l));
       case tt of Some p \<Rightarrow> thread_list_add_before l p a m | None \<Rightarrow> thread_list_add l a m } = Some m'
    \<and> sched_out {} m' (A(l := takeWhile early (A l) @ a # dropWhile early (A l))) \<and> relinked m m'"
proof -
  let ?xs = "takeWhile early (A l)" and ?ys = "dropWhile early (A l)"
  have "timer_point (tm_heap m) sands (first_of (A l)) = Some (first_of ?ys)"
    unfolding early_def by (rule timer_point_exact [OF s l w, of "[]"]) simp
  then have tp: "timer_point (tm_heap m) sands (tl_head (tm_list m l)) = Some (first_of ?ys)"
    using lists_repD(3) [OF sched_outD(1) [OF s], of l] by simp
  have sa: "sands_of m a = usecs sands" using t by (simp add: sands_of_def)
  have so: "sorted (map (sands_of m) (A l))" using sched_outD(6,7) [OF s] l by auto
  have "\<exists>m'. (case ?ys of [] \<Rightarrow> thread_list_add l a m | p # _ \<Rightarrow> thread_list_add_before l p a m) = Some m'
    \<and> sched_out {} m' (A(l := ?xs @ a # ?ys)) \<and> relinked m m'"
    by (rule place_thread [OF s t(1) _ _ t(2)])
      (use l sa sorted_dropWhile_ge [OF so] in \<open>auto simp: early_def dest: set_takeWhileD\<close>)
  moreover have "(case first_of zs of Some p \<Rightarrow> thread_list_add_before l p a m | None \<Rightarrow> thread_list_add l a m)
    = (case zs of [] \<Rightarrow> thread_list_add l a m | p # _ \<Rightarrow> thread_list_add_before l p a m)" for zs by (cases zs) simp_all
  ultimately show ?thesis by (simp add: tp)
qed

lemma thread_add_timer_sched:
  fixes now rel :: timeval
  assumes s: "sched m A" and n: "strip_funcname funcname = Some name" and ty: "type = THREAD_TIMER \<or> type = THREAD_BACKGROUND"
  defines "a \<equiv> next_free m A" and "l \<equiv> timer_list type" and "u \<equiv> max 0 (usecs now + usecs rel)"
  shows "\<exists>m'. thread_add_timer_timeval now func type arg rel funcname m = Some (a, m')
    \<and> sched m' (A(L_unuse := tl (A L_unuse), l := takeWhile (\<lambda>x. sands_of m x < u) (A l) @ a # dropWhile (\<lambda>x. sands_of m x < u) (A l)))
    \<and> others a m m' \<and> map_option content (tm_heap m' a) = Some (fresh_thread type func arg (U_sands (timeval_of u)) name)"
proof -
  let ?A = "A(L_unuse := tl (A L_unuse))" and ?t = "fresh_thread type func arg (U_sands (timeval_of u)) name"
  from s have so: "sched_out {} m A" and fo: "fds_ok m A" by (auto simp: sched_def)
  from new_thread [OF s n, of type func arg "U_sands (timeval_of u)"] obtain m1 m2 where
    m2: "thread_get type func arg funcname m = Some (a, m1)" "th_upd a (\<lambda>t. t\<lparr>th_u := U_sands (timeval_of u)\<rparr>) m1 = Some m2"
      "sched_out {a} m2 ?A" "tm_heap m2 a = Some ?t" "tm_fds m2 = tm_fds m" "others a m m2" unfolding a_def by blast
  have l: "l = L_timer \<or> l = L_background" "?A l = A l" by (auto simp: l_def timer_list_def)
  have sa: "sands_of m2 x = sands_of m x" if "x \<in> set (A l)" for x
    using others_sands [OF m2(6), of x] out_not_listed [OF m2(3), of a l] that l(2) by (cases "x = a") auto
  have cut: "takeWhile (\<lambda>x. sands_of m2 x < u) (A l) = takeWhile (\<lambda>x. sands_of m x < u) (A l)"
    "dropWhile (\<lambda>x. sands_of m2 x < u) (A l) = dropWhile (\<lambda>x. sands_of m x < u) (A l)"
    using sa by (auto intro: takeWhile_cong dropWhile_cong)
  let ?B = "?A(l := takeWhile (\<lambda>x. sands_of m x < u) (A l) @ a # dropWhile (\<lambda>x. sands_of m x < u) (A l))"
  have "typed l ?t" using ty by (auto simp: l_def timer_list_def fresh_thread_def)
  from place_timer [OF m2(3) l(1) m2(4) this, of "timeval_of u", unfolded l(2) usecs_timeval_of cut] obtain m3 where
    m3: "do { tt \<leftarrow> timer_point (tm_heap m2) (timeval_of u) (tl_head (tm_list m2 l));
       case tt of Some p \<Rightarrow> thread_list_add_before l p a m2 | None \<Rightarrow> thread_list_add l a m2 } = Some m3"
      "sched_out {} m3 ?B" "relinked m2 m3" by (auto simp: fresh_thread_def)
  note P = placed_thread [OF m2(6,4) m3(3)]
  have "fds_ok m3 ?B"
    by (rule fds_keep [OF fo _ free_not_read [OF so]]) (use P m3(3) m2(5) l(1) in \<open>auto simp: relinked_def a_def\<close>)
  moreover have "thread_add_timer_timeval now func type arg rel funcname m = Some (a, m3)"
    using ty m2(1,2) m3(1) unfolding thread_add_timer_timeval_def alarm_time u_def [symmetric] l_def timer_list_def
    by (auto simp: bind_eq_Some_conv)
  ultimately show ?thesis using P m3(2) by (auto simp: sched_def)
qed

section \<open>Releasing threads\<close>

text \<open>A thread that was taken off its list goes to the free list.\<close>

lemma release_thread:
  assumes s: "sched_out {a} m A" and t: "tm_heap m a = Some t" "content t = t" and f: "content (f t) = f t" "th_type (f t) = THREAD_UNUSED"
  shows "\<exists>m'. do { m \<leftarrow> th_upd a f m; thread_add_unuse a m } = Some m' \<and> sched_out {} m' (A(L_unuse := A L_unuse @ [a]))
    \<and> others a m m' \<and> tm_fds m' = tm_fds m \<and> map_option content (tm_heap m' a) = Some (f t)"
proof -
  from th_upd_sched [OF s _ t(1), of f] obtain m1 where m1: "th_upd a f m = Some m1" "sched_out {a} m1 A"
    "tm_heap m1 = (tm_heap m)(a \<mapsto> f t)" "tm_fds m1 = tm_fds m" by auto
  from thread_add_unuse_sched [OF m1(2), of "f t"] m1(3) f obtain m2 where
    m2: "thread_add_unuse a m1 = Some m2" "sched_out {} m2 (A(L_unuse := A L_unuse @ [a]))" "relinked m1 m2" by auto
  have "others a m m2" by (rule others_trans [OF _ relinked_others [OF m2(3)]]) (simp add: others_def m1(3))
  moreover have "map_option content (tm_heap m2 a) = Some (f t)" using m2(3) m1(3) f(1) by (simp add: relinked_def)
  ultimately show ?thesis using m1(1,4) m2 by (simp add: relinked_def)
qed

lemma content_idem [simp]: "content (content t) = content t"
  by (simp add: content_def)

lemma listed_node:
  assumes "sched_out P m A" "A l = xs @ a # ys"
  shows "\<exists>t. tm_heap m a = Some t \<and> typed l t"
proof -
  from lists_repD(7) [OF sched_outD(1) [OF assms(1)], of a l] assms(2) obtain t where "tm_heap m a = Some t" by auto
  with sched_outD(5) [OF assms(1), of a l t] assms(2) show ?thesis by simp
qed

lemma thread_run_sched:
  assumes s: "sched_out {a} m A" and t: "tm_heap m a = Some t" "content t = t"
  shows "\<exists>m'. thread_run a m = Some (t, m') \<and> sched_out {} m' (A(L_unuse := A L_unuse @ [a])) \<and> others a m m' \<and> tm_fds m' = tm_fds m"
proof -
  let ?f = "\<lambda>t. t\<lparr>th_type := THREAD_UNUSED, th_funcname := None\<rparr>"
  have "content (?f t) = ?f t" using t(2) by (simp add: content_id)
  with release_thread [OF s t, of ?f] show ?thesis by (auto simp: thread_run_def t(1) bind_eq_Some_conv)
qed

text \<open>Taking the first thread of a list of events or ready threads and running it.\<close>

lemma run_head_sched:
  assumes s: "sched m A" and l: "l = L_event \<or> l = L_ready" "A l = a # ys" and t: "tm_heap m a = Some t"
  shows "\<exists>m1 m'. thread_trim_head l m = Some (Some a, m1) \<and> thread_run a m1 = Some (content t, m')
    \<and> sched m' (A(l := ys, L_unuse := A L_unuse @ [a])) \<and> others a m m'"
proof -
  from s have so: "sched_out {} m A" and fo: "fds_ok m A" by (auto simp: sched_def)
  note D = sched_outD [OF so]
  let ?m = "link_out l [] a ys m"
  have trim: "thread_trim_head l m = Some (Some a, ?m)"
    using lists_repD(3) [OF D(1), of l] l thread_list_delete_exact [OF D(1), of l "[]" a ys]
    by (simp add: thread_trim_head_def thread_empty_def)
  have o: "sched_out {a} ?m (A(l := ys))" using link_out_sched [OF so, of l "[]" a ys] l by simp
  from thread_run_sched [OF o link_out_node [OF t]] obtain m' where
    m': "thread_run a ?m = Some (content t, m')" "sched_out {} m' (A(l := ys, L_unuse := A L_unuse @ [a]))"
      "others a ?m m'" "tm_fds m' = tm_fds ?m" using l(1) by auto
  have ot: "others a m m'" by (rule others_trans [OF relinked_others [OF link_out_relinked] m'(3)])
  have nr: "a \<notin> set (A L_read)" using lists_repD(6) [OF D(1), of l L_read a] l by auto
  have "fds_ok m' (A(l := ys, L_unuse := A L_unuse @ [a]))"
    by (rule fds_keep [OF fo ot nr]) (use l m'(4) in \<open>auto simp: link_out_def\<close>)
  with trim m' ot show ?thesis by (auto simp: sched_def)
qed

section \<open>Cancellation\<close>

fun list_of_type :: "thread_type \<Rightarrow> tlist option" where
  "list_of_type THREAD_READ = Some L_read" |
  "list_of_type THREAD_WRITE = Some L_write" |
  "list_of_type THREAD_TIMER = Some L_timer" |
  "list_of_type THREAD_EVENT = Some L_event" |
  "list_of_type THREAD_READY = Some L_ready" |
  "list_of_type THREAD_BACKGROUND = Some L_background" |
  "list_of_type _ = None"

lemma typed_list: "typed l t \<Longrightarrow> list_of_type (th_type t) = (if l = L_unuse then None else Some l)"
  by (cases l) auto

lemma fd_read:
  assumes "sched_out P m A" "a \<in> set (A L_read)"
  shows "\<exists>t. tm_heap m a = Some t \<and> th_u t = U_fd (fd_of m a) \<and> 0 \<le> fd_of m a \<and> fd_of m a < FD_SETSIZE"
proof -
  from assms(2) obtain xs ys where "A L_read = xs @ a # ys" by (meson split_list)
  from listed_node [OF assms(1) this] show ?thesis by (auto simp: fd_of_def)
qed

lemma clear_fd_read:
  assumes s: "sched_out P m A" and a: "a \<in> set (A L_read)" "tm_heap m a = Some t" and f: "fd_of m a \<in> tm_fds m S_readfd"
  shows "clear_fd S_readfd t m = Some (fds_upd S_readfd (\<lambda>fds. fds - {fd_of m a}) m)"
  using fd_read [OF s a(1)] a(2) f by (auto simp: clear_fd_def FD_ISSET_def)

lemma fds_ok_remove:
  assumes "fds_ok m A" "A L_read = xs @ a # ys" "others a m m'" "A' L_read = xs @ ys" "a \<notin> set (xs @ ys)"
    "tm_fds m' S_readfd = tm_fds m S_readfd - {fd_of m a}"
  shows "fds_ok m' A'"
proof -
  have "fd_of m' x = fd_of m x" if "x \<in> set (xs @ ys)" for x using others_fd [OF assms(3)] that assms(5) by metis
  then have "map (fd_of m') (xs @ ys) = map (fd_of m) (xs @ ys)" "fd_of m' ` set (xs @ ys) = fd_of m ` set (xs @ ys)"
    by (simp, intro image_cong) simp_all
  moreover have "distinct (map (fd_of m) (xs @ ys))" "tm_fds m' S_readfd = fd_of m ` set (xs @ ys)"
    using assms(1,2,6) by (auto simp: fds_ok_def image_Un)
  ultimately show ?thesis unfolding fds_ok_def assms(4) by metis
qed

definition forget_fd :: "tlist \<Rightarrow> nat \<Rightarrow> ('f, 'a) thread_master \<Rightarrow> ('f, 'a) thread_master" where
  "forget_fd l a m = (if l = L_read then fds_upd S_readfd (\<lambda>fds. fds - {fd_of m a}) m else m)"

lemma forget_fd_simps [simp]:
  "tm_heap (forget_fd l a m) = tm_heap m" "tm_list (forget_fd l a m) = tm_list m" "sched_out P (forget_fd l a m) A = sched_out P m A"
  by (simp_all add: forget_fd_def sched_out_fds)

lemma fds_ok_forget:
  assumes s: "sched m A" and l: "A l = xs @ a # ys" and m': "others a m m'" "tm_fds m' = tm_fds (forget_fd l a m)"
    and A': "A' L_read = (if l = L_read then xs @ ys else A L_read)"
  shows "fds_ok m' A'"
proof (cases "l = L_read")
  case True
  have "a \<notin> set (xs @ ys)" using lists_repD(2) [of m A l] s l by (auto simp: sched_def sched_out_def)
  moreover have "tm_fds m' S_readfd = tm_fds m S_readfd - {fd_of m a}" using m'(2) True by (simp add: forget_fd_def)
  ultimately show ?thesis using fds_ok_remove [of m A xs a ys m' A'] s l m'(1) A' True by (simp add: sched_def)
next
  case False
  have "a \<notin> set (A L_read)" using lists_repD(6) [of m A l L_read a] s l False by (auto simp: sched_def sched_out_def)
  with False show ?thesis
    by (intro fds_keep [OF _ m'(1)]) (use s m'(2) A' in \<open>auto simp: sched_def forget_fd_def\<close>)
qed

lemma thread_cancel_sched:
  assumes s: "sched m A" and l: "A l = xs @ a # ys" "l \<noteq> L_unuse"
  shows "\<exists>m'. thread_cancel a m = Some m' \<and> sched m' (A(l := xs @ ys, L_unuse := A L_unuse @ [a])) \<and> others a m m'"
proof -
  from s have so: "sched_out {} m A" and fo: "fds_ok m A" by (auto simp: sched_def)
  have so1: "sched_out {} (forget_fd l a m) A" using so by simp
  from listed_node [OF so l(1)] obtain t where t: "tm_heap m a = Some t" "typed l t" by auto
  let ?m = "link_out l xs a ys (forget_fd l a m)" and ?f = "\<lambda>t. t\<lparr>th_type := THREAD_UNUSED\<rparr>"
  have node: "tm_heap ?m a = Some (content t)" by (rule link_out_node) (simp add: t(1))
  have "content (?f (content t)) = ?f (content t)" by (simp add: content_id) (simp add: content_def)
  with release_thread [OF link_out_sched [OF so1 l(1)] node, of ?f] l(2) obtain m' where
    m': "do { m \<leftarrow> th_upd a ?f ?m; thread_add_unuse a m } = Some m'" "sched_out {} m' (A(l := xs @ ys, L_unuse := A L_unuse @ [a]))"
      "others a ?m m'" "tm_fds m' = tm_fds ?m" by auto
  have del: "thread_list_delete l a (forget_fd l a m) = Some ?m" by (rule thread_list_delete_exact [OF sched_outD(1) [OF so1] l(1)])
  have "clear_fd S_readfd t m = Some (forget_fd l a m)" if "l = L_read"
    using clear_fd_read [OF so _ t(1)] fo l(1) that by (auto simp: forget_fd_def fds_ok_def)
  then have "thread_cancel a m = Some m'"
    using t l(2) del m'(1) sched_outD(8) [OF so] l(1) by (cases l) (auto simp: thread_cancel_def forget_fd_def)
  moreover have ot: "others a m m'"
    using others_trans [OF relinked_others [OF link_out_relinked] m'(3)] by (simp add: others_def)
  moreover have "fds_ok m' (A(l := xs @ ys, L_unuse := A L_unuse @ [a]))"
    by (rule fds_ok_forget [OF s l(1) ot]) (use m'(4) l(2) in \<open>auto simp: link_out_def\<close>)
  ultimately show ?thesis using m'(2) by (auto simp: sched_def)
qed

lemma thread_cancel_unused:
  "sched m A \<Longrightarrow> a \<in> set (A L_unuse) \<Longrightarrow> thread_cancel a m = Some m"
  using listed_node [of "{}" m A L_unuse] split_list [of a "A L_unuse"] by (fastforce simp: sched_def thread_cancel_def)

end
