(* ===== verification/Lib_Thread_Fetch.thy ===== *)
theory Lib_Thread_Fetch
  imports Lib_Thread_Ops
begin

text \<open>
  Choosing the thread that runs next: moving threads to the ready list, the time to wait
  and the loop of \<open>thread_fetch\<close>.
\<close>

section \<open>Threads that become ready\<close>

definition set_ready :: "('f, 'a) thread \<Rightarrow> ('f, 'a) thread" where
  "set_ready t = t\<lparr>th_type := THREAD_READY\<rparr>"

lemma set_ready_fun: "set_ready = th_type_update (\<lambda>_. THREAD_READY)"
  by (simp add: set_ready_def fun_eq_iff)

lemma content_set_ready [simp]: "content (set_ready t) = set_ready (content t)"
  by (simp add: content_def set_ready_def)

definition made_ready :: "nat set \<Rightarrow> ('f, 'a) thread_master \<Rightarrow> ('f, 'a) thread_master \<Rightarrow> bool" where
  "made_ready S m m' \<longleftrightarrow> (\<forall>x. map_option content (tm_heap m' x) = map_option (\<lambda>t. if x \<in> S then set_ready (content t) else content t) (tm_heap m x))"

lemma made_ready_trans:
  assumes "made_ready S m m'" "made_ready T m' m''"
  shows "made_ready (S \<union> T) m m''"
  unfolding made_ready_def
proof
  fix x
  have "map_option content (tm_heap m'' x) = map_option (\<lambda>t. if x \<in> T then set_ready t else t) (map_option content (tm_heap m' x))"
    using assms(2) by (simp add: made_ready_def option.map_comp comp_def)
  also have "\<dots> = map_option (\<lambda>t. if x \<in> S \<union> T then set_ready (content t) else content t) (tm_heap m x)"
    using assms(1) by (cases "tm_heap m x") (auto simp: made_ready_def set_ready_def)
  finally show "map_option content (tm_heap m'' x) = map_option (\<lambda>t. if x \<in> S \<union> T then set_ready (content t) else content t) (tm_heap m x)" .
qed

lemma made_ready_empty [simp]: "made_ready {} m m"
  by (simp add: made_ready_def)

lemma made_readyD: "made_ready S m m' \<Longrightarrow> tm_heap m x = Some t \<Longrightarrow>
    \<exists>t'. tm_heap m' x = Some t' \<and> content t' = (if x \<in> S then set_ready (content t) else content t)"
proof -
  assume "made_ready S m m'" "tm_heap m x = Some t"
  then have "map_option content (tm_heap m' x) = Some (if x \<in> S then set_ready (content t) else content t)" by (simp add: made_ready_def)
  then show ?thesis by (cases "tm_heap m' x") auto
qed

lemma made_ready_others: "made_ready {a} m m' \<Longrightarrow> others a m m'"
  by (auto simp: made_ready_def others_def cong: map_option_cong)

lemma made_ready_u:
  assumes "made_ready S m m'"
  shows "map_option th_u (tm_heap m' x) = map_option th_u (tm_heap m x)"
proof -
  have "map_option th_u (map_option content (tm_heap m' x)) = map_option th_u (tm_heap m x)"
    using assms by (cases "tm_heap m x") (auto simp: made_ready_def set_ready_def)
  then show ?thesis by (simp add: option.map_comp comp_def)
qed

lemma made_ready_fd: "made_ready S m m' \<Longrightarrow> fd_of m' = fd_of m"
proof
  fix x
  assume "made_ready S m m'"
  from made_ready_u [OF this, of x] show "fd_of m' x = fd_of m x"
    by (cases "tm_heap m x"; cases "tm_heap m' x") (auto simp: fd_of_def)
qed

lemma made_ready_sands: "made_ready S m m' \<Longrightarrow> sands_of m' = sands_of m"
proof
  fix x
  assume "made_ready S m m'"
  from made_ready_u [OF this, of x] show "sands_of m' x = sands_of m x"
    by (cases "tm_heap m x"; cases "tm_heap m' x") (auto simp: sands_of_def)
qed

text \<open>The type of a thread may be written before or after it is linked.\<close>

lemma link_in_type:
  assumes "th_upd a set_ready m = Some m'"
  shows "th_upd a set_ready (link_in l xs a ys m) = Some (link_in l xs a ys m')"
proof -
  from assms have n: "tm_heap m a \<noteq> None" by (auto simp: th_upd_def heap_upd_def bind_eq_Some_conv)
  then have "m' = th_map (\<lambda>x t. if x = a then set_ready t else t) m" using assms by (simp add: th_upd_map)
  moreover have "tm_heap (link_in l xs a ys m) a \<noteq> None" using n by (simp add: link_in_def)
  ultimately show ?thesis
    by (auto simp: th_upd_map link_in_def heap_map_comp fun_eq_iff set_ready_def intro!: master_eqI heap_map_eqI)
qed

lemma move_to_ready:
  assumes s: "sched m A" and l: "A l = xs @ a # ys" "l = L_read \<or> l = L_timer"
  shows "\<exists>m1 m2 m2' m3 t. thread_list_delete l a (forget_fd l a m) = Some m1 \<and> th_upd a set_ready m1 = Some m2
    \<and> thread_list_add L_ready a m2 = Some m3 \<and> thread_list_add L_ready a m1 = Some m2' \<and> th_upd a set_ready m2' = Some m3
    \<and> sched m3 (A(l := xs @ ys, L_ready := A L_ready @ [a])) \<and> made_ready {a} m m3 \<and> tm_heap m3 a = Some t \<and> th_next t = None"
proof -
  from s have so: "sched_out {} (forget_fd l a m) A" by (simp add: sched_def)
  let ?m1 = "link_out l xs a ys (forget_fd l a m)" and ?A = "A(l := xs @ ys)"
  from listed_node [OF so l(1)] obtain t where t: "tm_heap m a = Some t" by auto
  have o1: "sched_out {a} ?m1 ?A" by (rule link_out_sched [OF so l(1)])
  have n1: "tm_heap ?m1 a = Some (content t)" by (rule link_out_node) (simp add: t)
  from th_upd_sched [OF o1 _ n1, of set_ready] obtain m2 where
    m2: "th_upd a set_ready ?m1 = Some m2" "sched_out {a} m2 ?A" "tm_heap m2 = (tm_heap ?m1)(a \<mapsto> set_ready (content t))"
      "tm_fds m2 = tm_fds ?m1" by auto
  let ?m3 = "link_in L_ready (A L_ready) a [] m2" and ?A3 = "?A(L_ready := A L_ready @ [a])"
  have ready: "?A L_ready = A L_ready" using l(2) by auto
  have o3: "sched_out {} ?m3 ?A3"
    using link_in_sched [OF m2(2), of L_ready "A L_ready" "[]" "set_ready (content t)"] m2(3) ready by (simp add: set_ready_def)
  have add: "thread_list_add L_ready a m2 = Some ?m3" "thread_list_add L_ready a ?m1 = Some (link_in L_ready (A L_ready) a [] ?m1)"
    using thread_list_add_exact [OF sched_outD(1) [OF m2(2)], of a L_ready] thread_list_add_exact [OF sched_outD(1) [OF o1], of a L_ready]
      out_not_listed [OF o1] m2(3) n1 ready by auto
  have mr: "made_ready {a} m ?m3"
    using link_in_relinked [of m2 L_ready "A L_ready" a "[]"] link_out_relinked [of "forget_fd l a m" l xs a ys] m2(3) t
    by (auto simp: made_ready_def relinked_def)
  have "fds_ok ?m3 ?A3"
    by (rule fds_ok_forget [OF s l(1) made_ready_others [OF mr]]) (use l(2) m2(4) in \<open>auto simp: link_in_def link_out_def\<close>)
  moreover have "\<exists>t. tm_heap ?m3 a = Some t \<and> th_next t = None" using m2(3) by (auto simp: link_in_def heap_map_def)
  ultimately show ?thesis
    using thread_list_delete_exact [OF sched_outD(1) [OF so] l(1)] m2(1) add link_in_type [OF m2(1)] o3 mr by (auto simp: sched_def)
qed

section \<open>Descriptors and timers\<close>

lemma process_fd_sched:
  "sched m A \<Longrightarrow> A L_read = xs @ ys \<Longrightarrow> \<exists>m'. process_fd_loop L_read fdset S_readfd (first_of ys) n m
      = Some (n + length (filter (\<lambda>x. fd_of m x \<in> fdset) ys), m')
    \<and> sched m' (A(L_read := xs @ filter (\<lambda>x. fd_of m x \<notin> fdset) ys, L_ready := A L_ready @ filter (\<lambda>x. fd_of m x \<in> fdset) ys))
    \<and> made_ready {x \<in> set ys. fd_of m x \<in> fdset} m m'"
proof (induction ys arbitrary: m A xs n)
  case Nil
  then show ?case by (simp add: process_fd_loop.simps fun_upd_idem)
next
  case (Cons a ys)
  from Cons.prems(1) have so: "sched_out {} m A" and fo: "fds_ok m A" by (auto simp: sched_def)
  have a: "a \<in> set (A L_read)" using Cons.prems(2) by simp
  from fd_read [OF so a] obtain t where t: "tm_heap m a = Some t" "th_u t = U_fd (fd_of m a)" "0 \<le> fd_of m a" "fd_of m a < FD_SETSIZE" by auto
  have "linked_by th_prev th_next (tm_heap m) (xs @ a # ys)" using lists_repD(1) [OF sched_outD(1) [OF so], of L_read] Cons.prems(2) by simp
  from linkedD [OF this] t(1) have nx: "th_next t = first_of ys" by auto
  show ?case
  proof (cases "fd_of m a \<in> fdset")
    case False
    have pre: "A L_read = (xs @ [a]) @ ys" using Cons.prems(2) by simp
    from Cons.IH [OF Cons.prems(1) pre, of n] obtain m' where
      "process_fd_loop L_read fdset S_readfd (first_of ys) n m = Some (n + length (filter (\<lambda>x. fd_of m x \<in> fdset) ys), m')"
      "sched m' (A(L_read := (xs @ [a]) @ filter (\<lambda>x. fd_of m x \<notin> fdset) ys, L_ready := A L_ready @ filter (\<lambda>x. fd_of m x \<in> fdset) ys))"
      "made_ready {x \<in> set ys. fd_of m x \<in> fdset} m m'" by blast
    moreover have "{x \<in> set (a # ys). fd_of m x \<in> fdset} = {x \<in> set ys. fd_of m x \<in> fdset}" using False by auto
    ultimately show ?thesis using t nx False by (subst process_fd_loop.simps) (simp add: FD_ISSET_def)
  next
    case True
    from move_to_ready [OF Cons.prems] obtain m1 m2 m3 where m3: "thread_list_delete L_read a (forget_fd L_read a m) = Some m1"
      "thread_list_add L_ready a m1 = Some m2" "th_upd a set_ready m2 = Some m3"
      "sched m3 (A(L_read := xs @ ys, L_ready := A L_ready @ [a]))" "made_ready {a} m m3" by auto
    have cl: "clear_fd S_readfd t m = Some (forget_fd L_read a m)"
      using clear_fd_read [OF so a t(1)] fo a by (auto simp: forget_fd_def fds_ok_def)
    note fd = made_ready_fd [OF m3(5)]
    let ?A = "A(L_read := xs @ ys, L_ready := A L_ready @ [a])"
    have pre: "?A L_read = xs @ ys" by simp
    have upd: "?A(L_read := us, L_ready := ?A L_ready @ vs) = A(L_read := us, L_ready := A L_ready @ a # vs)" for us vs by auto
    from Cons.IH [OF m3(4) pre, of "n + 1", unfolded fd upd] obtain m' where
      m': "process_fd_loop L_read fdset S_readfd (first_of ys) (n + 1) m3 = Some (n + 1 + length (filter (\<lambda>x. fd_of m x \<in> fdset) ys), m')"
      "sched m' (A(L_read := xs @ filter (\<lambda>x. fd_of m x \<notin> fdset) ys, L_ready := A L_ready @ a # filter (\<lambda>x. fd_of m x \<in> fdset) ys))"
      "made_ready {x \<in> set ys. fd_of m x \<in> fdset} m3 m'" by blast
    have "{x \<in> set (a # ys). fd_of m x \<in> fdset} = {a} \<union> {x \<in> set ys. fd_of m x \<in> fdset}" using True by auto
    with made_ready_trans [OF m3(5) m'(3)] t nx True cl m3(1,2,3) m'(1,2) show ?thesis
      by (subst process_fd_loop.simps) (simp add: FD_ISSET_def set_ready_fun)
  qed
qed

text \<open>At most one timer is moved: the first one, when it has expired.\<close>

definition expired :: "timeval \<Rightarrow> ('f, 'a) thread_master \<Rightarrow> queues \<Rightarrow> nat list" where
  "expired now m A = (case A L_timer of [] \<Rightarrow> [] | a # _ \<Rightarrow> if sands_of m a \<le> usecs now then [a] else [])"

lemma timer_process_sched:
  assumes s: "sched m A" and w: "timeval_wf now"
  shows "\<exists>m'. thread_timer_process L_timer now m = Some (length (expired now m A), m')
    \<and> sched m' (A(L_timer := drop (length (expired now m A)) (A L_timer), L_ready := A L_ready @ expired now m A))
    \<and> made_ready (set (expired now m A)) m m'"
proof (cases "A L_timer")
  case Nil
  with s show ?thesis using lists_repD(3) [of m A L_timer]
    by (simp add: thread_timer_process_def timer_process_loop.simps expired_def sched_def sched_out_def fun_upd_idem)
next
  case (Cons a ys)
  from s have so: "sched_out {} m A" by (simp add: sched_def)
  have hd: "tl_head (tm_list m L_timer) = Some a" using lists_repD(3) [OF sched_outD(1) [OF so], of L_timer] Cons by simp
  from timer_node [OF so, of a L_timer] Cons obtain t s where
    t: "tm_heap m a = Some t" "th_u t = U_sands s" "timeval_wf s" "sands_of m a = usecs s" by auto
  note cmp = timeval_cmp_usecs(2) [OF w t(3)]
  show ?thesis
  proof (cases "usecs s \<le> usecs now")
    case False
    then show ?thesis using s t cmp Cons
      by (simp add: thread_timer_process_def hd timer_process_loop.simps expired_def fun_upd_idem)
  next
    case True
    have ex: "expired now m A = [a]" using True t(4) Cons by (simp add: expired_def)
    have "A L_timer = [] @ a # ys" using Cons by simp
    from move_to_ready [OF s this] obtain m1 m2 m3 t3 where m3: "thread_list_delete L_timer a m = Some m1"
      "th_upd a set_ready m1 = Some m2" "thread_list_add L_ready a m2 = Some m3"
      "sched m3 (A(L_timer := ys, L_ready := A L_ready @ [a]))" "made_ready {a} m m3" "tm_heap m3 a = Some t3" "th_next t3 = None"
      by (auto simp: forget_fd_def)
    have "timer_process_loop L_timer now (Some a) 0 m = Some (1, m3)"
      using t cmp True m3(1,2,3,6,7)
      by (subst timer_process_loop.simps) (simp add: set_ready_fun timer_process_loop.simps [of _ _ None])
    with m3(4,5) Cons show ?thesis by (simp add: thread_timer_process_def hd ex)
  qed
qed

section \<open>The time to wait\<close>

lemma timer_wait_exact:
  assumes so: "sched_out {} m A" and l: "l = L_timer \<or> l = L_background"
  shows "thread_timer_wait l now m = Some (map_option (\<lambda>a. timeval_of (max 0 (sands_of m a - usecs now))) (first_of (A l)))"
proof (cases "A l")
  case Nil
  with lists_repD(3) [OF sched_outD(1) [OF so], of l] show ?thesis by (simp add: thread_timer_wait_def)
next
  case (Cons a ys)
  from timer_node [OF so, of a l] l Cons obtain t s where t: "tm_heap m a = Some t" "th_u t = U_sands s" "sands_of m a = usecs s" by auto
  have "timeval_subtract s now = timeval_of (max 0 (usecs s - usecs now))"
    by (simp add: timeval_subtract_def timeval_adjust_max) (simp add: usecs_def algebra_simps)
  with t Cons lists_repD(3) [OF sched_outD(1) [OF so], of l] show ?thesis by (simp add: thread_timer_wait_def)
qed

definition first_expiry :: "('f, 'a) thread_master \<Rightarrow> queues \<Rightarrow> int option" where
  "first_expiry m A = (if A L_timer @ A L_background = [] then None
     else Some (Min (sands_of m ` set (A L_timer @ A L_background))))"

lemma sorted_Min: "sorted (map f (a # xs)) \<Longrightarrow> Min (f ` set (a # xs)) = f a"
  by (rule Min_eqI) auto

lemma wait_time_exact:
  assumes s: "sched m A"
  shows "wait_time now m = Some (map_option (\<lambda>u. timeval_of (max 0 (u - usecs now))) (first_expiry m A))"
proof -
  from s have so: "sched_out {} m A" by (simp add: sched_def)
  note W = timer_wait_exact [OF so, of L_timer now] timer_wait_exact [OF so, of L_background now]
  note S = sched_outD(6,7) [OF so]
  show ?thesis
  proof (cases "A L_timer")
    case Nil
    have "Min (sands_of m ` set (A L_background)) = sands_of m b" if "A L_background = b # ys" for b ys using S(2) sorted_Min that by metis
    then show ?thesis using W Nil by (cases "A L_background") (auto simp: wait_time_def first_expiry_def)
  next
    case (Cons a xs)
    then have ma: "Min (sands_of m ` set (A L_timer)) = sands_of m a" using S(1) sorted_Min by metis
    show ?thesis
    proof (cases "A L_background")
      case Nil
      then show ?thesis using W Cons ma by (simp add: wait_time_def first_expiry_def)
    next
      case b: (Cons b ys)
      then have mb: "Min (sands_of m ` set (A L_background)) = sands_of m b" using S(2) sorted_Min by metis
      have "Min (sands_of m ` set (A L_timer @ A L_background)) = min (sands_of m a) (sands_of m b)"
        unfolding set_append image_Un by (subst Min_Un) (simp_all only: ma mb, simp_all add: Cons b)
      moreover have "timeval_cmp (timeval_of x) (timeval_of y) > 0 \<longleftrightarrow> x > y" for x y
        using timeval_cmp_usecs(1) [of "timeval_of x" "timeval_of y"] by (simp add: not_le [symmetric])
      ultimately show ?thesis using W Cons b by (auto simp: wait_time_def first_expiry_def min_def max_def)
    qed
  qed
qed

section \<open>One turn of the loop\<close>

definition selected :: "int \<times> (fdsel \<Rightarrow> int set) \<Rightarrow> ('f, 'a) thread_master \<Rightarrow> queues \<Rightarrow> nat list" where
  "selected r m A = (if fst r > 0 then filter (\<lambda>x. fd_of m x \<in> snd r S_readfd) (A L_read) else [])"

text \<open>The answer of \<open>select\<close> to the master.\<close>

definition answer :: "poll \<Rightarrow> ('f, 'a) thread_master \<Rightarrow> queues \<Rightarrow> int \<times> (fdsel \<Rightarrow> int set)" where
  "answer p m A = po_select p (tm_fds m) (map_option (\<lambda>u. timeval_of (max 0 (u - usecs (po_before p)))) (first_expiry m A))"

text \<open>The threads that one turn makes ready: an expired timer, then the descriptors.\<close>

definition woken :: "poll \<Rightarrow> ('f, 'a) thread_master \<Rightarrow> queues \<Rightarrow> nat list" where
  "woken p m A = expired (po_after p) m A @ selected (answer p m A) m A"

lemma fetch_wait_sched:
  assumes s: "sched m A" and w: "timeval_wf (po_after p)"
  shows "\<exists>m'. fetch_wait p m = Some m'
    \<and> sched m' (A(L_timer := drop (length (expired (po_after p) m A)) (A L_timer),
         L_read := filter (\<lambda>x. x \<notin> set (selected (answer p m A) m A)) (A L_read), L_ready := A L_ready @ woken p m A))
    \<and> made_ready (set (woken p m A)) m m'"
proof -
  let ?ex = "expired (po_after p) m A" and ?se = "selected (answer p m A) m A"
  obtain num fds where r: "answer p m A = (num, fds)" by fastforce
  from timer_process_sched [OF s w] obtain m1 where
    m1: "thread_timer_process L_timer (po_after p) m = Some (length ?ex, m1)"
      "sched m1 (A(L_timer := drop (length ?ex) (A L_timer), L_ready := A L_ready @ ?ex))" "made_ready (set ?ex) m m1" by blast
  let ?A1 = "A(L_timer := drop (length ?ex) (A L_timer), L_ready := A L_ready @ ?ex)"
  have wt: "wait_time (po_before p) m = Some (map_option (\<lambda>u. timeval_of (max 0 (u - usecs (po_before p)))) (first_expiry m A))"
    by (rule wait_time_exact [OF s])
  show ?thesis
  proof (cases "num > 0")
    case False
    have "?A1 = A(L_timer := drop (length ?ex) (A L_timer), L_read := A L_read, L_ready := A L_ready @ ?ex)" by auto
    with False r m1 wt show ?thesis by (simp add: fetch_wait_def answer_def selected_def woken_def)
  next
    case True
    let ?A2 = "A(L_timer := drop (length ?ex) (A L_timer), L_read := filter (\<lambda>x. fd_of m x \<notin> fds S_readfd) (A L_read), L_ready := A L_ready @ ?ex @ ?se)"
    have se: "?se = filter (\<lambda>x. fd_of m x \<in> fds S_readfd) (A L_read)" using True r by (simp add: selected_def)
    have upd: "?A1(L_read := us, L_ready := ?A1 L_ready @ vs) = A(L_timer := drop (length ?ex) (A L_timer), L_read := us, L_ready := A L_ready @ ?ex @ vs)" for us vs
      by auto
    have pre: "?A1 L_read = [] @ A L_read" by simp
    from process_fd_sched [OF m1(2) pre, of "fds S_readfd" 0, unfolded made_ready_fd [OF m1(3)] upd] obtain n m2 where
      m2: "process_fd_loop L_read (fds S_readfd) S_readfd (first_of (A L_read)) 0 m1 = Some (n, m2)" "sched m2 ?A2"
        "made_ready {x \<in> set (A L_read). fd_of m x \<in> fds S_readfd} m1 m2" by (auto simp: se)
    have L: "lists_rep m1 ?A1" "lists_rep m2 ?A2" "A L_write = []" using m1(2) m2(2) s by (auto simp: sched_def sched_out_def)
    have w0: "thread_process_fd L_write (fds S_writefd) S_readfd m2 = Some (0, m2)"
      using lists_repD(3) [OF L(2), of L_write] L(3) by (simp add: thread_process_fd_def process_fd_loop.simps)
    have r0: "thread_process_fd L_read (fds S_readfd) S_readfd m1 = Some (n, m2)"
      using lists_repD(3) [OF L(1), of L_read] m2(1) by (simp add: thread_process_fd_def)
    have "fetch_wait p m = Some m2" using True r m1(1) wt w0 r0 by (simp add: fetch_wait_def answer_def)
    moreover have "filter (\<lambda>x. x \<notin> set ?se) (A L_read) = filter (\<lambda>x. fd_of m x \<notin> fds S_readfd) (A L_read)" by (auto simp: se intro: filter_cong)
    moreover have "made_ready (set (woken p m A)) m m2" using made_ready_trans [OF m1(3) m2(3)] by (simp add: woken_def se)
    ultimately show ?thesis using m2(2) by (simp add: woken_def)
  qed
qed

section \<open>The loop\<close>

text \<open>With an event or a ready thread, the first one runs at once; events come first.\<close>

lemma listed_heap: "sched m A \<Longrightarrow> a \<in> set (A l) \<Longrightarrow> \<exists>t. tm_heap m a = Some t"
  using lists_repD(7) [of m A a l] by (auto simp: sched_def sched_out_def)

lemma trim_empty: "sched m A \<Longrightarrow> A l = [] \<Longrightarrow> thread_trim_head l m = Some (None, m)"
  using lists_repD(3) [of m A l] by (auto simp: sched_def sched_out_def thread_trim_head_def thread_empty_def)

lemma fetch_event:
  assumes s: "sched m A" and a: "A L_event = a # ys" "tm_heap m a = Some t"
  shows "\<exists>m'. thread_fetch ps m = Some (Some (content t), m') \<and> sched m' (A(L_event := ys, L_unuse := A L_unuse @ [a])) \<and> others a m m'"
  using run_head_sched [OF s _ a(1,2)] by (subst thread_fetch.simps) auto

lemma fetch_ready:
  assumes s: "sched m A" and e: "A L_event = []" and a: "A L_ready = a # ys" "tm_heap m a = Some t"
  shows "\<exists>m'. thread_fetch ps m = Some (Some (content t), m') \<and> sched m' (A(L_ready := ys, L_unuse := A L_unuse @ [a])) \<and> others a m m'"
  using run_head_sched [OF s _ a(1,2)] trim_empty [OF s e] by (subst thread_fetch.simps) auto

lemma fetch_turn:
  assumes s: "sched m A" and e: "A L_event = []" "A L_ready = []"
  shows "thread_fetch [] m = Some (None, m)"
    "thread_fetch (p # ps) m = do {
       m \<leftarrow> fetch_wait p m;
       (ready, m) \<leftarrow> thread_trim_head L_ready m;
       (case ready of Some a \<Rightarrow> do { (fetch, m) \<leftarrow> thread_run a m; Some (Some fetch, m) } | None \<Rightarrow> thread_fetch ps m) }"
  using trim_empty [OF s e(1)] trim_empty [OF s e(2)] by (subst thread_fetch.simps, simp)+

lemma fetch_woken:
  assumes s: "sched m A" and e: "A L_event = []" "A L_ready = []" and w: "timeval_wf (po_after p)"
    and k: "woken p m A = a # ys" and t: "tm_heap m a = Some t"
  shows "\<exists>m'. thread_fetch (p # ps) m = Some (Some (set_ready (content t)), m')
    \<and> sched m' (A(L_timer := drop (length (expired (po_after p) m A)) (A L_timer),
         L_read := filter (\<lambda>x. x \<notin> set (selected (answer p m A) m A)) (A L_read), L_ready := ys, L_unuse := A L_unuse @ [a]))"
proof -
  let ?B = "\<lambda>r. A(L_timer := drop (length (expired (po_after p) m A)) (A L_timer),
      L_read := filter (\<lambda>x. x \<notin> set (selected (answer p m A) m A)) (A L_read), L_ready := r)"
  from fetch_wait_sched [OF s w] e k obtain m1 where
    m1: "fetch_wait p m = Some m1" "sched m1 (?B (a # ys))" "made_ready (set (a # ys)) m m1" by auto
  from made_readyD [OF m1(3) t] obtain t1 where t1: "tm_heap m1 a = Some t1" "content t1 = set_ready (content t)" by auto
  have "?B (a # ys) L_ready = a # ys" "?B (a # ys) L_unuse = A L_unuse" by simp_all
  from run_head_sched [of m1 "?B (a # ys)" L_ready a ys t1, OF m1(2) _ this(1) t1(1), unfolded this(2)] obtain m2 m3 where
    m3: "thread_trim_head L_ready m1 = Some (Some a, m2)" "thread_run a m2 = Some (content t1, m3)"
      "sched m3 ((?B (a # ys))(L_ready := ys, L_unuse := A L_unuse @ [a]))" by blast
  have "(?B (a # ys))(L_ready := ys, L_unuse := A L_unuse @ [a]) = (?B ys)(L_unuse := A L_unuse @ [a])" by auto
  with m3(3) have "sched m3 ((?B ys)(L_unuse := A L_unuse @ [a]))" by simp
  with m1(1) m3(1,2) t1(2) show ?thesis by (simp add: fetch_turn(2) [OF s e])
qed

lemma fetch_idle:
  assumes s: "sched m A" and e: "A L_event = []" "A L_ready = []" and w: "timeval_wf (po_after p)" and k: "woken p m A = []"
  shows "\<exists>m'. fetch_wait p m = Some m' \<and> thread_fetch (p # ps) m = thread_fetch ps m' \<and> sched m' A \<and> made_ready {} m m'"
proof -
  have "expired (po_after p) m A = []" "selected (answer p m A) m A = []" using k by (auto simp: woken_def)
  with fetch_wait_sched [OF s w] e k obtain m1 where m1: "fetch_wait p m = Some m1" "sched m1 A" "made_ready {} m m1"
    by (auto simp: fun_upd_idem)
  have "thread_fetch (p # ps) m = thread_fetch ps m1" using m1(1) trim_empty [OF m1(2) e(2)] by (simp add: fetch_turn(2) [OF s e])
  then show ?thesis using m1 by blast
qed

text \<open>The loop never fails, whatever the answers of the system are.\<close>

lemma fetch_now:
  assumes s: "sched m A" and e: "A L_event @ A L_ready \<noteq> []"
  shows "\<exists>r m' A'. thread_fetch ps m = Some (r, m') \<and> sched m' A'"
proof (cases "A L_event")
  case (Cons a ys)
  with listed_heap [OF s, of a L_event] obtain t where "tm_heap m a = Some t" by auto
  from fetch_event [OF s Cons this, of ps] show ?thesis by blast
next
  case Nil
  with e obtain a ys where r: "A L_ready = a # ys" by (cases "A L_ready") auto
  with listed_heap [OF s, of a L_ready] obtain t where "tm_heap m a = Some t" by auto
  from fetch_ready [OF s Nil r this, of ps] show ?thesis by blast
qed

lemma woken_listed: "a \<in> set (woken p m A) \<Longrightarrow> a \<in> set (A L_timer) \<or> a \<in> set (A L_read)"
  by (cases "A L_timer") (auto simp: woken_def expired_def selected_def split: if_splits)

lemma thread_fetch_sched:
  "sched m A \<Longrightarrow> \<forall>p\<in>set ps. timeval_wf (po_after p) \<Longrightarrow> \<exists>r m' A'. thread_fetch ps m = Some (r, m') \<and> sched m' A'"
proof (induction ps arbitrary: m)
  case Nil
  then show ?case using fetch_now [OF Nil(1)] fetch_turn(1) [OF Nil(1)] by (cases "A L_event @ A L_ready = []") auto
next
  case (Cons p ps)
  note s = Cons.prems(1) and IH = Cons.IH and w = Cons.prems(2)
  show ?case
  proof (cases "A L_event @ A L_ready = []")
    case False
    then show ?thesis by (rule fetch_now [OF s])
  next
    case e: True
    show ?thesis
    proof (cases "woken p m A")
      case Nil
      from fetch_idle [OF s _ _ _ Nil, of ps] e w obtain m' where "thread_fetch (p # ps) m = thread_fetch ps m'" "sched m' A" by auto
      with IH w show ?thesis by simp
    next
      case (Cons a ys)
      with woken_listed [of a p m A] listed_heap [OF s, of a] obtain t where "tm_heap m a = Some t" by auto
      with fetch_woken [OF s _ _ _ Cons, of t ps] e w show ?thesis by auto
    qed
  qed
qed

end
