(* ===== verification/Lib_Thread_Props.thy ===== *)
theory Lib_Thread_Props
  imports Lib_Thread_Fetch
begin

text \<open>
  The properties of the scheduler: no operation misuses memory or loses a thread, events
  run in the order they were added, and an expired timer runs.
\<close>

section \<open>Reachable schedulers\<close>

inductive scheduler :: "('f, 'a) thread_master \<Rightarrow> bool" where
  create: "scheduler thread_master_create"
| add_read: "scheduler m \<Longrightarrow> thread_add_read func arg fd name m = Some (r, m') \<Longrightarrow> scheduler m'"
| add_timer: "scheduler m \<Longrightarrow> thread_add_timer_timeval now func type arg rel name m = Some (a, m') \<Longrightarrow> scheduler m'"
| add_event: "scheduler m \<Longrightarrow> thread_add_event func arg val name m = Some (a, m') \<Longrightarrow> scheduler m'"
| cancel: "scheduler m \<Longrightarrow> thread_cancel a m = Some m' \<Longrightarrow> scheduler m'"
| fetch: "scheduler m \<Longrightarrow> \<forall>p\<in>set ps. timeval_wf (po_after p) \<Longrightarrow> thread_fetch ps m = Some (r, m') \<Longrightarrow> scheduler m'"

lemma thread_get_name: "thread_get type func arg funcname m = Some r \<Longrightarrow> \<exists>name. strip_funcname funcname = Some name"
  by (auto simp: thread_get_def bind_eq_Some_conv)

lemma thread_cancel_total: "sched m A \<Longrightarrow> a < tm_brk m \<Longrightarrow> \<exists>m' A'. thread_cancel a m = Some m' \<and> sched m' A'"
proof -
  assume s: "sched m A" and a: "a < tm_brk m"
  with sched_outD(4) [of "{}" m A a] obtain l where l: "a \<in> set (A l)" by (auto simp: sched_def)
  then obtain xs ys where "A l = xs @ a # ys" by (meson split_list)
  with thread_cancel_sched [OF s this] thread_cancel_unused [OF s] s l show ?thesis by (cases "l = L_unuse") auto
qed

lemma thread_cancel_known: "thread_cancel a m = Some m' \<Longrightarrow> sched m A \<Longrightarrow> a < tm_brk m"
  using sched_outD(2) [of "{}" m A a] by (auto simp: thread_cancel_def sched_def bind_eq_Some_conv)

lemma scheduler_sched: "scheduler m \<Longrightarrow> \<exists>A. sched m A"
proof (induction rule: scheduler.induct)
  case create
  then show ?case using sched_create by blast
next
  case (add_read m func arg fd name r m')
  then obtain A where s: "sched m A" by blast
  from add_read.hyps have fd: "0 \<le> fd" "fd < FD_SETSIZE" by (auto simp: thread_add_read_def FD_ISSET_def split: if_splits)
  show ?case
  proof (cases "fd \<in> tm_fds m S_readfd")
    case True
    with thread_add_read_twice [OF fd True] add_read.hyps s show ?thesis by auto
  next
    case False
    with add_read.hyps fd obtain n where "strip_funcname name = Some n"
      by (auto simp: thread_add_read_def FD_ISSET_def bind_eq_Some_conv dest: thread_get_name)
    from thread_add_read_sched [OF s this fd False, of func arg] add_read.hyps show ?thesis by auto
  qed
next
  case (add_timer m now func type arg rel name a m')
  then obtain A where s: "sched m A" by blast
  from add_timer.hyps have ty: "type = THREAD_TIMER \<or> type = THREAD_BACKGROUND"
    by (auto simp: thread_add_timer_timeval_def split: if_splits)
  with add_timer.hyps obtain n where "strip_funcname name = Some n"
    by (auto simp: thread_add_timer_timeval_def bind_eq_Some_conv dest: thread_get_name)
  from thread_add_timer_sched [OF s this ty, of now func arg rel] add_timer.hyps show ?case by auto
next
  case (add_event m func arg val name a m')
  then obtain A where s: "sched m A" by blast
  from add_event.hyps obtain n where "strip_funcname name = Some n"
    by (auto simp: thread_add_event_def bind_eq_Some_conv dest: thread_get_name)
  from thread_add_event_sched [OF s this, of func arg val] add_event.hyps show ?case by auto
next
  case (cancel m a m')
  then show ?case using thread_cancel_total thread_cancel_known by fastforce
next
  case (fetch m ps r m')
  then show ?case using thread_fetch_sched by fastforce
qed

lemma one_list:
  assumes "sched m A" "a < tm_brk m"
  shows "\<exists>!l. a \<in> set (A l)"
  using assms sched_outD(4) [of "{}" m A a] lists_repD(6) [OF sched_outD(1), of "{}" m A _ _ a] by (metis empty_iff sched_def)

text \<open>
  C26. Whatever sequence of operations a scheduler has been through, its lists are linked
  and counted correctly, hold every thread that was allocated exactly once, on the list of
  its type, with the timers in the order of expiry and the descriptors of the waiting
  threads in the set for \<open>select\<close>. No operation can then fail: every thread can be
  cancelled, and the loop of \<open>thread_fetch\<close> runs without misusing memory whatever
  \<open>select\<close> answers.
\<close>

theorem scheduler_invariant:
  assumes "scheduler m"
  shows "(\<exists>A. sched m A \<and> (\<forall>a < tm_brk m. \<exists>!l. a \<in> set (A l))) \<and> (\<forall>a < tm_brk m. thread_cancel a m \<noteq> None)
    \<and> (\<forall>ps. (\<forall>p\<in>set ps. timeval_wf (po_after p)) \<longrightarrow> thread_fetch ps m \<noteq> None)"
proof -
  from scheduler_sched [OF assms] obtain A where s: "sched m A" by blast
  have "thread_cancel a m \<noteq> None" if "a < tm_brk m" for a using thread_cancel_total [OF s that] by auto
  moreover have "thread_fetch ps m \<noteq> None" if "\<forall>p\<in>set ps. timeval_wf (po_after p)" for ps using thread_fetch_sched [OF s that] by auto
  ultimately show ?thesis using s one_list [OF s] by blast
qed

lemma defined_pair: "\<not> Option.is_none f \<Longrightarrow> f = Some (fst (the f), snd (the f))"
  by (auto simp: Option.is_none_def)

definition example_master :: "(nat, nat) thread_master" where
  "example_master = snd (the (thread_add_event 7 1 5 ''(run)'' (snd (the
     (thread_add_timer \<lparr>tv_sec = 10, tv_usec = 0\<rparr> 8 2 5 ''tick'' (snd (the (thread_add_event 9 3 6 ''stop'' thread_master_create))))))))"

theorem scheduler_invariant_witness:
  "thread_fetch [\<lparr>po_before = timeval_zero, po_select = (\<lambda>fds w. (0, \<lambda>_. {})), po_after = timeval_zero\<rparr>] example_master \<noteq> None"
proof -
  let ?m1 = "snd (the (thread_add_event (9 :: nat) (3 :: nat) 6 ''stop'' thread_master_create))"
  let ?m2 = "snd (the (thread_add_timer_timeval \<lparr>tv_sec = 10, tv_usec = 0\<rparr> 8 THREAD_TIMER 2 \<lparr>tv_sec = 5, tv_usec = 0\<rparr> ''tick'' ?m1))"
  have m1: "scheduler ?m1" by (rule scheduler.add_event [OF scheduler.create defined_pair]) code_simp
  have m2: "scheduler ?m2" by (rule scheduler.add_timer [OF m1 defined_pair]) code_simp
  have "scheduler example_master" unfolding example_master_def thread_add_timer_def
    by (rule scheduler.add_event [OF m2 defined_pair]) code_simp
  moreover have "timeval_wf timeval_zero" by (simp add: timeval_wf_def timeval_zero_def TIMER_SECOND_MICRO_def)
  ultimately show ?thesis using scheduler_invariant [of example_master] by simp
qed

section \<open>Events run in order\<close>

text \<open>A queue: what is added at the end is fetched once everything before it was.\<close>

fun feed :: "('e \<Rightarrow> 's \<Rightarrow> 's option) \<Rightarrow> 'e list \<Rightarrow> 's \<Rightarrow> 's option" where
  "feed add [] s = Some s" |
  "feed add (e # es) s = do { s \<leftarrow> add e s; feed add es s }"

fun drain :: "('s \<Rightarrow> ('v \<times> 's) option) \<Rightarrow> nat \<Rightarrow> 's \<Rightarrow> ('v list \<times> 's) option" where
  "drain get 0 s = Some ([], s)" |
  "drain get (Suc n) s = do { (v, s) \<leftarrow> get s; (vs, s) \<leftarrow> drain get n s; Some (v # vs, s) }"

locale fifo =
  fixes rep :: "'s \<Rightarrow> 'v list \<Rightarrow> bool" and add :: "'e \<Rightarrow> 's \<Rightarrow> 's option" and get :: "'s \<Rightarrow> ('v \<times> 's) option"
    and ok :: "'e \<Rightarrow> bool" and view :: "'e \<Rightarrow> 'v"
  assumes add_rep: "rep s q \<Longrightarrow> ok e \<Longrightarrow> \<exists>s'. add e s = Some s' \<and> rep s' (q @ [view e])"
    and get_rep: "rep s (v # q) \<Longrightarrow> \<exists>s'. get s = Some (v, s') \<and> rep s' q"
begin

lemma feed_rep: "rep s q \<Longrightarrow> \<forall>e\<in>set es. ok e \<Longrightarrow> \<exists>s'. feed add es s = Some s' \<and> rep s' (q @ map view es)"
proof (induction es arbitrary: s q)
  case (Cons e es)
  from add_rep [OF Cons.prems(1), of e] Cons.prems(2) obtain s1 where s1: "add e s = Some s1" "rep s1 (q @ [view e])" by auto
  from Cons.IH [OF s1(2)] Cons.prems(2) show ?case by (simp add: s1(1))
qed simp

lemma drain_rep: "rep s (vs @ q) \<Longrightarrow> \<exists>s'. drain get (length vs) s = Some (vs, s') \<and> rep s' q"
proof (induction vs arbitrary: s)
  case (Cons v vs)
  from get_rep [of s v "vs @ q"] Cons.prems obtain s1 where s1: "get s = Some (v, s1)" "rep s1 (vs @ q)" by auto
  from Cons.IH [OF s1(2)] show ?case by (auto simp: s1(1))
qed simp

lemma in_order:
  assumes "rep s q" "\<forall>e\<in>set es. ok e"
  shows "\<exists>s'. do { s \<leftarrow> feed add es s; drain get (length q + length es) s } = Some (q @ map view es, s') \<and> rep s' []"
proof -
  from feed_rep [OF assms] obtain s1 where s1: "feed add es s = Some s1" "rep s1 ((q @ map view es) @ [])" by auto
  from drain_rep [OF s1(2)] show ?thesis by (simp add: s1(1))
qed

end

text \<open>The events of a scheduler, and adding and fetching them.\<close>

record ('f, 'a) event =
  ev_func :: 'f
  ev_arg :: 'a
  ev_val :: int
  ev_name :: string

definition events_rep :: "('f, 'a) thread_master \<Rightarrow> ('f, 'a) thread list \<Rightarrow> bool" where
  "events_rep m q \<longleftrightarrow> (\<exists>A. sched m A \<and> map (\<lambda>a. map_option content (tm_heap m a)) (A L_event) = map Some q)"

definition add_one :: "('f, 'a) event \<Rightarrow> ('f, 'a) thread_master \<Rightarrow> ('f, 'a) thread_master option" where
  "add_one e m = map_option snd (thread_add_event (ev_func e) (ev_arg e) (ev_val e) (ev_name e) m)"

definition fetch_one :: "('f, 'a) thread_master \<Rightarrow> (('f, 'a) thread \<times> ('f, 'a) thread_master) option" where
  "fetch_one m = do { (r, m) \<leftarrow> thread_fetch [] m; t \<leftarrow> r; Some (t, m) }"

definition named :: "('f, 'a) event \<Rightarrow> bool" where
  "named e \<longleftrightarrow> strip_funcname (ev_name e) \<noteq> None"

definition thread_of :: "('f, 'a) event \<Rightarrow> ('f, 'a) thread" where
  "thread_of e = fresh_thread THREAD_EVENT (ev_func e) (ev_arg e) (U_val (ev_val e)) (the (strip_funcname (ev_name e)))"

lemma free_not_event: "sched m A \<Longrightarrow> next_free m A \<notin> set (A L_event)"
  using sched_outD(4) [of "{}" m A "tm_brk m"] lists_repD(6) [OF sched_outD(1), of "{}" m A L_unuse L_event]
  by (auto simp: sched_def next_free_def split: list.splits)

lemma others_map:
  "others a m m' \<Longrightarrow> a \<notin> set xs \<Longrightarrow> map (\<lambda>a. map_option content (tm_heap m' a)) xs = map (\<lambda>a. map_option content (tm_heap m a)) xs"
  by (intro map_cong refl) (metis others_def)

lemma add_one_rep:
  assumes "events_rep m q" "named e"
  shows "\<exists>m'. add_one e m = Some m' \<and> events_rep m' (q @ [thread_of e])"
proof -
  from assms obtain A n where A: "sched m A" "map (\<lambda>a. map_option content (tm_heap m a)) (A L_event) = map Some q"
    and n: "strip_funcname (ev_name e) = Some n" by (auto simp: events_rep_def named_def)
  from thread_add_event_sched [OF A(1) n, of "ev_func e" "ev_arg e" "ev_val e"] obtain m' where
    m': "thread_add_event (ev_func e) (ev_arg e) (ev_val e) (ev_name e) m = Some (next_free m A, m')"
      "sched m' (A(L_unuse := tl (A L_unuse), L_event := A L_event @ [next_free m A]))" "others (next_free m A) m m'"
      "map_option content (tm_heap m' (next_free m A)) = Some (thread_of e)" by (auto simp: thread_of_def n)
  have "map (\<lambda>a. map_option content (tm_heap m' a)) (A L_event) = map (\<lambda>a. map_option content (tm_heap m a)) (A L_event)"
    by (rule others_map [OF m'(3) free_not_event [OF A(1)]])
  with A(2) m' show ?thesis by (auto simp: add_one_def events_rep_def intro!: exI [of _ "A(L_unuse := tl (A L_unuse), L_event := A L_event @ [next_free m A])"])
qed

lemma fetch_one_rep:
  assumes "events_rep m (v # q)"
  shows "\<exists>m'. fetch_one m = Some (v, m') \<and> events_rep m' q"
proof -
  from assms obtain A where A: "sched m A" "map (\<lambda>a. map_option content (tm_heap m a)) (A L_event) = Some v # map Some q"
    by (auto simp: events_rep_def)
  then obtain a ys t where a: "A L_event = a # ys" "tm_heap m a = Some t" "content t = v"
    "map (\<lambda>a. map_option content (tm_heap m a)) ys = map Some q" by (auto simp: map_eq_Cons_conv)
  from fetch_event [OF A(1) a(1,2), of "[]"] obtain m' where m': "thread_fetch [] m = Some (Some v, m')"
    "sched m' (A(L_event := ys, L_unuse := A L_unuse @ [a]))" "others a m m'" by (auto simp: a(3))
  have "a \<notin> set ys" using lists_repD(2) [of m A L_event] A(1) a(1) by (auto simp: sched_def sched_out_def)
  then have "map (\<lambda>a. map_option content (tm_heap m' a)) ys = map (\<lambda>a. map_option content (tm_heap m a)) ys"
    by (rule others_map [OF m'(3)])
  with a(4) m' show ?thesis by (auto simp: fetch_one_def events_rep_def intro!: exI [of _ "A(L_event := ys, L_unuse := A L_unuse @ [a])"])
qed

interpretation ev: fifo events_rep add_one fetch_one named thread_of
  by unfold_locales (simp_all add: add_one_rep fetch_one_rep)

text \<open>
  C27. Events run in the order in which they were added: when the events of a scheduler are
  those of \<open>q\<close> and the events \<open>es\<close> are added, the next fetches return the threads of \<open>q\<close>
  and then those of \<open>es\<close>, each with its function, argument and value, before anything else.
\<close>

theorem events_in_order:
  assumes "events_rep m q" "\<forall>e\<in>set es. named e"
  shows "\<exists>m'. do { m \<leftarrow> feed add_one es m; drain fetch_one (length q + length es) m } = Some (q @ map thread_of es, m') \<and> events_rep m' []"
  using assms by (rule ev.in_order)

theorem events_in_order_witness:
  "\<exists>m'. do { m \<leftarrow> feed add_one [\<lparr>ev_func = 1, ev_arg = 2, ev_val = 3, ev_name = ''hello''\<rparr>, \<lparr>ev_func = 4, ev_arg = 5, ev_val = 6, ev_name = ''(down)''\<rparr>] thread_master_create;
       drain fetch_one 2 m }
     = Some ([fresh_thread THREAD_EVENT (1 :: nat) (2 :: nat) (U_val 3) ''hello'', fresh_thread THREAD_EVENT 4 5 (U_val 6) ''down''], m')"
proof -
  have r: "events_rep (thread_master_create :: (nat, nat) thread_master) []"
    unfolding events_rep_def using sched_create by fastforce
  let ?es = "[\<lparr>ev_func = 1, ev_arg = 2, ev_val = 3, ev_name = ''hello''\<rparr>, \<lparr>ev_func = 4, ev_arg = 5, ev_val = 6, ev_name = ''(down)''\<rparr>] :: (nat, nat) event list"
  have n: "\<forall>e\<in>set ?es. named e" by code_simp
  have s: "strip_funcname ''hello'' = Some ''hello''" "strip_funcname ''(down)'' = Some ''down''" by code_simp+
  from events_in_order [OF r n] show ?thesis by (auto simp: thread_of_def s numeral_2_eq_2)
qed

section \<open>Timers run\<close>

text \<open>
  C28. When nothing else is to be done, \<open>select\<close> is asked to wait exactly until the first
  timer expires, and once the clock has reached that time the turn of the loop returns the
  timer, whatever \<open>select\<close> reports.
\<close>

theorem expired_timer_runs:
  assumes "sched m A" "A L_event = []" "A L_ready = []" "A L_timer = a # ys" "tm_heap m a = Some t"
    "timeval_wf (po_after p)" "sands_of m a \<le> usecs (po_after p)"
  shows "(A L_background = [] \<longrightarrow> wait_time (po_before p) m = Some (Some (timeval_of (max 0 (sands_of m a - usecs (po_before p))))))
    \<and> (\<exists>m' A'. thread_fetch (p # ps) m = Some (Some (set_ready (content t)), m') \<and> sched m' A' \<and> A' L_timer = ys)"
proof
  have "sorted (map (sands_of m) (a # ys))" using sched_outD(6) [of "{}" m A] assms(1,4) by (simp add: sched_def)
  then have "Min (sands_of m ` set (a # ys)) = sands_of m a" by (rule sorted_Min)
  then show "A L_background = [] \<longrightarrow> wait_time (po_before p) m = Some (Some (timeval_of (max 0 (sands_of m a - usecs (po_before p)))))"
    using wait_time_exact [OF assms(1), of "po_before p"] assms(4) by (simp add: first_expiry_def)
next
  have e: "expired (po_after p) m A = [a]" using assms(4,7) by (simp add: expired_def)
  from fetch_woken [OF assms(1-3,6) _ assms(5), of "selected (answer p m A) m A" ps] e
  obtain m' where "thread_fetch (p # ps) m = Some (Some (set_ready (content t)), m')"
    "sched m' (A(L_timer := ys, L_read := filter (\<lambda>x. x \<notin> set (selected (answer p m A) m A)) (A L_read),
       L_ready := selected (answer p m A) m A, L_unuse := A L_unuse @ [a]))" by (auto simp: woken_def assms(4))
  then show "\<exists>m' A'. thread_fetch (p # ps) m = Some (Some (set_ready (content t)), m') \<and> sched m' A' \<and> A' L_timer = ys"
    by (intro exI conjI) (assumption, assumption, simp)
qed

theorem expired_timer_runs_witness:
  "\<exists>m m'. thread_add_timer \<lparr>tv_sec = 10, tv_usec = 5\<rparr> (1 :: nat) (2 :: nat) 5 ''tick'' thread_master_create = Some (0, m)
     \<and> thread_fetch [\<lparr>po_before = \<lparr>tv_sec = 14, tv_usec = 0\<rparr>, po_select = (\<lambda>fds w. (0, \<lambda>_. {})), po_after = \<lparr>tv_sec = 15, tv_usec = 5\<rparr>\<rparr>] m
       = Some (Some (set_ready (fresh_thread THREAD_TIMER 1 2 (U_sands \<lparr>tv_sec = 15, tv_usec = 5\<rparr>) ''tick'')), m')"
proof -
  let ?p = "\<lparr>po_before = \<lparr>tv_sec = 14, tv_usec = 0\<rparr>, po_select = (\<lambda>fds w. (0, \<lambda>_. {})), po_after = \<lparr>tv_sec = 15, tv_usec = 5\<rparr>\<rparr> :: poll"
  let ?f = "fresh_thread THREAD_TIMER (1 :: nat) (2 :: nat) (U_sands \<lparr>tv_sec = 15, tv_usec = 5\<rparr>) ''tick''"
  have n: "strip_funcname ''tick'' = Some ''tick''" by code_simp
  have u: "timeval_of (max 0 (usecs \<lparr>tv_sec = 10, tv_usec = 5\<rparr> + usecs \<lparr>tv_sec = 5, tv_usec = 0\<rparr>)) = \<lparr>tv_sec = 15, tv_usec = 5\<rparr>"
    by code_simp
  from thread_add_timer_sched [OF sched_create n, where type = THREAD_TIMER and now = "\<lparr>tv_sec = 10, tv_usec = 5\<rparr>"
      and rel = "\<lparr>tv_sec = 5, tv_usec = 0\<rparr>" and func = "1 :: nat" and arg = "2 :: nat", unfolded u]
  obtain m A where m: "thread_add_timer_timeval \<lparr>tv_sec = 10, tv_usec = 5\<rparr> 1 THREAD_TIMER 2 \<lparr>tv_sec = 5, tv_usec = 0\<rparr> ''tick'' thread_master_create = Some (0, m)"
    "sched m A" "map_option content (tm_heap m 0) = Some ?f" "A L_event = []" "A L_ready = []" "A L_timer = [0]"
    by (auto simp: next_free_def timer_list_def thread_master_create_def)
  from m(3) obtain t where t: "tm_heap m 0 = Some t" "content t = ?f" by auto
  then have "th_u t = U_sands \<lparr>tv_sec = 15, tv_usec = 5\<rparr>" using content_simps(2) [of t] by (simp add: fresh_thread_def)
  then have "sands_of m 0 \<le> usecs (po_after ?p)" using t(1) by (simp add: sands_of_def)
  from expired_timer_runs [OF m(2,4,5,6) t(1) _ this, of "[]"] m(1) t(2) show ?thesis
    by (auto simp: timeval_wf_def TIMER_SECOND_MICRO_def thread_add_timer_def)
qed

end
