(* ===== verification/Ospf6_Data.thy ===== *)
theory Ospf6_Data
  imports Ospf6_Lsdb_Inv
begin

text \<open>
  The data of the OSPFv3 sibling above its databases: neighbours, interfaces, areas and the
  process, the tasks they schedule, and link state databases as sequences of LSAs.

  Neighbours, interfaces and areas are objects in a store; the lists that link them hold
  their addresses. A pointer to an object that does not exist is an error, \<open>None\<close>. What the
  handlers ask of other components (the scheduler, the route calculation, the client of
  the controller) is recorded as a list of actions in the order of the calls.
\<close>

section \<open>Databases as sequences\<close>

text \<open>
  A database is used here as the sequence of its LSAs in the order of their keys, which is
  what the tree, the links and the counter of \<open>ospf6_lsdb.c\<close> represent.
\<close>

fun bits_lt :: "bool list \<Rightarrow> bool list \<Rightarrow> bool" where
  "bits_lt [] ys \<longleftrightarrow> ys \<noteq> []" |
  "bits_lt (x # xs) [] \<longleftrightarrow> False" |
  "bits_lt (x # xs) (y # ys) \<longleftrightarrow> (if x = y then bits_lt xs ys else y)"

lemma bits_less_code [code]: "bits_less xs ys = bits_lt xs ys"
  by (induction xs ys rule: bits_lt.induct) (auto simp: bits_less_def neq_Nil_conv)

type_synonym store = "ospf6_lsa list"

datatype lsa_hook = On_add ospf6_lsa | On_remove ospf6_lsa

definition store_lookup :: "u16 \<Rightarrow> u32 \<Rightarrow> u32 \<Rightarrow> store \<Rightarrow> ospf6_lsa option" where
  "store_lookup type lsid adv_router S =
     find (\<lambda>l. lh_type (lsa_header l) = type \<and> lh_id (lsa_header l) = lsid \<and> lh_adv_router (lsa_header l) = adv_router) S"

definition store_find :: "ospf6_lsa \<Rightarrow> store \<Rightarrow> ospf6_lsa option" where
  "store_find l S = store_lookup (lh_type (lsa_header l)) (lh_id (lsa_header l)) (lh_adv_router (lsa_header l)) S"

definition store_put :: "ospf6_lsa \<Rightarrow> store \<Rightarrow> store" where
  "store_put l S = filter (\<lambda>x. bits_less (lsa_bits x) (lsa_bits l)) S @ l # filter (\<lambda>x. bits_less (lsa_bits l) (lsa_bits x)) S"

definition store_del :: "ospf6_lsa \<Rightarrow> store \<Rightarrow> store" where
  "store_del l S = filter (\<lambda>x. \<not> OSPF6_LSA_IS_SAME x l) S"

definition store_hooks :: "timeval \<Rightarrow> ospf6_lsa option \<Rightarrow> ospf6_lsa \<Rightarrow> (lsa_hook list \<times> ospf6_lsa) option" where
  "store_hooks now old lsa =
     (case old of
        Some o' \<Rightarrow>
          do {
            (changed, o', lsa) \<leftarrow> ospf6_lsa_is_changed now o' lsa;
            if changed
            then (let (m, lsa) = OSPF6_LSA_IS_MAXAGE now lsa in
                  if m then Some ([On_remove o', On_remove lsa], lsa)
                  else let (mo, o') = OSPF6_LSA_IS_MAXAGE now o' in
                    if mo then Some ([On_add lsa], lsa) else Some ([On_remove o', On_add lsa], lsa))
            else Some ([], lsa)
          }
      | None \<Rightarrow> (let (m, lsa) = OSPF6_LSA_IS_MAXAGE now lsa in Some (if m then [On_remove lsa] else [On_add lsa], lsa)))"

definition store_add :: "timeval \<Rightarrow> ospf6_lsa \<Rightarrow> store \<Rightarrow> (lsa_hook list \<times> store) option" where
  "store_add now lsa S = do { (hooks, lsa) \<leftarrow> store_hooks now (store_find lsa S) lsa; Some (hooks, store_put lsa S) }"

section \<open>Objects\<close>

definition OSPF6_NEIGHBOR_DOWN :: u8 where "OSPF6_NEIGHBOR_DOWN = 1"
definition OSPF6_NEIGHBOR_ATTEMPT :: u8 where "OSPF6_NEIGHBOR_ATTEMPT = 2"
definition OSPF6_NEIGHBOR_INIT :: u8 where "OSPF6_NEIGHBOR_INIT = 3"
definition OSPF6_NEIGHBOR_TWOWAY :: u8 where "OSPF6_NEIGHBOR_TWOWAY = 4"
definition OSPF6_NEIGHBOR_EXSTART :: u8 where "OSPF6_NEIGHBOR_EXSTART = 5"
definition OSPF6_NEIGHBOR_EXCHANGE :: u8 where "OSPF6_NEIGHBOR_EXCHANGE = 6"
definition OSPF6_NEIGHBOR_LOADING :: u8 where "OSPF6_NEIGHBOR_LOADING = 7"
definition OSPF6_NEIGHBOR_FULL :: u8 where "OSPF6_NEIGHBOR_FULL = 8"

lemmas neighbor_states = OSPF6_NEIGHBOR_DOWN_def OSPF6_NEIGHBOR_ATTEMPT_def OSPF6_NEIGHBOR_INIT_def OSPF6_NEIGHBOR_TWOWAY_def
  OSPF6_NEIGHBOR_EXSTART_def OSPF6_NEIGHBOR_EXCHANGE_def OSPF6_NEIGHBOR_LOADING_def OSPF6_NEIGHBOR_FULL_def

definition OSPF6_INTERFACE_DOWN :: u8 where "OSPF6_INTERFACE_DOWN = 1"
definition OSPF6_INTERFACE_WAITING :: u8 where "OSPF6_INTERFACE_WAITING = 3"
definition OSPF6_INTERFACE_POINTTOPOINT :: u8 where "OSPF6_INTERFACE_POINTTOPOINT = 4"
definition OSPF6_INTERFACE_DROTHER :: u8 where "OSPF6_INTERFACE_DROTHER = 5"
definition OSPF6_INTERFACE_BDR :: u8 where "OSPF6_INTERFACE_BDR = 6"
definition OSPF6_INTERFACE_DR :: u8 where "OSPF6_INTERFACE_DR = 7"

lemmas interface_states = OSPF6_INTERFACE_DOWN_def OSPF6_INTERFACE_WAITING_def OSPF6_INTERFACE_POINTTOPOINT_def
  OSPF6_INTERFACE_DROTHER_def OSPF6_INTERFACE_BDR_def OSPF6_INTERFACE_DR_def

definition OSPF6_DBDESC_MSBIT :: u8 where "OSPF6_DBDESC_MSBIT = 0x01"
definition OSPF6_DBDESC_MBIT :: u8 where "OSPF6_DBDESC_MBIT = 0x02"
definition OSPF6_DBDESC_IBIT :: u8 where "OSPF6_DBDESC_IBIT = 0x04"

record ospf6_dbdesc =
  dd_reserved1 :: u8
  dd_options :: "u8 list"
  dd_ifmtu :: u16
  dd_reserved2 :: u8
  dd_bits :: u8
  dd_seqnum :: u32

record ospf6_neighbor =
  on_if :: nat
  on_state :: u8
  on_last_changed :: timeval
  on_router_id :: u32
  on_ifindex :: u32
  on_priority :: u8
  on_drouter :: u32
  on_bdrouter :: u32
  on_prev_drouter :: u32
  on_prev_bdrouter :: u32
  on_options :: "u8 list"
  on_dbdesc_bits :: u8
  on_dbdesc_seqnum :: u32
  on_dbdesc_last :: ospf6_dbdesc
  on_summary_list :: store
  on_request_list :: store
  on_retrans_list :: store
  on_dbdesc_list :: store
  on_lsreq_list :: store
  on_lsupdate_list :: store
  on_lsack_list :: store
  on_inactivity_timer :: bool
  on_thread_send_dbdesc :: bool
  on_thread_send_lsreq :: bool
  on_thread_send_lsupdate :: bool
  on_thread_send_lsack :: bool

record ospf6_interface =
  oi_area :: nat
  oi_up :: bool
  oi_pointopoint :: bool
  oi_broadcast :: bool
  oi_neighbor_list :: "nat list"
  oi_transdelay :: u32
  oi_priority :: u8
  oi_hello_interval :: u16
  oi_dead_interval :: u16
  oi_rxmt_interval :: u32
  oi_cost :: u32
  oi_drouter :: u32
  oi_bdrouter :: u32
  oi_ifmtu :: u32
  oi_state :: u8
  oi_lsdb :: store
  oi_lsdb_self :: store
  oi_lsupdate_list :: store
  oi_lsack_list :: store
  oi_thread_send_hello :: bool
  oi_thread_send_lsupdate :: bool
  oi_thread_send_lsack :: bool
  oi_thread_intra_prefix_lsa :: bool
  oi_ctrl_client :: "u32 option"

text \<open>What the senders use of the interface of the system.\<close>

record interface =
  if_ifindex :: u32
  if_mtu :: u32
  if_state :: u32

record ospf6_area =
  oa_area_id :: u32
  oa_stub :: bool
  oa_if_list :: "nat list"
  oa_options :: "u8 list"
  oa_lsdb :: store
  oa_lsdb_self :: store
  oa_thread_spf_calculation :: bool
  oa_thread_router_lsa :: bool

text \<open>An instance of an LSA: type, id, advertising router and sequence number.\<close>

type_synonym instance_id = "u16 \<times> u32 \<times> u32 \<times> u32"

definition instance_of :: "ospf6_lsa \<Rightarrow> instance_id" where
  "instance_of l = (lh_type (lsa_header l), lh_id (lsa_header l), lh_adv_router (lsa_header l), lh_seqnum (lsa_header l))"

text \<open>
  The functions that are scheduled, with the address of the object they get, or the
  instance for a thread of an LSA. \<open>Cancel\<close> is for the thread that the member of the task holds:
  the one for database descriptions holds threads of \<open>ospf6_dbdesc_send\<close> and of
  \<open>ospf6_dbdesc_send_newone\<close>.
\<close>

datatype task = Inactivity_timer nat | Neighbor_change nat | Adj_ok nat | Wait_timer nat | Bad_lsreq nat
  | Dbdesc_send nat | Dbdesc_send_newone nat | Lsreq_send nat | Lsupdate_send_neighbor nat | Lsack_send_neighbor nat
  | Lsupdate_send_interface nat | Lsack_send_interface nat | Router_lsa_originate nat | Intra_prefix_lsa_transit nat
  | Lsa_expire instance_id | Lsa_refresh instance_id | Spf_calculation nat u32
  | Hello_received nat | Twoway_received nat | Oneway_received nat | Negotiation_done nat | Exchange_done nat
  | Loading_done nat | Seqnumber_mismatch nat | Hello_send nat | Interface_up nat

datatype action = Add_event task | Add_timer task int | Cancel task | Intra_prefix_lsa_add ospf6_lsa
  | Ctrl_interface_init nat | Restart_init nat | Connected_route_update nat | Ctrl_interface_up nat
  | Db_put_hello "u8 list" u32 | Db_put_dbdesc "u8 list" u32 | Send_ack u32 | Send_packet nat "u8 list" | Synchronize_current_xid

record ospf6 =
  top_router_id :: u32
  top_restart_mode :: bool
  top_restarted_first_egress_not_sent :: bool
  top_ready_to_checkpoint :: bool
  top_checkpoint_enabled :: bool
  top_area_list :: "nat list"
  top_lsdb :: store
  top_area :: "nat \<Rightarrow> ospf6_area option"
  top_if :: "nat \<Rightarrow> ospf6_interface option"
  top_nbr :: "nat \<Rightarrow> ospf6_neighbor option"
  top_brk :: nat
  top_out :: "action list"

definition emit :: "action list \<Rightarrow> ospf6 \<Rightarrow> ospf6" where
  "emit acts st = st\<lparr>top_out := top_out st @ acts\<rparr>"

definition upd_nbr :: "nat \<Rightarrow> (ospf6_neighbor \<Rightarrow> ospf6_neighbor) \<Rightarrow> ospf6 \<Rightarrow> ospf6 option" where
  "upd_nbr a f st = do { H \<leftarrow> heap_upd a f (top_nbr st); Some (st\<lparr>top_nbr := H\<rparr>) }"

definition upd_if :: "nat \<Rightarrow> (ospf6_interface \<Rightarrow> ospf6_interface) \<Rightarrow> ospf6 \<Rightarrow> ospf6 option" where
  "upd_if a f st = do { H \<leftarrow> heap_upd a f (top_if st); Some (st\<lparr>top_if := H\<rparr>) }"

definition upd_area :: "nat \<Rightarrow> (ospf6_area \<Rightarrow> ospf6_area) \<Rightarrow> ospf6 \<Rightarrow> ospf6 option" where
  "upd_area a f st = do { H \<leftarrow> heap_upd a f (top_area st); Some (st\<lparr>top_area := H\<rparr>) }"

definition dbdesc_zero :: ospf6_dbdesc where
  "dbdesc_zero = \<lparr>dd_reserved1 = 0, dd_options = [0, 0, 0], dd_ifmtu = 0, dd_reserved2 = 0, dd_bits = 0, dd_seqnum = 0\<rparr>"

definition neighbor_zero :: ospf6_neighbor where
  "neighbor_zero = \<lparr>on_if = 0, on_state = 0, on_last_changed = timeval_zero, on_router_id = 0, on_ifindex = 0, on_priority = 0,
     on_drouter = 0, on_bdrouter = 0, on_prev_drouter = 0, on_prev_bdrouter = 0, on_options = [0, 0, 0], on_dbdesc_bits = 0,
     on_dbdesc_seqnum = 0, on_dbdesc_last = dbdesc_zero, on_summary_list = [], on_request_list = [], on_retrans_list = [],
     on_dbdesc_list = [], on_lsreq_list = [], on_lsupdate_list = [], on_lsack_list = [], on_inactivity_timer = False,
     on_thread_send_dbdesc = False, on_thread_send_lsreq = False, on_thread_send_lsupdate = False, on_thread_send_lsack = False\<rparr>"

text \<open>
  A loop over a list of neighbours reads the link of the neighbour it has just treated.
\<close>

fun for_each_nbr :: "(nat \<Rightarrow> ospf6 \<Rightarrow> ospf6 option) \<Rightarrow> nat list \<Rightarrow> ospf6 \<Rightarrow> ospf6 option" where
  "for_each_nbr body [] st = Some st" |
  "for_each_nbr body (a # as) st = do { st \<leftarrow> body a st; on \<leftarrow> top_nbr st a; for_each_nbr body as st }"

end
