(* ===== verification/Ospf6_Neighbor.thy ===== *)
theory Ospf6_Neighbor
  imports Ospf6_Data
begin

text \<open>
  Neighbours, \<open>ospf6-sibling/ospf6_neighbor.c\<close>: the events of the neighbour state machine,
  and creation and deletion of neighbours. Each handler takes the address of the neighbour
  and the state of the process.
\<close>

section \<open>Threads of a neighbour\<close>

text \<open>\<open>THREAD_OFF\<close> on a member of a neighbour.\<close>

definition nbr_thread_off ::
  "(ospf6_neighbor \<Rightarrow> bool) \<Rightarrow> ((bool \<Rightarrow> bool) \<Rightarrow> ospf6_neighbor \<Rightarrow> ospf6_neighbor) \<Rightarrow> (nat \<Rightarrow> task) \<Rightarrow> nat \<Rightarrow> ospf6 \<Rightarrow> ospf6 option" where
  "nbr_thread_off get upd task a st =
     do {
       on \<leftarrow> top_nbr st a;
       if get on then upd_nbr a (upd (\<lambda>_. False)) (emit [Cancel (task a)] st) else Some st
     }"

section \<open>State changes\<close>

definition OSPF6_ROUTER_LSA_SCHEDULE :: "nat \<Rightarrow> ospf6 \<Rightarrow> ospf6 option" where
  "OSPF6_ROUTER_LSA_SCHEDULE oa st =
     do {
       area \<leftarrow> top_area st oa;
       if oa_thread_router_lsa area then Some st
       else upd_area oa (\<lambda>x. x\<lparr>oa_thread_router_lsa := True\<rparr>) (emit [Add_event (Router_lsa_originate oa)] st)
     }"

definition OSPF6_INTRA_PREFIX_LSA_SCHEDULE_TRANSIT :: "nat \<Rightarrow> ospf6 \<Rightarrow> ospf6 option" where
  "OSPF6_INTRA_PREFIX_LSA_SCHEDULE_TRANSIT oi st =
     do {
       ifc \<leftarrow> top_if st oi;
       if oi_thread_intra_prefix_lsa ifc then Some st
       else upd_if oi (\<lambda>x. x\<lparr>oi_thread_intra_prefix_lsa := True\<rparr>) (emit [Add_event (Intra_prefix_lsa_transit oi)] st)
     }"

text \<open>A neighbour that enters or leaves Full makes the source read the number of the host from
  the connection of its interface, which must not be null.\<close>

definition ospf6_neighbor_state_change :: "u8 \<Rightarrow> nat \<Rightarrow> ospf6 \<Rightarrow> ospf6 option" where
  "ospf6_neighbor_state_change next_state a st =
     do {
       on \<leftarrow> top_nbr st a;
       st \<leftarrow> upd_nbr a (\<lambda>x. x\<lparr>on_state := next_state\<rparr>) st;
       if on_state on = next_state then Some st
       else if on_state on = OSPF6_NEIGHBOR_FULL \<or> next_state = OSPF6_NEIGHBOR_FULL
       then do {
              oi \<leftarrow> top_if st (on_if on);
              _ \<leftarrow> oi_ctrl_client oi;
              st \<leftarrow> OSPF6_ROUTER_LSA_SCHEDULE (oi_area oi) st;
              if oi_state oi = OSPF6_INTERFACE_DR then OSPF6_INTRA_PREFIX_LSA_SCHEDULE_TRANSIT (on_if on) st else Some st
            }
       else Some st
     }"

definition need_adjacency :: "nat \<Rightarrow> ospf6 \<Rightarrow> bool option" where
  "need_adjacency a st =
     do {
       on \<leftarrow> top_nbr st a;
       oi \<leftarrow> top_if st (on_if on);
       if oi_state oi = OSPF6_INTERFACE_POINTTOPOINT \<or> oi_state oi = OSPF6_INTERFACE_DR \<or> oi_state oi = OSPF6_INTERFACE_BDR
       then Some True
       else if oi_drouter oi = on_router_id on \<or> oi_bdrouter oi = on_router_id on then Some True
       else Some False
     }"

definition set_all_bits :: "ospf6_neighbor \<Rightarrow> ospf6_neighbor" where
  "set_all_bits x = x\<lparr>on_dbdesc_bits := on_dbdesc_bits x OR OSPF6_DBDESC_MSBIT OR OSPF6_DBDESC_MBIT OR OSPF6_DBDESC_IBIT\<rparr>"

text \<open>The pending database description is cancelled and a new one scheduled.\<close>

definition schedule_dbdesc :: "nat \<Rightarrow> ospf6 \<Rightarrow> ospf6 option" where
  "schedule_dbdesc a st =
     do {
       st \<leftarrow> nbr_thread_off on_thread_send_dbdesc on_thread_send_dbdesc_update Dbdesc_send a st;
       upd_nbr a (\<lambda>x. x\<lparr>on_thread_send_dbdesc := True\<rparr>) (emit [Add_event (Dbdesc_send a)] st)
     }"

section \<open>Events\<close>

definition hello_received :: "nat \<Rightarrow> ospf6 \<Rightarrow> ospf6 option" where
  "hello_received a st =
     do {
       st \<leftarrow> nbr_thread_off on_inactivity_timer on_inactivity_timer_update Inactivity_timer a st;
       on \<leftarrow> top_nbr st a;
       oi \<leftarrow> top_if st (on_if on);
       st \<leftarrow> upd_nbr a (\<lambda>x. x\<lparr>on_inactivity_timer := True\<rparr>) (emit [Add_timer (Inactivity_timer a) (uint (oi_dead_interval oi))] st);
       if on_state on \<le> OSPF6_NEIGHBOR_DOWN then ospf6_neighbor_state_change OSPF6_NEIGHBOR_INIT a st else Some st
     }"

definition twoway_received :: "nat \<Rightarrow> ospf6 \<Rightarrow> ospf6 option" where
  "twoway_received a st =
     do {
       on \<leftarrow> top_nbr st a;
       if on_state on > OSPF6_NEIGHBOR_INIT then Some st
       else do {
         let st = emit [Add_event (Neighbor_change (on_if on))] st;
         need \<leftarrow> need_adjacency a st;
         if \<not> need then ospf6_neighbor_state_change OSPF6_NEIGHBOR_TWOWAY a st
         else do {
           st \<leftarrow> ospf6_neighbor_state_change OSPF6_NEIGHBOR_EXSTART a st;
           st \<leftarrow> upd_nbr a set_all_bits st;
           schedule_dbdesc a st
         }
       }
     }"

text \<open>
  Retransmission counts. The database of the original LSA, \<open>ospf6_get_scoped_lsdb\<close>, is
  always the null pointer, in which a lookup finds nothing.
\<close>

definition ospf6_get_scoped_lsdb :: "ospf6_lsa \<Rightarrow> store option" where
  "ospf6_get_scoped_lsdb lsa = None"

definition ospf6_increment_retrans_count :: "ospf6_lsa \<Rightarrow> ospf6_lsa" where
  "ospf6_increment_retrans_count lsa = lsa\<lparr>lsa_retrans_count := lsa_retrans_count lsa + 1\<rparr>"

text \<open>The result is the original LSA with its new count, when there is one.\<close>

definition ospf6_decrement_retrans_count :: "ospf6_lsa \<Rightarrow> ospf6_lsa option option" where
  "ospf6_decrement_retrans_count lsa =
     (case Option.bind (ospf6_get_scoped_lsdb lsa) (store_find lsa) of
        None \<Rightarrow> Some None
      | Some orig \<Rightarrow> (let n = lsa_retrans_count orig - 1 in
          if n \<ge> 0 then Some (Some (orig\<lparr>lsa_retrans_count := n\<rparr>)) else None))"

text \<open>The loop that empties a retransmission list.\<close>

fun remove_retrans :: "store \<Rightarrow> store \<Rightarrow> store option" where
  "remove_retrans [] S = Some S" |
  "remove_retrans (lsa # ls) S = do { orig \<leftarrow> ospf6_decrement_retrans_count lsa; remove_retrans ls (store_del lsa S) }"

definition clear_retrans :: "nat \<Rightarrow> ospf6 \<Rightarrow> ospf6 option" where
  "clear_retrans a st =
     do {
       on \<leftarrow> top_nbr st a;
       rest \<leftarrow> remove_retrans (on_retrans_list on) (on_retrans_list on);
       upd_nbr a (\<lambda>x. x\<lparr>on_retrans_list := rest\<rparr>) st
     }"

definition clear_exchange :: "nat \<Rightarrow> ospf6 \<Rightarrow> ospf6 option" where
  "clear_exchange a st =
     do { st \<leftarrow> upd_nbr a (\<lambda>x. x\<lparr>on_summary_list := [], on_request_list := []\<rparr>) st; clear_retrans a st }"

text \<open>
  The LSAs of a database are copied to the summary list, those at the end of their life to
  the retransmission list. The result is the database with the ages brought up to date.
\<close>

fun summarise :: "timeval \<Rightarrow> store \<Rightarrow> store \<Rightarrow> store \<Rightarrow> (store \<times> store \<times> store) option" where
  "summarise now [] retrans summary = Some ([], retrans, summary)" |
  "summarise now (lsa # ls) retrans summary =
     do {
       let (m, lsa) = OSPF6_LSA_IS_MAXAGE now lsa;
       (lsa, retrans, summary) \<leftarrow>
         (if m then do {
            let lsa = ospf6_increment_retrans_count lsa;
            (copy, lsa) \<leftarrow> ospf6_lsa_copy now lsa;
            (hooks, retrans) \<leftarrow> store_add now copy retrans;
            Some (lsa, retrans, summary)
          }
          else do {
            (copy, lsa) \<leftarrow> ospf6_lsa_copy now lsa;
            (hooks, summary) \<leftarrow> store_add now copy summary;
            Some (lsa, retrans, summary)
          });
       (ls, retrans, summary) \<leftarrow> summarise now ls retrans summary;
       Some (lsa # ls, retrans, summary)
     }"

definition negotiation_done :: "timeval \<Rightarrow> nat \<Rightarrow> ospf6 \<Rightarrow> ospf6 option" where
  "negotiation_done now a st =
     do {
       on \<leftarrow> top_nbr st a;
       if on_state on \<noteq> OSPF6_NEIGHBOR_EXSTART then Some st
       else do {
         st \<leftarrow> clear_exchange a st;
         on \<leftarrow> top_nbr st a;
         oi \<leftarrow> top_if st (on_if on);
         (lsdb, retrans, summary) \<leftarrow> summarise now (oi_lsdb oi) (on_retrans_list on) (on_summary_list on);
         st \<leftarrow> upd_if (on_if on) (\<lambda>x. x\<lparr>oi_lsdb := lsdb\<rparr>) st;
         (aslsdb, retrans, summary) \<leftarrow> summarise now (top_lsdb st) retrans summary;
         st \<leftarrow> upd_nbr a (\<lambda>x. x\<lparr>on_retrans_list := retrans, on_summary_list := summary,
            on_dbdesc_bits := on_dbdesc_bits x AND NOT OSPF6_DBDESC_IBIT\<rparr>) (st\<lparr>top_lsdb := aslsdb\<rparr>);
         ospf6_neighbor_state_change OSPF6_NEIGHBOR_EXCHANGE a st
       }
     }"

definition exchange_done :: "nat \<Rightarrow> ospf6 \<Rightarrow> ospf6 option" where
  "exchange_done a st =
     do {
       on \<leftarrow> top_nbr st a;
       if on_state on \<noteq> OSPF6_NEIGHBOR_EXCHANGE then Some st
       else do {
         st \<leftarrow> nbr_thread_off on_thread_send_dbdesc on_thread_send_dbdesc_update Dbdesc_send a st;
         st \<leftarrow> upd_nbr a (\<lambda>x. x\<lparr>on_dbdesc_list := []\<rparr>) st;
         ospf6_neighbor_state_change (if on_request_list on = [] then OSPF6_NEIGHBOR_FULL else OSPF6_NEIGHBOR_LOADING) a st
       }
     }"

definition loading_done :: "nat \<Rightarrow> ospf6 \<Rightarrow> ospf6 option" where
  "loading_done a st =
     do {
       on \<leftarrow> top_nbr st a;
       if on_state on \<noteq> OSPF6_NEIGHBOR_LOADING then Some st
       else if on_request_list on = [] then ospf6_neighbor_state_change OSPF6_NEIGHBOR_FULL a st
       else None
     }"

definition adj_ok :: "nat \<Rightarrow> ospf6 \<Rightarrow> ospf6 option" where
  "adj_ok a st =
     do {
       on \<leftarrow> top_nbr st a;
       need \<leftarrow> need_adjacency a st;
       if on_state on = OSPF6_NEIGHBOR_TWOWAY \<and> need then ospf6_neighbor_state_change OSPF6_NEIGHBOR_EXSTART a st else Some st
     }"

definition seqnumber_mismatch :: "nat \<Rightarrow> ospf6 \<Rightarrow> ospf6 option" where
  "seqnumber_mismatch a st =
     do {
       on \<leftarrow> top_nbr st a;
       if on_state on < OSPF6_NEIGHBOR_EXCHANGE then Some st
       else do {
         st \<leftarrow> ospf6_neighbor_state_change OSPF6_NEIGHBOR_EXSTART a st;
         st \<leftarrow> upd_nbr a set_all_bits st;
         st \<leftarrow> clear_exchange a st;
         schedule_dbdesc a st
       }
     }"

definition bad_lsreq :: "nat \<Rightarrow> ospf6 \<Rightarrow> ospf6 option" where
  "bad_lsreq a st =
     do {
       on \<leftarrow> top_nbr st a;
       if on_state on < OSPF6_NEIGHBOR_EXCHANGE then Some st
       else do {
         st \<leftarrow> ospf6_neighbor_state_change OSPF6_NEIGHBOR_EXSTART a st;
         st \<leftarrow> upd_nbr a set_all_bits st;
         st \<leftarrow> clear_exchange a st;
         schedule_dbdesc a st
       }
     }"

definition oneway_received :: "nat \<Rightarrow> ospf6 \<Rightarrow> ospf6 option" where
  "oneway_received a st =
     do {
       on \<leftarrow> top_nbr st a;
       if on_state on < OSPF6_NEIGHBOR_TWOWAY then Some st
       else do {
         st \<leftarrow> ospf6_neighbor_state_change OSPF6_NEIGHBOR_INIT a st;
         Some (emit [Add_event (Neighbor_change (on_if on))] st)
       }
     }"

section \<open>Creation and deletion\<close>

definition ospf6_neighbor_delete :: "nat \<Rightarrow> ospf6 \<Rightarrow> ospf6 option" where
  "ospf6_neighbor_delete a st =
     do {
       st \<leftarrow> clear_exchange a st;
       st \<leftarrow> upd_nbr a (\<lambda>x. x\<lparr>on_dbdesc_list := [], on_lsreq_list := [], on_lsupdate_list := [], on_lsack_list := []\<rparr>) st;
       st \<leftarrow> nbr_thread_off on_inactivity_timer on_inactivity_timer_update Inactivity_timer a st;
       st \<leftarrow> nbr_thread_off on_thread_send_dbdesc on_thread_send_dbdesc_update Dbdesc_send a st;
       st \<leftarrow> nbr_thread_off on_thread_send_lsreq on_thread_send_lsreq_update Lsreq_send a st;
       st \<leftarrow> nbr_thread_off on_thread_send_lsupdate on_thread_send_lsupdate_update Lsupdate_send_neighbor a st;
       st \<leftarrow> nbr_thread_off on_thread_send_lsack on_thread_send_lsack_update Lsack_send_neighbor a st;
       Some (st\<lparr>top_nbr := (top_nbr st)(a := None)\<rparr>)
     }"

definition inactivity_timer :: "nat \<Rightarrow> ospf6 \<Rightarrow> ospf6 option" where
  "inactivity_timer a st =
     do {
       st \<leftarrow> upd_nbr a (\<lambda>x. x\<lparr>on_inactivity_timer := False, on_drouter := 0, on_prev_drouter := 0, on_bdrouter := 0, on_prev_bdrouter := 0\<rparr>) st;
       st \<leftarrow> ospf6_neighbor_state_change OSPF6_NEIGHBOR_DOWN a st;
       on \<leftarrow> top_nbr st a;
       let st = emit [Add_event (Neighbor_change (on_if on))] st;
       st \<leftarrow> upd_if (on_if on) (\<lambda>x. x\<lparr>oi_neighbor_list := remove1 a (oi_neighbor_list x)\<rparr>) st;
       ospf6_neighbor_delete a st
     }"

fun nbr_with_id :: "u32 \<Rightarrow> nat list \<Rightarrow> ospf6 \<Rightarrow> nat option option" where
  "nbr_with_id router_id [] st = Some None" |
  "nbr_with_id router_id (a # as) st =
     do { on \<leftarrow> top_nbr st a; if on_router_id on = router_id then Some (Some a) else nbr_with_id router_id as st }"

definition ospf6_neighbor_lookup :: "u32 \<Rightarrow> nat \<Rightarrow> ospf6 \<Rightarrow> nat option option" where
  "ospf6_neighbor_lookup router_id oi st = do { ifc \<leftarrow> top_if st oi; nbr_with_id router_id (oi_neighbor_list ifc) st }"

definition ospf6_neighbor_create :: "timeval \<Rightarrow> u32 \<Rightarrow> nat \<Rightarrow> ospf6 \<Rightarrow> (nat \<times> ospf6) option" where
  "ospf6_neighbor_create now router_id oi st =
     (let a = top_brk st;
          on = neighbor_zero\<lparr>on_if := oi, on_state := OSPF6_NEIGHBOR_DOWN, on_last_changed := now, on_router_id := router_id\<rparr>
      in do {
           st \<leftarrow> upd_if oi (\<lambda>x. x\<lparr>oi_neighbor_list := oi_neighbor_list x @ [a]\<rparr>)
             (st\<lparr>top_nbr := (top_nbr st)(a \<mapsto> on), top_brk := a + 1\<rparr>);
           Some (a, st)
         })"

end
