(* ===== verification/Ospf6_Interface.thy ===== *)
theory Ospf6_Interface
  imports Ospf6_Neighbor
begin

text \<open>
  Interfaces, \<open>ospf6-sibling/ospf6_interface.c\<close>: the interface state machine and the
  election of the designated router and its backup.
\<close>

section \<open>Creation\<close>

definition ospf6_interface_create :: "nat \<Rightarrow> bool \<Rightarrow> bool \<Rightarrow> bool \<Rightarrow> ospf6_interface" where
  "ospf6_interface_create area up pointopoint broadcast =
     \<lparr>oi_area = area, oi_up = up, oi_pointopoint = pointopoint, oi_broadcast = broadcast, oi_neighbor_list = [],
      oi_transdelay = 1, oi_priority = 1, oi_hello_interval = 10, oi_dead_interval = 600, oi_rxmt_interval = 5, oi_cost = 1,
      oi_drouter = 0, oi_bdrouter = 0, oi_ifmtu = 0, oi_state = OSPF6_INTERFACE_DOWN, oi_lsdb = [], oi_lsdb_self = [],
      oi_lsupdate_list = [], oi_lsack_list = [], oi_thread_send_hello = False, oi_thread_send_lsupdate = False, oi_thread_send_lsack = False,
      oi_thread_intra_prefix_lsa = False, oi_ctrl_client = None\<rparr>"

text \<open>The connection to the controller and the MTU are known once the interface has been announced.\<close>

definition ospf6_interface_if_add :: "interface \<Rightarrow> u32 \<Rightarrow> nat option \<Rightarrow> ospf6 \<Rightarrow> ospf6 option" where
  "ospf6_interface_if_add ifp ctrl_client info st =
     (case info of
        None \<Rightarrow> Some st
      | Some oi \<Rightarrow>
          do {
            st \<leftarrow> upd_if oi (\<lambda>x. x\<lparr>oi_ctrl_client := Some ctrl_client, oi_ifmtu := if_mtu ifp\<rparr>) st;
            Some (emit [Add_event (Interface_up oi)] st)
          })"

section \<open>Election of the designated router\<close>

definition ospf6_interface_state_change :: "u8 \<Rightarrow> nat \<Rightarrow> ospf6 \<Rightarrow> ospf6 option" where
  "ospf6_interface_state_change next_state oi st =
     do {
       ifc \<leftarrow> top_if st oi;
       if oi_state ifc = next_state then Some st else upd_if oi (\<lambda>x. x\<lparr>oi_state := next_state\<rparr>) st
     }"

definition IS_ELIGIBLE :: "ospf6_neighbor \<Rightarrow> bool" where
  "IS_ELIGIBLE n \<longleftrightarrow> on_state n \<ge> OSPF6_NEIGHBOR_TWOWAY \<and> on_priority n \<noteq> 0"

text \<open>
  A candidate is a neighbour with its address, or the router itself, which has none.
\<close>

type_synonym candidate = "nat option \<times> ospf6_neighbor"

definition better_bdrouter :: "candidate option \<Rightarrow> candidate option \<Rightarrow> candidate option" where
  "better_bdrouter ca cb =
     (let out = (\<lambda>c. case c of None \<Rightarrow> True | Some (_, n) \<Rightarrow> \<not> IS_ELIGIBLE n \<or> on_drouter n = on_router_id n) in
      if out ca \<and> out cb then None
      else if out ca then cb
      else if out cb then ca
      else let a = snd (the ca); b = snd (the cb) in
        if on_bdrouter a = on_router_id a \<and> on_bdrouter b \<noteq> on_router_id b then ca
        else if on_bdrouter a \<noteq> on_router_id a \<and> on_bdrouter b = on_router_id b then cb
        else if on_priority a > on_priority b then ca
        else if on_priority a < on_priority b then cb
        else if on_router_id a > on_router_id b then ca
        else if on_router_id a < on_router_id b then cb
        else ca)"

definition better_drouter :: "candidate option \<Rightarrow> candidate option \<Rightarrow> candidate option" where
  "better_drouter ca cb =
     (let out = (\<lambda>c. case c of None \<Rightarrow> True | Some (_, n) \<Rightarrow> \<not> IS_ELIGIBLE n \<or> on_drouter n \<noteq> on_router_id n) in
      if out ca \<and> out cb then None
      else if out ca then cb
      else if out cb then ca
      else let a = snd (the ca); b = snd (the cb) in
        if on_drouter a = on_router_id a \<and> on_drouter b \<noteq> on_router_id b then ca
        else if on_drouter a \<noteq> on_router_id a \<and> on_drouter b = on_router_id b then cb
        else if on_priority a > on_priority b then ca
        else if on_priority a < on_priority b then cb
        else if on_router_id a > on_router_id b then ca
        else if on_router_id a < on_router_id b then cb
        else ca)"

text \<open>The neighbours of an interface in the order of its list.\<close>

fun candidates :: "nat list \<Rightarrow> ospf6 \<Rightarrow> candidate list option" where
  "candidates [] st = Some []" |
  "candidates (a # as) st = do { on \<leftarrow> top_nbr st a; cs \<leftarrow> candidates as st; Some ((Some a, on) # cs) }"

definition myself_of :: "ospf6_interface \<Rightarrow> u32 \<Rightarrow> ospf6_neighbor" where
  "myself_of oi router_id = neighbor_zero\<lparr>on_state := OSPF6_NEIGHBOR_TWOWAY, on_drouter := oi_drouter oi, on_bdrouter := oi_bdrouter oi,
     on_priority := oi_priority oi, on_router_id := router_id\<rparr>"

definition router_id_of :: "candidate option \<Rightarrow> u32" where
  "router_id_of c = (case c of None \<Rightarrow> 0 | Some (_, n) \<Rightarrow> on_router_id n)"

definition is_myself :: "candidate option \<Rightarrow> bool" where
  "is_myself c = (case c of Some (None, _) \<Rightarrow> True | _ \<Rightarrow> False)"

text \<open>Steps (2) and (3) against the router itself.\<close>

definition against :: "candidate option \<Rightarrow> candidate option \<Rightarrow> ospf6_neighbor \<Rightarrow> candidate option \<times> candidate option" where
  "against best_drouter best_bdrouter myself =
     (let bdrouter = better_bdrouter best_bdrouter (Some (None, myself));
          drouter = better_drouter best_drouter (Some (None, myself))
      in (if drouter = None then bdrouter else drouter, bdrouter))"

definition elect :: "candidate list \<Rightarrow> ospf6_neighbor \<Rightarrow> candidate option \<times> candidate option" where
  "elect cs myself =
     (let best_bdrouter = foldl (\<lambda>b c. better_bdrouter b (Some c)) None cs;
          best_drouter = foldl (\<lambda>b c. better_drouter b (Some c)) None cs;
          (drouter, bdrouter) = against best_drouter best_bdrouter myself
      in if is_myself drouter \<and> on_drouter myself \<noteq> on_router_id myself
            \<or> \<not> is_myself drouter \<and> on_drouter myself = on_router_id myself
            \<or> is_myself bdrouter \<and> on_bdrouter myself \<noteq> on_router_id myself
            \<or> \<not> is_myself bdrouter \<and> on_bdrouter myself = on_router_id myself
         then against best_drouter best_bdrouter
                (myself\<lparr>on_drouter := router_id_of drouter, on_bdrouter := router_id_of bdrouter\<rparr>)
         else (drouter, bdrouter))"

definition schedule_adj_ok :: "nat \<Rightarrow> ospf6 \<Rightarrow> ospf6 option" where
  "schedule_adj_ok a st =
     do { on \<leftarrow> top_nbr st a; Some (if on_state on < OSPF6_NEIGHBOR_TWOWAY then st else emit [Add_event (Adj_ok a)] st) }"

definition dr_election :: "nat \<Rightarrow> ospf6 \<Rightarrow> (u8 \<times> ospf6) option" where
  "dr_election oi st =
     do {
       ifc \<leftarrow> top_if st oi;
       cs \<leftarrow> candidates (oi_neighbor_list ifc) st;
       let (drouter, bdrouter) = elect cs (myself_of ifc (top_router_id st));
       let next_state = (if is_myself drouter then OSPF6_INTERFACE_DR
              else if is_myself bdrouter then OSPF6_INTERFACE_BDR else OSPF6_INTERFACE_DROTHER);
       st \<leftarrow> (if oi_drouter ifc \<noteq> router_id_of drouter \<or> oi_bdrouter ifc \<noteq> router_id_of bdrouter
              then for_each_nbr schedule_adj_ok (oi_neighbor_list ifc) st else Some st);
       st \<leftarrow> upd_if oi (\<lambda>x. x\<lparr>oi_drouter := router_id_of drouter, oi_bdrouter := router_id_of bdrouter\<rparr>) st;
       Some (next_state, st)
     }"

section \<open>Events\<close>

definition interface_up :: "nat \<Rightarrow> ospf6 \<Rightarrow> ospf6 option" where
  "interface_up oi st =
     do {
       ifc \<leftarrow> top_if st oi;
       if \<not> oi_up ifc then Some st
       else if oi_state ifc > OSPF6_INTERFACE_DOWN then Some st
       else do {
         let st = emit ([Ctrl_interface_init oi] @ (if top_restart_mode st then [Restart_init oi] else [])
                    @ [Connected_route_update oi, Ctrl_interface_up oi]) st;
         if oi_pointopoint ifc then ospf6_interface_state_change OSPF6_INTERFACE_POINTTOPOINT oi st
         else if oi_priority ifc = 0 then ospf6_interface_state_change OSPF6_INTERFACE_DROTHER oi st
         else do {
           st \<leftarrow> ospf6_interface_state_change OSPF6_INTERFACE_WAITING oi st;
           Some (emit [Add_timer (Wait_timer oi) (uint (oi_dead_interval ifc))] st)
         }
       }
     }"

definition wait_timer :: "nat \<Rightarrow> ospf6 \<Rightarrow> ospf6 option" where
  "wait_timer oi st =
     do {
       ifc \<leftarrow> top_if st oi;
       if oi_state ifc = OSPF6_INTERFACE_WAITING
       then do { (next_state, st) \<leftarrow> dr_election oi st; ospf6_interface_state_change next_state oi st }
       else Some st
     }"

definition neighbor_change :: "nat \<Rightarrow> ospf6 \<Rightarrow> ospf6 option" where
  "neighbor_change oi st =
     do {
       ifc \<leftarrow> top_if st oi;
       if oi_state ifc = OSPF6_INTERFACE_DROTHER \<or> oi_state ifc = OSPF6_INTERFACE_BDR \<or> oi_state ifc = OSPF6_INTERFACE_DR
       then do { (next_state, st) \<leftarrow> dr_election oi st; ospf6_interface_state_change next_state oi st }
       else Some st
     }"

definition interface_down :: "nat \<Rightarrow> ospf6 \<Rightarrow> ospf6 option" where
  "interface_down oi st =
     do {
       st \<leftarrow> ospf6_interface_state_change OSPF6_INTERFACE_DOWN oi st;
       ifc \<leftarrow> top_if st oi;
       for_each_nbr ospf6_neighbor_delete (oi_neighbor_list ifc) st
     }"

end
