(* ===== verification/Ospf6_Nsm.thy ===== *)
theory Ospf6_Nsm
  imports Ospf6_Interface
begin

text \<open>
  The neighbour state machine: every handler takes the neighbour to the state that the
  protocol prescribes and keeps the objects of the process consistent.
\<close>

section \<open>Operations on one neighbour\<close>

text \<open>Only the neighbour \<open>a\<close>, the contents of databases and pending threads may change.\<close>

definition if_shape :: "ospf6_interface \<Rightarrow> nat list \<times> nat" where
  "if_shape oi = (oi_neighbor_list oi, oi_area oi)"

definition touches :: "nat \<Rightarrow> ospf6 \<Rightarrow> ospf6 \<Rightarrow> bool" where
  "touches a st st' \<longleftrightarrow> (\<forall>x. x \<noteq> a \<longrightarrow> top_nbr st' x = top_nbr st x) \<and> top_brk st' = top_brk st
     \<and> (\<forall>i. map_option oi_ctrl_client (top_if st' i) = map_option oi_ctrl_client (top_if st i))
     \<and> (\<forall>i. map_option if_shape (top_if st' i) = map_option if_shape (top_if st i)) \<and> (\<forall>i. top_area st' i = None \<longleftrightarrow> top_area st i = None)"

lemma touches_refl [simp]: "touches a st st"
  by (simp add: touches_def)

lemma touches_trans: "touches a st st' \<Longrightarrow> touches a st' st'' \<Longrightarrow> touches a st st''"
  by (simp add: touches_def)

text \<open>A neighbour of an interface of an area.\<close>

definition alive :: "nat \<Rightarrow> ospf6 \<Rightarrow> ospf6_neighbor \<Rightarrow> bool" where
  "alive a st on \<longleftrightarrow> top_nbr st a = Some on \<and> (\<exists>oi. top_if st (on_if on) = Some oi \<and> top_area st (oi_area oi) \<noteq> None)"

lemma if_shape_cases:
  assumes "map_option if_shape (top_if st' i) = map_option if_shape (top_if st i)" "top_if st i = Some oi"
  shows "\<exists>oi'. top_if st' i = Some oi' \<and> oi_neighbor_list oi' = oi_neighbor_list oi \<and> oi_area oi' = oi_area oi"
  using assms by (cases "top_if st' i") (auto simp: if_shape_def)

lemma alive_touches:
  assumes "alive a st on" "touches a st st'" "top_nbr st' a = Some on'" "on_if on' = on_if on"
  shows "alive a st' on'"
proof -
  from assms(1) obtain oi where oi: "top_if st (on_if on) = Some oi" "top_area st (oi_area oi) \<noteq> None" by (auto simp: alive_def)
  from if_shape_cases [OF _ oi(1), of st'] assms(2) obtain oi' where "top_if st' (on_if on) = Some oi'" "oi_area oi' = oi_area oi"
    by (auto simp: touches_def)
  with assms oi(2) show ?thesis by (auto simp: alive_def touches_def)
qed

text \<open>The interface of the neighbour is connected to the controller.\<close>

definition linked :: "ospf6 \<Rightarrow> ospf6_neighbor \<Rightarrow> bool" where
  "linked st on \<longleftrightarrow> (\<exists>oi. top_if st (on_if on) = Some oi \<and> oi_ctrl_client oi \<noteq> None)"

lemma linked_touches:
  assumes "linked st on" "touches a st st'" "on_if on' = on_if on"
  shows "linked st' on'"
proof -
  from assms(1) obtain oi where "top_if st (on_if on) = Some oi" "oi_ctrl_client oi \<noteq> None" by (auto simp: linked_def)
  moreover have "map_option oi_ctrl_client (top_if st' (on_if on)) = map_option oi_ctrl_client (top_if st (on_if on))"
    using assms(2) by (simp add: touches_def)
  ultimately show ?thesis using assms(3) by (cases "top_if st' (on_if on)") (auto simp: linked_def)
qed

text \<open>An operation that always succeeds and changes the neighbour by a function.\<close>

definition nbr_op :: "nat \<Rightarrow> (ospf6 \<Rightarrow> ospf6 option) \<Rightarrow> (ospf6_neighbor \<Rightarrow> ospf6_neighbor) \<Rightarrow> bool" where
  "nbr_op a op g \<longleftrightarrow> (\<forall>st on. alive a st on \<longrightarrow> on_if (g on) = on_if on
     \<and> (\<exists>st'. op st = Some st' \<and> touches a st st' \<and> top_nbr st' a = Some (g on)))"

lemma nbr_opD:
  assumes "nbr_op a op g" "alive a st on"
  obtains st' where "op st = Some st'" "touches a st st'" "top_nbr st' a = Some (g on)" "alive a st' (g on)" "on_if (g on) = on_if on"
  using assms alive_touches [of a st on _ "g on"] unfolding nbr_op_def by blast

lemma nbr_op_seq:
  assumes "nbr_op a f g" "nbr_op a h k"
  shows "nbr_op a (\<lambda>st. do { st \<leftarrow> f st; h st }) (k \<circ> g)"
  unfolding nbr_op_def
proof (intro allI impI)
  fix st on
  assume "alive a st on"
  from nbr_opD [OF assms(1) this] obtain s1 where s1: "f st = Some s1" "touches a st s1" "alive a s1 (g on)" "on_if (g on) = on_if on" by blast
  from nbr_opD [OF assms(2) s1(3)] obtain s2 where "h s1 = Some s2" "touches a s1 s2" "top_nbr s2 a = Some (k (g on))" "on_if (k (g on)) = on_if (g on)" by blast
  with s1 touches_trans show "on_if ((k \<circ> g) on) = on_if on \<and> (\<exists>st'. (do { st \<leftarrow> f st; h st }) = Some st' \<and> touches a st st' \<and> top_nbr st' a = Some ((k \<circ> g) on))"
    by fastforce
qed

text \<open>An operation that succeeds when the interface of the neighbour is connected, and changes the
  neighbour by a function when it succeeds.\<close>

definition nbr_try :: "nat \<Rightarrow> (ospf6 \<Rightarrow> ospf6 option) \<Rightarrow> (ospf6_neighbor \<Rightarrow> ospf6_neighbor) \<Rightarrow> bool" where
  "nbr_try a op g \<longleftrightarrow> (\<forall>st on. alive a st on \<longrightarrow> on_if (g on) = on_if on
     \<and> (\<forall>st'. op st = Some st' \<longrightarrow> touches a st st' \<and> top_nbr st' a = Some (g on)) \<and> (linked st on \<longrightarrow> op st \<noteq> None))"

lemma nbr_tryD:
  assumes "nbr_try a op g" "alive a st on"
  shows "on_if (g on) = on_if on" "op st = Some st' \<Longrightarrow> touches a st st' \<and> top_nbr st' a = Some (g on) \<and> alive a st' (g on)"
    "linked st on \<Longrightarrow> \<exists>st'. op st = Some st'"
proof -
  from assms have n: "on_if (g on) = on_if on" "\<forall>st'. op st = Some st' \<longrightarrow> touches a st st' \<and> top_nbr st' a = Some (g on)"
    "linked st on \<longrightarrow> op st \<noteq> None" unfolding nbr_try_def by blast+
  show "on_if (g on) = on_if on" by (rule n(1))
  show "touches a st st' \<and> top_nbr st' a = Some (g on) \<and> alive a st' (g on)" if "op st = Some st'"
    using n(2) that alive_touches [OF assms(2) _ _ n(1)] by blast
  show "\<exists>st'. op st = Some st'" if "linked st on" using n(3) that by auto
qed

lemma nbr_try_op: "nbr_op a op g \<Longrightarrow> nbr_try a op g"
  unfolding nbr_op_def nbr_try_def by fastforce

lemma nbr_try_seq:
  assumes "nbr_try a f g" "nbr_try a h k"
  shows "nbr_try a (\<lambda>st. do { st \<leftarrow> f st; h st }) (k \<circ> g)"
  unfolding nbr_try_def
proof (intro allI impI conjI)
  fix st on st'
  assume al: "alive a st on"
  note F = nbr_tryD [OF assms(1) al]
  show "on_if ((k \<circ> g) on) = on_if on"
  proof -
    let ?st = "st\<lparr>top_nbr := (top_nbr st)(a \<mapsto> g on)\<rparr>"
    have "alive a ?st (g on)" using al F(1) by (simp add: alive_def)
    from nbr_tryD(1) [OF assms(2) this] F(1) show ?thesis by simp
  qed
  show "touches a st st'" "top_nbr st' a = Some ((k \<circ> g) on)" if r: "do { st \<leftarrow> f st; h st } = Some st'"
  proof -
    from r obtain s1 where s1: "f st = Some s1" "h s1 = Some st'" by (auto simp: bind_eq_Some_conv)
    from F(2) [OF s1(1)] have "touches a st s1" "alive a s1 (g on)" by auto
    with nbr_tryD(2) [OF assms(2) _ s1(2)] touches_trans show "touches a st st'" "top_nbr st' a = Some ((k \<circ> g) on)" by auto
  qed
  show "do { st \<leftarrow> f st; h st } \<noteq> None" if l: "linked st on"
  proof -
    from F(3) [OF l] obtain s1 where s1: "f st = Some s1" by blast
    from F(2) [OF s1] have "touches a st s1" "alive a s1 (g on)" by auto
    with nbr_tryD(3) [OF assms(2)] linked_touches [OF l _ F(1)] s1 show ?thesis by auto
  qed
qed

lemma nbr_op_upd: "(\<And>on. on_if (f on) = on_if on) \<Longrightarrow> nbr_op a (upd_nbr a f) f"
  by (auto simp: nbr_op_def alive_def upd_nbr_def heap_upd_def touches_def)

lemma emitted_simps [simp]:
  "top_nbr (emit acts st) = top_nbr st" "top_if (emit acts st) = top_if st" "top_area (emit acts st) = top_area st"
  "top_brk (emit acts st) = top_brk st" "alive a (emit acts st) on = alive a st on" "touches a (emit acts st) st' = touches a st st'"
  by (simp_all add: emit_def alive_def touches_def)

lemma linked_emit [simp]: "linked (emit acts st) on = linked st on"
  by (simp add: linked_def)

lemma nbr_try_emit: "nbr_try a op g \<Longrightarrow> nbr_try a (\<lambda>st. op (emit acts st)) g"
  unfolding nbr_try_def by (metis emitted_simps(5,6) linked_emit)

lemma nbr_op_emit: "nbr_op a op g \<Longrightarrow> nbr_op a (\<lambda>st. op (emit acts st)) g"
  unfolding nbr_op_def by (metis emitted_simps(5,6))

lemma nbr_op_if:
  assumes "nbr_op a f g" "nbr_op a h k"
  shows "nbr_op a (\<lambda>st. do { on \<leftarrow> top_nbr st a; if P on then f st else h st }) (\<lambda>on. if P on then g on else k on)"
  using assms unfolding nbr_op_def alive_def by fastforce

lemma nbr_op_skip: "nbr_op a Some (\<lambda>on. on)"
  by (simp add: nbr_op_def alive_def)

lemma nbr_op_off:
  assumes "\<And>f on. on_if (upd f on) = on_if on"
  shows "nbr_op a (nbr_thread_off get upd task a) (\<lambda>on. if get on then upd (\<lambda>_. False) on else on)"
proof -
  have "nbr_op a (\<lambda>st. do { on \<leftarrow> top_nbr st a; if get on then upd_nbr a (upd (\<lambda>_. False)) (emit [Cancel (task a)] st) else Some st })
    (\<lambda>on. if get on then upd (\<lambda>_. False) on else on)"
    by (intro nbr_op_if nbr_op_emit nbr_op_upd nbr_op_skip assms)
  then show ?thesis by (simp add: nbr_thread_off_def [abs_def])
qed

lemma router_lsa_touches:
  "top_area st oa \<noteq> None \<Longrightarrow> \<exists>st'. OSPF6_ROUTER_LSA_SCHEDULE oa st = Some st' \<and> touches a st st' \<and> top_nbr st' = top_nbr st \<and> top_if st' = top_if st"
  by (auto simp: OSPF6_ROUTER_LSA_SCHEDULE_def upd_area_def heap_upd_def touches_def emit_def)

lemma intra_prefix_touches:
  "top_if st oi \<noteq> None \<Longrightarrow> \<exists>st'. OSPF6_INTRA_PREFIX_LSA_SCHEDULE_TRANSIT oi st = Some st' \<and> touches a st st' \<and> top_nbr st' = top_nbr st"
  by (auto simp: OSPF6_INTRA_PREFIX_LSA_SCHEDULE_TRANSIT_def upd_if_def heap_upd_def touches_def emit_def if_shape_def)

lemma nbr_try_state: "nbr_try a (ospf6_neighbor_state_change s a) (\<lambda>on. on\<lparr>on_state := s\<rparr>)"
  unfolding nbr_try_def
proof (intro allI impI)
  fix st on
  assume al: "alive a st on"
  from nbr_opD [OF nbr_op_upd [of "\<lambda>x. x\<lparr>on_state := s\<rparr>" a] al] obtain s1 where
    s1: "upd_nbr a (\<lambda>x. x\<lparr>on_state := s\<rparr>) st = Some s1" "touches a st s1" "top_nbr s1 a = Some (on\<lparr>on_state := s\<rparr>)" "alive a s1 (on\<lparr>on_state := s\<rparr>)" by auto
  from s1(4) obtain oi where oi: "top_if s1 (on_if on) = Some oi" "top_area s1 (oi_area oi) \<noteq> None" by (auto simp: alive_def)
  from router_lsa_touches [OF oi(2), of a] obtain s2 where s2: "OSPF6_ROUTER_LSA_SCHEDULE (oi_area oi) s1 = Some s2" "touches a s1 s2" "top_nbr s2 = top_nbr s1" "top_if s2 = top_if s1" by blast
  from intra_prefix_touches [of s2 "on_if on" a] oi(1) s2(4) obtain s3 where
    s3: "OSPF6_INTRA_PREFIX_LSA_SCHEDULE_TRANSIT (on_if on) s2 = Some s3" "touches a s2 s3" "top_nbr s3 = top_nbr s2" by auto
  let ?F = "on_state on = OSPF6_NEIGHBOR_FULL \<or> s = OSPF6_NEIGHBOR_FULL" and ?n = "on\<lparr>on_state := s\<rparr>"
  have sc: "ospf6_neighbor_state_change s a st = (if on_state on = s \<or> \<not> ?F then Some s1 else if oi_ctrl_client oi = None then None
      else if oi_state oi = OSPF6_INTERFACE_DR then Some s3 else Some s2)"
    using al s1(1) s2(1) s3(1) oi(1) by (auto simp: ospf6_neighbor_state_change_def alive_def)
  have t: "touches a st s2" "touches a st s3" using touches_trans [OF s1(2) s2(2)] touches_trans [OF _ s3(2)] by blast+
  have p: "touches a st st' \<and> top_nbr st' a = Some ?n" if "ospf6_neighbor_state_change s a st = Some st'" for st'
    using that s1(2,3) s2(3) s3(3) t unfolding sc by (auto split: if_splits)
  have "ospf6_neighbor_state_change s a st \<noteq> None" if "linked st on"
  proof -
    have "linked s1 on" by (rule linked_touches [OF that s1(2) refl])
    then show ?thesis using oi(1) by (auto simp: sc linked_def)
  qed
  with p show "on_if ?n = on_if on \<and> (\<forall>st'. ospf6_neighbor_state_change s a st = Some st' \<longrightarrow> touches a st st' \<and> top_nbr st' a = Some ?n)
    \<and> (linked st on \<longrightarrow> ospf6_neighbor_state_change s a st \<noteq> None)" by auto
qed

section \<open>Lists\<close>

lemma decrement_none [simp]: "ospf6_decrement_retrans_count lsa = Some None"
  by (simp add: ospf6_decrement_retrans_count_def ospf6_get_scoped_lsdb_def)

lemma remove_retrans_exact: "remove_retrans ls S = Some (filter (\<lambda>x. \<forall>l\<in>set ls. \<not> OSPF6_LSA_IS_SAME x l) S)"
  by (induction ls arbitrary: S) (auto simp: store_del_def intro: filter_cong)

lemma remove_retrans_all: "remove_retrans S S = Some []"
proof -
  have "filter (\<lambda>x. \<forall>l\<in>set S. \<not> OSPF6_LSA_IS_SAME x l) S = []" by (auto simp: filter_empty_conv OSPF6_LSA_IS_SAME_def)
  then show ?thesis by (simp add: remove_retrans_exact)
qed

definition cleared :: "ospf6_neighbor \<Rightarrow> ospf6_neighbor" where
  "cleared on = on\<lparr>on_summary_list := [], on_request_list := [], on_retrans_list := []\<rparr>"

lemma nbr_op_clear_retrans: "nbr_op a (clear_retrans a) (\<lambda>on. on\<lparr>on_retrans_list := []\<rparr>)"
  by (auto simp: nbr_op_def alive_def clear_retrans_def remove_retrans_all upd_nbr_def heap_upd_def touches_def)

lemma nbr_op_clear: "nbr_op a (clear_exchange a) cleared"
proof -
  have "nbr_op a (\<lambda>st. do { st \<leftarrow> upd_nbr a (\<lambda>x. x\<lparr>on_summary_list := [], on_request_list := []\<rparr>) st; clear_retrans a st })
    ((\<lambda>on. on\<lparr>on_retrans_list := []\<rparr>) \<circ> (\<lambda>x. x\<lparr>on_summary_list := [], on_request_list := []\<rparr>))"
    by (intro nbr_op_seq nbr_op_upd nbr_op_clear_retrans) simp
  then show ?thesis by (simp add: clear_exchange_def [abs_def] cleared_def [abs_def] comp_def)
qed

lemma nbr_op_dbdesc: "nbr_op a (schedule_dbdesc a) (\<lambda>on. on\<lparr>on_thread_send_dbdesc := True\<rparr>)"
proof -
  have op: "nbr_op a (schedule_dbdesc a) ((\<lambda>x. x\<lparr>on_thread_send_dbdesc := True\<rparr>)
      \<circ> (\<lambda>on. if on_thread_send_dbdesc on then on_thread_send_dbdesc_update (\<lambda>_. False) on else on))"
    unfolding schedule_dbdesc_def [abs_def] by (intro nbr_op_seq nbr_op_off nbr_op_emit nbr_op_upd) simp_all
  have eq: "(\<lambda>x. x\<lparr>on_thread_send_dbdesc := True\<rparr>) \<circ> (\<lambda>on. if on_thread_send_dbdesc on then on_thread_send_dbdesc_update (\<lambda>_. False) on else on)
    = (\<lambda>on. on\<lparr>on_thread_send_dbdesc := True\<rparr>)" by (auto simp: fun_eq_iff)
  show ?thesis by (rule op [unfolded eq])
qed

text \<open>Going back to the start of the exchange.\<close>

definition restarted :: "ospf6_neighbor \<Rightarrow> ospf6_neighbor" where
  "restarted on = (cleared (set_all_bits (on\<lparr>on_state := OSPF6_NEIGHBOR_EXSTART\<rparr>)))\<lparr>on_thread_send_dbdesc := True\<rparr>"

lemma nbr_try_restart:
  "nbr_try a (\<lambda>st. do { st \<leftarrow> ospf6_neighbor_state_change OSPF6_NEIGHBOR_EXSTART a st; st \<leftarrow> upd_nbr a set_all_bits st;
      st \<leftarrow> clear_exchange a st; schedule_dbdesc a st }) restarted"
proof -
  have b: "on_if (set_all_bits on) = on_if on" for on by (simp add: set_all_bits_def)
  have eq: "restarted = (((\<lambda>on. on\<lparr>on_thread_send_dbdesc := True\<rparr>) \<circ> cleared) \<circ> set_all_bits) \<circ> (\<lambda>on. on\<lparr>on_state := OSPF6_NEIGHBOR_EXSTART\<rparr>)"
    by (simp add: restarted_def fun_eq_iff)
  show ?thesis unfolding eq by (intro nbr_try_seq nbr_try_state nbr_try_op nbr_op_upd nbr_op_clear nbr_op_dbdesc b)
qed

section \<open>The state machine\<close>

datatype nevent = HelloReceived | TwoWayReceived | NegotiationDone | ExchangeDone | LoadingDone | AdjOK
  | SeqNumberMismatch | BadLSReq | OneWayReceived

fun handle :: "timeval \<Rightarrow> nevent \<Rightarrow> nat \<Rightarrow> ospf6 \<Rightarrow> ospf6 option" where
  "handle now HelloReceived a st = hello_received a st" |
  "handle now TwoWayReceived a st = twoway_received a st" |
  "handle now NegotiationDone a st = negotiation_done now a st" |
  "handle now ExchangeDone a st = exchange_done a st" |
  "handle now LoadingDone a st = loading_done a st" |
  "handle now AdjOK a st = adj_ok a st" |
  "handle now SeqNumberMismatch a st = seqnumber_mismatch a st" |
  "handle now BadLSReq a st = bad_lsreq a st" |
  "handle now OneWayReceived a st = oneway_received a st"

text \<open>
  The next state, from whether the interface needs an adjacency with the neighbour, whether
  nothing is left to be requested from it, and its state.
\<close>

fun nsm :: "nevent \<Rightarrow> bool \<Rightarrow> bool \<Rightarrow> u8 \<Rightarrow> u8" where
  "nsm HelloReceived need synced s = (if s \<le> OSPF6_NEIGHBOR_DOWN then OSPF6_NEIGHBOR_INIT else s)" |
  "nsm TwoWayReceived need synced s = (if s > OSPF6_NEIGHBOR_INIT then s else if need then OSPF6_NEIGHBOR_EXSTART else OSPF6_NEIGHBOR_TWOWAY)" |
  "nsm NegotiationDone need synced s = (if s = OSPF6_NEIGHBOR_EXSTART then OSPF6_NEIGHBOR_EXCHANGE else s)" |
  "nsm ExchangeDone need synced s = (if s = OSPF6_NEIGHBOR_EXCHANGE then (if synced then OSPF6_NEIGHBOR_FULL else OSPF6_NEIGHBOR_LOADING) else s)" |
  "nsm LoadingDone need synced s = (if s = OSPF6_NEIGHBOR_LOADING then OSPF6_NEIGHBOR_FULL else s)" |
  "nsm AdjOK need synced s = (if s = OSPF6_NEIGHBOR_TWOWAY \<and> need then OSPF6_NEIGHBOR_EXSTART else s)" |
  "nsm SeqNumberMismatch need synced s = (if s \<ge> OSPF6_NEIGHBOR_EXCHANGE then OSPF6_NEIGHBOR_EXSTART else s)" |
  "nsm BadLSReq need synced s = (if s \<ge> OSPF6_NEIGHBOR_EXCHANGE then OSPF6_NEIGHBOR_EXSTART else s)" |
  "nsm OneWayReceived need synced s = (if s \<ge> OSPF6_NEIGHBOR_TWOWAY then OSPF6_NEIGHBOR_INIT else s)"

text \<open>What a handler that returns has done to its neighbour.\<close>

definition nsm_result :: "nevent \<Rightarrow> bool \<Rightarrow> nat \<Rightarrow> ospf6 \<Rightarrow> ospf6_neighbor \<Rightarrow> ospf6 \<Rightarrow> bool" where
  "nsm_result ev need a st on st' \<longleftrightarrow> touches a st st' \<and> (\<exists>on'. top_nbr st' a = Some on' \<and> on_if on' = on_if on
     \<and> on_router_id on' = on_router_id on \<and> on_state on' = nsm ev need (on_request_list on = []) (on_state on)
     \<and> on_request_list on' = (if ev \<in> {NegotiationDone, SeqNumberMismatch, BadLSReq} \<and> on_state on' \<noteq> on_state on
          \<or> on_request_list on = [] then [] else on_request_list on))"

lemma need_adjacency_alive: "alive a st on \<Longrightarrow> \<exists>need. need_adjacency a st = Some need"
  by (auto simp: alive_def need_adjacency_def)

text \<open>A handler behaves as the machine prescribes if it returns, and it returns when the interface is
  connected to the controller.\<close>

definition nsm_step :: "nevent \<Rightarrow> bool \<Rightarrow> nat \<Rightarrow> ospf6 \<Rightarrow> ospf6_neighbor \<Rightarrow> ospf6 option \<Rightarrow> bool" where
  "nsm_step ev need a st on r \<longleftrightarrow> (\<forall>st'. r = Some st' \<longrightarrow> nsm_result ev need a st on st') \<and> (linked st on \<longrightarrow> r \<noteq> None)"

lemma nsm_step_Some: "nsm_step ev need a st on (Some st') = nsm_result ev need a st on st'"
  by (simp add: nsm_step_def)

lemma nsm_step_emit: "nsm_step ev need a (emit acts st) on r = nsm_step ev need a st on r"
  by (simp add: nsm_step_def nsm_result_def)

lemma nsm_stepI:
  assumes "nbr_try a op g" "alive a st on" "on_router_id (g on) = on_router_id on" "on_state (g on) = nsm ev need (on_request_list on = []) (on_state on)"
    "on_request_list (g on) = (if ev \<in> {NegotiationDone, SeqNumberMismatch, BadLSReq} \<and> on_state (g on) \<noteq> on_state on \<or> on_request_list on = [] then [] else on_request_list on)"
  shows "nsm_step ev need a st on (op st)"
  unfolding nsm_step_def
proof (intro conjI allI impI)
  fix st'
  assume "op st = Some st'"
  from nbr_tryD(1) [OF assms(1,2)] nbr_tryD(2) [OF assms(1,2) this] assms(3-5) show "nsm_result ev need a st on st'"
    by (auto simp: nsm_result_def)
next
  show "op st \<noteq> None" if "linked st on" using nbr_tryD(3) [OF assms(1,2) that] by auto
qed

lemma nbr_try_read:
  assumes "\<And>on oi. nbr_try a (f on oi) (g on)"
  shows "nbr_try a (\<lambda>st. do { on \<leftarrow> top_nbr st a; oi \<leftarrow> top_if st (on_if on); f on oi st }) (\<lambda>on. g on on)"
  unfolding nbr_try_def
proof (intro allI impI)
  fix st on
  assume al: "alive a st on"
  then obtain oi where "top_nbr st a = Some on" "top_if st (on_if on) = Some oi" by (auto simp: alive_def)
  with assms [of on oi, unfolded nbr_try_def, rule_format, OF al]
  show "on_if (g on on) = on_if on \<and> (\<forall>st'. (do { on \<leftarrow> top_nbr st a; oi \<leftarrow> top_if st (on_if on); f on oi st }) = Some st'
    \<longrightarrow> touches a st st' \<and> top_nbr st' a = Some (g on on)) \<and> (linked st on \<longrightarrow> (do { on \<leftarrow> top_nbr st a; oi \<leftarrow> top_if st (on_if on); f on oi st }) \<noteq> None)" by simp
qed

lemma nbr_try_cond: "nbr_try a f g \<Longrightarrow> nbr_try a h k \<Longrightarrow> nbr_try a (\<lambda>st. if c then f st else h st) (if c then g else k)"
  by simp

lemma hello_nsm:
  assumes "alive a st on"
  shows "nsm_step HelloReceived need a st on (hello_received a st)"
proof -
  let ?off = "\<lambda>on. if on_inactivity_timer on then on_inactivity_timer_update (\<lambda>_. False) on else on"
  let ?set = "\<lambda>x. x\<lparr>on_inactivity_timer := True\<rparr>"
  let ?go = "\<lambda>on. (if on_state on \<le> OSPF6_NEIGHBOR_DOWN then (\<lambda>x. x\<lparr>on_state := OSPF6_NEIGHBOR_INIT\<rparr>) else (\<lambda>x. x)) \<circ> ?set"
  have "nbr_try a (hello_received a) ((\<lambda>on. ?go on on) \<circ> ?off)"
    unfolding hello_received_def [abs_def]
    by (intro nbr_try_seq nbr_try_read nbr_try_emit nbr_try_cond nbr_try_state nbr_try_op [OF nbr_op_off] nbr_try_op [OF nbr_op_upd] nbr_try_op [OF nbr_op_skip]) simp_all
  then show ?thesis using assms by (rule nsm_stepI) simp_all
qed

lemma twoway_nsm:
  assumes al: "alive a st on" and need: "need_adjacency a st = Some need"
  shows "nsm_step TwoWayReceived need a st on (twoway_received a st)"
proof -
  have tn: "top_nbr st a = Some on" using al by (simp add: alive_def)
  let ?st = "emit [Add_event (Neighbor_change (on_if on))] st"
  have need': "need_adjacency a ?st = Some need" using need by (simp add: need_adjacency_def)
  let ?go = "\<lambda>st. do { st \<leftarrow> ospf6_neighbor_state_change OSPF6_NEIGHBOR_EXSTART a st; st \<leftarrow> upd_nbr a set_all_bits st; schedule_dbdesc a st }"
  have go: "nbr_try a ?go (((\<lambda>on. on\<lparr>on_thread_send_dbdesc := True\<rparr>) \<circ> set_all_bits) \<circ> (\<lambda>on. on\<lparr>on_state := OSPF6_NEIGHBOR_EXSTART\<rparr>))"
    by (intro nbr_try_seq nbr_try_state nbr_try_op nbr_op_upd nbr_op_dbdesc) (simp add: set_all_bits_def)
  consider "on_state on > OSPF6_NEIGHBOR_INIT" | "\<not> on_state on > OSPF6_NEIGHBOR_INIT" "need" | "\<not> on_state on > OSPF6_NEIGHBOR_INIT" "\<not> need" by blast
  then show ?thesis
  proof cases
    case 1
    then show ?thesis using tn by (auto simp: twoway_received_def nsm_step_Some nsm_result_def)
  next
    case 2
    have "nsm_step TwoWayReceived need a ?st on (?go ?st)"
      by (rule nsm_stepI [OF go]) (use al 2 in \<open>simp_all add: set_all_bits_def\<close>)
    then show ?thesis using 2 tn need' by (simp add: twoway_received_def nsm_step_emit)
  next
    case 3
    have "nsm_step TwoWayReceived need a ?st on (ospf6_neighbor_state_change OSPF6_NEIGHBOR_TWOWAY a ?st)"
      by (rule nsm_stepI [OF nbr_try_state]) (use al 3 in simp_all)
    then show ?thesis using 3 tn need' by (simp add: twoway_received_def nsm_step_emit)
  qed
qed

lemma exchange_nsm:
  assumes al: "alive a st on"
  shows "nsm_step ExchangeDone need a st on (exchange_done a st)"
proof (cases "on_state on = OSPF6_NEIGHBOR_EXCHANGE")
  case False
  with al show ?thesis by (auto simp: exchange_done_def nsm_step_Some nsm_result_def alive_def)
next
  case True
  let ?off = "\<lambda>on. if on_thread_send_dbdesc on then on_thread_send_dbdesc_update (\<lambda>_. False) on else on"
  let ?to = "if on_request_list on = [] then OSPF6_NEIGHBOR_FULL else OSPF6_NEIGHBOR_LOADING"
  let ?op = "\<lambda>st. do { st \<leftarrow> nbr_thread_off on_thread_send_dbdesc on_thread_send_dbdesc_update Dbdesc_send a st;
    st \<leftarrow> upd_nbr a (\<lambda>x. x\<lparr>on_dbdesc_list := []\<rparr>) st; ospf6_neighbor_state_change ?to a st }"
  have "nbr_try a ?op (((\<lambda>x. x\<lparr>on_state := ?to\<rparr>) \<circ> (\<lambda>x. x\<lparr>on_dbdesc_list := []\<rparr>)) \<circ> ?off)"
    by (intro nbr_try_seq nbr_try_state nbr_try_op [OF nbr_op_off] nbr_try_op [OF nbr_op_upd]) simp_all
  from nsm_stepI [OF this al, of ExchangeDone need] True have "nsm_step ExchangeDone need a st on (?op st)" by simp
  moreover have "exchange_done a st = ?op st" using True al by (simp add: exchange_done_def alive_def)
  ultimately show ?thesis by simp
qed

lemma loading_nsm:
  assumes al: "alive a st on" and r: "on_state on = OSPF6_NEIGHBOR_LOADING \<Longrightarrow> on_request_list on = []"
  shows "nsm_step LoadingDone need a st on (loading_done a st)"
  using nsm_stepI [OF nbr_try_state al, of OSPF6_NEIGHBOR_FULL LoadingDone need] al r
  by (cases "on_state on = OSPF6_NEIGHBOR_LOADING") (auto simp: loading_done_def nsm_step_Some nsm_result_def alive_def)

lemma loading_asserts: "alive a st on \<Longrightarrow> on_state on = OSPF6_NEIGHBOR_LOADING \<Longrightarrow> on_request_list on \<noteq> [] \<Longrightarrow> loading_done a st = None"
  by (simp add: loading_done_def alive_def)

lemma adj_ok_nsm:
  assumes al: "alive a st on" and "need_adjacency a st = Some need"
  shows "nsm_step AdjOK need a st on (adj_ok a st)"
  using nsm_stepI [OF nbr_try_state al, of OSPF6_NEIGHBOR_EXSTART AdjOK need] assms
  by (cases "on_state on = OSPF6_NEIGHBOR_TWOWAY \<and> need") (auto simp: adj_ok_def nsm_step_Some nsm_result_def alive_def)

lemma restart_nsm:
  assumes al: "alive a st on" and ev: "ev = SeqNumberMismatch \<or> ev = BadLSReq"
  shows "nsm_step ev need a st on (handle now ev a st)"
proof -
  let ?op = "\<lambda>st. do { st \<leftarrow> ospf6_neighbor_state_change OSPF6_NEIGHBOR_EXSTART a st; st \<leftarrow> upd_nbr a set_all_bits st;
      st \<leftarrow> clear_exchange a st; schedule_dbdesc a st }"
  have h: "handle now ev a st = (if on_state on < OSPF6_NEIGHBOR_EXCHANGE then Some st else ?op st)"
    using ev al by (auto simp: seqnumber_mismatch_def bad_lsreq_def alive_def)
  show ?thesis
  proof (cases "on_state on < OSPF6_NEIGHBOR_EXCHANGE")
    case True
    then show ?thesis using h ev al by (auto simp: nsm_step_Some nsm_result_def alive_def)
  next
    case False
    then have "on_state on \<noteq> OSPF6_NEIGHBOR_EXSTART" by (auto simp: neighbor_states)
    with nsm_stepI [OF nbr_try_restart al, of ev need] False ev
    have "nsm_step ev need a st on (?op st)" by (auto simp: restarted_def cleared_def set_all_bits_def)
    with h False show ?thesis by simp
  qed
qed

lemma oneway_nsm:
  assumes al: "alive a st on"
  shows "nsm_step OneWayReceived need a st on (oneway_received a st)"
proof (cases "on_state on < OSPF6_NEIGHBOR_TWOWAY")
  case True
  with al show ?thesis by (auto simp: oneway_received_def nsm_step_Some nsm_result_def alive_def)
next
  case False
  have e: "nsm_result OneWayReceived need a st on (emit acts s1)" if "nsm_result OneWayReceived need a st on s1" for acts s1
    using that by (auto simp: nsm_result_def touches_def)
  from nsm_stepI [OF nbr_try_state al, of OSPF6_NEIGHBOR_INIT OneWayReceived need] False
  have "nsm_step OneWayReceived need a st on (ospf6_neighbor_state_change OSPF6_NEIGHBOR_INIT a st)" by (simp add: not_less)
  with False al show ?thesis
    by (cases "ospf6_neighbor_state_change OSPF6_NEIGHBOR_INIT a st") (auto simp: oneway_received_def nsm_step_def alive_def intro: e)
qed

lemma negotiation_nsm:
  assumes al: "alive a st on" and r: "negotiation_done now a st = Some st'"
  shows "nsm_result NegotiationDone need a st on st'"
proof (cases "on_state on = OSPF6_NEIGHBOR_EXSTART")
  case False
  with al r show ?thesis by (auto simp: negotiation_done_def nsm_result_def alive_def)
next
  case True
  from nbr_opD [OF nbr_op_clear al] obtain s1 where s1: "clear_exchange a st = Some s1" "touches a st s1" "top_nbr s1 a = Some (cleared on)"
    "alive a s1 (cleared on)" by blast
  have i: "on_if (cleared on) = on_if on" by (simp add: cleared_def)
  from r True al s1 obtain oi lsdb s2 retrans summary aslsdb s3 where
    u: "top_if s1 (on_if on) = Some oi" "upd_if (on_if on) (\<lambda>x. x\<lparr>oi_lsdb := lsdb\<rparr>) s1 = Some s2"
    and fin: "upd_nbr a (\<lambda>x. x\<lparr>on_retrans_list := retrans, on_summary_list := summary,
            on_dbdesc_bits := on_dbdesc_bits x AND NOT OSPF6_DBDESC_IBIT\<rparr>) (s2\<lparr>top_lsdb := aslsdb\<rparr>) = Some s3"
         "ospf6_neighbor_state_change OSPF6_NEIGHBOR_EXCHANGE a s3 = Some st'"
    by (auto simp: negotiation_done_def alive_def i bind_eq_Some_conv)
  let ?s2 = "s2\<lparr>top_lsdb := aslsdb\<rparr>"
  have t2: "touches a s1 ?s2" "top_nbr ?s2 a = Some (cleared on)"
    using u s1(3) by (auto simp: upd_if_def heap_upd_def touches_def if_shape_def)
  have al2: "alive a ?s2 (cleared on)" by (rule alive_touches [OF s1(4) t2]) simp
  let ?g = "\<lambda>x. x\<lparr>on_retrans_list := retrans, on_summary_list := summary, on_dbdesc_bits := on_dbdesc_bits x AND NOT OSPF6_DBDESC_IBIT\<rparr>"
  have "nbr_try a (\<lambda>st. do { st \<leftarrow> upd_nbr a ?g st; ospf6_neighbor_state_change OSPF6_NEIGHBOR_EXCHANGE a st })
    ((\<lambda>x. x\<lparr>on_state := OSPF6_NEIGHBOR_EXCHANGE\<rparr>) \<circ> ?g)" by (intro nbr_try_seq nbr_try_state nbr_try_op nbr_op_upd) simp
  from nbr_tryD(2) [OF this al2, of st'] fin have "touches a ?s2 st'" "top_nbr st' a = Some ((?g (cleared on))\<lparr>on_state := OSPF6_NEIGHBOR_EXCHANGE\<rparr>)" by auto
  with touches_trans [OF touches_trans [OF s1(2) t2(1)]] True show ?thesis
    by (auto simp: nsm_result_def cleared_def neighbor_states)
qed

text \<open>All handlers together.\<close>

lemma handle_step:
  assumes "alive a st on" "need_adjacency a st = Some need" "ev \<noteq> NegotiationDone"
    "ev = LoadingDone \<Longrightarrow> on_state on = OSPF6_NEIGHBOR_LOADING \<Longrightarrow> on_request_list on = []"
  shows "nsm_step ev need a st on (handle now ev a st)"
proof (cases ev)
  case LoadingDone
  then show ?thesis using loading_nsm [OF assms(1), of need] assms(4) by simp
next
  case SeqNumberMismatch
  then show ?thesis by (intro restart_nsm [OF assms(1)]) simp
next
  case BadLSReq
  then show ?thesis by (intro restart_nsm [OF assms(1)]) simp
qed (use assms(3) hello_nsm [OF assms(1)] twoway_nsm [OF assms(1,2)] exchange_nsm [OF assms(1)] adj_ok_nsm [OF assms(1,2)] oneway_nsm [OF assms(1)] in auto)

lemma handle_nsm:
  assumes "alive a st on" "need_adjacency a st = Some need" "handle now ev a st = Some st'"
  shows "nsm_result ev need a st on st'"
proof (cases "ev = NegotiationDone")
  case True
  with assms negotiation_nsm [OF assms(1)] show ?thesis by simp
next
  case False
  have "on_request_list on = []" if "ev = LoadingDone" "on_state on = OSPF6_NEIGHBOR_LOADING"
    using that assms(3) loading_asserts [OF assms(1)] by auto
  from handle_step [OF assms(1,2) False this, of now] assms(3) show ?thesis by (simp add: nsm_step_Some)
qed

lemma handle_total:
  assumes "alive a st on" "linked st on" "ev \<noteq> NegotiationDone" "ev = LoadingDone \<Longrightarrow> on_state on = OSPF6_NEIGHBOR_LOADING \<Longrightarrow> on_request_list on = []"
  shows "handle now ev a st \<noteq> None"
proof -
  from need_adjacency_alive [OF assms(1)] obtain need where "need_adjacency a st = Some need" by blast
  from handle_step [OF assms(1) this assms(3,4), of now] assms(2) show ?thesis by (simp add: nsm_step_def)
qed

end
