(* ===== verification/Ospf6_Flood.thy ===== *)
theory Ospf6_Flood
  imports Ospf6_Neighbor
begin

text \<open>
  The flooding procedure, \<open>ospf6-sibling/ospf6_flood.c\<close>, with the hooks of the databases
  (\<open>ospf6_interface.c\<close>, \<open>ospf6_area.c\<close>).

  An LSA that is being flooded is not in a database yet, so it is passed along as a value and
  returned with the changes that the calls make to it. One reading of the clock, \<open>now\<close>,
  serves a whole handler. Two places read memory that nothing has written: the counter
  \<open>retrans_added\<close>, and the result of \<open>ospf6_is_maxage_lsa_drop\<close> when it runs off its end; what
  they find there is the argument \<open>un\<close>.
\<close>

record uninit =
  un_retrans_added :: "nat \<Rightarrow> int"
  un_maxage_drop :: bool

definition LS_REFRESH_TIME :: int where "LS_REFRESH_TIME = 1800"
definition MIN_LS_ARRIVAL :: int where "MIN_LS_ARRIVAL = 1"
definition MAX_SEQUENCE_NUMBER :: u32 where "MAX_SEQUENCE_NUMBER = 0x7fffffff"

definition OSPF6_LSTYPE_ROUTER :: u16 where "OSPF6_LSTYPE_ROUTER = 0x2001"
definition OSPF6_LSTYPE_NETWORK :: u16 where "OSPF6_LSTYPE_NETWORK = 0x2002"
definition OSPF6_LSTYPE_AS_EXTERNAL :: u16 where "OSPF6_LSTYPE_AS_EXTERNAL = 0x4005"
definition OSPF6_LSTYPE_LINK :: u16 where "OSPF6_LSTYPE_LINK = 0x0008"
definition OSPF6_LSTYPE_INTRA_PREFIX :: u16 where "OSPF6_LSTYPE_INTRA_PREFIX = 0x2009"

definition OSPF6_SCOPE_LINKLOCAL :: u16 where "OSPF6_SCOPE_LINKLOCAL = 0x0000"
definition OSPF6_SCOPE_AREA :: u16 where "OSPF6_SCOPE_AREA = 0x2000"
definition OSPF6_SCOPE_AS :: u16 where "OSPF6_SCOPE_AS = 0x4000"

definition OSPF6_LSA_SCOPE :: "u16 \<Rightarrow> u16" where
  "OSPF6_LSA_SCOPE type = type AND 0x6000"

definition lsa_scope :: "ospf6_lsa \<Rightarrow> u16" where
  "lsa_scope lsa = OSPF6_LSA_SCOPE (lh_type (lsa_header lsa))"

section \<open>Databases and their hooks\<close>

definition lsdb_of :: "lsdb_ref \<Rightarrow> ospf6 \<Rightarrow> store option" where
  "lsdb_of r st = (case r of
     Interface_lsdb i \<Rightarrow> map_option oi_lsdb (top_if st i) | Area_lsdb a \<Rightarrow> map_option oa_lsdb (top_area st a) | Process_lsdb \<Rightarrow> Some (top_lsdb st))"

definition set_lsdb :: "lsdb_ref \<Rightarrow> store \<Rightarrow> ospf6 \<Rightarrow> ospf6 option" where
  "set_lsdb r S st = (case r of
     Interface_lsdb i \<Rightarrow> upd_if i (\<lambda>x. x\<lparr>oi_lsdb := S\<rparr>) st | Area_lsdb a \<Rightarrow> upd_area a (\<lambda>x. x\<lparr>oa_lsdb := S\<rparr>) st
   | Process_lsdb \<Rightarrow> Some (st\<lparr>top_lsdb := S\<rparr>))"

text \<open>An LSA of a database whose fields have been changed in place.\<close>

fun store_touch :: "ospf6_lsa \<Rightarrow> store \<Rightarrow> store" where
  "store_touch l [] = []" |
  "store_touch l (x # S) = (if OSPF6_LSA_IS_SAME x l then l # S else x # store_touch l S)"

definition touch_lsdb :: "lsdb_ref \<Rightarrow> ospf6_lsa \<Rightarrow> ospf6 \<Rightarrow> ospf6 option" where
  "touch_lsdb r l st = do { S \<leftarrow> lsdb_of r st; set_lsdb r (store_touch l S) st }"

definition ospf6_spf_schedule :: "nat \<Rightarrow> u32 \<Rightarrow> ospf6 \<Rightarrow> ospf6 option" where
  "ospf6_spf_schedule oa hostnum st =
     do {
       area \<leftarrow> top_area st oa;
       if oa_thread_spf_calculation area then Some st
       else upd_area oa (\<lambda>x. x\<lparr>oa_thread_spf_calculation := True\<rparr>) (emit [Add_event (Spf_calculation oa hostnum)] st)
     }"

definition ospf6_interface_lsdb_hook :: "ospf6_lsa \<Rightarrow> ospf6 \<Rightarrow> ospf6 option" where
  "ospf6_interface_lsdb_hook lsa st =
     (if lh_type (lsa_header lsa) \<noteq> OSPF6_LSTYPE_LINK then Some st
      else case lsa_lsdb lsa of
          Some (Interface_lsdb i) \<Rightarrow>
            do {
              ifc \<leftarrow> top_if st i;
              st \<leftarrow> (if oi_state ifc = OSPF6_INTERFACE_DR then OSPF6_INTRA_PREFIX_LSA_SCHEDULE_TRANSIT i st else Some st);
              hostnum \<leftarrow> oi_ctrl_client ifc;
              ospf6_spf_schedule (oi_area ifc) hostnum st
            }
        | _ \<Rightarrow> None)"

definition schedule_for_area :: "ospf6_lsa \<Rightarrow> ospf6 \<Rightarrow> ospf6 option" where
  "schedule_for_area lsa st = (case lsa_lsdb lsa of Some (Area_lsdb oa) \<Rightarrow> ospf6_spf_schedule oa (lsa_hostnum lsa) st | _ \<Rightarrow> None)"

definition ospf6_area_lsdb_hook_add :: "ospf6_lsa \<Rightarrow> ospf6 \<Rightarrow> ospf6 option" where
  "ospf6_area_lsdb_hook_add lsa st =
     (let type = lh_type (lsa_header lsa) in
      if type = OSPF6_LSTYPE_ROUTER \<or> type = OSPF6_LSTYPE_NETWORK then schedule_for_area lsa st
      else if type = OSPF6_LSTYPE_INTRA_PREFIX then Some (emit [Intra_prefix_lsa_add lsa] st)
      else Some st)"

definition ospf6_area_lsdb_hook_remove :: "ospf6_lsa \<Rightarrow> ospf6 \<Rightarrow> ospf6 option" where
  "ospf6_area_lsdb_hook_remove lsa st =
     (let type = lh_type (lsa_header lsa) in
      if type = OSPF6_LSTYPE_ROUTER \<or> type = OSPF6_LSTYPE_NETWORK then schedule_for_area lsa st else Some st)"

text \<open>The hooks of the database of the process do nothing.\<close>

definition lsdb_hook :: "lsdb_ref \<Rightarrow> lsa_hook \<Rightarrow> ospf6 \<Rightarrow> ospf6 option" where
  "lsdb_hook r h st =
     (case r of
        Interface_lsdb _ \<Rightarrow> (case h of On_add l \<Rightarrow> ospf6_interface_lsdb_hook l st | On_remove l \<Rightarrow> ospf6_interface_lsdb_hook l st)
      | Area_lsdb _ \<Rightarrow> (case h of On_add l \<Rightarrow> ospf6_area_lsdb_hook_add l st | On_remove l \<Rightarrow> ospf6_area_lsdb_hook_remove l st)
      | Process_lsdb \<Rightarrow> Some st)"

fun call_hooks :: "lsdb_ref \<Rightarrow> lsa_hook list \<Rightarrow> ospf6 \<Rightarrow> ospf6 option" where
  "call_hooks r [] st = Some st" |
  "call_hooks r (h # hs) st = do { st \<leftarrow> lsdb_hook r h st; call_hooks r hs st }"

section \<open>Flooding out of the interfaces\<close>

text \<open>
  Step (1)(b): what the neighbour still requests. The result says whether this neighbour is
  to be skipped. The LSA and the request are compared up to three times in a row, with the
  same result each time.
\<close>

definition examine_request :: "timeval \<Rightarrow> nat \<Rightarrow> ospf6_lsa \<Rightarrow> ospf6 \<Rightarrow> (bool \<times> ospf6_lsa \<times> ospf6) option" where
  "examine_request now a lsa st =
     do {
       on \<leftarrow> top_nbr st a;
       case store_find lsa (on_request_list on) of
         None \<Rightarrow> Some (False, lsa, st)
       | Some req \<Rightarrow>
           do {
             (c, lsa, req) \<leftarrow> ospf6_lsa_compare now lsa req;
             st \<leftarrow> upd_nbr a (\<lambda>x. x\<lparr>on_request_list := (if c > 0 then store_touch req else store_del req) (on_request_list x)\<rparr>) st;
             Some (c \<ge> 0, lsa, st)
           }
     }"

text \<open>Step (1)(d): a copy goes to the retransmission list of the neighbour.\<close>

definition schedule_retrans :: "nat \<Rightarrow> ospf6 \<Rightarrow> ospf6 option" where
  "schedule_retrans a st =
     do {
       on \<leftarrow> top_nbr st a;
       if on_thread_send_lsupdate on then Some st
       else do {
              oi \<leftarrow> top_if st (on_if on);
              upd_nbr a (\<lambda>x. x\<lparr>on_thread_send_lsupdate := True\<rparr>)
                (emit [Add_timer (Lsupdate_send_neighbor a) (uint (oi_rxmt_interval oi))] st)
            }
     }"

definition add_retrans :: "timeval \<Rightarrow> nat \<Rightarrow> ospf6_lsa \<Rightarrow> ospf6 \<Rightarrow> (ospf6_lsa \<times> ospf6) option" where
  "add_retrans now a lsa st =
     do {
       on \<leftarrow> top_nbr st a;
       let lsa = ospf6_increment_retrans_count lsa;
       (copy, lsa) \<leftarrow> ospf6_lsa_copy now lsa;
       (hooks, R) \<leftarrow> store_add now copy (on_retrans_list on);
       st \<leftarrow> upd_nbr a (\<lambda>x. x\<lparr>on_retrans_list := R\<rparr>) st;
       st \<leftarrow> schedule_retrans a st;
       Some (lsa, st)
     }"

definition flood_neighbor :: "timeval \<Rightarrow> nat option \<Rightarrow> nat \<Rightarrow> int \<Rightarrow> ospf6_lsa \<Rightarrow> ospf6 \<Rightarrow> (int \<times> ospf6_lsa \<times> ospf6) option" where
  "flood_neighbor now sender a retrans_added lsa st =
     do {
       on \<leftarrow> top_nbr st a;
       if on_state on < OSPF6_NEIGHBOR_EXCHANGE then Some (retrans_added, lsa, st)
       else do {
              (skip, lsa, st) \<leftarrow> (if on_state on \<noteq> OSPF6_NEIGHBOR_FULL then examine_request now a lsa st else Some (False, lsa, st));
              if skip \<or> sender = Some a then Some (retrans_added, lsa, st)
              else do {
                     (lsa, st) \<leftarrow> add_retrans now a lsa st;
                     retrans_added \<leftarrow> c_add retrans_added 1;
                     Some (retrans_added, lsa, st)
                   }
            }
     }"

fun flood_neighbors :: "timeval \<Rightarrow> nat option \<Rightarrow> nat list \<Rightarrow> int \<Rightarrow> ospf6_lsa \<Rightarrow> ospf6 \<Rightarrow> (int \<times> ospf6_lsa \<times> ospf6) option" where
  "flood_neighbors now sender [] retrans_added lsa st = Some (retrans_added, lsa, st)" |
  "flood_neighbors now sender (a # as) retrans_added lsa st =
     do {
       (retrans_added, lsa, st) \<leftarrow> flood_neighbor now sender a retrans_added lsa st;
       flood_neighbors now sender as retrans_added lsa st
     }"

definition resend_lsupdate :: "nat \<Rightarrow> ospf6 \<Rightarrow> ospf6 option" where
  "resend_lsupdate a st =
     do {
       st \<leftarrow> nbr_thread_off on_thread_send_lsupdate on_thread_send_lsupdate_update Lsupdate_send_neighbor a st;
       upd_nbr a (\<lambda>x. x\<lparr>on_thread_send_lsupdate := True\<rparr>) (emit [Add_event (Lsupdate_send_neighbor a)] st)
     }"

text \<open>Steps (3) and (4): an LSA that came in on this interface is not always sent out again.\<close>

definition not_back :: "nat option \<Rightarrow> nat \<Rightarrow> ospf6 \<Rightarrow> bool option" where
  "not_back sender oi st =
     (case sender of
        None \<Rightarrow> Some False
      | Some f \<Rightarrow> do { n \<leftarrow> top_nbr st f; ifc \<leftarrow> top_if st oi;
          Some (on_if n = oi \<and> (on_router_id n = oi_drouter ifc \<or> on_router_id n = oi_bdrouter ifc \<or> oi_state ifc = OSPF6_INTERFACE_BDR)) })"

text \<open>Step (5): on a broadcast interface a copy goes to the list of updates of the interface.\<close>

definition schedule_lsupdate :: "nat \<Rightarrow> ospf6 \<Rightarrow> ospf6 option" where
  "schedule_lsupdate oi st =
     do {
       ifc \<leftarrow> top_if st oi;
       if oi_thread_send_lsupdate ifc then Some st
       else upd_if oi (\<lambda>x. x\<lparr>oi_thread_send_lsupdate := True\<rparr>) (emit [Add_event (Lsupdate_send_interface oi)] st)
     }"

definition send_out :: "timeval \<Rightarrow> nat \<Rightarrow> ospf6_interface \<Rightarrow> ospf6_lsa \<Rightarrow> ospf6 \<Rightarrow> (ospf6_lsa \<times> ospf6) option" where
  "send_out now oi ifc lsa st =
     (if oi_broadcast ifc
      then do {
             (copy, lsa) \<leftarrow> ospf6_lsa_copy now lsa;
             (hooks, L) \<leftarrow> store_add now copy (oi_lsupdate_list ifc);
             st \<leftarrow> upd_if oi (\<lambda>x. x\<lparr>oi_lsupdate_list := L\<rparr>) st;
             st \<leftarrow> schedule_lsupdate oi st;
             Some (lsa, st)
           }
      else do { st \<leftarrow> for_each_nbr resend_lsupdate (oi_neighbor_list ifc) st; Some (lsa, st) })"

definition ospf6_flood_interface :: "timeval \<Rightarrow> uninit \<Rightarrow> nat option \<Rightarrow> nat \<Rightarrow> ospf6_lsa \<Rightarrow> ospf6 \<Rightarrow> (ospf6_lsa \<times> ospf6) option" where
  "ospf6_flood_interface now un sender oi lsa st =
     do {
       ifc \<leftarrow> top_if st oi;
       (retrans_added, lsa, st) \<leftarrow> flood_neighbors now sender (oi_neighbor_list ifc) (un_retrans_added un oi) lsa st;
       if retrans_added = 0 then Some (lsa, st)
       else do {
              back \<leftarrow> not_back sender oi st;
              if back then Some (lsa, st) else send_out now oi ifc lsa st
            }
     }"

text \<open>An LSA of link-local scope stays on its interface.\<close>

definition other_interface :: "nat \<Rightarrow> ospf6_lsa \<Rightarrow> bool option" where
  "other_interface oi lsa =
     (if lsa_scope lsa = OSPF6_SCOPE_LINKLOCAL then do { r \<leftarrow> lsa_lsdb lsa; Some (r \<noteq> Interface_lsdb oi) } else Some False)"

fun flood_interfaces :: "timeval \<Rightarrow> uninit \<Rightarrow> nat option \<Rightarrow> nat list \<Rightarrow> ospf6_lsa \<Rightarrow> ospf6 \<Rightarrow> (ospf6_lsa \<times> ospf6) option" where
  "flood_interfaces now un sender [] lsa st = Some (lsa, st)" |
  "flood_interfaces now un sender (oi # ois) lsa st =
     do {
       other \<leftarrow> other_interface oi lsa;
       (lsa, st) \<leftarrow> (if other then Some (lsa, st) else ospf6_flood_interface now un sender oi lsa st);
       flood_interfaces now un sender ois lsa st
     }"

definition ospf6_flood_area :: "timeval \<Rightarrow> uninit \<Rightarrow> nat option \<Rightarrow> nat \<Rightarrow> ospf6_lsa \<Rightarrow> ospf6 \<Rightarrow> (ospf6_lsa \<times> ospf6) option" where
  "ospf6_flood_area now un sender oa lsa st = do { area \<leftarrow> top_area st oa; flood_interfaces now un sender (oa_if_list area) lsa st }"

text \<open>The area that an LSA of link-local scope belongs to is read through its interface.\<close>

definition other_area :: "nat \<Rightarrow> ospf6_lsa \<Rightarrow> ospf6 \<Rightarrow> bool option" where
  "other_area oa lsa st =
     (if lsa_scope lsa = OSPF6_SCOPE_AREA then do { r \<leftarrow> lsa_lsdb lsa; Some (r \<noteq> Area_lsdb oa) }
      else if lsa_scope lsa = OSPF6_SCOPE_LINKLOCAL
      then (case lsa_lsdb lsa of Some (Interface_lsdb i) \<Rightarrow> do { ifc \<leftarrow> top_if st i; Some (oi_area ifc \<noteq> oa) } | _ \<Rightarrow> None)
      else Some False)"

fun flood_areas :: "timeval \<Rightarrow> uninit \<Rightarrow> nat option \<Rightarrow> nat list \<Rightarrow> ospf6_lsa \<Rightarrow> ospf6 \<Rightarrow> (ospf6_lsa \<times> ospf6) option" where
  "flood_areas now un sender [] lsa st = Some (lsa, st)" |
  "flood_areas now un sender (oa # oas) lsa st =
     do {
       other \<leftarrow> other_area oa lsa st;
       area \<leftarrow> top_area st oa;
       (lsa, st) \<leftarrow> (if other \<or> lh_type (lsa_header lsa) = OSPF6_LSTYPE_AS_EXTERNAL \<and> oa_stub area then Some (lsa, st)
                      else ospf6_flood_area now un sender oa lsa st);
       flood_areas now un sender oas lsa st
     }"

definition ospf6_flood :: "timeval \<Rightarrow> uninit \<Rightarrow> nat option \<Rightarrow> ospf6_lsa \<Rightarrow> ospf6 \<Rightarrow> (ospf6_lsa \<times> ospf6) option" where
  "ospf6_flood now un sender lsa st = flood_areas now un sender (top_area_list st) lsa st"

text \<open>\<open>ospf6_flood_clear\<close> has no effect yet.\<close>

definition ospf6_flood_clear :: "ospf6_lsa \<Rightarrow> ospf6 \<Rightarrow> ospf6" where
  "ospf6_flood_clear lsa st = st"

section \<open>Installation and origination\<close>

text \<open>\<open>THREAD_OFF\<close> on the threads of an LSA; the caller clears or frees the member.\<close>

definition off_expire :: "ospf6_lsa \<Rightarrow> ospf6 \<Rightarrow> ospf6" where
  "off_expire l st = (if lsa_expire l then emit [Cancel (Lsa_expire (instance_of l))] st else st)"

definition off_refresh :: "ospf6_lsa \<Rightarrow> ospf6 \<Rightarrow> ospf6" where
  "off_refresh l st = (if lsa_refresh l then emit [Cancel (Lsa_refresh (instance_of l))] st else st)"

text \<open>The instance that is replaced is freed by \<open>ospf6_lsdb_add\<close>, with its pending threads.\<close>

definition ospf6_install_lsa :: "timeval \<Rightarrow> ospf6_lsa \<Rightarrow> ospf6 \<Rightarrow> (ospf6_lsa \<times> ospf6) option" where
  "ospf6_install_lsa now lsa st =
     do {
       r \<leftarrow> lsa_lsdb lsa;
       S \<leftarrow> lsdb_of r st;
       let old = store_find lsa S;
       let st = (case old of Some l \<Rightarrow> off_expire l st | None \<Rightarrow> st);
       let S = (case old of Some l \<Rightarrow> store_touch (l\<lparr>lsa_expire := False\<rparr>) S | None \<Rightarrow> S);
       let (m, lsa) = OSPF6_LSA_IS_MAXAGE now lsa;
       let st = (if m then st
                 else emit [Add_timer (Lsa_expire (instance_of lsa)) (uint MAXAGE + tv_sec (lsa_birth lsa) - tv_sec now)] st);
       let lsa = lsa\<lparr>lsa_expire := \<not> m, lsa_installed := now\<rparr>;
       (hooks, S) \<leftarrow> store_add now lsa S;
       lsa \<leftarrow> store_find lsa S;
       st \<leftarrow> set_lsdb r S st;
       st \<leftarrow> call_hooks r hooks st;
       Some (lsa, case old of Some l \<Rightarrow> off_refresh l st | None \<Rightarrow> st)
     }"

text \<open>
  The databases of self-originated LSAs are named by their owner as well. For an LSA of AS
  scope the result is the null pointer.
\<close>

definition ospf6_get_scoped_lsdb_self :: "ospf6_lsa \<Rightarrow> lsdb_ref option option" where
  "ospf6_get_scoped_lsdb_self lsa =
     (if lsa_scope lsa = OSPF6_SCOPE_LINKLOCAL then (case lsa_lsdb lsa of Some (Interface_lsdb i) \<Rightarrow> Some (Some (Interface_lsdb i)) | _ \<Rightarrow> None)
      else if lsa_scope lsa = OSPF6_SCOPE_AREA then (case lsa_lsdb lsa of Some (Area_lsdb a) \<Rightarrow> Some (Some (Area_lsdb a)) | _ \<Rightarrow> None)
      else if lsa_scope lsa = OSPF6_SCOPE_AS then Some None
      else None)"

definition self_lsdb_of :: "lsdb_ref \<Rightarrow> ospf6 \<Rightarrow> store option" where
  "self_lsdb_of r st = (case r of
     Interface_lsdb i \<Rightarrow> map_option oi_lsdb_self (top_if st i) | Area_lsdb a \<Rightarrow> map_option oa_lsdb_self (top_area st a) | Process_lsdb \<Rightarrow> None)"

definition set_self_lsdb :: "lsdb_ref \<Rightarrow> store \<Rightarrow> ospf6 \<Rightarrow> ospf6 option" where
  "set_self_lsdb r S st = (case r of
     Interface_lsdb i \<Rightarrow> upd_if i (\<lambda>x. x\<lparr>oi_lsdb_self := S\<rparr>) st | Area_lsdb a \<Rightarrow> upd_area a (\<lambda>x. x\<lparr>oa_lsdb_self := S\<rparr>) st | Process_lsdb \<Rightarrow> None)"

text \<open>Whether the new instance says the same as the one in the database.\<close>

definition suppressed :: "timeval \<Rightarrow> lsdb_ref \<Rightarrow> ospf6_lsa \<Rightarrow> ospf6 \<Rightarrow> (bool \<times> ospf6_lsa \<times> ospf6) option" where
  "suppressed now r lsa st =
     do {
       S \<leftarrow> lsdb_of r st;
       case store_find lsa S of
         None \<Rightarrow> Some (False, lsa, st)
       | Some old \<Rightarrow> do { (d, lsa, old) \<leftarrow> ospf6_lsa_is_differ now lsa old; st \<leftarrow> touch_lsdb r old st; Some (\<not> d, lsa, st) }
     }"

definition ospf6_lsa_originate :: "timeval \<Rightarrow> uninit \<Rightarrow> ospf6_lsa \<Rightarrow> ospf6 \<Rightarrow> ospf6 option" where
  "ospf6_lsa_originate now un lsa st =
     do {
       r \<leftarrow> lsa_lsdb lsa;
       (same, lsa, st) \<leftarrow> suppressed now r lsa st;
       if same then do { gone \<leftarrow> ospf6_lsa_delete lsa; Some st }
       else do {
              self \<leftarrow> ospf6_get_scoped_lsdb_self lsa;
              (copy, lsa) \<leftarrow> ospf6_lsa_copy now lsa;
              r_self \<leftarrow> self;
              S \<leftarrow> self_lsdb_of r_self st;
              (hooks, S) \<leftarrow> store_add now copy S;
              st \<leftarrow> set_self_lsdb r_self S st;
              let st = emit [Add_timer (Lsa_refresh (instance_of lsa)) LS_REFRESH_TIME] st;
              let lsa = lsa\<lparr>lsa_refresh := True\<rparr>;
              (lsa, st) \<leftarrow> ospf6_flood now un None lsa (ospf6_flood_clear lsa st);
              (lsa, st) \<leftarrow> ospf6_install_lsa now lsa st;
              Some st
            }
     }"

definition ospf6_lsa_originate_area :: "timeval \<Rightarrow> uninit \<Rightarrow> ospf6_lsa \<Rightarrow> nat \<Rightarrow> ospf6 \<Rightarrow> ospf6 option" where
  "ospf6_lsa_originate_area now un lsa oa st = ospf6_lsa_originate now un (lsa\<lparr>lsa_lsdb := Some (Area_lsdb oa)\<rparr>) st"

definition ospf6_lsa_originate_interface :: "timeval \<Rightarrow> uninit \<Rightarrow> ospf6_lsa \<Rightarrow> nat \<Rightarrow> ospf6 \<Rightarrow> ospf6 option" where
  "ospf6_lsa_originate_interface now un lsa oi st = ospf6_lsa_originate now un (lsa\<lparr>lsa_lsdb := Some (Interface_lsdb oi)\<rparr>) st"

text \<open>The LSA is given up: its copy among the self-originated ones goes, and it ages at once.\<close>

definition ospf6_lsa_purge :: "ospf6_lsa \<Rightarrow> ospf6 \<Rightarrow> (ospf6_lsa \<times> ospf6) option" where
  "ospf6_lsa_purge lsa st =
     do {
       self \<leftarrow> ospf6_get_scoped_lsdb_self lsa;
       st \<leftarrow> (case self of
           None \<Rightarrow> Some st
         | Some r \<Rightarrow>
             do {
               S \<leftarrow> self_lsdb_of r st;
               case store_find lsa S of
                 None \<Rightarrow> Some st
               | Some l \<Rightarrow> set_self_lsdb r (store_del l S) (off_refresh l (off_expire l st))
             });
       Some (ospf6_lsa_premature_aging lsa, st)
     }"

end
