(* ===== verification/Ospf6_Receive.thy ===== *)
theory Ospf6_Receive
  imports Ospf6_Flood
begin

text \<open>
  Received LSAs, \<open>ospf6_receive_lsa\<close> in \<open>ospf6-sibling/ospf6_flood.c\<close>, and their
  acknowledgement.
\<close>

section \<open>Acknowledgement\<close>

definition schedule_lsack :: "nat \<Rightarrow> ospf6 \<Rightarrow> ospf6 option" where
  "schedule_lsack oi st =
     do {
       ifc \<leftarrow> top_if st oi;
       if oi_thread_send_lsack ifc then Some st
       else upd_if oi (\<lambda>x. x\<lparr>oi_thread_send_lsack := True\<rparr>) (emit [Add_timer (Lsack_send_interface oi) 3] st)
     }"

definition delayed_ack :: "timeval \<Rightarrow> nat \<Rightarrow> ospf6_lsa \<Rightarrow> ospf6 \<Rightarrow> (ospf6_lsa \<times> ospf6) option" where
  "delayed_ack now oi lsa st =
     do {
       ifc \<leftarrow> top_if st oi;
       (copy, lsa) \<leftarrow> ospf6_lsa_copy now lsa;
       (hooks, L) \<leftarrow> store_add now copy (oi_lsack_list ifc);
       st \<leftarrow> upd_if oi (\<lambda>x. x\<lparr>oi_lsack_list := L\<rparr>) st;
       st \<leftarrow> schedule_lsack oi st;
       Some (lsa, st)
     }"

definition schedule_lsack_neighbor :: "nat \<Rightarrow> ospf6 \<Rightarrow> ospf6 option" where
  "schedule_lsack_neighbor a st =
     do {
       on \<leftarrow> top_nbr st a;
       if on_thread_send_lsack on then Some st
       else upd_nbr a (\<lambda>x. x\<lparr>on_thread_send_lsack := True\<rparr>) (emit [Add_event (Lsack_send_neighbor a)] st)
     }"

definition direct_ack :: "timeval \<Rightarrow> nat \<Rightarrow> ospf6_lsa \<Rightarrow> ospf6 \<Rightarrow> (ospf6_lsa \<times> ospf6) option" where
  "direct_ack now sender lsa st =
     do {
       on \<leftarrow> top_nbr st sender;
       (copy, lsa) \<leftarrow> ospf6_lsa_copy now lsa;
       (hooks, L) \<leftarrow> store_add now copy (on_lsack_list on);
       st \<leftarrow> upd_nbr sender (\<lambda>x. x\<lparr>on_lsack_list := L\<rparr>) st;
       st \<leftarrow> schedule_lsack_neighbor sender st;
       Some (lsa, st)
     }"

definition has_flag :: "u8 \<Rightarrow> ospf6_lsa \<Rightarrow> bool" where
  "has_flag f lsa \<longleftrightarrow> lsa_flag lsa AND f \<noteq> 0"

definition set_flag :: "u8 \<Rightarrow> ospf6_lsa \<Rightarrow> ospf6_lsa" where
  "set_flag f lsa = lsa\<lparr>lsa_flag := lsa_flag lsa OR f\<rparr>"

definition ospf6_acknowledge_lsa_bdrouter :: "timeval \<Rightarrow> int \<Rightarrow> nat \<Rightarrow> ospf6_lsa \<Rightarrow> ospf6 \<Rightarrow> (ospf6_lsa \<times> ospf6) option" where
  "ospf6_acknowledge_lsa_bdrouter now ismore_recent sender lsa st =
     do {
       on \<leftarrow> top_nbr st sender;
       ifc \<leftarrow> top_if st (on_if on);
       if has_flag OSPF6_LSA_FLOODBACK lsa then Some (lsa, st)
       else if ismore_recent < 0 then (if oi_drouter ifc = on_router_id on then delayed_ack now (on_if on) lsa st else Some (lsa, st))
       else if has_flag OSPF6_LSA_DUPLICATE lsa \<and> has_flag OSPF6_LSA_IMPLIEDACK lsa
       then (if oi_drouter ifc = on_router_id on then delayed_ack now (on_if on) lsa st else Some (lsa, st))
       else if has_flag OSPF6_LSA_DUPLICATE lsa then direct_ack now sender lsa st
       else Some (lsa, st)
     }"

definition ospf6_acknowledge_lsa_allother :: "timeval \<Rightarrow> int \<Rightarrow> nat \<Rightarrow> ospf6_lsa \<Rightarrow> ospf6 \<Rightarrow> (ospf6_lsa \<times> ospf6) option" where
  "ospf6_acknowledge_lsa_allother now ismore_recent sender lsa st =
     do {
       on \<leftarrow> top_nbr st sender;
       if has_flag OSPF6_LSA_FLOODBACK lsa then Some (lsa, st)
       else if ismore_recent < 0 then delayed_ack now (on_if on) lsa st
       else if has_flag OSPF6_LSA_DUPLICATE lsa \<and> has_flag OSPF6_LSA_IMPLIEDACK lsa then Some (lsa, st)
       else if has_flag OSPF6_LSA_DUPLICATE lsa then direct_ack now sender lsa st
       else Some (lsa, st)
     }"

definition ospf6_acknowledge_lsa :: "timeval \<Rightarrow> int \<Rightarrow> nat \<Rightarrow> ospf6_lsa \<Rightarrow> ospf6 \<Rightarrow> (ospf6_lsa \<times> ospf6) option" where
  "ospf6_acknowledge_lsa now ismore_recent sender lsa st =
     do {
       on \<leftarrow> top_nbr st sender;
       ifc \<leftarrow> top_if st (on_if on);
       if oi_state ifc = OSPF6_INTERFACE_BDR then ospf6_acknowledge_lsa_bdrouter now ismore_recent sender lsa st
       else ospf6_acknowledge_lsa_allother now ismore_recent sender lsa st
     }"

section \<open>Reception\<close>

definition discard :: "ospf6_lsa \<Rightarrow> ospf6 \<Rightarrow> ospf6 option" where
  "discard lsa st = do { gone \<leftarrow> ospf6_lsa_delete lsa; Some st }"

text \<open>Step (3): the database for the scope of an LSA; none for a reserved scope.\<close>

definition scope_lsdb :: "ospf6_lsa \<Rightarrow> nat \<Rightarrow> ospf6 \<Rightarrow> lsdb_ref option option" where
  "scope_lsdb lsa sender st =
     (if lsa_scope lsa = OSPF6_SCOPE_LINKLOCAL then do { on \<leftarrow> top_nbr st sender; Some (Some (Interface_lsdb (on_if on))) }
      else if lsa_scope lsa = OSPF6_SCOPE_AREA
      then do { on \<leftarrow> top_nbr st sender; ifc \<leftarrow> top_if st (on_if on); Some (Some (Area_lsdb (oi_area ifc))) }
      else if lsa_scope lsa = OSPF6_SCOPE_AS
      then do { on \<leftarrow> top_nbr st sender; ifc \<leftarrow> top_if st (on_if on); area \<leftarrow> top_area st (oi_area ifc); Some (Some Process_lsdb) }
      else Some None)"

definition ospf6_is_maxage_lsa_drop :: "timeval \<Rightarrow> uninit \<Rightarrow> store \<Rightarrow> ospf6_lsa \<Rightarrow> bool \<times> ospf6_lsa" where
  "ospf6_is_maxage_lsa_drop now un S lsa =
     (let (m, lsa) = OSPF6_LSA_IS_MAXAGE now lsa in (m \<and> store_find lsa S = None \<and> un_maxage_drop un, lsa))"

definition timersub :: "timeval \<Rightarrow> timeval \<Rightarrow> timeval" where
  "timersub a b =
     (let sec = tv_sec a - tv_sec b; usec = tv_usec a - tv_usec b in
      if usec < 0 then \<lparr>tv_sec = sec - 1, tv_usec = usec + 1000000\<rparr> else \<lparr>tv_sec = sec, tv_usec = usec\<rparr>)"

text \<open>Step (5): the received instance is flooded, installed and acknowledged.\<close>

definition receive_newer :: "timeval \<Rightarrow> uninit \<Rightarrow> nat \<Rightarrow> lsdb_ref \<Rightarrow> ospf6_lsa option \<Rightarrow> ospf6_lsa \<Rightarrow> ospf6 \<Rightarrow> ospf6 option" where
  "receive_newer now un sender r old new st =
     (if (case old of Some l \<Rightarrow> tv_sec (timersub now (lsa_installed l)) < MIN_LS_ARRIVAL | None \<Rightarrow> False) then discard new st
      else do {
             let new = new\<lparr>lsa_received := now\<rparr>;
             (new, st) \<leftarrow> (if lh_adv_router (lsa_header new) \<noteq> top_router_id st then ospf6_flood now un (Some sender) new st else Some (new, st));
             (new, st) \<leftarrow> ospf6_install_lsa now new st;
             (new, st) \<leftarrow> ospf6_acknowledge_lsa now (-1) sender new st;
             if lh_adv_router (lsa_header new) = top_router_id st
             then touch_lsdb r (new\<lparr>lsa_refresh := True\<rparr>) (emit [Add_event (Lsa_refresh (instance_of new))] st)
             else touch_lsdb r new st
           })"

text \<open>Step (7): the received instance is the one in the database.\<close>

definition receive_same :: "timeval \<Rightarrow> nat \<Rightarrow> ospf6_lsa \<Rightarrow> ospf6 \<Rightarrow> ospf6 option" where
  "receive_same now sender new st =
     do {
       on \<leftarrow> top_nbr st sender;
       (new, st) \<leftarrow> (case store_find new (on_retrans_list on) of
           None \<Rightarrow> Some (new, st)
         | Some rem \<Rightarrow>
             do {
               orig \<leftarrow> ospf6_decrement_retrans_count rem;
               st \<leftarrow> upd_nbr sender (\<lambda>x. x\<lparr>on_retrans_list := store_del rem (on_retrans_list x)\<rparr>) st;
               Some (set_flag OSPF6_LSA_IMPLIEDACK new, st)
             });
       (new, st) \<leftarrow> ospf6_acknowledge_lsa now 0 sender new st;
       discard new st
     }"

text \<open>Step (8): the instance in the database is more recent.\<close>

definition send_database_copy :: "timeval \<Rightarrow> nat \<Rightarrow> ospf6_lsa \<Rightarrow> ospf6 \<Rightarrow> ospf6 option" where
  "send_database_copy now sender old st =
     do {
       on \<leftarrow> top_nbr st sender;
       (copy, old) \<leftarrow> ospf6_lsa_copy now old;
       (hooks, L) \<leftarrow> store_add now copy (on_lsupdate_list on);
       st \<leftarrow> upd_nbr sender (\<lambda>x. x\<lparr>on_lsupdate_list := L\<rparr>) st;
       if on_thread_send_lsupdate on then Some st
       else upd_nbr sender (\<lambda>x. x\<lparr>on_thread_send_lsupdate := True\<rparr>) (emit [Add_event (Lsupdate_send_neighbor sender)] st)
     }"

definition receive_older :: "timeval \<Rightarrow> nat \<Rightarrow> lsdb_ref \<Rightarrow> ospf6_lsa \<Rightarrow> ospf6_lsa \<Rightarrow> ospf6 \<Rightarrow> ospf6 option" where
  "receive_older now sender r old new st =
     do {
       let (m, old) = OSPF6_LSA_IS_MAXAGE now old;
       st \<leftarrow> touch_lsdb r old st;
       st \<leftarrow> (if m \<and> lh_seqnum (lsa_header old) = MAX_SEQUENCE_NUMBER then Some st else send_database_copy now sender old st);
       discard new st
     }"

definition receive_known :: "timeval \<Rightarrow> uninit \<Rightarrow> nat \<Rightarrow> lsdb_ref \<Rightarrow> ospf6_lsa \<Rightarrow> ospf6_lsa \<Rightarrow> ospf6 \<Rightarrow> ospf6 option" where
  "receive_known now un sender r old new st =
     do {
       (ismore_recent, new, old) \<leftarrow> ospf6_lsa_compare now new old;
       st \<leftarrow> touch_lsdb r old st;
       let new = (if lh_seqnum (lsa_header new) = lh_seqnum (lsa_header old) then set_flag OSPF6_LSA_DUPLICATE new else new);
       if ismore_recent < 0 then receive_newer now un sender r (Some old) new st
       else do {
              on \<leftarrow> top_nbr st sender;
              if store_find new (on_request_list on) \<noteq> None then discard new (emit [Add_event (Bad_lsreq sender)] st)
              else if ismore_recent = 0 then receive_same now sender new st
              else receive_older now sender r old new st
            }
     }"

definition ospf6_receive_lsa ::
  "timeval \<Rightarrow> uninit \<Rightarrow> nat \<Rightarrow> ospf6_lsa_header \<Rightarrow> u8 list \<Rightarrow> u32 \<Rightarrow> ospf6 \<Rightarrow> ospf6 option" where
  "ospf6_receive_lsa now un sender h body hostnum st =
     do {
       new \<leftarrow> ospf6_lsa_create now h body;
       let new = new\<lparr>lsa_hostnum := hostnum\<rparr>;
       let cksum = lh_checksum (lsa_header new);
       (c, hdr) \<leftarrow> ospf6_lsa_checksum (lsa_header new) (lsa_body new);
       let new = new\<lparr>lsa_header := hdr\<rparr>;
       if c \<noteq> cksum then discard new st
       else do {
              lsdb \<leftarrow> scope_lsdb new sender st;
              case lsdb of
                None \<Rightarrow> discard new st
              | Some r \<Rightarrow>
                  do {
                    let new = new\<lparr>lsa_lsdb := Some r\<rparr>;
                    S \<leftarrow> lsdb_of r st;
                    let (drop_it, new) = ospf6_is_maxage_lsa_drop now un S new;
                    if drop_it then discard new st
                    else case store_find new S of
                        None \<Rightarrow> receive_newer now un sender r None new st
                      | Some old \<Rightarrow> receive_known now un sender r old new st
                  }
            }
     }"

end
