(* ===== verification/Lib_Wp.thy ===== *)
theory Lib_Wp
  imports Prelude
begin

text \<open>
  Preconditions of computations in the option monad. \<open>wlp m P\<close>: if \<open>m\<close> returns, its result
  satisfies \<open>P\<close>; \<open>wp m P\<close>: \<open>m\<close> returns, and its result satisfies \<open>P\<close>. A handler is taken apart
  along its calls, each of which is replaced by what is known about it.
\<close>

section \<open>If it returns\<close>

definition wlp :: "'a option \<Rightarrow> ('a \<Rightarrow> bool) \<Rightarrow> bool" where
  "wlp m P \<longleftrightarrow> (\<forall>x. m = Some x \<longrightarrow> P x)"

lemma wlp_simps [simp]: "wlp None P" "wlp (Some x) P \<longleftrightarrow> P x" "wlp m (\<lambda>x. True)"
  by (simp_all add: wlp_def)

lemma wlp_bind [simp]: "wlp (Option.bind m f) P \<longleftrightarrow> wlp m (\<lambda>x. wlp (f x) P)"
  by (auto simp: wlp_def bind_eq_Some_conv)

lemma wlp_mono: "wlp m P \<Longrightarrow> (\<And>x. P x \<Longrightarrow> Q x) \<Longrightarrow> wlp m Q"
  by (auto simp: wlp_def)

lemma wlpD: "wlp m P \<Longrightarrow> m = Some x \<Longrightarrow> P x"
  by (simp add: wlp_def)

lemma wlpI: "(\<And>x. m = Some x \<Longrightarrow> P x) \<Longrightarrow> wlp m P"
  by (simp add: wlp_def)

lemma wlp_conj: "wlp m P \<Longrightarrow> wlp m Q \<Longrightarrow> wlp m (\<lambda>x. P x \<and> Q x)"
  by (simp add: wlp_def)

section \<open>It returns\<close>

definition wp :: "'a option \<Rightarrow> ('a \<Rightarrow> bool) \<Rightarrow> bool" where
  "wp m P \<longleftrightarrow> (\<exists>x. m = Some x \<and> P x)"

lemma wp_simps [simp]: "\<not> wp None P" "wp (Some x) P \<longleftrightarrow> P x"
  by (simp_all add: wp_def)

lemma wp_bind [simp]: "wp (Option.bind m f) P \<longleftrightarrow> wp m (\<lambda>x. wp (f x) P)"
  by (cases m) (simp_all add: wp_def)

lemma wp_mono: "wp m P \<Longrightarrow> (\<And>x. P x \<Longrightarrow> Q x) \<Longrightarrow> wp m Q"
  by (auto simp: wp_def)

lemma wpD: "wp m P \<Longrightarrow> \<exists>x. m = Some x \<and> P x"
  by (simp add: wp_def)

lemma wp_wlp: "wp m P \<Longrightarrow> wlp m Q \<Longrightarrow> wp m (\<lambda>x. P x \<and> Q x)"
  by (auto simp: wp_def wlp_def)

end
