(* ===== verification/Ospf6_Flood_Inv.thy ===== *)
theory Ospf6_Flood_Inv
  imports Ospf6_Receive Ospf6_Lsdb_Ops Lib_Wp
begin

text \<open>
  What flooding and acknowledging an LSA leave alone: the databases, the states of the
  neighbours and the links between the objects.
\<close>

section \<open>Frames\<close>

definition nbr_kept :: "ospf6_neighbor \<Rightarrow> ospf6_neighbor \<Rightarrow> bool" where
  "nbr_kept x y \<longleftrightarrow> on_if y = on_if x \<and> on_state y = on_state x \<and> on_router_id y = on_router_id x \<and> (on_request_list x = [] \<longrightarrow> on_request_list y = [])"

definition if_kept :: "ospf6_interface \<Rightarrow> ospf6_interface \<Rightarrow> bool" where
  "if_kept x y \<longleftrightarrow> oi_neighbor_list y = oi_neighbor_list x \<and> oi_area y = oi_area x \<and> oi_state y = oi_state x \<and> oi_ctrl_client y = oi_ctrl_client x"

definition area_kept :: "ospf6_area \<Rightarrow> ospf6_area \<Rightarrow> bool" where
  "area_kept x y \<longleftrightarrow> oa_if_list y = oa_if_list x \<and> oa_stub y = oa_stub x"

definition frame :: "ospf6 \<Rightarrow> ospf6 \<Rightarrow> bool" where
  "frame s st \<longleftrightarrow> top_router_id st = top_router_id s \<and> top_area_list st = top_area_list s \<and> top_brk st = top_brk s
     \<and> (\<forall>a. rel_option nbr_kept (top_nbr s a) (top_nbr st a)) \<and> (\<forall>i. rel_option if_kept (top_if s i) (top_if st i))
     \<and> (\<forall>a. rel_option area_kept (top_area s a) (top_area st a))"

definition quiet :: "ospf6 \<Rightarrow> ospf6 \<Rightarrow> bool" where
  "quiet s st \<longleftrightarrow> frame s st \<and> (\<forall>r. lsdb_of r st = lsdb_of r s)"

lemmas kept_defs = nbr_kept_def if_kept_def area_kept_def

lemma rel_option_trans: "rel_option R x y \<Longrightarrow> rel_option R y z \<Longrightarrow> (\<And>a b c. R a b \<Longrightarrow> R b c \<Longrightarrow> R a c) \<Longrightarrow> rel_option R x z"
  by (cases x; cases y; cases z) auto

lemma nbr_kept_trans: "nbr_kept x y \<Longrightarrow> nbr_kept y z \<Longrightarrow> nbr_kept x z"
  by (simp add: nbr_kept_def)

lemma if_kept_trans: "if_kept x y \<Longrightarrow> if_kept y z \<Longrightarrow> if_kept x z"
  by (simp add: if_kept_def)

lemma area_kept_trans: "area_kept x y \<Longrightarrow> area_kept y z \<Longrightarrow> area_kept x z"
  by (simp add: area_kept_def)

lemma frame_refl [simp]: "frame s s" "quiet s s"
  by (auto simp: frame_def quiet_def kept_defs intro!: option.rel_refl)

lemma frame_trans:
  assumes "frame s t" "frame t u"
  shows "frame s u"
proof -
  have "rel_option nbr_kept (top_nbr s a) (top_nbr u a)" for a
    by (rule rel_option_trans [OF _ _ nbr_kept_trans, where y = "top_nbr t a"]) (use assms in \<open>auto simp: frame_def\<close>)
  moreover have "rel_option if_kept (top_if s a) (top_if u a)" for a
    by (rule rel_option_trans [OF _ _ if_kept_trans, where y = "top_if t a"]) (use assms in \<open>auto simp: frame_def\<close>)
  moreover have "rel_option area_kept (top_area s a) (top_area u a)" for a
    by (rule rel_option_trans [OF _ _ area_kept_trans, where y = "top_area t a"]) (use assms in \<open>auto simp: frame_def\<close>)
  ultimately show ?thesis using assms by (simp add: frame_def)
qed

lemma quiet_trans: "quiet s t \<Longrightarrow> quiet t u \<Longrightarrow> quiet s u"
  unfolding quiet_def using frame_trans by metis

lemma frame_emit [simp]: "frame s (emit acts st) = frame s st" "quiet s (emit acts st) = quiet s st" "lsdb_of r (emit acts st) = lsdb_of r st"
  by (simp_all add: frame_def quiet_def emit_def lsdb_of_def split: lsdb_ref.split)

lemma frame_off [simp]:
  "frame s (off_expire l st) = frame s st" "quiet s (off_expire l st) = quiet s st" "lsdb_of r (off_expire l st) = lsdb_of r st"
  "frame s (off_refresh l st) = frame s st" "quiet s (off_refresh l st) = quiet s st" "lsdb_of r (off_refresh l st) = lsdb_of r st"
  by (simp_all add: off_expire_def off_refresh_def)

lemma upd_cases:
  "upd_nbr a f st = (case top_nbr st a of None \<Rightarrow> None | Some x \<Rightarrow> Some (st\<lparr>top_nbr := (top_nbr st)(a \<mapsto> f x)\<rparr>))"
  "upd_if a g st = (case top_if st a of None \<Rightarrow> None | Some x \<Rightarrow> Some (st\<lparr>top_if := (top_if st)(a \<mapsto> g x)\<rparr>))"
  "upd_area a h st = (case top_area st a of None \<Rightarrow> None | Some x \<Rightarrow> Some (st\<lparr>top_area := (top_area st)(a \<mapsto> h x)\<rparr>))"
  by (simp_all add: upd_nbr_def upd_if_def upd_area_def heap_upd_def split: option.split)

lemma kept_refl [simp]: "nbr_kept x x" "if_kept y y" "area_kept z z"
  by (simp_all add: kept_defs)

lemma upd_nbr_quiet: "(\<And>x. nbr_kept x (f x)) \<Longrightarrow> wlp (upd_nbr a f st) (quiet st)"
  by (auto simp: upd_cases quiet_def frame_def lsdb_of_def intro!: option.rel_refl split: option.split lsdb_ref.split)

lemma upd_if_frame: "(\<And>x. if_kept x (f x)) \<Longrightarrow> wlp (upd_if a f st) (frame st)"
  by (auto simp: upd_cases frame_def intro!: option.rel_refl split: option.split)

lemma upd_if_quiet: "(\<And>x. if_kept x (f x)) \<Longrightarrow> (\<And>x. oi_lsdb (f x) = oi_lsdb x) \<Longrightarrow> wlp (upd_if a f st) (quiet st)"
  using upd_if_frame [of f a st] by (auto simp: upd_cases quiet_def lsdb_of_def split: option.split lsdb_ref.split)

lemma upd_area_frame: "(\<And>x. area_kept x (f x)) \<Longrightarrow> wlp (upd_area a f st) (frame st)"
  by (auto simp: upd_cases frame_def intro!: option.rel_refl split: option.split)

lemma upd_area_quiet: "(\<And>x. area_kept x (f x)) \<Longrightarrow> (\<And>x. oa_lsdb (f x) = oa_lsdb x) \<Longrightarrow> wlp (upd_area a f st) (quiet st)"
  using upd_area_frame [of f a st] by (auto simp: upd_cases quiet_def lsdb_of_def split: option.split lsdb_ref.split)

text \<open>The same as rules that carry a frame along a sequence of calls.\<close>

lemma quiet_rules:
  "quiet s st \<Longrightarrow> (\<And>x. nbr_kept x (f x)) \<Longrightarrow> (\<And>st'. quiet s st' \<Longrightarrow> Q st') \<Longrightarrow> wlp (upd_nbr a f st) Q"
  "quiet s st \<Longrightarrow> (\<And>x. if_kept x (g x)) \<Longrightarrow> (\<And>x. oi_lsdb (g x) = oi_lsdb x) \<Longrightarrow> (\<And>st'. quiet s st' \<Longrightarrow> Q st') \<Longrightarrow> wlp (upd_if a g st) Q"
  "quiet s st \<Longrightarrow> (\<And>x. area_kept x (h x)) \<Longrightarrow> (\<And>x. oa_lsdb (h x) = oa_lsdb x) \<Longrightarrow> (\<And>st'. quiet s st' \<Longrightarrow> Q st') \<Longrightarrow> wlp (upd_area a h st) Q"
  by (erule wlp_mono [OF upd_nbr_quiet] wlp_mono [OF upd_if_quiet] wlp_mono [OF upd_area_quiet], assumption?, blast intro: quiet_trans)+

text \<open>Reads, whose result is known by its equation.\<close>

lemma read_rules:
  "(\<And>x. top_nbr st a = Some x \<Longrightarrow> Q1 x) \<Longrightarrow> wlp (top_nbr st a) Q1"
  "(\<And>x. top_if st a = Some x \<Longrightarrow> Q2 x) \<Longrightarrow> wlp (top_if st a) Q2"
  "(\<And>x. top_area st a = Some x \<Longrightarrow> Q3 x) \<Longrightarrow> wlp (top_area st a) Q3"
  "(\<And>hs S'. store_add now l S = Some (hs, S') \<Longrightarrow> Q4 (hs, S')) \<Longrightarrow> wlp (store_add now l S) Q4"
  "(\<And>n. c_add x y = Some n \<Longrightarrow> Q5 n) \<Longrightarrow> wlp (c_add x y) Q5"
  by (auto intro: wlpI)

section \<open>The LSA that is being flooded\<close>

text \<open>Its age and its count of retransmissions may change.\<close>

definition like :: "ospf6_lsa \<Rightarrow> ospf6_lsa \<Rightarrow> bool" where
  "like l m \<longleftrightarrow> (\<exists>g c. m = (set_age g l)\<lparr>lsa_retrans_count := c\<rparr>)"

lemma like_refl [simp]: "like l l"
  unfolding like_def by (rule exI [of _ "lh_age (lsa_header l)"], rule exI [of _ "lsa_retrans_count l"]) (simp add: set_age_def)

lemma like_set_age: "like l m \<Longrightarrow> like l (set_age g m)"
  unfolding like_def by (elim exE, rule_tac x = g in exI, rule_tac x = c in exI) (simp add: set_age_def)

lemma like_age: "like l m \<Longrightarrow> like l (snd (ospf6_lsa_age_current now m))"
  using like_set_age age_current_sets by metis

lemma like_count: "like l m \<Longrightarrow> like l (ospf6_increment_retrans_count m)"
  unfolding like_def by (elim exE, rule_tac x = g in exI, rule_tac x = "c + 1" in exI) (simp add: set_age_def ospf6_increment_retrans_count_def)

lemma copy_rule: "like l m \<Longrightarrow> (\<And>c m'. like l m' \<Longrightarrow> Q (c, m')) \<Longrightarrow> wlp (ospf6_lsa_copy now m) Q"
  using like_age [of l m now] by (auto simp: ospf6_lsa_copy_def split_beta Let_def)

lemma compare_rule:
  assumes "like l m" "\<And>c m' k'. like l m' \<Longrightarrow> Q (c, m', k')"
  shows "wlp (ospf6_lsa_compare now m k) Q"
  using assms like_age [OF assms(1), of now] by (auto simp: ospf6_lsa_compare_def split_beta Let_def)

section \<open>Flooding\<close>

abbreviation still :: "ospf6_lsa \<Rightarrow> ospf6 \<Rightarrow> ospf6_lsa \<times> ospf6 \<Rightarrow> bool" where
  "still l s \<equiv> \<lambda>(m, st). like l m \<and> quiet s st"

lemma store_nil [simp]: "store_del l [] = []"
  by (simp add: store_del_def)

lemma examine_request_quiet:
  assumes "quiet s st" "like l m"
  shows "wlp (examine_request now a m st) (\<lambda>(b, m, st). like l m \<and> quiet s st)"
  unfolding examine_request_def using assms
  by (auto intro!: read_rules quiet_rules [where s = s] compare_rule [where l = l] simp: nbr_kept_def split: option.split)

lemma add_retrans_quiet:
  assumes "quiet s st" "like l m"
  shows "wlp (add_retrans now a m st) (still l s)"
  unfolding add_retrans_def schedule_retrans_def using assms like_count [OF assms(2)]
  by (auto intro!: read_rules quiet_rules [where s = s] copy_rule [where l = l] simp: nbr_kept_def)

lemma flood_neighbor_quiet:
  assumes "quiet s st" "like l m"
  shows "wlp (flood_neighbor now sender a n m st) (\<lambda>(n, m, st). like l m \<and> quiet s st)"
  unfolding flood_neighbor_def using assms
  by (auto intro!: read_rules wlp_mono [OF examine_request_quiet [where s = s and l = l]] wlp_mono [OF add_retrans_quiet [where s = s and l = l]])

lemma flood_neighbors_quiet:
  assumes "quiet s st" "like l m"
  shows "wlp (flood_neighbors now sender as n m st) (\<lambda>(n, m, st). like l m \<and> quiet s st)"
  using assms by (induction as arbitrary: n m st) (auto intro!: wlp_mono [OF flood_neighbor_quiet [where s = s and l = l]])

lemma for_each_quiet:
  assumes "\<And>a st. quiet s st \<Longrightarrow> wlp (body a st) (quiet s)" "quiet s st"
  shows "wlp (for_each_nbr body as st) (quiet s)"
  using assms(2) by (induction as arbitrary: st) (auto intro!: read_rules wlp_mono [OF assms(1)])

lemma resend_quiet: "quiet s st \<Longrightarrow> wlp (resend_lsupdate a st) (quiet s)"
  unfolding resend_lsupdate_def nbr_thread_off_def by (auto intro!: read_rules quiet_rules [where s = s] simp: nbr_kept_def)

lemma send_out_quiet:
  assumes "quiet s st" "like l m"
  shows "wlp (send_out now oi ifc m st) (still l s)"
  unfolding send_out_def schedule_lsupdate_def using assms
  by (auto intro!: read_rules quiet_rules [where s = s] copy_rule [where l = l] wlp_mono [OF for_each_quiet [OF resend_quiet]] simp: if_kept_def)

lemma flood_interface_quiet:
  assumes "quiet s st" "like l m"
  shows "wlp (ospf6_flood_interface now un sender oi m st) (still l s)"
  unfolding ospf6_flood_interface_def not_back_def using assms
  by (auto intro!: read_rules wlp_mono [OF flood_neighbors_quiet [where s = s and l = l]] wlp_mono [OF send_out_quiet [where s = s and l = l]] split: option.split)

lemma flood_interfaces_quiet:
  assumes "quiet s st" "like l m"
  shows "wlp (flood_interfaces now un sender ois m st) (still l s)"
  using assms
proof (induction ois arbitrary: m st)
  case (Cons oi ois)
  show ?case unfolding flood_interfaces.simps other_interface_def using Cons
    by (auto intro!: wlpI [of "lsa_lsdb _"] wlp_mono [OF flood_interface_quiet [where s = s and l = l]])
qed simp

lemma flood_area_quiet:
  assumes "quiet s st" "like l m"
  shows "wlp (ospf6_flood_area now un sender oa m st) (still l s)"
  unfolding ospf6_flood_area_def using assms by (auto intro!: read_rules flood_interfaces_quiet)

lemma flood_areas_quiet:
  assumes "quiet s st" "like l m"
  shows "wlp (flood_areas now un sender oas m st) (still l s)"
  using assms
proof (induction oas arbitrary: m st)
  case (Cons oa oas)
  show ?case unfolding flood_areas.simps using Cons
    by (auto intro!: read_rules wlpI [of "other_area _ _ _"] wlp_mono [OF flood_area_quiet [where s = s and l = l]])
qed simp

lemma flood_quiet: "wlp (ospf6_flood now un sender l st) (still l st)"
  unfolding ospf6_flood_def by (rule flood_areas_quiet) simp_all

section \<open>Acknowledging\<close>

lemma delayed_ack_quiet: "wlp (delayed_ack now oi l st) (still l st)"
  unfolding delayed_ack_def schedule_lsack_def by (auto intro!: read_rules quiet_rules [where s = st] copy_rule [where l = l] simp: if_kept_def)

lemma direct_ack_quiet: "wlp (direct_ack now a l st) (still l st)"
  unfolding direct_ack_def schedule_lsack_neighbor_def by (auto intro!: read_rules quiet_rules [where s = st] copy_rule [where l = l] simp: nbr_kept_def)

lemma acknowledge_quiet: "wlp (ospf6_acknowledge_lsa now c sender l st) (still l st)"
  unfolding ospf6_acknowledge_lsa_def ospf6_acknowledge_lsa_bdrouter_def ospf6_acknowledge_lsa_allother_def
  by (auto intro!: read_rules wlp_mono [OF delayed_ack_quiet] wlp_mono [OF direct_ack_quiet])

section \<open>Hooks\<close>

lemma spf_schedule_quiet: "quiet s st \<Longrightarrow> wlp (ospf6_spf_schedule oa h st) (quiet s)"
  unfolding ospf6_spf_schedule_def by (auto intro!: read_rules quiet_rules [where s = s] simp: area_kept_def)

lemma transit_quiet: "quiet s st \<Longrightarrow> wlp (OSPF6_INTRA_PREFIX_LSA_SCHEDULE_TRANSIT oi st) (quiet s)"
  unfolding OSPF6_INTRA_PREFIX_LSA_SCHEDULE_TRANSIT_def by (auto intro!: read_rules quiet_rules [where s = s] simp: if_kept_def)

lemma hook_quiet:
  assumes "quiet s st"
  shows "wlp (lsdb_hook r h st) (quiet s)"
proof -
  note rules = read_rules spf_schedule_quiet wlp_mono [OF transit_quiet] wlpI [of "oi_ctrl_client _"]
  have "wlp (ospf6_interface_lsdb_hook l st) (quiet s)" for l
    unfolding ospf6_interface_lsdb_hook_def using assms by (auto intro!: rules split: option.split lsdb_ref.split)
  moreover have "wlp (schedule_for_area l st) (quiet s)" for l
    unfolding schedule_for_area_def using assms by (auto intro!: rules split: option.split lsdb_ref.split)
  ultimately show ?thesis using assms
    by (auto simp: lsdb_hook_def ospf6_area_lsdb_hook_add_def ospf6_area_lsdb_hook_remove_def Let_def split: lsdb_ref.split lsa_hook.split)
qed

lemma call_hooks_quiet: "quiet s st \<Longrightarrow> wlp (call_hooks r hs st) (quiet s)"
  by (induction hs arbitrary: st) (auto intro!: wlp_mono [OF hook_quiet [where s = s]])

end
