(* ===== verification/Ospf6_Election.thy ===== *)
theory Ospf6_Election
  imports Ospf6_Interface
begin

text \<open>
  Correctness of the election: a router is chosen whenever one is eligible, it is the best
  of the eligible routers, and the state of the interface agrees with the choice.
\<close>

section \<open>Choosing the best candidate\<close>

locale choice =
  fixes fit :: "'c \<Rightarrow> bool" and rank :: "'c \<Rightarrow> int" and better :: "'c option \<Rightarrow> 'c option \<Rightarrow> 'c option"
  assumes better: "better a b = (case (a, b) of
      (Some x, Some y) \<Rightarrow> if fit x \<and> fit y then (if rank x < rank y then b else a) else if fit x then a else if fit y then b else None
    | (Some x, None) \<Rightarrow> if fit x then a else None
    | (None, Some y) \<Rightarrow> if fit y then b else None
    | (None, None) \<Rightarrow> None)"
begin

definition best :: "'c list \<Rightarrow> 'c option \<Rightarrow> bool" where
  "best cs r \<longleftrightarrow> (case r of None \<Rightarrow> \<forall>c\<in>set cs. \<not> fit c
     | Some x \<Rightarrow> x \<in> set cs \<and> fit x \<and> (\<forall>c\<in>set cs. fit c \<longrightarrow> rank c \<le> rank x))"

lemma best_snoc: "best cs r \<Longrightarrow> best (cs @ [c]) (better r (Some c))"
  by (auto simp: best_def better split: option.splits if_splits)

lemma best_foldl: "best cs (foldl (\<lambda>b c. better b (Some c)) None cs)"
proof (induction cs rule: rev_induct)
  case Nil
  then show ?case by (simp add: best_def)
next
  case (snoc c cs)
  from best_snoc [OF snoc] show ?case by simp
qed

lemma best_None: "best cs None \<longleftrightarrow> (\<forall>c\<in>set cs. \<not> fit c)"
  by (simp add: best_def)

lemma best_Some: "best cs (Some x) \<longleftrightarrow> x \<in> set cs \<and> fit x \<and> (\<forall>c\<in>set cs. fit c \<longrightarrow> rank c \<le> rank x)"
  by (simp add: best_def)

end

definition fit_bdr :: "candidate \<Rightarrow> bool" where
  "fit_bdr c \<longleftrightarrow> IS_ELIGIBLE (snd c) \<and> on_drouter (snd c) \<noteq> on_router_id (snd c)"

definition fit_dr :: "candidate \<Rightarrow> bool" where
  "fit_dr c \<longleftrightarrow> IS_ELIGIBLE (snd c) \<and> on_drouter (snd c) = on_router_id (snd c)"

text \<open>Routers are compared by priority and then by router id; among the candidates for the
  backup those that declare themselves backup come first.\<close>

definition rank_dr :: "candidate \<Rightarrow> int" where
  "rank_dr c = uint (on_priority (snd c)) * 2 ^ 32 + uint (on_router_id (snd c))"

definition rank_bdr :: "candidate \<Rightarrow> int" where
  "rank_bdr c = of_bool (on_bdrouter (snd c) = on_router_id (snd c)) * 2 ^ 40 + rank_dr c"

lemma uint_bounds: "uint (p :: u8) < 256" "uint (r :: u32) < 2 ^ 32"
  using uint_bounded [of p] uint_bounded [of r] by simp_all

lemma lex_less:
  "0 \<le> r \<Longrightarrow> r < 4294967296 \<Longrightarrow> 0 \<le> s \<Longrightarrow> s < 4294967296 \<Longrightarrow> p * 4294967296 + r < q * 4294967296 + s \<longleftrightarrow> p < q \<or> p = q \<and> r < (s :: int)"
  by (cases p q rule: linorder_cases) simp_all

lemma rank_dr_less:
  "rank_dr a < rank_dr b \<longleftrightarrow> on_priority (snd a) < on_priority (snd b)
     \<or> on_priority (snd a) = on_priority (snd b) \<and> on_router_id (snd a) < on_router_id (snd b)"
  using uint_bounds(2) [of "on_router_id (snd a)"] uint_bounds(2) [of "on_router_id (snd b)"]
    uint_ge_0 [of "on_router_id (snd a)"] uint_ge_0 [of "on_router_id (snd b)"]
    lex_less [of "uint (on_router_id (snd a))" "uint (on_router_id (snd b))"]
  unfolding rank_dr_def word_less_def word_uint_eq_iff by simp

lemma rank_dr_bounds: "0 \<le> rank_dr c" "rank_dr c < 2 ^ 40"
  using uint_bounds(1) [of "on_priority (snd c)"] uint_bounds(2) [of "on_router_id (snd c)"] uint_ge_0 [of "on_priority (snd c)"] uint_ge_0 [of "on_router_id (snd c)"]
  unfolding rank_dr_def by simp_all

lemma rank_bdr_less:
  "rank_bdr a < rank_bdr b \<longleftrightarrow> (on_bdrouter (snd a) \<noteq> on_router_id (snd a) \<and> on_bdrouter (snd b) = on_router_id (snd b))
     \<or> (on_bdrouter (snd a) = on_router_id (snd a) \<longleftrightarrow> on_bdrouter (snd b) = on_router_id (snd b)) \<and> rank_dr a < rank_dr b"
  using rank_dr_bounds [of a] rank_dr_bounds [of b] unfolding rank_bdr_def of_bool_def by (simp split: if_split)

text \<open>The comparisons at the end of both functions.\<close>

lemma compare_last:
  "(if on_priority (snd x) > on_priority (snd y) then r else if on_priority (snd x) < on_priority (snd y) then s
    else if on_router_id (snd x) > on_router_id (snd y) then r else if on_router_id (snd x) < on_router_id (snd y) then s else r)
   = (if rank_dr x < rank_dr y then s else r)"
  by (cases "on_priority (snd x)" "on_priority (snd y)" rule: linorder_cases;
      cases "on_router_id (snd x)" "on_router_id (snd y)" rule: linorder_cases) (simp_all add: rank_dr_less, (metis order.asym less_irrefl)+)

lemma better_bdrouter_choice:
  "better_bdrouter a b = (case (a, b) of
      (Some x, Some y) \<Rightarrow> if fit_bdr x \<and> fit_bdr y then (if rank_bdr x < rank_bdr y then b else a)
        else if fit_bdr x then a else if fit_bdr y then b else None
    | (Some x, None) \<Rightarrow> if fit_bdr x then a else None
    | (None, Some y) \<Rightarrow> if fit_bdr y then b else None
    | (None, None) \<Rightarrow> None)"
  unfolding better_bdrouter_def Let_def compare_last
  by (cases a; cases b) (auto simp: split_beta fit_bdr_def rank_bdr_less)

lemma better_drouter_choice:
  "better_drouter a b = (case (a, b) of
      (Some x, Some y) \<Rightarrow> if fit_dr x \<and> fit_dr y then (if rank_dr x < rank_dr y then b else a)
        else if fit_dr x then a else if fit_dr y then b else None
    | (Some x, None) \<Rightarrow> if fit_dr x then a else None
    | (None, Some y) \<Rightarrow> if fit_dr y then b else None
    | (None, None) \<Rightarrow> None)"
  unfolding better_drouter_def Let_def compare_last
  by (cases a; cases b) (auto simp: split_beta fit_dr_def)

interpretation bdr: choice fit_bdr rank_bdr better_bdrouter
  by unfold_locales (rule better_bdrouter_choice)

interpretation dr: choice fit_dr rank_dr better_drouter
  by unfold_locales (rule better_drouter_choice)

section \<open>The outcome of an election\<close>

lemma foldl_best: "bdr.best cs (foldl (\<lambda>b c. better_bdrouter b (Some c)) None cs)" "dr.best cs (foldl (\<lambda>b c. better_drouter b (Some c)) None cs)"
  by (rule bdr.best_foldl dr.best_foldl)+

text \<open>What one round of the election gives, with the router itself as the last candidate.\<close>

definition round_ok :: "candidate list \<Rightarrow> ospf6_neighbor \<Rightarrow> candidate option \<Rightarrow> candidate option \<Rightarrow> bool" where
  "round_ok cs myself D B \<longleftrightarrow> (let all = cs @ [(None, myself)] in
     bdr.best all B \<and> (dr.best all D \<or> dr.best all None \<and> D = B) \<and> (D = None \<longrightarrow> dr.best all None \<and> B = None))"

lemma against_ok:
  assumes "bdr.best cs b" "dr.best cs d" "against d b myself = (D, B)"
  shows "round_ok cs myself D B"
proof -
  let ?all = "cs @ [(None, myself)]" and ?d = "better_drouter d (Some (None, myself))"
  have B: "B = better_bdrouter b (Some (None, myself))" "D = (if ?d = None then B else ?d)"
    using assms(3) by (auto simp: against_def Let_def)
  have "bdr.best ?all B" unfolding B(1) by (rule bdr.best_snoc [OF assms(1)])
  moreover have "dr.best ?all ?d" by (rule dr.best_snoc [OF assms(2)])
  ultimately show ?thesis using B(2) by (cases ?d) (auto simp: round_ok_def Let_def)
qed

lemma round_mem: "round_ok cs me D B \<Longrightarrow> r = D \<or> r = B \<Longrightarrow> r = Some c \<Longrightarrow> c \<in> set cs \<or> c = (None, me)"
  by (auto simp: round_ok_def Let_def bdr.best_def dr.best_def)

text \<open>
  The last round is held with the router itself declaring what it learned in the round before.
\<close>

lemma elect_ok:
  assumes "elect cs myself = (D, B)" and cs: "\<forall>c\<in>set cs. fst c \<noteq> None"
  shows "\<exists>me. round_ok cs me D B \<and> on_router_id me = on_router_id myself \<and> on_priority me = on_priority myself
    \<and> on_state me = on_state myself \<and> (is_myself D \<longleftrightarrow> D = Some (None, me)) \<and> (is_myself B \<longleftrightarrow> B = Some (None, me))"
proof -
  define b where "b = foldl (\<lambda>b c. better_bdrouter b (Some c)) None cs"
  define d where "d = foldl (\<lambda>b c. better_drouter b (Some c)) None cs"
  have best: "bdr.best cs b" "dr.best cs d" unfolding b_def d_def by (rule foldl_best)+
  obtain D1 B1 where r1: "against d b myself = (D1, B1)" by fastforce
  let ?me = "myself\<lparr>on_drouter := router_id_of D1, on_bdrouter := router_id_of B1\<rparr>"
  have "against d b myself = (D, B) \<or> against d b ?me = (D, B)"
    using assms(1) r1 by (auto simp: elect_def Let_def b_def [symmetric] d_def [symmetric] split: if_splits)
  then obtain me where me: "against d b me = (D, B)" "me = myself \<or> me = ?me" by blast
  from against_ok [OF best me(1)] have ok: "round_ok cs me D B" .
  have "is_myself r \<longleftrightarrow> r = Some (None, me)" if "r = D \<or> r = B" for r
    using round_mem [OF ok that] cs by (fastforce simp: is_myself_def split: option.splits)
  then show ?thesis using ok me(2) by (intro exI [of _ me]) auto
qed

lemma round_eligible: "round_ok cs me D B \<Longrightarrow> r = D \<or> r = B \<Longrightarrow> r = Some c \<Longrightarrow> IS_ELIGIBLE (snd c)"
  by (auto simp: round_ok_def Let_def bdr.best_def dr.best_def fit_bdr_def fit_dr_def)

text \<open>A router is elected whenever one is eligible.\<close>

lemma round_elects:
  assumes "round_ok cs me D B" "c \<in> set (cs @ [(None, me)])" "IS_ELIGIBLE (snd c)"
  shows "D \<noteq> None"
proof
  assume "D = None"
  with assms(1) have "bdr.best (cs @ [(None, me)]) None" "dr.best (cs @ [(None, me)]) None" by (auto simp: round_ok_def Let_def)
  with assms(2,3) show False unfolding bdr.best_None dr.best_None by (auto simp: fit_bdr_def fit_dr_def)
qed

section \<open>The election in the state\<close>

lemma candidates_exact:
  "(\<forall>a\<in>set as. top_nbr st a \<noteq> None) \<Longrightarrow> candidates as st = Some (map (\<lambda>a. (Some a, the (top_nbr st a))) as)"
  by (induction as) auto

lemma adj_ok_loop:
  "(\<forall>a\<in>set as. top_nbr st a \<noteq> None) \<Longrightarrow> for_each_nbr schedule_adj_ok as st
    = Some (emit (map (\<lambda>a. Add_event (Adj_ok a)) (filter (\<lambda>a. on_state (the (top_nbr st a)) \<ge> OSPF6_NEIGHBOR_TWOWAY) as)) st)"
proof (induction as arbitrary: st)
  case Nil
  then show ?case by (simp add: emit_def)
next
  case (Cons a as)
  then obtain on where on: "top_nbr st a = Some on" by auto
  let ?st = "if on_state on < OSPF6_NEIGHBOR_TWOWAY then st else emit [Add_event (Adj_ok a)] st"
  have nb: "top_nbr ?st = top_nbr st" by (simp add: emit_def)
  have "for_each_nbr schedule_adj_ok (a # as) st = for_each_nbr schedule_adj_ok as ?st"
    using on nb by (simp add: schedule_adj_ok_def)
  also have "\<dots> = Some (emit (map (\<lambda>a. Add_event (Adj_ok a)) (filter (\<lambda>a. on_state (the (top_nbr ?st a)) \<ge> OSPF6_NEIGHBOR_TWOWAY) as)) ?st)"
    using Cons nb by simp
  finally show ?case using on nb by (auto simp: emit_def)
qed

text \<open>The routers that can be elected on an interface, with their priorities.\<close>

definition contender :: "ospf6 \<Rightarrow> ospf6_interface \<Rightarrow> u32 \<Rightarrow> u8 \<Rightarrow> bool" where
  "contender st ifc r p \<longleftrightarrow> p \<noteq> 0 \<and> (r = top_router_id st \<and> p = oi_priority ifc
     \<or> (\<exists>a\<in>set (oi_neighbor_list ifc). \<exists>n. top_nbr st a = Some n \<and> IS_ELIGIBLE n \<and> on_router_id n = r \<and> on_priority n = p))"

lemma elect_contender:
  assumes e: "elect (map (\<lambda>a. (Some a, the (top_nbr st a))) (oi_neighbor_list ifc)) (myself_of ifc (top_router_id st)) = (D, B)"
    and nb: "\<forall>a\<in>set (oi_neighbor_list ifc). top_nbr st a \<noteq> None"
  shows "D = Some c \<or> B = Some c \<Longrightarrow> contender st ifc (router_id_of (Some c)) (on_priority (snd c))"
    and "contender st ifc r p \<Longrightarrow> D \<noteq> None"
    and "D = Some c \<Longrightarrow> a \<in> set (oi_neighbor_list ifc) \<Longrightarrow> top_nbr st a = Some n \<Longrightarrow> IS_ELIGIBLE n \<Longrightarrow> on_drouter n = on_router_id n
      \<Longrightarrow> on_priority n < on_priority (snd c) \<or> on_priority n = on_priority (snd c) \<and> on_router_id n \<le> on_router_id (snd c)"
proof -
  let ?cs = "map (\<lambda>a. (Some a, the (top_nbr st a))) (oi_neighbor_list ifc)" and ?me = "myself_of ifc (top_router_id st)"
  have "\<forall>c\<in>set ?cs. fst c \<noteq> None" by auto
  from elect_ok [OF e this] obtain me where ok: "round_ok ?cs me D B" and me: "on_router_id me = top_router_id st"
    "on_priority me = oi_priority ifc" "on_state me = OSPF6_NEIGHBOR_TWOWAY" by (auto simp: myself_of_def)
  show "contender st ifc (router_id_of (Some c)) (on_priority (snd c))" if "D = Some c \<or> B = Some c"
  proof -
    have el: "IS_ELIGIBLE (snd c)" using round_eligible [OF ok _ , of "Some c" c] that by auto
    have "c \<in> set ?cs \<or> c = (None, me)" using round_mem [OF ok, of "Some c" c] that by auto
    then show ?thesis
    proof
      assume "c = (None, me)"
      with el me show ?thesis by (simp add: contender_def router_id_of_def IS_ELIGIBLE_def)
    next
      assume "c \<in> set ?cs"
      with el nb show ?thesis by (fastforce simp: contender_def router_id_of_def IS_ELIGIBLE_def)
    qed
  qed
  show "D \<noteq> None" if "contender st ifc r p"
  proof (cases "oi_priority ifc = 0")
    case True
    with that obtain a n where a: "a \<in> set (oi_neighbor_list ifc)" "top_nbr st a = Some n" "IS_ELIGIBLE n" by (auto simp: contender_def)
    then show ?thesis by (intro round_elects [OF ok, of "(Some a, n)"]) force+
  next
    case False
    then show ?thesis using me by (intro round_elects [OF ok, of "(None, me)"]) (simp_all add: IS_ELIGIBLE_def)
  qed
  assume D: "D = Some c" and a: "a \<in> set (oi_neighbor_list ifc)" "top_nbr st a = Some n" "IS_ELIGIBLE n" "on_drouter n = on_router_id n"
  have fit: "(Some a, n) \<in> set (?cs @ [(None, me)])" "fit_dr (Some a, n)" using a by (force, simp add: fit_dr_def)
  then have "\<not> dr.best (?cs @ [(None, me)]) None" unfolding dr.best_None by blast
  with ok D have "dr.best (?cs @ [(None, me)]) (Some c)" by (auto simp: round_ok_def Let_def)
  with fit have "rank_dr (Some a, n) \<le> rank_dr c" unfolding dr.best_Some by blast
  then have "\<not> rank_dr c < rank_dr (Some a, n)" by simp
  then show "on_priority n < on_priority (snd c) \<or> on_priority n = on_priority (snd c) \<and> on_router_id n \<le> on_router_id (snd c)"
    unfolding rank_dr_less by auto
qed

lemma dr_election_exact:
  assumes i: "top_if st oi = Some ifc" and nb: "\<forall>a\<in>set (oi_neighbor_list ifc). top_nbr st a \<noteq> None"
    and e: "elect (map (\<lambda>a. (Some a, the (top_nbr st a))) (oi_neighbor_list ifc)) (myself_of ifc (top_router_id st)) = (D, B)"
  defines "new \<equiv> ifc\<lparr>oi_drouter := router_id_of D, oi_bdrouter := router_id_of B\<rparr>"
    and "events \<equiv> if oi_drouter ifc \<noteq> router_id_of D \<or> oi_bdrouter ifc \<noteq> router_id_of B
      then map (\<lambda>a. Add_event (Adj_ok a)) (filter (\<lambda>a. on_state (the (top_nbr st a)) \<ge> OSPF6_NEIGHBOR_TWOWAY) (oi_neighbor_list ifc)) else []"
  shows "dr_election oi st = Some (if is_myself D then OSPF6_INTERFACE_DR else if is_myself B then OSPF6_INTERFACE_BDR else OSPF6_INTERFACE_DROTHER,
    (emit events st)\<lparr>top_if := (top_if st)(oi \<mapsto> new)\<rparr>)"
  using i candidates_exact [OF nb] adj_ok_loop [OF nb] e
  by (auto simp: dr_election_def upd_if_def heap_upd_def new_def events_def emit_def)

lemma myself_iff:
  assumes e: "elect (map (\<lambda>a. (Some a, the (top_nbr st a))) (oi_neighbor_list ifc)) (myself_of ifc (top_router_id st)) = (D, B)"
    and own: "\<forall>a\<in>set (oi_neighbor_list ifc). on_router_id (the (top_nbr st a)) \<noteq> top_router_id st" "top_router_id st \<noteq> 0"
    and r: "r = D \<or> r = B"
  shows "is_myself r \<longleftrightarrow> router_id_of r = top_router_id st"
proof -
  let ?cs = "map (\<lambda>a. (Some a, the (top_nbr st a))) (oi_neighbor_list ifc)"
  have "\<forall>c\<in>set ?cs. fst c \<noteq> None" by auto
  from elect_ok [OF e this] obtain me where ok: "round_ok ?cs me D B" and me: "on_router_id me = top_router_id st"
    and my: "is_myself r \<longleftrightarrow> r = Some (None, me)" using r by (auto simp: myself_of_def)
  show ?thesis
  proof (cases r)
    case None
    then show ?thesis using own(2) by (simp add: router_id_of_def is_myself_def)
  next
    case (Some c)
    with round_mem [OF ok r Some] own(1) me my show ?thesis by (auto simp: router_id_of_def)
  qed
qed

text \<open>
  C31. An election on an interface whose neighbours have router ids different from the own
  one always ends with a result: when the router itself or a neighbour in state Two-Way or
  beyond has a priority other than zero, one of these is designated router, and it is not
  outranked, by priority and then by router id, by any neighbour that declares itself
  designated router; without such a router both offices stay empty. The backup is never a
  router that may not hold the office. The new state of the interface says which office the
  router itself holds, and the neighbours in Two-Way or beyond are asked to check their
  adjacency exactly when an office has changed hands.
\<close>

theorem dr_election_elects:
  assumes "top_if st oi = Some ifc" "\<forall>a\<in>set (oi_neighbor_list ifc). top_nbr st a \<noteq> None"
    "\<forall>a\<in>set (oi_neighbor_list ifc). on_router_id (the (top_nbr st a)) \<noteq> top_router_id st" "top_router_id st \<noteq> 0"
  shows "\<exists>next st' d b. dr_election oi st = Some (next, st') \<and> top_if st' oi = Some (ifc\<lparr>oi_drouter := d, oi_bdrouter := b\<rparr>)
    \<and> next = (if d = top_router_id st then OSPF6_INTERFACE_DR else if b = top_router_id st then OSPF6_INTERFACE_BDR else OSPF6_INTERFACE_DROTHER)
    \<and> (if \<exists>r p. contender st ifc r p
       then \<exists>p. contender st ifc d p \<and> (\<forall>a\<in>set (oi_neighbor_list ifc). \<forall>n. top_nbr st a = Some n \<and> IS_ELIGIBLE n \<and> on_drouter n = on_router_id n
              \<longrightarrow> on_priority n < p \<or> on_priority n = p \<and> on_router_id n \<le> d)
       else d = 0 \<and> b = 0)
    \<and> (b \<noteq> 0 \<longrightarrow> (\<exists>p. contender st ifc b p))
    \<and> top_out st' = top_out st @ (if oi_drouter ifc \<noteq> d \<or> oi_bdrouter ifc \<noteq> b
        then map (\<lambda>a. Add_event (Adj_ok a)) (filter (\<lambda>a. on_state (the (top_nbr st a)) \<ge> OSPF6_NEIGHBOR_TWOWAY) (oi_neighbor_list ifc)) else [])"
proof -
  obtain D B where e: "elect (map (\<lambda>a. (Some a, the (top_nbr st a))) (oi_neighbor_list ifc)) (myself_of ifc (top_router_id st)) = (D, B)" by fastforce
  note E = elect_contender [OF e assms(2)] and my = myself_iff [OF e assms(3,4)]
  have offices: "if \<exists>r p. contender st ifc r p
       then \<exists>p. contender st ifc (router_id_of D) p \<and> (\<forall>a\<in>set (oi_neighbor_list ifc). \<forall>n. top_nbr st a = Some n \<and> IS_ELIGIBLE n \<and> on_drouter n = on_router_id n
              \<longrightarrow> on_priority n < p \<or> on_priority n = p \<and> on_router_id n \<le> router_id_of D)
       else router_id_of D = 0 \<and> router_id_of B = 0"
  proof (cases D)
    case None
    then have "\<not> contender st ifc r p" for r p using E(2) by blast
    moreover have "B = None" using calculation E(1) by (cases B) auto
    ultimately show ?thesis using None by (simp add: router_id_of_def)
  next
    case (Some c)
    then have "contender st ifc (router_id_of D) (on_priority (snd c))" using E(1) by blast
    moreover have "router_id_of D = on_router_id (snd c)" using Some by (simp add: router_id_of_def split_beta)
    ultimately show ?thesis using E(3) [OF Some] by (auto intro!: exI [of _ "on_priority (snd c)"])
  qed
  have backup: "router_id_of B \<noteq> 0 \<longrightarrow> (\<exists>p. contender st ifc (router_id_of B) p)" using E(1) by (cases B) (auto simp: router_id_of_def)
  show ?thesis using dr_election_exact [OF assms(1,2) e] my [of D] my [of B] offices backup
    by (intro exI [of _ "router_id_of D"] exI [of _ "router_id_of B"] exI conjI) (assumption, simp_all add: emit_def)
qed

definition example_nbr :: "nat \<Rightarrow> u32 \<Rightarrow> u8 \<Rightarrow> ospf6_neighbor" where
  "example_nbr oi r s = neighbor_zero\<lparr>on_if := oi, on_router_id := r, on_state := s, on_priority := 1\<rparr>"

definition example_ospf6 :: ospf6 where
  "example_ospf6 = \<lparr>top_router_id = 10, top_restart_mode = False, top_restarted_first_egress_not_sent = False, top_ready_to_checkpoint = False, top_checkpoint_enabled = False, top_area_list = [0], top_lsdb = [], top_area = [0 \<mapsto>
       \<lparr>oa_area_id = 0, oa_stub = False, oa_if_list = [0], oa_options = [0, 0, 0x13], oa_lsdb = [], oa_lsdb_self = [], oa_thread_spf_calculation = False, oa_thread_router_lsa = False\<rparr>],
     top_if = [0 \<mapsto> (ospf6_interface_create 0 True False True)\<lparr>oi_neighbor_list := [1, 2], oi_state := OSPF6_INTERFACE_WAITING\<rparr>],
     top_nbr = [1 \<mapsto> (example_nbr 0 20 OSPF6_NEIGHBOR_TWOWAY)\<lparr>on_drouter := 20\<rparr>, 2 \<mapsto> example_nbr 0 30 OSPF6_NEIGHBOR_TWOWAY],
     top_brk = 3, top_out = []\<rparr>"

theorem dr_election_elects_witness:
  "\<exists>nx st'. dr_election 0 example_ospf6 = Some (nx, st') \<and> (\<exists>ifc. top_if st' 0 = Some ifc \<and> oi_drouter ifc = 20)"
proof -
  let ?ifc = "(ospf6_interface_create 0 True False True)\<lparr>oi_neighbor_list := [1, 2], oi_state := OSPF6_INTERFACE_WAITING\<rparr>"
  have "top_if example_ospf6 0 = Some ?ifc" by (simp add: example_ospf6_def)
  moreover have "\<forall>a\<in>set (oi_neighbor_list ?ifc). top_nbr example_ospf6 a \<noteq> None" by (simp add: example_ospf6_def)
  moreover have "\<forall>a\<in>set (oi_neighbor_list ?ifc). on_router_id (the (top_nbr example_ospf6 a)) \<noteq> top_router_id example_ospf6" "top_router_id example_ospf6 \<noteq> 0"
    by (simp_all add: example_ospf6_def example_nbr_def)
  ultimately obtain nx st' d b where r: "dr_election 0 example_ospf6 = Some (nx, st')" "top_if st' 0 = Some (?ifc\<lparr>oi_drouter := d, oi_bdrouter := b\<rparr>)"
    and d: "if \<exists>r p. contender example_ospf6 ?ifc r p
       then \<exists>p. contender example_ospf6 ?ifc d p \<and> (\<forall>a\<in>set (oi_neighbor_list ?ifc). \<forall>n. top_nbr example_ospf6 a = Some n \<and> IS_ELIGIBLE n \<and> on_drouter n = on_router_id n
              \<longrightarrow> on_priority n < p \<or> on_priority n = p \<and> on_router_id n \<le> d)
       else d = 0 \<and> b = 0"
    using dr_election_elects [of example_ospf6 0 ?ifc] by blast
  have "map_option (\<lambda>(_, st). map_option oi_drouter (top_if st 0)) (dr_election 0 example_ospf6) = Some (Some 20)" by code_simp
  with r show ?thesis by auto
qed

end
