(* ===== verification/Ospf6_Receive_Props.thy ===== *)
theory Ospf6_Receive_Props
  imports Ospf6_Flood_Inv Ospf6_Election
begin

text \<open>
  What the reception of an LSA does to the databases.
\<close>

section \<open>Contents of databases\<close>

text \<open>Header and body of an LSA, without its age and its bookkeeping.\<close>

definition core :: "ospf6_lsa \<Rightarrow> ospf6_lsa_header \<times> u8 list" where
  "core l = ((lsa_header l)\<lparr>lh_age := 0\<rparr>, lsa_body l)"

definition contents :: "store \<Rightarrow> (ospf6_lsa_header \<times> u8 list) list" where
  "contents S = map core S"

definition core_bits :: "ospf6_lsa_header \<times> u8 list \<Rightarrow> bool list" where
  "core_bits c = key_bits (lh_type (fst c)) (lh_adv_router (fst c)) (lh_id (fst c))"

lemma core_bits [simp]: "core_bits (core l) = lsa_bits l"
  by (simp add: core_bits_def core_def lsa_bits_def)

lemma core_set_age [simp]: "core (set_age g l) = core l"
  by (simp add: core_def set_age_def)

lemma core_like: "like l m \<Longrightarrow> core m = core l"
  by (auto simp: like_def core_def set_age_def)

lemma core_fields:
  assumes "core l = core m"
  shows "lh_type (lsa_header l) = lh_type (lsa_header m)" "lh_id (lsa_header l) = lh_id (lsa_header m)"
    "lh_adv_router (lsa_header l) = lh_adv_router (lsa_header m)" "lh_seqnum (lsa_header l) = lh_seqnum (lsa_header m)"
    "lsa_bits l = lsa_bits m"
proof -
  have h: "(lsa_header l)\<lparr>lh_age := 0\<rparr> = (lsa_header m)\<lparr>lh_age := 0\<rparr>" using assms by (simp add: core_def)
  show "lh_type (lsa_header l) = lh_type (lsa_header m)" using arg_cong [OF h, of lh_type] by simp
  show "lh_id (lsa_header l) = lh_id (lsa_header m)" using arg_cong [OF h, of lh_id] by simp
  show "lh_adv_router (lsa_header l) = lh_adv_router (lsa_header m)" using arg_cong [OF h, of lh_adv_router] by simp
  show "lh_seqnum (lsa_header l) = lh_seqnum (lsa_header m)" using arg_cong [OF h, of lh_seqnum] by simp
  show "lsa_bits l = lsa_bits m" using arg_cong [OF assms, of core_bits] by simp
qed

lemma core_find:
  assumes "core l = core m"
  shows "store_find l S = store_find m S"
  unfolding store_find_def core_fields(1-3) [OF assms] ..

lemma contents_put: "contents (store_put l S) =
    filter (\<lambda>c. bits_less (core_bits c) (core_bits (core l))) (contents S) @ core l # filter (\<lambda>c. bits_less (core_bits (core l)) (core_bits c)) (contents S)"
  by (simp add: contents_def store_put_def filter_map comp_def)

lemma contents_put_cong: "core l = core m \<Longrightarrow> contents S = contents T \<Longrightarrow> contents (store_put l S) = contents (store_put m T)"
  by (simp add: contents_put)

lemma touch_contents: "store_find l S = Some x \<Longrightarrow> core x = core l \<Longrightarrow> contents (store_touch l S) = contents S"
  by (induction S) (auto simp: store_find_def store_lookup_def contents_def OSPF6_LSA_IS_SAME_def)

lemma found_same: "store_find l S = Some x \<Longrightarrow> core y = core x \<Longrightarrow> store_find y S = Some x"
  using core_fields [of y x] by (auto simp: store_find_def store_lookup_def find_Some_iff)

lemma touch_found: "store_find l S = Some x \<Longrightarrow> core y = core x \<Longrightarrow> contents (store_touch y S) = contents S"
  using touch_contents [OF found_same] by metis

lemma touch_find: "store_find l S = Some x \<Longrightarrow> store_find l (store_touch l S) = Some l"
  by (induction S) (auto simp: store_find_def store_lookup_def OSPF6_LSA_IS_SAME_def split: if_splits)

lemma find_skip: "find P xs = None \<Longrightarrow> find P (xs @ ys) = find P ys"
  by (induction xs) (auto split: if_splits)

lemma find_put: "store_find l (store_put l S) = Some l"
proof -
  have "\<not> (lh_type (lsa_header x) = lh_type (lsa_header l) \<and> lh_id (lsa_header x) = lh_id (lsa_header l) \<and> lh_adv_router (lsa_header x) = lh_adv_router (lsa_header l))"
    if "x \<in> set (filter (\<lambda>x. bits_less (lsa_bits x) (lsa_bits l)) S)" for x
    using that bits_less_asym [of "lsa_bits l" "lsa_bits l"] by (auto simp: lsa_bits_def)
  then have "find (\<lambda>x. lh_type (lsa_header x) = lh_type (lsa_header l) \<and> lh_id (lsa_header x) = lh_id (lsa_header l) \<and> lh_adv_router (lsa_header x) = lh_adv_router (lsa_header l))
      (filter (\<lambda>x. bits_less (lsa_bits x) (lsa_bits l)) S) = None" unfolding find_None_iff by blast
  then show ?thesis by (simp add: store_find_def store_lookup_def store_put_def find_skip)
qed

lemma hooks_age: "wlp (store_hooks now old l) (\<lambda>(hs, m). \<exists>g. m = set_age g l)"
proof -
  have age: "\<exists>g. snd (ospf6_lsa_age_current now (set_age h l)) = set_age g l" for h using age_current_sets [of now "set_age h l"] by auto
  have base: "\<exists>g. snd (ospf6_lsa_age_current now l) = set_age g l" using age_current_sets by metis
  have chg: "wlp (ospf6_lsa_is_changed now o' l) (\<lambda>(c, x, m). \<exists>g. m = set_age g l)" for o'
    using base by (auto simp: ospf6_lsa_is_changed_def OSPF6_LSA_IS_MAXAGE_def split_beta Let_def)
  show ?thesis unfolding store_hooks_def OSPF6_LSA_IS_MAXAGE_def
    by (auto simp: split_beta Let_def base age intro!: wlp_mono [OF chg] split: option.split)
qed

lemma store_add_put: "wlp (store_add now l S) (\<lambda>(hs, T). \<exists>g. T = store_put (set_age g l) S)"
  unfolding store_add_def by (auto intro!: wlp_mono [OF hooks_age])

section \<open>Changes of the databases\<close>

definition unchanged :: "ospf6 \<Rightarrow> ospf6 \<Rightarrow> bool" where
  "unchanged s st \<longleftrightarrow> frame s st \<and> (\<forall>r. map_option contents (lsdb_of r st) = map_option contents (lsdb_of r s))"

definition installed :: "lsdb_ref \<Rightarrow> ospf6_lsa \<Rightarrow> ospf6 \<Rightarrow> ospf6 \<Rightarrow> bool" where
  "installed r new s st \<longleftrightarrow> frame s st \<and> (\<forall>q. q \<noteq> r \<longrightarrow> map_option contents (lsdb_of q st) = map_option contents (lsdb_of q s))
     \<and> (\<exists>S T. lsdb_of r s = Some S \<and> lsdb_of r st = Some T \<and> contents T = contents (store_put new S))"

lemma unchanged_refl [simp]: "unchanged s s"
  by (simp add: unchanged_def)

lemma unchanged_trans: "unchanged s t \<Longrightarrow> unchanged t u \<Longrightarrow> unchanged s u"
  by (auto simp: unchanged_def dest: frame_trans)

lemma quiet_unchanged: "quiet s t \<Longrightarrow> unchanged s t"
  by (simp add: quiet_def unchanged_def)

lemma unchanged_emit [simp]: "unchanged s (emit acts st) = unchanged s st"
  by (simp add: unchanged_def)

lemma unchanged_lsdb:
  assumes "unchanged s t"
  shows "lsdb_of r t = Some T \<Longrightarrow> \<exists>S. lsdb_of r s = Some S \<and> contents T = contents S"
    and "lsdb_of r s = Some S \<Longrightarrow> \<exists>T. lsdb_of r t = Some T \<and> contents T = contents S"
proof -
  have *: "map_option contents (lsdb_of r t) = map_option contents (lsdb_of r s)" using assms by (simp add: unchanged_def)
  show "lsdb_of r t = Some T \<Longrightarrow> \<exists>S. lsdb_of r s = Some S \<and> contents T = contents S" using * by (cases "lsdb_of r s") auto
  show "lsdb_of r s = Some S \<Longrightarrow> \<exists>T. lsdb_of r t = Some T \<and> contents T = contents S" using * by (cases "lsdb_of r t") auto
qed

lemma installed_unchanged:
  assumes "installed r new s t" "unchanged t u"
  shows "installed r new s u"
proof -
  from assms(1) obtain S T where st: "lsdb_of r s = Some S" "lsdb_of r t = Some T" "contents T = contents (store_put new S)" by (auto simp: installed_def)
  with unchanged_lsdb(2) [OF assms(2) st(2)] have "\<exists>S T. lsdb_of r s = Some S \<and> lsdb_of r u = Some T \<and> contents T = contents (store_put new S)" by auto
  moreover have "frame s u" using assms frame_trans [of s t u] by (simp add: installed_def unchanged_def)
  ultimately show ?thesis using assms by (simp add: installed_def unchanged_def)
qed

lemma unchanged_installed:
  assumes "unchanged s t" "installed r new t u" "core new' = core new"
  shows "installed r new' s u"
proof -
  from assms(2) obtain S T where st: "lsdb_of r t = Some S" "lsdb_of r u = Some T" "contents T = contents (store_put new S)" by (auto simp: installed_def)
  from assms(1) st(1) obtain S0 where "lsdb_of r s = Some S0" "contents S = contents S0" using unchanged_lsdb(1) by blast
  moreover from this(2) have "contents (store_put new' S0) = contents (store_put new S)" by (intro contents_put_cong assms(3)) simp
  ultimately have "\<exists>S T. lsdb_of r s = Some S \<and> lsdb_of r u = Some T \<and> contents T = contents (store_put new' S)" using st by auto
  moreover have "frame s u" using assms frame_trans [of s t u] by (simp add: installed_def unchanged_def)
  ultimately show ?thesis using assms by (simp add: installed_def unchanged_def)
qed

lemma set_lsdb_frame:
  "wlp (set_lsdb r T st) (\<lambda>st'. frame st st' \<and> lsdb_of r st' = Some T \<and> (\<forall>q. q \<noteq> r \<longrightarrow> lsdb_of q st' = lsdb_of q st))"
proof (cases r)
  case (Interface_lsdb i)
  have "wlp (upd_if i (\<lambda>x. x\<lparr>oi_lsdb := T\<rparr>) st) (frame st)" by (rule upd_if_frame) (simp add: if_kept_def)
  then show ?thesis by (auto simp: Interface_lsdb set_lsdb_def upd_cases lsdb_of_def split: option.split lsdb_ref.split)
next
  case (Area_lsdb a)
  have "wlp (upd_area a (\<lambda>x. x\<lparr>oa_lsdb := T\<rparr>) st) (frame st)" by (rule upd_area_frame) (simp add: area_kept_def)
  then show ?thesis by (auto simp: Area_lsdb set_lsdb_def upd_cases lsdb_of_def split: option.split lsdb_ref.split)
next
  case Process_lsdb
  then show ?thesis by (auto simp: set_lsdb_def frame_def lsdb_of_def intro!: option.rel_refl split: lsdb_ref.split)
qed

lemma touch_unchanged:
  assumes "lsdb_of r st = Some S" "store_find l S = Some x" "core x = core l"
  shows "wlp (touch_lsdb r l st) (unchanged st)"
proof -
  have "unchanged st st'" if "frame st st'" "lsdb_of r st' = Some (store_touch l S)" "\<forall>q. q \<noteq> r \<longrightarrow> lsdb_of q st' = lsdb_of q st" for st'
    unfolding unchanged_def
  proof (intro conjI allI)
    show "map_option contents (lsdb_of q st') = map_option contents (lsdb_of q st)" for q
      using that assms(1) touch_contents [OF assms(2,3)] by (cases "q = r") auto
  qed (rule that(1))
  then show ?thesis unfolding touch_lsdb_def using assms(1) by (auto intro!: wlp_mono [OF set_lsdb_frame])
qed

lemma unchanged_off [simp]: "unchanged s (off_expire l st) = unchanged s st" "unchanged s (off_refresh l st) = unchanged s st"
  by (simp_all add: unchanged_def)

lemma installedI:
  assumes "lsdb_of r s = Some S" "quiet s s1" "frame s1 st" "lsdb_of r st = Some T" "\<forall>q. q \<noteq> r \<longrightarrow> lsdb_of q st = lsdb_of q s1"
    "contents T = contents (store_put l S)"
  shows "installed r l s st"
  using assms frame_trans [of s s1 st] by (auto simp: installed_def quiet_def)

lemma install_installs:
  assumes "lsa_lsdb l = Some r"
  shows "wlp (ospf6_install_lsa now l st) (\<lambda>(m, st'). installed r l st st' \<and> core m = core l \<and> lsa_lsdb m = Some r
    \<and> (\<exists>T. lsdb_of r st' = Some T \<and> store_find m T = Some m))"
proof -
  obtain w where w: "ospf6_lsa_age_current now l = (w, set_age w l)" by (metis age_current_set prod.collapse)
  define m where "m = (w = MAXAGE)"
  define L where "L = (set_age w l)\<lparr>lsa_expire := \<not> m, lsa_installed := now\<rparr>"
  have L: "core L = core l" "lsa_lsdb L = Some r" using assms by (auto simp: L_def core_def set_age_def)
  define s1 where "s1 S = (let st = case_option st (\<lambda>l. off_expire l st) (store_find l S) in
    if m then st else emit [Add_timer (Lsa_expire (instance_of (set_age w l))) (uint MAXAGE + tv_sec (lsa_birth (set_age w l)) - tv_sec now)] st)" for S
  define S1 where "S1 S = case_option S (\<lambda>l. store_touch (l\<lparr>lsa_expire := False\<rparr>) S) (store_find l S)" for S
  have eq: "ospf6_install_lsa now l st = do {
       S \<leftarrow> lsdb_of r st;
       (hooks, T) \<leftarrow> store_add now L (S1 S);
       lsa \<leftarrow> store_find L T;
       st' \<leftarrow> set_lsdb r T (s1 S);
       st' \<leftarrow> call_hooks r hooks st';
       Some (lsa, case store_find l S of Some l \<Rightarrow> off_refresh l st' | None \<Rightarrow> st')
     }"
    unfolding ospf6_install_lsa_def by (simp add: assms w OSPF6_LSA_IS_MAXAGE_def Let_def m_def [symmetric] L_def S1_def s1_def)
  have s1: "quiet st (s1 S)" for S by (auto simp: s1_def Let_def split: option.split)
  have S1: "contents (S1 S) = contents S" for S using touch_found [of l S] by (simp add: S1_def core_def split: option.split)
  have put: "\<exists>g. T = store_put (set_age g L) (S1 S)" if "store_add now L (S1 S) = Some (hs, T)" for hs S T using wlpD [OF store_add_put that] by simp
  show ?thesis unfolding eq
  proof (simp, rule wlpI)
    fix S
    assume S: "lsdb_of r st = Some S"
    show "wlp (store_add now L (S1 S)) (\<lambda>x. wlp (case x of (hooks, T) \<Rightarrow>
          do { lsa \<leftarrow> store_find L T; st' \<leftarrow> set_lsdb r T (s1 S); st' \<leftarrow> call_hooks r hooks st';
               Some (lsa, case store_find l S of None \<Rightarrow> st' | Some l \<Rightarrow> off_refresh l st') })
        (\<lambda>(m, st'). installed r l st st' \<and> core m = core l \<and> lsa_lsdb m = Some r \<and> (\<exists>T. lsdb_of r st' = Some T \<and> store_find m T = Some m)))"
    proof (rule wlpI, clarify)
      fix hs T
      assume "store_add now L (S1 S) = Some (hs, T)"
      from put [OF this] obtain g where T: "T = store_put (set_age g L) (S1 S)" by blast
      have c: "contents T = contents (store_put l S)" unfolding T by (rule contents_put_cong) (simp_all add: L S1)
      have f: "store_find L T = Some (set_age g L)" using find_put [of "set_age g L" "S1 S"] core_find [of "set_age g L" L] by (simp add: T)
      have lg: "lsa_lsdb (set_age g L) = Some r" using L by (simp add: set_age_def)
      have f': "store_find (set_age g L) T = Some (set_age g L)" by (simp add: T find_put)
      have "installed r l st st2" if "frame (s1 S) st1" "lsdb_of r st1 = Some T" "\<forall>q. q \<noteq> r \<longrightarrow> lsdb_of q st1 = lsdb_of q (s1 S)" "quiet st1 st2" for st1 st2
        using installed_unchanged [OF installedI [OF S s1 that(1-3) c] quiet_unchanged [OF that(4)]] .
      then show "wlp (do { lsa \<leftarrow> store_find L T; st' \<leftarrow> set_lsdb r T (s1 S); st' \<leftarrow> call_hooks r hs st';
               Some (lsa, case store_find l S of None \<Rightarrow> st' | Some l \<Rightarrow> off_refresh l st') })
        (\<lambda>(m, st'). installed r l st st' \<and> core m = core l \<and> lsa_lsdb m = Some r \<and> (\<exists>T. lsdb_of r st' = Some T \<and> store_find m T = Some m))"
        using L f' lg by (auto simp: f quiet_def intro!: wlp_mono [OF set_lsdb_frame] wlp_mono [OF call_hooks_quiet [OF frame_refl(2)]] split: option.split)
    qed
  qed
qed

section \<open>Reception\<close>

lemma discard_rule: "P st \<Longrightarrow> wlp (discard l st) P"
  by (auto simp: discard_def intro: wlpI)

lemma receive_newer_installs:
  assumes "lsa_lsdb new = Some r"
  shows "wlp (receive_newer now un sender r old new st) (\<lambda>st'. st' = st
    \<or> (\<forall>l. old = Some l \<longrightarrow> \<not> tv_sec (timersub now (lsa_installed l)) < MIN_LS_ARRIVAL) \<and> installed r new st st')"
proof -
  let ?new = "new\<lparr>lsa_received := now\<rparr>"
  have c: "core ?new = core new" by (simp add: core_def)
  have flood: "wlp (if b then ospf6_flood now un (Some sender) ?new st else Some (?new, st)) (still ?new st)" for b
    using flood_quiet by simp
  define rest where "rest m st1 = do { (new, st) \<leftarrow> ospf6_install_lsa now m st1; (new, st) \<leftarrow> ospf6_acknowledge_lsa now (-1) sender new st;
             if lh_adv_router (lsa_header new) = top_router_id st
             then touch_lsdb r (new\<lparr>lsa_refresh := True\<rparr>) (emit [Add_event (Lsa_refresh (instance_of new))] st)
             else touch_lsdb r new st }" for m st1
  have rest: "wlp (rest m st1) (installed r new st)" if m: "like ?new m" "quiet st st1" for m st1
  proof -
    have lm: "lsa_lsdb m = Some r" "core m = core new" using m(1) assms c core_like [OF m(1)] by (auto simp: like_def set_age_def)
    have touch: "wlp (touch_lsdb r k st3) (installed r new st)" if i: "installed r m st1 st2" and T: "lsdb_of r st2 = Some T" "store_find m2 T = Some m2"
      and q: "quiet st2 st3" and k: "core k = core m2" for m2 st2 st3 T k
    proof -
      have "lsdb_of r st3 = Some T" using q T by (simp add: quiet_def)
      from touch_unchanged [OF this found_same [OF T(2) k]] k
      have "wlp (touch_lsdb r k st3) (unchanged st3)" by simp
      then show ?thesis
        by (rule wlp_mono) (use installed_unchanged [OF unchanged_installed [OF quiet_unchanged [OF m(2)] i lm(2) [symmetric]] unchanged_trans [OF quiet_unchanged [OF q]]] in blast)
    qed
    have r: "core (k\<lparr>lsa_refresh := True\<rparr>) = core k" for k by (simp add: core_def)
    show ?thesis unfolding rest_def
      by (auto intro!: wlp_mono [OF install_installs [OF lm(1)]] wlp_mono [OF acknowledge_quiet] dest!: core_like) (erule (2) touch, simp, simp add: r)+
  qed
  have "wlp (do { (m, st1) \<leftarrow> (if b then ospf6_flood now un (Some sender) ?new st else Some (?new, st)); rest m st1 }) (installed r new st)" for b
    unfolding wlp_bind by (rule wlp_mono [OF flood]) (use rest in auto)
  note go = this [of "lh_adv_router (lsa_header ?new) \<noteq> top_router_id st"]
  show ?thesis
  proof (cases "case old of Some l \<Rightarrow> tv_sec (timersub now (lsa_installed l)) < MIN_LS_ARRIVAL | None \<Rightarrow> False")
    case True
    then show ?thesis unfolding receive_newer_def by (simp add: discard_rule)
  next
    case False
    show ?thesis unfolding receive_newer_def Let_def rest_def [symmetric] if_not_P [OF False]
      by (rule wlp_mono [OF go]) (use False in \<open>simp split: option.splits\<close>)
  qed
qed

lemma receive_same_unchanged: "wlp (receive_same now sender new st) (unchanged st)"
proof -
  have del: "nbr_kept x (x\<lparr>on_retrans_list := f x\<rparr>)" for x f by (simp add: nbr_kept_def)
  have ack: "wlp (do { (m, st') \<leftarrow> ospf6_acknowledge_lsa now 0 sender l s1; discard m st' }) (unchanged st)" if "quiet st s1" for l s1
    unfolding wlp_bind by (rule wlp_mono [OF acknowledge_quiet]) (use quiet_trans [OF that] in \<open>auto intro!: discard_rule quiet_unchanged\<close>)
  show ?thesis unfolding receive_same_def
    by (auto intro!: read_rules quiet_rules [where s = st] del wlpI [of "ospf6_decrement_retrans_count _"] ack [unfolded wlp_bind] split: option.split)
qed

lemma receive_older_unchanged:
  assumes "lsdb_of r st = Some S" "store_find old S = Some x" "core x = core old"
  shows "wlp (receive_older now sender r old new st) (unchanged st)"
proof -
  obtain g where g: "snd (ospf6_lsa_age_current now old) = set_age g old" using age_current_sets by metis
  have f: "store_find (set_age g old) S = Some x" using assms(2,3) found_same by (metis core_set_age)
  have send: "wlp (if b then Some s1 else send_database_copy now sender l s1) (quiet s1)" for b l s1 unfolding send_database_copy_def
    by (auto intro!: read_rules quiet_rules [where s = s1] copy_rule [where l = l] simp: nbr_kept_def)
  have touch: "wlp (touch_lsdb r (set_age g old) st) (unchanged st)" by (rule touch_unchanged [OF assms(1) f]) (simp add: assms(3))
  have tail: "wlp (do { s2 \<leftarrow> (if b then Some s1 else send_database_copy now sender l s1); discard new s2 }) (unchanged st)" if "unchanged st s1" for b l s1
    unfolding wlp_bind by (rule wlp_mono [OF send]) (use unchanged_trans [OF that quiet_unchanged] in \<open>auto intro: discard_rule\<close>)
  show ?thesis unfolding receive_older_def OSPF6_LSA_IS_MAXAGE_def split_beta Let_def snd_conv fst_conv g
    by (subst wlp_bind, rule wlp_mono [OF touch], rule tail)
qed

lemma compare_ages: "wlp (ospf6_lsa_compare now a b) (\<lambda>(c, a', b'). (\<exists>g. a' = set_age g a) \<and> (\<exists>g. b' = set_age g b))"
proof -
  have i: "\<exists>g. l = set_age g l" for l using set_age_self by metis
  have "\<exists>g. snd (ospf6_lsa_age_current now l) = set_age g l" for l using age_current_sets by metis
  with i show ?thesis by (auto simp: ospf6_lsa_compare_def split_beta Let_def)
qed

text \<open>When a received LSA may take the place of an instance in the database.\<close>

definition replaces :: "timeval \<Rightarrow> ospf6_lsa \<Rightarrow> ospf6_lsa \<Rightarrow> bool" where
  "replaces now new old \<longleftrightarrow> MIN_LS_ARRIVAL \<le> tv_sec (timersub now (lsa_installed old))
     \<and> (\<exists>c a b. ospf6_lsa_compare now new old = Some (c, a, b) \<and> c < 0)"

lemma replaces_cong:
  assumes "map_option fst (ospf6_lsa_compare now a o') = map_option fst (ospf6_lsa_compare now b o')"
  shows "replaces now a o' = replaces now b o'"
proof -
  have r: "replaces now l o' \<longleftrightarrow> MIN_LS_ARRIVAL \<le> tv_sec (timersub now (lsa_installed o')) \<and> (\<exists>c. map_option fst (ospf6_lsa_compare now l o') = Some c \<and> c < 0)" for l
    by (cases "ospf6_lsa_compare now l o'") (auto simp: replaces_def)
  show ?thesis unfolding r assms ..
qed

lemma receive_known_replaces:
  assumes "lsdb_of r st = Some S" "store_find new S = Some old" "lsa_lsdb new = Some r"
  shows "wlp (receive_known now un sender r old new st) (\<lambda>st'. unchanged st st' \<or> replaces now new old \<and> installed r new st st')"
proof (rule wlpI)
  fix st'
  assume "receive_known now un sender r old new st = Some st'"
  then obtain c n1 o1 s1 where cmp: "ospf6_lsa_compare now new old = Some (c, n1, o1)" and t: "touch_lsdb r o1 st = Some s1"
    and k: "(let n2 = (if lh_seqnum (lsa_header n1) = lh_seqnum (lsa_header o1) then set_flag OSPF6_LSA_DUPLICATE n1 else n1) in
       if c < 0 then receive_newer now un sender r (Some o1) n2 s1
       else do { on \<leftarrow> top_nbr s1 sender;
              if store_find n2 (on_request_list on) \<noteq> None then discard n2 (emit [Add_event (Bad_lsreq sender)] s1)
              else if c = 0 then receive_same now sender n2 s1 else receive_older now sender r o1 n2 s1 }) = Some st'"
    unfolding receive_known_def by (auto simp: bind_eq_Some_conv Let_def)
  define n2 where "n2 = (if lh_seqnum (lsa_header n1) = lh_seqnum (lsa_header o1) then set_flag OSPF6_LSA_DUPLICATE n1 else n1)"
  from wlpD [OF compare_ages cmp] obtain g h where gh: "n1 = set_age g new" "o1 = set_age h old" by auto
  have n2: "core n2 = core new" "lsa_lsdb n2 = Some r" "lsa_installed o1 = lsa_installed old" "core o1 = core old"
    using assms(3) by (auto simp: n2_def gh set_flag_def core_def set_age_def)
  have f: "store_find o1 S = Some old" by (rule found_same [OF assms(2) n2(4)])
  have u: "unchanged st s1" by (rule wlpD [OF touch_unchanged [OF assms(1) f n2(4) [symmetric]] t])
  show "unchanged st st' \<or> replaces now new old \<and> installed r new st st'"
  proof (cases "c < 0")
    case True
    with k have "receive_newer now un sender r (Some o1) n2 s1 = Some st'" by (simp add: n2_def)
    from wlpD [OF receive_newer_installs [OF n2(2)] this] u unchanged_installed [OF u _ n2(1) [symmetric]] True cmp show ?thesis
      by (auto simp: replaces_def n2(3) not_less)
  next
    case False
    have "set_lsdb r (store_touch o1 S) st = Some s1" using t assms(1) by (simp add: touch_lsdb_def)
    with wlpD [OF set_lsdb_frame] touch_find [OF f] have "\<exists>T. lsdb_of r s1 = Some T \<and> store_find o1 T = Some o1" by blast
    with receive_older_unchanged have o: "wlp (receive_older now sender r o1 n2 s1) (unchanged s1)" by blast
    from k False have "wlp (Some st') (unchanged s1)" unfolding n2_def [symmetric] Let_def
      by (auto simp: bind_eq_Some_conv split: if_splits dest: wlpD [OF receive_same_unchanged] wlpD [OF o] simp: discard_def)
    then show ?thesis using unchanged_trans [OF u] by simp
  qed
qed

lemma age_current_again: "fst (ospf6_lsa_age_current now (snd (ospf6_lsa_age_current now l))) = fst (ospf6_lsa_age_current now l)"
  using age_current_bound [of now l] by (auto simp: ospf6_lsa_age_current_def set_age_def Let_def split: if_splits)

text \<open>The outcome of a comparison is that of the header, the birth and the current time.\<close>

lemma compare_cong:
  assumes "lsa_birth a = lsa_birth b" "lsa_header a = lsa_header b"
  shows "map_option fst (ospf6_lsa_compare now (snd (ospf6_lsa_age_current now a)) o') = map_option fst (ospf6_lsa_compare now b o')"
proof -
  obtain g where g: "snd (ospf6_lsa_age_current now a) = set_age g a" using age_current_sets by metis
  have "fst (ospf6_lsa_age_current now (set_age g a)) = fst (ospf6_lsa_age_current now b)"
    using age_current_again [of now a] assms unfolding g [symmetric] by (simp add: ospf6_lsa_age_current_def Let_def)
  then show ?thesis unfolding g using assms by (simp add: ospf6_lsa_compare_def OSPF6_LSA_IS_SAME_def set_age_def split_beta Let_def)
qed

section \<open>Origination\<close>

lemma set_self_lsdb_frame: "wlp (set_self_lsdb r T st) (frame st)"
proof -
  have "wlp (upd_if i (\<lambda>x. x\<lparr>oi_lsdb_self := T\<rparr>) st) (frame st)" for i by (rule upd_if_frame) (simp add: if_kept_def)
  moreover have "wlp (upd_area a (\<lambda>x. x\<lparr>oa_lsdb_self := T\<rparr>) st) (frame st)" for a by (rule upd_area_frame) (simp add: area_kept_def)
  ultimately show ?thesis by (simp add: set_self_lsdb_def split: lsdb_ref.split)
qed

lemma touch_frame: "wlp (touch_lsdb r l st) (frame st)"
  unfolding touch_lsdb_def by (auto intro!: wlpI [of "lsdb_of _ _"] wlp_mono [OF set_lsdb_frame])

lemma suppressed_frame: "wlp (suppressed now r l st) (\<lambda>(b, m, st'). frame st st')"
  unfolding suppressed_def by (auto intro!: wlpI [of "lsdb_of _ _"] wlpI [of "ospf6_lsa_is_differ _ _ _"] wlp_mono [OF touch_frame] split: option.split)

lemma install_frame: "wlp (ospf6_install_lsa now l st) (\<lambda>(m, st'). frame st st')"
proof (cases "lsa_lsdb l")
  case None
  then show ?thesis by (simp add: ospf6_install_lsa_def)
next
  case (Some r)
  show ?thesis by (rule wlp_mono [OF install_installs [OF Some]]) (auto simp: installed_def)
qed

lemma frame_rules:
  "frame s st \<Longrightarrow> (\<And>st'. frame s st' \<Longrightarrow> Q1 st') \<Longrightarrow> wlp (set_self_lsdb r T st) Q1"
  "frame s st \<Longrightarrow> (\<And>b m st'. frame s st' \<Longrightarrow> Q2 (b, m, st')) \<Longrightarrow> wlp (suppressed now q l st) Q2"
  "frame s st \<Longrightarrow> (\<And>m st'. frame s st' \<Longrightarrow> Q3 (m, st')) \<Longrightarrow> wlp (ospf6_flood now un sender l st) Q3"
  "frame s st \<Longrightarrow> (\<And>m st'. frame s st' \<Longrightarrow> Q4 (m, st')) \<Longrightarrow> wlp (ospf6_install_lsa now l st) Q4"
proof -
  show "wlp (set_self_lsdb r T st) Q1" if "frame s st" "\<And>st'. frame s st' \<Longrightarrow> Q1 st'"
    by (rule wlp_mono [OF set_self_lsdb_frame]) (rule that(2), erule frame_trans [OF that(1)])
  show "wlp (suppressed now q l st) Q2" if "frame s st" "\<And>b m st'. frame s st' \<Longrightarrow> Q2 (b, m, st')"
    by (rule wlp_mono [OF suppressed_frame], clarify) (rule that(2), erule frame_trans [OF that(1)])
  show "wlp (ospf6_flood now un sender l st) Q3" if "frame s st" "\<And>m st'. frame s st' \<Longrightarrow> Q3 (m, st')"
    by (rule wlp_mono [OF flood_quiet], clarify) (rule that(2), simp add: quiet_def frame_trans [OF that(1)])
  show "wlp (ospf6_install_lsa now l st) Q4" if "frame s st" "\<And>m st'. frame s st' \<Longrightarrow> Q4 (m, st')"
    by (rule wlp_mono [OF install_frame], clarify) (rule that(2), erule frame_trans [OF that(1)])
qed

lemma pure_rules:
  "(\<And>x. lsa_lsdb l = Some x \<Longrightarrow> Q1 x) \<Longrightarrow> wlp (lsa_lsdb l) Q1"
  "(\<And>x. ospf6_lsa_delete l = Some x \<Longrightarrow> Q2 x) \<Longrightarrow> wlp (ospf6_lsa_delete l) Q2"
  "(\<And>x. ospf6_get_scoped_lsdb_self l = Some x \<Longrightarrow> Q3 x) \<Longrightarrow> wlp (ospf6_get_scoped_lsdb_self l) Q3"
  "(\<And>c m. ospf6_lsa_copy now l = Some (c, m) \<Longrightarrow> Q4 (c, m)) \<Longrightarrow> wlp (ospf6_lsa_copy now l) Q4"
  "(\<And>x. self_lsdb_of r st = Some x \<Longrightarrow> Q5 x) \<Longrightarrow> wlp (self_lsdb_of r st) Q5"
  by (auto intro: wlpI)

lemma originate_frame: "wlp (ospf6_lsa_originate now un l st) (frame st)"
  unfolding ospf6_lsa_originate_def ospf6_flood_clear_def Let_def
  by (auto intro!: frame_rules [where s = st] pure_rules, rule wlpI, auto intro!: frame_rules [where s = st] pure_rules read_rules)

section \<open>Properties\<close>

lemma checksum_same: "ospf6_lsa_checksum h body = Some (lh_checksum h, hdr) \<Longrightarrow> hdr = h"
  by (auto simp: ospf6_lsa_checksum_def bind_eq_Some_conv Let_def split: prod.splits if_splits)

lemma create_header: "ospf6_lsa_create now h body = Some new \<Longrightarrow> lsa_header new = h"
  by (auto simp: ospf6_lsa_create_def ospf6_lsa_age_set_def lsa_zero_def Let_def split: if_splits)

lemma received_cases:
  assumes "ospf6_receive_lsa now un sender h body hostnum st = Some st'"
  shows "unchanged st st' \<or> (\<exists>new r S. ospf6_lsa_create now h body = Some new \<and> ospf6_lsa_checksum h (lsa_body new) = Some (lh_checksum h, h)
      \<and> scope_lsdb new sender st = Some (Some r) \<and> installed r new st st'
      \<and> lsdb_of r st = Some S \<and> (\<forall>old. store_find new S = Some old \<longrightarrow> replaces now new old))"
proof -
  from assms obtain n0 c hdr where n0: "ospf6_lsa_create now h body = Some n0" "ospf6_lsa_checksum h (lsa_body n0) = Some (c, hdr)"
    unfolding ospf6_receive_lsa_def using create_header [of now h body] by (auto simp: bind_eq_Some_conv Let_def)
  note h = create_header [OF n0(1)]
  let ?n1 = "n0\<lparr>lsa_hostnum := hostnum, lsa_header := hdr\<rparr>"
  show ?thesis
  proof (cases "c = lh_checksum h \<and> scope_lsdb ?n1 sender st \<noteq> Some None")
    case False
    with assms n0 h have "st' = st" unfolding ospf6_receive_lsa_def by (auto simp: discard_def bind_eq_Some_conv Let_def split: if_splits)
    then show ?thesis by simp
  next
    case True
    with n0(2) checksum_same have hdr: "hdr = h" by blast
    define n2 where "n2 r = snd (ospf6_lsa_age_current now (?n1\<lparr>lsa_lsdb := Some r\<rparr>))" for r
    from True assms n0 h obtain r S where r: "scope_lsdb ?n1 sender st = Some (Some r)" "lsdb_of r st = Some S"
      and go: "st' = st \<or> (case store_find (n2 r) S of None \<Rightarrow> receive_newer now un sender r None (n2 r) st
         | Some old \<Rightarrow> receive_known now un sender r old (n2 r) st) = Some st'"
      unfolding ospf6_receive_lsa_def
      by (auto simp: discard_def bind_eq_Some_conv Let_def ospf6_is_maxage_lsa_drop_def OSPF6_LSA_IS_MAXAGE_def split_beta n2_def split: if_splits option.splits)
    have n2: "core (n2 r) = core n0" "lsa_lsdb (n2 r) = Some r" using h hdr age_current_sets [of now "?n1\<lparr>lsa_lsdb := Some r\<rparr>"]
      by (auto simp: n2_def core_def set_age_def)
    have eq: "lsa_scope ?n1 = lsa_scope n0" using h hdr by (simp add: lsa_scope_def)
    have sc: "scope_lsdb n0 sender st = Some (Some r)" using r(1) unfolding scope_lsdb_def eq .
    have "map_option fst (ospf6_lsa_compare now (n2 r) old) = map_option fst (ospf6_lsa_compare now n0 old)" for old
      unfolding n2_def by (rule compare_cong) (simp_all add: h hdr)
    from replaces_cong [OF this] have cmp: "replaces now (n2 r) old = replaces now n0 old" for old .
    have ins: "installed r n0 st st'" if "installed r (n2 r) st st'" using unchanged_installed [OF unchanged_refl that] n2(1) by simp
    note known = receive_known_replaces [OF r(2) _ n2(2), THEN wlpD] and new = receive_newer_installs [OF n2(2), THEN wlpD]
    have "unchanged st st' \<or> installed r n0 st st' \<and> (\<forall>old. store_find n0 S = Some old \<longrightarrow> replaces now n0 old)"
      using go core_find [OF n2(1), of S]
      by (cases "store_find n0 S") (auto dest!: new known intro: ins simp: cmp)
    then show ?thesis using n0 sc r(2) hdr True by blast
  qed
qed

lemma received_frame:
  assumes "ospf6_receive_lsa now un sender h body hostnum st = Some st'"
  shows "frame st st'"
  using received_cases [OF assms] by (auto simp: unchanged_def installed_def)

text \<open>
  C34. Received LSAs change the databases only as the flooding procedure says. Either no
  database changes (ages and bookkeeping apart), or exactly one does, the one for the scope
  of the LSA: the received LSA takes its place in the order, in place of an instance with
  the same key if there is one. Then its checksum is right, and the instance it replaces is
  older by the comparison of instances and was installed at least a second ago. In both
  cases neighbours keep their states, and the objects of the process their links. This
  holds whatever the two uninitialised variables contain.
\<close>

theorem receive_lsa_safe:
  assumes "ospf6_receive_lsa now un sender h body hostnum st = Some st'"
  shows "unchanged st st' \<or> (\<exists>new r S. ospf6_lsa_create now h body = Some new \<and> ospf6_lsa_checksum h (lsa_body new) = Some (lh_checksum h, h)
      \<and> scope_lsdb new sender st = Some (Some r) \<and> installed r new st st'
      \<and> lsdb_of r st = Some S \<and> (\<forall>old. store_find new S = Some old \<longrightarrow> replaces now new old))"
  by (rule received_cases [OF assms])

text \<open>A router LSA of the first neighbour.\<close>

definition example_header :: ospf6_lsa_header where
  "example_header = \<lparr>lh_age = 1, lh_type = 0x2001, lh_id = 0, lh_adv_router = 20, lh_seqnum = 0x80000001, lh_checksum = 30129, lh_length = 24\<rparr>"

definition zeroed :: uninit where
  "zeroed = \<lparr>un_retrans_added = (\<lambda>_. 0), un_maxage_drop = False\<rparr>"

theorem receive_lsa_safe_witness:
  "\<exists>st' new. ospf6_receive_lsa timeval_zero zeroed 1 example_header [1, 2, 3, 4] 0 example_ospf6 = Some st'
    \<and> ospf6_lsa_create timeval_zero example_header [1, 2, 3, 4] = Some new \<and> installed (Area_lsdb 0) new example_ospf6 st'"
proof -
  let ?r = "ospf6_receive_lsa timeval_zero zeroed 1 example_header [1, 2, 3, 4] 0 example_ospf6"
  have "map_option length (Option.bind ?r (lsdb_of (Area_lsdb 0))) = Some 1" by code_simp
  then obtain st' T where r: "?r = Some st'" "lsdb_of (Area_lsdb 0) st' = Some T" "length T = 1" by (auto simp: bind_eq_Some_conv)
  have "lsdb_of (Area_lsdb 0) example_ospf6 = Some []" by (simp add: lsdb_of_def example_ospf6_def)
  with r(2,3) have "\<not> unchanged example_ospf6 st'" by (auto simp: unchanged_def contents_def intro!: exI [of _ "Area_lsdb 0"])
  with receive_lsa_safe [OF r(1)] obtain new q where n: "ospf6_lsa_create timeval_zero example_header [1, 2, 3, 4] = Some new"
    "scope_lsdb new 1 example_ospf6 = Some (Some q)" "installed q new example_ospf6 st'" by blast
  have "map_option (\<lambda>l. scope_lsdb l 1 example_ospf6) (ospf6_lsa_create timeval_zero example_header [1, 2, 3, 4]) = Some (Some (Some (Area_lsdb 0)))" by code_simp
  with n have "q = Area_lsdb 0" by simp
  with n r(1) show ?thesis by blast
qed

end
