(* ===== verification/Ospf6_Wf.thy ===== *)
theory Ospf6_Wf
  imports Ospf6_Nsm Ospf6_Receive_Props
begin

text \<open>
  Well-formed states, in which neighbours, interfaces and areas refer to each other, and that
  the events of neighbours and interfaces and all calls of the flooding procedure keep them.
\<close>

section \<open>Well-formed states\<close>

definition nbr_ok :: "ospf6_neighbor \<Rightarrow> bool" where
  "nbr_ok on \<longleftrightarrow> on_state on \<in> {OSPF6_NEIGHBOR_DOWN, OSPF6_NEIGHBOR_INIT, OSPF6_NEIGHBOR_TWOWAY, OSPF6_NEIGHBOR_EXSTART,
       OSPF6_NEIGHBOR_EXCHANGE, OSPF6_NEIGHBOR_LOADING, OSPF6_NEIGHBOR_FULL}
     \<and> (on_state on = OSPF6_NEIGHBOR_FULL \<longrightarrow> on_request_list on = [])"

definition ospf6_wf :: "ospf6 \<Rightarrow> bool" where
  "ospf6_wf st \<longleftrightarrow> (\<forall>a on. top_nbr st a = Some on \<longrightarrow> nbr_ok on \<and> a < top_brk st
       \<and> (\<exists>oi. top_if st (on_if on) = Some oi \<and> a \<in> set (oi_neighbor_list oi)))
     \<and> (\<forall>i oi. top_if st i = Some oi \<longrightarrow> distinct (oi_neighbor_list oi) \<and> top_area st (oi_area oi) \<noteq> None
       \<and> (\<forall>a\<in>set (oi_neighbor_list oi). \<exists>on. top_nbr st a = Some on \<and> on_if on = i))"

lemma wf_nbr:
  assumes "ospf6_wf st" "top_nbr st a = Some on"
  shows "nbr_ok on" "a < top_brk st" "alive a st on" "\<exists>oi. top_if st (on_if on) = Some oi \<and> a \<in> set (oi_neighbor_list oi)"
  using assms unfolding ospf6_wf_def alive_def by blast+

lemma wf_if:
  assumes "ospf6_wf st" "top_if st i = Some oi"
  shows "distinct (oi_neighbor_list oi)" "top_area st (oi_area oi) \<noteq> None" "a \<in> set (oi_neighbor_list oi) \<Longrightarrow> \<exists>on. top_nbr st a = Some on \<and> on_if on = i"
  using assms unfolding ospf6_wf_def by blast+

lemma touches_if:
  assumes "touches a st st'" "top_if st' i = Some oi'"
  shows "\<exists>oi. top_if st i = Some oi \<and> oi_neighbor_list oi' = oi_neighbor_list oi \<and> oi_area oi' = oi_area oi"
proof -
  have "map_option if_shape (top_if st i) = map_option if_shape (top_if st' i)" using assms(1) by (simp add: touches_def)
  from if_shape_cases [OF this assms(2)] show ?thesis by metis
qed

lemma touches_if2:
  assumes "touches a st st'" "top_if st i = Some oi"
  shows "\<exists>oi'. top_if st' i = Some oi' \<and> oi_neighbor_list oi' = oi_neighbor_list oi \<and> oi_area oi' = oi_area oi"
  using assms if_shape_cases [of st' i st oi] by (auto simp: touches_def)

lemma wf_touches:
  assumes wf: "ospf6_wf st" and on: "top_nbr st a = Some on" and t: "touches a st st'" "top_nbr st' a = Some on'" "on_if on' = on_if on" and ok: "nbr_ok on'"
  shows "ospf6_wf st'"
  unfolding ospf6_wf_def
proof (intro conjI allI impI)
  fix b n
  assume b: "top_nbr st' b = Some n"
  obtain m where m: "top_nbr st b = Some m" "on_if n = on_if m" using b on t by (cases "b = a") (auto simp: touches_def)
  show "nbr_ok n" using b ok t(2) wf_nbr(1) [OF wf m(1)] t(1) m(1) by (cases "b = a") (auto simp: touches_def)
  show "b < top_brk st'" using wf_nbr(2) [OF wf m(1)] t(1) by (simp add: touches_def)
  from wf_nbr(4) [OF wf m(1)] obtain oi where oi: "top_if st (on_if m) = Some oi" "b \<in> set (oi_neighbor_list oi)" by blast
  with touches_if2 [OF t(1) oi(1)] m(2) show "\<exists>oi. top_if st' (on_if n) = Some oi \<and> b \<in> set (oi_neighbor_list oi)" by auto
next
  fix i oi'
  assume "top_if st' i = Some oi'"
  from touches_if [OF t(1) this] obtain oi where oi: "top_if st i = Some oi" "oi_neighbor_list oi' = oi_neighbor_list oi" "oi_area oi' = oi_area oi" by blast
  from wf_if(1,2) [OF wf oi(1)] oi t(1) show "distinct (oi_neighbor_list oi')" "top_area st' (oi_area oi') \<noteq> None" by (auto simp: touches_def)
  show "\<forall>a\<in>set (oi_neighbor_list oi'). \<exists>on. top_nbr st' a = Some on \<and> on_if on = i"
  proof
    fix b
    assume "b \<in> set (oi_neighbor_list oi')"
    with wf_if(3) [OF wf oi(1)] oi(2) obtain n where "top_nbr st b = Some n" "on_if n = i" by auto
    then show "\<exists>on. top_nbr st' b = Some on \<and> on_if on = i" using on t by (cases "b = a") (auto simp: touches_def)
  qed
qed

lemma full_distinct:
  "OSPF6_NEIGHBOR_INIT \<noteq> OSPF6_NEIGHBOR_FULL" "OSPF6_NEIGHBOR_TWOWAY \<noteq> OSPF6_NEIGHBOR_FULL" "OSPF6_NEIGHBOR_EXSTART \<noteq> OSPF6_NEIGHBOR_FULL"
  "OSPF6_NEIGHBOR_EXCHANGE \<noteq> OSPF6_NEIGHBOR_FULL" "OSPF6_NEIGHBOR_LOADING \<noteq> OSPF6_NEIGHBOR_FULL" "OSPF6_NEIGHBOR_DOWN \<noteq> OSPF6_NEIGHBOR_FULL"
  by (simp_all add: neighbor_states)

lemma nsm_ok:
  assumes "nbr_ok on" "on_state on' = nsm ev need (on_request_list on = []) (on_state on)"
    "on_request_list on' = (if ev \<in> {NegotiationDone, SeqNumberMismatch, BadLSReq} \<and> on_state on' \<noteq> on_state on
          \<or> on_request_list on = [] then [] else on_request_list on)"
    "ev = LoadingDone \<Longrightarrow> on_state on = OSPF6_NEIGHBOR_LOADING \<Longrightarrow> on_request_list on = []"
  shows "nbr_ok on'"
proof -
  have s: "on_state on' \<in> {OSPF6_NEIGHBOR_DOWN, OSPF6_NEIGHBOR_INIT, OSPF6_NEIGHBOR_TWOWAY, OSPF6_NEIGHBOR_EXSTART,
       OSPF6_NEIGHBOR_EXCHANGE, OSPF6_NEIGHBOR_LOADING, OSPF6_NEIGHBOR_FULL}"
    using assms(1,2) by (cases ev) (auto simp: nbr_ok_def)
  have "on_request_list on = []" if "on_state on' = OSPF6_NEIGHBOR_FULL"
  proof (cases "on_state on = OSPF6_NEIGHBOR_FULL")
    case True
    with assms(1) show ?thesis by (simp add: nbr_ok_def)
  next
    case False
    with that assms(2) have "ev = ExchangeDone \<and> on_request_list on = [] \<or> ev = LoadingDone \<and> on_state on = OSPF6_NEIGHBOR_LOADING"
      by (cases ev) (simp_all add: full_distinct split: if_splits)
    with assms(4) show ?thesis by blast
  qed
  with s assms(3) show ?thesis by (simp add: nbr_ok_def)
qed

lemma handle_wf:
  assumes wf: "ospf6_wf st" and on: "top_nbr st a = Some on" and h: "handle now ev a st = Some st'"
  shows "ospf6_wf st'"
proof -
  note al = wf_nbr(3) [OF wf on]
  from need_adjacency_alive [OF al] obtain need where "need_adjacency a st = Some need" by blast
  from handle_nsm [OF al this h] obtain on' where on': "touches a st st'" "top_nbr st' a = Some on'" "on_if on' = on_if on"
    "on_state on' = nsm ev need (on_request_list on = []) (on_state on)"
    "on_request_list on' = (if ev \<in> {NegotiationDone, SeqNumberMismatch, BadLSReq} \<and> on_state on' \<noteq> on_state on
          \<or> on_request_list on = [] then [] else on_request_list on)" unfolding nsm_result_def by blast
  have "on_request_list on = []" if "ev = LoadingDone" "on_state on = OSPF6_NEIGHBOR_LOADING"
    using loading_asserts [OF al that(2)] h that(1) by auto
  from wf_touches [OF wf on on'(1-3) nsm_ok [OF wf_nbr(1) [OF wf on] on'(4,5) this]] show ?thesis .
qed

section \<open>Neighbours come and go\<close>

lemma nbr_with_id_find:
  "\<forall>a\<in>set as. top_nbr st a \<noteq> None \<Longrightarrow> nbr_with_id r as st = Some (find (\<lambda>a. on_router_id (the (top_nbr st a)) = r) as)"
  by (induction as) auto

lemma lookup_find:
  "ospf6_wf st \<Longrightarrow> top_if st oi = Some ifc \<Longrightarrow> ospf6_neighbor_lookup r oi st = Some (find (\<lambda>a. on_router_id (the (top_nbr st a)) = r) (oi_neighbor_list ifc))"
  using wf_if(3) [of st oi ifc] nbr_with_id_find [of "oi_neighbor_list ifc" st r] by (fastforce simp: ospf6_neighbor_lookup_def)

lemma create_exact:
  assumes "top_if st oi = Some ifc"
  shows "ospf6_neighbor_create now r oi st = Some (top_brk st, st\<lparr>top_nbr := (top_nbr st)(top_brk st \<mapsto> neighbor_zero\<lparr>on_if := oi, on_state := OSPF6_NEIGHBOR_DOWN,
      on_last_changed := now, on_router_id := r\<rparr>), top_brk := top_brk st + 1, top_if := (top_if st)(oi \<mapsto> ifc\<lparr>oi_neighbor_list := oi_neighbor_list ifc @ [top_brk st]\<rparr>)\<rparr>)"
  using assms by (simp add: ospf6_neighbor_create_def Let_def upd_if_def heap_upd_def)

lemma create_wf:
  assumes wf: "ospf6_wf st" and c: "ospf6_neighbor_create now r oi st = Some (a, st')"
  shows "ospf6_wf st'"
proof -
  from c obtain ifc where i: "top_if st oi = Some ifc"
    by (auto simp: ospf6_neighbor_create_def Let_def upd_if_def heap_upd_def bind_eq_Some_conv)
  note st' = c [unfolded create_exact [OF i], simplified]
  have new: "top_nbr st (top_brk st) = None" using wf_nbr(2) [OF wf, of "top_brk st"] by (cases "top_nbr st (top_brk st)") auto
  have nl: "top_brk st \<notin> set (oi_neighbor_list x)" if "top_if st j = Some x" for j x using wf_if(3) [OF wf that, of "top_brk st"] new by auto
  show ?thesis unfolding ospf6_wf_def
  proof (intro conjI allI impI)
    fix b n
    assume "top_nbr st' b = Some n"
    then consider "b = top_brk st" "n = neighbor_zero\<lparr>on_if := oi, on_state := OSPF6_NEIGHBOR_DOWN, on_last_changed := now, on_router_id := r\<rparr>"
      | "b \<noteq> top_brk st" "top_nbr st b = Some n" using st' by (auto split: if_splits)
    then have "nbr_ok n \<and> b < top_brk st' \<and> (\<exists>oi. top_if st' (on_if n) = Some oi \<and> b \<in> set (oi_neighbor_list oi))"
    proof cases
      case 1
      then show ?thesis using st' by (auto simp: nbr_ok_def neighbor_states neighbor_zero_def)
    next
      case 2
      then show ?thesis using wf_nbr [OF wf 2(2)] st' i by auto
    qed
    then show "nbr_ok n" "b < top_brk st'" "\<exists>oi. top_if st' (on_if n) = Some oi \<and> b \<in> set (oi_neighbor_list oi)" by auto
  next
    fix j x
    assume x: "top_if st' j = Some x"
    have "distinct (oi_neighbor_list x) \<and> top_area st' (oi_area x) \<noteq> None \<and> (\<forall>a\<in>set (oi_neighbor_list x). \<exists>on. top_nbr st' a = Some on \<and> on_if on = j)"
    proof (cases "j = oi")
      case True
      then show ?thesis using x st' wf_if [OF wf i] nl [OF i] by auto
    next
      case False
      then show ?thesis using x st' wf_if [OF wf, of j x] nl [of j x] by auto
    qed
    then show "distinct (oi_neighbor_list x)" "top_area st' (oi_area x) \<noteq> None" "\<forall>a\<in>set (oi_neighbor_list x). \<exists>on. top_nbr st' a = Some on \<and> on_if on = j" by auto
  qed
qed

text \<open>Deletion: everything before the memory is released is an operation on the neighbour.\<close>

definition quiesce :: "nat \<Rightarrow> ospf6 \<Rightarrow> ospf6 option" where
  "quiesce a st =
     do {
       st \<leftarrow> clear_exchange a st;
       st \<leftarrow> upd_nbr a (\<lambda>x. x\<lparr>on_dbdesc_list := [], on_lsreq_list := [], on_lsupdate_list := [], on_lsack_list := []\<rparr>) st;
       st \<leftarrow> nbr_thread_off on_inactivity_timer on_inactivity_timer_update Inactivity_timer a st;
       st \<leftarrow> nbr_thread_off on_thread_send_dbdesc on_thread_send_dbdesc_update Dbdesc_send a st;
       st \<leftarrow> nbr_thread_off on_thread_send_lsreq on_thread_send_lsreq_update Lsreq_send a st;
       st \<leftarrow> nbr_thread_off on_thread_send_lsupdate on_thread_send_lsupdate_update Lsupdate_send_neighbor a st;
       nbr_thread_off on_thread_send_lsack on_thread_send_lsack_update Lsack_send_neighbor a st
     }"

lemma delete_quiesce: "ospf6_neighbor_delete a st = do { st \<leftarrow> quiesce a st; Some (st\<lparr>top_nbr := (top_nbr st)(a := None)\<rparr>) }"
  by (simp add: ospf6_neighbor_delete_def quiesce_def split: bind_splits)

lemma nbr_op_seq_ex: "\<exists>g. nbr_op a f g \<Longrightarrow> \<exists>g. nbr_op a h g \<Longrightarrow> \<exists>g. nbr_op a (\<lambda>st. do { st \<leftarrow> f st; h st }) g"
  using nbr_op_seq by blast

lemma nbr_op_ex:
  "\<exists>g. nbr_op a (clear_exchange a) g" "(\<And>on. on_if (f on) = on_if on) \<Longrightarrow> \<exists>g. nbr_op a (upd_nbr a f) g"
  "(\<And>f on. on_if (upd f on) = on_if on) \<Longrightarrow> \<exists>g. nbr_op a (nbr_thread_off get upd task a) g"
  using nbr_op_clear nbr_op_upd nbr_op_off by blast+

lemma quiesce_touches:
  assumes "alive a st on"
  shows "\<exists>s1. quiesce a st = Some s1 \<and> touches a st s1"
proof -
  have "\<exists>g. nbr_op a (quiesce a) g"
    unfolding quiesce_def [abs_def] by (intro nbr_op_seq_ex nbr_op_ex) simp_all
  then obtain g where "nbr_op a (quiesce a) g" by blast
  from nbr_opD [OF this assms] show ?thesis by blast
qed

lemma delete_exact:
  assumes "alive a st on"
  shows "\<exists>s1. ospf6_neighbor_delete a st = Some (s1\<lparr>top_nbr := (top_nbr s1)(a := None)\<rparr>) \<and> touches a st s1"
  using quiesce_touches [OF assms] by (auto simp: delete_quiesce)

text \<open>The first part of the inactivity timer, up to the new state.\<close>

definition go_down :: "nat \<Rightarrow> ospf6 \<Rightarrow> ospf6 option" where
  "go_down a st = do {
     st \<leftarrow> upd_nbr a (\<lambda>x. x\<lparr>on_inactivity_timer := False, on_drouter := 0, on_prev_drouter := 0, on_bdrouter := 0, on_prev_bdrouter := 0\<rparr>) st;
     ospf6_neighbor_state_change OSPF6_NEIGHBOR_DOWN a st }"

definition downed :: "ospf6_neighbor \<Rightarrow> ospf6_neighbor" where
  "downed = (\<lambda>x. x\<lparr>on_state := OSPF6_NEIGHBOR_DOWN\<rparr>)
     \<circ> (\<lambda>x. x\<lparr>on_inactivity_timer := False, on_drouter := 0, on_prev_drouter := 0, on_bdrouter := 0, on_prev_bdrouter := 0\<rparr>)"

lemma nbr_try_down: "nbr_try a (go_down a) downed"
  unfolding go_down_def [abs_def] downed_def by (intro nbr_try_seq nbr_try_state nbr_try_op nbr_op_upd) simp

lemma inactivity_timer_down:
  "inactivity_timer a st =
     do {
       st \<leftarrow> go_down a st;
       on \<leftarrow> top_nbr st a;
       let st = emit [Add_event (Neighbor_change (on_if on))] st;
       st \<leftarrow> upd_if (on_if on) (\<lambda>x. x\<lparr>oi_neighbor_list := remove1 a (oi_neighbor_list x)\<rparr>) st;
       ospf6_neighbor_delete a st
     }"
  by (simp add: inactivity_timer_def go_down_def)

lemma inactivity_exact:
  assumes wf: "ospf6_wf st" and on: "top_nbr st a = Some on" and r: "inactivity_timer a st = Some st'"
  shows "\<exists>ifc ifc'. top_nbr st' = (top_nbr st)(a := None) \<and> top_brk st' = top_brk st
    \<and> (\<forall>i. top_area st' i = None \<longleftrightarrow> top_area st i = None)
    \<and> (\<forall>i. i \<noteq> on_if on \<longrightarrow> map_option if_shape (top_if st' i) = map_option if_shape (top_if st i))
    \<and> top_if st (on_if on) = Some ifc \<and> top_if st' (on_if on) = Some ifc'
    \<and> oi_neighbor_list ifc' = remove1 a (oi_neighbor_list ifc) \<and> oi_area ifc' = oi_area ifc"
proof -
  note al = wf_nbr(3) [OF wf on]
  from r obtain s1 where sc: "go_down a st = Some s1" by (auto simp: inactivity_timer_down bind_eq_Some_conv)
  from nbr_tryD(1) [OF nbr_try_down al] nbr_tryD(2) [OF nbr_try_down al sc] obtain n where
    s1: "touches a st s1" "alive a s1 n" "on_if n = on_if on" by blast
  from s1(2,3) obtain x where x: "top_nbr s1 a = Some n" "top_if s1 (on_if on) = Some x" "top_area s1 (oi_area x) \<noteq> None" by (auto simp: alive_def)
  let ?x = "x\<lparr>oi_neighbor_list := remove1 a (oi_neighbor_list x)\<rparr>"
  let ?s2 = "(emit [Add_event (Neighbor_change (on_if on))] s1)\<lparr>top_if := (top_if s1)(on_if on \<mapsto> ?x)\<rparr>"
  have "alive a ?s2 n" using x s1(3) by (simp add: alive_def)
  from delete_exact [OF this] obtain s3 where s3: "ospf6_neighbor_delete a ?s2 = Some (s3\<lparr>top_nbr := (top_nbr s3)(a := None)\<rparr>)" "touches a ?s2 s3" by blast
  have ev: "st' = s3\<lparr>top_nbr := (top_nbr s3)(a := None)\<rparr>"
    using r sc x s1(3) s3(1) by (simp add: inactivity_timer_down upd_if_def heap_upd_def)
  from touches_if [OF s1(1) x(2)] obtain ifc where ifc: "top_if st (on_if on) = Some ifc" "oi_neighbor_list x = oi_neighbor_list ifc" "oi_area x = oi_area ifc" by blast
  have "top_if ?s2 (on_if on) = Some ?x" by simp
  from touches_if2 [OF s3(2) this] obtain ifc' where ifc': "top_if s3 (on_if on) = Some ifc'" "oi_neighbor_list ifc' = remove1 a (oi_neighbor_list ifc)" "oi_area ifc' = oi_area ifc"
    using ifc by auto
  have "(top_nbr s3)(a := None) = (top_nbr st)(a := None)" using s1(1) s3(2) by (auto simp: touches_def fun_eq_iff)
  moreover have "top_brk s3 = top_brk st" "\<forall>i. top_area s3 i = None \<longleftrightarrow> top_area st i = None"
    "\<forall>i. i \<noteq> on_if on \<longrightarrow> map_option if_shape (top_if s3 i) = map_option if_shape (top_if st i)"
    using s1(1) s3(2) by (auto simp: touches_def)
  ultimately show ?thesis using ev ifc ifc' by (intro exI [of _ ifc] exI [of _ ifc']) simp
qed

text \<open>The timer of a neighbour that is not Full always runs to its end.\<close>

lemma inactivity_total:
  assumes wf: "ospf6_wf st" and on: "top_nbr st a = Some on" and s: "on_state on \<noteq> OSPF6_NEIGHBOR_FULL"
  shows "\<exists>st'. inactivity_timer a st = Some st'"
proof -
  note al = wf_nbr(3) [OF wf on]
  have "OSPF6_NEIGHBOR_DOWN \<noteq> OSPF6_NEIGHBOR_FULL" by (simp add: neighbor_states)
  with on s obtain s1 where sc: "go_down a st = Some s1"
    by (auto simp: go_down_def ospf6_neighbor_state_change_def upd_nbr_def heap_upd_def)
  from nbr_tryD(1) [OF nbr_try_down al] nbr_tryD(2) [OF nbr_try_down al sc] obtain n where
    s1: "alive a s1 n" "on_if n = on_if on" by blast
  then obtain x where x: "top_nbr s1 a = Some n" "top_if s1 (on_if on) = Some x" "top_area s1 (oi_area x) \<noteq> None" by (auto simp: alive_def)
  let ?s2 = "(emit [Add_event (Neighbor_change (on_if on))] s1)\<lparr>top_if := (top_if s1)(on_if on \<mapsto> x\<lparr>oi_neighbor_list := remove1 a (oi_neighbor_list x)\<rparr>)\<rparr>"
  have "alive a ?s2 n" using x s1(2) by (simp add: alive_def)
  from delete_exact [OF this] obtain s3 where "ospf6_neighbor_delete a ?s2 = Some s3" by blast
  with sc x s1(2) show ?thesis by (simp add: inactivity_timer_down upd_if_def heap_upd_def)
qed

lemma inactivity_wf:
  assumes wf: "ospf6_wf st" and on: "top_nbr st a = Some on" and t: "inactivity_timer a st = Some st'"
  shows "ospf6_wf st' \<and> top_nbr st' = (top_nbr st)(a := None)
    \<and> (\<exists>ifc ifc'. top_if st (on_if on) = Some ifc \<and> top_if st' (on_if on) = Some ifc' \<and> oi_neighbor_list ifc' = remove1 a (oi_neighbor_list ifc))"
proof -
  from inactivity_exact [OF assms] obtain ifc ifc' where
    r: "inactivity_timer a st = Some st'" "top_nbr st' = (top_nbr st)(a := None)" "top_brk st' = top_brk st"
      "\<And>i. top_area st' i = None \<longleftrightarrow> top_area st i = None" "\<And>i. i \<noteq> on_if on \<Longrightarrow> map_option if_shape (top_if st' i) = map_option if_shape (top_if st i)"
      "top_if st (on_if on) = Some ifc" "top_if st' (on_if on) = Some ifc'" "oi_neighbor_list ifc' = remove1 a (oi_neighbor_list ifc)" "oi_area ifc' = oi_area ifc"
    using t by blast
  have bwd: "\<exists>y. top_if st i = Some y \<and> oi_area x = oi_area y \<and> oi_neighbor_list x = (if i = on_if on then remove1 a (oi_neighbor_list y) else oi_neighbor_list y)"
    if "top_if st' i = Some x" for i x
  proof (cases "i = on_if on")
    case False
    from if_shape_cases [OF r(5) [OF False, symmetric] that] False show ?thesis by auto
  qed (use that r in auto)
  have fwd: "\<exists>x. top_if st' i = Some x \<and> oi_neighbor_list x = (if i = on_if on then remove1 a (oi_neighbor_list y) else oi_neighbor_list y)"
    if "top_if st i = Some y" for i y
  proof (cases "i = on_if on")
    case False
    from if_shape_cases [OF r(5) [OF False] that] False show ?thesis by auto
  qed (use that r in auto)
  have "ospf6_wf st'" unfolding ospf6_wf_def
  proof (intro conjI allI impI)
    fix b n
    assume "top_nbr st' b = Some n"
    then have b: "b \<noteq> a" "top_nbr st b = Some n" using r(2) by (auto split: if_splits)
    show "nbr_ok n" "b < top_brk st'" using wf_nbr(1,2) [OF wf b(2)] r(3) by auto
    from wf_nbr(4) [OF wf b(2)] fwd b(1) show "\<exists>oi. top_if st' (on_if n) = Some oi \<and> b \<in> set (oi_neighbor_list oi)" by fastforce
  next
    fix i x
    assume "top_if st' i = Some x"
    from bwd [OF this] obtain y where y: "top_if st i = Some y" "oi_area x = oi_area y"
      "oi_neighbor_list x = (if i = on_if on then remove1 a (oi_neighbor_list y) else oi_neighbor_list y)" by blast
    show "distinct (oi_neighbor_list x)" "top_area st' (oi_area x) \<noteq> None" using wf_if(1,2) [OF wf y(1)] y(2,3) r(4) by auto
    show "\<forall>b\<in>set (oi_neighbor_list x). \<exists>n. top_nbr st' b = Some n \<and> on_if n = i"
      using wf_if(1,3) [OF wf y(1)] y(3) r(2) on by (cases "i = on_if on") fastforce+
  qed
  with r show ?thesis by blast
qed

section \<open>Events of interfaces\<close>

lemma wf_same:
  assumes "ospf6_wf st" "top_nbr st' = top_nbr st" "top_brk st' = top_brk st"
    "\<And>i. map_option if_shape (top_if st' i) = map_option if_shape (top_if st i)" "top_area st' = top_area st"
  shows "ospf6_wf st'"
proof -
  have f: "\<exists>oi'. top_if st' i = Some oi' \<and> oi_neighbor_list oi' = oi_neighbor_list oi" if "top_if st i = Some oi" for i oi
    using if_shape_cases [OF assms(4) that] by blast
  have b: "\<exists>oi. top_if st i = Some oi \<and> oi_neighbor_list oi = oi_neighbor_list oi' \<and> oi_area oi = oi_area oi'" if "top_if st' i = Some oi'" for i oi'
    using if_shape_cases [OF assms(4) [symmetric] that] by blast
  show ?thesis unfolding ospf6_wf_def
  proof (intro conjI allI impI)
    fix a on
    assume "top_nbr st' a = Some on"
    then have on: "top_nbr st a = Some on" using assms(2) by simp
    show "nbr_ok on" "a < top_brk st'" using wf_nbr(1,2) [OF assms(1) on] assms(3) by auto
    from wf_nbr(4) [OF assms(1) on] f show "\<exists>oi. top_if st' (on_if on) = Some oi \<and> a \<in> set (oi_neighbor_list oi)" by fastforce
  next
    fix i oi'
    assume "top_if st' i = Some oi'"
    from b [OF this] obtain oi where oi: "top_if st i = Some oi" "oi_neighbor_list oi = oi_neighbor_list oi'" "oi_area oi = oi_area oi'" by blast
    from wf_if [OF assms(1) oi(1)] oi(2,3) assms(2,5) show "distinct (oi_neighbor_list oi')" "top_area st' (oi_area oi') \<noteq> None"
      "\<forall>a\<in>set (oi_neighbor_list oi'). \<exists>on. top_nbr st' a = Some on \<and> on_if on = i" by auto
  qed
qed

lemma if_upd_wf:
  assumes "ospf6_wf st" "top_if st oi = Some ifc" "if_shape ifc' = if_shape ifc"
  shows "ospf6_wf ((emit acts st)\<lparr>top_if := (top_if st)(oi \<mapsto> ifc')\<rparr>)"
  using assms(2,3) by (intro wf_same [OF assms(1)]) auto

lemma state_change_wf:
  assumes "ospf6_wf st" "top_if st oi = Some ifc"
  shows "\<exists>st' ifc'. ospf6_interface_state_change s oi st = Some st' \<and> ospf6_wf st' \<and> top_if st' oi = Some ifc' \<and> oi_state ifc' = s"
  using assms if_upd_wf [OF assms, of "ifc\<lparr>oi_state := s\<rparr>" "[]"]
  by (auto simp: ospf6_interface_state_change_def upd_if_def heap_upd_def if_shape_def emit_def)

lemma dr_election_wf:
  assumes "ospf6_wf st" "top_if st oi = Some ifc"
  shows "\<exists>s st' ifc'. dr_election oi st = Some (s, st') \<and> ospf6_wf st' \<and> top_if st' oi = Some ifc'"
proof -
  have nb: "\<forall>a\<in>set (oi_neighbor_list ifc). top_nbr st a \<noteq> None" using wf_if(3) [OF assms] by auto
  obtain D B where "elect (map (\<lambda>a. (Some a, the (top_nbr st a))) (oi_neighbor_list ifc)) (myself_of ifc (top_router_id st)) = (D, B)" by fastforce
  from dr_election_exact [OF assms(2) nb this] if_upd_wf [OF assms] show ?thesis by (fastforce simp: if_shape_def)
qed

lemma emit_wf [simp]: "ospf6_wf (emit acts st) = ospf6_wf st"
  by (simp add: ospf6_wf_def)

lemma interface_events_wf:
  assumes wf: "ospf6_wf st" and i: "top_if st oi = Some ifc"
  shows "\<exists>st'. interface_up oi st = Some st' \<and> ospf6_wf st'" "\<exists>st'. wait_timer oi st = Some st' \<and> ospf6_wf st'"
    "\<exists>st'. neighbor_change oi st = Some st' \<and> ospf6_wf st'"
proof -
  from dr_election_wf [OF assms] obtain s st1 ifc1 where d: "dr_election oi st = Some (s, st1)" "ospf6_wf st1" "top_if st1 oi = Some ifc1" by blast
  from state_change_wf [OF d(2,3), of s] have e: "\<exists>st'. do { (s, st) \<leftarrow> dr_election oi st; ospf6_interface_state_change s oi st } = Some st' \<and> ospf6_wf st'"
    using d(1) by auto
  show "\<exists>st'. wait_timer oi st = Some st' \<and> ospf6_wf st'" "\<exists>st'. neighbor_change oi st = Some st' \<and> ospf6_wf st'"
    using e i wf by (simp_all add: wait_timer_def neighbor_change_def)
  have c: "\<exists>st'. ospf6_interface_state_change s oi (emit acts st) = Some st' \<and> ospf6_wf st'" for s acts
    using state_change_wf [of "emit acts st" oi ifc s] wf i by auto
  have d: "\<exists>st'. do { st \<leftarrow> ospf6_interface_state_change s oi (emit acts st); Some (emit acts' st) } = Some st' \<and> ospf6_wf st'" for s acts acts'
  proof -
    from c [of s acts] obtain x where "ospf6_interface_state_change s oi (emit acts st) = Some x" "ospf6_wf x" by blast
    then show ?thesis by simp
  qed
  show "\<exists>st'. interface_up oi st = Some st' \<and> ospf6_wf st'"
    unfolding interface_up_def Let_def i using wf c d by (simp split: if_split)
qed

text \<open>Flooding keeps the links between the objects, the states, and empty request lists.\<close>

lemma frame_wf:
  assumes wf: "ospf6_wf st" and fr: "frame st st'"
  shows "ospf6_wf st'"
proof -
  have nbr: "rel_option nbr_kept (top_nbr st a) (top_nbr st' a)" and ifc: "rel_option if_kept (top_if st a) (top_if st' a)"
    and area: "rel_option area_kept (top_area st a) (top_area st' a)" and brk: "top_brk st' = top_brk st" for a
    using fr by (auto simp: frame_def)
  show ?thesis unfolding ospf6_wf_def
  proof (intro conjI allI impI)
    fix a on'
    assume "top_nbr st' a = Some on'"
    with nbr [of a] obtain on where on: "top_nbr st a = Some on" "nbr_kept on on'" by (auto simp: option_rel_Some2)
    from wf_nbr(1,2,4) [OF wf on(1)] obtain oi where oi: "nbr_ok on" "a < top_brk st" "top_if st (on_if on) = Some oi" "a \<in> set (oi_neighbor_list oi)" by blast
    from ifc [of "on_if on"] oi(3) obtain oi' where "top_if st' (on_if on) = Some oi'" "if_kept oi oi'" by (auto simp: option_rel_Some1)
    with on(2) oi show "nbr_ok on'" "a < top_brk st'" "\<exists>oi. top_if st' (on_if on') = Some oi \<and> a \<in> set (oi_neighbor_list oi)"
      by (auto simp: kept_defs nbr_ok_def brk)
  next
    fix i oi'
    assume "top_if st' i = Some oi'"
    with ifc [of i] obtain oi where oi: "top_if st i = Some oi" "if_kept oi oi'" by (auto simp: option_rel_Some2)
    show "distinct (oi_neighbor_list oi')" using wf_if(1) [OF wf oi(1)] oi(2) by (simp add: if_kept_def)
    show "top_area st' (oi_area oi') \<noteq> None" using wf_if(2) [OF wf oi(1)] oi(2) area [of "oi_area oi"] by (auto simp: if_kept_def option_rel_Some1)
    show "\<forall>a\<in>set (oi_neighbor_list oi'). \<exists>on. top_nbr st' a = Some on \<and> on_if on = i"
    proof
      fix a
      assume "a \<in> set (oi_neighbor_list oi')"
      with wf_if(3) [OF wf oi(1)] oi(2) obtain on where "top_nbr st a = Some on" "on_if on = i" by (auto simp: if_kept_def)
      then show "\<exists>on. top_nbr st' a = Some on \<and> on_if on = i" using nbr [of a] by (auto simp: option_rel_Some1 nbr_kept_def)
    qed
  qed
qed

lemma handle_needs_nbr: "handle now ev a st = Some st' \<Longrightarrow> \<exists>on. top_nbr st a = Some on"
  by (cases ev) (auto simp: hello_received_def nbr_thread_off_def twoway_received_def negotiation_done_def exchange_done_def loading_done_def
      adj_ok_def seqnumber_mismatch_def bad_lsreq_def oneway_received_def bind_eq_Some_conv)

end
