(* ===== verification/Ospf6_Message.thy ===== *)
theory Ospf6_Message
  imports Ospf6_Receive
begin

text \<open>
  Received OSPF packets, \<open>ospf6-sibling/ospf6_message.c\<close>: the handlers for Hello, database
  description, request and update packets that \<open>ospf6_receive\<close> dispatches to.

  A packet is the list of the bytes in the receive buffer from the OSPF header on; the
  pointers of the handlers are offsets into it. Reading behind the buffer is an error,
  \<open>None\<close>. The length field of the header, which the loops use as their bound, is not
  compared with the size of the buffer. The flag for debugging messages is an argument where
  it matters for more than the messages.
\<close>

section \<open>Fields\<close>

definition get_u16 :: "u8 list \<Rightarrow> nat \<Rightarrow> u16 option" where
  "get_u16 m i = do { a \<leftarrow> rd m i; b \<leftarrow> rd m (i + 1); Some (get_be16 a b) }"

definition get_u32 :: "u8 list \<Rightarrow> nat \<Rightarrow> u32 option" where
  "get_u32 m i = do { a \<leftarrow> rd m i; b \<leftarrow> rd m (i + 1); c \<leftarrow> rd m (i + 2); d \<leftarrow> rd m (i + 3); Some (get_be32 a b c d) }"

definition header_size :: nat where "header_size = 16"
definition hello_size :: nat where "hello_size = 20"
definition dbdesc_size :: nat where "dbdesc_size = 12"
definition lsreq_entry_size :: nat where "lsreq_entry_size = 12"
definition lsupdate_size :: nat where "lsupdate_size = 4"

lemmas packet_sizes = header_size_def hello_size_def dbdesc_size_def lsreq_entry_size_def lsupdate_size_def lsa_header_size_def

definition OSPF6_MESSAGE_TYPE_HELLO :: u8 where "OSPF6_MESSAGE_TYPE_HELLO = 1"
definition OSPF6_MESSAGE_TYPE_DBDESC :: u8 where "OSPF6_MESSAGE_TYPE_DBDESC = 2"
definition OSPF6_MESSAGE_TYPE_LSREQ :: u8 where "OSPF6_MESSAGE_TYPE_LSREQ = 3"
definition OSPF6_MESSAGE_TYPE_LSUPDATE :: u8 where "OSPF6_MESSAGE_TYPE_LSUPDATE = 4"

lemmas message_types = OSPF6_MESSAGE_TYPE_HELLO_def OSPF6_MESSAGE_TYPE_DBDESC_def OSPF6_MESSAGE_TYPE_LSREQ_def OSPF6_MESSAGE_TYPE_LSUPDATE_def

definition oh_type :: "u8 list \<Rightarrow> u8 option" where
  "oh_type m = rd m 1"

definition oh_router_id :: "u8 list \<Rightarrow> u32 option" where
  "oh_router_id m = get_u32 m 4"

text \<open>The end of the message, as an offset.\<close>

definition OSPF6_MESSAGE_END :: "u8 list \<Rightarrow> nat option" where
  "OSPF6_MESSAGE_END m = map_option unat (get_u16 m 2)"

definition get_dbdesc :: "u8 list \<Rightarrow> nat \<Rightarrow> ospf6_dbdesc option" where
  "get_dbdesc m i =
     do {
       r1 \<leftarrow> rd m i; o0 \<leftarrow> rd m (i + 1); o1 \<leftarrow> rd m (i + 2); o2 \<leftarrow> rd m (i + 3);
       mtu \<leftarrow> get_u16 m (i + 4); r2 \<leftarrow> rd m (i + 6); bits \<leftarrow> rd m (i + 7); seqnum \<leftarrow> get_u32 m (i + 8);
       Some \<lparr>dd_reserved1 = r1, dd_options = [o0, o1, o2], dd_ifmtu = mtu, dd_reserved2 = r2, dd_bits = bits, dd_seqnum = seqnum\<rparr>
     }"

definition get_lsa_header :: "u8 list \<Rightarrow> nat \<Rightarrow> ospf6_lsa_header option" where
  "get_lsa_header m i =
     do {
       age \<leftarrow> get_u16 m i; type \<leftarrow> get_u16 m (i + 2); lsid \<leftarrow> get_u32 m (i + 4); adv \<leftarrow> get_u32 m (i + 8);
       seqnum \<leftarrow> get_u32 m (i + 12); checksum \<leftarrow> get_u16 m (i + 16); len \<leftarrow> get_u16 m (i + 18);
       Some \<lparr>lh_age = age, lh_type = type, lh_id = lsid, lh_adv_router = adv, lh_seqnum = seqnum, lh_checksum = checksum, lh_length = len\<rparr>
     }"

section \<open>Hello\<close>

text \<open>How often the packet names a router.\<close>

function count_router :: "u32 \<Rightarrow> u8 list \<Rightarrow> nat \<Rightarrow> nat \<Rightarrow> nat \<Rightarrow> nat option" where
  "count_router me m msg_end p twoway =
     (if p + 4 \<le> msg_end
      then do { r \<leftarrow> get_u32 m p; count_router me m msg_end (p + 4) (if r = me then twoway + 1 else twoway) }
      else Some twoway)"
  by pat_completeness auto
termination by (relation "measure (\<lambda>(_, _, e, p, _). e - p)") auto

declare count_router.simps [simp del]

text \<open>What the packet says of priority and designated routers, and how many of the changes
  concern the election.\<close>

definition hello_changes :: "u8 \<Rightarrow> u32 \<Rightarrow> u32 \<Rightarrow> ospf6_neighbor \<Rightarrow> nat \<times> ospf6_neighbor" where
  "hello_changes priority drouter bdrouter on =
     (let n = 0;
          (n, on) = (if on_priority on \<noteq> priority then (n + 1, on\<lparr>on_priority := priority\<rparr>) else (n, on));
          (n, on) = (if on_drouter on \<noteq> drouter
                     then (let on = on\<lparr>on_prev_drouter := on_drouter on, on_drouter := drouter\<rparr> in
                           (if on_prev_drouter on = on_router_id on \<or> on_drouter on = on_router_id on then n + 1 else n, on))
                     else (n, on));
          (n, on) = (if on_bdrouter on \<noteq> bdrouter
                     then (let on = on\<lparr>on_prev_bdrouter := on_bdrouter on, on_bdrouter := bdrouter\<rparr> in
                           (if on_prev_bdrouter on = on_router_id on \<or> on_bdrouter on = on_router_id on then n + 1 else n, on))
                     else (n, on))
      in (n, on))"

definition checkpoints :: "ospf6 \<Rightarrow> bool" where
  "checkpoints st \<longleftrightarrow> top_checkpoint_enabled st \<and> (\<not> top_restart_mode st \<or> top_ready_to_checkpoint st)"

definition send_ack :: "u32 \<Rightarrow> ospf6 \<Rightarrow> ospf6" where
  "send_ack xid st = (if top_restart_mode st then st else emit [Send_ack xid] st)"

text \<open>The neighbour the packet is from, created if it is not known yet.\<close>

definition hello_neighbor :: "timeval \<Rightarrow> u8 list \<Rightarrow> nat \<Rightarrow> ospf6 \<Rightarrow> (nat \<times> ospf6) option" where
  "hello_neighbor now m oi st =
     do {
       router_id \<leftarrow> oh_router_id m;
       found \<leftarrow> ospf6_neighbor_lookup router_id oi st;
       case found of
         Some a \<Rightarrow> Some (a, st)
       | None \<Rightarrow>
           do {
             (a, st) \<leftarrow> ospf6_neighbor_create now router_id oi st;
             drouter \<leftarrow> get_u32 m (header_size + 12);
             bdrouter \<leftarrow> get_u32 m (header_size + 16);
             priority \<leftarrow> rd m (header_size + 4);
             st \<leftarrow> upd_nbr a (\<lambda>x. x\<lparr>on_prev_drouter := drouter, on_drouter := drouter, on_prev_bdrouter := bdrouter, on_bdrouter := bdrouter,
               on_priority := priority\<rparr>) st;
             Some (a, st)
           }
     }"

definition ospf6_hello_recv :: "timeval \<Rightarrow> u8 list \<Rightarrow> nat \<Rightarrow> u32 \<Rightarrow> ospf6 \<Rightarrow> ospf6 option" where
  "ospf6_hello_recv now m oi xid st =
     do {
       ifc \<leftarrow> top_if st oi;
       hello_interval \<leftarrow> get_u16 m (header_size + 8);
       if hello_interval \<noteq> oi_hello_interval ifc then Some st
       else do {
              (a, st) \<leftarrow> hello_neighbor now m oi st;
              ifindex \<leftarrow> get_u32 m header_size;
              st \<leftarrow> upd_nbr a (\<lambda>x. x\<lparr>on_ifindex := ifindex\<rparr>) st;
              msg_end \<leftarrow> OSPF6_MESSAGE_END m;
              twoway \<leftarrow> count_router (top_router_id st) m msg_end (header_size + hello_size) 0;
              let st = (if checkpoints st then emit [Db_put_hello m xid] st else st);
              on \<leftarrow> top_nbr st a;
              priority \<leftarrow> rd m (header_size + 4);
              drouter \<leftarrow> get_u32 m (header_size + 12);
              bdrouter \<leftarrow> get_u32 m (header_size + 16);
              st \<leftarrow> upd_nbr a (\<lambda>x. snd (hello_changes priority drouter bdrouter x)) st;
              st \<leftarrow> hello_received a st;
              st \<leftarrow> (if twoway \<noteq> 0 then twoway_received a st else oneway_received a st);
              let st = (if fst (hello_changes priority drouter bdrouter on) \<noteq> 0 then emit [Add_event (Neighbor_change oi)] st else st);
              Some (send_ack xid st)
            }
     }"

section \<open>Database description\<close>

text \<open>The state in which the packet is accepted. The result says whether it is processed further.\<close>

definition dbdesc_exstart :: "timeval \<Rightarrow> u8 list \<Rightarrow> nat \<Rightarrow> ospf6 \<Rightarrow> (bool \<times> ospf6) option" where
  "dbdesc_exstart now m a st =
     do {
       bits \<leftarrow> rd m (header_size + 7);
       msg_end \<leftarrow> OSPF6_MESSAGE_END m;
       if bits AND OSPF6_DBDESC_IBIT \<noteq> 0 \<and> bits AND OSPF6_DBDESC_MBIT \<noteq> 0 \<and> bits AND OSPF6_DBDESC_MSBIT \<noteq> 0
          \<and> msg_end = header_size + dbdesc_size
       then do {
              dd \<leftarrow> get_dbdesc m header_size;
              st \<leftarrow> upd_nbr a (\<lambda>x. x\<lparr>on_dbdesc_bits := on_dbdesc_bits x AND NOT OSPF6_DBDESC_MSBIT, on_dbdesc_seqnum := dd_seqnum dd\<rparr>) st;
              st \<leftarrow> negotiation_done now a st;
              st \<leftarrow> upd_nbr a (\<lambda>x. x\<lparr>on_options := dd_options dd\<rparr>) st;
              Some (True, st)
            }
       else Some (False, st)
     }"

definition dbdesc_mismatch :: "nat \<Rightarrow> ospf6 \<Rightarrow> (bool \<times> ospf6) option" where
  "dbdesc_mismatch a st = Some (False, emit [Add_event (Seqnumber_mismatch a)] st)"

definition dbdesc_exchange :: "u8 list \<Rightarrow> nat \<Rightarrow> ospf6 \<Rightarrow> (bool \<times> ospf6) option" where
  "dbdesc_exchange m a st =
     do {
       on \<leftarrow> top_nbr st a;
       dd \<leftarrow> get_dbdesc m header_size;
       if dd = on_dbdesc_last on then do { st \<leftarrow> schedule_dbdesc a st; Some (False, st) }
       else if dd_bits dd AND OSPF6_DBDESC_MSBIT = 0 then dbdesc_mismatch a st
       else if dd_bits dd AND OSPF6_DBDESC_IBIT \<noteq> 0 then dbdesc_mismatch a st
       else if on_options on \<noteq> dd_options dd then dbdesc_mismatch a st
       else if dd_seqnum dd \<noteq> on_dbdesc_seqnum on + 1 then dbdesc_mismatch a st
       else Some (True, st)
     }"

definition dbdesc_loaded :: "u8 list \<Rightarrow> nat \<Rightarrow> ospf6 \<Rightarrow> (bool \<times> ospf6) option" where
  "dbdesc_loaded m a st =
     do {
       on \<leftarrow> top_nbr st a;
       dd \<leftarrow> get_dbdesc m header_size;
       if dd = on_dbdesc_last on then do { st \<leftarrow> schedule_dbdesc a st; Some (False, st) } else dbdesc_mismatch a st
     }"

definition dbdesc_admit :: "timeval \<Rightarrow> u8 list \<Rightarrow> nat \<Rightarrow> ospf6 \<Rightarrow> (bool \<times> ospf6) option" where
  "dbdesc_admit now m a st =
     do {
       on \<leftarrow> top_nbr st a;
       if on_state on < OSPF6_NEIGHBOR_INIT then Some (False, st)
       else if on_state on = OSPF6_NEIGHBOR_TWOWAY then Some (False, st)
       else if on_state on = OSPF6_NEIGHBOR_INIT
       then do {
              st \<leftarrow> twoway_received a st;
              on \<leftarrow> top_nbr st a;
              if on_state on \<noteq> OSPF6_NEIGHBOR_EXSTART then Some (False, st) else dbdesc_exstart now m a st
            }
       else if on_state on = OSPF6_NEIGHBOR_EXSTART then dbdesc_exstart now m a st
       else if on_state on = OSPF6_NEIGHBOR_EXCHANGE then dbdesc_exchange m a st
       else if on_state on = OSPF6_NEIGHBOR_LOADING \<or> on_state on = OSPF6_NEIGHBOR_FULL then dbdesc_loaded m a st
       else None
     }"

text \<open>
  The database an LSA header is looked up in. None is chosen for area scope, and a lookup
  without a database finds nothing; for the reserved scope the LSA has been freed when its
  header is read next.
\<close>

definition dbdesc_lsdb :: "ospf6_lsa \<Rightarrow> nat \<Rightarrow> lsdb_ref option option" where
  "dbdesc_lsdb his oi =
     (if lsa_scope his = OSPF6_SCOPE_LINKLOCAL then Some (Some (Interface_lsdb oi))
      else if lsa_scope his = OSPF6_SCOPE_AREA then Some None
      else if lsa_scope his = OSPF6_SCOPE_AS then Some (Some Process_lsdb)
      else None)"

definition request_lsa :: "timeval \<Rightarrow> nat \<Rightarrow> ospf6_lsa \<Rightarrow> ospf6 \<Rightarrow> ospf6 option" where
  "request_lsa now a his st =
     do {
       on \<leftarrow> top_nbr st a;
       (hooks, R) \<leftarrow> store_add now his (on_request_list on);
       upd_nbr a (\<lambda>x. x\<lparr>on_request_list := R\<rparr>) st
     }"

definition dbdesc_header :: "timeval \<Rightarrow> nat \<Rightarrow> ospf6_lsa_header \<Rightarrow> ospf6 \<Rightarrow> ospf6 option" where
  "dbdesc_header now a h st =
     do {
       let his = ospf6_lsa_create_headeronly now h;
       on \<leftarrow> top_nbr st a;
       lsdb \<leftarrow> dbdesc_lsdb his (on_if on);
       case lsdb of
         None \<Rightarrow> request_lsa now a his st
       | Some r \<Rightarrow>
           do {
             S \<leftarrow> lsdb_of r st;
             case store_find his S of
               None \<Rightarrow> request_lsa now a his st
             | Some mine \<Rightarrow>
                 do {
                   (c, his, mine) \<leftarrow> ospf6_lsa_compare now his mine;
                   st \<leftarrow> touch_lsdb r mine st;
                   if c < 0 then request_lsa now a his st else discard his st
                 }
           }
     }"

function dbdesc_headers :: "timeval \<Rightarrow> u8 list \<Rightarrow> nat \<Rightarrow> nat \<Rightarrow> nat \<Rightarrow> ospf6 \<Rightarrow> ospf6 option" where
  "dbdesc_headers now m a msg_end p st =
     (if p + lsa_header_size \<le> msg_end
      then do {
             h \<leftarrow> get_lsa_header m p;
             st \<leftarrow> dbdesc_header now a h st;
             dbdesc_headers now m a msg_end (p + lsa_header_size) st
           }
      else Some st)"
  by pat_completeness auto
termination by (relation "measure (\<lambda>(_, _, _, e, p, _). e - p)") (auto simp: lsa_header_size_def)

declare dbdesc_headers.simps [simp del]

definition schedule_lsreq :: "nat \<Rightarrow> ospf6 \<Rightarrow> ospf6 option" where
  "schedule_lsreq a st =
     do {
       on \<leftarrow> top_nbr st a;
       if on_thread_send_lsreq on then Some st
       else upd_nbr a (\<lambda>x. x\<lparr>on_thread_send_lsreq := True\<rparr>) (emit [Add_event (Lsreq_send a)] st)
     }"

definition schedule_dbdesc_newone :: "nat \<Rightarrow> ospf6 \<Rightarrow> ospf6 option" where
  "schedule_dbdesc_newone a st =
     do {
       st \<leftarrow> nbr_thread_off on_thread_send_dbdesc on_thread_send_dbdesc_update Dbdesc_send a st;
       upd_nbr a (\<lambda>x. x\<lparr>on_thread_send_dbdesc := True\<rparr>) (emit [Add_event (Dbdesc_send_newone a)] st)
     }"

definition ospf6_dbdesc_recv_slave :: "timeval \<Rightarrow> u8 list \<Rightarrow> nat \<Rightarrow> ospf6 \<Rightarrow> ospf6 option" where
  "ospf6_dbdesc_recv_slave now m a st =
     do {
       (go, st) \<leftarrow> dbdesc_admit now m a st;
       if \<not> go then Some st
       else do {
              msg_end \<leftarrow> OSPF6_MESSAGE_END m;
              st \<leftarrow> dbdesc_headers now m a msg_end (header_size + dbdesc_size) st;
              dd \<leftarrow> get_dbdesc m header_size;
              st \<leftarrow> upd_nbr a (\<lambda>x. x\<lparr>on_dbdesc_seqnum := dd_seqnum dd\<rparr>) st;
              st \<leftarrow> schedule_lsreq a st;
              st \<leftarrow> schedule_dbdesc_newone a st;
              upd_nbr a (\<lambda>x. x\<lparr>on_dbdesc_last := dd\<rparr>) st
            }
     }"

text \<open>A master does nothing with the packet. The check of the MTU counts only with debugging on.\<close>

definition ospf6_dbdesc_recv_master :: "u8 list \<Rightarrow> nat \<Rightarrow> ospf6 \<Rightarrow> ospf6 option" where
  "ospf6_dbdesc_recv_master m a st = Some st"

definition ospf6_dbdesc_recv :: "bool \<Rightarrow> timeval \<Rightarrow> u8 list \<Rightarrow> nat \<Rightarrow> u32 \<Rightarrow> ospf6 \<Rightarrow> ospf6 option" where
  "ospf6_dbdesc_recv debug now m oi xid st =
     do {
       router_id \<leftarrow> oh_router_id m;
       found \<leftarrow> ospf6_neighbor_lookup router_id oi st;
       case found of
         None \<Rightarrow> Some st
       | Some a \<Rightarrow>
           do {
             ifc \<leftarrow> top_if st oi;
             mtu \<leftarrow> get_u16 m (header_size + 4);
             if ucast mtu \<noteq> oi_ifmtu ifc \<and> debug then Some st
             else do {
                    st \<leftarrow> (if router_id < top_router_id st then ospf6_dbdesc_recv_master m a st
                           else if top_router_id st < router_id then ospf6_dbdesc_recv_slave now m a st
                           else Some st);
                    let st = (if checkpoints st then emit [Db_put_dbdesc m xid] st else st);
                    Some (send_ack xid st)
                  }
           }
     }"

section \<open>Request\<close>

text \<open>
  The database is a variable of the whole loop: an entry of area or AS scope is looked up in
  the database of the entry before it. The result says whether all entries have been found;
  the first one that is not ends the handler.
\<close>

function lsreq_entries :: "timeval \<Rightarrow> u8 list \<Rightarrow> nat \<Rightarrow> nat \<Rightarrow> nat \<Rightarrow> lsdb_ref option \<Rightarrow> ospf6 \<Rightarrow> (bool \<times> ospf6) option" where
  "lsreq_entries now m a msg_end p lsdb st =
     (if p + lsreq_entry_size \<le> msg_end
      then do {
             type \<leftarrow> get_u16 m (p + 2);
             lsid \<leftarrow> get_u32 m (p + 4);
             adv_router \<leftarrow> get_u32 m (p + 8);
             on \<leftarrow> top_nbr st a;
             if OSPF6_LSA_SCOPE type \<notin> {OSPF6_SCOPE_LINKLOCAL, OSPF6_SCOPE_AREA, OSPF6_SCOPE_AS}
             then lsreq_entries now m a msg_end (p + lsreq_entry_size) lsdb st
             else do {
                    let lsdb = (if OSPF6_LSA_SCOPE type = OSPF6_SCOPE_LINKLOCAL then Some (Interface_lsdb (on_if on)) else lsdb);
                    lsa \<leftarrow> (case lsdb of None \<Rightarrow> Some None | Some r \<Rightarrow> map_option (store_lookup type lsid adv_router) (lsdb_of r st));
                    case lsa of
                      None \<Rightarrow> Some (False, emit [Add_event (Bad_lsreq a)] st)
                    | Some lsa \<Rightarrow>
                        do {
                          (copy, lsa) \<leftarrow> ospf6_lsa_copy now lsa;
                          r \<leftarrow> lsdb;
                          st \<leftarrow> touch_lsdb r lsa st;
                          (hooks, L) \<leftarrow> store_add now copy (on_lsupdate_list on);
                          st \<leftarrow> upd_nbr a (\<lambda>x. x\<lparr>on_lsupdate_list := L\<rparr>) st;
                          lsreq_entries now m a msg_end (p + lsreq_entry_size) lsdb st
                        }
                  }
           }
      else Some (True, st))"
  by pat_completeness auto
termination by (relation "measure (\<lambda>(_, _, _, e, p, _, _). e - p)") (auto simp: lsreq_entry_size_def)

declare lsreq_entries.simps [simp del]

definition ospf6_lsreq_recv :: "timeval \<Rightarrow> u8 list \<Rightarrow> nat \<Rightarrow> ospf6 \<Rightarrow> ospf6 option" where
  "ospf6_lsreq_recv now m oi st =
     do {
       router_id \<leftarrow> oh_router_id m;
       found \<leftarrow> ospf6_neighbor_lookup router_id oi st;
       case found of
         None \<Rightarrow> Some st
       | Some a \<Rightarrow>
           do {
             msg_end \<leftarrow> OSPF6_MESSAGE_END m;
             (done_all, st) \<leftarrow> lsreq_entries now m a msg_end header_size None st;
             if done_all then resend_lsupdate a st else Some st
           }
     }"

section \<open>Update\<close>

text \<open>The LSAs of the packet are received one after the other, at most as many as announced.\<close>

function lsupdate_lsas :: "timeval \<Rightarrow> uninit \<Rightarrow> u32 \<Rightarrow> u8 list \<Rightarrow> nat \<Rightarrow> nat \<Rightarrow> nat \<Rightarrow> nat \<Rightarrow> ospf6 \<Rightarrow> ospf6 option" where
  "lsupdate_lsas now un hostnum m a msg_end p num st =
     (if p < msg_end
      then do {
             len \<leftarrow> get_u16 m (p + 18);
             if p + unat len \<le> msg_end \<and> num \<noteq> 0 \<and> lsa_header_size \<le> unat len
             then do {
                    h \<leftarrow> get_lsa_header m p;
                    st \<leftarrow> ospf6_receive_lsa now un a h (drop (p + lsa_header_size) m) hostnum st;
                    lsupdate_lsas now un hostnum m a msg_end (p + unat len) (num - 1) st
                  }
             else Some st
           }
      else Some st)"
  by pat_completeness auto
termination by (relation "measure (\<lambda>(_, _, _, _, _, e, p, _, _). e - p)") (auto simp: lsa_header_size_def)

declare lsupdate_lsas.simps [simp del]

definition ospf6_lsupdate_recv :: "timeval \<Rightarrow> uninit \<Rightarrow> u32 \<Rightarrow> u8 list \<Rightarrow> nat \<Rightarrow> ospf6 \<Rightarrow> ospf6 option" where
  "ospf6_lsupdate_recv now un hostnum m oi st =
     do {
       router_id \<leftarrow> oh_router_id m;
       found \<leftarrow> ospf6_neighbor_lookup router_id oi st;
       case found of
         None \<Rightarrow> Some st
       | Some a \<Rightarrow>
           do {
             on \<leftarrow> top_nbr st a;
             if on_state on \<notin> {OSPF6_NEIGHBOR_EXCHANGE, OSPF6_NEIGHBOR_LOADING, OSPF6_NEIGHBOR_FULL} then Some st
             else do {
                    num \<leftarrow> get_u32 m header_size;
                    msg_end \<leftarrow> OSPF6_MESSAGE_END m;
                    st \<leftarrow> lsupdate_lsas now un hostnum m a msg_end (header_size + lsupdate_size) (unat num) st;
                    on \<leftarrow> top_nbr st a;
                    if on_state on = OSPF6_NEIGHBOR_EXCHANGE \<or> on_state on = OSPF6_NEIGHBOR_LOADING
                    then do {
                           st \<leftarrow> nbr_thread_off on_thread_send_lsreq on_thread_send_lsreq_update Lsreq_send a st;
                           upd_nbr a (\<lambda>x. x\<lparr>on_thread_send_lsreq := True\<rparr>) (emit [Add_event (Lsreq_send a)] st)
                         }
                    else Some st
                  }
           }
     }"

section \<open>Dispatch\<close>

definition ospf6_receive :: "bool \<Rightarrow> timeval \<Rightarrow> uninit \<Rightarrow> u32 \<Rightarrow> u8 list \<Rightarrow> u32 \<Rightarrow> nat \<Rightarrow> ospf6 \<Rightarrow> ospf6 option" where
  "ospf6_receive debug now un hostnum m xid oi st =
     do {
       type \<leftarrow> oh_type m;
       if type = OSPF6_MESSAGE_TYPE_HELLO then ospf6_hello_recv now m oi xid st
       else if type = OSPF6_MESSAGE_TYPE_DBDESC then ospf6_dbdesc_recv debug now m oi xid st
       else if type = OSPF6_MESSAGE_TYPE_LSREQ then ospf6_lsreq_recv now m oi st
       else if type = OSPF6_MESSAGE_TYPE_LSUPDATE then ospf6_lsupdate_recv now un hostnum m oi st
       else Some st
     }"

end
