(* ===== verification/Ospf6_Send.thy ===== *)
theory Ospf6_Send
  imports Ospf6_Message
begin

text \<open>
  Senders of OSPF packets, \<open>ospf6-sibling/ospf6_message.c\<close>. The buffer that a packet is put
  together in is the list of its bytes behind the OSPF header; an appended part is what
  \<open>rfpbuf_put_uninit\<close> and the copy into its result leave there. The message goes to the
  client of the controller as the action \<open>Send_packet\<close>, which stands for its header with the
  current transaction id and the increment of that id.

  The loops compare the distance of two pointers with the MTU. The pointer to the OSPF header
  is not renewed when the buffer is moved by an allocation; the argument \<open>d\<close> is how far the
  buffer has been moved by the time of each comparison. The assertions on the reference
  counts of the LSAs are left out: in the sequences used here an LSA has no counter.
\<close>

section \<open>Packets\<close>

definition OSPF6_MESSAGE_TYPE_LSACK :: u8 where "OSPF6_MESSAGE_TYPE_LSACK = 5"
definition OSPFV3_VERSION :: u8 where "OSPFV3_VERSION = 3"

text \<open>An LSA in memory.\<close>

definition lsa_bytes :: "ospf6_lsa_header \<times> u8 list \<Rightarrow> u8 list" where
  "lsa_bytes l = be16 (lh_age (fst l)) @ lsa_tail (fst l) (snd l)"

definition ospf6_fill_header :: "u8 \<Rightarrow> u8 list \<Rightarrow> nat \<Rightarrow> ospf6 \<Rightarrow> u8 list option" where
  "ospf6_fill_header type body oi st =
     do {
       ifc \<leftarrow> top_if st oi;
       area \<leftarrow> top_area st (oi_area ifc);
       Some ([OSPFV3_VERSION, type] @ be16 (word_of_nat (header_size + length body)) @ be32 (top_router_id st) @ be32 (oa_area_id area)
         @ be16 0 @ [0, 0] @ body)
     }"

definition ospf6_msg_send :: "nat \<Rightarrow> u8 list \<Rightarrow> ospf6 \<Rightarrow> ospf6 option" where
  "ospf6_msg_send oi m st = do { ifc \<leftarrow> top_if st oi; client \<leftarrow> oi_ctrl_client ifc; Some (emit [Send_packet oi m] st) }"

definition send_packet :: "u8 \<Rightarrow> u8 list \<Rightarrow> nat \<Rightarrow> ospf6 \<Rightarrow> ospf6 option" where
  "send_packet type body oi st = do { m \<leftarrow> ospf6_fill_header type body oi st; ospf6_msg_send oi m st }"

text \<open>The comparisons with the MTU: with \<open>sizeof\<close> in unsigned, without it in signed arithmetic.\<close>

definition over_unsigned :: "int \<Rightarrow> nat \<Rightarrow> nat \<Rightarrow> u32 \<Rightarrow> bool" where
  "over_unsigned d off n mtu \<longleftrightarrow> (word_of_int (int off + d) :: 64 word) + word_of_nat n > ucast mtu"

definition over_signed :: "int \<Rightarrow> nat \<Rightarrow> nat \<Rightarrow> u32 \<Rightarrow> bool" where
  "over_signed d off n mtu \<longleftrightarrow> int off + d + int n > uint mtu"

section \<open>Hello\<close>

definition RFPPS_LINK_DOWN :: u32 where "RFPPS_LINK_DOWN = 1"

fun hello_ids :: "u32 \<Rightarrow> nat list \<Rightarrow> ospf6 \<Rightarrow> u8 list \<Rightarrow> u8 list option" where
  "hello_ids mtu [] st ids = Some ids" |
  "hello_ids mtu (a # as) st ids =
     do {
       on \<leftarrow> top_nbr st a;
       if on_state on < OSPF6_NEIGHBOR_INIT then hello_ids mtu as st ids
       else if rfp_header_size + header_size + hello_size + length ids + 4 > unat mtu then Some ids
       else hello_ids mtu as st (ids @ be32 (on_router_id on))
     }"

definition hello_body :: "interface \<Rightarrow> ospf6_interface \<Rightarrow> u8 list \<Rightarrow> u8 list" where
  "hello_body ifp ifc ids = be32 (if_ifindex ifp) @ [oi_priority ifc, 0, 0, 0x13] @ be16 (oi_hello_interval ifc) @ be16 (oi_dead_interval ifc) @ be32 0 @ be32 0 @ ids"

definition ospf6_hello_send :: "interface \<Rightarrow> nat \<Rightarrow> ospf6 \<Rightarrow> ospf6 option" where
  "ospf6_hello_send ifp oi st =
     do {
       st \<leftarrow> upd_if oi (\<lambda>x. x\<lparr>oi_thread_send_hello := False\<rparr>) st;
       if if_state ifp = RFPPS_LINK_DOWN then Some st
       else do {
              let st = (if top_restarted_first_egress_not_sent st then emit [Synchronize_current_xid] st else st);
              ifc \<leftarrow> top_if st oi;
              st \<leftarrow> upd_if oi (\<lambda>x. x\<lparr>oi_thread_send_hello := True\<rparr>) (emit [Add_timer (Hello_send oi) (uint (oi_hello_interval ifc))] st);
              ids \<leftarrow> hello_ids (if_mtu ifp) (oi_neighbor_list ifc) st [];
              st \<leftarrow> send_packet OSPF6_MESSAGE_TYPE_HELLO (hello_body ifp ifc ids) oi st;
              Some (st\<lparr>top_restarted_first_egress_not_sent := False\<rparr>)
            }
     }"

section \<open>Database description\<close>

definition dbdesc_bytes :: "ospf6_dbdesc \<Rightarrow> u8 list" where
  "dbdesc_bytes dd = [dd_reserved1 dd] @ dd_options dd @ be16 (dd_ifmtu dd) @ [dd_reserved2 dd, dd_bits dd] @ be32 (dd_seqnum dd)"

text \<open>The headers that fit, with age 0, which the entry that did not fit has now as well.\<close>

fun dbdesc_pack :: "(nat \<Rightarrow> int) \<Rightarrow> u32 \<Rightarrow> store \<Rightarrow> u8 list \<Rightarrow> store \<times> u8 list" where
  "dbdesc_pack d mtu [] body = ([], body)" |
  "dbdesc_pack d mtu (l # ls) body =
     (let l = set_age 0 l in
      if over_unsigned (d (length body)) (header_size + length body) lsa_header_size mtu then (l # ls, body)
      else let (ls, body) = dbdesc_pack d mtu ls (body @ lsa_bytes (lsa_header l, [])) in (l # ls, body))"

definition ospf6_dbdesc_send :: "(nat \<Rightarrow> int) \<Rightarrow> timeval \<Rightarrow> nat \<Rightarrow> ospf6 \<Rightarrow> ospf6 option" where
  "ospf6_dbdesc_send d now a st =
     do {
       st \<leftarrow> upd_nbr a (\<lambda>x. x\<lparr>on_thread_send_dbdesc := False\<rparr>) st;
       on \<leftarrow> top_nbr st a;
       if on_state on < OSPF6_NEIGHBOR_EXSTART then Some st
       else do {
              ifc \<leftarrow> top_if st (on_if on);
              st \<leftarrow> (if on_dbdesc_bits on AND OSPF6_DBDESC_MSBIT \<noteq> 0
                     then upd_nbr a (\<lambda>x. x\<lparr>on_thread_send_dbdesc := True\<rparr>) (emit [Add_timer (Dbdesc_send a) (uint (oi_rxmt_interval ifc))] st)
                     else Some st);
              st \<leftarrow> (if on_dbdesc_bits on AND OSPF6_DBDESC_IBIT \<noteq> 0
                     then upd_nbr a (\<lambda>x. x\<lparr>on_dbdesc_seqnum := word_of_int (tv_sec now)\<rparr>) st else Some st);
              on \<leftarrow> top_nbr st a;
              area \<leftarrow> top_area st (oi_area ifc);
              let dd = \<lparr>dd_reserved1 = 0, dd_options = oa_options area, dd_ifmtu = ucast (oi_ifmtu ifc), dd_reserved2 = 0,
                dd_bits = on_dbdesc_bits on, dd_seqnum = on_dbdesc_seqnum on\<rparr>;
              let (L, body) = (if on_dbdesc_bits on AND OSPF6_DBDESC_IBIT \<noteq> 0 then (on_dbdesc_list on, dbdesc_bytes dd)
                               else dbdesc_pack d (oi_ifmtu ifc) (on_dbdesc_list on) (dbdesc_bytes dd));
              st \<leftarrow> upd_nbr a (\<lambda>x. x\<lparr>on_dbdesc_list := L\<rparr>) st;
              send_packet OSPF6_MESSAGE_TYPE_DBDESC body (on_if on) st
            }
     }"

text \<open>LSAs are moved from the summary list to the description list while they fit.\<close>

fun move_summary :: "timeval \<Rightarrow> u32 \<Rightarrow> nat \<Rightarrow> store \<Rightarrow> store \<Rightarrow> (store \<times> store) option" where
  "move_summary now mtu sz [] D = Some ([], D)" |
  "move_summary now mtu sz (l # ls) D =
     (if sz + lsa_header_size > unat mtu then Some (l # ls, D)
      else do {
             (copy, l) \<leftarrow> ospf6_lsa_copy now l;
             (hooks, D) \<leftarrow> store_add now copy D;
             move_summary now mtu (sz + lsa_header_size) ls D
           })"

definition ospf6_dbdesc_send_newone :: "(nat \<Rightarrow> int) \<Rightarrow> timeval \<Rightarrow> nat \<Rightarrow> ospf6 \<Rightarrow> ospf6 option" where
  "ospf6_dbdesc_send_newone d now a st =
     do {
       on \<leftarrow> top_nbr st a;
       ifc \<leftarrow> top_if st (on_if on);
       (summary, D) \<leftarrow> move_summary now (oi_ifmtu ifc) (lsa_header_size + dbdesc_size) (on_summary_list on) [];
       st \<leftarrow> upd_nbr a (\<lambda>x. x\<lparr>on_summary_list := summary, on_dbdesc_list := D,
         on_dbdesc_bits := if summary = [] then on_dbdesc_bits x AND NOT OSPF6_DBDESC_MBIT else on_dbdesc_bits x\<rparr>) st;
       on \<leftarrow> top_nbr st a;
       let st = (if on_dbdesc_bits on AND OSPF6_DBDESC_MSBIT = 0 \<and> dd_bits (on_dbdesc_last on) AND OSPF6_DBDESC_MBIT = 0
                    \<and> on_dbdesc_bits on AND OSPF6_DBDESC_MBIT = 0
                 then emit [Add_event (Exchange_done a)] st else st);
       ospf6_dbdesc_send d now a st
     }"

section \<open>Request\<close>

definition lsreq_entry :: "ospf6_lsa_header \<Rightarrow> u8 list" where
  "lsreq_entry h = be16 0 @ be16 (lh_type h) @ be32 (lh_id h) @ be32 (lh_adv_router h)"

fun lsreq_pack :: "(nat \<Rightarrow> int) \<Rightarrow> u32 \<Rightarrow> store \<Rightarrow> u8 list \<Rightarrow> u8 list" where
  "lsreq_pack d mtu [] body = body" |
  "lsreq_pack d mtu (l # ls) body =
     (if over_unsigned (d (length body)) (header_size + length body) lsreq_entry_size mtu then body
      else lsreq_pack d mtu ls (body @ lsreq_entry (lsa_header l)))"

definition ospf6_lsreq_send :: "(nat \<Rightarrow> int) \<Rightarrow> nat \<Rightarrow> ospf6 \<Rightarrow> ospf6 option" where
  "ospf6_lsreq_send d a st =
     do {
       st \<leftarrow> upd_nbr a (\<lambda>x. x\<lparr>on_thread_send_lsreq := False\<rparr>) st;
       on \<leftarrow> top_nbr st a;
       if on_state on \<noteq> OSPF6_NEIGHBOR_EXCHANGE \<and> on_state on \<noteq> OSPF6_NEIGHBOR_LOADING then Some st
       else if on_request_list on = [] then Some (emit [Add_event (Loading_done a)] st)
       else do {
              ifc \<leftarrow> top_if st (on_if on);
              st \<leftarrow> upd_nbr a (\<lambda>x. x\<lparr>on_thread_send_lsreq := True\<rparr>) (emit [Add_timer (Lsreq_send a) (uint (oi_rxmt_interval ifc))] st);
              send_packet OSPF6_MESSAGE_TYPE_LSREQ (lsreq_pack d (oi_ifmtu ifc) (on_request_list on) []) (on_if on) st
            }
     }"

section \<open>Update\<close>

definition lsa_mem :: "ospf6_lsa \<Rightarrow> u8 list option" where
  "lsa_mem l =
     (let n = unat (lh_length (lsa_header l)); bs = lsa_bytes (lsa_header l, lsa_body l) in if n \<le> length bs then Some (take n bs) else None)"

text \<open>The LSAs of the update list that fit are sent once; the rest stays on the list.\<close>

fun pack_updates :: "(nat \<Rightarrow> int) \<Rightarrow> u32 \<Rightarrow> store \<Rightarrow> u8 list \<Rightarrow> nat \<Rightarrow> (store \<times> u8 list \<times> nat) option" where
  "pack_updates d mtu [] body num = Some ([], body, num)" |
  "pack_updates d mtu (l # ls) body num =
     (if over_signed (d (length body)) (header_size + lsupdate_size + length body) (unat (lh_length (lsa_header l))) mtu then Some (l # ls, body, num)
      else do { bs \<leftarrow> lsa_mem (set_age 0 l); pack_updates d mtu ls (body @ bs) (num + 1) })"

text \<open>Those of the retransmission list that fit are sent and kept.\<close>

fun pack_retrans :: "(nat \<Rightarrow> int) \<Rightarrow> timeval \<Rightarrow> u32 \<Rightarrow> u32 \<Rightarrow> store \<Rightarrow> u8 list \<Rightarrow> nat \<Rightarrow> (store \<times> u8 list \<times> nat) option" where
  "pack_retrans d now delay mtu [] body num = Some ([], body, num)" |
  "pack_retrans d now delay mtu (l # ls) body num =
     (if over_signed (d (length body)) (header_size + lsupdate_size + length body) (unat (lh_length (lsa_header l))) mtu then Some (l # ls, body, num)
      else do {
             let l = ospf6_lsa_age_update_to_send now delay l;
             bs \<leftarrow> lsa_mem l;
             (ls, body, num) \<leftarrow> pack_retrans d now delay mtu ls (body @ bs) (num + 1);
             Some (l # ls, body, num)
           })"

definition ospf6_lsupdate_send_neighbor :: "(nat \<Rightarrow> int) \<Rightarrow> timeval \<Rightarrow> nat \<Rightarrow> ospf6 \<Rightarrow> ospf6 option" where
  "ospf6_lsupdate_send_neighbor d now a st =
     do {
       st \<leftarrow> upd_nbr a (\<lambda>x. x\<lparr>on_thread_send_lsupdate := False\<rparr>) st;
       on \<leftarrow> top_nbr st a;
       if on_state on < OSPF6_NEIGHBOR_EXCHANGE then Some st
       else if on_lsupdate_list on = [] \<and> on_retrans_list on = [] then Some st
       else do {
              ifc \<leftarrow> top_if st (on_if on);
              (updates, body, num) \<leftarrow> pack_updates d (oi_ifmtu ifc) (on_lsupdate_list on) [] 0;
              (retrans, body, num) \<leftarrow> pack_retrans d now (oi_transdelay ifc) (oi_ifmtu ifc) (on_retrans_list on) body num;
              st \<leftarrow> upd_nbr a (\<lambda>x. x\<lparr>on_lsupdate_list := updates, on_retrans_list := retrans\<rparr>) st;
              st \<leftarrow> send_packet OSPF6_MESSAGE_TYPE_LSUPDATE (be32 (word_of_nat num) @ body) (on_if on) st;
              if updates \<noteq> [] then upd_nbr a (\<lambda>x. x\<lparr>on_thread_send_lsupdate := True\<rparr>) (emit [Add_event (Lsupdate_send_neighbor a)] st)
              else if retrans \<noteq> []
              then upd_nbr a (\<lambda>x. x\<lparr>on_thread_send_lsupdate := True\<rparr>) (emit [Add_timer (Lsupdate_send_neighbor a) (uint (oi_rxmt_interval ifc))] st)
              else Some st
            }
     }"

text \<open>The sender for a whole interface does nothing; the member for its thread stays set.\<close>

definition ospf6_lsupdate_send_interface :: "nat \<Rightarrow> ospf6 \<Rightarrow> ospf6 option" where
  "ospf6_lsupdate_send_interface oi st = Some st"

section \<open>Acknowledgement\<close>

text \<open>The headers that fit, and the LSAs that remain.\<close>

fun pack_acks :: "(nat \<Rightarrow> int) \<Rightarrow> timeval \<Rightarrow> u32 \<Rightarrow> u32 \<Rightarrow> store \<Rightarrow> u8 list \<Rightarrow> store \<times> u8 list" where
  "pack_acks d now delay mtu [] body = ([], body)" |
  "pack_acks d now delay mtu (l # ls) body =
     (if over_unsigned (d (length body)) (header_size + length body) lsa_header_size mtu then (l # ls, body)
      else pack_acks d now delay mtu ls (body @ lsa_bytes (lsa_header (ospf6_lsa_age_update_to_send now delay l), [])))"

definition ospf6_lsack_send_neighbor :: "(nat \<Rightarrow> int) \<Rightarrow> timeval \<Rightarrow> nat \<Rightarrow> ospf6 \<Rightarrow> ospf6 option" where
  "ospf6_lsack_send_neighbor d now a st =
     do {
       st \<leftarrow> upd_nbr a (\<lambda>x. x\<lparr>on_thread_send_lsack := False\<rparr>) st;
       on \<leftarrow> top_nbr st a;
       if on_state on < OSPF6_NEIGHBOR_EXCHANGE then Some st
       else if on_lsack_list on = [] then Some st
       else do {
              ifc \<leftarrow> top_if st (on_if on);
              let (rest, body) = pack_acks d now (oi_transdelay ifc) (oi_ifmtu ifc) (on_lsack_list on) [];
              st \<leftarrow> upd_nbr a (\<lambda>x. x\<lparr>on_lsack_list := rest, on_thread_send_lsack := rest \<noteq> []\<rparr>)
                (if rest \<noteq> [] then emit [Add_event (Lsack_send_neighbor a)] st else st);
              send_packet OSPF6_MESSAGE_TYPE_LSACK body (on_if on) st
            }
     }"

definition ospf6_lsack_send_interface :: "(nat \<Rightarrow> int) \<Rightarrow> timeval \<Rightarrow> nat \<Rightarrow> ospf6 \<Rightarrow> ospf6 option" where
  "ospf6_lsack_send_interface d now oi st =
     do {
       st \<leftarrow> upd_if oi (\<lambda>x. x\<lparr>oi_thread_send_lsack := False\<rparr>) st;
       ifc \<leftarrow> top_if st oi;
       if oi_state ifc \<le> OSPF6_INTERFACE_WAITING then Some st
       else if oi_lsack_list ifc = [] then Some st
       else do {
              let (rest, body) = pack_acks d now (oi_transdelay ifc) (oi_ifmtu ifc) (oi_lsack_list ifc) [];
              st \<leftarrow> upd_if oi (\<lambda>x. x\<lparr>oi_lsack_list := rest, oi_thread_send_lsack := rest \<noteq> []\<rparr>)
                (if rest \<noteq> [] then emit [Add_event (Lsack_send_interface oi)] st else st);
              st \<leftarrow> send_packet OSPF6_MESSAGE_TYPE_LSACK body oi st;
              ifc \<leftarrow> top_if st oi;
              if \<not> oi_thread_send_lsack ifc \<and> oi_lsack_list ifc \<noteq> []
              then upd_if oi (\<lambda>x. x\<lparr>oi_thread_send_lsack := True\<rparr>) (emit [Add_event (Lsack_send_interface oi)] st)
              else Some st
            }
     }"

end
