(* ===== verification/Ospf6_Message_Wf.thy ===== *)
theory Ospf6_Message_Wf
  imports Ospf6_Wf Ospf6_Send
begin

text \<open>
  Received packets keep the state of the process well-formed, whatever bytes they consist of,
  and so do the senders.
\<close>

section \<open>Steps of the handlers\<close>

lemma upd_nbr_wf:
  assumes "ospf6_wf st" "\<And>x. nbr_ok x \<Longrightarrow> nbr_ok (f x) \<and> on_if (f x) = on_if x"
  shows "wlp (upd_nbr a f st) ospf6_wf"
proof (cases "top_nbr st a")
  case (Some x)
  let ?st = "st\<lparr>top_nbr := (top_nbr st)(a \<mapsto> f x)\<rparr>"
  have "touches a st ?st" by (simp add: touches_def)
  moreover have "nbr_ok (f x)" "on_if (f x) = on_if x" using assms(2) wf_nbr(1) [OF assms(1) Some] by auto
  ultimately have "ospf6_wf ?st" by (intro wf_touches [OF assms(1) Some]) simp_all
  then show ?thesis using Some by (simp add: upd_cases)
qed (simp add: upd_cases)

lemma nbr_okI: "nbr_ok x \<Longrightarrow> on_state y = on_state x \<Longrightarrow> on_request_list y = on_request_list x \<Longrightarrow> nbr_ok y"
  by (simp add: nbr_ok_def)

lemma handle_keeps: "ospf6_wf st \<Longrightarrow> wlp (handle now ev a st) ospf6_wf"
  using handle_wf handle_needs_nbr by (blast intro: wlpI)

lemma handlers_wf:
  assumes "ospf6_wf st"
  shows "wlp (hello_received a st) ospf6_wf" "wlp (twoway_received a st) ospf6_wf" "wlp (oneway_received a st) ospf6_wf" "wlp (negotiation_done now a st) ospf6_wf"
  using handle_keeps [OF assms, where ev = HelloReceived] handle_keeps [OF assms, where ev = TwoWayReceived] handle_keeps [OF assms, where ev = OneWayReceived]
    handle_keeps [OF assms, where ev = NegotiationDone] by simp_all

lemma frame_step: "ospf6_wf st \<Longrightarrow> wlp m (frame st) \<Longrightarrow> wlp m ospf6_wf"
  using frame_wf by (blast intro: wlp_mono)

lemma thread_off_wf:
  assumes "ospf6_wf st" "\<And>f x. on_state (upd f x) = on_state x \<and> on_request_list (upd f x) = on_request_list x \<and> on_if (upd f x) = on_if x"
  shows "wlp (nbr_thread_off get upd task a st) ospf6_wf"
  unfolding nbr_thread_off_def using assms by (auto intro!: read_rules upd_nbr_wf elim: nbr_okI)

lemma schedules_wf:
  assumes "ospf6_wf st"
  shows "wlp (schedule_dbdesc a st) ospf6_wf" "wlp (schedule_dbdesc_newone a st) ospf6_wf" "wlp (schedule_lsreq a st) ospf6_wf"
  unfolding schedule_dbdesc_def schedule_dbdesc_newone_def schedule_lsreq_def using assms
  by (auto intro!: read_rules wlp_mono [OF thread_off_wf] upd_nbr_wf elim: nbr_okI)

section \<open>Hello\<close>

lemma hello_neighbor_wf:
  assumes "ospf6_wf st"
  shows "wlp (hello_neighbor now m oi st) (\<lambda>(a, st'). ospf6_wf st')"
proof -
  have u: "wlp (upd_nbr a (\<lambda>x. x\<lparr>on_prev_drouter := d, on_drouter := d, on_prev_bdrouter := b, on_bdrouter := b, on_priority := p\<rparr>) st') ospf6_wf"
    if "ospf6_neighbor_create now r oi st = Some (a, st')" for r a st' d b p
    by (rule upd_nbr_wf [OF create_wf [OF assms that]]) (auto elim: nbr_okI)
  show ?thesis unfolding hello_neighbor_def
    using assms by (auto intro!: wlpI [of "oh_router_id m"] wlpI [of "ospf6_neighbor_lookup _ _ _"] wlpI [of "ospf6_neighbor_create _ _ _ _"] wlpI [of "get_u32 _ _"]
        wlpI [of "rd _ _"] wlp_mono [OF u] split: option.split)
qed

lemma changes_keep: "on_state (snd (hello_changes p d b x)) = on_state x" "on_request_list (snd (hello_changes p d b x)) = on_request_list x"
  "on_if (snd (hello_changes p d b x)) = on_if x" "on_router_id (snd (hello_changes p d b x)) = on_router_id x"
  by (simp_all add: hello_changes_def Let_def)

lemma send_ack_wf [simp]: "ospf6_wf (send_ack xid st) = ospf6_wf st"
  by (simp add: send_ack_def)

lemma hello_recv_wf:
  assumes "ospf6_wf st"
  shows "wlp (ospf6_hello_recv now m oi xid st) ospf6_wf"
proof -
  have ifx: "wlp (upd_nbr a (\<lambda>x. x\<lparr>on_ifindex := i\<rparr>) s) ospf6_wf" if "ospf6_wf s" for a i s by (rule upd_nbr_wf [OF that]) (auto elim: nbr_okI)
  have chg: "wlp (upd_nbr a (\<lambda>x. snd (hello_changes p d b x)) s) ospf6_wf" if "ospf6_wf s" for a p d b s
    by (rule upd_nbr_wf [OF that]) (auto simp: changes_keep elim!: nbr_okI)
  show ?thesis unfolding ospf6_hello_recv_def
    using assms by (auto simp: split_beta Let_def intro!: read_rules wlpI [of "get_u16 _ _"] wlpI [of "get_u32 _ _"] wlpI [of "rd _ _"] wlpI [of "OSPF6_MESSAGE_END _"]
        wlpI [of "count_router _ _ _ _ _"] wlp_mono [OF hello_neighbor_wf [unfolded split_beta]] wlp_mono [OF ifx] wlp_mono [OF chg] wlp_mono [OF handlers_wf(1)]
        wlp_mono [OF handlers_wf(2)] wlp_mono [OF handlers_wf(3)])
qed

section \<open>Database description\<close>

text \<open>Requests are added while the neighbour is not in state Full.\<close>

definition loading :: "nat \<Rightarrow> ospf6 \<Rightarrow> bool" where
  "loading a st \<longleftrightarrow> ospf6_wf st \<and> (\<forall>on. top_nbr st a = Some on \<longrightarrow> on_state on \<noteq> OSPF6_NEIGHBOR_FULL)"

lemma loadingD [dest]: "loading a st \<Longrightarrow> ospf6_wf st"
  by (simp add: loading_def)

lemma frame_nbr: "frame s t \<Longrightarrow> top_nbr t i = Some y \<Longrightarrow> \<exists>x. top_nbr s i = Some x \<and> nbr_kept x y"
  by (metis frame_def option_rel_Some2)

lemma loading_frame: "loading a s \<Longrightarrow> frame s t \<Longrightarrow> loading a t"
  using frame_wf frame_nbr [of s t a] by (fastforce simp: loading_def nbr_kept_def)

lemma loading_upd:
  assumes "loading a st" "\<And>x. on_state (f x) = on_state x \<and> on_if (f x) = on_if x"
  shows "wlp (upd_nbr a f st) (loading a)"
proof (cases "top_nbr st a")
  case (Some x)
  let ?st = "st\<lparr>top_nbr := (top_nbr st)(a \<mapsto> f x)\<rparr>"
  have n: "on_state x \<noteq> OSPF6_NEIGHBOR_FULL" using assms(1) Some by (simp add: loading_def)
  have "touches a st ?st" by (simp add: touches_def)
  moreover have "nbr_ok (f x)" "on_if (f x) = on_if x" using assms(2) n wf_nbr(1) [OF loadingD [OF assms(1)] Some] by (auto simp: nbr_ok_def)
  ultimately have "ospf6_wf ?st" by (intro wf_touches [OF loadingD [OF assms(1)] Some]) simp_all
  then show ?thesis using Some n assms(2) by (simp add: upd_cases loading_def)
qed (simp add: upd_cases)

lemma request_loading: "loading a st \<Longrightarrow> wlp (request_lsa now a his st) (loading a)"
  unfolding request_lsa_def by (auto intro!: read_rules loading_upd)

lemma dbdesc_header_loading:
  assumes "loading a st"
  shows "wlp (dbdesc_header now a h st) (loading a)"
proof -
  have t: "wlp (touch_lsdb r x st) (loading a)" for r x by (rule wlp_mono [OF touch_frame]) (rule loading_frame [OF assms])
  show ?thesis unfolding dbdesc_header_def Let_def using assms
    by (auto intro!: read_rules wlpI [of "dbdesc_lsdb _ _"] wlpI [of "lsdb_of _ _"] wlpI [of "ospf6_lsa_compare _ _ _"] request_loading discard_rule
        wlp_mono [OF t] split: option.split)
qed

lemma dbdesc_headers_loading: "loading a st \<Longrightarrow> wlp (dbdesc_headers now m a e p st) (loading a)"
proof (induction now m a e p st rule: dbdesc_headers.induct)
  case (1 now m a e p st)
  show ?case
  proof (cases "p + lsa_header_size \<le> e")
    case True
    have "wlp (dbdesc_headers now m a e (p + lsa_header_size) s) (loading a)" if "get_lsa_header m p = Some h" "dbdesc_header now a h st = Some s" for h s
      using 1 True that wlpD [OF dbdesc_header_loading [OF 1(2)]] by blast
    with True show ?thesis by (subst dbdesc_headers.simps) (simp add: wlpI)
  qed (use 1 in \<open>simp add: dbdesc_headers.simps\<close>)
qed

definition admitted :: "nat \<Rightarrow> bool \<times> ospf6 \<Rightarrow> bool" where
  "admitted a r \<longleftrightarrow> ospf6_wf (snd r) \<and> (fst r \<longrightarrow> loading a (snd r))"

lemma admitted_simps [simp]: "admitted a (False, st) = ospf6_wf st" "admitted a (True, st) = loading a st"
  by (auto simp: admitted_def)

lemma mismatch_admitted: "ospf6_wf st \<Longrightarrow> wlp (dbdesc_mismatch a st) (admitted a)"
  by (simp add: dbdesc_mismatch_def)

lemma negotiation_loading:
  assumes "loading a st"
  shows "wlp (negotiation_done now a st) (loading a)"
proof (rule wlpI)
  fix st'
  assume h: "negotiation_done now a st = Some st'"
  then have h': "handle now NegotiationDone a st = Some st'" by simp
  from handle_needs_nbr [OF h'] obtain on where on: "top_nbr st a = Some on" by blast
  note al = wf_nbr(3) [OF loadingD [OF assms] on]
  from need_adjacency_alive [OF al] obtain need where "need_adjacency a st = Some need" by blast
  from handle_nsm [OF al this h'] obtain on' where "top_nbr st' a = Some on'" "on_state on' = nsm NegotiationDone need (on_request_list on = []) (on_state on)"
    unfolding nsm_result_def by blast
  moreover have "on_state on \<noteq> OSPF6_NEIGHBOR_FULL" using assms on by (simp add: loading_def)
  ultimately show "loading a st'" using handle_wf [OF loadingD [OF assms] on h'] by (simp add: loading_def full_distinct)
qed

lemma exstart_admitted:
  assumes "loading a st"
  shows "wlp (dbdesc_exstart now m a st) (admitted a)"
  unfolding dbdesc_exstart_def using assms
  by (auto intro!: wlpI [of "rd _ _"] wlpI [of "OSPF6_MESSAGE_END _"] wlpI [of "get_dbdesc _ _"] wlp_mono [OF loading_upd] wlp_mono [OF negotiation_loading])

lemma exchange_admitted:
  assumes "loading a st"
  shows "wlp (dbdesc_exchange m a st) (admitted a)"
  unfolding dbdesc_exchange_def using assms
  by (auto intro!: read_rules wlpI [of "get_dbdesc _ _"] mismatch_admitted wlp_mono [OF schedules_wf(1)])

lemma loaded_admitted:
  assumes "ospf6_wf st"
  shows "wlp (dbdesc_loaded m a st) (admitted a)"
  unfolding dbdesc_loaded_def using assms
  by (auto intro!: read_rules wlpI [of "get_dbdesc _ _"] mismatch_admitted wlp_mono [OF schedules_wf(1)])

lemma loadingI: "ospf6_wf st \<Longrightarrow> top_nbr st a = Some on \<Longrightarrow> on_state on \<noteq> OSPF6_NEIGHBOR_FULL \<Longrightarrow> loading a st"
  by (simp add: loading_def)

lemma admit_admitted:
  assumes "ospf6_wf st"
  shows "wlp (dbdesc_admit now m a st) (admitted a)"
  unfolding dbdesc_admit_def using assms
  by (auto simp: full_distinct full_distinct [THEN not_sym] intro!: read_rules wlp_mono [OF handlers_wf(2)] exstart_admitted exchange_admitted loaded_admitted loadingI)

lemma dbdesc_slave_wf:
  assumes "ospf6_wf st"
  shows "wlp (ospf6_dbdesc_recv_slave now m a st) ospf6_wf"
proof -
  have u: "wlp (upd_nbr a (\<lambda>x. x\<lparr>on_dbdesc_seqnum := q\<rparr>) s) ospf6_wf" "wlp (upd_nbr a (\<lambda>x. x\<lparr>on_dbdesc_last := d\<rparr>) s) ospf6_wf" if "ospf6_wf s" for q d s
    by (auto intro!: upd_nbr_wf [OF that] elim: nbr_okI)
  show ?thesis unfolding ospf6_dbdesc_recv_slave_def
    by (auto simp: admitted_def split_beta intro!: wlp_mono [OF admit_admitted [OF assms]] wlpI [of "OSPF6_MESSAGE_END _"] wlpI [of "get_dbdesc _ _"]
        wlp_mono [OF dbdesc_headers_loading] wlp_mono [OF u(1)] u(2) wlp_mono [OF schedules_wf(2)] wlp_mono [OF schedules_wf(3)])
qed

lemma dbdesc_recv_wf:
  assumes "ospf6_wf st"
  shows "wlp (ospf6_dbdesc_recv debug now m oi xid st) ospf6_wf"
  unfolding ospf6_dbdesc_recv_def ospf6_dbdesc_recv_master_def using assms
  by (auto simp: Let_def intro!: read_rules wlpI [of "oh_router_id m"] wlpI [of "ospf6_neighbor_lookup _ _ _"] wlpI [of "get_u16 _ _"] wlp_mono [OF dbdesc_slave_wf]
      split: option.split)

section \<open>Requests and updates\<close>

lemma lsreq_entries_wf: "ospf6_wf st \<Longrightarrow> wlp (lsreq_entries now m a e p lsdb st) (\<lambda>(b, st'). ospf6_wf st')"
proof (induction "e - p" arbitrary: p lsdb st rule: less_induct)
  case less
  have t: "wlp (touch_lsdb r x st) ospf6_wf" for r x by (rule frame_step [OF less.prems touch_frame])
  have u: "wlp (upd_nbr a (\<lambda>x. x\<lparr>on_lsupdate_list := L\<rparr>) s) ospf6_wf" if "ospf6_wf s" for L s
    by (auto intro!: upd_nbr_wf [OF that] elim: nbr_okI)
  show ?case
  proof (cases "p + lsreq_entry_size \<le> e")
    case True
    then have "e - (p + lsreq_entry_size) < e - p" by (simp add: lsreq_entry_size_def)
    note IH = less.hyps [OF this]
    show ?thesis unfolding lsreq_entries.simps [of now m a e p lsdb st] if_P [OF True] using less.prems
      by (auto simp: Let_def intro!: wlpI [of "get_u16 _ _"] wlpI [of "get_u32 _ _"] wlpI [of "top_nbr _ _"] IH wlp_mono [OF u] wlp_mono [OF t]
       wlpI [of "ospf6_lsa_copy _ _"] wlpI [of "store_add _ _ _"] wlpI [of "map_option _ _"] split: option.split)
  qed (use less.prems in \<open>simp add: lsreq_entries.simps\<close>)
qed

lemma lsreq_recv_wf:
  assumes "ospf6_wf st"
  shows "wlp (ospf6_lsreq_recv now m oi st) ospf6_wf"
proof -
  have r: "wlp (resend_lsupdate a s) ospf6_wf" if "ospf6_wf s" for a s
    by (rule frame_step [OF that wlp_mono [OF resend_quiet [OF frame_refl(2)]]]) (simp add: quiet_def)
  show ?thesis unfolding ospf6_lsreq_recv_def using assms
    by (auto simp: split_beta intro!: wlpI [of "oh_router_id m"] wlpI [of "ospf6_neighbor_lookup _ _ _"] wlpI [of "OSPF6_MESSAGE_END _"]
        wlp_mono [OF lsreq_entries_wf [unfolded split_beta]] r split: option.split)
qed

lemma lsupdate_lsas_wf: "ospf6_wf st \<Longrightarrow> wlp (lsupdate_lsas now un hostnum m a e p num st) ospf6_wf"
proof (induction now un hostnum m a e p num st rule: lsupdate_lsas.induct)
  case (1 now un hostnum m a e p num st)
  have "ospf6_wf s" if "ospf6_receive_lsa now un a h b hostnum st = Some s" for h b s using frame_wf [OF 1(2) received_frame [OF that]] .
  then show ?case using 1 by (subst lsupdate_lsas.simps) (auto intro!: wlpI [of "get_u16 _ _"] wlpI [of "get_lsa_header _ _"] wlpI [of "ospf6_receive_lsa _ _ _ _ _ _ _"])
qed

lemma lsupdate_recv_wf:
  assumes "ospf6_wf st"
  shows "wlp (ospf6_lsupdate_recv now un hostnum m oi st) ospf6_wf"
  unfolding ospf6_lsupdate_recv_def using assms
  by (auto intro!: read_rules wlpI [of "oh_router_id m"] wlpI [of "ospf6_neighbor_lookup _ _ _"] wlpI [of "OSPF6_MESSAGE_END _"] wlpI [of "get_u32 _ _"]
      wlp_mono [OF lsupdate_lsas_wf] wlp_mono [OF thread_off_wf] upd_nbr_wf elim: nbr_okI split: option.split)

lemma packet_wf:
  assumes "ospf6_wf st"
  shows "wlp (ospf6_receive debug now un hostnum m xid oi st) ospf6_wf"
  unfolding ospf6_receive_def using assms
  by (auto intro!: wlpI [of "oh_type m"] hello_recv_wf dbdesc_recv_wf lsreq_recv_wf lsupdate_recv_wf)

section \<open>Senders\<close>

text \<open>A task of a sender that is run.\<close>

inductive send_step :: "ospf6 \<Rightarrow> ospf6 \<Rightarrow> bool" where
  hello: "ospf6_hello_send ifp oi st = Some st' \<Longrightarrow> send_step st st'"
| dbdesc: "ospf6_dbdesc_send d now a st = Some st' \<Longrightarrow> send_step st st'"
| newone: "ospf6_dbdesc_send_newone d now a st = Some st' \<Longrightarrow> send_step st st'"
| lsreq: "ospf6_lsreq_send d a st = Some st' \<Longrightarrow> send_step st st'"
| lsupdate: "ospf6_lsupdate_send_neighbor d now a st = Some st' \<Longrightarrow> send_step st st'"
| lsack: "ospf6_lsack_send_neighbor d now a st = Some st' \<Longrightarrow> send_step st st'"
| lsack_if: "ospf6_lsack_send_interface d now oi st = Some st' \<Longrightarrow> send_step st st'"

lemma send_packet_quiet: "quiet s st \<Longrightarrow> wlp (send_packet type body oi st) (quiet s)"
  unfolding send_packet_def ospf6_fill_header_def ospf6_msg_send_def by (auto intro!: read_rules wlpI [of "oi_ctrl_client _"])

lemma quiet_egress [simp]: "quiet s (st\<lparr>top_restarted_first_egress_not_sent := b\<rparr>) = quiet s st"
  by (simp add: quiet_def frame_def lsdb_of_def split: lsdb_ref.split)

lemma hello_send_quiet: "wlp (ospf6_hello_send ifp oi st) (quiet st)"
  unfolding ospf6_hello_send_def Let_def
  by (auto intro!: read_rules quiet_rules [where s = st] wlpI [of "hello_ids _ _ _ _"] wlp_mono [OF send_packet_quiet [where s = st]] simp: if_kept_def)

lemma dbdesc_send_quiet:
  assumes "quiet s st"
  shows "wlp (ospf6_dbdesc_send d now a st) (quiet s)"
  unfolding ospf6_dbdesc_send_def Let_def split_beta using assms
  by (auto intro!: read_rules quiet_rules [where s = s] send_packet_quiet simp: nbr_kept_def)

lemma newone_quiet: "wlp (ospf6_dbdesc_send_newone d now a st) (quiet st)"
  unfolding ospf6_dbdesc_send_newone_def Let_def
  by (auto intro!: read_rules quiet_rules [where s = st] wlpI [of "move_summary _ _ _ _ _"] dbdesc_send_quiet simp: nbr_kept_def)

lemma lsreq_send_quiet: "wlp (ospf6_lsreq_send d a st) (quiet st)"
  unfolding ospf6_lsreq_send_def by (auto intro!: read_rules quiet_rules [where s = st] send_packet_quiet simp: nbr_kept_def)

lemma lsupdate_send_quiet: "wlp (ospf6_lsupdate_send_neighbor d now a st) (quiet st)"
  unfolding ospf6_lsupdate_send_neighbor_def
  by (auto intro!: read_rules quiet_rules [where s = st] wlp_mono [OF send_packet_quiet [where s = st]] wlpI [of "pack_updates _ _ _ _ _"]
      wlpI [of "pack_retrans _ _ _ _ _ _ _"] simp: nbr_kept_def)

lemma lsack_send_quiet: "wlp (ospf6_lsack_send_neighbor d now a st) (quiet st)"
  unfolding ospf6_lsack_send_neighbor_def Let_def split_beta
  by (auto intro!: read_rules quiet_rules [where s = st] send_packet_quiet simp: nbr_kept_def)

lemma lsack_send_if_quiet: "wlp (ospf6_lsack_send_interface d now oi st) (quiet st)"
  unfolding ospf6_lsack_send_interface_def Let_def split_beta
  by (auto intro!: read_rules quiet_rules [where s = st] wlp_mono [OF send_packet_quiet [where s = st]] simp: if_kept_def)

lemma send_step_frame: "send_step st st' \<Longrightarrow> frame st st'"
  by (induction rule: send_step.induct)
    (auto simp: quiet_def dest: wlpD [OF hello_send_quiet] wlpD [OF dbdesc_send_quiet [OF frame_refl(2)]] wlpD [OF newone_quiet] wlpD [OF lsreq_send_quiet]
      wlpD [OF lsupdate_send_quiet] wlpD [OF lsack_send_quiet] wlpD [OF lsack_send_if_quiet])

end
