(* ===== verification/Ospf6_Nsm_Props.thy ===== *)
theory Ospf6_Nsm_Props
  imports Ospf6_Message_Wf
begin

text \<open>
  Properties of the neighbour and interface state machines over whole runs: the objects stay
  consistent, neighbours come and go, and what goes wrong when an interface goes down.
\<close>

section \<open>Runs\<close>

inductive ospf6_run :: "ospf6 \<Rightarrow> ospf6 \<Rightarrow> bool" where
  start: "ospf6_run s s"
| nbr_event: "ospf6_run s st \<Longrightarrow> handle now ev a st = Some st' \<Longrightarrow> ospf6_run s st'"
| inactive: "ospf6_run s st \<Longrightarrow> inactivity_timer a st = Some st' \<Longrightarrow> ospf6_run s st'"
| create: "ospf6_run s st \<Longrightarrow> ospf6_neighbor_create now r oi st = Some (a, st') \<Longrightarrow> ospf6_run s st'"
| up: "ospf6_run s st \<Longrightarrow> interface_up oi st = Some st' \<Longrightarrow> ospf6_run s st'"
| waited: "ospf6_run s st \<Longrightarrow> wait_timer oi st = Some st' \<Longrightarrow> ospf6_run s st'"
| changed: "ospf6_run s st \<Longrightarrow> neighbor_change oi st = Some st' \<Longrightarrow> ospf6_run s st'"
| receive: "ospf6_run s st \<Longrightarrow> ospf6_receive_lsa now un a h body hostnum st = Some st' \<Longrightarrow> ospf6_run s st'"
| packet: "ospf6_run s st \<Longrightarrow> ospf6_receive debug now un hostnum m xid oi st = Some st' \<Longrightarrow> ospf6_run s st'"
| send: "ospf6_run s st \<Longrightarrow> send_step st st' \<Longrightarrow> ospf6_run s st'"
| announced: "ospf6_run s st \<Longrightarrow> ospf6_interface_if_add ifp c info st = Some st' \<Longrightarrow> ospf6_run s st'"
| originate: "ospf6_run s st \<Longrightarrow> ospf6_lsa_originate now un l st = Some st' \<Longrightarrow> ospf6_run s st'"

lemma if_add_wf:
  assumes "ospf6_wf st" "ospf6_interface_if_add ifp c info st = Some st'"
  shows "ospf6_wf st'"
proof (cases info)
  case (Some oi)
  with assms(2) obtain ifc where ifc: "top_if st oi = Some ifc" by (auto simp: ospf6_interface_if_add_def upd_cases bind_eq_Some_conv split: option.splits)
  from if_upd_wf [OF assms(1) ifc, of "ifc\<lparr>oi_ctrl_client := Some c, oi_ifmtu := if_mtu ifp\<rparr>" "[]"] have "ospf6_wf (st\<lparr>top_if := (top_if st)(oi \<mapsto> ifc\<lparr>oi_ctrl_client := Some c, oi_ifmtu := if_mtu ifp\<rparr>)\<rparr>)"
    by (simp add: if_shape_def emit_def)
  then show ?thesis using Some assms(2) ifc by (auto simp: ospf6_interface_if_add_def upd_cases)
qed (use assms in \<open>simp add: ospf6_interface_if_add_def\<close>)

lemma events_need_if:
  "interface_up oi st = Some st' \<Longrightarrow> \<exists>ifc. top_if st oi = Some ifc" "wait_timer oi st = Some st' \<Longrightarrow> \<exists>ifc. top_if st oi = Some ifc"
  "neighbor_change oi st = Some st' \<Longrightarrow> \<exists>ifc. top_if st oi = Some ifc"
  by (auto simp: interface_up_def wait_timer_def neighbor_change_def bind_eq_Some_conv)

lemma inactive_needs_nbr: "inactivity_timer a st = Some st' \<Longrightarrow> \<exists>on. top_nbr st a = Some on"
  by (auto simp: inactivity_timer_def upd_nbr_def heap_upd_def bind_eq_Some_conv)

text \<open>
  C29. In every run of neighbour and interface events, of received packets (of any bytes), of
  packets that are sent, of received and of originated LSAs from a well-formed state, the objects stay consistent: the
  lists of the interfaces hold exactly the existing neighbours, each
  once and at its own interface, every interface belongs to an area, every neighbour is in
  one of the states of the protocol (never in Attempt, nor in a number without a meaning),
  and a neighbour in state Full has nothing left on its request list.
\<close>

theorem ospf6_run_wf:
  assumes "ospf6_run s st" "ospf6_wf s"
  shows "ospf6_wf st"
  using assms
proof (induction rule: ospf6_run.induct)
  case (nbr_event s st now ev a st')
  from handle_needs_nbr [OF nbr_event.hyps(2)] obtain on where "top_nbr st a = Some on" by blast
  from handle_wf [OF nbr_event.IH [OF nbr_event.prems] this nbr_event.hyps(2)] show ?case .
next
  case (inactive s st a st')
  from inactive_needs_nbr [OF inactive.hyps(2)] obtain on where "top_nbr st a = Some on" by blast
  from inactivity_wf [OF inactive.IH [OF inactive.prems] this inactive.hyps(2)] show ?case by blast
next
  case (create s st now r oi a st')
  then show ?case using create_wf by blast
next
  case (up s st oi st')
  from events_need_if(1) [OF up.hyps(2)] obtain ifc where "top_if st oi = Some ifc" by blast
  from interface_events_wf(1) [OF up.IH [OF up.prems] this] up.hyps(2) show ?case by auto
next
  case (waited s st oi st')
  from events_need_if(2) [OF waited.hyps(2)] obtain ifc where "top_if st oi = Some ifc" by blast
  from interface_events_wf(2) [OF waited.IH [OF waited.prems] this] waited.hyps(2) show ?case by auto
next
  case (changed s st oi st')
  from events_need_if(3) [OF changed.hyps(2)] obtain ifc where "top_if st oi = Some ifc" by blast
  from interface_events_wf(3) [OF changed.IH [OF changed.prems] this] changed.hyps(2) show ?case by auto
next
  case (receive s st now un a h body hostnum st')
  from received_frame [OF receive.hyps(2)] frame_wf [OF receive.IH [OF receive.prems]] show ?case by blast
next
  case (packet s st debug now un hostnum m xid oi st')
  from wlpD [OF packet_wf [OF packet.IH [OF packet.prems]] packet.hyps(2)] show ?case .
next
  case (send s st st')
  from frame_wf [OF send.IH [OF send.prems] send_step_frame [OF send.hyps(2)]] show ?case .
next
  case (announced s st ifp c info st')
  from if_add_wf [OF announced.IH [OF announced.prems] announced.hyps(2)] show ?case .
next
  case (originate s st now un l st')
  from wlpD [OF originate_frame originate.hyps(2)] frame_wf [OF originate.IH [OF originate.prems]] show ?case by blast
qed

lemma example_wf: "ospf6_wf example_ospf6"
  unfolding ospf6_wf_def
proof (intro conjI allI impI)
  fix a on
  assume "top_nbr example_ospf6 a = Some on"
  then have "a = 1 \<and> on = (example_nbr 0 20 OSPF6_NEIGHBOR_TWOWAY)\<lparr>on_drouter := 20\<rparr> \<or> a = 2 \<and> on = example_nbr 0 30 OSPF6_NEIGHBOR_TWOWAY"
    by (auto simp: example_ospf6_def split: if_splits)
  then have "nbr_ok on \<and> a < 3 \<and> on_if on = 0 \<and> a \<in> {1, 2}" by (auto simp: nbr_ok_def example_nbr_def neighbor_states)
  then show "nbr_ok on" "a < top_brk example_ospf6" "\<exists>oi. top_if example_ospf6 (on_if on) = Some oi \<and> a \<in> set (oi_neighbor_list oi)"
    by (auto simp: example_ospf6_def)
next
  fix i oi
  assume "top_if example_ospf6 i = Some oi"
  then have "i = 0" "oi_neighbor_list oi = [1, 2]" "oi_area oi = 0" by (auto simp: example_ospf6_def ospf6_interface_create_def split: if_splits)
  then show "distinct (oi_neighbor_list oi)" "top_area example_ospf6 (oi_area oi) \<noteq> None"
    "\<forall>a\<in>set (oi_neighbor_list oi). \<exists>on. top_nbr example_ospf6 a = Some on \<and> on_if on = i"
    by (simp_all add: example_ospf6_def example_nbr_def)
qed

theorem ospf6_run_wf_witness: "\<exists>st'. inactivity_timer 1 example_ospf6 = Some st' \<and> ospf6_wf st' \<and> top_nbr st' 1 = None"
proof -
  have on: "top_nbr example_ospf6 1 = Some ((example_nbr 0 20 OSPF6_NEIGHBOR_TWOWAY)\<lparr>on_drouter := 20\<rparr>)" by (simp add: example_ospf6_def)
  from inactivity_total [OF example_wf on] obtain st' where st': "inactivity_timer 1 example_ospf6 = Some st'" by (auto simp: example_nbr_def neighbor_states)
  from inactivity_wf [OF example_wf on st'] have "top_nbr st' 1 = None" by simp
  note st' = st' this
  from ospf6_run_wf [OF ospf6_run.inactive [OF ospf6_run.start st'(1)] example_wf] st' show ?thesis by blast
qed

section \<open>The neighbour state machine\<close>

lemma exstart_distinct:
  "OSPF6_NEIGHBOR_INIT \<noteq> OSPF6_NEIGHBOR_EXSTART" "OSPF6_NEIGHBOR_EXCHANGE \<noteq> OSPF6_NEIGHBOR_EXSTART"
  "OSPF6_NEIGHBOR_LOADING \<noteq> OSPF6_NEIGHBOR_EXSTART" "OSPF6_NEIGHBOR_FULL \<noteq> OSPF6_NEIGHBOR_EXSTART"
  by (simp_all add: neighbor_states)

lemma exstart_order: "OSPF6_NEIGHBOR_INIT < OSPF6_NEIGHBOR_EXSTART" "OSPF6_NEIGHBOR_TWOWAY < OSPF6_NEIGHBOR_EXSTART"
  by (simp_all add: neighbor_states)

lemma nsm_exstart:
  assumes "nsm ev need synced s = OSPF6_NEIGHBOR_EXSTART" "OSPF6_NEIGHBOR_EXSTART < s"
  shows "ev \<in> {SeqNumberMismatch, BadLSReq}"
proof -
  have "OSPF6_NEIGHBOR_INIT < s" using exstart_order(1) assms(2) by (rule less_trans)
  moreover have "s \<noteq> OSPF6_NEIGHBOR_EXSTART" "s \<noteq> OSPF6_NEIGHBOR_TWOWAY" using assms(2) exstart_order(2) by (metis less_irrefl, metis less_asym)
  ultimately show ?thesis using assms(1) by (cases ev) (simp_all add: exstart_distinct split: if_splits)
qed

text \<open>
  C30. The handlers implement the neighbour state machine: a handler that returns has put
  its neighbour into the state the machine prescribes, has left every other neighbour
  alone, and has emptied the request list when the database exchange starts anew. At a
  neighbour whose interface is connected to the controller (its \<open>ctrl_client\<close>, which is read
  when a neighbour enters or leaves Full, is not null) a handler fails only where the code
  asserts that nothing is left to be requested, or when an LSA of the database cannot be
  copied for the exchange.
\<close>

theorem neighbor_state_machine:
  assumes "ospf6_wf st" "top_nbr st a = Some on" "need_adjacency a st = Some need"
  shows "(\<forall>st'. handle now ev a st = Some st' \<longrightarrow> (\<forall>b. b \<noteq> a \<longrightarrow> top_nbr st' b = top_nbr st b) \<and>
      (\<exists>on'. top_nbr st' a = Some on' \<and> on_state on' = nsm ev need (on_request_list on = []) (on_state on)
         \<and> (on_state on' = OSPF6_NEIGHBOR_EXSTART \<and> on_state on > OSPF6_NEIGHBOR_EXSTART \<longrightarrow> on_request_list on' = [])))
    \<and> (\<forall>oi. top_if st (on_if on) = Some oi \<and> oi_ctrl_client oi \<noteq> None
         \<and> ev \<noteq> NegotiationDone \<and> \<not> (ev = LoadingDone \<and> on_state on = OSPF6_NEIGHBOR_LOADING \<and> on_request_list on \<noteq> [])
        \<longrightarrow> handle now ev a st \<noteq> None)"
proof (intro conjI allI impI)
  note al = wf_nbr(3) [OF assms(1,2)]
  {
    fix st'
    assume "handle now ev a st = Some st'"
    from handle_nsm [OF al assms(3) this] obtain on' where on': "touches a st st'" "top_nbr st' a = Some on'"
      "on_state on' = nsm ev need (on_request_list on = []) (on_state on)"
      "on_request_list on' = (if ev \<in> {NegotiationDone, SeqNumberMismatch, BadLSReq} \<and> on_state on' \<noteq> on_state on \<or> on_request_list on = [] then [] else on_request_list on)"
      unfolding nsm_result_def by blast
    show "top_nbr st' b = top_nbr st b" if "b \<noteq> a" for b using on'(1) that by (simp add: touches_def)
    have "on_request_list on' = []" if e: "on_state on' = OSPF6_NEIGHBOR_EXSTART" "on_state on > OSPF6_NEIGHBOR_EXSTART"
    proof -
      have "ev \<in> {SeqNumberMismatch, BadLSReq}" using nsm_exstart on'(3) e by metis
      with on'(4) e show ?thesis by auto
    qed
    with on' show "\<exists>on'. top_nbr st' a = Some on' \<and> on_state on' = nsm ev need (on_request_list on = []) (on_state on)
         \<and> (on_state on' = OSPF6_NEIGHBOR_EXSTART \<and> on_state on > OSPF6_NEIGHBOR_EXSTART \<longrightarrow> on_request_list on' = [])" by blast
  }
  fix oi
  assume oi: "top_if st (on_if on) = Some oi \<and> oi_ctrl_client oi \<noteq> None
    \<and> ev \<noteq> NegotiationDone \<and> \<not> (ev = LoadingDone \<and> on_state on = OSPF6_NEIGHBOR_LOADING \<and> on_request_list on \<noteq> [])"
  then have "linked st on" by (auto simp: linked_def)
  from handle_total [OF al this, of ev now] oi show "handle now ev a st \<noteq> None" by blast
qed

text \<open>The example with its interface connected to the controller.\<close>

definition connected_if :: ospf6_interface where
  "connected_if = (ospf6_interface_create 0 True False True)\<lparr>oi_neighbor_list := [1, 2], oi_state := OSPF6_INTERFACE_WAITING, oi_ctrl_client := Some 0\<rparr>"

definition connected_ospf6 :: ospf6 where
  "connected_ospf6 = example_ospf6\<lparr>top_if := (top_if example_ospf6)(0 \<mapsto> connected_if)\<rparr>"

lemma connected_wf: "ospf6_wf connected_ospf6"
proof -
  have "ospf6_wf ((emit [] example_ospf6)\<lparr>top_if := (top_if example_ospf6)(0 \<mapsto> connected_if)\<rparr>)"
    by (rule if_upd_wf [OF example_wf]) (auto simp: example_ospf6_def connected_if_def if_shape_def)
  then show ?thesis by (simp add: connected_ospf6_def emit_def)
qed

theorem neighbor_state_machine_witness:
  "\<exists>st' on'. handle timeval_zero OneWayReceived 2 connected_ospf6 = Some st' \<and> top_nbr st' 2 = Some on' \<and> on_state on' = OSPF6_NEIGHBOR_INIT"
proof -
  let ?on = "example_nbr 0 30 OSPF6_NEIGHBOR_TWOWAY"
  have on: "top_nbr connected_ospf6 2 = Some ?on" "top_if connected_ospf6 (on_if ?on) = Some connected_if" "oi_ctrl_client connected_if = Some 0"
    by (simp_all add: connected_ospf6_def example_ospf6_def connected_if_def example_nbr_def)
  from need_adjacency_alive [OF wf_nbr(3) [OF connected_wf on(1)]] obtain need where need: "need_adjacency 2 connected_ospf6 = Some need" by blast
  note N = neighbor_state_machine [OF connected_wf on(1) need, of timeval_zero OneWayReceived]
  from N on(2,3) obtain st' where st': "handle timeval_zero OneWayReceived 2 connected_ospf6 = Some st'" by auto
  with N obtain on' where "top_nbr st' 2 = Some on'" "on_state on' = nsm OneWayReceived need (on_request_list ?on = []) (on_state ?on)" by blast
  then show ?thesis using st' by (auto simp: example_nbr_def)
qed

text \<open>
  C32. A neighbour that is created is the one that a lookup of its router id finds; the
  other lookups on the interface are as before. When its inactivity timer fires, it is gone
  again, and nothing else has changed for the lookups.
\<close>

theorem neighbor_create_lookup:
  assumes "ospf6_wf st" "ospf6_neighbor_lookup r oi st = Some None"
  shows "\<exists>a st1 st2. ospf6_neighbor_create now r oi st = Some (a, st1) \<and> ospf6_wf st1
    \<and> (\<forall>r'. ospf6_neighbor_lookup r' oi st1 = (if r' = r then Some (Some a) else ospf6_neighbor_lookup r' oi st))
    \<and> inactivity_timer a st1 = Some st2 \<and> ospf6_wf st2 \<and> (\<forall>r'. ospf6_neighbor_lookup r' oi st2 = ospf6_neighbor_lookup r' oi st)"
proof -
  from assms(2) obtain ifc where i: "top_if st oi = Some ifc" by (auto simp: ospf6_neighbor_lookup_def bind_eq_Some_conv)
  let ?a = "top_brk st" and ?L = "oi_neighbor_list ifc"
  let ?P = "\<lambda>H r a. on_router_id (the ((H :: nat \<Rightarrow> ospf6_neighbor option) a)) = r"
  from create_exact [OF i, of now r] obtain st1 where
    c: "ospf6_neighbor_create now r oi st = Some (?a, st1)" "top_if st1 oi = Some (ifc\<lparr>oi_neighbor_list := ?L @ [?a]\<rparr>)"
      "top_nbr st1 = (top_nbr st)(?a \<mapsto> neighbor_zero\<lparr>on_if := oi, on_state := OSPF6_NEIGHBOR_DOWN, on_last_changed := now, on_router_id := r\<rparr>)" by auto
  note wf1 = create_wf [OF assms(1) c(1)]
  have a: "?a \<notin> set ?L" using wf_if(3) [OF assms(1) i, of ?a] wf_nbr(2) [OF assms(1), of ?a] by auto
  have same: "find (?P (top_nbr st1) r') ?L = find (?P (top_nbr st) r') ?L" for r' using a c(3) by (intro find_cong) auto
  have none: "find (?P (top_nbr st) r) ?L = None" using lookup_find [OF assms(1) i, of r] assms(2) by simp
  have find_snoc: "find P (xs @ [x]) = (case find P xs of None \<Rightarrow> if P x then Some x else None | Some y \<Rightarrow> Some y)" for P xs and x :: nat
    by (induction xs) auto
  have l1: "ospf6_neighbor_lookup r' oi st1 = (if r' = r then Some (Some ?a) else ospf6_neighbor_lookup r' oi st)" for r'
    using lookup_find [OF wf1 c(2), of r'] lookup_find [OF assms(1) i, of r'] none same [of r'] same [of r] c(3) by (auto simp: find_snoc split: option.splits)
  have on1: "top_nbr st1 ?a = Some (neighbor_zero\<lparr>on_if := oi, on_state := OSPF6_NEIGHBOR_DOWN, on_last_changed := now, on_router_id := r\<rparr>)"
    using c(3) by simp
  from inactivity_total [OF wf1 on1] obtain st2 where t1: "inactivity_timer ?a st1 = Some st2" by (auto simp: neighbor_states)
  from inactivity_wf [OF wf1 on1 t1] t1 c(2) obtain ifc2 where
    t: "inactivity_timer ?a st1 = Some st2" "ospf6_wf st2" "top_nbr st2 = (top_nbr st1)(?a := None)" "top_if st2 oi = Some ifc2" "oi_neighbor_list ifc2 = remove1 ?a (?L @ [?a])" by auto
  have L2: "oi_neighbor_list ifc2 = ?L" using t(5) a by (simp add: remove1_append)
  have "find (?P (top_nbr st2) r') ?L = find (?P (top_nbr st) r') ?L" for r' using a t(3) c(3) by (intro find_cong) auto
  then have "ospf6_neighbor_lookup r' oi st2 = ospf6_neighbor_lookup r' oi st" for r'
    using lookup_find [OF t(2,4), of r'] lookup_find [OF assms(1) i, of r'] L2 by simp
  then show ?thesis using c(1) wf1 l1 t(1,2) by blast
qed

theorem neighbor_create_lookup_witness:
  "\<exists>a st1. ospf6_neighbor_create timeval_zero 99 0 example_ospf6 = Some (a, st1) \<and> ospf6_neighbor_lookup 99 0 st1 = Some (Some a)"
proof -
  have "ospf6_neighbor_lookup 99 0 example_ospf6 = Some None" by code_simp
  from neighbor_create_lookup [OF example_wf this, of timeval_zero] show ?thesis by (metis (full_types))
qed

section \<open>Interfaces that go down\<close>

text \<open>
  C33. When an interface that has a neighbour goes down, the loop over its neighbours reads
  the link of the neighbour it has just freed.
\<close>

theorem interface_down_uses_freed:
  assumes "ospf6_wf st" "top_if st oi = Some ifc" "oi_neighbor_list ifc = a # as"
  shows "interface_down oi st = None"
proof -
  let ?st = "if oi_state ifc = OSPF6_INTERFACE_DOWN then st else st\<lparr>top_if := (top_if st)(oi \<mapsto> ifc\<lparr>oi_state := OSPF6_INTERFACE_DOWN\<rparr>)\<rparr>"
  have sc: "ospf6_interface_state_change OSPF6_INTERFACE_DOWN oi st = Some ?st"
    using assms(2) by (simp add: ospf6_interface_state_change_def upd_if_def heap_upd_def)
  have i: "\<exists>x. top_if ?st oi = Some x \<and> oi_neighbor_list x = a # as" using assms(2,3) by simp
  from wf_if(3) [OF assms(1,2), of a] assms(3) obtain on where on: "top_nbr st a = Some on" by auto
  have "alive a ?st on" using wf_nbr(3) [OF assms(1) on] assms(2) by (auto simp: alive_def)
  from delete_exact [OF this] obtain s1 where "ospf6_neighbor_delete a ?st = Some (s1\<lparr>top_nbr := (top_nbr s1)(a := None)\<rparr>)" by blast
  with sc i show ?thesis by (auto simp: interface_down_def)
qed

theorem interface_down_uses_freed_witness: "interface_down 0 example_ospf6 = None"
  by (rule interface_down_uses_freed [OF example_wf, of 0 "(ospf6_interface_create 0 True False True)\<lparr>oi_neighbor_list := [1, 2], oi_state := OSPF6_INTERFACE_WAITING\<rparr>" 1 "[2]"])
    (simp_all add: example_ospf6_def)

end
