(* ===== verification/Ospf6_Flood_Total.thy ===== *)
theory Ospf6_Flood_Total
  imports Ospf6_Receive_Props
begin

text \<open>
  Flooding returns: in a state whose objects refer to each other and whose LSAs are complete
  in memory, no step of the flooding procedure fails.
\<close>

section \<open>States that are ready\<close>

definition complete_store :: "store \<Rightarrow> bool" where
  "complete_store S \<longleftrightarrow> (\<forall>l\<in>set S. complete_lsa l)"

definition nbr_ready :: "ospf6 \<Rightarrow> ospf6_neighbor \<Rightarrow> bool" where
  "nbr_ready st on \<longleftrightarrow> top_if st (on_if on) \<noteq> None \<and> complete_store (on_retrans_list on) \<and> complete_store (on_lsupdate_list on)
     \<and> complete_store (on_lsack_list on)"

definition if_ready :: "ospf6 \<Rightarrow> ospf6_interface \<Rightarrow> bool" where
  "if_ready st oi \<longleftrightarrow> (\<forall>a\<in>set (oi_neighbor_list oi). top_nbr st a \<noteq> None) \<and> top_area st (oi_area oi) \<noteq> None \<and> oi_ctrl_client oi \<noteq> None
     \<and> int (length (oi_neighbor_list oi)) \<le> INT_MAX
     \<and> complete_store (oi_lsdb oi) \<and> complete_store (oi_lsupdate_list oi) \<and> complete_store (oi_lsack_list oi)"

definition area_ready :: "ospf6 \<Rightarrow> ospf6_area \<Rightarrow> bool" where
  "area_ready st oa \<longleftrightarrow> (\<forall>i\<in>set (oa_if_list oa). top_if st i \<noteq> None) \<and> complete_store (oa_lsdb oa)"

definition ready :: "ospf6 \<Rightarrow> bool" where
  "ready st \<longleftrightarrow> (\<forall>a on. top_nbr st a = Some on \<longrightarrow> nbr_ready st on) \<and> (\<forall>i oi. top_if st i = Some oi \<longrightarrow> if_ready st oi)
     \<and> (\<forall>a oa. top_area st a = Some oa \<longrightarrow> area_ready st oa) \<and> (\<forall>a\<in>set (top_area_list st). top_area st a \<noteq> None) \<and> complete_store (top_lsdb st)"

lemmas ready_defs = nbr_ready_def if_ready_def area_ready_def

lemma readyD:
  assumes "ready st"
  shows "top_nbr st a = Some on \<Longrightarrow> nbr_ready st on" "top_if st i = Some oi \<Longrightarrow> if_ready st oi" "top_area st b = Some oa \<Longrightarrow> area_ready st oa"
    "b \<in> set (top_area_list st) \<Longrightarrow> top_area st b \<noteq> None"
  using assms by (auto simp: ready_def)

lemma ready_emit [simp]: "ready (emit acts st) = ready st"
  by (simp add: ready_def ready_defs emit_def)

lemma ready_off [simp]: "ready (off_expire l st) = ready st" "ready (off_refresh l st) = ready st"
  by (simp_all add: off_expire_def off_refresh_def)

text \<open>Nothing but one neighbour, pending threads and databases changes.\<close>

definition only :: "nat \<Rightarrow> ospf6 \<Rightarrow> ospf6 \<Rightarrow> bool" where
  "only a st st' \<longleftrightarrow> (\<forall>b. b \<noteq> a \<longrightarrow> top_nbr st' b = top_nbr st b) \<and> top_if st' = top_if st"

lemma only_refl [simp]: "only a st st" "only a st (emit acts st)" "only a (emit acts st) st' = only a st st'"
  by (simp_all add: only_def emit_def)

lemma only_trans: "only a s t \<Longrightarrow> only a t u \<Longrightarrow> only a s u"
  by (simp add: only_def)

text \<open>Updates that keep the links of an object and its lists complete.\<close>

lemma upd_nbr_ready:
  assumes "ready st" "top_nbr st a = Some x" "on_if (f x) = on_if x" "nbr_ready st x \<Longrightarrow> nbr_ready st (f x)"
    "\<And>st'. ready st' \<Longrightarrow> only a st st' \<Longrightarrow> top_nbr st' a = Some (f x) \<Longrightarrow> Q st'"
  shows "wp (upd_nbr a f st) Q"
proof -
  let ?st = "st\<lparr>top_nbr := (top_nbr st)(a \<mapsto> f x)\<rparr>"
  have "nbr_ready ?st = nbr_ready st" "area_ready ?st = area_ready st" by (auto simp: ready_defs fun_eq_iff)
  moreover have "if_ready ?st oi" if "if_ready st oi" for oi using that by (auto simp: if_ready_def)
  ultimately have "ready ?st" using assms(1,4) readyD(1) [OF assms(1,2)] by (auto simp: ready_def)
  then show ?thesis using assms(2,5) by (simp add: upd_cases only_def)
qed

lemma upd_if_ready:
  assumes "ready st" "top_if st a = Some x" "if_ready st x \<Longrightarrow> if_ready st (f x)"
    "\<And>st'. ready st' \<Longrightarrow> top_nbr st' = top_nbr st \<Longrightarrow> top_if st' a = Some (f x) \<Longrightarrow> Q st'"
  shows "wp (upd_if a f st) Q"
proof -
  let ?st = "st\<lparr>top_if := (top_if st)(a \<mapsto> f x)\<rparr>"
  have "if_ready ?st = if_ready st" by (auto simp: ready_defs fun_eq_iff)
  moreover have "nbr_ready ?st on" if "nbr_ready st on" for on using that by (auto simp: nbr_ready_def)
  moreover have "area_ready ?st oa" if "area_ready st oa" for oa using that by (auto simp: area_ready_def)
  ultimately have "ready ?st" using assms(1,3) readyD(2) [OF assms(1,2)] by (auto simp: ready_def)
  then show ?thesis using assms(2,4) by (simp add: upd_cases)
qed

lemma upd_area_ready:
  assumes "ready st" "top_area st a = Some x" "area_ready st x \<Longrightarrow> area_ready st (f x)" "\<And>st'. ready st' \<Longrightarrow> top_area st' a = Some (f x) \<Longrightarrow> Q st'"
  shows "wp (upd_area a f st) Q"
proof -
  let ?st = "st\<lparr>top_area := (top_area st)(a \<mapsto> f x)\<rparr>"
  have "area_ready ?st = area_ready st" "nbr_ready ?st = nbr_ready st" by (auto simp: ready_defs fun_eq_iff)
  moreover have "if_ready ?st oi" if "if_ready st oi" for oi using that by (auto simp: if_ready_def)
  ultimately have "ready ?st" using assms(1,3) readyD(3) [OF assms(1,2)] by (auto simp: ready_def)
  then show ?thesis using assms(2,4) by (simp add: upd_cases)
qed

section \<open>Copies and lists\<close>

text \<open>The LSA while it is being flooded: still the same one, and of the same current age.\<close>

definition alike :: "timeval \<Rightarrow> ospf6_lsa \<Rightarrow> ospf6_lsa \<Rightarrow> bool" where
  "alike now l m \<longleftrightarrow> like l m \<and> fst (ospf6_lsa_age_current now m) = fst (ospf6_lsa_age_current now l)"

lemma alike_refl [simp]: "alike now l l"
  by (simp add: alike_def)

lemma alike_core: "alike now l m \<Longrightarrow> core m = core l"
  by (simp add: alike_def core_like)

lemma like_complete: "like l m \<Longrightarrow> complete_lsa m = complete_lsa l"
  by (auto simp: like_def complete_lsa_def set_age_def)

lemma alike_complete: "alike now l m \<Longrightarrow> complete_lsa m = complete_lsa l"
  by (simp add: alike_def like_complete)

lemma alike_age: "alike now l m \<Longrightarrow> alike now l (snd (ospf6_lsa_age_current now m))"
  by (simp add: alike_def like_age age_current_again)

lemma age_count: "fst (ospf6_lsa_age_current now (ospf6_increment_retrans_count m)) = fst (ospf6_lsa_age_current now m)"
  by (simp add: ospf6_increment_retrans_count_def ospf6_lsa_age_current_def Let_def)

lemma alike_count: "alike now l m \<Longrightarrow> alike now l (ospf6_increment_retrans_count m)"
  by (simp add: alike_def like_count age_count)

lemma copy_total:
  assumes "complete_lsa l" "alike now l m" "\<And>c m'. complete_lsa c \<Longrightarrow> core c = core l \<Longrightarrow> alike now l m' \<Longrightarrow> Q (c, m')"
  shows "wp (ospf6_lsa_copy now m) Q"
proof -
  let ?m = "snd (ospf6_lsa_age_current now m)"
  note a = alike_age [OF assms(2)]
  have c: "complete_lsa ?m" "core ?m = core l" using alike_complete [OF a] alike_core [OF a] assms(1) by simp_all
  let ?c = "(ospf6_lsa_age_set now (lsa_zero (lsa_header ?m) (lsa_body ?m)))\<lparr>lsa_birth := lsa_birth ?m, lsa_originated := lsa_originated ?m,
    lsa_received := lsa_received ?m, lsa_installed := lsa_installed ?m, lsa_lsdb := lsa_lsdb ?m\<rparr>"
  have "ospf6_lsa_copy now m = Some (?c, ?m)"
    using c(1) by (simp add: ospf6_lsa_copy_def ospf6_lsa_create_def complete_lsa_def split_beta Let_def)
  moreover have "complete_lsa ?c" "core ?c = core l" using c by (simp_all add: complete_lsa_def core_def ospf6_lsa_age_set_def lsa_zero_def)
  ultimately show ?thesis using assms(3) [OF _ _ a] by simp
qed

lemma complete_find: "complete_store S \<Longrightarrow> store_find l S = Some x \<Longrightarrow> complete_lsa x"
  by (auto simp: complete_store_def store_find_def store_lookup_def find_Some_iff)

lemma complete_put: "complete_store S \<Longrightarrow> complete_lsa l \<Longrightarrow> complete_store (store_put l S)"
  by (auto simp: complete_store_def store_put_def)

lemma complete_touch: "complete_store S \<Longrightarrow> complete_lsa l \<Longrightarrow> complete_store (store_touch l S)"
  by (induction S) (auto simp: complete_store_def)

lemma complete_del: "complete_store S \<Longrightarrow> complete_store (store_del l S)"
  by (auto simp: complete_store_def store_del_def)

lemma store_add_total:
  assumes "complete_lsa c" "complete_store S" "\<And>hs T. complete_store T \<Longrightarrow> contents T = contents (store_put c S) \<Longrightarrow> Q (hs, T)"
  shows "wp (store_add now c S) Q"
proof -
  have "store_hooks now (store_find c S) c \<noteq> None"
  proof (cases "store_find c S")
    case (Some x)
    from is_changed_total [OF complete_find [OF assms(2) Some] assms(1), of now] show ?thesis
      by (auto simp: store_hooks_def Some split_beta Let_def)
  qed (simp add: store_hooks_def split_beta Let_def)
  then obtain hs T where T: "store_add now c S = Some (hs, T)" by (auto simp: store_add_def)
  from wlpD [OF store_add_put T] obtain g where g: "T = store_put (set_age g c) S" by auto
  have "complete_store T" using assms(1,2) by (simp add: g complete_put)
  moreover have "contents T = contents (store_put c S)" unfolding g by (rule contents_put_cong) simp_all
  ultimately show ?thesis using assms(3) T by simp
qed

definition comparison :: "timeval \<Rightarrow> ospf6_lsa \<Rightarrow> ospf6_lsa \<Rightarrow> int" where
  "comparison now l x = fst (the (ospf6_lsa_compare now l x))"

lemma alike_compare:
  assumes "alike now l m"
  shows "map_option fst (ospf6_lsa_compare now m x) = map_option fst (ospf6_lsa_compare now l x)"
proof -
  from assms obtain g c where m: "m = (set_age g l)\<lparr>lsa_retrans_count := c\<rparr>" by (auto simp: alike_def like_def)
  have "fst (ospf6_lsa_age_current now m) = fst (ospf6_lsa_age_current now l)" using assms by (simp add: alike_def)
  then show ?thesis by (simp add: m ospf6_lsa_compare_def OSPF6_LSA_IS_SAME_def set_age_def split_beta Let_def)
qed

lemma compare_total:
  assumes "store_find l S = Some x" "alike now l m" "\<And>m' g. alike now l m' \<Longrightarrow> Q (comparison now l x, m', set_age g x)"
  shows "wp (ospf6_lsa_compare now m x) Q"
proof -
  have "OSPF6_LSA_IS_SAME m x" using assms(1) core_fields [OF alike_core [OF assms(2)]]
    by (auto simp: store_find_def store_lookup_def find_Some_iff OSPF6_LSA_IS_SAME_def)
  then have "ospf6_lsa_compare now m x \<noteq> None" by (simp add: ospf6_lsa_compare_def split_beta Let_def)
  then obtain c m' x' where c: "ospf6_lsa_compare now m x = Some (c, m', x')" by auto
  have "wlp (ospf6_lsa_compare now m x) (\<lambda>(c, m', x'). alike now l m')"
    using assms(2) alike_age [OF assms(2)] by (auto simp: ospf6_lsa_compare_def split_beta Let_def)
  moreover have "c = comparison now l x" using alike_compare [OF assms(2), of x] c by (cases "ospf6_lsa_compare now l x") (auto simp: comparison_def)
  ultimately show ?thesis using assms(3) wlpD [OF compare_ages c] c by (auto simp: wlp_def)
qed

lemma alike_find: "alike now l m \<Longrightarrow> store_find m S = store_find l S"
  by (simp add: core_find [OF alike_core])

section \<open>Neighbours\<close>

text \<open>The neighbour already requests an instance that is not older.\<close>

definition rejects :: "timeval \<Rightarrow> ospf6_lsa \<Rightarrow> ospf6_neighbor \<Rightarrow> bool" where
  "rejects now l on \<longleftrightarrow> (case store_find l (on_request_list on) of None \<Rightarrow> False | Some req \<Rightarrow> comparison now l req \<ge> 0)"

definition requests_after :: "timeval \<Rightarrow> ospf6_lsa \<Rightarrow> ospf6_neighbor \<Rightarrow> (ospf6_lsa_header \<times> u8 list) list" where
  "requests_after now l on = contents ((case store_find l (on_request_list on) of
     None \<Rightarrow> id | Some req \<Rightarrow> if comparison now l req > 0 then id else store_del l) (on_request_list on))"

lemma del_same: "core x = core l \<Longrightarrow> store_del x S = store_del l S"
  using core_fields [of x l] by (simp add: store_del_def OSPF6_LSA_IS_SAME_def)

lemma found_del: "store_find l S = Some x \<Longrightarrow> store_del (set_age g x) T = store_del l T"
  by (auto simp: store_find_def store_lookup_def find_Some_iff store_del_def OSPF6_LSA_IS_SAME_def set_age_def)

lemma examine_total:
  assumes "ready st" "top_nbr st a = Some on" "alike now l m"
    "\<And>m' st' R. alike now l m' \<Longrightarrow> ready st' \<Longrightarrow> only a st st' \<Longrightarrow> top_nbr st' a = Some (on\<lparr>on_request_list := R\<rparr>) \<Longrightarrow> contents R = requests_after now l on
      \<Longrightarrow> Q (rejects now l on, m', st')"
  shows "wp (examine_request now a m st) Q"
proof (cases "store_find l (on_request_list on)")
  case None
  have "Q (rejects now l on, m, st)" by (rule assms(4) [of m st "on_request_list on"]) (use assms None in \<open>simp_all add: requests_after_def\<close>)
  with None assms show ?thesis by (simp add: examine_request_def alike_find rejects_def)
next
  case (Some req)
  have R: "contents ((if comparison now l req > 0 then store_touch (set_age g req) else store_del (set_age g req)) (on_request_list on)) = requests_after now l on" for g
    using touch_found [OF Some, of "set_age g req"] by (simp add: requests_after_def Some found_del [OF Some])
  have q: "Q (comparison now l req \<ge> 0, m', st')"
    if "alike now l m'" "ready st'" "only a st st'"
      "top_nbr st' a = Some (on\<lparr>on_request_list := (if comparison now l req > 0 then store_touch (set_age g req) else store_del (set_age g req)) (on_request_list on)\<rparr>)"
    for m' st' g using assms(4) [OF that R] by (simp add: rejects_def Some)
  have step: "wp (upd_nbr a (\<lambda>x. x\<lparr>on_request_list := (if comparison now l req > 0 then store_touch (set_age g req) else store_del (set_age g req)) (on_request_list x)\<rparr>) st)
      (\<lambda>st'. Q (comparison now l req \<ge> 0, m', st'))" if "alike now l m'" for m' g
    by (rule upd_nbr_ready [OF assms(1,2)]) (use q [OF that] in \<open>simp_all add: nbr_ready_def\<close>)
  show ?thesis unfolding examine_request_def wp_bind assms(2) wp_simps alike_find [OF assms(3)] Some option.case
    by (rule compare_total [OF Some assms(3)], unfold prod.case wp_bind wp_simps, erule step)
qed

lemma ready_if: "ready st \<Longrightarrow> top_nbr st a = Some on \<Longrightarrow> \<exists>oi. top_if st (on_if on) = Some oi"
  using readyD(1) by (auto simp: nbr_ready_def)

lemma schedule_retrans_total:
  assumes "ready st" "top_nbr st a = Some on"
  shows "wp (schedule_retrans a st) (\<lambda>st'. ready st' \<and> only a st st' \<and> top_nbr st' a = Some (on\<lparr>on_thread_send_lsupdate := True\<rparr>))"
proof (cases "on_thread_send_lsupdate on")
  case True
  then have "on\<lparr>on_thread_send_lsupdate := True\<rparr> = on" by (cases on) simp
  then show ?thesis using assms True by (simp add: schedule_retrans_def)
next
  case False
  from ready_if [OF assms] obtain oi where "top_if st (on_if on) = Some oi" by blast
  moreover have "wp (upd_nbr a (\<lambda>x. x\<lparr>on_thread_send_lsupdate := True\<rparr>) (emit acts st))
      (\<lambda>st'. ready st' \<and> only a st st' \<and> top_nbr st' a = Some (on\<lparr>on_thread_send_lsupdate := True\<rparr>))" for acts
    by (rule upd_nbr_ready [where x = on]) (use assms in \<open>simp_all add: nbr_ready_def, simp add: emit_def\<close>)
  ultimately show ?thesis using assms(2) False by (simp add: schedule_retrans_def)
qed

lemma add_retrans_total:
  assumes "ready st" "top_nbr st a = Some on" "complete_lsa l" "alike now l m"
  shows "wp (add_retrans now a m st) (\<lambda>(m', st'). alike now l m' \<and> ready st' \<and> only a st st'
    \<and> (\<exists>T. top_nbr st' a = Some (on\<lparr>on_retrans_list := T, on_thread_send_lsupdate := True\<rparr>) \<and> contents T = contents (store_put l (on_retrans_list on))))"
proof -
  let ?P = "\<lambda>(m', st'). alike now l m' \<and> ready st' \<and> only a st st'
    \<and> (\<exists>T. top_nbr st' a = Some (on\<lparr>on_retrans_list := T, on_thread_send_lsupdate := True\<rparr>) \<and> contents T = contents (store_put l (on_retrans_list on)))"
  have R: "complete_store (on_retrans_list on)" using readyD(1) [OF assms(1,2)] by (simp add: nbr_ready_def)
  have step: "wp (upd_nbr a (\<lambda>x. x\<lparr>on_retrans_list := T\<rparr>) st) (\<lambda>s1. wp (schedule_retrans a s1) (\<lambda>s2. ?P (m', s2)))"
    if "alike now l m'" "complete_store T" "contents T = contents (store_put l (on_retrans_list on))" for m' T
  proof (rule upd_nbr_ready [OF assms(1,2)])
    fix s1
    assume s1: "ready s1" "only a st s1" "top_nbr s1 a = Some (on\<lparr>on_retrans_list := T\<rparr>)"
    show "wp (schedule_retrans a s1) (\<lambda>s2. ?P (m', s2))"
      by (rule wp_mono [OF schedule_retrans_total [OF s1(1,3)]], unfold prod.case) (use that only_trans [OF s1(2)] in blast)
  qed (use that in \<open>simp_all add: nbr_ready_def\<close>)
  show ?thesis unfolding add_retrans_def wp_bind assms(2) wp_simps Let_def
  proof (rule copy_total [OF assms(3) alike_count [OF assms(4)]], unfold prod.case wp_bind, erule store_add_total [OF _ R], unfold prod.case wp_bind wp_simps)
    fix c m' T
    assume "core c = core l" "alike now l m'" "complete_store T" "contents T = contents (store_put c (on_retrans_list on))"
    with contents_put_cong [of c l] step [of m' T, unfolded prod.case] show "wp (upd_nbr a (\<lambda>x. x\<lparr>on_retrans_list := T\<rparr>) st) (\<lambda>x. wp (schedule_retrans a x) (\<lambda>s2. alike now l m' \<and> ready s2 \<and> only a st s2
        \<and> (\<exists>T. top_nbr s2 a = Some (on\<lparr>on_retrans_list := T, on_thread_send_lsupdate := True\<rparr>) \<and> contents T = contents (store_put l (on_retrans_list on)))))" by simp
  qed
qed

text \<open>The neighbours that get the LSA, and what becomes of their lists.\<close>

definition target :: "timeval \<Rightarrow> nat option \<Rightarrow> ospf6_lsa \<Rightarrow> nat \<Rightarrow> ospf6_neighbor \<Rightarrow> bool" where
  "target now sender l a on \<longleftrightarrow> sender \<noteq> Some a \<and> OSPF6_NEIGHBOR_EXCHANGE \<le> on_state on \<and> (on_state on = OSPF6_NEIGHBOR_FULL \<or> \<not> rejects now l on)"

text \<open>Everything of a neighbour but the two lists and the pending update.\<close>

definition frozen :: "ospf6_neighbor \<Rightarrow> ospf6_neighbor" where
  "frozen on = on\<lparr>on_request_list := [], on_retrans_list := [], on_thread_send_lsupdate := False\<rparr>"

lemma frozen_simps [simp]: "frozen (on\<lparr>on_request_list := R\<rparr>) = frozen on" "frozen (on\<lparr>on_retrans_list := R\<rparr>) = frozen on"
  "frozen (on\<lparr>on_thread_send_lsupdate := b\<rparr>) = frozen on"
  by (simp_all add: frozen_def)

definition served :: "timeval \<Rightarrow> nat option \<Rightarrow> ospf6_lsa \<Rightarrow> nat \<Rightarrow> ospf6_neighbor \<Rightarrow> ospf6_neighbor \<Rightarrow> bool" where
  "served now sender l a on on' \<longleftrightarrow>
     contents (on_retrans_list on') = contents (if target now sender l a on then store_put l (on_retrans_list on) else on_retrans_list on)
     \<and> (target now sender l a on \<or> on_thread_send_lsupdate on \<longrightarrow> on_thread_send_lsupdate on')
     \<and> contents (on_request_list on') = (if OSPF6_NEIGHBOR_EXCHANGE \<le> on_state on \<and> on_state on \<noteq> OSPF6_NEIGHBOR_FULL then requests_after now l on
          else contents (on_request_list on))
     \<and> on_if on' = on_if on \<and> on_router_id on' = on_router_id on \<and> on_state on' = on_state on \<and> frozen on' = frozen on"

lemma flood_neighbor_total:
  assumes "ready st" "top_nbr st a = Some on" "complete_lsa l" "alike now l m" "- INT_MAX - 1 \<le> n" "n < INT_MAX"
  shows "wp (flood_neighbor now sender a n m st) (\<lambda>(n', m', st'). n' = n + of_bool (target now sender l a on) \<and> alike now l m' \<and> ready st' \<and> only a st st'
    \<and> (\<exists>on'. top_nbr st' a = Some on' \<and> served now sender l a on on'))" (is "wp _ ?P")
proof -
  have plus: "c_add n 1 = Some (n + 1)" using assms(5,6) by (simp add: c_add_def)
  have add: "wp (if skip \<or> sender = Some a then Some (n, m', s1)
      else do { (k, s2) \<leftarrow> add_retrans now a m' s1; n \<leftarrow> c_add n 1; Some (n, k, s2) }) ?P"
    if s1: "alike now l m'" "ready s1" "only a st s1" "top_nbr s1 a = Some (on\<lparr>on_request_list := R\<rparr>)"
      and R: "contents R = (if OSPF6_NEIGHBOR_EXCHANGE \<le> on_state on \<and> on_state on \<noteq> OSPF6_NEIGHBOR_FULL then requests_after now l on else contents (on_request_list on))"
      and t: "target now sender l a on = (\<not> (skip \<or> sender = Some a))" for skip m' s1 R
  proof (cases "skip \<or> sender = Some a")
    case True
    then show ?thesis using s1 R t by (auto simp: served_def)
  next
    case False
    have "wp (do { (k, s2) \<leftarrow> add_retrans now a m' s1; n \<leftarrow> c_add n 1; Some (n, k, s2) }) ?P" unfolding wp_bind plus wp_simps
      by (rule wp_mono [OF add_retrans_total [OF s1(2,4) assms(3) s1(1)]])
        (use False t R only_trans [OF s1(3)] in \<open>auto simp: served_def plus\<close>)
    with False show ?thesis by simp
  qed
  show ?thesis
  proof (cases "OSPF6_NEIGHBOR_EXCHANGE \<le> on_state on \<and> on_state on \<noteq> OSPF6_NEIGHBOR_FULL")
    case True
    then show ?thesis unfolding flood_neighbor_def wp_bind assms(2) wp_simps
      by (simp only: not_less [symmetric] if_False simp_thms if_True wp_bind, intro examine_total [OF assms(1,2,4)], unfold prod.case, intro add)
        (use True in \<open>auto simp: target_def\<close>)
  next
    case False
    have on: "top_nbr st a = Some (on\<lparr>on_request_list := on_request_list on\<rparr>)" using assms(2) by simp
    show ?thesis
    proof (cases "on_state on < OSPF6_NEIGHBOR_EXCHANGE")
      case True
      then show ?thesis using assms(1,2,4) by (auto simp: flood_neighbor_def target_def served_def)
    next
      case full: False
      have t: "target now sender l a on = (\<not> (False \<or> sender = Some a))" using False full by (auto simp: target_def)
      from add [OF assms(4,1) only_refl(1) on _ t] show ?thesis unfolding flood_neighbor_def wp_bind assms(2) wp_simps
        using False full by simp
    qed
  qed
qed

section \<open>Interfaces\<close>

lemma only_others: "only a st st' \<Longrightarrow> b \<noteq> a \<Longrightarrow> top_nbr st' b = top_nbr st b"
  by (simp add: only_def)

lemma flood_neighbors_total:
  assumes "ready st" "\<forall>a\<in>set as. top_nbr st a \<noteq> None" "distinct as" "complete_lsa l" "alike now l m" "- INT_MAX - 1 \<le> n" "n + int (length as) \<le> INT_MAX"
  shows "wp (flood_neighbors now sender as n m st) (\<lambda>(n', m', st'). n' = n + int (length (filter (\<lambda>a. target now sender l a (the (top_nbr st a))) as))
    \<and> alike now l m' \<and> ready st' \<and> top_if st' = top_if st \<and> (\<forall>b. b \<notin> set as \<longrightarrow> top_nbr st' b = top_nbr st b)
    \<and> (\<forall>a\<in>set as. \<exists>on'. top_nbr st' a = Some on' \<and> served now sender l a (the (top_nbr st a)) on'))"
  using assms(1-3,5-)
proof (induction as arbitrary: n m st)
  case (Cons a as)
  from Cons.prems(2) obtain on where on: "top_nbr st a = Some on" by auto
  let ?t = "of_bool (target now sender l a on) :: int"
  have n: "n < INT_MAX" "- INT_MAX - 1 \<le> n + ?t" "n + ?t + int (length as) \<le> INT_MAX" using Cons.prems(5,6) by auto
  show ?case unfolding flood_neighbors.simps wp_bind
  proof (rule wp_mono [OF flood_neighbor_total [OF Cons.prems(1) on assms(4) Cons.prems(4,5) n(1)]], clarify)
    fix m1 s1 on'
    assume s1: "alike now l m1" "ready s1" "only a st s1" "top_nbr s1 a = Some on'" "served now sender l a on on'"
    have same: "top_nbr s1 b = top_nbr st b" if "b \<in> set as" for b using only_others [OF s1(3), of b] that Cons.prems(3) by auto
    have f: "filter (\<lambda>b. target now sender l b (the (top_nbr s1 b))) as = filter (\<lambda>b. target now sender l b (the (top_nbr st b))) as"
      using same by (intro filter_cong) auto
    have ex: "\<forall>b\<in>set as. top_nbr s1 b \<noteq> None" using same Cons.prems(2) by simp
    show "wp (flood_neighbors now sender as (n + ?t) m1 s1) (\<lambda>(n', m', st'). n' = n + int (length (filter (\<lambda>a. target now sender l a (the (top_nbr st a))) (a # as)))
      \<and> alike now l m' \<and> ready st' \<and> top_if st' = top_if st \<and> (\<forall>b. b \<notin> set (a # as) \<longrightarrow> top_nbr st' b = top_nbr st b)
      \<and> (\<forall>a\<in>set (a # as). \<exists>on'. top_nbr st' a = Some on' \<and> served now sender l a (the (top_nbr st a)) on'))"
      by (rule wp_mono [OF Cons.IH [OF s1(2) ex _ s1(1) n(2,3)]])
        (use Cons.prems(3) s1 on f same in \<open>auto simp: only_def\<close>)
  qed
qed simp

text \<open>A neighbour for which an update has been scheduled.\<close>

definition woken :: "ospf6_neighbor \<Rightarrow> ospf6_neighbor \<Rightarrow> bool" where
  "woken x y \<longleftrightarrow> y = x \<or> y = x\<lparr>on_thread_send_lsupdate := True\<rparr>"

lemma woken_served: "served now sender l a on x \<Longrightarrow> woken x y \<Longrightarrow> served now sender l a on y"
  by (auto simp: served_def woken_def)

lemma resend_total:
  assumes "ready st" "top_nbr st a = Some on"
  shows "wp (resend_lsupdate a st) (\<lambda>st'. ready st' \<and> only a st st' \<and> (\<exists>y. top_nbr st' a = Some y \<and> woken on y))"
proof -
  have off: "wp (nbr_thread_off on_thread_send_lsupdate on_thread_send_lsupdate_update Lsupdate_send_neighbor a st)
      (\<lambda>s1. ready s1 \<and> only a st s1 \<and> top_nbr s1 a = Some (on\<lparr>on_thread_send_lsupdate := False\<rparr>))"
  proof (cases "on_thread_send_lsupdate on")
    case True
    have "wp (upd_nbr a (\<lambda>x. x\<lparr>on_thread_send_lsupdate := False\<rparr>) (emit acts st))
        (\<lambda>s1. ready s1 \<and> only a st s1 \<and> top_nbr s1 a = Some (on\<lparr>on_thread_send_lsupdate := False\<rparr>))" for acts
      by (rule upd_nbr_ready [where x = on]) (use assms in \<open>simp_all add: nbr_ready_def, simp add: emit_def\<close>)
    then show ?thesis using True assms(2) by (simp add: nbr_thread_off_def)
  next
    case False
    then have "on\<lparr>on_thread_send_lsupdate := False\<rparr> = on" by (cases on) simp
    then show ?thesis using False assms by (simp add: nbr_thread_off_def)
  qed
  show ?thesis unfolding resend_lsupdate_def wp_bind
  proof (rule wp_mono [OF off], clarify)
    fix s1
    assume s1: "ready s1" "only a st s1" "top_nbr s1 a = Some (on\<lparr>on_thread_send_lsupdate := False\<rparr>)"
    show "wp (upd_nbr a (\<lambda>x. x\<lparr>on_thread_send_lsupdate := True\<rparr>) (emit [Add_event (Lsupdate_send_neighbor a)] s1))
        (\<lambda>st'. ready st' \<and> only a st st' \<and> (\<exists>y. top_nbr st' a = Some y \<and> woken on y))"
    proof (rule upd_nbr_ready)
      show "top_nbr (emit [Add_event (Lsupdate_send_neighbor a)] s1) a = Some (on\<lparr>on_thread_send_lsupdate := False\<rparr>)" using s1(3) by (simp add: emit_def)
      show "ready (emit [Add_event (Lsupdate_send_neighbor a)] s1)" using s1(1) by simp
      fix s2
      assume "ready s2" "only a (emit [Add_event (Lsupdate_send_neighbor a)] s1) s2"
        "top_nbr s2 a = Some (on\<lparr>on_thread_send_lsupdate := False, on_thread_send_lsupdate := True\<rparr>)"
      then show "ready s2 \<and> only a st s2 \<and> (\<exists>y. top_nbr s2 a = Some y \<and> woken on y)" using only_trans [OF s1(2), of s2] by (simp add: woken_def)
    qed (simp_all add: nbr_ready_def)
  qed
qed

lemma resend_all_total:
  assumes "ready st" "\<forall>a\<in>set as. top_nbr st a \<noteq> None"
  shows "wp (for_each_nbr resend_lsupdate as st) (\<lambda>st'. ready st' \<and> top_if st' = top_if st \<and> (\<forall>b. rel_option woken (top_nbr st b) (top_nbr st' b)) \<and> (\<forall>b. b \<notin> set as \<longrightarrow> top_nbr st' b = top_nbr st b))"
  using assms
proof (induction as arbitrary: st)
  case Nil
  then show ?case by (auto simp: woken_def intro!: option.rel_refl)
next
  case (Cons a as)
  from Cons.prems(2) obtain on where on: "top_nbr st a = Some on" by auto
  show ?case unfolding for_each_nbr.simps wp_bind
  proof (rule wp_mono [OF resend_total [OF Cons.prems(1) on]], clarify)
    fix s1 y
    assume s1: "ready s1" "only a st s1" "top_nbr s1 a = Some y" "woken on y"
    have w: "rel_option woken (top_nbr st b) (top_nbr s1 b)" for b
      using s1 on by (cases "b = a") (auto simp: only_def woken_def intro!: option.rel_refl)
    have ex: "\<forall>b\<in>set as. top_nbr s1 b \<noteq> None" using Cons.prems(2) s1 by (auto simp: only_def)
    have tr: "woken x z" if "woken x y" "woken y z" for x y z using that by (auto simp: woken_def)
    show "wp (top_nbr s1 a) (\<lambda>on. wp (for_each_nbr resend_lsupdate as s1) (\<lambda>st'. ready st' \<and> top_if st' = top_if st \<and> (\<forall>b. rel_option woken (top_nbr st b) (top_nbr st' b)) \<and> (\<forall>b. b \<notin> set (a # as) \<longrightarrow> top_nbr st' b = top_nbr st b)))"
      unfolding s1(3) wp_simps
      by (rule wp_mono [OF Cons.IH [OF s1(1) ex]]) (use s1(2) rel_option_trans [OF w _ tr] in \<open>auto simp: only_def\<close>)
  qed
qed

lemma schedule_lsupdate_total:
  assumes "ready st" "top_if st oi = Some ifc"
  shows "wp (schedule_lsupdate oi st) (\<lambda>st'. ready st' \<and> top_nbr st' = top_nbr st \<and> top_if st' oi = Some (ifc\<lparr>oi_thread_send_lsupdate := True\<rparr>))"
proof (cases "oi_thread_send_lsupdate ifc")
  case True
  then have "ifc\<lparr>oi_thread_send_lsupdate := True\<rparr> = ifc" by (cases ifc) simp
  then show ?thesis using assms True by (simp add: schedule_lsupdate_def)
next
  case False
  have "wp (upd_if oi (\<lambda>x. x\<lparr>oi_thread_send_lsupdate := True\<rparr>) (emit acts st))
     (\<lambda>st'. ready st' \<and> top_nbr st' = top_nbr st \<and> top_if st' oi = Some (ifc\<lparr>oi_thread_send_lsupdate := True\<rparr>))" for acts
    by (rule upd_if_ready [where x = ifc]) (use assms in \<open>simp_all add: if_ready_def, simp_all add: emit_def\<close>)
  then show ?thesis using assms(2) False by (simp add: schedule_lsupdate_def)
qed

text \<open>What becomes of the interface when the LSA is sent out of it.\<close>

definition sent_out :: "ospf6_lsa \<Rightarrow> ospf6_interface \<Rightarrow> ospf6_interface \<Rightarrow> bool" where
  "sent_out l ifc ifc' \<longleftrightarrow>
     (if oi_broadcast ifc then contents (oi_lsupdate_list ifc') = contents (store_put l (oi_lsupdate_list ifc)) \<and> oi_thread_send_lsupdate ifc' else ifc' = ifc)"

lemma send_out_total:
  assumes "ready st" "top_if st oi = Some ifc" "complete_lsa l" "alike now l m"
  shows "wp (send_out now oi ifc m st) (\<lambda>(m', st'). alike now l m' \<and> ready st' \<and> (\<forall>b. rel_option woken (top_nbr st b) (top_nbr st' b)) \<and> (\<forall>b. b \<notin> set (oi_neighbor_list ifc) \<longrightarrow> top_nbr st' b = top_nbr st b)
    \<and> (\<exists>ifc'. top_if st' oi = Some ifc' \<and> sent_out l ifc ifc'))" (is "wp _ ?P")
proof (cases "oi_broadcast ifc")
  case True
  note r = readyD(2) [OF assms(1,2), unfolded if_ready_def]
  have same: "rel_option woken (top_nbr st b) (top_nbr st b)" for b by (auto simp: woken_def intro!: option.rel_refl)
  have step: "wp (upd_if oi (\<lambda>x. x\<lparr>oi_lsupdate_list := T\<rparr>) st) (\<lambda>s1. wp (schedule_lsupdate oi s1) (\<lambda>s2. ?P (m', s2)))"
    if "alike now l m'" "complete_store T" "contents T = contents (store_put l (oi_lsupdate_list ifc))" for m' T
  proof (rule upd_if_ready [OF assms(1,2)])
    fix s1
    assume s1: "ready s1" "top_nbr s1 = top_nbr st" "top_if s1 oi = Some (ifc\<lparr>oi_lsupdate_list := T\<rparr>)"
    show "wp (schedule_lsupdate oi s1) (\<lambda>s2. ?P (m', s2))"
      by (rule wp_mono [OF schedule_lsupdate_total [OF s1(1,3)]]) (use that s1(2) same True in \<open>simp add: sent_out_def\<close>)
  qed (use that in \<open>simp add: if_ready_def\<close>)
  have "wp (do { (copy, lsa) \<leftarrow> ospf6_lsa_copy now m; (hooks, L) \<leftarrow> store_add now copy (oi_lsupdate_list ifc);
      st \<leftarrow> upd_if oi (\<lambda>x. x\<lparr>oi_lsupdate_list := L\<rparr>) st; st \<leftarrow> schedule_lsupdate oi st; Some (lsa, st) }) ?P"
    unfolding wp_bind
  proof (rule copy_total [OF assms(3,4)], unfold prod.case wp_bind, erule store_add_total, use r in blast, unfold prod.case wp_bind wp_simps)
    fix c m' T
    assume "core c = core l" "alike now l m'" "complete_store T" "contents T = contents (store_put c (oi_lsupdate_list ifc))"
    with contents_put_cong [of c l] have "wp (upd_if oi (\<lambda>x. x\<lparr>oi_lsupdate_list := T\<rparr>) st) (\<lambda>s1. wp (schedule_lsupdate oi s1) (\<lambda>s2. ?P (m', s2)))"
      by (intro step) simp_all
    then show "wp (upd_if oi (\<lambda>x. x\<lparr>oi_lsupdate_list := T\<rparr>) st) (\<lambda>s1. wp (schedule_lsupdate oi s1) (\<lambda>s2. alike now l m' \<and> ready s2
      \<and> (\<forall>b. rel_option woken (top_nbr st b) (top_nbr s2 b)) \<and> (\<forall>b. b \<notin> set (oi_neighbor_list ifc) \<longrightarrow> top_nbr s2 b = top_nbr st b) \<and> (\<exists>ifc'. top_if s2 oi = Some ifc' \<and> sent_out l ifc ifc')))" by simp
  qed
  with True show ?thesis by (simp add: send_out_def)
next
  case False
  have n: "\<forall>a\<in>set (oi_neighbor_list ifc). top_nbr st a \<noteq> None" using readyD(2) [OF assms(1,2)] by (simp add: if_ready_def)
  have "wp (do { st \<leftarrow> for_each_nbr resend_lsupdate (oi_neighbor_list ifc) st; Some (m, st) }) ?P" unfolding wp_bind wp_simps
    by (rule wp_mono [OF resend_all_total [OF assms(1) n]]) (use assms(2,4) False in \<open>simp add: sent_out_def\<close>)
  with False show ?thesis by (simp add: send_out_def)
qed

lemma not_back_same:
  assumes "not_back sender oi st = Some b" "top_if st' oi = top_if st oi"
    "\<And>f on. sender = Some f \<Longrightarrow> top_nbr st f = Some on \<Longrightarrow> \<exists>on'. top_nbr st' f = Some on' \<and> on_if on' = on_if on \<and> on_router_id on' = on_router_id on"
  shows "not_back sender oi st' = Some b"
proof (cases sender)
  case (Some f)
  with assms(1) obtain on where "top_nbr st f = Some on" by (auto simp: not_back_def split: bind_splits)
  with assms(3) [OF Some] obtain on' where "top_nbr st' f = Some on'" "on_if on' = on_if on" "on_router_id on' = on_router_id on" by blast
  with assms(1,2) Some \<open>top_nbr st f = Some on\<close> show ?thesis by (simp add: not_back_def)
qed (use assms(1) in \<open>simp add: not_back_def\<close>)

text \<open>
  How many neighbours of the interface get the LSA; the counter starts with what the
  uninitialised variable contains.
\<close>

definition targets :: "timeval \<Rightarrow> nat option \<Rightarrow> ospf6_lsa \<Rightarrow> ospf6_interface \<Rightarrow> ospf6 \<Rightarrow> int" where
  "targets now sender l ifc st = int (length (filter (\<lambda>a. target now sender l a (the (top_nbr st a))) (oi_neighbor_list ifc)))"

definition calm :: "uninit \<Rightarrow> ospf6 \<Rightarrow> bool" where
  "calm un st \<longleftrightarrow> (\<forall>i ifc. top_if st i = Some ifc \<longrightarrow>
     distinct (oi_neighbor_list ifc) \<and> - INT_MAX - 1 \<le> un_retrans_added un i \<and> un_retrans_added un i + int (length (oi_neighbor_list ifc)) \<le> INT_MAX)"

lemma calmD:
  assumes "calm un st" "top_if st i = Some ifc"
  shows "distinct (oi_neighbor_list ifc)" "- INT_MAX - 1 \<le> un_retrans_added un i" "un_retrans_added un i + int (length (oi_neighbor_list ifc)) \<le> INT_MAX"
  using assms by (auto simp: calm_def)

text \<open>What flooding out of one interface leaves behind.\<close>

definition flooded :: "timeval \<Rightarrow> nat option \<Rightarrow> ospf6_lsa \<Rightarrow> bool \<Rightarrow> nat \<Rightarrow> ospf6_interface \<Rightarrow> ospf6 \<Rightarrow> ospf6_lsa \<times> ospf6 \<Rightarrow> bool" where
  "flooded now sender l out oi ifc st r \<longleftrightarrow> alike now l (fst r) \<and> ready (snd r)
     \<and> (\<forall>a\<in>set (oi_neighbor_list ifc). \<exists>on'. top_nbr (snd r) a = Some on' \<and> served now sender l a (the (top_nbr st a)) on')
     \<and> (\<forall>a. a \<notin> set (oi_neighbor_list ifc) \<longrightarrow> top_nbr (snd r) a = top_nbr st a)
     \<and> (\<exists>ifc'. top_if (snd r) oi = Some ifc' \<and> (if out then sent_out l ifc ifc' else ifc' = ifc))"

lemma flood_interface_total:
  assumes "ready st" "calm un st" "top_if st oi = Some ifc" "complete_lsa l" "alike now l m" "not_back sender oi st = Some back"
  shows "wp (ospf6_flood_interface now un sender oi m st)
    (flooded now sender l (un_retrans_added un oi + targets now sender l ifc st \<noteq> 0 \<and> \<not> back) oi ifc st)"
    (is "wp _ (flooded _ _ _ ?out _ _ _)")
proof -
  let ?as = "oi_neighbor_list ifc"
  let ?n = "un_retrans_added un oi + targets now sender l ifc st"
  note c = calmD [OF assms(2,3)]
  have n: "\<forall>a\<in>set ?as. top_nbr st a \<noteq> None" using readyD(2) [OF assms(1,3)] by (simp add: if_ready_def)
  show ?thesis unfolding ospf6_flood_interface_def wp_bind assms(3) wp_simps
  proof (rule wp_mono [OF flood_neighbors_total [OF assms(1) n c(1) assms(4,5) c(2,3)]], clarify, unfold targets_def [symmetric])
    fix m1 s1
    assume s1: "alike now l m1" "ready s1" "top_if s1 = top_if st" "\<forall>b. b \<notin> set ?as \<longrightarrow> top_nbr s1 b = top_nbr st b"
      "\<forall>a\<in>set ?as. \<exists>on'. top_nbr s1 a = Some on' \<and> served now sender l a (the (top_nbr st a)) on'"
    have oi: "top_if s1 oi = Some ifc" using s1(3) assms(3) by simp
    have quiet: "flooded now sender l ?out oi ifc st (m1, s1)" if "\<not> ?out"
      using that s1 oi unfolding flooded_def if_not_P [OF that] by simp
    have b: "not_back sender oi s1 = Some back"
    proof (rule not_back_same [OF assms(6)])
      fix f on
      assume "top_nbr st f = Some on"
      then show "\<exists>on'. top_nbr s1 f = Some on' \<and> on_if on' = on_if on \<and> on_router_id on' = on_router_id on"
        using s1(4,5) by (cases "f \<in> set ?as") (force simp: served_def)+
    qed (simp add: s1(3))
    have out: "wp (send_out now oi ifc m1 s1) (flooded now sender l ?out oi ifc st)" if t: ?out
    proof (rule wp_mono [OF send_out_total [OF s1(2) oi assms(4) s1(1)]], clarify)
      fix m2 s2 ifc'
      assume s2: "alike now l m2" "ready s2" "\<forall>b. rel_option woken (top_nbr s1 b) (top_nbr s2 b)"
        "\<forall>b. b \<notin> set ?as \<longrightarrow> top_nbr s2 b = top_nbr s1 b" "top_if s2 oi = Some ifc'" "sent_out l ifc ifc'"
      have "\<exists>on'. top_nbr s2 a = Some on' \<and> served now sender l a (the (top_nbr st a)) on'" if "a \<in> set ?as" for a
      proof -
        from that s1(5) obtain on1 where on1: "top_nbr s1 a = Some on1" "served now sender l a (the (top_nbr st a)) on1" by blast
        with s2(3) obtain on2 where "top_nbr s2 a = Some on2" "woken on1 on2" by (metis option_rel_Some1)
        with woken_served on1(2) show ?thesis by blast
      qed
      with s1(4) s2 show "flooded now sender l ?out oi ifc st (m2, s2)" unfolding flooded_def if_P [OF t] by simp
    qed
    show "wp (if ?n = 0 then Some (m1, s1) else do { back \<leftarrow> not_back sender oi s1; if back then Some (m1, s1) else send_out now oi ifc m1 s1 })
        (flooded now sender l ?out oi ifc st)"
      using quiet out b by (cases "?n = 0"; cases "back") simp_all
  qed
qed

end
