(* ===== verification/Ospf6_Flood_Out.thy ===== *)
theory Ospf6_Flood_Out
  imports Ospf6_Flood_Total
begin

text \<open>
  The threads that flooding schedules. While an LSA is flooded out of an interface, a timer is
  started for each neighbour that gets it and has no update pending; when it is sent out, a
  broadcast interface schedules its own update, and any other interface restarts the update of
  every neighbour at once.
\<close>

definition pending :: "ospf6 \<Rightarrow> nat \<Rightarrow> bool" where
  "pending st a \<longleftrightarrow> (case top_nbr st a of None \<Rightarrow> False | Some on \<Rightarrow> on_thread_send_lsupdate on)"

definition rxmt :: "ospf6 \<Rightarrow> ospf6_neighbor \<Rightarrow> int" where
  "rxmt st on = uint (oi_rxmt_interval (the (top_if st (on_if on))))"

definition timer_for :: "timeval \<Rightarrow> nat option \<Rightarrow> ospf6_lsa \<Rightarrow> ospf6 \<Rightarrow> nat \<Rightarrow> action list" where
  "timer_for now sender l st a =
     (if target now sender l a (the (top_nbr st a)) \<and> \<not> pending st a
      then [Add_timer (Lsupdate_send_neighbor a) (rxmt st (the (top_nbr st a)))] else [])"

section \<open>Neighbours\<close>

lemma add_retrans_out:
  assumes "top_nbr st a = Some on"
  shows "wlp (add_retrans now a m st) (\<lambda>(m', st'). pending st' a \<and> top_out st' = top_out st @
    (if on_thread_send_lsupdate on then [] else [Add_timer (Lsupdate_send_neighbor a) (rxmt st on)]))"
  using assms
  by (auto simp: add_retrans_def schedule_retrans_def upd_cases emit_def pending_def rxmt_def wlp_def bind_eq_Some_conv
      split: prod.splits if_splits)

lemma examine_out:
  assumes "top_nbr st a = Some on"
  shows "wlp (examine_request now a m st) (\<lambda>(skip, m', st'). top_out st' = top_out st \<and> top_if st' = top_if st
    \<and> (\<exists>R. top_nbr st' a = Some (on\<lparr>on_request_list := R\<rparr>)))"
proof (cases "store_find m (on_request_list on)")
  case None
  have "\<exists>R. top_nbr st a = Some (on\<lparr>on_request_list := R\<rparr>)" using assms by (intro exI [of _ "on_request_list on"]) simp
  with None assms show ?thesis by (simp add: examine_request_def)
next
  case (Some req)
  show ?thesis unfolding examine_request_def wlp_bind assms wlp_simps Some option.case upd_cases case_prod_unfold
    by (rule wlpI, simp only: fst_conv snd_conv, intro conjI exI) simp_all
qed

lemma flood_neighbor_out:
  assumes "top_nbr st a = Some on"
  shows "wlp (flood_neighbor now sender a n m st) (\<lambda>(n', m', st').
    if n' = n then top_out st' = top_out st \<and> pending st' a = pending st a
    else pending st' a \<and> top_out st' = top_out st @ (if pending st a then [] else [Add_timer (Lsupdate_send_neighbor a) (rxmt st on)]))"
    (is "wlp _ ?P")
proof -
  have add: "wlp (if skip \<or> sender = Some a then Some (n, m', s1)
      else do { (k, s2) \<leftarrow> add_retrans now a m' s1; n \<leftarrow> c_add n 1; Some (n, k, s2) }) ?P"
    if s1: "top_out s1 = top_out st" "top_if s1 = top_if st" "top_nbr s1 a = Some (on\<lparr>on_request_list := R\<rparr>)" for skip m' s1 R
  proof (cases "skip \<or> sender = Some a")
    case False
    have "wlp (do { (k, s2) \<leftarrow> add_retrans now a m' s1; n \<leftarrow> c_add n 1; Some (n, k, s2) }) ?P" unfolding wlp_bind
      by (rule wlp_mono [OF add_retrans_out [OF s1(3)]])
        (use s1 assms in \<open>auto simp: c_add_def wlp_def pending_def rxmt_def split: if_splits\<close>)
    with False show ?thesis by simp
  qed (use s1 assms in \<open>simp add: pending_def\<close>)
  have e: "wlp (examine_request now a m st) (\<lambda>(skip, m', s1). wlp (if skip \<or> sender = Some a then Some (n, m', s1)
      else do { (k, s2) \<leftarrow> add_retrans now a m' s1; n \<leftarrow> c_add n 1; Some (n, k, s2) }) ?P)"
    by (rule wlp_mono [OF examine_out [OF assms]]) (use add in blast)
  have f: "wlp (if False \<or> sender = Some a then Some (n, m, st)
      else do { (k, s2) \<leftarrow> add_retrans now a m st; n \<leftarrow> c_add n 1; Some (n, k, s2) }) ?P"
    by (rule add [of _ "on_request_list on"]) (use assms in simp_all)
  show ?thesis unfolding flood_neighbor_def wlp_bind assms wlp_simps
  proof (cases "on_state on < OSPF6_NEIGHBOR_EXCHANGE"; cases "on_state on = OSPF6_NEIGHBOR_FULL")
    assume "\<not> on_state on < OSPF6_NEIGHBOR_EXCHANGE" "on_state on = OSPF6_NEIGHBOR_FULL"
    with f show "wlp (if on_state on < OSPF6_NEIGHBOR_EXCHANGE then Some (n, m, st)
      else do { (skip, lsa, st) \<leftarrow> (if on_state on \<noteq> OSPF6_NEIGHBOR_FULL then examine_request now a m st else Some (False, m, st));
        if skip \<or> sender = Some a then Some (n, lsa, st)
        else do { (lsa, st) \<leftarrow> add_retrans now a lsa st; n \<leftarrow> c_add n 1; Some (n, lsa, st) } }) ?P" by (simp only: if_False if_True simp_thms bind.bind_lunit prod.case)
  next
    assume "\<not> on_state on < OSPF6_NEIGHBOR_EXCHANGE" "on_state on \<noteq> OSPF6_NEIGHBOR_FULL"
    with e show "wlp (if on_state on < OSPF6_NEIGHBOR_EXCHANGE then Some (n, m, st)
      else do { (skip, lsa, st) \<leftarrow> (if on_state on \<noteq> OSPF6_NEIGHBOR_FULL then examine_request now a m st else Some (False, m, st));
        if skip \<or> sender = Some a then Some (n, lsa, st)
        else do { (lsa, st) \<leftarrow> add_retrans now a lsa st; n \<leftarrow> c_add n 1; Some (n, lsa, st) } }) ?P"
      by (simp only: if_False if_True simp_thms wlp_bind prod.case case_prod_unfold)
  qed simp_all
qed

lemma flood_neighbors_out:
  assumes "ready st" "\<forall>a\<in>set as. top_nbr st a \<noteq> None" "distinct as" "complete_lsa l" "alike now l m" "- INT_MAX - 1 \<le> n" "n + int (length as) \<le> INT_MAX"
  shows "wp (flood_neighbors now sender as n m st) (\<lambda>(n', m', st'). top_out st' = top_out st @ concat (map (timer_for now sender l st) as)
    \<and> (\<forall>a\<in>set as. pending st' a = (pending st a \<or> target now sender l a (the (top_nbr st a)))))"
  using assms(1-3,5-)
proof (induction as arbitrary: n m st)
  case (Cons a as)
  from Cons.prems(2) obtain on where on: "top_nbr st a = Some on" by auto
  let ?t = "of_bool (target now sender l a on) :: int"
  have n: "n < INT_MAX" "- INT_MAX - 1 \<le> n + ?t" "n + ?t + int (length as) \<le> INT_MAX" using Cons.prems(5,6) by auto
  note step = wp_wlp [OF flood_neighbor_total [OF Cons.prems(1) on assms(4) Cons.prems(4,5) n(1)] flood_neighbor_out [OF on]]
  show ?case unfolding flood_neighbors.simps wp_bind
  proof (rule wp_mono [OF step], clarify)
    fix m1 s1 on'
    assume s1: "alike now l m1" "ready s1" "only a st s1" "top_nbr s1 a = Some on'"
      and out: "if n + ?t = n then top_out s1 = top_out st \<and> pending s1 a = pending st a
        else pending s1 a \<and> top_out s1 = top_out st @ (if pending st a then [] else [Add_timer (Lsupdate_send_neighbor a) (rxmt st on)])"
    have o1: "top_out s1 = top_out st @ timer_for now sender l st a" "pending s1 a = (pending st a \<or> target now sender l a on)"
      using out on by (auto simp: timer_for_def split: if_splits)
    have same: "top_nbr s1 b = top_nbr st b" if "b \<in> set as" for b using only_others [OF s1(3), of b] that Cons.prems(3) by auto
    have ifs: "top_if s1 = top_if st" using s1(3) by (simp add: only_def)
    have t: "map (timer_for now sender l s1) as = map (timer_for now sender l st) as"
      using same ifs by (intro map_cong) (simp_all add: timer_for_def pending_def rxmt_def)
    have p: "pending s1 b = pending st b" if "b \<in> set as" for b using same [OF that] by (simp add: pending_def)
    have ex: "\<forall>b\<in>set as. top_nbr s1 b \<noteq> None" using same Cons.prems(2) by simp
    have keep: "wlp (flood_neighbors now sender as (n + ?t) m1 s1) (\<lambda>(n', m', st'). pending st' a = pending s1 a)"
      using Cons.prems(3) flood_neighbors_total [OF s1(2) ex _ assms(4) s1(1) n(2,3), of sender]
      by (auto simp: wp_def wlp_def pending_def)
    show "wp (flood_neighbors now sender as (n + ?t) m1 s1) (\<lambda>(n', m', st'). top_out st' = top_out st @ concat (map (timer_for now sender l st) (a # as))
      \<and> (\<forall>b\<in>set (a # as). pending st' b = (pending st b \<or> target now sender l b (the (top_nbr st b)))))"
      by (rule wp_mono [OF wp_wlp [OF Cons.IH [OF s1(2) ex _ s1(1) n(2,3)] keep]])
        (use Cons.prems(3) o1 on t p same in auto)
  qed
qed simp

section \<open>The interface\<close>

text \<open>The update of a neighbour is restarted: a pending one is cancelled.\<close>

definition restart :: "(nat \<Rightarrow> bool) \<Rightarrow> nat \<Rightarrow> action list" where
  "restart waiting a = (if waiting a then [Cancel (Lsupdate_send_neighbor a)] else []) @ [Add_event (Lsupdate_send_neighbor a)]"

lemma resend_out:
  "wlp (resend_lsupdate a st) (\<lambda>st'. top_out st' = top_out st @ restart (pending st) a \<and> (\<forall>b. pending st' b = (b = a \<or> pending st b)))"
proof (cases "top_nbr st a")
  case (Some on)
  then show ?thesis
    by (cases "on_thread_send_lsupdate on")
      (simp_all add: resend_lsupdate_def nbr_thread_off_def upd_cases emit_def pending_def restart_def)
qed (simp add: resend_lsupdate_def nbr_thread_off_def)

lemma resend_all_out:
  "distinct as \<Longrightarrow> wlp (for_each_nbr resend_lsupdate as st) (\<lambda>st'. top_out st' = top_out st @ concat (map (restart (pending st)) as)
     \<and> (\<forall>b. pending st' b = (b \<in> set as \<or> pending st b)))"
proof (induction as arbitrary: st)
  case (Cons a as)
  show ?case unfolding for_each_nbr.simps wlp_bind
  proof (rule wlp_mono [OF resend_out], rule wlpI)
    fix s1 on
    assume s1: "top_out s1 = top_out st @ restart (pending st) a \<and> (\<forall>b. pending s1 b = (b = a \<or> pending st b))"
    have m: "map (restart (pending s1)) as = map (restart (pending st)) as"
      using s1 Cons.prems by (intro map_cong) (auto simp: restart_def)
    have d: "distinct as" using Cons.prems by simp
    show "wlp (for_each_nbr resend_lsupdate as s1) (\<lambda>st'. top_out st' = top_out st @ concat (map (restart (pending st)) (a # as))
      \<and> (\<forall>b. pending st' b = (b \<in> set (a # as) \<or> pending st b)))"
      by (rule wlp_mono [OF Cons.IH [OF d, of s1, unfolded m]]) (use s1 in auto)
  qed
qed simp

text \<open>What is scheduled when the LSA is sent out of the interface.\<close>

definition send_acts :: "nat \<Rightarrow> ospf6_interface \<Rightarrow> (nat \<Rightarrow> bool) \<Rightarrow> action list" where
  "send_acts oi ifc waiting =
     (if oi_broadcast ifc then if oi_thread_send_lsupdate ifc then [] else [Add_event (Lsupdate_send_interface oi)]
      else concat (map (restart waiting) (oi_neighbor_list ifc)))"

lemma send_out_out:
  assumes "top_if st oi = Some ifc" "distinct (oi_neighbor_list ifc)"
  shows "wlp (send_out now oi ifc m st) (\<lambda>(m', st'). top_out st' = top_out st @ send_acts oi ifc (pending st)
    \<and> (\<forall>b. pending st' b = (pending st b \<or> \<not> oi_broadcast ifc \<and> b \<in> set (oi_neighbor_list ifc))))"
proof (cases "oi_broadcast ifc")
  case True
  with assms(1) show ?thesis
    by (auto simp: send_out_def schedule_lsupdate_def upd_cases emit_def pending_def send_acts_def wlp_def bind_eq_Some_conv split: if_splits)
next
  case False
  then show ?thesis unfolding send_out_def if_not_P [OF False] wlp_bind wlp_simps prod.case
    by (intro wlp_mono [OF resend_all_out [OF assms(2)]]) (auto simp: send_acts_def)
qed

lemma flood_interface_out:
  assumes "ready st" "calm un st" "top_if st oi = Some ifc" "complete_lsa l" "alike now l m" "not_back sender oi st = Some back"
  defines "out \<equiv> un_retrans_added un oi + targets now sender l ifc st \<noteq> 0 \<and> \<not> back"
    and "busy \<equiv> \<lambda>a. pending st a \<or> target now sender l a (the (top_nbr st a))"
  shows "wp (ospf6_flood_interface now un sender oi m st) (\<lambda>(m', st').
    top_out st' = top_out st @ concat (map (timer_for now sender l st) (oi_neighbor_list ifc)) @ (if out then send_acts oi ifc busy else [])
    \<and> (\<forall>a\<in>set (oi_neighbor_list ifc). pending st' a = (busy a \<or> out \<and> \<not> oi_broadcast ifc)))" (is "wp _ ?P")
proof -
  let ?as = "oi_neighbor_list ifc"
  note c = calmD [OF assms(2,3)]
  have n: "\<forall>a\<in>set ?as. top_nbr st a \<noteq> None" using readyD(2) [OF assms(1,3)] by (simp add: if_ready_def)
  have acts: "send_acts oi ifc w = send_acts oi ifc w'" if "\<forall>a\<in>set ?as. w a = w' a" for w w'
    using that by (auto simp: send_acts_def restart_def intro!: arg_cong [where f = concat] map_cong)
  have all: "wp (ospf6_flood_interface now un sender oi m st) (\<lambda>_. True)"
    by (rule wp_mono [OF flood_interface_total [OF assms(1-6)]]) simp
  note step = flood_neighbors_out [OF assms(1) n c(1) assms(4,5) c(2,3), of sender]
    flood_neighbors_total [OF assms(1) n c(1) assms(4,5) c(2,3), of sender]
  have "wlp (ospf6_flood_interface now un sender oi m st) ?P"
    unfolding ospf6_flood_interface_def wlp_bind assms(3) wlp_simps
  proof (rule wlpI, clarify)
    fix k m1 s1
    assume r: "flood_neighbors now sender ?as (un_retrans_added un oi) m st = Some (k, m1, s1)"
    with step have k: "k = un_retrans_added un oi + targets now sender l ifc st" and ifs: "top_if s1 = top_if st"
      and same: "\<forall>b. b \<notin> set ?as \<longrightarrow> top_nbr s1 b = top_nbr st b"
      and srv: "\<forall>a\<in>set ?as. \<exists>on'. top_nbr s1 a = Some on' \<and> served now sender l a (the (top_nbr st a)) on'"
      and o1: "top_out s1 = top_out st @ concat (map (timer_for now sender l st) ?as)" "\<forall>a\<in>set ?as. pending s1 a = busy a"
      by (auto simp: wp_def targets_def busy_def)
    have b: "not_back sender oi s1 = Some back"
    proof (rule not_back_same [OF assms(6)])
      fix f on
      assume "top_nbr st f = Some on"
      then show "\<exists>on'. top_nbr s1 f = Some on' \<and> on_if on' = on_if on \<and> on_router_id on' = on_router_id on"
        using same srv by (cases "f \<in> set ?as") (force simp: served_def)+
    qed (simp add: ifs)
    have oi: "top_if s1 oi = Some ifc" using ifs assms(3) by simp
    show "wlp (if k = 0 then Some (m1, s1) else do { back \<leftarrow> not_back sender oi s1; if back then Some (m1, s1) else send_out now oi ifc m1 s1 }) ?P"
    proof (cases out)
      case True
      then have e: "(if k = 0 then Some (m1, s1) else do { back \<leftarrow> not_back sender oi s1; if back then Some (m1, s1) else send_out now oi ifc m1 s1 })
        = send_out now oi ifc m1 s1" using b k by (simp add: out_def)
      show ?thesis unfolding e
        by (rule wlp_mono [OF send_out_out [OF oi c(1)]]) (use True o1 acts [OF o1(2)] in auto)
    next
      case False
      then have e: "(if k = 0 then Some (m1, s1) else do { back \<leftarrow> not_back sender oi s1; if back then Some (m1, s1) else send_out now oi ifc m1 s1 })
        = Some (m1, s1)" using b k by (auto simp: out_def)
      show ?thesis unfolding e using False o1 by simp
    qed
  qed
  from wp_mono [OF wp_wlp [OF all this]] show ?thesis by blast
qed

end
