(* ===== verification/Ospf6_Flood_Props.thy ===== *)
theory Ospf6_Flood_Props
  imports Ospf6_Flood_Out
begin

text \<open>
  Where an LSA gets to: flooding out of one interface, out of the interfaces of an area and
  out of all areas.
\<close>

section \<open>Interfaces and their neighbours\<close>

definition nbrs :: "ospf6 \<Rightarrow> nat set \<Rightarrow> nat set" where
  "nbrs st X = {a. \<exists>i\<in>X. \<exists>ifc. top_if st i = Some ifc \<and> a \<in> set (oi_neighbor_list ifc)}"

text \<open>The LSA is on the retransmission list of the neighbour and an update is scheduled.\<close>

definition has :: "ospf6_lsa \<Rightarrow> nat \<Rightarrow> ospf6 \<Rightarrow> bool" where
  "has l a st \<longleftrightarrow> (case top_nbr st a of None \<Rightarrow> False | Some on \<Rightarrow> core l \<in> set (contents (on_retrans_list on)) \<and> on_thread_send_lsupdate on)"

text \<open>Flooding out of the interfaces \<open>X\<close>: each of their neighbours is served once.\<close>

definition spread :: "timeval \<Rightarrow> nat option \<Rightarrow> ospf6_lsa \<Rightarrow> nat set \<Rightarrow> ospf6 \<Rightarrow> ospf6 \<Rightarrow> bool" where
  "spread now sender l X st st' \<longleftrightarrow> frame st st'
     \<and> (\<forall>a\<in>nbrs st X. \<exists>on'. top_nbr st' a = Some on' \<and> served now sender l a (the (top_nbr st a)) on')
     \<and> (\<forall>a. a \<notin> nbrs st X \<longrightarrow> top_nbr st' a = top_nbr st a)"

lemma frame_nbrs:
  assumes "frame s t"
  shows "nbrs t X = nbrs s X"
proof -
  have "rel_option if_kept (top_if s i) (top_if t i)" for i using assms by (simp add: frame_def)
  then have "(\<exists>ifc. top_if t i = Some ifc \<and> a \<in> set (oi_neighbor_list ifc)) = (\<exists>ifc. top_if s i = Some ifc \<and> a \<in> set (oi_neighbor_list ifc))" for i a
    by (metis if_kept_def option_rel_Some1 option_rel_Some2)
  then show ?thesis by (simp add: nbrs_def)
qed

lemma nbrs_Un: "nbrs st (X \<union> Y) = nbrs st X \<union> nbrs st Y" "nbrs st {} = {}"
  by (auto simp: nbrs_def)

lemma spread_refl [simp]: "spread now sender l {} st st"
  by (simp add: spread_def nbrs_Un)

lemma spread_trans:
  assumes "spread now sender l X s t" "spread now sender l Y t u" "nbrs s X \<inter> nbrs s Y = {}"
  shows "spread now sender l (X \<union> Y) s u"
proof -
  have n: "nbrs t Y = nbrs s Y" using assms(1) by (intro frame_nbrs) (simp add: spread_def)
  note u = assms(2) [unfolded spread_def n]
  have "\<exists>on'. top_nbr u a = Some on' \<and> served now sender l a (the (top_nbr s a)) on'" if a: "a \<in> nbrs s (X \<union> Y)" for a
  proof (cases "a \<in> nbrs s X")
    case True
    then have "top_nbr u a = top_nbr t a" using u assms(3) by blast
    with True assms(1) show ?thesis by (simp add: spread_def)
  next
    case False
    with a have "a \<in> nbrs s Y" "top_nbr t a = top_nbr s a" using assms(1) by (auto simp: spread_def nbrs_Un)
    with u show ?thesis by metis
  qed
  moreover have "frame s u" using assms by (intro frame_trans [of s t u]) (simp_all add: spread_def)
  moreover have "top_nbr u a = top_nbr s a" if "a \<notin> nbrs s (X \<union> Y)" for a
    using that assms(1) u by (simp add: spread_def nbrs_Un)
  ultimately show ?thesis by (simp add: spread_def)
qed

lemma core_put: "core l \<in> set (contents (store_put l S))"
  by (simp add: contents_put)

text \<open>A neighbour that is to get the LSA has it.\<close>

lemma served_has: "served now sender l a on on' \<Longrightarrow> target now sender l a on \<Longrightarrow> top_nbr st' a = Some on' \<Longrightarrow> has l a st'"
  by (simp add: served_def has_def core_put)

lemma flooded_spread:
  assumes "flooded now sender l out oi ifc st r" "frame st (snd r)" "top_if st oi = Some ifc"
  shows "spread now sender l {oi} st (snd r)"
  using assms by (simp add: spread_def flooded_def nbrs_def)

text \<open>The neighbours in the list of an interface belong to it, and no interface is listed twice.\<close>

definition area_ifs :: "ospf6 \<Rightarrow> nat \<Rightarrow> nat list" where
  "area_ifs st oa = (case top_area st oa of None \<Rightarrow> [] | Some area \<Rightarrow> oa_if_list area)"

definition owned :: "ospf6 \<Rightarrow> bool" where
  "owned st \<longleftrightarrow> (\<forall>i ifc. top_if st i = Some ifc \<longrightarrow> (\<forall>a\<in>set (oi_neighbor_list ifc). \<exists>on. top_nbr st a = Some on \<and> on_if on = i))"

definition separate :: "ospf6 \<Rightarrow> bool" where
  "separate st \<longleftrightarrow> owned st \<and> distinct (concat (map (area_ifs st) (top_area_list st)))"

lemma owned_disjoint:
  assumes "owned st" "X \<inter> Y = {}"
  shows "nbrs st X \<inter> nbrs st Y = {}"
proof -
  have o: "\<exists>on. top_nbr st a = Some on \<and> on_if on = i" if "top_if st i = Some ifc" "a \<in> set (oi_neighbor_list ifc)" for i ifc a
    using assms(1) that unfolding owned_def by blast
  show ?thesis using assms(2) by (fastforce simp: nbrs_def dest: o)
qed

section \<open>All interfaces\<close>

text \<open>The LSA belongs to a database of its scope, and the sender is known.\<close>

definition placed :: "ospf6_lsa \<Rightarrow> ospf6 \<Rightarrow> bool" where
  "placed l st \<longleftrightarrow> (lsa_scope l = OSPF6_SCOPE_LINKLOCAL \<longrightarrow> (\<exists>i. lsa_lsdb l = Some (Interface_lsdb i) \<and> top_if st i \<noteq> None))
     \<and> (lsa_scope l = OSPF6_SCOPE_AREA \<longrightarrow> lsa_lsdb l \<noteq> None)"

definition prepared :: "uninit \<Rightarrow> nat option \<Rightarrow> ospf6_lsa \<Rightarrow> ospf6 \<Rightarrow> bool" where
  "prepared un sender l st \<longleftrightarrow> ready st \<and> calm un st \<and> owned st \<and> complete_lsa l \<and> placed l st \<and> (\<forall>f. sender = Some f \<longrightarrow> top_nbr st f \<noteq> None)"

lemma frame_exists:
  assumes "frame s t"
  shows "(top_nbr t a = None) = (top_nbr s a = None)" "(top_if t i = None) = (top_if s i = None)" "(top_area t b = None) = (top_area s b = None)"
proof -
  have "rel_option nbr_kept (top_nbr s a) (top_nbr t a)" "rel_option if_kept (top_if s i) (top_if t i)" "rel_option area_kept (top_area s b) (top_area t b)"
    using assms by (simp_all add: frame_def)
  then show "(top_nbr t a = None) = (top_nbr s a = None)" "(top_if t i = None) = (top_if s i = None)" "(top_area t b = None) = (top_area s b = None)"
    by (auto elim: option.rel_cases)
qed

lemma frame_if: "frame s t \<Longrightarrow> top_if t i = Some y \<Longrightarrow> \<exists>x. top_if s i = Some x \<and> if_kept x y"
  by (metis frame_def option_rel_Some2)

lemma frame_area: "frame s t \<Longrightarrow> top_area t i = Some y \<Longrightarrow> \<exists>x. top_area s i = Some x \<and> area_kept x y"
  by (metis frame_def option_rel_Some2)

lemma frame_calm: "calm un s \<Longrightarrow> frame s t \<Longrightarrow> calm un t"
  by (auto simp: calm_def if_kept_def dest!: frame_if)

lemma frame_owned:
  assumes "owned s" "frame s t"
  shows "owned t"
  unfolding owned_def
proof (intro allI impI ballI)
  fix i ifc a
  assume i: "top_if t i = Some ifc" "a \<in> set (oi_neighbor_list ifc)"
  from frame_if [OF assms(2) i(1)] i(2) obtain x where "top_if s i = Some x" "a \<in> set (oi_neighbor_list x)" by (auto simp: if_kept_def)
  with assms(1) obtain on where on: "top_nbr s a = Some on" "on_if on = i" unfolding owned_def by blast
  have "rel_option nbr_kept (top_nbr s a) (top_nbr t a)" using assms(2) by (simp add: frame_def)
  with on show "\<exists>on. top_nbr t a = Some on \<and> on_if on = i" by (auto simp: option_rel_Some1 nbr_kept_def)
qed

lemma frame_area_ifs:
  assumes "frame s t"
  shows "area_ifs t = area_ifs s"
proof
  fix oa
  show "area_ifs t oa = area_ifs s oa"
    using frame_area [OF assms, of oa] frame_exists(3) [OF assms, of oa] by (cases "top_area t oa") (auto simp: area_ifs_def area_kept_def)
qed

lemma prepared_frame: "prepared un sender l s \<Longrightarrow> frame s t \<Longrightarrow> ready t \<Longrightarrow> prepared un sender l t"
  using frame_calm frame_owned by (auto simp: prepared_def placed_def frame_exists)

lemma alike_place: "alike now l m \<Longrightarrow> lsa_lsdb m = lsa_lsdb l \<and> lh_type (lsa_header m) = lh_type (lsa_header l)"
  by (auto simp: alike_def like_def set_age_def)

lemma alike_scope:
  assumes "alike now l m"
  shows "other_interface oi m = other_interface oi l" "other_area oa m st = other_area oa l st"
  using alike_place [OF assms] by (simp_all add: other_interface_def other_area_def lsa_scope_def)

lemma not_back_total: "prepared un sender l st \<Longrightarrow> top_if st oi = Some ifc \<Longrightarrow> \<exists>b. not_back sender oi st = Some b"
  by (auto simp: prepared_def not_back_def split: option.split)

lemma other_total:
  assumes "prepared un sender l st"
  shows "\<exists>b. other_interface oi l = Some b" "\<exists>b. other_area oa l st = Some b"
  using assms by (auto simp: prepared_def placed_def other_interface_def other_area_def split: if_splits)

definition result :: "timeval \<Rightarrow> uninit \<Rightarrow> nat option \<Rightarrow> ospf6_lsa \<Rightarrow> nat set \<Rightarrow> ospf6 \<Rightarrow> ospf6_lsa \<times> ospf6 \<Rightarrow> bool" where
  "result now un sender l X st r \<longleftrightarrow> alike now l (fst r) \<and> prepared un sender l (snd r) \<and> spread now sender l X st (snd r)"

lemma result_refl: "prepared un sender l st \<Longrightarrow> alike now l m \<Longrightarrow> result now un sender l {} st (m, st)"
  by (simp add: result_def)

lemma result_step:
  assumes "result now un sender l X st (m1, s1)" "result now un sender l Y s1 r" "owned st" "X \<inter> Y = {}"
  shows "result now un sender l (X \<union> Y) st r"
  using assms(1,2) owned_disjoint [OF assms(3,4)] spread_trans [of now sender l X st s1 Y "snd r"] by (simp add: result_def)

lemma flood_interface_result:
  assumes "prepared un sender l st" "top_if st oi \<noteq> None" "alike now l m"
  shows "wp (ospf6_flood_interface now un sender oi m st) (result now un sender l {oi} st)"
proof -
  from assms(2) obtain ifc where ifc: "top_if st oi = Some ifc" by blast
  from not_back_total [OF assms(1) ifc] obtain b where b: "not_back sender oi st = Some b" by blast
  have p: "ready st" "calm un st" "complete_lsa l" "like l m" using assms(1,3) by (auto simp: prepared_def alike_def)
  note t = wp_wlp [OF flood_interface_total [OF p(1,2) ifc p(3) assms(3) b] flood_interface_quiet [OF frame_refl(2) p(4)]]
  show ?thesis
  proof (rule wp_mono [OF t], clarify)
    fix m1 s1
    assume r: "flooded now sender l (un_retrans_added un oi + targets now sender l ifc st \<noteq> 0 \<and> \<not> b) oi ifc st (m1, s1)" "quiet st s1"
    then have "alike now l m1" "ready s1" by (auto simp: flooded_def)
    with prepared_frame [OF assms(1), of s1] flooded_spread [OF r(1) _ ifc] r(2)
    show "result now un sender l {oi} st (m1, s1)" by (simp add: result_def quiet_def)
  qed
qed

text \<open>The interfaces of a list that the LSA may leave by.\<close>

definition exits :: "ospf6_lsa \<Rightarrow> nat list \<Rightarrow> nat set" where
  "exits l ois = set (filter (\<lambda>oi. other_interface oi l = Some False) ois)"

lemma exits_simps [simp]: "exits l [] = {}" "exits l (oi # ois) = (if other_interface oi l = Some False then {oi} else {}) \<union> exits l ois"
  by (auto simp: exits_def)

lemma flood_interfaces_result:
  assumes "prepared un sender l st" "\<forall>i\<in>set ois. top_if st i \<noteq> None" "alike now l m" "distinct ois"
  shows "wp (flood_interfaces now un sender ois m st) (result now un sender l (exits l ois) st)"
  using assms
proof (induction ois arbitrary: m st)
  case (Cons oi ois)
  from other_total(1) [OF Cons.prems(1)] obtain b where b: "other_interface oi l = Some b" by blast
  have "wp (if b then Some (m, st) else ospf6_flood_interface now un sender oi m st) (result now un sender l (if b then {} else {oi}) st)"
    using flood_interface_result Cons.prems by (simp add: result_refl)
  then show ?case unfolding flood_interfaces.simps wp_bind alike_scope(1) [OF Cons.prems(3)] b wp_simps
  proof (rule wp_mono, clarify)
    fix m1 s1
    assume r: "result now un sender l (if b then {} else {oi}) st (m1, s1)"
    then have f: "frame st s1" by (simp add: result_def spread_def)
    have o: "owned st" "(if b then {} else {oi}) \<inter> exits l ois = {}" using Cons.prems(1,4) by (auto simp: prepared_def exits_def)
    have "\<forall>i\<in>set ois. top_if s1 i \<noteq> None" using Cons.prems(2) unfolding frame_exists(2) [OF f] by simp
    with r Cons.prems(4) have "wp (flood_interfaces now un sender ois m1 s1) (result now un sender l (exits l ois) s1)" by (intro Cons.IH) (simp_all add: result_def)
    then show "wp (flood_interfaces now un sender ois m1 s1) (result now un sender l (exits l (oi # ois)) st)"
      by (rule wp_mono) (use result_step [OF r _ o(1)] o(2) b in \<open>cases b; simp\<close>)
  qed
qed (simp add: result_refl)

section \<open>All areas\<close>

text \<open>The LSA is flooded in the area: it belongs there, and it is not kept out of a stub area.\<close>

definition enters :: "ospf6_lsa \<Rightarrow> ospf6 \<Rightarrow> nat \<Rightarrow> bool" where
  "enters l st oa \<longleftrightarrow> other_area oa l st = Some False
     \<and> \<not> (lh_type (lsa_header l) = OSPF6_LSTYPE_AS_EXTERNAL \<and> (case top_area st oa of Some area \<Rightarrow> oa_stub area | None \<Rightarrow> False))"

fun reach :: "ospf6_lsa \<Rightarrow> ospf6 \<Rightarrow> nat list \<Rightarrow> nat set" where
  "reach l st [] = {}" |
  "reach l st (oa # oas) = (if enters l st oa then (case top_area st oa of Some area \<Rightarrow> exits l (oa_if_list area) | None \<Rightarrow> {}) else {}) \<union> reach l st oas"

lemma frame_other_area:
  assumes "frame s t"
  shows "other_area oa l t = other_area oa l s"
proof -
  have "(do { ifc \<leftarrow> top_if t i; Some (oi_area ifc \<noteq> oa) }) = do { ifc \<leftarrow> top_if s i; Some (oi_area ifc \<noteq> oa) }" for i
    using frame_if [OF assms, of i] frame_exists(2) [OF assms, of i] by (cases "top_if t i") (auto simp: if_kept_def)
  then show ?thesis by (simp add: other_area_def split: option.split lsdb_ref.split)
qed

lemma frame_enters:
  assumes "frame s t"
  shows "enters l t oa = enters l s oa"
  using frame_area [OF assms, of oa] frame_exists(3) [OF assms, of oa] frame_other_area [OF assms]
  by (cases "top_area t oa") (auto simp: enters_def area_kept_def)

lemma frame_reach:
  assumes "frame s t"
  shows "reach l t oas = reach l s oas"
proof (induction oas)
  case (Cons oa oas)
  then show ?case using frame_enters [OF assms] frame_area [OF assms, of oa] frame_exists(3) [OF assms, of oa]
    by (cases "top_area t oa") (auto simp: area_kept_def)
qed simp

lemma reach_area_ifs: "reach l st oas \<subseteq> set (concat (map (area_ifs st) oas))"
  by (induction oas) (auto simp: area_ifs_def exits_def split: option.splits if_splits)

lemma flood_areas_result:
  assumes "prepared un sender l st" "\<forall>oa\<in>set oas. top_area st oa \<noteq> None" "alike now l m" "distinct (concat (map (area_ifs st) oas))"
  shows "wp (flood_areas now un sender oas m st) (result now un sender l (reach l st oas) st)"
  using assms
proof (induction oas arbitrary: m st)
  case (Cons oa oas)
  from other_total(2) [OF Cons.prems(1)] obtain b where b: "other_area oa l st = Some b" by blast
  from Cons.prems(2) obtain area where area: "top_area st oa = Some area" by auto
  have ois: "\<forall>i\<in>set (oa_if_list area). top_if st i \<noteq> None" using Cons.prems(1) area by (auto simp: prepared_def area_ready_def dest: readyD(3))
  have a: "area_ifs st oa = oa_if_list area" using area by (simp add: area_ifs_def)
  have d: "distinct (oa_if_list area)" "set (oa_if_list area) \<inter> reach l st oas = {}" "distinct (concat (map (area_ifs st) oas))"
    using Cons.prems(4) a reach_area_ifs [of l st oas] by auto
  let ?X = "if enters l st oa then exits l (oa_if_list area) else {}"
  have e: "(b \<or> lh_type (lsa_header l) = OSPF6_LSTYPE_AS_EXTERNAL \<and> oa_stub area) = (\<not> enters l st oa)" using b area by (auto simp: enters_def)
  have "wp (if \<not> enters l st oa then Some (m, st) else ospf6_flood_area now un sender oa m st) (result now un sender l ?X st)"
    using flood_interfaces_result [OF Cons.prems(1) ois Cons.prems(3) d(1)] Cons.prems by (simp add: result_refl ospf6_flood_area_def area)
  then show ?case unfolding flood_areas.simps wp_bind alike_scope(2) [OF Cons.prems(3)] b area wp_simps alike_place [OF Cons.prems(3), THEN conjunct2] e
  proof (rule wp_mono, clarify)
    fix m1 s1
    assume r: "result now un sender l ?X st (m1, s1)"
    then have f: "frame st s1" by (simp add: result_def spread_def)
    have "\<forall>oa\<in>set oas. top_area s1 oa \<noteq> None" using Cons.prems(2) by (auto simp: frame_exists [OF f])
    moreover have "distinct (concat (map (area_ifs s1) oas))" using d(3) by (simp add: frame_area_ifs [OF f])
    ultimately have w: "wp (flood_areas now un sender oas m1 s1) (result now un sender l (reach l st oas) s1)"
      unfolding frame_reach [OF f, symmetric] using r by (intro Cons.IH) (simp_all add: result_def)
    have o: "owned st" "?X \<inter> reach l st oas = {}" using Cons.prems(1) d(2) by (auto simp: prepared_def exits_def)
    show "wp (flood_areas now un sender oas m1 s1) (result now un sender l (reach l st (oa # oas)) st)"
      by (rule wp_mono [OF w]) (use result_step [OF r _ o] area in \<open>cases "enters l st oa"; simp\<close>)
  qed
qed (simp add: result_refl)

lemma flood_result:
  assumes "prepared un sender l st" "alike now l m" "separate st"
  shows "wp (ospf6_flood now un sender m st) (result now un sender l (reach l st (top_area_list st)) st)"
  unfolding ospf6_flood_def using assms by (intro flood_areas_result) (auto simp: prepared_def separate_def dest: readyD(4))

section \<open>Delivery\<close>

text \<open>
  C35. Flooding an LSA out of one interface does what its steps say, and it returns, in a state
  whose objects exist and hold complete LSAs (\<open>ready\<close>) and in which the counter of new
  retransmissions, with what its uninitialised memory holds, cannot overflow and no neighbour
  is listed twice (\<open>calm\<close>), and where the sender, if there is one, exists. It concerns the
  neighbours of the interface only, and of these only the two lists and the pending update.
  One gets the LSA exactly if it did not send it, if it is in state Exchange or beyond, and
  if, unless it is fully adjacent, it requests no instance that the LSA is not more recent
  than: then the LSA is on its retransmission list, in the place of its key, and an update
  timer is started unless one is pending. The request is dropped from the request list
  exactly if it is not the more recent instance. The LSA is sent out unless it came in from
  the designated router or its backup, or on the interface of a backup, or the counter, which
  is what the uninitialised variable held plus the number of neighbours that got the LSA, is
  zero: a broadcast interface puts it on its list of updates and schedules one; any other
  interface cancels the pending update of each of its neighbours and schedules one at once.
  Nothing else is scheduled.
\<close>

theorem flood_interface_spec:
  assumes "ready st" "calm un st" "top_if st oi = Some ifc" "complete_lsa l" "not_back sender oi st = Some came_back"
    and "out = (un_retrans_added un oi + targets now sender l ifc st \<noteq> 0 \<and> \<not> came_back)"
  shows "\<exists>l' st' ifc'. ospf6_flood_interface now un sender oi l st = Some (l', st') \<and> core l' = core l \<and> top_if st' oi = Some ifc'
    \<and> (\<forall>a\<in>set (oi_neighbor_list ifc). \<exists>on'. top_nbr st' a = Some on' \<and> served now sender l a (the (top_nbr st a)) on')
    \<and> (\<forall>a. a \<notin> set (oi_neighbor_list ifc) \<longrightarrow> top_nbr st' a = top_nbr st a)
    \<and> (if out then sent_out l ifc ifc' else ifc' = ifc)
    \<and> top_out st' = top_out st @ concat (map (timer_for now sender l st) (oi_neighbor_list ifc))
        @ (if out then send_acts oi ifc (\<lambda>a. pending st a \<or> target now sender l a (the (top_nbr st a))) else [])
    \<and> (\<forall>a\<in>set (oi_neighbor_list ifc). pending st' a = (pending st a \<or> target now sender l a (the (top_nbr st a)) \<or> out \<and> \<not> oi_broadcast ifc))"
proof -
  from wpD [OF flood_interface_total [OF assms(1-4) alike_refl assms(5), of now]] obtain l' st' where r:
    "ospf6_flood_interface now un sender oi l st = Some (l', st')" "flooded now sender l out oi ifc st (l', st')"
    unfolding assms(6) [symmetric] by auto
  note f = r(2) [unfolded flooded_def fst_conv snd_conv]
  from f have c: "core l' = core l" by (intro alike_core) blast
  from wpD [OF flood_interface_out [OF assms(1-4) alike_refl assms(5), of now]] r(1)
  have "top_out st' = top_out st @ concat (map (timer_for now sender l st) (oi_neighbor_list ifc))
        @ (if out then send_acts oi ifc (\<lambda>a. pending st a \<or> target now sender l a (the (top_nbr st a))) else [])"
    "\<forall>a\<in>set (oi_neighbor_list ifc). pending st' a = (pending st a \<or> target now sender l a (the (top_nbr st a)) \<or> out \<and> \<not> oi_broadcast ifc)"
    unfolding assms(6) [symmetric] by auto
  with r(1) f c show ?thesis by blast
qed

text \<open>The example of the election, with two full adjacencies.\<close>

definition example_adjacent :: ospf6 where
  "example_adjacent = example_ospf6\<lparr>
     top_if := [0 \<mapsto> (ospf6_interface_create 0 True False True)\<lparr>oi_neighbor_list := [1, 2], oi_state := OSPF6_INTERFACE_DROTHER, oi_ctrl_client := Some 0\<rparr>],
     top_nbr := [1 \<mapsto> example_nbr 0 20 OSPF6_NEIGHBOR_FULL, 2 \<mapsto> example_nbr 0 30 OSPF6_NEIGHBOR_FULL]\<rparr>"

definition example_router_lsa :: ospf6_lsa where
  "example_router_lsa = (lsa_zero example_header [1, 2, 3, 4])\<lparr>lsa_lsdb := Some (Area_lsdb 0)\<rparr>"

lemma example_ready: "ready example_adjacent"
  by (simp add: ready_def ready_defs complete_store_def INT_MAX_def example_adjacent_def example_ospf6_def example_nbr_def neighbor_zero_def ospf6_interface_create_def)

lemma example_calm: "calm zeroed example_adjacent"
  by (simp add: calm_def zeroed_def INT_MAX_def example_adjacent_def ospf6_interface_create_def)

lemma example_complete: "complete_lsa example_router_lsa"
  by (simp add: complete_lsa_def example_router_lsa_def lsa_zero_def example_header_def lsa_header_size_def)

theorem flood_interface_spec_witness:
  "\<exists>l' st' on'. ospf6_flood_interface timeval_zero zeroed (Some 1) 0 example_router_lsa example_adjacent = Some (l', st')
    \<and> top_nbr st' 2 = Some on' \<and> contents (on_retrans_list on') = [core example_router_lsa]"
proof -
  let ?ifc = "(ospf6_interface_create 0 True False True)\<lparr>oi_neighbor_list := [1, 2], oi_state := OSPF6_INTERFACE_DROTHER, oi_ctrl_client := Some 0\<rparr>"
  have i: "top_if example_adjacent 0 = Some ?ifc" by (simp add: example_adjacent_def)
  have b: "not_back (Some 1) 0 example_adjacent = Some False" by code_simp
  from flood_interface_spec [OF example_ready example_calm i example_complete b refl, where now = timeval_zero]
  obtain l' st' on' where r: "ospf6_flood_interface timeval_zero zeroed (Some 1) 0 example_router_lsa example_adjacent = Some (l', st')"
    "top_nbr st' 2 = Some on'" "served timeval_zero (Some 1) example_router_lsa 2 (the (top_nbr example_adjacent 2)) on'" by auto
  have "target timeval_zero (Some 1) example_router_lsa 2 (the (top_nbr example_adjacent 2))" by code_simp
  with r(3) have "contents (on_retrans_list on') = contents (store_put example_router_lsa (on_retrans_list (the (top_nbr example_adjacent 2))))" by (simp add: served_def)
  moreover have "on_retrans_list (the (top_nbr example_adjacent 2)) = []" by (simp add: example_adjacent_def example_nbr_def neighbor_zero_def)
  ultimately have "contents (on_retrans_list on') = [core example_router_lsa]" by (simp add: contents_put) (simp add: contents_def)
  with r show ?thesis by blast
qed

text \<open>
  C36. An LSA gets everywhere it should, and nowhere else. In a state whose objects refer to
  each other (\<open>ready\<close>, \<open>calm\<close>; each interface in the list of one area and each neighbour in
  that of its interface), with a complete LSA that belongs to a database of its scope and a
  sender that exists, flooding returns. The interfaces it may leave by are the interface that
  it belongs to for link-local scope, the interfaces of the area that it belongs to for area
  scope, those of all areas for AS scope, less the stub areas for an external LSA. Each
  neighbour on these is served: if it is to get the LSA (as above; never the sender), it has
  it on its retransmission list with an update scheduled; if not, its retransmission list is
  the same as before; in both cases it may lose the request that the LSA answers, and nothing
  else of it but the pending update changes. All other neighbours are as before.
\<close>

theorem flood_delivers:
  assumes "prepared un sender l st" "separate st"
  shows "\<exists>l' st'. ospf6_flood now un sender l st = Some (l', st') \<and> core l' = core l
    \<and> (\<forall>a\<in>nbrs st (reach l st (top_area_list st)). \<exists>on'. top_nbr st' a = Some on' \<and> served now sender l a (the (top_nbr st a)) on'
         \<and> (target now sender l a (the (top_nbr st a)) \<longrightarrow> has l a st'))
    \<and> (\<forall>a. a \<notin> nbrs st (reach l st (top_area_list st)) \<longrightarrow> top_nbr st' a = top_nbr st a)"
proof -
  from wpD [OF flood_result [OF assms(1) alike_refl assms(2), of now]] obtain l' st' where r:
    "ospf6_flood now un sender l st = Some (l', st')" "result now un sender l (reach l st (top_area_list st)) st (l', st')" by auto
  note f = r(2) [unfolded result_def spread_def fst_conv snd_conv]
  from f have "core l' = core l" by (intro alike_core) blast
  with r(1) f served_has [of now sender l _ _ _ st'] show ?thesis by blast
qed

theorem flood_delivers_witness:
  "\<exists>l' st' on'. ospf6_flood timeval_zero zeroed (Some 1) example_router_lsa example_adjacent = Some (l', st') \<and> has example_router_lsa 2 st'
    \<and> top_nbr st' 1 = Some on' \<and> contents (on_retrans_list on') = []"
proof -
  let ?l = example_router_lsa and ?st = example_adjacent
  have o: "owned ?st" by (auto simp: owned_def example_adjacent_def example_nbr_def split: if_splits)
  have p: "prepared zeroed (Some 1) ?l ?st" unfolding prepared_def
    using example_ready example_calm example_complete o
    by (simp add: placed_def example_router_lsa_def lsa_zero_def lsa_scope_def example_header_def OSPF6_LSA_SCOPE_def OSPF6_SCOPE_LINKLOCAL_def OSPF6_SCOPE_AREA_def)
      (simp add: example_adjacent_def)
  have s: "separate ?st" using o by (simp add: separate_def area_ifs_def example_adjacent_def example_ospf6_def)
  have "0 \<in> reach ?l ?st (top_area_list ?st)" by code_simp
  then have n: "1 \<in> nbrs ?st (reach ?l ?st (top_area_list ?st))" "2 \<in> nbrs ?st (reach ?l ?st (top_area_list ?st))"
    by (auto simp: nbrs_def intro!: bexI [of _ 0]) (simp_all add: example_adjacent_def)
  have t: "\<not> target timeval_zero (Some 1) ?l 1 (the (top_nbr ?st 1))" "target timeval_zero (Some 1) ?l 2 (the (top_nbr ?st 2))" by code_simp+
  from flood_delivers [OF p s, where now = timeval_zero] obtain l' st' where r:
    "ospf6_flood timeval_zero zeroed (Some 1) ?l ?st = Some (l', st')"
    "\<forall>a\<in>nbrs ?st (reach ?l ?st (top_area_list ?st)). \<exists>on'. top_nbr st' a = Some on' \<and> served timeval_zero (Some 1) ?l a (the (top_nbr ?st a)) on'
       \<and> (target timeval_zero (Some 1) ?l a (the (top_nbr ?st a)) \<longrightarrow> has ?l a st')" by blast
  from r(2) n(1) obtain on' where on': "top_nbr st' 1 = Some on'" "served timeval_zero (Some 1) ?l 1 (the (top_nbr ?st 1)) on'" by blast
  have "on_retrans_list (the (top_nbr ?st 1)) = []" by (simp add: example_adjacent_def example_nbr_def neighbor_zero_def)
  then have "contents (on_retrans_list on') = []" using on'(2) t(1) by (simp add: served_def contents_def)
  with r n(2) t(2) on'(1) show ?thesis by blast
qed

end
