(* ===== verification/Ospf6_Message_Props.thy ===== *)
theory Ospf6_Message_Props
  imports Ospf6_Message_Wf Ospf6_Flood_Props Ospf6_Send
begin

text \<open>
  What received packets do: an update packet is the sequence of its LSAs, and a Hello makes a
  neighbour.
\<close>

section \<open>Reading what was written\<close>

lemma rd_app [simp]: "rd (xs @ ys) (length xs + i) = rd ys i"
  by (simp add: rd_def)

lemma get_u16_be [simp]: "get_u16 (be16 w @ ys) 0 = Some w"
  using get_be16_be16 [of w] by (simp add: get_u16_def rd_def be16_def)

lemma get_u32_be [simp]: "get_u32 (be32 w @ ys) 0 = Some w"
  using get_be32_be32 [of w] by (simp add: get_u32_def rd_def be32_def numeral_eq_Suc)

lemma get_app: "get_u16 (xs @ ys) (length xs + i) = get_u16 ys i" "get_u32 (xs @ ys) (length xs + i) = get_u32 ys i"
  unfolding get_u16_def get_u32_def add.assoc rd_app by (rule refl)+

text \<open>A field behind a part of known length.\<close>

lemma get_skip: "length xs = n \<Longrightarrow> n \<le> i \<Longrightarrow> get_u16 (xs @ ys) i = get_u16 ys (i - n)" "length xs = n \<Longrightarrow> n \<le> i \<Longrightarrow> get_u32 (xs @ ys) i = get_u32 ys (i - n)"
  using get_app [of xs ys "i - n"] by auto

lemma length_lsa_bytes [simp]: "length (lsa_bytes l) = lsa_header_size + length (snd l)"
  by (simp add: lsa_bytes_def lsa_tail_def lsa_header_size_def)

lemma get_lsa_header_app: "get_lsa_header (xs @ ys) (length xs + i) = get_lsa_header ys i"
  unfolding get_lsa_header_def add.assoc get_app ..

lemma get_lsa_header_bytes [simp]: "get_lsa_header (lsa_bytes (h, b) @ ys) 0 = Some h"
  by (simp add: get_lsa_header_def lsa_bytes_def lsa_tail_def get_skip [OF length_be(1)] get_skip [OF length_be(2)])

lemma get_length_bytes [simp]: "get_u16 (lsa_bytes (h, b) @ ys) 18 = Some (lh_length h)"
  by (simp add: lsa_bytes_def lsa_tail_def get_skip [OF length_be(1)] get_skip [OF length_be(2)])

section \<open>Updates\<close>

text \<open>The LSAs of a packet, received one after the other.\<close>

fun receive_all :: "timeval \<Rightarrow> uninit \<Rightarrow> u32 \<Rightarrow> nat \<Rightarrow> (ospf6_lsa_header \<times> u8 list) list \<Rightarrow> ospf6 \<Rightarrow> ospf6 option" where
  "receive_all now un hostnum a [] st = Some st" |
  "receive_all now un hostnum a (l # ls) st = do { st \<leftarrow> ospf6_receive_lsa now un a (fst l) (snd l) hostnum st; receive_all now un hostnum a ls st }"

definition sized :: "ospf6_lsa_header \<times> u8 list \<Rightarrow> bool" where
  "sized l \<longleftrightarrow> unat (lh_length (fst l)) = lsa_header_size + length (snd l)"

lemma receive_prefix: "sized (h, b) \<Longrightarrow> ospf6_receive_lsa now un a h (b @ ys) hostnum st = ospf6_receive_lsa now un a h b hostnum st"
  by (simp add: ospf6_receive_lsa_def ospf6_lsa_create_def sized_def)

lemma drop_header: "drop lsa_header_size (lsa_bytes (h, b) @ ys) = b @ ys"
  by (simp add: lsa_bytes_def lsa_tail_def lsa_header_size_def be16_def be32_def)

lemma lsupdate_lsas_all:
  assumes "list_all sized ls" "e = length pre + length (concat (map lsa_bytes ls))"
  shows "lsupdate_lsas now un hostnum (pre @ concat (map lsa_bytes ls) @ post) a e (length pre) (length ls) st = receive_all now un hostnum a ls st"
  using assms
proof (induction ls arbitrary: pre st)
  case Nil
  then show ?case by (simp add: lsupdate_lsas.simps)
next
  case (Cons l ls)
  obtain h b where l: "l = (h, b)" by (cases l)
  let ?m = "pre @ lsa_bytes l @ concat (map lsa_bytes ls) @ post"
  have s: "sized (h, b)" using Cons.prems(1) l by simp
  have n: "unat (lh_length h) = length (lsa_bytes l)" using s by (simp add: sized_def l)
  have c: "length pre < e" "length pre + unat (lh_length h) \<le> e" "lsa_header_size \<le> unat (lh_length h)"
    using Cons.prems(2) n by (simp_all add: l lsa_header_size_def)
  have g: "get_u16 ?m (length pre + 18) = Some (lh_length h)" "get_lsa_header ?m (length pre) = Some h"
    "drop (length pre + lsa_header_size) ?m = b @ concat (map lsa_bytes ls) @ post"
    using get_lsa_header_app [of pre "lsa_bytes l @ concat (map lsa_bytes ls) @ post" 0] drop_header [of h b "concat (map lsa_bytes ls) @ post"]
    by (simp_all add: get_app l)
  have IH: "lsupdate_lsas now un hostnum ?m a e (length pre + unat (lh_length h)) (length ls) s = receive_all now un hostnum a ls s" for s
    using Cons.IH [of "pre @ lsa_bytes l" s] Cons.prems by (simp add: n add.assoc)
  then have "lsupdate_lsas now un hostnum ?m a e (length pre + unat (lh_length h)) (length ls) = receive_all now un hostnum a ls" by (rule ext)
  then show ?case using c g receive_prefix [OF s] by (subst lsupdate_lsas.simps) (simp add: l)
qed

text \<open>An update packet with the header of an OSPF packet, the number of the LSAs and the LSAs.\<close>

definition update_length :: "(ospf6_lsa_header \<times> u8 list) list \<Rightarrow> nat" where
  "update_length ls = header_size + lsupdate_size + length (concat (map lsa_bytes ls))"

definition update_packet :: "u8 \<Rightarrow> u32 \<Rightarrow> u8 list \<Rightarrow> (ospf6_lsa_header \<times> u8 list) list \<Rightarrow> u8 list" where
  "update_packet version router_id rest ls =
     [version, OSPF6_MESSAGE_TYPE_LSUPDATE] @ be16 (word_of_nat (update_length ls)) @ be32 router_id @ rest @ be32 (word_of_nat (length ls)) @ concat (map lsa_bytes ls)"

text \<open>Requests are sent again at once while the databases are being exchanged.\<close>

definition after_update :: "nat \<Rightarrow> ospf6 \<Rightarrow> ospf6 option" where
  "after_update a st =
     do {
       on \<leftarrow> top_nbr st a;
       if on_state on = OSPF6_NEIGHBOR_EXCHANGE \<or> on_state on = OSPF6_NEIGHBOR_LOADING
       then do {
              st \<leftarrow> nbr_thread_off on_thread_send_lsreq on_thread_send_lsreq_update Lsreq_send a st;
              upd_nbr a (\<lambda>x. x\<lparr>on_thread_send_lsreq := True\<rparr>) (emit [Add_event (Lsreq_send a)] st)
            }
       else Some st
     }"

lemma update_fields:
  assumes "length rest = 8" "update_length ls < 2 ^ 16"
  shows "oh_type (update_packet v r rest ls) = Some OSPF6_MESSAGE_TYPE_LSUPDATE" "oh_router_id (update_packet v r rest ls) = Some r"
    "OSPF6_MESSAGE_END (update_packet v r rest ls) = Some (update_length ls)" "get_u32 (update_packet v r rest ls) header_size = Some (word_of_nat (length ls))"
proof -
  let ?p = "[v, OSPF6_MESSAGE_TYPE_LSUPDATE]"
  have p: "length ?p = 2" by simp
  note skip = get_skip [OF p] get_skip [OF length_be(1)] get_skip [OF length_be(2)] get_skip [OF assms(1)]
  show "oh_type (update_packet v r rest ls) = Some OSPF6_MESSAGE_TYPE_LSUPDATE" by (simp add: oh_type_def update_packet_def rd_def)
  show "oh_router_id (update_packet v r rest ls) = Some r" unfolding oh_router_id_def update_packet_def by (simp add: skip del: append.simps)
  show "get_u32 (update_packet v r rest ls) header_size = Some (word_of_nat (length ls))"
    unfolding update_packet_def header_size_def by (simp add: skip del: append.simps)
  show "OSPF6_MESSAGE_END (update_packet v r rest ls) = Some (update_length ls)"
    unfolding OSPF6_MESSAGE_END_def update_packet_def using assms(2) by (simp add: skip unat_of_nat del: append.simps)
qed

text \<open>
  An update packet is understood as it was written: receiving the packet made of LSAs
  whose length fields are right is receiving these LSAs in their order, as often as there are,
  followed by a new request to the neighbour while the databases are being exchanged. The
  other bytes of the OSPF header do not matter.
\<close>

lemma update_roundtrip:
  assumes "list_all sized ls" "length rest = 8" "update_length ls < 2 ^ 16"
    "ospf6_neighbor_lookup router_id oi st = Some (Some a)" "top_nbr st a = Some on"
    "on_state on \<in> {OSPF6_NEIGHBOR_EXCHANGE, OSPF6_NEIGHBOR_LOADING, OSPF6_NEIGHBOR_FULL}"
  shows "ospf6_receive debug now un hostnum (update_packet version router_id rest ls) xid oi st =
    do { st \<leftarrow> receive_all now un hostnum a ls st; after_update a st }"
proof -
  let ?m = "update_packet version router_id rest ls"
  let ?pre = "[version, OSPF6_MESSAGE_TYPE_LSUPDATE] @ be16 (word_of_nat (update_length ls)) @ be32 router_id @ rest @ be32 (word_of_nat (length ls))"
  note f = update_fields [OF assms(2,3), where v = version and r = router_id]
  have pre: "length ?pre = header_size + lsupdate_size" using assms(2) by (simp add: packet_sizes)
  have "length ls \<le> length (concat (map lsa_bytes ls))" by (induction ls) (simp_all add: lsa_header_size_def)
  then have "length ls < 2 ^ 16" using assms(3) by (simp add: update_length_def)
  then have n: "unat (word_of_nat (length ls) :: u32) = length ls" by (simp add: unat_of_nat)
  have e: "update_length ls = length ?pre + length (concat (map lsa_bytes ls))" unfolding pre by (simp add: update_length_def)
  have "?m = ?pre @ concat (map lsa_bytes ls) @ []" by (simp add: update_packet_def)
  then have l: "lsupdate_lsas now un hostnum ?m a (update_length ls) (header_size + lsupdate_size) (length ls) s = receive_all now un hostnum a ls s" for s
    using lsupdate_lsas_all [OF assms(1) e, where post = "[]"] unfolding pre by simp
  have t: "OSPF6_MESSAGE_TYPE_LSUPDATE \<noteq> OSPF6_MESSAGE_TYPE_HELLO" "OSPF6_MESSAGE_TYPE_LSUPDATE \<noteq> OSPF6_MESSAGE_TYPE_DBDESC"
    "OSPF6_MESSAGE_TYPE_LSUPDATE \<noteq> OSPF6_MESSAGE_TYPE_LSREQ" by (simp_all add: message_types)
  show ?thesis using assms(4-6) by (auto simp: ospf6_receive_def ospf6_lsupdate_recv_def after_update_def f t n l)
qed

section \<open>Hello\<close>

text \<open>The packet names the router among the neighbours it has heard of.\<close>

definition names :: "u32 \<Rightarrow> u8 list \<Rightarrow> nat \<Rightarrow> nat \<Rightarrow> bool" where
  "names me m e p \<longleftrightarrow> list_ex (\<lambda>k. p + 4 * k + 4 \<le> e \<and> get_u32 m (p + 4 * k) = Some me) [0..<e]"

lemma names_iff: "names me m e p \<longleftrightarrow> (\<exists>k. p + 4 * k + 4 \<le> e \<and> get_u32 m (p + 4 * k) = Some me)"
  by (force simp: names_def list_ex_iff)

lemma names_step: "names me m e p \<longleftrightarrow> p + 4 \<le> e \<and> (get_u32 m p = Some me \<or> names me m e (p + 4))"
proof -
  have "(\<exists>k. P k) \<longleftrightarrow> P 0 \<or> (\<exists>k. P (Suc k))" for P by (metis nat.exhaust)
  from this [of "\<lambda>k. p + 4 * k + 4 \<le> e \<and> get_u32 m (p + 4 * k) = Some me"] show ?thesis
    unfolding names_iff by (auto simp: algebra_simps)
qed

lemma get_total: "i + 2 \<le> length m \<Longrightarrow> \<exists>w. get_u16 m i = Some w" "i + 4 \<le> length m \<Longrightarrow> \<exists>w. get_u32 m i = Some w"
  by (simp_all add: get_u16_def get_u32_def rd_def)

lemma count_router_total:
  "e \<le> length m \<Longrightarrow> \<exists>c. count_router me m e p n = Some c \<and> (c \<noteq> 0 \<longleftrightarrow> n \<noteq> 0 \<or> names me m e p)"
proof (induction "e - p" arbitrary: p n rule: less_induct)
  case less
  show ?case
  proof (cases "p + 4 \<le> e")
    case True
    with get_total(2) [of p m] less.prems obtain r where r: "get_u32 m p = Some r" by auto
    let ?n = "if r = me then n + 1 else n"
    from True have "e - (p + 4) < e - p" by simp
    from less.hyps [OF this less.prems, of ?n] obtain c where "count_router me m e (p + 4) ?n = Some c" "c \<noteq> 0 \<longleftrightarrow> ?n \<noteq> 0 \<or> names me m e (p + 4)" by blast
    with True r show ?thesis by (subst count_router.simps, subst names_step) auto
  qed (simp add: count_router.simps names_step [of me m e p])
qed

lemma lookup_touches:
  assumes "ospf6_wf st" "ospf6_wf st'" "touches a st st'" "top_nbr st a = Some on" "top_nbr st' a = Some on'" "on_router_id on' = on_router_id on" "top_if st oi = Some ifc"
  shows "ospf6_neighbor_lookup r oi st' = ospf6_neighbor_lookup r oi st"
proof -
  from touches_if2 [OF assms(3,7)] obtain ifc' where i: "top_if st' oi = Some ifc'" "oi_neighbor_list ifc' = oi_neighbor_list ifc" by blast
  have "on_router_id (the (top_nbr st' b)) = on_router_id (the (top_nbr st b))" for b
    using assms(3-6) by (cases "b = a") (auto simp: touches_def)
  then show ?thesis by (simp add: lookup_find [OF assms(1,7)] lookup_find [OF assms(2) i(1)] i(2))
qed

text \<open>A neighbour that is found has the router id, and it is one of the interface.\<close>

lemma lookup_some:
  assumes "ospf6_wf st" "top_if st oi = Some ifc" "ospf6_neighbor_lookup r oi st = Some (Some a)"
  shows "\<exists>on. top_nbr st a = Some on \<and> on_router_id on = r \<and> on_if on = oi"
proof -
  from assms(3) have "find (\<lambda>a. on_router_id (the (top_nbr st a)) = r) (oi_neighbor_list ifc) = Some a" by (simp add: lookup_find [OF assms(1,2)])
  then have "a \<in> set (oi_neighbor_list ifc)" "on_router_id (the (top_nbr st a)) = r" by (auto simp: find_Some_iff)
  with wf_if(3) [OF assms(1,2)] show ?thesis by fastforce
qed

text \<open>The neighbour of a Hello, after it has been looked up or created, on an interface that is
  connected to the controller.\<close>

definition known :: "u32 \<Rightarrow> nat \<Rightarrow> nat \<Rightarrow> ospf6_neighbor \<Rightarrow> ospf6 \<Rightarrow> bool" where
  "known r oi a on st \<longleftrightarrow> ospf6_wf st \<and> (\<exists>ifc. top_if st oi = Some ifc \<and> oi_ctrl_client ifc \<noteq> None) \<and> top_nbr st a = Some on \<and> on_router_id on = r \<and> ospf6_neighbor_lookup r oi st = Some (Some a)"

lemma known_touches:
  assumes "known r oi a on st" "touches a st st'" "top_nbr st' a = Some on'" "on_if on' = on_if on" "on_router_id on' = on_router_id on" "nbr_ok on'"
  shows "known r oi a on' st'"
proof -
  from assms(1) obtain ifc where k: "ospf6_wf st" "top_if st oi = Some ifc" "top_nbr st a = Some on" "oi_ctrl_client ifc \<noteq> None" by (auto simp: known_def)
  have wf: "ospf6_wf st'" using wf_touches [OF k(1,3) assms(2-4,6)] .
  have "map_option oi_ctrl_client (top_if st' oi) = Some (oi_ctrl_client ifc)" using assms(2) k(2) by (simp add: touches_def)
  then have "\<exists>ifc. top_if st' oi = Some ifc \<and> oi_ctrl_client ifc \<noteq> None" using k(4) by auto
  with wf assms(1,3,5) lookup_touches [OF k(1) wf assms(2) k(3) assms(3,5) k(2)] show ?thesis by (simp add: known_def)
qed

lemma known_emit [simp]: "known r oi a on (emit acts st) = known r oi a on st"
proof -
  have "nbr_with_id r as (emit acts st) = nbr_with_id r as st" for as by (induction as) (simp_all cong: if_cong)
  then show ?thesis by (simp add: known_def ospf6_neighbor_lookup_def)
qed

lemma known_ok: "known r oi a on st \<Longrightarrow> nbr_ok on \<and> alive a st on \<and> top_nbr st a = Some on"
  using wf_nbr(1,3) by (auto simp: known_def)

lemma known_linked: "known r oi a on st \<Longrightarrow> linked st on"
  using lookup_some [of st oi _ r a] by (fastforce simp: known_def linked_def)

lemma known_upd:
  assumes "known r oi a on st" "on_state (f on) = on_state on" "on_request_list (f on) = on_request_list on" "on_if (f on) = on_if on" "on_router_id (f on) = on_router_id on"
  shows "\<exists>st'. upd_nbr a f st = Some st' \<and> known r oi a (f on) st' \<and> top_router_id st' = top_router_id st"
proof -
  let ?st = "st\<lparr>top_nbr := (top_nbr st)(a \<mapsto> f on)\<rparr>"
  have "known r oi a (f on) ?st"
    by (rule known_touches [OF assms(1)]) (use assms known_ok [OF assms(1)] in \<open>auto simp: touches_def elim: nbr_okI\<close>)
  then show ?thesis using known_ok [OF assms(1)] by (simp add: upd_cases)
qed

lemma known_event:
  assumes "known r oi a on st" "need_adjacency a st = Some need" "handle now ev a st = Some st'"
  shows "\<exists>on'. known r oi a on' st' \<and> on_state on' = nsm ev need (on_request_list on = []) (on_state on)"
proof -
  from handle_nsm [OF _ assms(2,3)] known_ok [OF assms(1)] obtain on' where n: "touches a st st'" "top_nbr st' a = Some on'" "on_if on' = on_if on"
    "on_router_id on' = on_router_id on" "on_state on' = nsm ev need (on_request_list on = []) (on_state on)" unfolding nsm_result_def by blast
  have "ospf6_wf st'" using handle_wf [OF _ _ assms(3)] assms(1) by (auto simp: known_def)
  from known_touches [OF assms(1) n(1-4) wf_nbr(1) [OF this n(2)]] n(5) show ?thesis by blast
qed

lemma created_known:
  assumes "ospf6_wf st" "top_if st oi = Some ifc" "ospf6_neighbor_lookup r oi st = Some None" "oi_ctrl_client ifc \<noteq> None"
  shows "\<exists>a on st'. ospf6_neighbor_create now r oi st = Some (a, st') \<and> known r oi a on st' \<and> top_router_id st' = top_router_id st"
proof -
  note c = create_exact [OF assms(2), of now r]
  let ?a = "top_brk st" and ?on = "neighbor_zero\<lparr>on_if := oi, on_state := OSPF6_NEIGHBOR_DOWN, on_last_changed := now, on_router_id := r\<rparr>"
  let ?ifc = "ifc\<lparr>oi_neighbor_list := oi_neighbor_list ifc @ [?a]\<rparr>"
  let ?st = "st\<lparr>top_nbr := (top_nbr st)(?a \<mapsto> ?on), top_brk := top_brk st + 1, top_if := (top_if st)(oi \<mapsto> ?ifc)\<rparr>"
  have wf: "ospf6_wf ?st" using create_wf [OF assms(1) c] .
  have i: "top_if ?st oi = Some ?ifc" by simp
  have none: "find (\<lambda>b. on_router_id (the (top_nbr st b)) = r) (oi_neighbor_list ifc) = None" using assms(3) by (simp add: lookup_find [OF assms(1,2)])
  have "b \<noteq> ?a" if "b \<in> set (oi_neighbor_list ifc)" for b using wf_if(3) [OF assms(1,2) that] wf_nbr(2) [OF assms(1), of b] by auto
  then have "find (\<lambda>b. on_router_id (the (top_nbr ?st b)) = r) (oi_neighbor_list ifc) = None" using none by (simp add: find_None_iff)
  then have "ospf6_neighbor_lookup r oi ?st = Some (Some ?a)" unfolding lookup_find [OF wf i] by (simp add: find_skip)
  with wf i assms(4) have "known r oi ?a ?on ?st" by (simp add: known_def)
  with c show ?thesis by (intro exI [of _ ?a] exI [of _ ?on] exI [of _ ?st]) simp
qed

lemma hello_neighbor_known:
  assumes "ospf6_wf st" "top_if st oi = Some ifc" "oh_router_id m = Some r" "header_size + hello_size \<le> length m" "oi_ctrl_client ifc \<noteq> None"
  shows "\<exists>a on s1. hello_neighbor now m oi st = Some (a, s1) \<and> known r oi a on s1 \<and> top_router_id s1 = top_router_id st"
proof (cases "\<exists>a. ospf6_neighbor_lookup r oi st = Some (Some a)")
  case True
  then obtain a where a: "ospf6_neighbor_lookup r oi st = Some (Some a)" by blast
  from lookup_some [OF assms(1,2) a] assms a show ?thesis by (auto simp: hello_neighbor_def known_def)
next
  case False
  then have l: "ospf6_neighbor_lookup r oi st = Some None" using lookup_find [OF assms(1,2), of r] by (cases "ospf6_neighbor_lookup r oi st") auto
  from created_known [OF assms(1,2) l assms(5)] obtain a on st' where c: "ospf6_neighbor_create now r oi st = Some (a, st')" "known r oi a on st'" "top_router_id st' = top_router_id st" by blast
  from get_total(2) [of "header_size + 12" m] get_total(2) [of "header_size + 16" m] assms(4) obtain d b where
    g: "get_u32 m (header_size + 12) = Some d" "get_u32 m (header_size + 16) = Some b" by (auto simp: packet_sizes)
  have p: "rd m (header_size + 4) = Some (m ! (header_size + 4))" using assms(4) by (simp add: rd_def packet_sizes)
  let ?f = "\<lambda>x. x\<lparr>on_prev_drouter := d, on_drouter := d, on_prev_bdrouter := b, on_bdrouter := b, on_priority := m ! (header_size + 4)\<rparr>"
  from known_upd [OF c(2), of ?f] obtain s1 where "upd_nbr a ?f st' = Some s1" "known r oi a (?f on) s1" "top_router_id s1 = top_router_id st'" by auto
  with assms(3) l c g p show ?thesis by (auto simp: hello_neighbor_def)
qed

lemma after_hello_state:
  assumes "nbr_ok on" "s = nsm HelloReceived need1 sy1 (on_state on)" "t = nsm (if named then TwoWayReceived else OneWayReceived) need2 sy2 s"
  shows "if named then OSPF6_NEIGHBOR_TWOWAY \<le> t else t = OSPF6_NEIGHBOR_INIT"
proof -
  have "on_state on \<in> {OSPF6_NEIGHBOR_DOWN, OSPF6_NEIGHBOR_INIT} \<or> on_state on \<in> {OSPF6_NEIGHBOR_TWOWAY, OSPF6_NEIGHBOR_EXSTART, OSPF6_NEIGHBOR_EXCHANGE,
      OSPF6_NEIGHBOR_LOADING, OSPF6_NEIGHBOR_FULL}" using assms(1) by (auto simp: nbr_ok_def)
  then show ?thesis using assms(2,3) by (auto simp: neighbor_states split: if_splits)
qed

text \<open>
  C37. Whoever says Hello becomes a neighbour. On an interface that is connected to the
  controller (its \<open>ctrl_client\<close>, which is read when a neighbour leaves Full, is not null), a
  Hello packet with the interval of the interface, whose length field does not exceed the
  bytes received, is handled without failure. Afterwards a lookup of its sender on the
  interface finds a neighbour, the same one as before if there was one, and this neighbour
  is in state TwoWay or beyond exactly if the packet names this router, and in state Init
  otherwise.
\<close>

theorem hello_makes_neighbor:
  assumes "ospf6_wf st" "top_if st oi = Some ifc" "oh_type m = Some OSPF6_MESSAGE_TYPE_HELLO" "oh_router_id m = Some r"
    "OSPF6_MESSAGE_END m = Some e" "e \<le> length m" "header_size + hello_size \<le> length m" "get_u16 m (header_size + 8) = Some (oi_hello_interval ifc)"
    "oi_ctrl_client ifc \<noteq> None"
  shows "\<exists>st' a on. ospf6_receive debug now un hostnum m xid oi st = Some st' \<and> ospf6_neighbor_lookup r oi st' = Some (Some a)
    \<and> (\<forall>b. ospf6_neighbor_lookup r oi st = Some (Some b) \<longrightarrow> a = b) \<and> top_nbr st' a = Some on
    \<and> (if names (top_router_id st) m e (header_size + hello_size) then OSPF6_NEIGHBOR_TWOWAY \<le> on_state on else on_state on = OSPF6_NEIGHBOR_INIT)"
proof -
  from hello_neighbor_known [OF assms(1,2,4,7,9)] obtain a on s1 where s1: "hello_neighbor now m oi st = Some (a, s1)" "known r oi a on s1" "top_router_id s1 = top_router_id st" by blast
  have same: "a = b" if "ospf6_neighbor_lookup r oi st = Some (Some b)" for b using s1(1) that assms(4) by (simp add: hello_neighbor_def)
  from get_total(2) [of header_size m] get_total(2) [of "header_size + 12" m] get_total(2) [of "header_size + 16" m] assms(7) obtain x d b where
    g: "get_u32 m header_size = Some x" "get_u32 m (header_size + 12) = Some d" "get_u32 m (header_size + 16) = Some b" by (auto simp: packet_sizes)
  have p: "rd m (header_size + 4) = Some (m ! (header_size + 4))" (is "_ = Some ?p") using assms(7) by (simp add: rd_def packet_sizes)
  let ?f = "\<lambda>y. y\<lparr>on_ifindex := x\<rparr>" and ?g = "\<lambda>y. snd (hello_changes ?p d b y)"
  from known_upd [OF s1(2), of ?f] s1(3) obtain s2 where s2: "upd_nbr a ?f s1 = Some s2" "known r oi a (?f on) s2" "top_router_id s2 = top_router_id st" by auto
  from count_router_total [OF assms(6), of "top_router_id st" "header_size + hello_size" 0] obtain c where
    c: "count_router (top_router_id st) m e (header_size + hello_size) 0 = Some c" "c \<noteq> 0 \<longleftrightarrow> names (top_router_id st) m e (header_size + hello_size)" by auto
  let ?s2 = "if checkpoints s2 then emit [Db_put_hello m xid] s2 else s2"
  have k2: "known r oi a (?f on) ?s2" using s2(2) by simp
  from known_upd [OF k2, of ?g] obtain s3 where s3: "upd_nbr a ?g ?s2 = Some s3" "known r oi a (?g (?f on)) s3" by (auto simp: changes_keep)
  note o3 = known_ok [OF s3(2)]
  have al3: "alive a s3 (?g (?f on))" using o3 by blast
  from handle_total [OF al3 known_linked [OF s3(2)], of HelloReceived now] need_adjacency_alive [OF al3] obtain s4 need3 where
    s4: "hello_received a s3 = Some s4" "need_adjacency a s3 = Some need3" by auto
  from known_event [OF s3(2) s4(2), where ev = HelloReceived] s4(1) obtain on4 where
    on4: "known r oi a on4 s4" "on_state on4 = nsm HelloReceived need3 (on_request_list (?g (?f on)) = []) (on_state (?g (?f on)))" by auto
  let ?ev = "if c \<noteq> 0 then TwoWayReceived else OneWayReceived"
  from need_adjacency_alive [of a s4] known_ok [OF on4(1)] obtain need4 where n4: "need_adjacency a s4 = Some need4" by blast
  have al4: "alive a s4 on4" using known_ok [OF on4(1)] by blast
  have "\<exists>s5. handle now ?ev a s4 = Some s5" using handle_total [OF al4 known_linked [OF on4(1)], of ?ev now] by (auto split: if_splits)
  then obtain s5 where s5: "handle now ?ev a s4 = Some s5" by blast
  from known_event [OF on4(1) n4 s5] obtain on5 where on5: "known r oi a on5 s5" "on_state on5 = nsm ?ev need4 (on_request_list on4 = []) (on_state on4)" by blast
  let ?s6 = "if fst (hello_changes ?p d b (?f on)) \<noteq> 0 then emit [Add_event (Neighbor_change oi)] s5 else s5"
  have h: "(if c \<noteq> 0 then twoway_received a s4 else oneway_received a s4) = Some s5" using s5 by (cases "c \<noteq> 0") simp_all
  have t: "top_nbr ?s2 a = Some (?f on)" using known_ok [OF k2] by simp
  have "ospf6_hello_recv now m oi xid st = Some (send_ack xid ?s6)"
    unfolding ospf6_hello_recv_def Let_def using assms(2,5,8) by (simp only: s1(1) s2(1,3) g p c(1) t s3(1) s4(1) h bind.bind_lunit option.simps prod.case simp_thms if_False)
  then have R: "ospf6_receive debug now un hostnum m xid oi st = Some (send_ack xid ?s6)" using assms(3) by (simp add: ospf6_receive_def)
  have k6: "known r oi a on5 (send_ack xid ?s6)" using on5(1) by (simp add: send_ack_def)
  have "if c \<noteq> 0 then OSPF6_NEIGHBOR_TWOWAY \<le> on_state on5 else on_state on5 = OSPF6_NEIGHBOR_INIT"
    by (rule after_hello_state [OF _ on4(2) on5(2)]) (use o3 in blast)
  with R k6 same c(2) show ?thesis by (intro exI [of _ "send_ack xid ?s6"] exI [of _ a] exI [of _ on5]) (simp add: known_def)
qed

lemma example_adjacent_wf: "ospf6_wf example_adjacent"
  unfolding ospf6_wf_def
proof (intro conjI allI impI)
  fix a on
  assume "top_nbr example_adjacent a = Some on"
  then have "(a = 1 \<or> a = 2) \<and> on_state on = OSPF6_NEIGHBOR_FULL \<and> on_if on = 0 \<and> on_request_list on = []"
    by (auto simp: example_adjacent_def example_nbr_def neighbor_zero_def split: if_splits)
  then show "nbr_ok on" "a < top_brk example_adjacent" "\<exists>oi. top_if example_adjacent (on_if on) = Some oi \<and> a \<in> set (oi_neighbor_list oi)"
    by (auto simp: nbr_ok_def example_adjacent_def example_ospf6_def)
next
  fix i oi
  assume "top_if example_adjacent i = Some oi"
  then have "i = 0" "oi_neighbor_list oi = [1, 2]" "oi_area oi = 0" by (auto simp: example_adjacent_def ospf6_interface_create_def split: if_splits)
  then show "distinct (oi_neighbor_list oi)" "top_area example_adjacent (oi_area oi) \<noteq> None"
    "\<forall>a\<in>set (oi_neighbor_list oi). \<exists>on. top_nbr example_adjacent a = Some on \<and> on_if on = i"
    by (simp_all add: example_adjacent_def example_ospf6_def example_nbr_def)
qed

text \<open>A Hello of router 40 that names router 10.\<close>

definition example_hello :: "u8 list" where
  "example_hello = [3, 1, 0, 40, 0, 0, 0, 40, 0, 0, 0, 0, 0, 0, 0, 0, 0, 0, 0, 5, 1, 0, 0, 19, 0, 10, 0, 40, 0, 0, 0, 0, 0, 0, 0, 0, 0, 0, 0, 10]"

theorem hello_makes_neighbor_witness:
  "\<exists>st' a on. ospf6_receive False timeval_zero zeroed 0 example_hello 1 0 example_adjacent = Some st'
    \<and> ospf6_neighbor_lookup 40 0 st' = Some (Some a) \<and> top_nbr st' a = Some on \<and> OSPF6_NEIGHBOR_TWOWAY \<le> on_state on"
proof -
  let ?ifc = "(ospf6_interface_create 0 True False True)\<lparr>oi_neighbor_list := [1, 2], oi_state := OSPF6_INTERFACE_DROTHER, oi_ctrl_client := Some 0\<rparr>"
  have i: "top_if example_adjacent 0 = Some ?ifc" by (simp add: example_adjacent_def)
  have p: "oh_type example_hello = Some OSPF6_MESSAGE_TYPE_HELLO" "oh_router_id example_hello = Some 40" "OSPF6_MESSAGE_END example_hello = Some 40"
    "40 \<le> length example_hello" "header_size + hello_size \<le> length example_hello" "get_u16 example_hello (header_size + 8) = Some (oi_hello_interval ?ifc)"
    by code_simp+
  have "names (top_router_id example_adjacent) example_hello 40 (header_size + hello_size)" by code_simp
  have l: "oi_ctrl_client ?ifc \<noteq> None" by simp
  from \<open>names (top_router_id example_adjacent) example_hello 40 (header_size + hello_size)\<close>
    hello_makes_neighbor [OF example_adjacent_wf i p l, where debug = False and now = timeval_zero and un = zeroed and hostnum = 0 and xid = 1] show ?thesis by auto
qed

section \<open>Database description\<close>

lemma headeronly_maxage:
  "fst (OSPF6_LSA_IS_MAXAGE now (snd (ospf6_lsa_age_current now l))) = fst (OSPF6_LSA_IS_MAXAGE now l)"
  by (simp add: OSPF6_LSA_IS_MAXAGE_def split_beta age_current_again)

text \<open>
  C39. A description packet that lists an LSA twice makes the process read outside of its
  memory. Whenever an LSA of area scope is not requested yet, its header in the packet puts it
  on the request list; the same header once more compares the bodies of the two entries,
  which consist of headers only.
\<close>

theorem dbdesc_lists_twice:
  assumes "top_nbr st a = Some on" "OSPF6_LSA_SCOPE (lh_type h) = OSPF6_SCOPE_AREA" "lsa_header_size < unat (lh_length h)"
    "store_lookup (lh_type h) (lh_id h) (lh_adv_router h) (on_request_list on) = None"
  shows "\<exists>st1. dbdesc_header now a h st = Some st1 \<and> dbdesc_header now a h st1 = None"
proof -
  let ?his = "ospf6_lsa_create_headeronly now h"
  let ?put = "snd (ospf6_lsa_age_current now ?his)"
  have hdr: "lsa_header ?his = h" "lsa_body ?his = []" by (simp_all add: ospf6_lsa_create_headeronly_def ospf6_lsa_age_set_def lsa_zero_def)
  obtain g where g: "?put = set_age g ?his" using age_current_sets by metis
  have sc: "lsa_scope ?his = OSPF6_SCOPE_AREA" "OSPF6_SCOPE_AREA \<noteq> OSPF6_SCOPE_LINKLOCAL" using assms(2) by (simp_all add: lsa_scope_def hdr OSPF6_SCOPE_AREA_def OSPF6_SCOPE_LINKLOCAL_def)
  let ?R = "store_put ?put (on_request_list on)"
  let ?st = "st\<lparr>top_nbr := (top_nbr st)(a \<mapsto> on\<lparr>on_request_list := ?R\<rparr>)\<rparr>"
  have "store_find ?his (on_request_list on) = None" using assms(4) by (simp add: store_find_def hdr)
  then have "\<exists>hooks. store_add now ?his (on_request_list on) = Some (hooks, ?R)" by (auto simp: store_add_def store_hooks_def OSPF6_LSA_IS_MAXAGE_def split_beta Let_def)
  then have one: "dbdesc_header now a h st = Some ?st"
    using assms(1) sc by (auto simp: dbdesc_header_def dbdesc_lsdb_def Let_def request_lsa_def upd_cases)
  have "store_find ?his ?R = Some ?put" using find_put [of ?put "on_request_list on"] core_find [of ?put ?his] by (simp add: g)
  moreover have "ospf6_lsa_is_changed now ?put ?his = None"
    using assms(3) headeronly_maxage [of now ?his] unfolding ospf6_lsa_is_changed_def
    by (simp add: split_beta Let_def bodies_differ_def OSPF6_LSA_IS_MAXAGE_def g) (simp add: hdr set_age_def)
  ultimately have "store_add now ?his ?R = None" by (simp add: store_add_def store_hooks_def)
  then have "dbdesc_header now a h ?st = None" using sc by (simp add: dbdesc_header_def dbdesc_lsdb_def Let_def request_lsa_def)
  with one show ?thesis by blast
qed

theorem dbdesc_lists_twice_witness:
  "\<exists>st1. dbdesc_header timeval_zero 1 example_header example_ospf6 = Some st1 \<and> dbdesc_header timeval_zero 1 example_header st1 = None"
proof (rule dbdesc_lists_twice)
  show "top_nbr example_ospf6 1 = Some ((example_nbr 0 20 OSPF6_NEIGHBOR_TWOWAY)\<lparr>on_drouter := 20\<rparr>)" by (simp add: example_ospf6_def)
qed (simp_all add: example_header_def OSPF6_LSA_SCOPE_def OSPF6_SCOPE_AREA_def lsa_header_size_def example_nbr_def neighbor_zero_def store_lookup_def)

end
