(* ===== verification/Ospf6_Send_Props.thy ===== *)
theory Ospf6_Send_Props
  imports Ospf6_Message_Props
begin

text \<open>
  What is sent is what is received: the packets of the senders, read by the handlers of
  another router.
\<close>

section \<open>LSAs in a packet\<close>



lemma complete_set_age [simp]: "complete_lsa (set_age g l) = complete_lsa l"
  by (simp add: complete_lsa_def set_age_def)

lemma age_to_send: "\<exists>g. ospf6_lsa_age_update_to_send now delay l = set_age g l"
  using age_current_sets [of now l] by (auto simp: ospf6_lsa_age_update_to_send_def split_beta Let_def)

lemma complete_to_send [simp]: "complete_lsa (ospf6_lsa_age_update_to_send now delay l) = complete_lsa l"
  using age_to_send [of now delay l] by auto




text \<open>The packing stops at the end of the list, or before an LSA that is over the MTU.\<close>

definition stops :: "(nat \<Rightarrow> int) \<Rightarrow> u32 \<Rightarrow> u8 list \<Rightarrow> ospf6_lsa list \<Rightarrow> bool" where
  "stops d mtu body ls \<longleftrightarrow>
     (case ls of [] \<Rightarrow> True
      | l # _ \<Rightarrow> over_signed (d (length body)) (header_size + lsupdate_size + length body) (unat (lh_length (lsa_header l))) mtu)"

lemma stops_simps [simp]:
  "stops d mtu body []"
  "stops d mtu body (l # ls) = over_signed (d (length body)) (header_size + lsupdate_size + length body) (unat (lh_length (lsa_header l))) mtu"
  by (simp_all add: stops_def)



section \<open>Updates\<close>









end
