(* ===== verification/Ospf6_Route.thy ===== *)
theory Ospf6_Route
  imports Ospf6_Data
begin

text \<open>
  Route tables, \<open>ospf6-sibling/ospf6_route.c\<close>. Like the databases of this part of the
  development, a table is the sequence of its routes: the order of the links between the routes,
  which is the order of the nodes of the tree and, for one node, the order of preference. A
  pointer to a route of a table is its position in this sequence. The node for a prefix is
  found by the bits of the prefix; the node points to the first of its routes. The references
  that are held while a table is walked are not modelled, nor is the check of the links
  for debugging. Prefixes are taken to have no bits set behind their length: the routes of a
  node then have the same prefix, as the search for the last one of them relies on.
\<close>

section \<open>Data\<close>

definition OSPF6_MULTI_PATH_LIMIT :: nat where "OSPF6_MULTI_PATH_LIMIT = 4"

record ospf6_nexthop =
  nh_ifindex :: u32
  nh_address :: "u8 list"

definition IN6_IS_ADDR_UNSPECIFIED :: "u8 list \<Rightarrow> bool" where
  "IN6_IS_ADDR_UNSPECIFIED a \<longleftrightarrow> a = replicate 16 0"

definition ospf6_nexthop_is_set :: "ospf6_nexthop \<Rightarrow> bool" where
  "ospf6_nexthop_is_set x \<longleftrightarrow> nh_ifindex x \<noteq> 0 \<or> \<not> IN6_IS_ADDR_UNSPECIFIED (nh_address x)"

definition ospf6_nexthop_is_same :: "ospf6_nexthop \<Rightarrow> ospf6_nexthop \<Rightarrow> bool" where
  "ospf6_nexthop_is_same a b \<longleftrightarrow> nh_ifindex a = nh_ifindex b \<and> nh_address a = nh_address b"

definition ospf6_nexthop_clear :: ospf6_nexthop where
  "ospf6_nexthop_clear = \<lparr>nh_ifindex = 0, nh_address = replicate 16 0\<rparr>"

record ospf6_ls_origin =
  or_type :: u16
  or_id :: u32
  or_adv_router :: u32

record ospf6_path =
  pa_origin :: ospf6_ls_origin
  pa_router_bits :: u8
  pa_prefix_options :: u8
  pa_options :: "u8 list"
  pa_area_id :: u32
  pa_type :: u8
  pa_metric_type :: u8
  pa_cost :: u32
  pa_cost_e2 :: u32

definition OSPF6_PATH_TYPE_NONE :: u8 where "OSPF6_PATH_TYPE_NONE = 0"
definition OSPF6_PATH_TYPE_INTRA :: u8 where "OSPF6_PATH_TYPE_INTRA = 1"
definition OSPF6_PATH_TYPE_EXTERNAL2 :: u8 where "OSPF6_PATH_TYPE_EXTERNAL2 = 4"
definition OSPF6_PATH_TYPE_MAX :: u8 where "OSPF6_PATH_TYPE_MAX = 6"

definition OSPF6_DEST_TYPE_LINKSTATE :: u8 where "OSPF6_DEST_TYPE_LINKSTATE = 4"

definition OSPF6_ROUTE_CHANGE :: u8 where "OSPF6_ROUTE_CHANGE = 0x01"
definition OSPF6_ROUTE_ADD :: u8 where "OSPF6_ROUTE_ADD = 0x02"
definition OSPF6_ROUTE_BEST :: u8 where "OSPF6_ROUTE_BEST = 0x08"
definition OSPF6_ROUTE_WAS_REMOVED :: u8 where "OSPF6_ROUTE_WAS_REMOVED = 0x40"

record ospf6_route =
  ro_type :: u8
  ro_prefix :: prefix
  ro_installed :: timeval
  ro_changed :: timeval
  ro_flag :: u8
  ro_path :: ospf6_path
  ro_nexthop :: "ospf6_nexthop list"
  ro_route_option :: "nat option"
  ro_linkstate_id :: u32
  ro_hostnum :: u32

datatype route_hook = Route_added ospf6_route | Route_removed ospf6_route

record ospf6_route_table =
  tb_scope_type :: int
  tb_table_type :: int
  tb_routes :: "ospf6_route list"
  tb_count :: u32
  tb_hook_add :: bool
  tb_hook_remove :: bool

definition ospf6_route_table_create :: "int \<Rightarrow> int \<Rightarrow> ospf6_route_table" where
  "ospf6_route_table_create s t = \<lparr>tb_scope_type = s, tb_table_type = t, tb_routes = [], tb_count = 0,
     tb_hook_add = False, tb_hook_remove = False\<rparr>"

definition ospf6_route_create :: ospf6_route where
  "ospf6_route_create =
     \<lparr>ro_type = 0, ro_prefix = prefix_new, ro_installed = timeval_zero, ro_changed = timeval_zero, ro_flag = 0,
      ro_path = \<lparr>pa_origin = \<lparr>or_type = 0, or_id = 0, or_adv_router = 0\<rparr>, pa_router_bits = 0, pa_prefix_options = 0,
        pa_options = [0, 0, 0], pa_area_id = 0, pa_type = 0, pa_metric_type = 0, pa_cost = 0, pa_cost_e2 = 0\<rparr>,
      ro_nexthop = replicate OSPF6_MULTI_PATH_LIMIT ospf6_nexthop_clear, ro_route_option = None, ro_linkstate_id = 0, ro_hostnum = 0\<rparr>"

text \<open>The prefix under which a vertex of the shortest path tree is filed.\<close>

definition ospf6_linkstate_prefix :: "u32 \<Rightarrow> u32 \<Rightarrow> prefix" where
  "ospf6_linkstate_prefix adv_router lsid =
     \<lparr>pfx_family = AF_INET6, pfx_prefixlen = 64, pfx_u = be32 adv_router @ be32 lsid @ replicate 8 0\<rparr>"

section \<open>Comparison\<close>

definition ospf6_route_is_same :: "ospf6_route \<Rightarrow> ospf6_route \<Rightarrow> bool option" where
  "ospf6_route_is_same ra rb = do { s \<leftarrow> prefix_same (ro_prefix ra) (ro_prefix rb); Some (s \<noteq> 0) }"

definition ospf6_route_is_same_origin :: "ospf6_route \<Rightarrow> ospf6_route \<Rightarrow> bool" where
  "ospf6_route_is_same_origin ra rb \<longleftrightarrow> pa_origin (ro_path ra) = pa_origin (ro_path rb)"

definition ospf6_route_is_identical :: "ospf6_route \<Rightarrow> ospf6_route \<Rightarrow> bool" where
  "ospf6_route_is_identical ra rb \<longleftrightarrow> ro_type ra = ro_type rb \<and> ro_prefix ra = ro_prefix rb
     \<and> ro_path ra = ro_path rb \<and> ro_nexthop ra = ro_nexthop rb"

definition path_type_ok :: "ospf6_route \<Rightarrow> bool" where
  "path_type_ok r \<longleftrightarrow> OSPF6_PATH_TYPE_NONE < pa_type (ro_path r) \<and> pa_type (ro_path r) < OSPF6_PATH_TYPE_MAX"

text \<open>Costs are unsigned; their difference becomes the signed result.\<close>

definition ospf6_route_cmp :: "ospf6_route \<Rightarrow> ospf6_route \<Rightarrow> int option" where
  "ospf6_route_cmp ra rb =
     do {
       same \<leftarrow> ospf6_route_is_same ra rb;
       if \<not> same \<or> \<not> path_type_ok ra \<or> \<not> path_type_ok rb then None
       else if ro_type ra \<noteq> ro_type rb then Some (uint (ro_type ra) - uint (ro_type rb))
       else if pa_type (ro_path ra) \<noteq> pa_type (ro_path rb) then Some (uint (pa_type (ro_path ra)) - uint (pa_type (ro_path rb)))
       else if pa_type (ro_path ra) = OSPF6_PATH_TYPE_EXTERNAL2
       then Some (sint (pa_cost_e2 (ro_path ra) - pa_cost_e2 (ro_path rb)))
       else Some (sint (pa_cost (ro_path ra) - pa_cost (ro_path rb)))
     }"

section \<open>Lookup\<close>

fun position :: "('a \<Rightarrow> bool) \<Rightarrow> 'a list \<Rightarrow> nat option" where
  "position P [] = None" |
  "position P (x # xs) = (if P x then Some 0 else map_option Suc (position P xs))"

definition route_bits :: "ospf6_route \<Rightarrow> bool list" where
  "route_bits r = prefix_bits (ro_prefix r)"

definition ospf6_route_lookup :: "prefix \<Rightarrow> ospf6_route_table \<Rightarrow> nat option" where
  "ospf6_route_lookup p table = position (\<lambda>r. route_bits r = prefix_bits p) (tb_routes table)"

text \<open>From the first route of the node on along the links, also over those of later nodes.\<close>

definition ospf6_route_lookup_identical :: "ospf6_route \<Rightarrow> ospf6_route_table \<Rightarrow> nat option" where
  "ospf6_route_lookup_identical route table =
     (case ospf6_route_lookup (ro_prefix route) table of None \<Rightarrow> None
      | Some i \<Rightarrow> map_option (\<lambda>j. i + j) (position (\<lambda>r. ospf6_route_is_identical r route) (drop i (tb_routes table))))"

section \<open>Insertion\<close>

text \<open>The place of a route among those from the first of its node on: an instance of the same
  origin, which it replaces, or the position it is inserted at.\<close>

datatype place = Old nat | Insert nat

fun find_place :: "ospf6_route \<Rightarrow> ospf6_route list \<Rightarrow> nat \<Rightarrow> place option" where
  "find_place route [] i = Some (Insert i)" |
  "find_place route (current # rs) i =
     do {
       same \<leftarrow> ospf6_route_is_same current route;
       if \<not> same then Some (Insert i)
       else if ro_type current \<noteq> ro_type route then find_place route rs (i + 1)
       else if ospf6_route_is_same_origin current route then Some (Old i)
       else do {
              c \<leftarrow> ospf6_route_cmp current route;
              if c > 0 then Some (Insert i) else find_place route rs (i + 1)
            }
     }"

definition route_flag_set :: "u8 \<Rightarrow> ospf6_route \<Rightarrow> ospf6_route" where
  "route_flag_set f r = r\<lparr>ro_flag := ro_flag r OR f\<rparr>"

definition route_flag_unset :: "u8 \<Rightarrow> ospf6_route \<Rightarrow> ospf6_route" where
  "route_flag_unset f r = r\<lparr>ro_flag := ro_flag r AND NOT f\<rparr>"

definition call_hook_add :: "ospf6_route_table \<Rightarrow> ospf6_route \<Rightarrow> route_hook list" where
  "call_hook_add table r = (if tb_hook_add table then [Route_added r] else [])"

text \<open>The result is the position of the route and the calls of the hook.\<close>

definition replace_route :: "timeval \<Rightarrow> ospf6_route \<Rightarrow> nat \<Rightarrow> nat \<Rightarrow> ospf6_route_table \<Rightarrow> (nat \<times> ospf6_route_table \<times> route_hook list) option" where
  "replace_route now route node i table =
     do {
       old \<leftarrow> rd (tb_routes table) i;
       if ospf6_route_is_identical old route
       then Some (i, table\<lparr>tb_routes := (tb_routes table)[i := route_flag_set OSPF6_ROUTE_ADD old]\<rparr>, [])
       else let route = (if i = node then route_flag_set OSPF6_ROUTE_BEST route else route);
                route = route_flag_set OSPF6_ROUTE_CHANGE (route\<lparr>ro_installed := ro_installed old, ro_changed := now\<rparr>)
            in Some (i, table\<lparr>tb_routes := (tb_routes table)[i := route]\<rparr>, call_hook_add table route)
     }"

definition insert_route :: "timeval \<Rightarrow> ospf6_route \<Rightarrow> nat \<Rightarrow> nat \<Rightarrow> ospf6_route_table \<Rightarrow> nat \<times> ospf6_route_table \<times> route_hook list" where
  "insert_route now route node i table =
     (let rs = tb_routes table;
          rest = (if i = node then (case drop i rs of [] \<Rightarrow> [] | r # rs \<Rightarrow> route_flag_unset OSPF6_ROUTE_BEST r # rs) else drop i rs);
          route = (if i = node then route_flag_set OSPF6_ROUTE_BEST route else route);
          route = route_flag_set OSPF6_ROUTE_ADD (route\<lparr>ro_installed := now, ro_changed := now\<rparr>)
      in (i, table\<lparr>tb_routes := take i rs @ route # rest, tb_count := tb_count table + 1\<rparr>, call_hook_add table route))"

text \<open>A route for a new prefix goes between the routes of the nodes before and after its own.\<close>

definition new_route :: "timeval \<Rightarrow> ospf6_route \<Rightarrow> ospf6_route_table \<Rightarrow> nat \<times> ospf6_route_table \<times> route_hook list" where
  "new_route now route table =
     (let smaller = takeWhile (\<lambda>r. bits_less (route_bits r) (route_bits route)) (tb_routes table);
          larger = dropWhile (\<lambda>r. bits_less (route_bits r) (route_bits route)) (tb_routes table);
          route = route_flag_set OSPF6_ROUTE_ADD ((route_flag_set OSPF6_ROUTE_BEST route)\<lparr>ro_installed := now, ro_changed := now\<rparr>)
      in (length smaller, table\<lparr>tb_routes := smaller @ route # larger, tb_count := tb_count table + 1\<rparr>, call_hook_add table route))"

definition ospf6_route_add :: "timeval \<Rightarrow> ospf6_route \<Rightarrow> ospf6_route_table \<Rightarrow> (nat \<times> ospf6_route_table \<times> route_hook list) option" where
  "ospf6_route_add now route table =
     (case ospf6_route_lookup (ro_prefix route) table of
        Some node \<Rightarrow>
          do {
            place \<leftarrow> find_place route (drop node (tb_routes table)) node;
            (case place of
               Old i \<Rightarrow> replace_route now route node i table
             | Insert i \<Rightarrow> Some (insert_route now route node i table))
          }
      | None \<Rightarrow> Some (new_route now route table))"

section \<open>Removal\<close>

text \<open>The route must be reached from the first one of its node over routes for its prefix.\<close>

fun all_same :: "ospf6_route \<Rightarrow> ospf6_route list \<Rightarrow> bool option" where
  "all_same route [] = Some True" |
  "all_same route (current # rs) = do { same \<leftarrow> ospf6_route_is_same current route; if same then all_same route rs else Some False }"

definition ospf6_route_remove :: "nat \<Rightarrow> ospf6_route_table \<Rightarrow> (ospf6_route_table \<times> route_hook list) option" where
  "ospf6_route_remove i table =
     do {
       route \<leftarrow> rd (tb_routes table) i;
       node \<leftarrow> ospf6_route_lookup (ro_prefix route) table;
       reached \<leftarrow> all_same route (take (i - node) (drop node (tb_routes table)));
       if \<not> reached then None else do {
       rest \<leftarrow> (case drop (i + 1) (tb_routes table) of
                  [] \<Rightarrow> Some []
                | r # rs \<Rightarrow>
                    do {
                      same \<leftarrow> ospf6_route_is_same r route;
                      Some ((if node = i \<and> same then route_flag_set OSPF6_ROUTE_BEST r else r) # rs)
                    });
       let table = table\<lparr>tb_routes := take i (tb_routes table) @ rest, tb_count := tb_count table - 1\<rparr>;
       Some (table, if tb_hook_remove table then [Route_removed (route_flag_set OSPF6_ROUTE_WAS_REMOVED route)] else [])
     }}"

fun remove_each :: "nat \<Rightarrow> ospf6_route_table \<Rightarrow> (ospf6_route_table \<times> route_hook list) option" where
  "remove_each 0 table = Some (table, [])" |
  "remove_each (Suc n) table =
     do { (table, h) \<leftarrow> ospf6_route_remove 0 table; (table, hs) \<leftarrow> remove_each n table; Some (table, h @ hs) }"

definition ospf6_route_remove_all :: "ospf6_route_table \<Rightarrow> (ospf6_route_table \<times> route_hook list) option" where
  "ospf6_route_remove_all table = remove_each (length (tb_routes table)) table"

end
