(* ===== verification/Ospf6_Spf.thy ===== *)
theory Ospf6_Spf
  imports Ospf6_Route Ospf6_Message Lib_PQueue
begin

text \<open>
  The calculation of the shortest path tree of an area, \<open>ospf6-sibling/ospf6_spf.c\<close>, on
  the link state database of the area.

  The candidates are the vertices in the priority queue; nothing else points to them. A vertex
  that is installed gets an address, which its route, its parent and its children refer to by.
  Links of LSAs are read from their bytes; a read behind the end of an LSA is an
  error. The names of vertices, which are only printed, are left out. Allocation of
  memory succeeds.
\<close>

section \<open>Vertices\<close>

record ospf6_vertex =
  vx_type :: u8
  vx_vertex_id :: prefix
  vx_lsa :: ospf6_lsa
  vx_cost :: u32
  vx_hops :: u8
  vx_nexthop :: "ospf6_nexthop list"
  vx_capability :: u8
  vx_options :: "u8 list"
  vx_parent :: "nat option"
  vx_child_list :: "nat list"

definition OSPF6_VERTEX_TYPE_ROUTER :: u8 where "OSPF6_VERTEX_TYPE_ROUTER = 0x01"
definition OSPF6_VERTEX_TYPE_NETWORK :: u8 where "OSPF6_VERTEX_TYPE_NETWORK = 0x02"

definition is_router :: "ospf6_vertex \<Rightarrow> bool" where
  "is_router v \<longleftrightarrow> vx_type v = OSPF6_VERTEX_TYPE_ROUTER"

definition is_network :: "ospf6_vertex \<Rightarrow> bool" where
  "is_network v \<longleftrightarrow> vx_type v = OSPF6_VERTEX_TYPE_NETWORK"

definition adv_router_of :: "ospf6_lsa \<Rightarrow> u32" where "adv_router_of l = lh_adv_router (lsa_header l)"
definition id_of :: "ospf6_lsa \<Rightarrow> u32" where "id_of l = lh_id (lsa_header l)"
definition type_of :: "ospf6_lsa \<Rightarrow> u16" where "type_of l = lh_type (lsa_header l)"

definition ospf6_vertex_cmp :: "ospf6_vertex \<Rightarrow> ospf6_vertex \<Rightarrow> int" where
  "ospf6_vertex_cmp va vb =
     (if vx_cost va \<noteq> vx_cost vb then sint (vx_cost va - vx_cost vb) else uint (vx_hops va) - uint (vx_hops vb))"

definition ospf6_vertex_id_cmp :: "ospf6_vertex \<Rightarrow> ospf6_vertex \<Rightarrow> int option" where
  "ospf6_vertex_id_cmp va vb =
     do {
       ra \<leftarrow> get_u32 (pfx_u (vx_vertex_id va)) 0;
       rb \<leftarrow> get_u32 (pfx_u (vx_vertex_id vb)) 0;
       if sint (ra - rb) \<noteq> 0 then Some (sint (ra - rb))
       else do {
              ia \<leftarrow> get_u32 (pfx_u (vx_vertex_id va)) 4;
              ib \<leftarrow> get_u32 (pfx_u (vx_vertex_id vb)) 4;
              Some (sint (ia - ib))
            }
     }"

definition ospf6_vertex_create :: "ospf6_lsa \<Rightarrow> ospf6_vertex option" where
  "ospf6_vertex_create lsa =
     do {
       type \<leftarrow> (if type_of lsa = OSPF6_LSTYPE_ROUTER then Some OSPF6_VERTEX_TYPE_ROUTER
                else if type_of lsa = OSPF6_LSTYPE_NETWORK then Some OSPF6_VERTEX_TYPE_NETWORK else None);
       capability \<leftarrow> rd (lsa_body lsa) 0;
       o0 \<leftarrow> rd (lsa_body lsa) 1;
       o1 \<leftarrow> rd (lsa_body lsa) 2;
       o2 \<leftarrow> rd (lsa_body lsa) 3;
       Some \<lparr>vx_type = type, vx_vertex_id = ospf6_linkstate_prefix (adv_router_of lsa) (id_of lsa), vx_lsa = lsa,
         vx_cost = 0, vx_hops = 0, vx_nexthop = replicate OSPF6_MULTI_PATH_LIMIT ospf6_nexthop_clear,
         vx_capability = capability, vx_options = [o0, o1, o2], vx_parent = None, vx_child_list = []\<rparr>
     }"

section \<open>Links\<close>

text \<open>A link description is a position in the body of an LSA.\<close>

definition OSPF6_ROUTER_LSDESC_POINTTOPOINT :: u8 where "OSPF6_ROUTER_LSDESC_POINTTOPOINT = 1"
definition OSPF6_ROUTER_LSDESC_TRANSIT_NETWORK :: u8 where "OSPF6_ROUTER_LSDESC_TRANSIT_NETWORK = 2"

definition router_lsdesc_size :: nat where "router_lsdesc_size = 16"
definition network_lsdesc_size :: nat where "network_lsdesc_size = 4"

definition ROUTER_LSDESC_TYPE :: "ospf6_lsa \<Rightarrow> nat \<Rightarrow> u8 option" where
  "ROUTER_LSDESC_TYPE l p = rd (lsa_body l) p"
definition ROUTER_LSDESC_GET_METRIC :: "ospf6_lsa \<Rightarrow> nat \<Rightarrow> u16 option" where
  "ROUTER_LSDESC_GET_METRIC l p = get_u16 (lsa_body l) (p + 2)"
definition ROUTER_LSDESC_GET_IFID :: "ospf6_lsa \<Rightarrow> nat \<Rightarrow> u32 option" where
  "ROUTER_LSDESC_GET_IFID l p = get_u32 (lsa_body l) (p + 4)"
definition ROUTER_LSDESC_GET_NBR_IFID :: "ospf6_lsa \<Rightarrow> nat \<Rightarrow> u32 option" where
  "ROUTER_LSDESC_GET_NBR_IFID l p = get_u32 (lsa_body l) (p + 8)"
definition ROUTER_LSDESC_GET_NBR_ROUTERID :: "ospf6_lsa \<Rightarrow> nat \<Rightarrow> u32 option" where
  "ROUTER_LSDESC_GET_NBR_ROUTERID l p = get_u32 (lsa_body l) (p + 12)"
definition NETWORK_LSDESC_GET_NBR_ROUTERID :: "ospf6_lsa \<Rightarrow> nat \<Rightarrow> u32 option" where
  "NETWORK_LSDESC_GET_NBR_ROUTERID l p = get_u32 (lsa_body l) p"

text \<open>The positions that a loop over the descriptions visits, up to the end by the length field.\<close>

definition body_end :: "ospf6_lsa \<Rightarrow> nat" where
  "body_end l = unat (lh_length (lsa_header l)) - lsa_header_size"

function lsdescs :: "nat \<Rightarrow> nat \<Rightarrow> nat \<Rightarrow> nat list" where
  "lsdescs p n e = (if 0 < n \<and> p + n \<le> e then p # lsdescs (p + n) n e else [])"
  by pat_completeness auto
termination
  by (relation "measure (\<lambda>(p, n, e). e - p)") auto

declare lsdescs.simps [simp del]

definition lsa_lsdescs :: "ospf6_lsa \<Rightarrow> nat list" where
  "lsa_lsdescs l = lsdescs 4 (if type_of l = OSPF6_LSTYPE_ROUTER then router_lsdesc_size else network_lsdesc_size) (body_end l)"

text \<open>Whether a description of an LSA points back. The conditions are read in the order of the code.\<close>

definition transit_back :: "ospf6_lsa \<Rightarrow> nat \<Rightarrow> ospf6_vertex \<Rightarrow> bool option" where
  "transit_back lsa b v =
     do {
       t \<leftarrow> ROUTER_LSDESC_TYPE lsa b;
       if t \<noteq> OSPF6_ROUTER_LSDESC_TRANSIT_NETWORK then Some False
       else do {
              r \<leftarrow> ROUTER_LSDESC_GET_NBR_ROUTERID lsa b;
              if r \<noteq> adv_router_of (vx_lsa v) then Some False
              else do { i \<leftarrow> ROUTER_LSDESC_GET_NBR_IFID lsa b; Some (i = id_of (vx_lsa v)) }
            }
     }"

definition pointtopoint_back :: "ospf6_lsa \<Rightarrow> nat \<Rightarrow> nat \<Rightarrow> ospf6_vertex \<Rightarrow> bool option" where
  "pointtopoint_back lsa b lsdesc v =
     do {
       t \<leftarrow> ROUTER_LSDESC_TYPE lsa b;
       if t \<noteq> OSPF6_ROUTER_LSDESC_POINTTOPOINT then Some False
       else do {
       t \<leftarrow> ROUTER_LSDESC_TYPE (vx_lsa v) lsdesc;
       if t \<noteq> OSPF6_ROUTER_LSDESC_POINTTOPOINT then Some False
       else do {
       nb \<leftarrow> ROUTER_LSDESC_GET_NBR_IFID lsa b;
       il \<leftarrow> ROUTER_LSDESC_GET_IFID (vx_lsa v) lsdesc;
       if nb \<noteq> il then Some False
       else do {
       nl \<leftarrow> ROUTER_LSDESC_GET_NBR_IFID (vx_lsa v) lsdesc;
       ib \<leftarrow> ROUTER_LSDESC_GET_IFID lsa b;
       if nl \<noteq> ib then Some False
       else do {
       rb \<leftarrow> ROUTER_LSDESC_GET_NBR_ROUTERID lsa b;
       if rb \<noteq> adv_router_of (vx_lsa v) then Some False
       else do { rl \<leftarrow> ROUTER_LSDESC_GET_NBR_ROUTERID (vx_lsa v) lsdesc; Some (rl = adv_router_of lsa) }
     }}}}}"

definition points_back :: "ospf6_lsa \<Rightarrow> nat \<Rightarrow> nat \<Rightarrow> ospf6_vertex \<Rightarrow> bool option" where
  "points_back lsa b lsdesc v =
     (if type_of lsa = OSPF6_LSTYPE_NETWORK \<and> is_network v then None
      else do {
             n \<leftarrow> (if type_of lsa = OSPF6_LSTYPE_NETWORK
                   then do { r \<leftarrow> NETWORK_LSDESC_GET_NBR_ROUTERID lsa b; Some (r = adv_router_of (vx_lsa v)) } else Some False);
             if n then Some True
             else do {
                    t \<leftarrow> (if is_network v then transit_back lsa b v else Some False);
                    if t then Some True else pointtopoint_back lsa b lsdesc v
                  }
           })"

fun backlinks :: "ospf6_lsa \<Rightarrow> nat list \<Rightarrow> nat \<Rightarrow> ospf6_vertex \<Rightarrow> nat option \<Rightarrow> nat option option" where
  "backlinks lsa [] lsdesc v found = Some found" |
  "backlinks lsa (b # bs) lsdesc v found =
     do { ok \<leftarrow> points_back lsa b lsdesc v; backlinks lsa bs lsdesc v (if ok then Some b else found) }"

definition ospf6_lsdesc_backlink :: "ospf6_lsa \<Rightarrow> nat \<Rightarrow> ospf6_vertex \<Rightarrow> nat option option" where
  "ospf6_lsdesc_backlink lsa lsdesc v = backlinks lsa (lsa_lsdescs lsa) lsdesc v None"

definition ospf6_lsdesc_lsa :: "nat \<Rightarrow> ospf6_vertex \<Rightarrow> store \<Rightarrow> ospf6_lsa option option" where
  "ospf6_lsdesc_lsa lsdesc v lsdb =
     (if is_network v
      then do { r \<leftarrow> NETWORK_LSDESC_GET_NBR_ROUTERID (vx_lsa v) lsdesc; Some (store_lookup OSPF6_LSTYPE_ROUTER 0 r lsdb) }
      else do {
             t \<leftarrow> ROUTER_LSDESC_TYPE (vx_lsa v) lsdesc;
             if t = OSPF6_ROUTER_LSDESC_POINTTOPOINT
             then do { r \<leftarrow> ROUTER_LSDESC_GET_NBR_ROUTERID (vx_lsa v) lsdesc; Some (store_lookup OSPF6_LSTYPE_ROUTER 0 r lsdb) }
             else if t = OSPF6_ROUTER_LSDESC_TRANSIT_NETWORK
             then do {
                    i \<leftarrow> ROUTER_LSDESC_GET_NBR_IFID (vx_lsa v) lsdesc;
                    r \<leftarrow> ROUTER_LSDESC_GET_NBR_ROUTERID (vx_lsa v) lsdesc;
                    Some (store_lookup OSPF6_LSTYPE_NETWORK i r lsdb)
                  }
             else Some (store_lookup 0 0 0 lsdb)
           })"

section \<open>Next hops\<close>

text \<open>The interfaces by the index of the interface: for each connection to a controller, the
  indices with the OSPF interface, if there is one.\<close>

type_synonym if_lists = "(u32 \<times> nat option) list list"

definition if_lookup_by_index :: "(u32 \<times> nat option) list \<Rightarrow> u32 \<Rightarrow> (u32 \<times> nat option) option" where
  "if_lookup_by_index iflist ifindex = find (\<lambda>(i, info). i = ifindex) iflist"

fun sibling_ctrl_if_lookup_by_index :: "if_lists \<Rightarrow> u32 \<Rightarrow> (u32 \<times> nat option) option" where
  "sibling_ctrl_if_lookup_by_index [] ifindex = None" |
  "sibling_ctrl_if_lookup_by_index (if_list # rest) ifindex =
     (case if_lookup_by_index if_list ifindex of
        Some (i, Some oi) \<Rightarrow> Some (i, Some oi)
      | _ \<Rightarrow> sibling_ctrl_if_lookup_by_index rest ifindex)"

definition ospf6_interface_lookup_by_ifindex :: "if_lists \<Rightarrow> u32 \<Rightarrow> nat option" where
  "ospf6_interface_lookup_by_ifindex ifs ifindex =
     (case sibling_ctrl_if_lookup_by_index ifs ifindex of None \<Rightarrow> None | Some (i, info) \<Rightarrow> info)"

text \<open>The link LSAs of a router in the order of a database.\<close>

definition store_type_router :: "u16 \<Rightarrow> u32 \<Rightarrow> store \<Rightarrow> ospf6_lsa list" where
  "store_type_router type adv_router S = filter (\<lambda>l. type_of l = type \<and> adv_router_of l = adv_router) S"

definition linklocal_addr :: "ospf6_lsa \<Rightarrow> u8 list option" where
  "linklocal_addr l = (if 20 \<le> length (lsa_body l) then Some (take 16 (drop 4 (lsa_body l))) else None)"

fun nexthops_from :: "ospf6_vertex \<Rightarrow> nat \<Rightarrow> u32 \<Rightarrow> ospf6_lsa list \<Rightarrow> nat \<Rightarrow> ospf6_nexthop list \<Rightarrow> ospf6_nexthop list option" where
  "nexthops_from v lsdesc ifindex [] i nhs = Some nhs" |
  "nexthops_from v lsdesc ifindex (l # ls) i nhs =
     do {
       skip \<leftarrow> (if is_router v then do { n \<leftarrow> ROUTER_LSDESC_GET_NBR_IFID (vx_lsa v) lsdesc; Some (n \<noteq> id_of l) } else Some False);
       if skip then nexthops_from v lsdesc ifindex ls i nhs
       else if i < OSPF6_MULTI_PATH_LIMIT
       then do {
              a \<leftarrow> linklocal_addr l;
              nhs \<leftarrow> wr nhs i \<lparr>nh_ifindex = ifindex, nh_address = a\<rparr>;
              nexthops_from v lsdesc ifindex ls (i + 1) nhs
            }
       else nexthops_from v lsdesc ifindex ls i nhs
     }"

definition ospf6_nexthop_calc :: "if_lists \<Rightarrow> ospf6 \<Rightarrow> ospf6_vertex \<Rightarrow> ospf6_vertex \<Rightarrow> nat \<Rightarrow> ospf6_vertex option" where
  "ospf6_nexthop_calc ifs top_st w v lsdesc =
     (if \<not> is_router w then None
      else do {
             ifindex \<leftarrow> (if is_network v then do { n \<leftarrow> rd (vx_nexthop v) 0; Some (nh_ifindex n) }
                         else ROUTER_LSDESC_GET_IFID (vx_lsa v) lsdesc);
             (case ospf6_interface_lookup_by_ifindex ifs ifindex of
                None \<Rightarrow> Some w
              | Some oi \<Rightarrow>
                  do {
                    ifc \<leftarrow> top_if top_st oi;
                    adv_router \<leftarrow> (if is_network v then NETWORK_LSDESC_GET_NBR_ROUTERID (vx_lsa v) lsdesc
                                   else ROUTER_LSDESC_GET_NBR_ROUTERID (vx_lsa v) lsdesc);
                    nhs \<leftarrow> nexthops_from v lsdesc ifindex (store_type_router OSPF6_LSTYPE_LINK adv_router (oi_lsdb ifc)) 0 (vx_nexthop w);
                    Some (w\<lparr>vx_nexthop := nhs\<rparr>)
                  })
           })"

text \<open>The next hops of a vertex up to the first that is not set replace those of another.\<close>

fun copy_nexthops :: "ospf6_nexthop list \<Rightarrow> ospf6_nexthop list \<Rightarrow> ospf6_nexthop list" where
  "copy_nexthops (a # as) (b # bs) = (if ospf6_nexthop_is_set a then a # copy_nexthops as bs else b # bs)" |
  "copy_nexthops [] bs = bs" |
  "copy_nexthops as [] = []"

section \<open>Installation\<close>

record spf =
  spf_table :: ospf6_route_table
  spf_vertices :: "nat \<Rightarrow> ospf6_vertex option"
  spf_brk :: nat

text \<open>A next hop is added to those of a route, unless it is there or there is no room.\<close>

fun merge_nexthop :: "ospf6_nexthop \<Rightarrow> ospf6_nexthop list \<Rightarrow> ospf6_nexthop list" where
  "merge_nexthop n [] = []" |
  "merge_nexthop n (r # rs) =
     (if ospf6_nexthop_is_set r then if ospf6_nexthop_is_same r n then r # rs else r # merge_nexthop n rs else n # rs)"

definition merge_nexthops :: "ospf6_nexthop list \<Rightarrow> ospf6_nexthop list \<Rightarrow> ospf6_nexthop list" where
  "merge_nexthops new nhs = foldl (\<lambda>nhs n. merge_nexthop n nhs) nhs (takeWhile ospf6_nexthop_is_set new)"

fun alt_listnode_add_sort :: "(nat \<Rightarrow> ospf6_vertex option) \<Rightarrow> ospf6_vertex \<Rightarrow> nat \<Rightarrow> nat list \<Rightarrow> nat list option" where
  "alt_listnode_add_sort H v a [] = Some [a]" |
  "alt_listnode_add_sort H v a (n # ns) =
     do {
       w \<leftarrow> H n;
       c \<leftarrow> ospf6_vertex_id_cmp v w;
       if c < 0 then Some (a # n # ns) else do { ns \<leftarrow> alt_listnode_add_sort H v a ns; Some (n # ns) }
     }"

definition spf_route :: "u32 \<Rightarrow> nat \<Rightarrow> ospf6_vertex \<Rightarrow> ospf6_route" where
  "spf_route hostnum a v =
     (let route = ospf6_route_create in
      route\<lparr>ro_prefix := vx_vertex_id v, ro_type := OSPF6_DEST_TYPE_LINKSTATE,
        ro_path := (ro_path route)\<lparr>pa_type := OSPF6_PATH_TYPE_INTRA,
          pa_origin := \<lparr>or_type = type_of (vx_lsa v), or_id = id_of (vx_lsa v), or_adv_router = adv_router_of (vx_lsa v)\<rparr>,
          pa_metric_type := 1, pa_cost := vx_cost v, pa_cost_e2 := ucast (vx_hops v),
          pa_router_bits := vx_capability v, pa_options := vx_options v\<rparr>,
        ro_hostnum := hostnum, ro_nexthop := copy_nexthops (vx_nexthop v) (ro_nexthop route), ro_route_option := Some a\<rparr>)"

text \<open>The first result is the address of the vertex, if it was installed. The clock is read once
  for every installation.\<close>

definition ospf6_spf_install :: "(nat \<Rightarrow> timeval) \<Rightarrow> u32 \<Rightarrow> ospf6_vertex \<Rightarrow> spf \<Rightarrow> (nat option \<times> spf) option" where
  "ospf6_spf_install clock hostnum v st =
     (case ospf6_route_lookup (vx_vertex_id v) (spf_table st) of
        Some i \<Rightarrow>
          do {
            route \<leftarrow> rd (tb_routes (spf_table st)) i;
            if pa_cost (ro_path route) < vx_cost v then Some (None, st)
            else if pa_cost (ro_path route) = vx_cost v
            then do {
                   let route = route\<lparr>ro_nexthop := merge_nexthops (vx_nexthop v) (ro_nexthop route)\<rparr>;
                   p \<leftarrow> ro_route_option route;
                   prev \<leftarrow> spf_vertices st p;
                   if vx_hops prev \<le> vx_hops v
                   then Some (None, st\<lparr>spf_table := (spf_table st)\<lparr>tb_routes := (tb_routes (spf_table st))[i := route]\<rparr>\<rparr>)
                   else None
                 }
            else None
          }
      | None \<Rightarrow>
          do {
            let a = spf_brk st;
            let H = (spf_vertices st)(a \<mapsto> v);
            H \<leftarrow> (case vx_parent v of
                    None \<Rightarrow> Some H
                  | Some p \<Rightarrow>
                      do {
                        pv \<leftarrow> H p;
                        cs \<leftarrow> alt_listnode_add_sort H v a (vx_child_list pv);
                        Some (H(p \<mapsto> pv\<lparr>vx_child_list := cs\<rparr>))
                      });
            (i, table, hooks) \<leftarrow> ospf6_route_add (clock a) (spf_route hostnum a v) (spf_table st);
            Some (Some a, st\<lparr>spf_table := table, spf_vertices := H, spf_brk := a + 1\<rparr>)
          })"

fun table_finish :: "nat \<Rightarrow> spf \<Rightarrow> spf option" where
  "table_finish 0 st = Some st" |
  "table_finish (Suc n) st =
     do {
       route \<leftarrow> rd (tb_routes (spf_table st)) 0;
       a \<leftarrow> ro_route_option route;
       v \<leftarrow> spf_vertices st a;
       (table, hooks) \<leftarrow> ospf6_route_remove 0 (spf_table st);
       table_finish n (st\<lparr>spf_table := table, spf_vertices := (spf_vertices st)(a := None)\<rparr>)
     }"

definition ospf6_spf_table_finish :: "spf \<Rightarrow> spf option" where
  "ospf6_spf_table_finish st = table_finish (length (tb_routes (spf_table st))) st"

section \<open>The calculation\<close>

text \<open>The candidate \<open>w\<close> for a link of the vertex \<open>v\<close>, which has been installed at the address \<open>a\<close>.\<close>

definition candidate_distance :: "ospf6_vertex \<Rightarrow> nat \<Rightarrow> ospf6_vertex \<Rightarrow> ospf6_vertex option" where
  "candidate_distance v lsdesc w =
     (if is_router v
      then do {
             m \<leftarrow> ROUTER_LSDESC_GET_METRIC (vx_lsa v) lsdesc;
             Some (w\<lparr>vx_cost := vx_cost v + ucast m, vx_hops := vx_hops v + (if is_network w then 0 else 1)\<rparr>)
           }
      else Some (w\<lparr>vx_cost := vx_cost v, vx_hops := vx_hops v + 1\<rparr>))"

definition candidate_nexthops :: "if_lists \<Rightarrow> ospf6 \<Rightarrow> ospf6_vertex \<Rightarrow> nat \<Rightarrow> ospf6_vertex \<Rightarrow> ospf6_vertex option" where
  "candidate_nexthops ifs top_st v lsdesc w =
     (if vx_hops w = 0
      then do {
             i \<leftarrow> ROUTER_LSDESC_GET_IFID (vx_lsa v) lsdesc;
             n \<leftarrow> rd (vx_nexthop w) 0;
             Some (w\<lparr>vx_nexthop := (vx_nexthop w)[0 := n\<lparr>nh_ifindex := i\<rparr>]\<rparr>)
           }
      else if vx_hops w = 1 \<and> vx_hops v = 0 then ospf6_nexthop_calc ifs top_st w v lsdesc
      else Some (w\<lparr>vx_nexthop := copy_nexthops (vx_nexthop v) (vx_nexthop w)\<rparr>))"

definition spf_candidate :: "if_lists \<Rightarrow> ospf6 \<Rightarrow> ospf6_vertex \<Rightarrow> nat \<Rightarrow> nat \<Rightarrow> ospf6_lsa \<Rightarrow> ospf6_vertex option" where
  "spf_candidate ifs top_st v a lsdesc lsa =
     do {
       w \<leftarrow> ospf6_vertex_create lsa;
       w \<leftarrow> candidate_distance v lsdesc (w\<lparr>vx_parent := Some a\<rparr>);
       candidate_nexthops ifs top_st v lsdesc w
     }"

definition vertex_null :: ospf6_vertex where
  "vertex_null = \<lparr>vx_type = 0, vx_vertex_id = prefix_new,
     vx_lsa = lsa_zero \<lparr>lh_age = 0, lh_type = 0, lh_id = 0, lh_adv_router = 0, lh_seqnum = 0, lh_checksum = 0, lh_length = 0\<rparr> [],
     vx_cost = 0, vx_hops = 0, vx_nexthop = [], vx_capability = 0, vx_options = [], vx_parent = None, vx_child_list = []\<rparr>"

fun spf_links :: "if_lists \<Rightarrow> ospf6 \<Rightarrow> store \<Rightarrow> ospf6_vertex \<Rightarrow> nat \<Rightarrow> nat list \<Rightarrow> ospf6_vertex pqueue \<Rightarrow> ospf6_vertex pqueue option" where
  "spf_links ifs top_st lsdb v a [] q = Some q" |
  "spf_links ifs top_st lsdb v a (lsdesc # ds) q =
     do {
       lsa \<leftarrow> ospf6_lsdesc_lsa lsdesc v lsdb;
       (case lsa of
          None \<Rightarrow> spf_links ifs top_st lsdb v a ds q
        | Some lsa \<Rightarrow>
            do {
              found \<leftarrow> ospf6_lsdesc_backlink lsa lsdesc v;
              if found = None then spf_links ifs top_st lsdb v a ds q
              else do {
                     w \<leftarrow> spf_candidate ifs top_st v a lsdesc lsa;
                     q \<leftarrow> pqueue_enqueue vertex_null True w q;
                     spf_links ifs top_st lsdb v a ds q
                   }
            })
     }"

definition vertex_lsdescs :: "ospf6_vertex \<Rightarrow> nat list" where
  "vertex_lsdescs v = lsdescs 4 (if is_router v then router_lsdesc_size else network_lsdesc_size) (body_end (vx_lsa v))"

partial_function (option) spf_loop :: "(nat \<Rightarrow> timeval) \<Rightarrow> u32 \<Rightarrow> if_lists \<Rightarrow> ospf6 \<Rightarrow> store \<Rightarrow> ospf6_vertex pqueue \<Rightarrow> spf \<Rightarrow> spf option" where
  "spf_loop clock hostnum ifs top_st lsdb q st =
     (if pq_size q = 0 then Some st
      else do {
             (v, q) \<leftarrow> pqueue_dequeue q;
             (r, st) \<leftarrow> ospf6_spf_install clock hostnum v st;
             (case r of
                None \<Rightarrow> spf_loop clock hostnum ifs top_st lsdb q st
              | Some a \<Rightarrow>
                  do {
                    q \<leftarrow> spf_links ifs top_st lsdb v a (vertex_lsdescs v) q;
                    spf_loop clock hostnum ifs top_st lsdb q st
                  })
           })"

declare spf_loop.simps [code]

definition spf_root :: "ospf6_lsa \<Rightarrow> ospf6_vertex option" where
  "spf_root lsa =
     do {
       root \<leftarrow> ospf6_vertex_create lsa;
       let lo = \<lparr>nh_ifindex = 0, nh_address = replicate 15 0 @ [1]\<rparr>;
       nhs \<leftarrow> wr (vx_nexthop root) 0 lo;
       Some (root\<lparr>vx_cost := 0, vx_hops := 0, vx_nexthop := nhs\<rparr>)
     }"

definition ospf6_spf_calculation :: "(nat \<Rightarrow> timeval) \<Rightarrow> if_lists \<Rightarrow> ospf6 \<Rightarrow> u32 \<Rightarrow> store \<Rightarrow> u32 \<Rightarrow> spf \<Rightarrow> spf option" where
  "ospf6_spf_calculation clock ifs top_st router_id lsdb hostnum st =
     do {
       let candidate_list = pqueue_create vertex_null ospf6_vertex_cmp;
       st \<leftarrow> ospf6_spf_table_finish st;
       (case store_lookup OSPF6_LSTYPE_ROUTER 0 router_id lsdb of
          None \<Rightarrow> Some st
        | Some lsa \<Rightarrow>
            do {
              root \<leftarrow> spf_root lsa;
              candidate_list \<leftarrow> pqueue_enqueue vertex_null True root candidate_list;
              spf_loop clock hostnum ifs top_st lsdb candidate_list st
            })
     }"

end
