(* ===== verification/Lib_Paths.thy ===== *)
theory Lib_Paths
  imports Prelude
begin

text \<open>
  Shortest paths: the argument of Dijkstra's algorithm, for weights with an order and an
  addition that does not decrease them. A search keeps the distances of the vertices it has
  settled and a set of candidates, which may name a vertex more than once and may name settled
  vertices.
\<close>

inductive walk :: "('w \<Rightarrow> 'w \<Rightarrow> 'w) \<Rightarrow> 'w \<Rightarrow> ('v \<Rightarrow> 'w \<Rightarrow> 'v \<Rightarrow> bool) \<Rightarrow> 'v \<Rightarrow> 'w \<Rightarrow> 'v \<Rightarrow> bool"
  for add origin G s where
  walk_start: "walk add origin G s origin s"
| walk_step: "walk add origin G s d u \<Longrightarrow> G u e v \<Longrightarrow> walk add origin G s (add d e) v"

definition covered :: "('w \<Rightarrow> 'w \<Rightarrow> bool) \<Rightarrow> ('v \<Rightarrow> 'w option) \<Rightarrow> ('w \<times> 'v) set \<Rightarrow> 'w \<Rightarrow> 'v \<Rightarrow> bool" where
  "covered le D Q x v \<longleftrightarrow> (\<exists>d. D v = Some d \<and> le d x) \<or> (\<exists>d. (d, v) \<in> Q \<and> le d x)"

definition search_inv :: "('w \<Rightarrow> 'w \<Rightarrow> bool) \<Rightarrow> ('w \<Rightarrow> 'w \<Rightarrow> 'w) \<Rightarrow> 'w \<Rightarrow> ('v \<Rightarrow> 'w \<Rightarrow> 'v \<Rightarrow> bool) \<Rightarrow> 'v
    \<Rightarrow> ('v \<Rightarrow> 'w option) \<Rightarrow> ('w \<times> 'v) set \<Rightarrow> bool" where
  "search_inv le add origin G s D Q \<longleftrightarrow>
     (\<forall>v d. D v = Some d \<longrightarrow> walk add origin G s d v) \<and> (\<forall>d v. (d, v) \<in> Q \<longrightarrow> walk add origin G s d v)
     \<and> (\<forall>u d e v. D u = Some d \<longrightarrow> G u e v \<longrightarrow> covered le D Q (add d e) v)
     \<and> covered le D Q origin s
     \<and> (\<forall>u d v d'. D u = Some d \<longrightarrow> (d', v) \<in> Q \<longrightarrow> le d d')"

lemma search_invI:
  assumes "\<And>v d. D v = Some d \<Longrightarrow> walk add origin G s d v" "\<And>d v. (d, v) \<in> Q \<Longrightarrow> walk add origin G s d v"
    "\<And>u d e v. D u = Some d \<Longrightarrow> G u e v \<Longrightarrow> covered le D Q (add d e) v" "covered le D Q origin s"
    "\<And>u d v d'. D u = Some d \<Longrightarrow> (d', v) \<in> Q \<Longrightarrow> le d d'"
  shows "search_inv le add origin G s D Q"
  unfolding search_inv_def using assms by blast

lemma search_invD:
  assumes "search_inv le add origin G s D Q"
  shows "D v = Some d \<Longrightarrow> walk add origin G s d v" "(d, v) \<in> Q \<Longrightarrow> walk add origin G s d v"
    "D u = Some d \<Longrightarrow> G u e v \<Longrightarrow> covered le D Q (add d e) v" "covered le D Q origin s" "D u = Some d \<Longrightarrow> (d', v) \<in> Q \<Longrightarrow> le d d'"
  using assms unfolding search_inv_def by blast+

text \<open>The candidates that the edges of a vertex give.\<close>

definition edges_from :: "('w \<Rightarrow> 'w \<Rightarrow> 'w) \<Rightarrow> ('v \<Rightarrow> 'w \<Rightarrow> 'v \<Rightarrow> bool) \<Rightarrow> 'w \<Rightarrow> 'v \<Rightarrow> ('w \<times> 'v) set" where
  "edges_from add G d u = {(add d e, v) | e v. G u e v}"

locale path_weights =
  fixes le :: "'w \<Rightarrow> 'w \<Rightarrow> bool" and add :: "'w \<Rightarrow> 'w \<Rightarrow> 'w" and origin :: 'w
  assumes le_refl: "le a a" and le_trans: "le a b \<Longrightarrow> le b c \<Longrightarrow> le a c" and le_antisym: "le a b \<Longrightarrow> le b a \<Longrightarrow> a = b"
    and plus_mono: "le a b \<Longrightarrow> le (add a c) (add b c)" and plus_grows: "le a (add a c)"
begin

lemma search_start: "search_inv le add origin G s (\<lambda>_. None) {(origin, s)}"
  by (auto simp: search_inv_def covered_def intro: walk_start le_refl)

lemma covered_drop:
  assumes "covered le D (insert (d, v) Q) x u" "D v = Some c" "le c d"
  shows "covered le D Q x u"
  using assms le_trans by (auto simp: covered_def)

text \<open>A candidate for a vertex that is settled is dropped.\<close>

lemma settled_below: "search_inv le add origin G s D (insert (d, v) Q) \<Longrightarrow> D v = Some c \<Longrightarrow> le c d"
  unfolding search_inv_def by blast

lemma search_drop:
  assumes "search_inv le add origin G s D (insert (d, v) Q)" "D v = Some c"
  shows "search_inv le add origin G s D Q"
proof -
  have "covered le D Q x u" if "covered le D (insert (d, v) Q) x u" for x u
    by (rule covered_drop [OF that assms(2) settled_below [OF assms]])
  note keep = this and inv = search_invD [OF assms(1)]
  show ?thesis
  proof (rule search_invI)
    show "walk add origin G s c u" if "(c, u) \<in> Q" for c u using inv(2) that by blast
    show "le c c'" if "D u = Some c" "(c', u') \<in> Q" for u c u' c' using inv(5) [OF that(1)] that(2) by blast
  qed (use inv(1,3,4) keep in simp_all)
qed

text \<open>A least candidate for another vertex settles it.\<close>

lemma search_settle:
  assumes inv: "search_inv le add origin G s D (insert (d, v) Q)" and new: "D v = None" and least: "\<And>c u. (c, u) \<in> Q \<Longrightarrow> le d c"
  shows "search_inv le add origin G s (D(v \<mapsto> d)) (Q \<union> edges_from add G d v)"
proof -
  let ?D = "D(v \<mapsto> d)" and ?Q = "Q \<union> edges_from add G d v"
  have w: "walk add origin G s d v" using inv unfolding search_inv_def by blast
  have cov: "covered le ?D ?Q x u" if "covered le D (insert (d, v) Q) x u" for x u
    using that new by (auto simp: covered_def)
  have "covered le ?D ?Q (add c e) u'" if "?D u = Some c" "G u e u'" for u c e u'
  proof (cases "u = v")
    case True
    then have "(add c e, u') \<in> ?Q" using that by (auto simp: edges_from_def)
    then show ?thesis unfolding covered_def using le_refl by blast
  next
    case False
    then show ?thesis using that inv cov unfolding search_inv_def by simp
  qed
  moreover have "walk add origin G s c u" if "?D u = Some c" for u c
    using that w inv by (cases "u = v") (auto simp: search_inv_def)
  moreover have "walk add origin G s c u" if "(c, u) \<in> ?Q" for c u
    using that w inv by (auto simp: search_inv_def edges_from_def intro: walk_step)
  moreover have "covered le ?D ?Q origin s" using inv cov unfolding search_inv_def by blast
  moreover have "le c c'" if "?D u = Some c" "(c', u') \<in> ?Q" for u c u' c'
  proof -
    have "le c d" using that(1) inv le_refl by (cases "u = v") (auto simp: search_inv_def)
    moreover have "le d c'" using that(2) least plus_grows by (auto simp: edges_from_def)
    ultimately show ?thesis by (rule le_trans)
  qed
  ultimately show ?thesis by (intro search_invI) blast+
qed

text \<open>Without candidates, the distances are those of shortest walks.\<close>

lemma walk_settled:
  assumes inv: "search_inv le add origin G s D {}" and w: "walk add origin G s x v"
  shows "\<exists>d. D v = Some d \<and> le d x"
  using w
proof (induction rule: walk.induct)
  case walk_start
  then show ?case using inv by (auto simp: search_inv_def covered_def)
next
  case (walk_step x u e v)
  then obtain d where d: "D u = Some d" "le d x" by blast
  with inv walk_step.hyps(2) obtain c where "D v = Some c" "le c (add d e)" unfolding search_inv_def covered_def by blast
  then show ?case using plus_mono [OF d(2)] le_trans by blast
qed

lemma search_done:
  assumes inv: "search_inv le add origin G s D {}"
  shows "D v = Some d \<longleftrightarrow> walk add origin G s d v \<and> (\<forall>x. walk add origin G s x v \<longrightarrow> le d x)"
proof
  assume "D v = Some d"
  then show "walk add origin G s d v \<and> (\<forall>x. walk add origin G s x v \<longrightarrow> le d x)"
    using inv walk_settled [OF inv] unfolding search_inv_def by fastforce
next
  assume a: "walk add origin G s d v \<and> (\<forall>x. walk add origin G s x v \<longrightarrow> le d x)"
  then obtain c where c: "D v = Some c" "le c d" using walk_settled [OF inv] by blast
  then have "walk add origin G s c v" using inv unfolding search_inv_def by blast
  then show "D v = Some d" using a c le_antisym by blast
qed

end

section \<open>Cost, then hops\<close>

definition lex_le :: "nat \<times> nat \<Rightarrow> nat \<times> nat \<Rightarrow> bool" where
  "lex_le a b \<longleftrightarrow> fst a < fst b \<or> fst a = fst b \<and> snd a \<le> snd b"

definition pair_add :: "nat \<times> nat \<Rightarrow> nat \<times> nat \<Rightarrow> nat \<times> nat" where
  "pair_add a b = (fst a + fst b, snd a + snd b)"

interpretation lex_weights: path_weights lex_le pair_add "(0, 0)"
  by unfold_locales (auto simp: lex_le_def pair_add_def)

end
