(* ===== verification/Lib_PQueue_On.thy ===== *)
theory Lib_PQueue_On
  imports Lib_PQueue
begin

text \<open>
  Priority queues whose comparison function is an order only on some of the values of its
  type, such as a difference of machine integers, which is one as long as it does not
  overflow. On such values a queue behaves as with a comparison that is an order everywhere.
\<close>

section \<open>Another comparison function\<close>

text \<open>The operations compare elements of the queue only.\<close>

definition with_cmp :: "('a \<Rightarrow> 'a \<Rightarrow> int) \<Rightarrow> 'a pqueue \<Rightarrow> 'a pqueue" where
  "with_cmp c q = q\<lparr>pq_cmp := c\<rparr>"

lemma with_cmp_simps [simp]:
  "pq_array (with_cmp c q) = pq_array q" "pq_array_size (with_cmp c q) = pq_array_size q" "pq_size (with_cmp c q) = pq_size q"
  "pq_cmp (with_cmp c q) = c" "pq_update (with_cmp c q) = pq_update q" "pq_calls (with_cmp c q) = pq_calls q"
  "pq_elems (with_cmp c q) = pq_elems q"
  by (simp_all add: with_cmp_def pq_elems_def)

lemma with_cmp_back: "with_cmp (pq_cmp q) (with_cmp c q) = q"
  by (simp add: with_cmp_def)

lemma with_cmp_size: "(with_cmp c q)\<lparr>pq_size := n\<rparr> = with_cmp c (q\<lparr>pq_size := n\<rparr>)"
  and with_cmp_array: "(with_cmp c q)\<lparr>pq_array := xs\<rparr> = with_cmp c (q\<lparr>pq_array := xs\<rparr>)"
  by (simp_all add: with_cmp_def)

lemma put_with_cmp: "pq_put i x (with_cmp c q) = map_option (with_cmp c) (pq_put i x q)"
proof (cases "i < length (pq_array q)")
  case True
  then show ?thesis by (simp add: pq_put_in with_cmp_def)
qed (simp add: pq_put_def)

lemma put_result: "pq_put i x q = Some q' \<Longrightarrow> i < length (pq_array q) \<and> pq_array q' = (pq_array q)[i := x] \<and> pq_cmp q' = pq_cmp q \<and> pq_size q' = pq_size q"
  by (auto simp: pq_put_def wr_Some_iff split: bind_splits)

definition agree :: "'a set \<Rightarrow> ('a \<Rightarrow> 'a \<Rightarrow> int) \<Rightarrow> ('a \<Rightarrow> 'a \<Rightarrow> int) \<Rightarrow> bool" where
  "agree S c d \<longleftrightarrow> (\<forall>x\<in>S. \<forall>y\<in>S. c x y = d x y)"

definition slots_in :: "'a set \<Rightarrow> nat \<Rightarrow> 'a pqueue \<Rightarrow> bool" where
  "slots_in S n q \<longleftrightarrow> n \<le> length (pq_array q) \<and> (\<forall>i<n. pq_array q ! i \<in> S)"

lemma slots_put: "slots_in S n q \<Longrightarrow> x \<in> S \<Longrightarrow> pq_put i x q = Some q' \<Longrightarrow> slots_in S n q'"
  by (auto simp: slots_in_def nth_list_update dest!: put_result)

lemma slots_iff: "wf_pqueue q \<Longrightarrow> slots_in S (pq_size q) q \<longleftrightarrow> set_mset (pq_elems q) \<subseteq> S"
  unfolding slots_in_def pq_elems_def wf_pqueue_def
  by (fastforce simp: in_set_conv_nth subset_iff)

lemma trickle_up_with_cmp:
  assumes "agree S (pq_cmp q) c" "slots_in S n q" "tmp \<in> S" "index < n"
  shows "trickle_up_loop tmp index (with_cmp c q) = map_option (with_cmp c) (trickle_up_loop tmp index q)"
  using assms
proof (induction index arbitrary: q rule: less_induct)
  case (less index)
  show ?case
  proof (cases "index = 0")
    case True
    then show ?thesis by (subst (1 2) trickle_up_loop.simps) (simp add: put_with_cmp)
  next
    case False
    have p: "PARENT_OF index < index" using False by (intro PARENT_OF_less) simp
    then have par: "pq_array q ! PARENT_OF index \<in> S" "PARENT_OF index < length (pq_array q)" using less.prems by (auto simp: slots_in_def)
    have c: "c tmp (pq_array q ! PARENT_OF index) = pq_cmp q tmp (pq_array q ! PARENT_OF index)"
      using less.prems(1,3) par(1) by (simp add: agree_def)
    have "trickle_up_loop tmp (PARENT_OF index) (with_cmp c q') = map_option (with_cmp c) (trickle_up_loop tmp (PARENT_OF index) q')"
      if "pq_put index (pq_array q ! PARENT_OF index) q = Some q'" for q'
      by (rule less.IH [OF p]) (use less.prems p that put_result [OF that] slots_put [OF less.prems(2) par(1) that] in auto)
    then show ?thesis using False par c
      by (subst (1 2) trickle_up_loop.simps) (cases "pq_put index (pq_array q ! PARENT_OF index) q", auto simp: put_with_cmp)
  qed
qed

lemma which_with_cmp:
  assumes "agree S (pq_cmp q) c" "slots_in S (pq_size q) q"
  shows "pq_which index (with_cmp c q) = pq_which index q"
proof (cases "RIGHT_OF index < pq_size q")
  case True
  then have "LEFT_OF index < pq_size q" by (simp add: LEFT_OF_def RIGHT_OF_def)
  with True assms show ?thesis by (simp add: pq_which_def slots_in_def agree_def)
qed (simp add: pq_which_def)

lemma which_in: "pq_which index q = Some w \<Longrightarrow> HAVE_CHILD index q \<Longrightarrow> index < w \<and> w < pq_size q"
  by (auto simp: pq_which_def HAVE_CHILD_def LEFT_OF_def RIGHT_OF_def split: if_splits bind_splits)

lemma trickle_down_with_cmp:
  assumes "agree S (pq_cmp q) c" "slots_in S (pq_size q) q" "tmp \<in> S"
  shows "trickle_down_loop tmp index (with_cmp c q) = map_option (with_cmp c) (trickle_down_loop tmp index q)"
  using assms
proof (induction "pq_size q - index" arbitrary: index q rule: less_induct)
  case less
  note w = which_with_cmp [OF less.prems(1,2), of index]
  have hc: "HAVE_CHILD index (with_cmp c q) = HAVE_CHILD index q" by (simp add: HAVE_CHILD_def)
  show ?case
  proof (cases "HAVE_CHILD index q")
    case False
    then show ?thesis by (subst (1 2) trickle_down_loop.simps) (simp add: hc put_with_cmp)
  next
    case True
    show ?thesis
    proof (cases "pq_which index q")
      case None
      then show ?thesis by (subst (1 2) trickle_down_loop.simps) (simp add: hc w True)
    next
      case (Some i)
      from which_in [OF Some True] have i: "index < i" "i < pq_size q" by simp_all
      then have s: "pq_array q ! i \<in> S" "i < length (pq_array q)" using less.prems(2) by (auto simp: slots_in_def)
      have ce: "c (pq_array q ! i) tmp = pq_cmp q (pq_array q ! i) tmp" using less.prems(1,3) s(1) by (simp add: agree_def)
      have "trickle_down_loop tmp i (with_cmp c q') = map_option (with_cmp c) (trickle_down_loop tmp i q')"
        if "pq_put index (pq_array q ! i) q = Some q'" for q'
        by (rule less.hyps) (use less.prems i that put_result [OF that] slots_put [OF less.prems(2) s(1) that] in auto)
      then show ?thesis using True Some s ce
        by (subst (1 2) trickle_down_loop.simps) (cases "pq_put index (pq_array q ! i) q", auto simp: hc w put_with_cmp)
    qed
  qed
qed

lemma enqueue_with_cmp:
  assumes "agree S (pq_cmp q) c" "wf_pqueue q" "set_mset (pq_elems q) \<subseteq> S" "x \<in> S"
  shows "pqueue_enqueue nul ok x (with_cmp c q) = map_option (with_cmp c) (pqueue_enqueue nul ok x q)"
proof -
  define e where "e q = (if pq_size q + 2 \<ge> pq_array_size q then pqueue_expand nul q else q)" for q :: "'a pqueue"
  have ew: "e (with_cmp c q) = with_cmp c (e q)" by (simp add: e_def pqueue_expand_def with_cmp_def)
  have sz: "pq_size (e q) = pq_size q" "pq_cmp (e q) = pq_cmp q" by (simp_all add: e_def pqueue_expand_def)
  have sl: "slots_in S (pq_size q) (e q)"
    using slots_iff [OF assms(2), of S] assms(2,3) by (auto simp: slots_in_def e_def pqueue_expand_def wf_pqueue_def nth_append)
  have up: "trickle_up (pq_size q') (with_cmp c q') = map_option (with_cmp c) (trickle_up (pq_size q') q')" if "pq_put (pq_size q) x (e q) = Some q'" for q'
  proof -
    note r = put_result [OF that]
    have "slots_in S (Suc (pq_size q)) q'" using r sl assms(4) by (auto simp: slots_in_def nth_list_update less_Suc_eq)
    then show ?thesis using r assms(1,4) sz by (simp add: trickle_up_def trickle_up_with_cmp [where S = S and n = "Suc (pq_size q)"])
  qed
  have "(pq_size (with_cmp c q) + 2 \<ge> pq_array_size (with_cmp c q) \<and> \<not> ok) = (pq_size q + 2 \<ge> pq_array_size q \<and> \<not> ok)" by simp
  moreover have "do { q \<leftarrow> pq_put (pq_size (with_cmp c (e q))) x (with_cmp c (e q)); q \<leftarrow> trickle_up (pq_size q) q; Some (q\<lparr>pq_size := pq_size q + 1\<rparr>) }
      = map_option (with_cmp c) (do { q \<leftarrow> pq_put (pq_size (e q)) x (e q); q \<leftarrow> trickle_up (pq_size q) q; Some (q\<lparr>pq_size := pq_size q + 1\<rparr>) })"
    using up by (cases "pq_put (pq_size q) x (e q)") (auto simp: put_with_cmp sz with_cmp_size map_option_case split: option.splits)
  ultimately show ?thesis unfolding pqueue_enqueue_def Let_def e_def [symmetric] ew by simp
qed

lemma dequeue_with_cmp:
  assumes "agree S (pq_cmp q) c" "wf_pqueue q" "set_mset (pq_elems q) \<subseteq> S" "0 < pq_size q"
  shows "pqueue_dequeue (with_cmp c q) = map_option (\<lambda>(x, q). (x, with_cmp c q)) (pqueue_dequeue q)"
proof -
  have wf: "0 < length (pq_array q)" "pq_size q - 1 < length (pq_array q)" using assms(2,4) by (auto simp: wf_pqueue_def)
  let ?lst = "pq_array q ! (pq_size q - 1)"
  have sl: "slots_in S (pq_size q) q" using slots_iff [OF assms(2)] assms(3) by simp
  then have l: "?lst \<in> S" using assms(4) by (simp add: slots_in_def)
  let ?q = "q\<lparr>pq_size := pq_size q - 1, pq_array := (pq_array q)[0 := ?lst]\<rparr>"
  have "slots_in S (pq_size ?q) ?q" using sl l wf by (auto simp: slots_in_def nth_list_update)
  then have "trickle_down 0 (with_cmp c ?q) = map_option (with_cmp c) (trickle_down 0 ?q)"
    using wf l assms(1) by (simp add: trickle_down_def trickle_down_with_cmp [where S = S])
  then show ?thesis using wf assms(4)
    by (simp add: pqueue_dequeue_def Let_def with_cmp_size with_cmp_array) (cases "trickle_down 0 ?q", auto)
qed

section \<open>Comparison functions that are orders on a set\<close>

locale cmp_order_on =
  fixes S :: "'a set" and cmp :: "'a \<Rightarrow> 'a \<Rightarrow> int"
  assumes flip_on: "x \<in> S \<Longrightarrow> y \<in> S \<Longrightarrow> 0 \<le> cmp x y \<Longrightarrow> cmp y x \<le> 0"
    and trans_on: "x \<in> S \<Longrightarrow> y \<in> S \<Longrightarrow> z \<in> S \<Longrightarrow> cmp x y \<le> 0 \<Longrightarrow> cmp y z \<le> 0 \<Longrightarrow> cmp x z \<le> 0"
begin

definition extended :: "'a \<Rightarrow> 'a \<Rightarrow> int" where
  "extended x y = (if x \<in> S then if y \<in> S then cmp x y else - 1 else if y \<in> S then 1 else 0)"

lemma extended_order: "cmp_order extended"
  by unfold_locales (auto simp: extended_def split: if_splits intro: flip_on trans_on)

lemma extended_agrees: "agree S cmp extended"
  by (simp add: agree_def extended_def)

lemma invar_extended:
  assumes "wf_pqueue q" "set_mset (pq_elems q) \<subseteq> S" "pq_cmp q = cmp"
  shows "pq_invar (with_cmp extended q) \<longleftrightarrow> pq_invar q"
proof -
  have s: "pq_array q ! i \<in> S" if "i < pq_size q" for i using slots_iff [OF assms(1), of S] assms(2) that by (simp add: slots_in_def)
  have "extended (pq_array q ! PARENT_OF i) (pq_array q ! i) = cmp (pq_array q ! PARENT_OF i) (pq_array q ! i)"
    if "0 < i" "i < pq_size q" for i
    using s [of i] s [of "PARENT_OF i"] PARENT_OF_less [OF that(1)] that(2) by (simp add: extended_def)
  then show ?thesis using assms(3) by (auto simp: pq_invar_def wf_pqueue_def heap_ordered_def)
qed

lemma enqueue_on:
  assumes "pq_cmp q = cmp" "pq_invar q" "set_mset (pq_elems q) \<subseteq> S" "x \<in> S"
  shows "\<exists>q'. pqueue_enqueue nul True x q = Some q' \<and> pq_invar q' \<and> pq_cmp q' = cmp \<and> pq_elems q' = add_mset x (pq_elems q)"
proof -
  let ?q = "with_cmp extended q"
  have wf: "wf_pqueue q" "wf_pqueue ?q" using assms(2) by (simp_all add: pq_invar_def wf_pqueue_def)
  have "pq_invar ?q" using invar_extended [OF wf(1) assms(3,1)] assms(2) by simp
  with cmp_order.pqueue_enqueue_heap [OF extended_order, of ?q True nul x] obtain q' where
    q': "pqueue_enqueue nul True x ?q = Some q'" "pq_invar q'" "pq_cmp q' = extended" "pq_elems q' = add_mset x (pq_elems q)" by auto
  have "agree S (pq_cmp ?q) cmp" using extended_agrees by (simp add: agree_def)
  from enqueue_with_cmp [OF this wf(2) _ assms(4), of nul True] assms(1,3) q'(1) have
    e: "pqueue_enqueue nul True x q = Some (with_cmp cmp q')" using with_cmp_back [of q extended, unfolded assms(1)] by simp
  have "pq_invar (with_cmp cmp q')"
    using invar_extended [of "with_cmp cmp q'"] with_cmp_back [of q' cmp] q'(2-4) assms(3,4) by (auto simp: pq_invar_def wf_pqueue_def)
  with e q'(4) show ?thesis by auto
qed

lemma dequeue_on:
  assumes "pq_cmp q = cmp" "pq_invar q" "set_mset (pq_elems q) \<subseteq> S" "0 < pq_size q"
  shows "\<exists>x q'. pqueue_dequeue q = Some (x, q') \<and> pq_invar q' \<and> pq_cmp q' = cmp \<and> pq_elems q = add_mset x (pq_elems q')
    \<and> (\<forall>y\<in>#pq_elems q. cmp x y \<le> 0)"
proof -
  let ?q = "with_cmp extended q"
  have wf: "wf_pqueue q" "wf_pqueue ?q" using assms(2) by (simp_all add: pq_invar_def wf_pqueue_def)
  have inv: "pq_invar ?q" using invar_extended [OF wf(1) assms(3,1)] assms(2) by simp
  let ?x = "pq_array q ! 0"
  from cmp_order.pqueue_dequeue_heap [OF extended_order, of ?q] inv assms(4) obtain q' where
    q': "pqueue_dequeue ?q = Some (?x, q')" "pq_invar q'" "pq_cmp q' = extended" "pq_elems q = add_mset ?x (pq_elems q')" by auto
  have "agree S (pq_cmp ?q) cmp" using extended_agrees by (simp add: agree_def)
  from dequeue_with_cmp [OF this wf(2)] assms(1,3,4) q'(1) have
    e: "pqueue_dequeue q = Some (?x, with_cmp cmp q')" using with_cmp_back [of q extended, unfolded assms(1)] by simp
  have sub: "set_mset (pq_elems q') \<subseteq> S" "?x \<in> S" using q'(4) assms(3) by auto
  have "pq_invar (with_cmp cmp q')"
    using invar_extended [of "with_cmp cmp q'"] with_cmp_back [of q' cmp] q'(2,3) sub by (auto simp: pq_invar_def wf_pqueue_def)
  moreover have "cmp ?x y \<le> 0" if y: "y \<in># pq_elems q" for y
  proof -
    have h: "heap_ordered extended (pq_array q) (pq_size q)" using inv by (simp add: pq_invar_def)
    from y wf(1) obtain i where "i < pq_size q" "y = pq_array q ! i" by (auto simp: pq_elems_def wf_pqueue_def in_set_conv_nth)
    with cmp_order.heap_min [OF extended_order h] have "extended ?x y \<le> 0" by simp
    then show ?thesis using sub(2) y assms(3) by (auto simp: extended_def)
  qed
  ultimately show ?thesis using e q'(4) by auto
qed

end

end
