(* ===== verification/Ospf6_Spf_Links.thy ===== *)
theory Ospf6_Spf_Links
  imports Ospf6_Spf Ospf6_Message_Props Lib_Paths Lib_PQueue_On
begin

text \<open>
  The graph that a link state database describes, and that the functions of the shortest path
  calculation that read the database follow exactly its edges.
\<close>

section \<open>The graph\<close>

text \<open>
  The vertices are the network LSAs and the router LSAs with id 0. Two of them are linked
  if each describes the link to the other: a point-to-point link of two routers with their interface ids
  crossed, or a router on a transit network. A link costs the metric of the router it leaves;
  the link from a network to a router is free. Hops are counted on arrival at a router.
\<close>

definition spf_vertex :: "ospf6_lsa \<Rightarrow> bool" where
  "spf_vertex l \<longleftrightarrow> type_of l = OSPF6_LSTYPE_ROUTER \<and> id_of l = 0 \<or> type_of l = OSPF6_LSTYPE_NETWORK"

definition vertex_lsas :: "store \<Rightarrow> ospf6_lsa set" where
  "vertex_lsas lsdb = {l \<in> set lsdb. spf_vertex l}"

definition pointtopoint_link :: "ospf6_lsa \<Rightarrow> nat \<Rightarrow> nat \<times> nat \<Rightarrow> ospf6_lsa \<Rightarrow> nat \<Rightarrow> bool" where
  "pointtopoint_link l p e l' b \<longleftrightarrow> type_of l = OSPF6_LSTYPE_ROUTER \<and> type_of l' = OSPF6_LSTYPE_ROUTER
     \<and> ROUTER_LSDESC_TYPE l p = Some OSPF6_ROUTER_LSDESC_POINTTOPOINT \<and> ROUTER_LSDESC_TYPE l' b = Some OSPF6_ROUTER_LSDESC_POINTTOPOINT
     \<and> ROUTER_LSDESC_GET_NBR_ROUTERID l p = Some (adv_router_of l') \<and> ROUTER_LSDESC_GET_NBR_ROUTERID l' b = Some (adv_router_of l)
     \<and> ROUTER_LSDESC_GET_IFID l p = ROUTER_LSDESC_GET_NBR_IFID l' b \<and> ROUTER_LSDESC_GET_NBR_IFID l p = ROUTER_LSDESC_GET_IFID l' b
     \<and> (\<exists>m. ROUTER_LSDESC_GET_METRIC l p = Some m \<and> e = (unat m, 1))"

text \<open>The description \<open>p\<close> of a router and the description \<open>b\<close> of a transit network name each other.\<close>

definition on_network :: "ospf6_lsa \<Rightarrow> nat \<Rightarrow> ospf6_lsa \<Rightarrow> nat \<Rightarrow> bool" where
  "on_network r p n b \<longleftrightarrow> type_of r = OSPF6_LSTYPE_ROUTER \<and> type_of n = OSPF6_LSTYPE_NETWORK
     \<and> ROUTER_LSDESC_TYPE r p = Some OSPF6_ROUTER_LSDESC_TRANSIT_NETWORK \<and> ROUTER_LSDESC_GET_NBR_ROUTERID r p = Some (adv_router_of n)
     \<and> ROUTER_LSDESC_GET_NBR_IFID r p = Some (id_of n) \<and> NETWORK_LSDESC_GET_NBR_ROUTERID n b = Some (adv_router_of r)"

definition link_at :: "ospf6_lsa \<Rightarrow> nat \<Rightarrow> nat \<times> nat \<Rightarrow> ospf6_lsa \<Rightarrow> nat \<Rightarrow> bool" where
  "link_at l p e l' b \<longleftrightarrow> pointtopoint_link l p e l' b
     \<or> on_network l p l' b \<and> (\<exists>m. ROUTER_LSDESC_GET_METRIC l p = Some m \<and> e = (unat m, 0))
     \<or> on_network l' b l p \<and> e = (0, 1)"

definition link :: "store \<Rightarrow> ospf6_lsa \<Rightarrow> nat \<times> nat \<Rightarrow> ospf6_lsa \<Rightarrow> bool" where
  "link lsdb l e l' \<longleftrightarrow> l' \<in> vertex_lsas lsdb \<and> (\<exists>p\<in>set (lsa_lsdescs l). \<exists>b\<in>set (lsa_lsdescs l'). link_at l p e l' b)"

text \<open>
  What a database must satisfy for the calculation: keys are unique, the LSAs are as long as
  their length fields say and have room for the options, no network has the id of a router
  vertex, and no router id in a network LSA begins with the byte that marks a point-to-point link.
\<close>

definition lsdb_ok :: "store \<Rightarrow> bool" where
  "lsdb_ok lsdb \<longleftrightarrow> distinct (map (\<lambda>l. (type_of l, id_of l, adv_router_of l)) lsdb)
     \<and> (\<forall>l\<in>set lsdb. body_end l = length (lsa_body l) \<and> (spf_vertex l \<longrightarrow> 4 \<le> length (lsa_body l))
          \<and> (type_of l = OSPF6_LSTYPE_NETWORK \<longrightarrow> id_of l \<noteq> 0
               \<and> (\<forall>p\<in>set (lsa_lsdescs l). ROUTER_LSDESC_TYPE l p \<noteq> Some OSPF6_ROUTER_LSDESC_POINTTOPOINT)))"

section \<open>Reading an LSA\<close>

lemma lsdescs_bounds: "p \<in> set (lsdescs s n e) \<Longrightarrow> s \<le> p \<and> p + n \<le> e"
proof (induction s n e rule: lsdescs.induct)
  case (1 s n e)
  then show ?case by (subst (asm) (2) lsdescs.simps) (auto split: if_splits)
qed

lemma lstypes [simp]: "OSPF6_LSTYPE_ROUTER \<noteq> OSPF6_LSTYPE_NETWORK" "OSPF6_LSTYPE_NETWORK \<noteq> OSPF6_LSTYPE_ROUTER"
  "0 \<noteq> OSPF6_LSTYPE_NETWORK" "0 \<noteq> OSPF6_LSTYPE_ROUTER"
  "OSPF6_ROUTER_LSDESC_TRANSIT_NETWORK \<noteq> OSPF6_ROUTER_LSDESC_POINTTOPOINT" "OSPF6_ROUTER_LSDESC_POINTTOPOINT \<noteq> OSPF6_ROUTER_LSDESC_TRANSIT_NETWORK"
  by (simp_all add: OSPF6_LSTYPE_ROUTER_def OSPF6_LSTYPE_NETWORK_def OSPF6_ROUTER_LSDESC_TRANSIT_NETWORK_def OSPF6_ROUTER_LSDESC_POINTTOPOINT_def)

lemma router_fields:
  assumes "p + 16 \<le> length (lsa_body l)"
  shows "\<exists>t m i n r. ROUTER_LSDESC_TYPE l p = Some t \<and> ROUTER_LSDESC_GET_METRIC l p = Some m \<and> ROUTER_LSDESC_GET_IFID l p = Some i
    \<and> ROUTER_LSDESC_GET_NBR_IFID l p = Some n \<and> ROUTER_LSDESC_GET_NBR_ROUTERID l p = Some r"
  using assms by (simp add: ROUTER_LSDESC_TYPE_def ROUTER_LSDESC_GET_METRIC_def ROUTER_LSDESC_GET_IFID_def
    ROUTER_LSDESC_GET_NBR_IFID_def ROUTER_LSDESC_GET_NBR_ROUTERID_def get_total)

lemma network_fields:
  assumes "p + 4 \<le> length (lsa_body l)"
  shows "\<exists>t r. ROUTER_LSDESC_TYPE l p = Some t \<and> NETWORK_LSDESC_GET_NBR_ROUTERID l p = Some r"
  using assms by (simp add: ROUTER_LSDESC_TYPE_def NETWORK_LSDESC_GET_NBR_ROUTERID_def get_total)

lemma lsdesc_room:
  assumes "lsdb_ok lsdb" "l \<in> set lsdb" "p \<in> set (lsa_lsdescs l)"
  shows "p + (if type_of l = OSPF6_LSTYPE_ROUTER then 16 else 4) \<le> length (lsa_body l)"
  using assms lsdescs_bounds [of p 4 _ "body_end l"]
  by (fastforce simp: lsdb_ok_def lsa_lsdescs_def router_lsdesc_size_def network_lsdesc_size_def split: if_splits)

lemma lookup_mem:
  assumes "store_lookup t i r lsdb = Some l"
  shows "l \<in> set lsdb" "type_of l = t" "id_of l = i" "adv_router_of l = r"
  using assms by (auto simp: store_lookup_def find_Some_iff type_of_def id_of_def adv_router_of_def)

lemma lookup_self:
  assumes "lsdb_ok lsdb" "l \<in> set lsdb"
  shows "store_lookup (type_of l) (id_of l) (adv_router_of l) lsdb = Some l"
proof (cases "store_lookup (type_of l) (id_of l) (adv_router_of l) lsdb")
  case None
  with assms(2) show ?thesis by (auto simp: store_lookup_def find_None_iff type_of_def id_of_def adv_router_of_def)
next
  case (Some x)
  from lookup_mem [OF Some] assms show ?thesis using Some by (auto simp: lsdb_ok_def distinct_map inj_on_def)
qed

section \<open>Following a link\<close>

definition vertex_ok :: "store \<Rightarrow> ospf6_vertex \<Rightarrow> bool" where
  "vertex_ok lsdb v \<longleftrightarrow> vx_lsa v \<in> vertex_lsas lsdb
     \<and> vx_type v = (if type_of (vx_lsa v) = OSPF6_LSTYPE_ROUTER then OSPF6_VERTEX_TYPE_ROUTER else OSPF6_VERTEX_TYPE_NETWORK)
     \<and> vx_vertex_id v = ospf6_linkstate_prefix (adv_router_of (vx_lsa v)) (id_of (vx_lsa v))
     \<and> length (vx_nexthop v) = OSPF6_MULTI_PATH_LIMIT"

lemma vertex_type:
  assumes "vertex_ok lsdb v"
  shows "is_router v \<longleftrightarrow> type_of (vx_lsa v) = OSPF6_LSTYPE_ROUTER" "is_network v \<longleftrightarrow> type_of (vx_lsa v) = OSPF6_LSTYPE_NETWORK"
    "type_of (vx_lsa v) = OSPF6_LSTYPE_ROUTER \<or> type_of (vx_lsa v) = OSPF6_LSTYPE_NETWORK" "vx_lsa v \<in> set lsdb"
    "vertex_lsdescs v = lsa_lsdescs (vx_lsa v)"
  using assms by (auto simp: vertex_ok_def vertex_lsas_def spf_vertex_def is_router_def is_network_def vertex_lsdescs_def lsa_lsdescs_def
    OSPF6_VERTEX_TYPE_ROUTER_def OSPF6_VERTEX_TYPE_NETWORK_def)

lemma backlinks_exact:
  assumes "\<And>b. b \<in> set bs \<Longrightarrow> points_back l' b p v = Some (B b)"
  shows "\<exists>f'. backlinks l' bs p v f = Some f' \<and> (f' \<noteq> None \<longleftrightarrow> f \<noteq> None \<or> (\<exists>b\<in>set bs. B b))"
  using assms
proof (induction bs arbitrary: f)
  case (Cons b bs)
  from Cons.IH [of "if B b then Some b else f"] Cons.prems show ?case by auto
qed simp

lemma transit_back_exact:
  assumes "b + 16 \<le> length (lsa_body l')"
  shows "transit_back l' b v = Some (ROUTER_LSDESC_TYPE l' b = Some OSPF6_ROUTER_LSDESC_TRANSIT_NETWORK
    \<and> ROUTER_LSDESC_GET_NBR_ROUTERID l' b = Some (adv_router_of (vx_lsa v)) \<and> ROUTER_LSDESC_GET_NBR_IFID l' b = Some (id_of (vx_lsa v)))"
  using router_fields [OF assms] by (auto simp: transit_back_def)

lemma pointtopoint_back_exact:
  assumes "b + 16 \<le> length (lsa_body l')" "p + 16 \<le> length (lsa_body (vx_lsa v))"
    "ROUTER_LSDESC_TYPE (vx_lsa v) p = Some OSPF6_ROUTER_LSDESC_POINTTOPOINT"
  shows "pointtopoint_back l' b p v = Some (ROUTER_LSDESC_TYPE l' b = Some OSPF6_ROUTER_LSDESC_POINTTOPOINT
    \<and> ROUTER_LSDESC_GET_IFID (vx_lsa v) p = ROUTER_LSDESC_GET_NBR_IFID l' b \<and> ROUTER_LSDESC_GET_NBR_IFID (vx_lsa v) p = ROUTER_LSDESC_GET_IFID l' b
    \<and> ROUTER_LSDESC_GET_NBR_ROUTERID l' b = Some (adv_router_of (vx_lsa v)) \<and> ROUTER_LSDESC_GET_NBR_ROUTERID (vx_lsa v) p = Some (adv_router_of l'))"
  using router_fields [OF assms(1)] router_fields [OF assms(2)] assms(3) by (auto simp: pointtopoint_back_def)

lemma pointtopoint_back_other:
  assumes "b < length (lsa_body l')" "p < length (lsa_body (vx_lsa v))" "ROUTER_LSDESC_TYPE (vx_lsa v) p \<noteq> Some OSPF6_ROUTER_LSDESC_POINTTOPOINT"
  shows "pointtopoint_back l' b p v = Some False"
  using assms by (auto simp: pointtopoint_back_def ROUTER_LSDESC_TYPE_def)

text \<open>The LSA that a description leads to, if the database has it, and whether it leads back.\<close>

lemma follow_network:
  assumes ok: "lsdb_ok lsdb" "vertex_ok lsdb v" and p: "p \<in> set (lsa_lsdescs (vx_lsa v))" and n: "type_of (vx_lsa v) = OSPF6_LSTYPE_NETWORK"
  shows "\<exists>r. NETWORK_LSDESC_GET_NBR_ROUTERID (vx_lsa v) p = Some r \<and> ospf6_lsdesc_lsa p v lsdb = Some (store_lookup OSPF6_LSTYPE_ROUTER 0 r lsdb)
    \<and> (\<forall>l'. store_lookup OSPF6_LSTYPE_ROUTER 0 r lsdb = Some l' \<longrightarrow>
         (\<forall>b\<in>set (lsa_lsdescs l'). points_back l' b p v = Some (on_network l' b (vx_lsa v) p)))"
proof -
  note t = vertex_type [OF ok(2)]
  have room: "p + 4 \<le> length (lsa_body (vx_lsa v))" using lsdesc_room [OF ok(1) t(4) p] n by simp
  from network_fields [OF room] obtain r where r: "NETWORK_LSDESC_GET_NBR_ROUTERID (vx_lsa v) p = Some r" by blast
  have ty: "ROUTER_LSDESC_TYPE (vx_lsa v) p \<noteq> Some OSPF6_ROUTER_LSDESC_POINTTOPOINT" using ok(1) t(4) p n by (auto simp: lsdb_ok_def)
  have "points_back l' b p v = Some (on_network l' b (vx_lsa v) p)"
    if l': "store_lookup OSPF6_LSTYPE_ROUTER 0 r lsdb = Some l'" and b: "b \<in> set (lsa_lsdescs l')" for l' b
  proof -
    note m = lookup_mem [OF l']
    have rb: "b + 16 \<le> length (lsa_body l')" using lsdesc_room [OF ok(1) m(1) b] m(2) by simp
    have "pointtopoint_back l' b p v = Some False" by (rule pointtopoint_back_other) (use rb room ty in auto)
    then show ?thesis using m n r t(2) transit_back_exact [OF rb, of v] by (simp add: points_back_def on_network_def conj_ac)
  qed
  with r n t(2) show ?thesis by (auto simp: ospf6_lsdesc_lsa_def)
qed

lemma follow_router:
  assumes ok: "lsdb_ok lsdb" "vertex_ok lsdb v" and p: "p \<in> set (lsa_lsdescs (vx_lsa v))" and rt: "type_of (vx_lsa v) = OSPF6_LSTYPE_ROUTER"
  shows "\<exists>t i r. ROUTER_LSDESC_TYPE (vx_lsa v) p = Some t \<and> ROUTER_LSDESC_GET_NBR_IFID (vx_lsa v) p = Some i \<and> ROUTER_LSDESC_GET_NBR_ROUTERID (vx_lsa v) p = Some r
    \<and> ospf6_lsdesc_lsa p v lsdb = Some (if t = OSPF6_ROUTER_LSDESC_POINTTOPOINT then store_lookup OSPF6_LSTYPE_ROUTER 0 r lsdb
         else if t = OSPF6_ROUTER_LSDESC_TRANSIT_NETWORK then store_lookup OSPF6_LSTYPE_NETWORK i r lsdb else store_lookup 0 0 0 lsdb)
    \<and> (\<forall>l'. ospf6_lsdesc_lsa p v lsdb = Some (Some l') \<longrightarrow>
         (\<forall>b\<in>set (lsa_lsdescs l'). points_back l' b p v = Some ((\<exists>e. pointtopoint_link (vx_lsa v) p e l' b) \<or> on_network (vx_lsa v) p l' b)))"
proof -
  note t = vertex_type [OF ok(2)]
  have room: "p + 16 \<le> length (lsa_body (vx_lsa v))" using lsdesc_room [OF ok(1) t(4) p] rt by simp
  from router_fields [OF room] obtain ty m n i r where f: "ROUTER_LSDESC_TYPE (vx_lsa v) p = Some ty" "ROUTER_LSDESC_GET_METRIC (vx_lsa v) p = Some m"
    "ROUTER_LSDESC_GET_NBR_IFID (vx_lsa v) p = Some i" "ROUTER_LSDESC_GET_NBR_ROUTERID (vx_lsa v) p = Some r" "ROUTER_LSDESC_GET_IFID (vx_lsa v) p = Some n" by blast
  have nn: "\<not> is_network v" using t(2) rt by simp
  have look: "ospf6_lsdesc_lsa p v lsdb = Some (if ty = OSPF6_ROUTER_LSDESC_POINTTOPOINT then store_lookup OSPF6_LSTYPE_ROUTER 0 r lsdb
         else if ty = OSPF6_ROUTER_LSDESC_TRANSIT_NETWORK then store_lookup OSPF6_LSTYPE_NETWORK i r lsdb else store_lookup 0 0 0 lsdb)"
    using f nn by (simp add: ospf6_lsdesc_lsa_def)
  have "points_back l' b p v = Some ((\<exists>e. pointtopoint_link (vx_lsa v) p e l' b) \<or> on_network (vx_lsa v) p l' b)"
    if l': "ospf6_lsdesc_lsa p v lsdb = Some (Some l')" and b: "b \<in> set (lsa_lsdescs l')" for l' b
  proof (cases "ty = OSPF6_ROUTER_LSDESC_POINTTOPOINT")
    case True
    with l' look have "store_lookup OSPF6_LSTYPE_ROUTER 0 r lsdb = Some l'" by simp
    note m' = lookup_mem [OF this]
    have "b + 16 \<le> length (lsa_body l')" using lsdesc_room [OF ok(1) m'(1) b] m'(2) by simp
    from pointtopoint_back_exact [OF this room] True f m' nn rt show ?thesis
      by (simp add: points_back_def on_network_def pointtopoint_link_def) blast
  next
    case False
    from l' look False obtain t' i' r' where "store_lookup t' i' r' lsdb = Some l'" "t' = (if ty = OSPF6_ROUTER_LSDESC_TRANSIT_NETWORK then OSPF6_LSTYPE_NETWORK else 0)"
      "ty = OSPF6_ROUTER_LSDESC_TRANSIT_NETWORK \<Longrightarrow> i' = i \<and> r' = r" by (auto split: if_splits)
    note m' = lookup_mem [OF this(1)] and t' = this(2,3)
    have rb: "b + 4 \<le> length (lsa_body l')" using lsdesc_room [OF ok(1) m'(1) b] m'(2) t' by (auto split: if_splits)
    have pb: "pointtopoint_back l' b p v = Some False" by (rule pointtopoint_back_other) (use rb room f False in auto)
    have np: "\<not> pointtopoint_link (vx_lsa v) p e l' b" for e using False f by (simp add: pointtopoint_link_def)
    show ?thesis
    proof (cases "ty = OSPF6_ROUTER_LSDESC_TRANSIT_NETWORK")
      case True
      with m' t' network_fields [OF rb] pb nn rt f np show ?thesis by (auto simp: points_back_def on_network_def)
    next
      case False
      with m' t' pb nn np show ?thesis by (simp add: points_back_def on_network_def)
    qed
  qed
  with f look show ?thesis by blast
qed

lemma same_place:
  assumes "lsdb_ok lsdb" "l \<in> vertex_lsas lsdb"
  shows "type_of l = OSPF6_LSTYPE_ROUTER \<Longrightarrow> store_lookup OSPF6_LSTYPE_ROUTER 0 (adv_router_of l) lsdb = Some l"
    "type_of l = OSPF6_LSTYPE_NETWORK \<Longrightarrow> store_lookup OSPF6_LSTYPE_NETWORK (id_of l) (adv_router_of l) lsdb = Some l"
  using assms lookup_self [OF assms(1), of l] by (auto simp: vertex_lsas_def spf_vertex_def)

text \<open>Together: the description leads to an LSA of the database exactly if it is one end of a link.\<close>

lemma follow_link:
  assumes ok: "lsdb_ok lsdb" "vertex_ok lsdb v" and p: "p \<in> set (lsa_lsdescs (vx_lsa v))"
  shows "\<exists>r. ospf6_lsdesc_lsa p v lsdb = Some r
    \<and> (\<forall>l'. r = Some l' \<longrightarrow> l' \<in> set lsdb \<and> (\<exists>f. ospf6_lsdesc_backlink l' p v = Some f
         \<and> (f \<noteq> None \<longleftrightarrow> (\<exists>b\<in>set (lsa_lsdescs l'). \<exists>e. link_at (vx_lsa v) p e l' b))
         \<and> (f \<noteq> None \<longrightarrow> l' \<in> vertex_lsas lsdb)))
    \<and> (\<forall>l' e b. l' \<in> vertex_lsas lsdb \<longrightarrow> link_at (vx_lsa v) p e l' b \<longrightarrow> r = Some l')"
proof (cases "type_of (vx_lsa v) = OSPF6_LSTYPE_NETWORK")
  case True
  from follow_network [OF ok p True] obtain r where r: "NETWORK_LSDESC_GET_NBR_ROUTERID (vx_lsa v) p = Some r"
    "ospf6_lsdesc_lsa p v lsdb = Some (store_lookup OSPF6_LSTYPE_ROUTER 0 r lsdb)"
    "\<And>l' b. store_lookup OSPF6_LSTYPE_ROUTER 0 r lsdb = Some l' \<Longrightarrow> b \<in> set (lsa_lsdescs l') \<Longrightarrow> points_back l' b p v = Some (on_network l' b (vx_lsa v) p)" by blast
  have la: "link_at (vx_lsa v) p e l' b \<longleftrightarrow> on_network l' b (vx_lsa v) p \<and> e = (0, 1)" for e l' b
    using True by (auto simp: link_at_def pointtopoint_link_def on_network_def)
  have "\<exists>f. ospf6_lsdesc_backlink l' p v = Some f \<and> (f \<noteq> None \<longleftrightarrow> (\<exists>b\<in>set (lsa_lsdescs l'). on_network l' b (vx_lsa v) p))"
    if "store_lookup OSPF6_LSTYPE_ROUTER 0 r lsdb = Some l'" for l'
    using backlinks_exact [of "lsa_lsdescs l'" l' p v "\<lambda>b. on_network l' b (vx_lsa v) p" None] r(3) [OF that] by (simp add: ospf6_lsdesc_backlink_def)
  moreover have "store_lookup OSPF6_LSTYPE_ROUTER 0 r lsdb = Some l'" if "l' \<in> vertex_lsas lsdb" "on_network l' b (vx_lsa v) p" for l' b
    using same_place [OF ok(1) that(1)] that(2) r(1) by (auto simp: on_network_def)
  ultimately show ?thesis using r(2) lookup_mem unfolding la by (fastforce simp: vertex_lsas_def spf_vertex_def)
next
  case False
  then have rt: "type_of (vx_lsa v) = OSPF6_LSTYPE_ROUTER" using vertex_type(3) [OF ok(2)] by blast
  let ?B = "\<lambda>l' b. (\<exists>e. pointtopoint_link (vx_lsa v) p e l' b) \<or> on_network (vx_lsa v) p l' b"
  from follow_router [OF ok p rt] obtain t i r where r: "ROUTER_LSDESC_TYPE (vx_lsa v) p = Some t" "ROUTER_LSDESC_GET_NBR_IFID (vx_lsa v) p = Some i"
    "ROUTER_LSDESC_GET_NBR_ROUTERID (vx_lsa v) p = Some r"
    "ospf6_lsdesc_lsa p v lsdb = Some (if t = OSPF6_ROUTER_LSDESC_POINTTOPOINT then store_lookup OSPF6_LSTYPE_ROUTER 0 r lsdb
         else if t = OSPF6_ROUTER_LSDESC_TRANSIT_NETWORK then store_lookup OSPF6_LSTYPE_NETWORK i r lsdb else store_lookup 0 0 0 lsdb)"
    "\<And>l' b. ospf6_lsdesc_lsa p v lsdb = Some (Some l') \<Longrightarrow> b \<in> set (lsa_lsdescs l') \<Longrightarrow> points_back l' b p v = Some (?B l' b)" by blast
  obtain m where m: "ROUTER_LSDESC_GET_METRIC (vx_lsa v) p = Some m"
    using router_fields [of p "vx_lsa v"] lsdesc_room [OF ok(1) vertex_type(4) [OF ok(2)] p] rt by auto
  have la: "(\<exists>e. link_at (vx_lsa v) p e l' b) \<longleftrightarrow> ?B l' b" for l' b
    using rt m by (auto simp: link_at_def pointtopoint_link_def on_network_def)
  have 1: "\<exists>f. ospf6_lsdesc_backlink l' p v = Some f \<and> (f \<noteq> None \<longleftrightarrow> (\<exists>b\<in>set (lsa_lsdescs l'). ?B l' b))"
    if "ospf6_lsdesc_lsa p v lsdb = Some (Some l')" for l'
    using backlinks_exact [of "lsa_lsdescs l'" l' p v "?B l'" None] r(5) [OF that] by (simp add: ospf6_lsdesc_backlink_def)
  have 2: "ospf6_lsdesc_lsa p v lsdb = Some (Some l')" if "l' \<in> vertex_lsas lsdb" "?B l' b" for l' b
    using same_place [OF ok(1) that(1)] that(2) r(1-4) by (auto simp: on_network_def pointtopoint_link_def)
  have 3: "l' \<in> set lsdb \<and> (?B l' b \<longrightarrow> l' \<in> vertex_lsas lsdb)" if "ospf6_lsdesc_lsa p v lsdb = Some (Some l')" for l' b
    using that r(1,4) by (auto simp: vertex_lsas_def spf_vertex_def pointtopoint_link_def on_network_def dest: lookup_mem split: if_splits)
  obtain x where x: "ospf6_lsdesc_lsa p v lsdb = Some x" using r(4) by blast
  have 4: "x = Some l'" if "l' \<in> vertex_lsas lsdb" "link_at (vx_lsa v) p e l' b" for l' e b
  proof -
    have "?B l' b" using la [of l' b] that(2) by blast
    from 2 [OF that(1) this] x show ?thesis by simp
  qed
  have 5: "l' \<in> set lsdb \<and> (\<exists>f. ospf6_lsdesc_backlink l' p v = Some f \<and> (f \<noteq> None \<longleftrightarrow> (\<exists>b\<in>set (lsa_lsdescs l'). \<exists>e. link_at (vx_lsa v) p e l' b))
         \<and> (f \<noteq> None \<longrightarrow> l' \<in> vertex_lsas lsdb))" if "x = Some l'" for l'
  proof -
    have l: "ospf6_lsdesc_lsa p v lsdb = Some (Some l')" using x that by simp
    from 1 [OF l] obtain f where "ospf6_lsdesc_backlink l' p v = Some f" "f \<noteq> None \<longleftrightarrow> (\<exists>b\<in>set (lsa_lsdescs l'). ?B l' b)" by blast
    then show ?thesis unfolding la using 3 [OF l] by blast
  qed
  show ?thesis using x 4 5 by blast
qed

end
