(* ===== verification/Ospf6_Spf_Search.thy ===== *)
theory Ospf6_Spf_Search
  imports Ospf6_Spf_Links
begin

text \<open>
  The candidates of the shortest path calculation: their order in the queue, and what an
  installed vertex adds to them.
\<close>

section \<open>The order of the candidates\<close>

definition vdist :: "ospf6_vertex \<Rightarrow> nat \<times> nat" where
  "vdist v = (unat (vx_cost v), unat (vx_hops v))"

text \<open>Costs below half of the range of the type, whose differences do not overflow.\<close>

definition small_costs :: "ospf6_vertex set" where
  "small_costs = {v. unat (vx_cost v) < 2 ^ 31}"

lemma uint_iff_unat: "uint a \<le> uint b \<longleftrightarrow> unat a \<le> unat b" "uint a < uint b \<longleftrightarrow> unat a < unat b"
  by (simp_all only: uint_nat of_nat_le_iff of_nat_less_iff)

lemma sint_diff:
  fixes a b :: u32
  assumes "unat a < 2 ^ 31" "unat b < 2 ^ 31"
  shows "sint (a - b) = uint a - uint b"
proof -
  have u: "uint c < 2 ^ 31" if "unat c < 2 ^ 31" for c :: u32 using that by (simp only: unat_eq_nat_uint nat_less_iff uint_ge_0) simp
  have s: "sint c = uint c" if "unat c < 2 ^ 31" for c :: u32
  proof -
    have "signed_take_bit 31 (uint c) = uint c" using u [OF that] uint_ge_0 [of c] by (intro signed_take_bit_int_eq_self) linarith+
    then show ?thesis by (simp add: sint_uint)
  qed
  have "signed_take_bit 31 (uint a - uint b) = uint a - uint b"
    using u [OF assms(1)] u [OF assms(2)] uint_ge_0 [of a] uint_ge_0 [of b] by (intro signed_take_bit_int_eq_self) linarith+
  then show ?thesis using s [OF assms(1)] s [OF assms(2)] by (simp add: sint_word_ariths)
qed

lemma vertex_cmp_lex:
  assumes "x \<in> small_costs" "y \<in> small_costs"
  shows "ospf6_vertex_cmp x y \<le> 0 \<longleftrightarrow> lex_le (vdist x) (vdist y)"
proof (cases "vx_cost x = vx_cost y")
  case True
  then show ?thesis by (simp add: ospf6_vertex_cmp_def lex_le_def vdist_def uint_iff_unat)
next
  case False
  then have "unat (vx_cost x) \<noteq> unat (vx_cost y)" by (simp add: word_unat_eq_iff)
  moreover have "sint (vx_cost x - vx_cost y) = uint (vx_cost x) - uint (vx_cost y)"
    using assms by (intro sint_diff) (simp_all add: small_costs_def)
  ultimately show ?thesis using False by (auto simp: ospf6_vertex_cmp_def lex_le_def vdist_def uint_iff_unat)
qed

lemma vertex_cmp_flip:
  assumes "x \<in> small_costs" "y \<in> small_costs"
  shows "ospf6_vertex_cmp y x = - ospf6_vertex_cmp x y"
proof -
  have "sint (vx_cost x - vx_cost y) = uint (vx_cost x) - uint (vx_cost y)" "sint (vx_cost y - vx_cost x) = uint (vx_cost y) - uint (vx_cost x)"
    using assms by (auto intro!: sint_diff simp: small_costs_def)
  then show ?thesis by (simp add: ospf6_vertex_cmp_def)
qed

interpretation vertex_order: cmp_order_on small_costs ospf6_vertex_cmp
proof
  fix x y z
  assume m: "x \<in> small_costs" "y \<in> small_costs" "z \<in> small_costs"
  assume "ospf6_vertex_cmp x y \<le> 0" "ospf6_vertex_cmp y z \<le> 0"
  then show "ospf6_vertex_cmp x z \<le> 0" using m lex_weights.le_trans by (auto simp: vertex_cmp_lex)
next
  fix x y
  assume "x \<in> small_costs" "y \<in> small_costs" "0 \<le> ospf6_vertex_cmp x y"
  then show "ospf6_vertex_cmp y x \<le> 0" using vertex_cmp_flip [of x y] by linarith
qed

section \<open>New candidates\<close>

text \<open>The interfaces that next hops are looked up on exist, and their link LSAs have an address.\<close>

definition ifs_ok :: "if_lists \<Rightarrow> ospf6 \<Rightarrow> bool" where
  "ifs_ok ifs top_st \<longleftrightarrow> (\<forall>iflist\<in>set ifs. \<forall>(i, info)\<in>set iflist. \<forall>oi. info = Some oi \<longrightarrow>
     (\<exists>ifc. top_if top_st oi = Some ifc \<and> (\<forall>l\<in>set (oi_lsdb ifc). type_of l = OSPF6_LSTYPE_LINK \<longrightarrow> 20 \<le> length (lsa_body l))))"

lemma ifs_lookup:
  assumes "ifs_ok ifs top_st" "ospf6_interface_lookup_by_ifindex ifs i = Some oi"
  shows "\<exists>ifc. top_if top_st oi = Some ifc \<and> (\<forall>l\<in>set (oi_lsdb ifc). type_of l = OSPF6_LSTYPE_LINK \<longrightarrow> 20 \<le> length (lsa_body l))"
  using assms
proof (induction ifs)
  case (Cons iflist ifs)
  have rest: "ifs_ok ifs top_st" using Cons.prems(1) by (simp add: ifs_ok_def)
  show ?case
  proof (cases "\<exists>j. if_lookup_by_index iflist i = Some (j, Some oi)")
    case True
    then obtain j where "(j, Some oi) \<in> set iflist" unfolding if_lookup_by_index_def find_Some_iff by (metis nth_mem)
    then show ?thesis using Cons.prems(1) by (fastforce simp: ifs_ok_def)
  next
    case False
    then have "ospf6_interface_lookup_by_ifindex ifs i = Some oi"
      using Cons.prems(2) by (auto simp: ospf6_interface_lookup_by_ifindex_def split: option.splits prod.splits)
    with Cons.IH rest show ?thesis by blast
  qed
qed (simp add: ospf6_interface_lookup_by_ifindex_def)

lemma nexthops_from_total:
  assumes "\<forall>l\<in>set ls. 20 \<le> length (lsa_body l)" "length nhs = OSPF6_MULTI_PATH_LIMIT"
    "is_router v \<Longrightarrow> \<exists>n. ROUTER_LSDESC_GET_NBR_IFID (vx_lsa v) p = Some n"
  shows "\<exists>nhs'. nexthops_from v p ifindex ls i nhs = Some nhs' \<and> length nhs' = OSPF6_MULTI_PATH_LIMIT"
  using assms
proof (induction ls arbitrary: i nhs)
  case (Cons l ls)
  have ih: "\<exists>nhs'. nexthops_from v p ifindex ls j xs = Some nhs' \<and> length nhs' = OSPF6_MULTI_PATH_LIMIT" if "length xs = OSPF6_MULTI_PATH_LIMIT" for j xs
    by (rule Cons.IH) (use Cons.prems that in auto)
  have a: "linklocal_addr l = Some (take 16 (drop 4 (lsa_body l)))" using Cons.prems(1) by (simp add: linklocal_addr_def)
  show ?case using ih Cons.prems(2,3) a by (cases "is_router v") auto
qed simp

lemma nexthop_calc_total:
  assumes "ifs_ok ifs top_st" "is_router w" "length (vx_nexthop w) = OSPF6_MULTI_PATH_LIMIT" "length (vx_nexthop v) = OSPF6_MULTI_PATH_LIMIT"
    "\<not> is_network v \<Longrightarrow> \<exists>i n r. ROUTER_LSDESC_GET_IFID (vx_lsa v) p = Some i \<and> ROUTER_LSDESC_GET_NBR_IFID (vx_lsa v) p = Some n
       \<and> ROUTER_LSDESC_GET_NBR_ROUTERID (vx_lsa v) p = Some r"
    "is_network v \<Longrightarrow> \<not> is_router v \<and> (\<exists>r. NETWORK_LSDESC_GET_NBR_ROUTERID (vx_lsa v) p = Some r)"
  shows "\<exists>nhs. ospf6_nexthop_calc ifs top_st w v p = Some (w\<lparr>vx_nexthop := nhs\<rparr>) \<and> length nhs = OSPF6_MULTI_PATH_LIMIT"
proof -
  have n0: "0 < length (vx_nexthop v)" using assms(4) by (simp add: OSPF6_MULTI_PATH_LIMIT_def)
  define ix where "ix = (if is_network v then do { n \<leftarrow> rd (vx_nexthop v) 0; Some (nh_ifindex n) } else ROUTER_LSDESC_GET_IFID (vx_lsa v) p)"
  define ar where "ar = (if is_network v then NETWORK_LSDESC_GET_NBR_ROUTERID (vx_lsa v) p else ROUTER_LSDESC_GET_NBR_ROUTERID (vx_lsa v) p)"
  obtain i r where ir: "ix = Some i" "ar = Some r" using assms(5,6) n0 by (cases "is_network v") (auto simp: ix_def ar_def)
  show ?thesis
  proof (cases "ospf6_interface_lookup_by_ifindex ifs i")
    case None
    with ir assms(2,3) show ?thesis unfolding ospf6_nexthop_calc_def ix_def [symmetric] by (auto intro!: exI [of _ "vx_nexthop w"])
  next
    case (Some oi)
    from ifs_lookup [OF assms(1) Some] obtain ifc where
      ifc: "top_if top_st oi = Some ifc" "\<forall>l\<in>set (oi_lsdb ifc). type_of l = OSPF6_LSTYPE_LINK \<longrightarrow> 20 \<le> length (lsa_body l)" by blast
    have "\<exists>nhs. nexthops_from v p i (store_type_router OSPF6_LSTYPE_LINK r (oi_lsdb ifc)) 0 (vx_nexthop w) = Some nhs \<and> length nhs = OSPF6_MULTI_PATH_LIMIT"
      by (rule nexthops_from_total) (use ifc assms(3,5,6) in \<open>auto simp: store_type_router_def\<close>)
    with ir Some ifc(1) assms(2) show ?thesis unfolding ospf6_nexthop_calc_def ix_def [symmetric] ar_def [symmetric] by auto
  qed
qed

lemma length_copy_nexthops [simp]: "length (copy_nexthops as bs) = length bs"
  by (induction as bs rule: copy_nexthops.induct) auto

lemma vertex_create_exact:
  assumes "lsdb_ok lsdb" "l \<in> vertex_lsas lsdb"
  shows "\<exists>w. ospf6_vertex_create l = Some w \<and> vertex_ok lsdb w \<and> vx_lsa w = l \<and> vx_cost w = 0 \<and> vx_hops w = 0 \<and> vx_parent w = None \<and> vx_child_list w = []"
proof -
  have "4 \<le> length (lsa_body l)" using assms by (auto simp: lsdb_ok_def vertex_lsas_def)
  then have "rd (lsa_body l) i = Some (lsa_body l ! i)" if "i < 4" for i using that by (simp add: rd_def)
  from this [of 0] this [of 1] this [of 2] this [of 3] show ?thesis using assms(2)
    by (cases "type_of l = OSPF6_LSTYPE_ROUTER") (simp_all add: ospf6_vertex_create_def vertex_ok_def vertex_lsas_def spf_vertex_def)
qed

lemma link_at_weight:
  assumes "link_at l p e l' b"
  shows "type_of l = OSPF6_LSTYPE_ROUTER \<Longrightarrow> \<exists>m. ROUTER_LSDESC_GET_METRIC l p = Some m \<and> e = (unat m, if type_of l' = OSPF6_LSTYPE_NETWORK then 0 else 1)"
    "type_of l = OSPF6_LSTYPE_NETWORK \<Longrightarrow> type_of l' = OSPF6_LSTYPE_ROUTER \<and> e = (0, 1)"
  using assms by (auto simp: link_at_def pointtopoint_link_def on_network_def)

text \<open>What is known of a candidate.\<close>

definition cand_ok :: "store \<Rightarrow> ospf6_vertex \<Rightarrow> bool" where
  "cand_ok lsdb v \<longleftrightarrow> vertex_ok lsdb v \<and> vx_child_list v = []"

lemma vertex_ok_room:
  assumes "lsdb_ok lsdb" "vertex_ok lsdb v" "p \<in> set (lsa_lsdescs (vx_lsa v))"
  shows "is_router v \<Longrightarrow> \<exists>m i n r. ROUTER_LSDESC_GET_METRIC (vx_lsa v) p = Some m \<and> ROUTER_LSDESC_GET_IFID (vx_lsa v) p = Some i
      \<and> ROUTER_LSDESC_GET_NBR_IFID (vx_lsa v) p = Some n \<and> ROUTER_LSDESC_GET_NBR_ROUTERID (vx_lsa v) p = Some r"
    and "is_network v \<Longrightarrow> \<exists>r. NETWORK_LSDESC_GET_NBR_ROUTERID (vx_lsa v) p = Some r"
  using lsdesc_room [OF assms(1) vertex_type(4) [OF assms(2)] assms(3)] vertex_type(1,2) [OF assms(2)]
    router_fields [of p "vx_lsa v"] network_fields [of p "vx_lsa v"] by auto

lemma candidate_distance_exact:
  assumes ok: "vertex_ok lsdb v" "vertex_ok lsdb w" "link_at (vx_lsa v) p e (vx_lsa w) b"
    and small: "unat (vx_cost v) + 65535 < 2 ^ 32" "unat (vx_hops v) + 1 < 256"
  shows "\<exists>c h. candidate_distance v p w = Some (w\<lparr>vx_cost := c, vx_hops := h\<rparr>) \<and> (unat c, unat h) = pair_add (vdist v) e
    \<and> (h = 0 \<longrightarrow> is_router v) \<and> (h = 1 \<and> vx_hops v = 0 \<longrightarrow> is_router w)"
proof -
  note t = vertex_type [OF ok(1)] and tw = vertex_type [OF ok(2)]
  have h1: "unat (vx_hops v + 1) = unat (vx_hops v) + 1" using small(2) by (subst unat_add_lem [THEN iffD1]) simp_all
  show ?thesis
  proof (cases "type_of (vx_lsa v) = OSPF6_LSTYPE_ROUTER")
    case True
    from link_at_weight(1) [OF ok(3) True] obtain m where m: "ROUTER_LSDESC_GET_METRIC (vx_lsa v) p = Some m"
      "e = (unat m, if type_of (vx_lsa w) = OSPF6_LSTYPE_NETWORK then 0 else 1)" by blast
    have "unat m < 2 ^ LENGTH(16)" by (rule unsigned_less)
    then have "unat (ucast m :: u32) = unat m" "unat m \<le> 65535" by (simp_all add: unsigned_ucast_eq take_bit_nat_eq_self)
    moreover from this have "unat (vx_cost v + ucast m) = unat (vx_cost v) + unat m" using small(1) by (subst unat_add_lem [THEN iffD1]) simp_all
    ultimately show ?thesis using True m t tw h1
      by - (rule exI [of _ "vx_cost v + ucast m"], rule exI [of _ "vx_hops v + (if is_network w then 0 else 1)"],
        auto simp: candidate_distance_def pair_add_def vdist_def)
  next
    case False
    then have n: "type_of (vx_lsa v) = OSPF6_LSTYPE_NETWORK" using t(3) by blast
    from link_at_weight(2) [OF ok(3) n] have "type_of (vx_lsa w) = OSPF6_LSTYPE_ROUTER" "e = (0, 1)" by simp_all
    moreover have "vx_hops v + 1 \<noteq> 0" using h1 by (metis Suc_eq_plus1 nat.simps(3) unat_0)
    ultimately show ?thesis using False n t tw h1
      by - (rule exI [of _ "vx_cost v"], rule exI [of _ "vx_hops v + 1"], simp add: candidate_distance_def pair_add_def vdist_def)
  qed
qed

lemma candidate_nexthops_total:
  assumes ok: "lsdb_ok lsdb" "vertex_ok lsdb v" "ifs_ok ifs top_st" "p \<in> set (lsa_lsdescs (vx_lsa v))" "length (vx_nexthop w) = OSPF6_MULTI_PATH_LIMIT"
    and w: "vx_hops w = 0 \<Longrightarrow> is_router v" "vx_hops w = 1 \<Longrightarrow> vx_hops v = 0 \<Longrightarrow> is_router w"
  shows "\<exists>nhs. candidate_nexthops ifs top_st v p w = Some (w\<lparr>vx_nexthop := nhs\<rparr>) \<and> length nhs = OSPF6_MULTI_PATH_LIMIT"
proof -
  note t = vertex_type [OF ok(2)] and f = vertex_ok_room [OF ok(1,2,4)]
  have nhv: "length (vx_nexthop v) = OSPF6_MULTI_PATH_LIMIT" using ok(2) by (simp add: vertex_ok_def)
  consider "vx_hops w = 0" | "vx_hops w \<noteq> 0" "vx_hops w = 1" "vx_hops v = 0" | "vx_hops w \<noteq> 0" "\<not> (vx_hops w = 1 \<and> vx_hops v = 0)" by blast
  then show ?thesis
  proof cases
    case 1
    with w(1) f(1) ok(5) show ?thesis by (auto simp: candidate_nexthops_def OSPF6_MULTI_PATH_LIMIT_def)
  next
    case 2
    have "\<exists>nhs. ospf6_nexthop_calc ifs top_st w v p = Some (w\<lparr>vx_nexthop := nhs\<rparr>) \<and> length nhs = OSPF6_MULTI_PATH_LIMIT"
      by (rule nexthop_calc_total [OF ok(3)]) (use w(2) [OF 2(2,3)] ok(5) nhv f t in auto)
    with 2 show ?thesis by (simp add: candidate_nexthops_def)
  next
    case 3
    with ok(5) show ?thesis by (auto simp: candidate_nexthops_def)
  qed
qed

lemma candidate_exact:
  assumes ok: "lsdb_ok lsdb" "vertex_ok lsdb v" "ifs_ok ifs top_st" and p: "p \<in> set (lsa_lsdescs (vx_lsa v))"
    and l': "l' \<in> vertex_lsas lsdb" "link_at (vx_lsa v) p e l' b" and small: "unat (vx_cost v) + 65535 < 2 ^ 32" "unat (vx_hops v) + 1 < 256"
  shows "\<exists>w. spf_candidate ifs top_st v a p l' = Some w \<and> cand_ok lsdb w \<and> vx_lsa w = l' \<and> vx_parent w = Some a \<and> vdist w = pair_add (vdist v) e"
proof -
  from vertex_create_exact [OF ok(1) l'(1)] obtain w where w: "ospf6_vertex_create l' = Some w" "vertex_ok lsdb w" "vx_lsa w = l'" "vx_child_list w = []" by blast
  let ?w = "w\<lparr>vx_parent := Some a\<rparr>"
  have wa: "vertex_ok lsdb ?w" "vx_lsa ?w = l'" using w by (simp_all add: vertex_ok_def)
  from candidate_distance_exact [OF ok(2) wa(1), unfolded wa(2), OF l'(2) small] obtain c h where
    d: "candidate_distance v p ?w = Some (?w\<lparr>vx_cost := c, vx_hops := h\<rparr>)" "(unat c, unat h) = pair_add (vdist v) e"
      "h = 0 \<Longrightarrow> is_router v" "h = 1 \<Longrightarrow> vx_hops v = 0 \<Longrightarrow> is_router ?w" by blast
  let ?w1 = "?w\<lparr>vx_cost := c, vx_hops := h\<rparr>"
  have "\<exists>nhs. candidate_nexthops ifs top_st v p ?w1 = Some (?w1\<lparr>vx_nexthop := nhs\<rparr>) \<and> length nhs = OSPF6_MULTI_PATH_LIMIT"
    by (rule candidate_nexthops_total [OF ok p]) (use wa(1) d(3,4) in \<open>auto simp: vertex_ok_def is_router_def\<close>)
  then obtain nhs where nhs: "candidate_nexthops ifs top_st v p ?w1 = Some (?w1\<lparr>vx_nexthop := nhs\<rparr>)" "length nhs = OSPF6_MULTI_PATH_LIMIT" by blast
  show ?thesis by (rule exI [of _ "?w1\<lparr>vx_nexthop := nhs\<rparr>"]) (use nhs w d in \<open>simp add: spf_candidate_def cand_ok_def vertex_ok_def vdist_def\<close>)
qed

section \<open>All links of a vertex\<close>

text \<open>A queue of candidates whose costs can be compared.\<close>

definition queue_ok :: "ospf6_vertex pqueue \<Rightarrow> bool" where
  "queue_ok q \<longleftrightarrow> pq_cmp q = ospf6_vertex_cmp \<and> pq_invar q \<and> set_mset (pq_elems q) \<subseteq> small_costs"

definition links_over :: "store \<Rightarrow> ospf6_lsa \<Rightarrow> nat list \<Rightarrow> nat \<times> nat \<Rightarrow> ospf6_lsa \<Rightarrow> bool" where
  "links_over lsdb l ds e l' \<longleftrightarrow> l' \<in> vertex_lsas lsdb \<and> (\<exists>p\<in>set ds. \<exists>b\<in>set (lsa_lsdescs l'). link_at l p e l' b)"

lemma links_over_all: "links_over lsdb l (lsa_lsdescs l) = link lsdb l"
  by (simp add: fun_eq_iff links_over_def link_def)

definition candidate_of :: "ospf6_vertex \<Rightarrow> (nat \<times> nat) \<times> ospf6_lsa" where
  "candidate_of w = (vdist w, vx_lsa w)"

lemma link_at_unique: "link_at l p e l' b \<Longrightarrow> link_at l p e' l' b' \<Longrightarrow> e = e'"
  by (auto simp: link_at_def pointtopoint_link_def on_network_def)

lemma links_over_Cons:
  "edges_from pair_add (\<lambda>l. links_over lsdb l (p # ds)) d l = edges_from pair_add (\<lambda>l. links_over lsdb l [p]) d l \<union> edges_from pair_add (\<lambda>l. links_over lsdb l ds) d l"
proof -
  have "links_over lsdb l (p # ds) e v \<longleftrightarrow> links_over lsdb l [p] e v \<or> links_over lsdb l ds e v" for e v by (auto simp: links_over_def)
  then show ?thesis unfolding edges_from_def by blast
qed

lemma enqueue_ok:
  assumes "queue_ok q" "w \<in> small_costs"
  shows "\<exists>q'. pqueue_enqueue nul True w q = Some q' \<and> queue_ok q' \<and> pq_elems q' = add_mset w (pq_elems q)"
  using vertex_order.enqueue_on [of q w nul] assms by (auto simp: queue_ok_def)

lemma candidate_small: "vdist w = pair_add (vdist v) e \<Longrightarrow> unat (vx_cost v) + fst e < 2 ^ 31 \<Longrightarrow> w \<in> small_costs"
  by (simp add: small_costs_def vdist_def pair_add_def)

lemma link_at_small: "link_at l p e l' b \<Longrightarrow> fst e \<le> 65535"
proof -
  have "unat m \<le> 65535" for m :: u16
  proof -
    have "unat m < 2 ^ LENGTH(16)" by (rule unsigned_less)
    then show ?thesis by simp
  qed
  then show "link_at l p e l' b \<Longrightarrow> fst e \<le> 65535" by (auto simp: link_at_def pointtopoint_link_def)
qed

text \<open>One description adds at most one candidate.\<close>

lemma spf_link_step:
  assumes ok: "lsdb_ok lsdb" "vertex_ok lsdb v" "ifs_ok ifs top_st" "p \<in> set (lsa_lsdescs (vx_lsa v))" "queue_ok q"
    and small: "unat (vx_cost v) + 65535 < 2 ^ 31" "unat (vx_hops v) + 1 < 256"
  shows "\<exists>q' ws. spf_links ifs top_st lsdb v a (p # ds) q = spf_links ifs top_st lsdb v a ds q' \<and> queue_ok q' \<and> pq_elems q' = mset ws + pq_elems q
    \<and> (\<forall>w\<in>set ws. cand_ok lsdb w \<and> vx_parent w = Some a) \<and> candidate_of ` set ws = edges_from pair_add (\<lambda>l. links_over lsdb l [p]) (vdist v) (vx_lsa v)"
proof -
  let ?l = "vx_lsa v"
  from follow_link [OF ok(1,2,4)] obtain r where r: "ospf6_lsdesc_lsa p v lsdb = Some r"
    and r2: "\<forall>l'. r = Some l' \<longrightarrow> l' \<in> set lsdb \<and> (\<exists>f. ospf6_lsdesc_backlink l' p v = Some f \<and> (f \<noteq> None \<longleftrightarrow> (\<exists>b\<in>set (lsa_lsdescs l'). \<exists>e. link_at ?l p e l' b)) \<and> (f \<noteq> None \<longrightarrow> l' \<in> vertex_lsas lsdb))"
    and r3: "\<forall>l' e b. l' \<in> vertex_lsas lsdb \<longrightarrow> link_at ?l p e l' b \<longrightarrow> r = Some l'" by (elim exE conjE)
  show ?thesis
  proof (cases "\<exists>l' e. links_over lsdb ?l [p] e l'")
    case False
    then have none: "edges_from pair_add (\<lambda>l. links_over lsdb l [p]) (vdist v) ?l = {}" by (auto simp: edges_from_def)
    have "spf_links ifs top_st lsdb v a (p # ds) q = spf_links ifs top_st lsdb v a ds q"
    proof (cases r)
      case (Some l')
      from r2 Some obtain f where f: "ospf6_lsdesc_backlink l' p v = Some f" "f \<noteq> None \<longrightarrow> l' \<in> vertex_lsas lsdb \<and> (\<exists>b\<in>set (lsa_lsdescs l'). \<exists>e. link_at ?l p e l' b)" by blast
      have "f = None" using f(2) False by (auto simp: links_over_def)
      with r f(1) Some show ?thesis by simp
    qed (use r in simp)
    with none ok(5) show ?thesis by (intro exI [of _ q] exI [of _ "[]"]) simp
  next
    case True
    then obtain l' e b where l': "l' \<in> vertex_lsas lsdb" "b \<in> set (lsa_lsdescs l')" "link_at ?l p e l' b" by (auto simp: links_over_def)
    from r3 l'(1,3) have rs: "r = Some l'" by blast
    from r2 rs l'(2,3) obtain f where f: "ospf6_lsdesc_backlink l' p v = Some f" "f \<noteq> None" by blast
    from candidate_exact [OF ok(1-4) l'(1,3) _ small(2), of a] small(1) obtain w where
      w: "spf_candidate ifs top_st v a p l' = Some w" "cand_ok lsdb w" "vx_lsa w = l'" "vx_parent w = Some a" "vdist w = pair_add (vdist v) e" by auto
    have "w \<in> small_costs" by (rule candidate_small [OF w(5)]) (use small(1) link_at_small [OF l'(3)] in linarith)
    from enqueue_ok [OF ok(5) this] obtain q' where q': "pqueue_enqueue vertex_null True w q = Some q'" "queue_ok q'" "pq_elems q' = add_mset w (pq_elems q)" by blast
    have one: "edges_from pair_add (\<lambda>l. links_over lsdb l [p]) (vdist v) ?l = {(pair_add (vdist v) e, l')}"
    proof -
      have "links_over lsdb ?l [p] e' l'' \<longleftrightarrow> e' = e \<and> l'' = l'" for e' l''
      proof
        assume a: "links_over lsdb ?l [p] e' l''"
        then obtain b' where b': "l'' \<in> vertex_lsas lsdb" "link_at ?l p e' l'' b'" by (auto simp: links_over_def)
        with r3 rs have "l'' = l'" by blast
        with b'(2) l'(3) link_at_unique show "e' = e \<and> l'' = l'" by blast
      qed (use l' in \<open>auto simp: links_over_def\<close>)
      then show ?thesis unfolding edges_from_def by (simp only:) blast
    qed
    have "spf_links ifs top_st lsdb v a (p # ds) q = spf_links ifs top_st lsdb v a ds q'" using r rs f w(1) q'(1) by auto
    with q'(2,3) w one show ?thesis by (intro exI [of _ q'] exI [of _ "[w]"]) (simp add: candidate_of_def)
  qed
qed

lemma spf_links_exact:
  assumes ok: "lsdb_ok lsdb" "vertex_ok lsdb v" "ifs_ok ifs top_st"
    and small: "unat (vx_cost v) + 65535 < 2 ^ 31" "unat (vx_hops v) + 1 < 256"
    and "set ds \<subseteq> set (lsa_lsdescs (vx_lsa v))" "queue_ok q"
  shows "\<exists>q' ws. spf_links ifs top_st lsdb v a ds q = Some q' \<and> queue_ok q' \<and> pq_elems q' = mset ws + pq_elems q
    \<and> (\<forall>w\<in>set ws. cand_ok lsdb w \<and> vx_parent w = Some a) \<and> candidate_of ` set ws = edges_from pair_add (\<lambda>l. links_over lsdb l ds) (vdist v) (vx_lsa v)"
  using assms(6,7)
proof (induction ds arbitrary: q)
  case Nil
  then show ?case by (intro exI [of _ q] exI [of _ "[]"]) (simp add: edges_from_def links_over_def)
next
  case (Cons p ds)
  have p: "p \<in> set (lsa_lsdescs (vx_lsa v))" "set ds \<subseteq> set (lsa_lsdescs (vx_lsa v))" using Cons.prems(1) by auto
  from spf_link_step [OF ok p(1) Cons.prems(2) small, of a ds] obtain q1 ws1 where
    1: "spf_links ifs top_st lsdb v a (p # ds) q = spf_links ifs top_st lsdb v a ds q1" "queue_ok q1" "pq_elems q1 = mset ws1 + pq_elems q"
      "\<forall>w\<in>set ws1. cand_ok lsdb w \<and> vx_parent w = Some a" "candidate_of ` set ws1 = edges_from pair_add (\<lambda>l. links_over lsdb l [p]) (vdist v) (vx_lsa v)" by blast
  from Cons.IH [OF p(2) 1(2)] obtain q2 ws2 where
    2: "spf_links ifs top_st lsdb v a ds q1 = Some q2" "queue_ok q2" "pq_elems q2 = mset ws2 + pq_elems q1"
      "\<forall>w\<in>set ws2. cand_ok lsdb w \<and> vx_parent w = Some a" "candidate_of ` set ws2 = edges_from pair_add (\<lambda>l. links_over lsdb l ds) (vdist v) (vx_lsa v)" by blast
  have "candidate_of ` set (ws1 @ ws2) = edges_from pair_add (\<lambda>l. links_over lsdb l (p # ds)) (vdist v) (vx_lsa v)"
    by (simp only: links_over_Cons [of lsdb p ds "vdist v" "vx_lsa v"] set_append image_Un 1(5) 2(5))
  then show ?case using 1 2 by (intro exI [of _ q2] exI [of _ "ws1 @ ws2"]) (auto simp: ac_simps)
qed

end
