(* ===== verification/Ospf6_Spf_Table.thy ===== *)
theory Ospf6_Spf_Table
  imports Ospf6_Spf_Search
begin

text \<open>
  The result of the shortest path calculation: the table of routes and the vertices they
  refer to, how it is emptied and how a vertex is installed.
\<close>

section \<open>Routes of vertices\<close>

definition full_prefix :: "prefix \<Rightarrow> bool" where
  "full_prefix p \<longleftrightarrow> pfx_family p = AF_INET6 \<and> length (pfx_u p) = 16"

lemma full_prefix_same:
  assumes "full_prefix p" "full_prefix q"
  shows "\<exists>s. prefix_same p q = Some s \<and> (s \<noteq> 0 \<longrightarrow> prefix_bits p = prefix_bits q)"
  using assms by (auto simp: full_prefix_def prefix_same_def memcmp_eq_def prefix_bits_def AF_INET_def AF_INET6_def)

lemma full_linkstate [simp]: "full_prefix (ospf6_linkstate_prefix r i)"
  by (simp add: full_prefix_def ospf6_linkstate_prefix_def)

definition lsa_key :: "ospf6_lsa \<Rightarrow> bool list" where
  "lsa_key l = prefix_bits (ospf6_linkstate_prefix (adv_router_of l) (id_of l))"

lemma lsa_key_eq: "lsa_key l = lsa_key l' \<longleftrightarrow> adv_router_of l = adv_router_of l' \<and> id_of l = id_of l'"
proof -
  have k: "lsa_key l = bits_of (be32 (adv_router_of l) @ be32 (id_of l))" for l
    by (simp add: lsa_key_def prefix_bits_def ospf6_linkstate_prefix_def)
  have "lsa_key l = lsa_key l' \<longleftrightarrow> be32 (adv_router_of l) @ be32 (id_of l) = be32 (adv_router_of l') @ be32 (id_of l')"
    unfolding k by (rule bits_of_inj) simp
  then show ?thesis by (simp add: be32_inj)
qed

lemma lsa_key_inj:
  assumes "lsdb_ok lsdb" "l \<in> vertex_lsas lsdb" "l' \<in> vertex_lsas lsdb"
  shows "lsa_key l = lsa_key l' \<longleftrightarrow> l = l'"
proof
  assume "lsa_key l = lsa_key l'"
  then have k: "adv_router_of l = adv_router_of l'" "id_of l = id_of l'" by (simp_all add: lsa_key_eq)
  have m: "l \<in> set lsdb" "l' \<in> set lsdb" "spf_vertex l" "spf_vertex l'" using assms(2,3) by (simp_all add: vertex_lsas_def)
  have "type_of x = OSPF6_LSTYPE_NETWORK \<longleftrightarrow> id_of x \<noteq> 0" if "x \<in> set lsdb" "spf_vertex x" for x
    using assms(1) that by (auto simp: spf_vertex_def lsdb_ok_def)
  from this [OF m(1,3)] this [OF m(2,4)] m(3,4) k(2) have "type_of l = type_of l'" by (auto simp: spf_vertex_def)
  with k lookup_self [OF assms(1) m(1)] lookup_self [OF assms(1) m(2)] show "l = l'" by (metis option.inject)
qed simp

lemma position_None: "position P xs = None \<longleftrightarrow> (\<forall>x\<in>set xs. \<not> P x)"
  by (induction xs) auto

lemma position_Some: "position P xs = Some i \<Longrightarrow> i < length xs \<and> P (xs ! i)"
  by (induction xs arbitrary: i) (auto split: if_splits)

definition rdist :: "ospf6_route \<Rightarrow> nat \<times> nat" where
  "rdist r = (unat (pa_cost (ro_path r)), unat (pa_cost_e2 (ro_path r)))"

text \<open>The distance that a table has for the vertex of an LSA: its cost and its hops.\<close>

definition spf_dist :: "spf \<Rightarrow> ospf6_lsa \<Rightarrow> (nat \<times> nat) option" where
  "spf_dist st l = map_option rdist (find (\<lambda>r. route_bits r = lsa_key l) (tb_routes (spf_table st)))"

section \<open>Tables and vertices\<close>

text \<open>Every vertex belongs to exactly one route.\<close>

abbreviation routes :: "spf \<Rightarrow> ospf6_route list" where
  "routes st \<equiv> tb_routes (spf_table st)"

definition table_ok :: "spf \<Rightarrow> bool" where
  "table_ok st \<longleftrightarrow> (\<forall>r\<in>set (routes st). full_prefix (ro_prefix r) \<and> ro_route_option r \<noteq> None)
     \<and> distinct (map route_bits (routes st)) \<and> distinct (map ro_route_option (routes st))
     \<and> (\<forall>a. spf_vertices st a \<noteq> None \<longleftrightarrow> Some a \<in> ro_route_option ` set (routes st))
     \<and> (\<forall>a. spf_vertices st a \<noteq> None \<longrightarrow> a < spf_brk st) \<and> tb_count (spf_table st) = word_of_nat (length (routes st))"

lemma table_finish_step:
  assumes ok: "table_ok st" and rs: "routes st = r # rs"
  shows "\<exists>a v table h. ro_route_option r = Some a \<and> spf_vertices st a = Some v \<and> ospf6_route_remove 0 (spf_table st) = Some (table, h) \<and> tb_routes table = rs
    \<and> table_ok (st\<lparr>spf_table := table, spf_vertices := (spf_vertices st)(a := None)\<rparr>)"
proof -
  from ok rs obtain a where a: "ro_route_option r = Some a" by (auto simp: table_ok_def)
  from ok rs a obtain v where v: "spf_vertices st a = Some v" unfolding table_ok_def by (metis image_eqI list.set_intros(1) not_None_eq)
  let ?tb = "(spf_table st)\<lparr>tb_routes := rs, tb_count := tb_count (spf_table st) - 1\<rparr>"
  have look: "ospf6_route_lookup (ro_prefix r) (spf_table st) = Some 0" by (simp add: ospf6_route_lookup_def rs route_bits_def)
  have "\<exists>h. ospf6_route_remove 0 (spf_table st) = Some (?tb, h)"
  proof (cases rs)
    case Nil
    then show ?thesis by (simp add: ospf6_route_remove_def rs look rd_def)
  next
    case (Cons r' rs')
    have p: "full_prefix (ro_prefix r)" "full_prefix (ro_prefix r')" "route_bits r' \<noteq> route_bits r" using ok rs Cons by (auto simp: table_ok_def)
    from full_prefix_same [OF p(2,1)] p(3) have "ospf6_route_is_same r' r = Some False" by (auto simp: ospf6_route_is_same_def route_bits_def)
    with Cons show ?thesis by (simp add: ospf6_route_remove_def rs look rd_def)
  qed
  moreover have "table_ok (st\<lparr>spf_table := ?tb, spf_vertices := (spf_vertices st)(a := None)\<rparr>)"
  proof -
    have "Some b \<in> ro_route_option ` set rs \<longleftrightarrow> b \<noteq> a \<and> spf_vertices st b \<noteq> None" for b
      using ok rs a by (auto simp: table_ok_def image_iff)
    then show ?thesis using ok rs by (auto simp: table_ok_def)
  qed
  ultimately show ?thesis using a v by auto
qed

lemma table_finish_total:
  "table_ok st \<Longrightarrow> length (routes st) = n \<Longrightarrow> \<exists>st'. table_finish n st = Some st' \<and> table_ok st' \<and> routes st' = []"
proof (induction n arbitrary: st)
  case (Suc n)
  then obtain r rs where rs: "routes st = r # rs" by (cases "routes st") auto
  from table_finish_step [OF Suc.prems(1) rs] obtain a v table h where
    s: "ro_route_option r = Some a" "spf_vertices st a = Some v" "ospf6_route_remove 0 (spf_table st) = Some (table, h)" "tb_routes table = rs"
      "table_ok (st\<lparr>spf_table := table, spf_vertices := (spf_vertices st)(a := None)\<rparr>)" by blast
  have "length rs = n" using Suc.prems(2) rs by simp
  with Suc.IH [OF s(5)] s(4) obtain st' where "table_finish n (st\<lparr>spf_table := table, spf_vertices := (spf_vertices st)(a := None)\<rparr>) = Some st'"
    "table_ok st'" "routes st' = []" by auto
  with rs s(1-3) show ?case by (auto simp: rd_def)
qed simp

lemma finish_total: "table_ok st \<Longrightarrow> \<exists>st'. ospf6_spf_table_finish st = Some st' \<and> table_ok st' \<and> routes st' = []"
  unfolding ospf6_spf_table_finish_def by (rule table_finish_total) simp_all

lemma spf_dist_iff:
  assumes "table_ok st"
  shows "spf_dist st l = Some d \<longleftrightarrow> (\<exists>r\<in>set (routes st). route_bits r = lsa_key l \<and> rdist r = d)"
proof -
  have "distinct (map route_bits (routes st))" using assms by (auto simp: table_ok_def)
  then have u: "r = r'" if "r \<in> set (routes st)" "r' \<in> set (routes st)" "route_bits r = route_bits r'" for r r'
    using that by (auto simp: distinct_map inj_on_def)
  show ?thesis
  proof (cases "find (\<lambda>r. route_bits r = lsa_key l) (routes st)")
    case None
    then show ?thesis unfolding spf_dist_def using find_None_iff [of "\<lambda>r. route_bits r = lsa_key l" "routes st"] by auto
  next
    case (Some r)
    then have "r \<in> set (routes st)" "route_bits r = lsa_key l" by (auto simp: find_Some_iff)
    then have "route_bits r' = lsa_key l \<longleftrightarrow> r' = r" if "r' \<in> set (routes st)" for r' using u that by metis
    with Some \<open>r \<in> set (routes st)\<close> show ?thesis by (auto simp: spf_dist_def)
  qed
qed

lemma spf_dist_None: "spf_dist st l = None \<longleftrightarrow> (\<forall>r\<in>set (routes st). route_bits r \<noteq> lsa_key l)"
  by (auto simp: spf_dist_def find_None_iff)

section \<open>Installed vertices\<close>

definition route_ok :: "store \<Rightarrow> spf \<Rightarrow> ospf6_route \<Rightarrow> bool" where
  "route_ok lsdb st r \<longleftrightarrow> (\<exists>a v. ro_route_option r = Some a \<and> spf_vertices st a = Some v \<and> vertex_ok lsdb v \<and> ro_prefix r = vx_vertex_id v
     \<and> pa_cost (ro_path r) = vx_cost v \<and> pa_cost_e2 (ro_path r) = ucast (vx_hops v))"

definition tree_ok :: "store \<Rightarrow> spf \<Rightarrow> bool" where
  "tree_ok lsdb st \<longleftrightarrow> table_ok st \<and> (\<forall>r\<in>set (routes st). route_ok lsdb st r)
     \<and> (\<forall>a v. spf_vertices st a = Some v \<longrightarrow> set (vx_child_list v) \<subseteq> dom (spf_vertices st))"

lemma tree_vertex:
  assumes "tree_ok lsdb st" "spf_vertices st a = Some v"
  shows "vertex_ok lsdb v"
proof -
  from assms obtain r where "r \<in> set (routes st)" "ro_route_option r = Some a" unfolding tree_ok_def table_ok_def by (metis imageE option.distinct(1))
  with assms show ?thesis by (auto simp: tree_ok_def route_ok_def)
qed

lemma vertex_id_bits: "vertex_ok lsdb v \<Longrightarrow> prefix_bits (vx_vertex_id v) = lsa_key (vx_lsa v) \<and> full_prefix (vx_vertex_id v)"
  by (simp add: vertex_ok_def lsa_key_def)

lemma id_cmp_total:
  assumes "full_prefix (vx_vertex_id v)" "full_prefix (vx_vertex_id w)"
  shows "\<exists>c. ospf6_vertex_id_cmp v w = Some c"
  using assms by (simp add: ospf6_vertex_id_cmp_def full_prefix_def get_u32_def rd_def)

lemma add_sort_total:
  assumes "full_prefix (vx_vertex_id v)" "\<forall>n\<in>set ns. \<exists>w. H n = Some w \<and> full_prefix (vx_vertex_id w)"
  shows "\<exists>ns'. alt_listnode_add_sort H v a ns = Some ns' \<and> set ns' = insert a (set ns)"
  using assms(2)
proof (induction ns)
  case (Cons n ns)
  then obtain w ns' where w: "H n = Some w" "full_prefix (vx_vertex_id w)" "alt_listnode_add_sort H v a ns = Some ns'" "set ns' = insert a (set ns)" by auto
  from id_cmp_total [OF assms(1) w(2)] obtain c where "ospf6_vertex_id_cmp v w = Some c" by blast
  with w show ?case by (auto simp: insert_commute)
qed simp

lemma find_pairs: "map_option g (find (\<lambda>x. f x = k) xs) = map_option snd (find (\<lambda>p. fst p = k) (map (\<lambda>x. (f x, g x)) xs))"
  by (induction xs) auto

lemma spf_dist_cong: "map (\<lambda>r. (route_bits r, rdist r)) (routes st) = map (\<lambda>r. (route_bits r, rdist r)) (routes st') \<Longrightarrow> spf_dist st = spf_dist st'"
  by (simp add: fun_eq_iff spf_dist_def find_pairs [of rdist route_bits])

text \<open>Only the prefix, the path and the vertex of a route matter here.\<close>

definition route_core :: "ospf6_route \<Rightarrow> prefix \<times> ospf6_path \<times> nat option" where
  "route_core r = (ro_prefix r, ro_path r, ro_route_option r)"

lemma same_core:
  assumes core: "map route_core rs = map route_core (routes st)" and ok: "tree_ok lsdb st"
  defines "st' \<equiv> st\<lparr>spf_table := (spf_table st)\<lparr>tb_routes := rs\<rparr>\<rparr>"
  shows "tree_ok lsdb st'" "spf_dist st' = spf_dist st"
proof -
  have m: "map f rs = map f (routes st)" if "f = g \<circ> route_core" for f :: "ospf6_route \<Rightarrow> 'x" and g
    unfolding that map_map [symmetric] core ..
  have bits: "map route_bits rs = map route_bits (routes st)" by (rule m [of _ "prefix_bits \<circ> fst"]) (auto simp: route_bits_def route_core_def)
  have opts: "map ro_route_option rs = map ro_route_option (routes st)" by (rule m [of _ "snd \<circ> snd"]) (auto simp: route_core_def)
  have dists: "map (\<lambda>r. (route_bits r, rdist r)) rs = map (\<lambda>r. (route_bits r, rdist r)) (routes st)"
    by (rule m [of _ "\<lambda>(p, q, o'). (prefix_bits p, unat (pa_cost q), unat (pa_cost_e2 q))"]) (auto simp: route_core_def route_bits_def rdist_def)
  have mem: "\<exists>y\<in>set (routes st). route_core x = route_core y" if "x \<in> set rs" for x
  proof -
    have "route_core x \<in> set (map route_core rs)" using that by simp
    then show ?thesis unfolding core by auto
  qed
  have img: "ro_route_option ` set rs = ro_route_option ` set (routes st)" using opts by (metis list.set_map)
  have len: "length rs = length (routes st)" using core by (rule map_eq_imp_length_eq)
  have each: "full_prefix (ro_prefix x) \<and> ro_route_option x \<noteq> None" "route_ok lsdb st' x" if x: "x \<in> set rs" for x
  proof -
    from mem [OF x] obtain y where "y \<in> set (routes st)" "ro_prefix x = ro_prefix y" "ro_path x = ro_path y" "ro_route_option x = ro_route_option y"
      by (auto simp: route_core_def)
    with ok show "full_prefix (ro_prefix x) \<and> ro_route_option x \<noteq> None" "route_ok lsdb st' x"
      by (auto simp: tree_ok_def table_ok_def route_ok_def st'_def)
  qed
  have rs: "routes st' = rs" by (simp add: st'_def)
  have "table_ok st'" unfolding table_ok_def rs bits opts img len using ok each(1) by (auto simp: tree_ok_def table_ok_def st'_def)
  with ok each(2) show "tree_ok lsdb st'" unfolding tree_ok_def rs by (simp add: st'_def)
  show "spf_dist st' = spf_dist st" by (rule spf_dist_cong) (simp add: st'_def dists)
qed

text \<open>A vertex that is known is dropped; its next hops may be added to the route.\<close>

lemma install_known:
  assumes ok: "tree_ok lsdb st" "vertex_ok lsdb v" and d: "spf_dist st (vx_lsa v) = Some d" "lex_le d (vdist v)"
  shows "\<exists>st'. ospf6_spf_install clock hostnum v st = Some (None, st') \<and> tree_ok lsdb st' \<and> spf_vertices st' = spf_vertices st
    \<and> spf_brk st' = spf_brk st \<and> spf_dist st' = spf_dist st"
proof -
  have tb: "table_ok st" using ok(1) by (simp add: tree_ok_def)
  note k = vertex_id_bits [OF ok(2)]
  from d(1) have "\<exists>r\<in>set (routes st). route_bits r = lsa_key (vx_lsa v)" by (auto simp: spf_dist_iff [OF tb])
  then obtain i where i: "ospf6_route_lookup (vx_vertex_id v) (spf_table st) = Some i" using k
    by (cases "ospf6_route_lookup (vx_vertex_id v) (spf_table st)") (auto simp: ospf6_route_lookup_def position_None)
  let ?r = "routes st ! i"
  from position_Some [OF i [unfolded ospf6_route_lookup_def]] k have r: "i < length (routes st)" "route_bits ?r = lsa_key (vx_lsa v)" by simp_all
  then have rd: "rdist ?r = d" using d(1) nth_mem [OF r(1)] tb by (metis (mono_tags, lifting) option.inject spf_dist_iff)
  from ok(1) nth_mem [OF r(1)] obtain a u where u: "ro_route_option ?r = Some a" "spf_vertices st a = Some u"
    "pa_cost (ro_path ?r) = vx_cost u" "pa_cost_e2 (ro_path ?r) = ucast (vx_hops u)" by (auto simp: tree_ok_def route_ok_def)
  have le: "lex_le (rdist ?r) (vdist v)" using rd d(2) by simp
  show ?thesis
  proof (cases "pa_cost (ro_path ?r) < vx_cost v")
    case True
    then show ?thesis using i r(1) ok(1) by (intro exI [of _ st]) (simp add: ospf6_spf_install_def)
  next
    case False
    then have c: "pa_cost (ro_path ?r) = vx_cost v" "unat (pa_cost_e2 (ro_path ?r)) \<le> unat (vx_hops v)"
      using le by (auto simp: lex_le_def rdist_def vdist_def word_less_nat_alt word_unat_eq_iff)
    have h: "vx_hops u \<le> vx_hops v"
    proof -
      have "unat (vx_hops u) < 2 ^ LENGTH(8)" by (rule unsigned_less)
      then have "unat (ucast (vx_hops u) :: u32) = unat (vx_hops u)" by (simp add: unsigned_ucast_eq take_bit_nat_eq_self)
      then show ?thesis using c(2) u(4) by (simp add: word_le_nat_alt)
    qed
    let ?r' = "?r\<lparr>ro_nexthop := merge_nexthops (vx_nexthop v) (ro_nexthop ?r)\<rparr>"
    let ?st = "st\<lparr>spf_table := (spf_table st)\<lparr>tb_routes := (routes st)[i := ?r']\<rparr>\<rparr>"
    have "ospf6_spf_install clock hostnum v st = Some (None, ?st)"
      using i r(1) False c(1) u(1,2) h by (simp add: ospf6_spf_install_def Let_def)
    moreover have "map route_core ((routes st)[i := ?r']) = map route_core (routes st)"
      using r(1) by (intro nth_equalityI) (auto simp: nth_list_update route_core_def)
    from same_core [OF this ok(1)] have "tree_ok lsdb ?st" "spf_dist ?st = spf_dist st" .
    ultimately show ?thesis using ok(1) by (intro exI [of _ ?st]) simp
  qed
qed

text \<open>A vertex that is not known is installed at a fresh address.\<close>

lemma link_child_total:
  assumes ok: "tree_ok lsdb st" "vertex_ok lsdb v" and par: "\<And>p. vx_parent v = Some p \<Longrightarrow> p \<in> dom (spf_vertices st)"
    and child: "vx_child_list v = []"
  defines "H \<equiv> (spf_vertices st)(spf_brk st \<mapsto> v)"
  shows "\<exists>H'. (case vx_parent v of None \<Rightarrow> Some H
      | Some p \<Rightarrow> do { pv \<leftarrow> H p; cs \<leftarrow> alt_listnode_add_sort H v (spf_brk st) (vx_child_list pv); Some (H(p \<mapsto> pv\<lparr>vx_child_list := cs\<rparr>)) }) = Some H'
    \<and> dom H' = insert (spf_brk st) (dom (spf_vertices st)) \<and> H' (spf_brk st) = Some v
    \<and> (\<forall>a u. spf_vertices st a = Some u \<longrightarrow> (\<exists>cs. H' a = Some (u\<lparr>vx_child_list := cs\<rparr>) \<and> set cs \<subseteq> insert (spf_brk st) (dom (spf_vertices st))))"
proof -
  let ?b = "spf_brk st"
  have fresh: "spf_vertices st ?b = None" using ok(1) unfolding tree_ok_def table_ok_def by (metis less_irrefl)
  have kids: "set (vx_child_list u) \<subseteq> dom (spf_vertices st)" if "spf_vertices st a = Some u" for a u using ok(1) that by (auto simp: tree_ok_def)
  have id: "u\<lparr>vx_child_list := vx_child_list u\<rparr> = u" for u :: ospf6_vertex by simp
  have self: "\<exists>cs. spf_vertices st a = Some (u\<lparr>vx_child_list := cs\<rparr>) \<and> set cs \<subseteq> insert ?b (dom (spf_vertices st))" if "spf_vertices st a = Some u" for a u
    using that kids [OF that] by (intro exI [of _ "vx_child_list u"]) auto
  show ?thesis
  proof (cases "vx_parent v")
    case None
    then show ?thesis using fresh self by (intro exI [of _ H]) (auto simp: H_def)
  next
    case (Some p)
    then obtain pv where pv: "spf_vertices st p = Some pv" using par by blast
    then have pb: "p \<noteq> ?b" using fresh by auto
    have "\<forall>n\<in>set (vx_child_list pv). \<exists>w. H n = Some w \<and> full_prefix (vx_vertex_id w)"
    proof
      fix n assume "n \<in> set (vx_child_list pv)"
      with kids [OF pv] obtain w where w: "spf_vertices st n = Some w" by blast
      from vertex_id_bits [OF tree_vertex [OF ok(1) w]] w fresh show "\<exists>w. H n = Some w \<and> full_prefix (vx_vertex_id w)" by (auto simp: H_def)
    qed
    from add_sort_total [OF _ this, of v ?b] vertex_id_bits [OF ok(2)] obtain cs where
      cs: "alt_listnode_add_sort H v ?b (vx_child_list pv) = Some cs" "set cs = insert ?b (set (vx_child_list pv))" by auto
    let ?H = "H(p \<mapsto> pv\<lparr>vx_child_list := cs\<rparr>)"
    have "\<exists>cs. ?H a = Some (u\<lparr>vx_child_list := cs\<rparr>) \<and> set cs \<subseteq> insert ?b (dom (spf_vertices st))" if "spf_vertices st a = Some u" for a u
      using that self [OF that] pv cs(2) kids [OF pv] fresh by (cases "a = p") (auto simp: H_def)
    then show ?thesis using Some pv pb cs(1) by (intro exI [of _ ?H]) (auto simp: H_def)
  qed
qed

lemma new_route_exact:
  assumes "ospf6_route_lookup (ro_prefix route) table = None"
  shows "\<exists>i table' h r xs ys. ospf6_route_add now route table = Some (i, table', h) \<and> tb_routes table = xs @ ys \<and> tb_routes table' = xs @ r # ys
    \<and> route_core r = route_core route \<and> tb_count table' = tb_count table + 1"
proof -
  let ?P = "\<lambda>r. bits_less (route_bits r) (route_bits route)"
  let ?r = "route_flag_set OSPF6_ROUTE_ADD ((route_flag_set OSPF6_ROUTE_BEST route)\<lparr>ro_installed := now, ro_changed := now\<rparr>)"
  have "route_core ?r = route_core route" by (simp add: route_core_def route_flag_set_def)
  moreover have "\<exists>i table' h. ospf6_route_add now route table = Some (i, table', h)
      \<and> tb_routes table' = takeWhile ?P (tb_routes table) @ ?r # dropWhile ?P (tb_routes table) \<and> tb_count table' = tb_count table + 1"
    using assms by (simp add: ospf6_route_add_def new_route_def Let_def)
  ultimately show ?thesis by (metis takeWhile_dropWhile_id)
qed

lemma table_ok_insert:
  assumes ok: "table_ok st" and rs: "routes st = xs @ ys" "tb_routes table = xs @ r # ys" "tb_count table = tb_count (spf_table st) + 1"
    and r: "full_prefix (ro_prefix r)" "ro_route_option r = Some (spf_brk st)" "route_bits r \<notin> route_bits ` set (routes st)"
    and dom: "dom H = insert (spf_brk st) (dom (spf_vertices st))"
  shows "table_ok (st\<lparr>spf_table := table, spf_vertices := H, spf_brk := spf_brk st + 1\<rparr>)"
proof -
  have fresh: "Some (spf_brk st) \<notin> ro_route_option ` set (routes st)" using ok unfolding table_ok_def by (metis less_irrefl)
  have H: "H a \<noteq> None \<longleftrightarrow> a = spf_brk st \<or> spf_vertices st a \<noteq> None" for a using dom by (auto simp: dom_def)
  show ?thesis unfolding table_ok_def
  proof (intro conjI)
    show "\<forall>a. spf_vertices (st\<lparr>spf_table := table, spf_vertices := H, spf_brk := spf_brk st + 1\<rparr>) a \<noteq> None
        \<longrightarrow> a < spf_brk (st\<lparr>spf_table := table, spf_vertices := H, spf_brk := spf_brk st + 1\<rparr>)"
      using ok H by (auto simp: table_ok_def less_Suc_eq)
    show "\<forall>a. (spf_vertices (st\<lparr>spf_table := table, spf_vertices := H, spf_brk := spf_brk st + 1\<rparr>) a \<noteq> None)
        = (Some a \<in> ro_route_option ` set (routes (st\<lparr>spf_table := table, spf_vertices := H, spf_brk := spf_brk st + 1\<rparr>)))"
      using ok H rs r(2) by (simp add: table_ok_def image_Un)
  qed (use ok rs r fresh in \<open>auto simp: table_ok_def\<close>)
qed

text \<open>The heap after an installation: only the children of old vertices differ.\<close>

definition grown :: "spf \<Rightarrow> (nat \<Rightarrow> ospf6_vertex option) \<Rightarrow> bool" where
  "grown st H \<longleftrightarrow> (\<forall>a u. spf_vertices st a = Some u \<longrightarrow>
     (\<exists>cs. H a = Some (u\<lparr>vx_child_list := cs\<rparr>) \<and> set cs \<subseteq> insert (spf_brk st) (dom (spf_vertices st))))"

lemma route_ok_heap:
  assumes "route_ok lsdb st x" "grown st H"
  shows "route_ok lsdb (st\<lparr>spf_table := table, spf_vertices := H, spf_brk := b\<rparr>) x"
proof -
  from assms(1) obtain a u where a: "ro_route_option x = Some a" "spf_vertices st a = Some u" "vertex_ok lsdb u" "ro_prefix x = vx_vertex_id u"
    "pa_cost (ro_path x) = vx_cost u" "pa_cost_e2 (ro_path x) = ucast (vx_hops u)" by (auto simp: route_ok_def)
  from assms(2) a(2) obtain cs where "H a = Some (u\<lparr>vx_child_list := cs\<rparr>)" unfolding grown_def by blast
  with a show ?thesis by (auto simp: route_ok_def vertex_ok_def)
qed

lemma children_heap:
  assumes "grown st H" "dom H = insert (spf_brk st) (dom (spf_vertices st))" "H (spf_brk st) = Some v" "vx_child_list v = []" "H a = Some u"
  shows "set (vx_child_list u) \<subseteq> insert (spf_brk st) (dom (spf_vertices st))"
proof (cases "a = spf_brk st")
  case False
  have "a \<in> dom H" using assms(5) by (rule domI)
  with assms(2) False obtain u' where "spf_vertices st a = Some u'" by auto
  with assms(1) obtain cs where "H a = Some (u'\<lparr>vx_child_list := cs\<rparr>)" "set cs \<subseteq> insert (spf_brk st) (dom (spf_vertices st))" unfolding grown_def by blast
  then show ?thesis using assms(5) by auto
qed (use assms(3-5) in simp)

lemma spf_dist_insert:
  assumes "table_ok st" "table_ok st'" "set (routes st') = insert r (set (routes st))" "route_bits r \<notin> route_bits ` set (routes st)"
  shows "spf_dist st' l = (if lsa_key l = route_bits r then Some (rdist r) else spf_dist st l)"
proof -
  have "spf_dist st' l = Some d \<longleftrightarrow> (if lsa_key l = route_bits r then Some (rdist r) else spf_dist st l) = Some d" for d
  proof (cases "lsa_key l = route_bits r")
    case True
    then have "\<not> (\<exists>x\<in>set (routes st). route_bits x = lsa_key l)" using assms(4) by (metis image_eqI)
    then show ?thesis unfolding spf_dist_iff [OF assms(2)] assms(3) using True by auto
  next
    case False
    then show ?thesis unfolding spf_dist_iff [OF assms(2)] assms(3) using spf_dist_iff [OF assms(1), of l d] by auto
  qed
  then show ?thesis by (metis not_Some_eq)
qed

lemma install_new:
  assumes ok: "tree_ok lsdb st" "cand_ok lsdb v" and par: "\<And>p. vx_parent v = Some p \<Longrightarrow> p \<in> dom (spf_vertices st)"
    and new: "spf_dist st (vx_lsa v) = None"
  shows "\<exists>st'. ospf6_spf_install clock hostnum v st = Some (Some (spf_brk st), st') \<and> tree_ok lsdb st'
    \<and> dom (spf_vertices st') = insert (spf_brk st) (dom (spf_vertices st))
    \<and> (\<forall>l. spf_dist st' l = (if lsa_key l = lsa_key (vx_lsa v) then Some (vdist v) else spf_dist st l))"
proof -
  have v: "vertex_ok lsdb v" "vx_child_list v = []" using ok(2) by (simp_all add: cand_ok_def)
  have tb: "table_ok st" using ok(1) by (simp add: tree_ok_def)
  note k = vertex_id_bits [OF v(1)]
  let ?b = "spf_brk st" let ?route = "spf_route hostnum ?b v"
  have core: "route_core ?route = (vx_vertex_id v, ro_path ?route, Some ?b)" "pa_cost (ro_path ?route) = vx_cost v" "pa_cost_e2 (ro_path ?route) = ucast (vx_hops v)"
    by (simp_all add: route_core_def spf_route_def Let_def)
  have look: "ospf6_route_lookup (vx_vertex_id v) (spf_table st) = None"
    using new k by (auto simp: ospf6_route_lookup_def position_None spf_dist_None)
  have "ro_prefix ?route = vx_vertex_id v" using core(1) by (simp add: route_core_def)
  with new_route_exact [of ?route "spf_table st" "clock ?b"] look obtain i table h r xs ys where
    add: "ospf6_route_add (clock ?b) ?route (spf_table st) = Some (i, table, h)" "routes st = xs @ ys" "tb_routes table = xs @ r # ys"
      "route_core r = route_core ?route" "tb_count table = tb_count (spf_table st) + 1" by auto
  have r: "ro_prefix r = vx_vertex_id v" "ro_route_option r = Some ?b" "pa_cost (ro_path r) = vx_cost v" "pa_cost_e2 (ro_path r) = ucast (vx_hops v)"
    using add(4) core by (simp_all add: route_core_def)
  from link_child_total [OF ok(1) v(1) par v(2)] obtain H' where
    H: "(case vx_parent v of None \<Rightarrow> Some ((spf_vertices st)(?b \<mapsto> v))
      | Some p \<Rightarrow> do { pv \<leftarrow> ((spf_vertices st)(?b \<mapsto> v)) p; cs \<leftarrow> alt_listnode_add_sort ((spf_vertices st)(?b \<mapsto> v)) v ?b (vx_child_list pv);
          Some (((spf_vertices st)(?b \<mapsto> v))(p \<mapsto> pv\<lparr>vx_child_list := cs\<rparr>)) }) = Some H'"
    and dom: "dom H' = insert ?b (dom (spf_vertices st))" "H' ?b = Some v"
    and old: "grown st H'" unfolding grown_def by blast
  let ?st = "st\<lparr>spf_table := table, spf_vertices := H', spf_brk := ?b + 1\<rparr>"
  have ins: "ospf6_spf_install clock hostnum v st = Some (Some ?b, ?st)"
    using look H add(1) by (simp add: ospf6_spf_install_def Let_def)
  have rs: "set (routes ?st) = insert r (set (routes st))" using add(2,3) by auto
  have nb: "route_bits r \<notin> route_bits ` set (routes st)" using new r(1) k by (auto simp: spf_dist_None route_bits_def)
  have "table_ok ?st" by (rule table_ok_insert [OF tb add(2,3,5)]) (use r(1,2) k nb dom(1) in auto)
  moreover have "route_ok lsdb ?st x" if "x \<in> set (routes ?st)" for x
  proof (cases "x = r")
    case False
    then have "route_ok lsdb st x" using that rs ok(1) by (simp add: tree_ok_def)
    from route_ok_heap [OF this old] show ?thesis by simp
  qed (use r dom(2) v(1) in \<open>auto simp: route_ok_def\<close>)
  moreover have "set (vx_child_list u) \<subseteq> dom H'" if "H' a = Some u" for a u
    unfolding dom(1) by (rule children_heap [OF old dom v(2) that])
  ultimately have tree: "tree_ok lsdb ?st" and tb': "table_ok ?st" by (simp_all add: tree_ok_def)
  have "unat (vx_hops v) < 2 ^ LENGTH(8)" by (rule unsigned_less)
  then have rd: "rdist r = vdist v" using r(3,4) by (simp add: rdist_def vdist_def unsigned_ucast_eq take_bit_nat_eq_self)
  have rb: "route_bits r = lsa_key (vx_lsa v)" using r(1) k by (simp add: route_bits_def)
  have "spf_dist ?st l = (if lsa_key l = lsa_key (vx_lsa v) then Some (vdist v) else spf_dist st l)" for l
    using spf_dist_insert [OF tb tb' rs nb, of l] unfolding rd rb .
  with ins tree dom(1) show ?thesis by auto
qed

end
