(* ===== verification/Ospf6_Spf_Props.thy ===== *)
theory Ospf6_Spf_Props
  imports Ospf6_Spf_Table Ospf6_Election
begin

text \<open>
  The shortest path calculation finds the shortest paths of the graph of the database.
\<close>

section \<open>The invariant of the loop\<close>

definition settled :: "store \<Rightarrow> spf \<Rightarrow> ospf6_lsa \<Rightarrow> (nat \<times> nat) option" where
  "settled lsdb st l = (if l \<in> vertex_lsas lsdb then spf_dist st l else None)"

definition inst :: "store \<Rightarrow> spf \<Rightarrow> ospf6_lsa set" where
  "inst lsdb st = {l \<in> vertex_lsas lsdb. spf_dist st l \<noteq> None}"

definition routers :: "ospf6_lsa set \<Rightarrow> ospf6_lsa set" where
  "routers L = {l \<in> L. type_of l = OSPF6_LSTYPE_ROUTER}"

text \<open>So many vertices that no cost reaches half of the range of its type, and so few routers
  that the hops fit into a byte.\<close>

definition lsdb_small :: "store \<Rightarrow> bool" where
  "lsdb_small lsdb \<longleftrightarrow> card (vertex_lsas lsdb) \<le> 32768 \<and> card (routers (vertex_lsas lsdb)) \<le> 255"

definition in_bounds :: "ospf6_lsa set \<Rightarrow> ospf6_vertex \<Rightarrow> bool" where
  "in_bounds I w \<longleftrightarrow> unat (vx_cost w) \<le> 65535 * card I
     \<and> unat (vx_hops w) + (if type_of (vx_lsa w) = OSPF6_LSTYPE_NETWORK then 1 else 0) \<le> card (routers I)"

abbreviation spf_search :: "store \<Rightarrow> ospf6_lsa \<Rightarrow> (ospf6_lsa \<Rightarrow> (nat \<times> nat) option) \<Rightarrow> ((nat \<times> nat) \<times> ospf6_lsa) set \<Rightarrow> bool" where
  "spf_search lsdb root \<equiv> search_inv lex_le pair_add (0, 0) (link lsdb) root"

definition spf_inv :: "store \<Rightarrow> ospf6_lsa \<Rightarrow> spf \<Rightarrow> ospf6_vertex pqueue \<Rightarrow> bool" where
  "spf_inv lsdb root st q \<longleftrightarrow> tree_ok lsdb st \<and> queue_ok q
     \<and> (\<forall>w\<in>#pq_elems q. cand_ok lsdb w \<and> (\<forall>p. vx_parent w = Some p \<longrightarrow> p \<in> dom (spf_vertices st)) \<and> in_bounds (inst lsdb st) w)
     \<and> spf_search lsdb root (settled lsdb st) (candidate_of ` set_mset (pq_elems q))"

lemma finite_vertices [simp]: "finite (vertex_lsas lsdb)"
  by (simp add: vertex_lsas_def)

lemma inst_sub: "inst lsdb st \<subseteq> vertex_lsas lsdb" "finite (inst lsdb st)"
  by (auto simp: inst_def intro: finite_subset [of _ "vertex_lsas lsdb"])

lemma routers_mono: "L \<subseteq> M \<Longrightarrow> routers L \<subseteq> routers M"
  by (auto simp: routers_def)

lemma finite_routers: "finite L \<Longrightarrow> finite (routers L)"
  by (simp add: routers_def)

lemma routers_insert: "routers (insert l L) = (if type_of l = OSPF6_LSTYPE_ROUTER then insert l (routers L) else routers L)"
  by (auto simp: routers_def)

lemma in_bounds_mono: "in_bounds I w \<Longrightarrow> I \<subseteq> J \<Longrightarrow> finite J \<Longrightarrow> in_bounds J w"
  unfolding in_bounds_def
  using card_mono [of J I] card_mono [OF finite_routers, of J "routers I"] routers_mono [of I J] by (meson le_trans mult_le_mono2)

text \<open>The next candidate, in bounds for what its links add.\<close>

lemma room_for_links:
  assumes "lsdb_small lsdb" "l \<in> vertex_lsas lsdb" "l \<notin> inst lsdb st" "in_bounds (inst lsdb st) v" "vx_lsa v = l"
  shows "unat (vx_cost v) + 65535 < 2 ^ 31" "unat (vx_hops v) + 1 < 256"
proof -
  let ?I = "inst lsdb st"
  have sub: "insert l ?I \<subseteq> vertex_lsas lsdb" using inst_sub(1) assms(2) by blast
  have "card (insert l ?I) \<le> 32768" using card_mono [OF finite_vertices sub] assms(1) by (simp add: lsdb_small_def)
  then have "card ?I \<le> 32767" using assms(3) inst_sub(2) by simp
  then show "unat (vx_cost v) + 65535 < 2 ^ 31" using assms(4) by (simp add: in_bounds_def)
  have r: "card (routers (insert l ?I)) \<le> 255"
    using card_mono [OF finite_routers [OF finite_vertices] routers_mono [OF sub]] assms(1) by (simp add: lsdb_small_def)
  show "unat (vx_hops v) + 1 < 256"
  proof (cases "type_of l = OSPF6_LSTYPE_ROUTER")
    case True
    moreover have "l \<notin> routers ?I" using assms(3) by (simp add: routers_def)
    ultimately have "card (routers ?I) \<le> 254" using r finite_routers [OF inst_sub(2)] by (simp add: routers_insert)
    then show ?thesis using assms(4,5) True by (simp add: in_bounds_def)
  next
    case False
    then have "type_of l = OSPF6_LSTYPE_NETWORK" using assms(2) by (auto simp: vertex_lsas_def spf_vertex_def)
    then show ?thesis using assms(4,5) r False by (simp add: in_bounds_def routers_insert)
  qed
qed

lemma new_in_bounds:
  assumes "in_bounds I v" "finite I" "vx_lsa v \<notin> I" "link lsdb (vx_lsa v) e (vx_lsa w)" "vdist w = pair_add (vdist v) e"
    "type_of (vx_lsa v) = OSPF6_LSTYPE_ROUTER \<or> type_of (vx_lsa v) = OSPF6_LSTYPE_NETWORK"
  shows "in_bounds (insert (vx_lsa v) I) w"
proof -
  from assms(4) obtain p b where pb: "link_at (vx_lsa v) p e (vx_lsa w) b" by (auto simp: link_def)
  have c: "unat (vx_cost w) = unat (vx_cost v) + fst e" "unat (vx_hops w) = unat (vx_hops v) + snd e"
    using assms(5) by (simp_all add: vdist_def pair_add_def)
  have cost: "unat (vx_cost w) \<le> 65535 * card (insert (vx_lsa v) I)"
    using c(1) link_at_small [OF pb] assms(1-3) by (simp add: in_bounds_def)
  show ?thesis
  proof (cases "type_of (vx_lsa v) = OSPF6_LSTYPE_ROUTER")
    case True
    from link_at_weight(1) [OF pb True] have "snd e = (if type_of (vx_lsa w) = OSPF6_LSTYPE_NETWORK then 0 else 1)" by auto
    moreover have "vx_lsa v \<notin> routers I" using assms(3) by (simp add: routers_def)
    then have "card (routers (insert (vx_lsa v) I)) = card (routers I) + 1"
      using True finite_routers [OF assms(2)] by (simp add: routers_insert)
    ultimately show ?thesis using cost c(2) assms(1) True by (simp add: in_bounds_def)
  next
    case False
    then have n: "type_of (vx_lsa v) = OSPF6_LSTYPE_NETWORK" using assms(6) by blast
    from link_at_weight(2) [OF pb n] show ?thesis using cost c(2) assms(1) n by (simp add: in_bounds_def routers_insert)
  qed
qed

section \<open>One step\<close>

lemma spf_dequeue:
  assumes "spf_inv lsdb root st q" "pq_size q \<noteq> 0"
  shows "\<exists>v q'. pqueue_dequeue q = Some (v, q') \<and> queue_ok q' \<and> pq_elems q = add_mset v (pq_elems q')
    \<and> (\<forall>w\<in>#pq_elems q'. lex_le (vdist v) (vdist w))"
proof -
  have q: "pq_cmp q = ospf6_vertex_cmp" "pq_invar q" "set_mset (pq_elems q) \<subseteq> small_costs" using assms(1) by (simp_all add: spf_inv_def queue_ok_def)
  from vertex_order.dequeue_on [OF q] assms(2) obtain v q' where d: "pqueue_dequeue q = Some (v, q')" "pq_invar q'" "pq_cmp q' = ospf6_vertex_cmp"
    "pq_elems q = add_mset v (pq_elems q')" "\<forall>w\<in>#pq_elems q. ospf6_vertex_cmp v w \<le> 0" by auto
  have "lex_le (vdist v) (vdist w)" if "w \<in># pq_elems q'" for w
  proof -
    have "v \<in> small_costs" "w \<in> small_costs" using q(3) d(4) that by auto
    then show ?thesis using d(4,5) that vertex_cmp_lex by auto
  qed
  then show ?thesis using d q(3) by (auto simp: queue_ok_def)
qed

lemma settled_new:
  assumes "lsdb_ok lsdb" "v \<in> vertex_lsas lsdb" "\<And>l. spf_dist st' l = (if lsa_key l = lsa_key v then Some d else spf_dist st l)"
  shows "settled lsdb st' = (settled lsdb st)(v \<mapsto> d)" "inst lsdb st' = insert v (inst lsdb st)"
  using assms(2,3) lsa_key_inj [OF assms(1) _ assms(2)] by (auto simp: settled_def inst_def fun_eq_iff)

lemma spf_step_known:
  assumes ok: "lsdb_ok lsdb" "spf_inv lsdb root st q" and q: "queue_ok q'" "pq_elems q = add_mset v (pq_elems q')" and d: "spf_dist st (vx_lsa v) = Some d"
  shows "\<exists>st'. ospf6_spf_install clock hostnum v st = Some (None, st') \<and> spf_inv lsdb root st' q' \<and> inst lsdb st' = inst lsdb st"
proof -
  have v: "vertex_ok lsdb v" "vx_lsa v \<in> vertex_lsas lsdb" using ok(2) q(2) by (auto simp: spf_inv_def cand_ok_def vertex_ok_def)
  have s: "spf_search lsdb root (settled lsdb st) (insert (vdist v, vx_lsa v) (candidate_of ` set_mset (pq_elems q')))"
    using ok(2) q(2) by (simp add: spf_inv_def candidate_of_def)
  have sv: "settled lsdb st (vx_lsa v) = Some d" using d v(2) by (simp add: settled_def)
  have tree: "tree_ok lsdb st" using ok(2) by (simp add: spf_inv_def)
  from install_known [OF tree v(1) d lex_weights.settled_below [OF s sv], of clock hostnum] obtain st' where
    st': "ospf6_spf_install clock hostnum v st = Some (None, st')" "tree_ok lsdb st'" "spf_vertices st' = spf_vertices st" "spf_dist st' = spf_dist st" by blast
  have same: "inst lsdb st' = inst lsdb st" "settled lsdb st' = settled lsdb st" by (simp_all add: inst_def settled_def st'(4) fun_eq_iff)
  have "spf_inv lsdb root st' q'"
    using ok(2) q lex_weights.search_drop [OF s sv] st'(2) unfolding spf_inv_def same st'(3) by simp
  with st'(1) same(1) show ?thesis by blast
qed

lemma spf_step_new:
  assumes ok: "lsdb_ok lsdb" "lsdb_small lsdb" "ifs_ok ifs top_st" "spf_inv lsdb root st q" and q: "queue_ok q'" "pq_elems q = add_mset v (pq_elems q')"
      "\<forall>w\<in>#pq_elems q'. lex_le (vdist v) (vdist w)" and d: "spf_dist st (vx_lsa v) = None"
  shows "\<exists>a st' q''. ospf6_spf_install clock hostnum v st = Some (Some a, st') \<and> spf_links ifs top_st lsdb v a (vertex_lsdescs v) q' = Some q''
    \<and> spf_inv lsdb root st' q'' \<and> inst lsdb st' = insert (vx_lsa v) (inst lsdb st) \<and> vx_lsa v \<in> vertex_lsas lsdb - inst lsdb st"
proof -
  let ?I = "inst lsdb st" let ?l = "vx_lsa v"
  have v: "cand_ok lsdb v" "\<And>p. vx_parent v = Some p \<Longrightarrow> p \<in> dom (spf_vertices st)" "in_bounds ?I v" using ok(4) q(2) by (auto simp: spf_inv_def)
  have vo: "vertex_ok lsdb v" "?l \<in> vertex_lsas lsdb" using v(1) by (simp_all add: cand_ok_def vertex_ok_def)
  have fresh: "?l \<notin> ?I" using d by (simp add: inst_def)
  have tree: "tree_ok lsdb st" using ok(4) by (simp add: spf_inv_def)
  from install_new [OF tree v(1,2) d, of clock hostnum] obtain st' where
    st': "ospf6_spf_install clock hostnum v st = Some (Some (spf_brk st), st')" "tree_ok lsdb st'" "dom (spf_vertices st') = insert (spf_brk st) (dom (spf_vertices st))"
      "\<And>l. spf_dist st' l = (if lsa_key l = lsa_key ?l then Some (vdist v) else spf_dist st l)" by blast
  note new = settled_new [OF ok(1) vo(2) st'(4)]
  note room = room_for_links [OF ok(2) vo(2) fresh v(3) refl]
  from spf_links_exact [OF ok(1) vo(1) ok(3) room order_refl q(1), of "spf_brk st"] obtain q'' ws where
    l: "spf_links ifs top_st lsdb v (spf_brk st) (lsa_lsdescs ?l) q' = Some q''" "queue_ok q''" "pq_elems q'' = mset ws + pq_elems q'"
      "\<forall>w\<in>set ws. cand_ok lsdb w \<and> vx_parent w = Some (spf_brk st)"
      "candidate_of ` set ws = edges_from pair_add (\<lambda>l. links_over lsdb l (lsa_lsdescs ?l)) (vdist v) ?l" by blast
  have edges: "candidate_of ` set ws = edges_from pair_add (link lsdb) (vdist v) ?l"
    unfolding l(5) by (simp add: edges_from_def links_over_all)
  have s: "spf_search lsdb root (settled lsdb st) (insert (vdist v, ?l) (candidate_of ` set_mset (pq_elems q')))"
    using ok(4) q(2) by (simp add: spf_inv_def candidate_of_def)
  have sv: "settled lsdb st ?l = None" using d by (simp add: settled_def)
  have "spf_search lsdb root (settled lsdb st') (candidate_of ` set_mset (pq_elems q''))"
  proof -
    have "lex_le (vdist v) c" if "(c, u) \<in> candidate_of ` set_mset (pq_elems q')" for c u using q(3) that by (auto simp: candidate_of_def)
    from lex_weights.search_settle [OF s sv this] show ?thesis unfolding new(1) l(3) set_mset_union image_Un set_mset_mset edges by (simp only: Un_commute)
  qed
  moreover have "in_bounds (insert ?l ?I) w" if "w \<in> set ws" for w
  proof -
    have "candidate_of w \<in> edges_from pair_add (link lsdb) (vdist v) ?l" using that edges by blast
    then obtain e where "vdist w = pair_add (vdist v) e" "link lsdb ?l e (vx_lsa w)" by (auto simp: edges_from_def candidate_of_def)
    then show ?thesis using new_in_bounds [OF v(3) inst_sub(2) fresh] vertex_type(3) [OF vo(1)] by blast
  qed
  moreover have "in_bounds (insert ?l ?I) w" if "w \<in># pq_elems q'" for w
    by (rule in_bounds_mono [of ?I]) (use ok(4) q(2) that inst_sub(2) in \<open>auto simp: spf_inv_def\<close>)
  ultimately have "spf_inv lsdb root st' q''"
    using ok(4) q(2) st'(2,3) l(2-4) unfolding spf_inv_def new(2) by auto
  with st'(1) l(1) new(2) fresh vo vertex_type(5) [OF vo(1)] show ?thesis by auto
qed

section \<open>The loop\<close>

lemma spf_loop_total:
  assumes ok: "lsdb_ok lsdb" "lsdb_small lsdb" "ifs_ok ifs top_st"
  shows "spf_inv lsdb root st q \<Longrightarrow> \<exists>st'. spf_loop clock hostnum ifs top_st lsdb q st = Some st' \<and> tree_ok lsdb st'
    \<and> spf_search lsdb root (settled lsdb st') {}"
proof (induction "(card (vertex_lsas lsdb - inst lsdb st), size (pq_elems q))" arbitrary: st q rule: wf_induct_rule [OF wf_lex_prod [OF wf_less_than wf_less_than]])
  case (1 st q)
  have inv: "spf_inv lsdb root st q" by (rule 1)
  show ?case
  proof (cases "pq_size q = 0")
    case True
    have "pq_invar q" using inv by (simp add: spf_inv_def queue_ok_def)
    then have "pq_elems q = {#}" using True pq_elems_size by (metis size_eq_0_iff_empty)
    with True inv show ?thesis by (subst spf_loop.simps) (simp add: spf_inv_def)
  next
    case False
    from spf_dequeue [OF inv False] obtain v q' where q': "pqueue_dequeue q = Some (v, q')" "queue_ok q'" "pq_elems q = add_mset v (pq_elems q')"
      "\<forall>w\<in>#pq_elems q'. lex_le (vdist v) (vdist w)" by blast
    show ?thesis
    proof (cases "spf_dist st (vx_lsa v)")
      case (Some d)
      from spf_step_known [OF ok(1) inv q'(2,3) Some, of clock hostnum] obtain st' where
        s: "ospf6_spf_install clock hostnum v st = Some (None, st')" "spf_inv lsdb root st' q'" "inst lsdb st' = inst lsdb st" by blast
      have "\<exists>st''. spf_loop clock hostnum ifs top_st lsdb q' st' = Some st'' \<and> tree_ok lsdb st'' \<and> spf_search lsdb root (settled lsdb st'') {}"
        by (rule 1(1) [OF _ s(2)]) (simp add: s(3) q'(3))
      with False q'(1) s(1) show ?thesis by (subst spf_loop.simps) simp
    next
      case None
      from spf_step_new [OF ok inv q'(2-4) None, of clock hostnum] obtain a st' q'' where
        s: "ospf6_spf_install clock hostnum v st = Some (Some a, st')" "spf_links ifs top_st lsdb v a (vertex_lsdescs v) q' = Some q''"
          "spf_inv lsdb root st' q''" "inst lsdb st' = insert (vx_lsa v) (inst lsdb st)" "vx_lsa v \<in> vertex_lsas lsdb - inst lsdb st" by blast
      have "card (vertex_lsas lsdb - inst lsdb st') < card (vertex_lsas lsdb - inst lsdb st)"
        unfolding s(4) by (rule psubset_card_mono) (use s(5) in auto)
      then have "\<exists>st''. spf_loop clock hostnum ifs top_st lsdb q'' st' = Some st'' \<and> tree_ok lsdb st'' \<and> spf_search lsdb root (settled lsdb st'') {}"
        by (intro 1(1) [OF _ s(3)]) simp
      with False q'(1) s(1,2) show ?thesis by (subst spf_loop.simps) simp
    qed
  qed
qed

section \<open>The calculation\<close>

lemma spf_root_exact:
  assumes "lsdb_ok lsdb" "l \<in> vertex_lsas lsdb"
  shows "\<exists>v. spf_root l = Some v \<and> cand_ok lsdb v \<and> vx_lsa v = l \<and> vx_parent v = None \<and> vdist v = (0, 0)"
proof -
  from vertex_create_exact [OF assms] obtain w where w: "ospf6_vertex_create l = Some w" "vertex_ok lsdb w" "vx_lsa w = l"
    "vx_parent w = None" "vx_child_list w = []" by blast
  have "0 < length (vx_nexthop w)" using w(2) by (simp add: vertex_ok_def OSPF6_MULTI_PATH_LIMIT_def)
  with w show ?thesis by (auto simp: spf_root_def wr_def cand_ok_def vertex_ok_def vdist_def)
qed

lemma tree_ok_empty:
  assumes "table_ok st" "routes st = []"
  shows "tree_ok lsdb st" "spf_vertices st = Map.empty" "settled lsdb st = (\<lambda>_. None)" "inst lsdb st = {}"
proof -
  show e: "spf_vertices st = Map.empty" using assms by (auto simp: table_ok_def fun_eq_iff)
  show "tree_ok lsdb st" using assms e by (simp add: tree_ok_def)
  show "settled lsdb st = (\<lambda>_. None)" "inst lsdb st = {}" using assms(2) by (simp_all add: settled_def inst_def spf_dist_def fun_eq_iff)
qed

lemma spf_inv_start:
  assumes "table_ok st" "routes st = []" "cand_ok lsdb v" "vx_lsa v = root" "type_of root = OSPF6_LSTYPE_ROUTER" "vx_parent v = None" "vdist v = (0, 0)"
    "queue_ok q" "pq_elems q = {#v#}"
  shows "spf_inv lsdb root st q"
proof -
  note e = tree_ok_empty [OF assms(1,2)]
  have "in_bounds {} v" using assms(4,5,7) by (simp add: in_bounds_def vdist_def)
  moreover have "spf_search lsdb root (\<lambda>_. None) (candidate_of ` set_mset (pq_elems q))"
    using lex_weights.search_start assms(4,7,9) by (simp add: candidate_of_def)
  ultimately show ?thesis using assms e by (simp add: spf_inv_def)
qed

text \<open>A distance in cost and hops is that of a shortest path from the root: costs count first, hops
  decide between paths of the same cost.\<close>

definition shortest :: "store \<Rightarrow> ospf6_lsa \<Rightarrow> nat \<times> nat \<Rightarrow> ospf6_lsa \<Rightarrow> bool" where
  "shortest lsdb root d l \<longleftrightarrow> walk pair_add (0, 0) (link lsdb) root d l \<and> (\<forall>x. walk pair_add (0, 0) (link lsdb) root x l \<longrightarrow> lex_le d x)"

lemma tree_routes:
  assumes "tree_ok lsdb st" "r \<in> set (routes st)"
  shows "\<exists>l\<in>vertex_lsas lsdb. route_bits r = lsa_key l"
proof -
  from assms obtain v where v: "vertex_ok lsdb v" "ro_prefix r = vx_vertex_id v" by (auto simp: tree_ok_def route_ok_def)
  then have "vx_lsa v \<in> vertex_lsas lsdb" by (simp add: vertex_ok_def)
  with v vertex_id_bits show ?thesis by (auto simp: route_bits_def)
qed

text \<open>
  C2. The calculation always completes, from any table that an earlier calculation left, and
  without reading behind an LSA. Without a router LSA of the router itself it leaves an empty table. Otherwise the table
  has a route for exactly the vertices that can be reached from the root over links which both ends
  describe, and its cost and its hops are those of a shortest path. The database has at most 32768
  vertices, of which at most 255 are routers: so many costs fit into half of 32 bits, and so many hops
  into a byte.
\<close>

theorem spf_calculation_shortest:
  assumes "lsdb_ok lsdb" "lsdb_small lsdb" "ifs_ok ifs top_st" "table_ok st"
  shows "\<exists>st'. ospf6_spf_calculation clock ifs top_st router_id lsdb hostnum st = Some st' \<and> table_ok st'
    \<and> (case store_lookup OSPF6_LSTYPE_ROUTER 0 router_id lsdb of
         None \<Rightarrow> routes st' = [] \<and> spf_vertices st' = Map.empty
       | Some root \<Rightarrow> (\<forall>l\<in>vertex_lsas lsdb. \<forall>d. spf_dist st' l = Some d \<longleftrightarrow> shortest lsdb root d l)
           \<and> (\<forall>r\<in>set (routes st'). \<exists>l\<in>vertex_lsas lsdb. route_bits r = lsa_key l))"
proof -
  from finish_total [OF assms(4)] obtain st0 where st0: "ospf6_spf_table_finish st = Some st0" "table_ok st0" "routes st0 = []" by blast
  show ?thesis
  proof (cases "store_lookup OSPF6_LSTYPE_ROUTER 0 router_id lsdb")
    case None
    with st0 tree_ok_empty(2) [OF st0(2,3)] show ?thesis by (simp add: ospf6_spf_calculation_def)
  next
    case (Some root)
    note m = lookup_mem [OF Some]
    have "root \<in> vertex_lsas lsdb" using m by (simp add: vertex_lsas_def spf_vertex_def)
    from spf_root_exact [OF assms(1) this] obtain v where
      v: "spf_root root = Some v" "cand_ok lsdb v" "vx_lsa v = root" "vx_parent v = None" "vdist v = (0, 0)" by blast
    have "queue_ok (pqueue_create vertex_null ospf6_vertex_cmp)" "v \<in> small_costs" using v(5) by (simp_all add: queue_ok_def small_costs_def vdist_def)
    from enqueue_ok [OF this, of vertex_null] obtain q where
      q: "pqueue_enqueue vertex_null True v (pqueue_create vertex_null ospf6_vertex_cmp) = Some q" "queue_ok q" "pq_elems q = {#v#}" by auto
    have "spf_inv lsdb root st0 q" by (rule spf_inv_start [OF st0(2,3) v(2,3) m(2) v(4,5) q(2,3)])
    from spf_loop_total [OF assms(1-3) this, of clock hostnum] obtain st' where
      st': "spf_loop clock hostnum ifs top_st lsdb q st0 = Some st'" "tree_ok lsdb st'" "spf_search lsdb root (settled lsdb st') {}" by blast
    have "spf_dist st' l = Some d \<longleftrightarrow> shortest lsdb root d l" if "l \<in> vertex_lsas lsdb" for l d
      using lex_weights.search_done [OF st'(3), of l d] that by (simp add: settled_def shortest_def)
    moreover have "table_ok st'" using st'(2) by (simp add: tree_ok_def)
    ultimately show ?thesis using Some st0(1) v(1) q(1) st'(1) tree_routes [OF st'(2)] by (simp add: ospf6_spf_calculation_def)
  qed
qed

text \<open>Two routers on a point-to-point link and on a transit network.\<close>

definition example_link :: "u8 \<Rightarrow> u16 \<Rightarrow> u32 \<Rightarrow> u32 \<Rightarrow> u32 \<Rightarrow> u8 list" where
  "example_link t m i n r = [t, 0] @ be16 m @ be32 i @ be32 n @ be32 r"

definition example_vertex :: "u16 \<Rightarrow> u32 \<Rightarrow> u32 \<Rightarrow> u8 list \<Rightarrow> ospf6_lsa" where
  "example_vertex t i r ds = lsa_zero \<lparr>lh_age = 0, lh_type = t, lh_id = i, lh_adv_router = r, lh_seqnum = 0, lh_checksum = 0,
     lh_length = word_of_nat (24 + length ds)\<rparr> ([0, 0, 0, 0] @ ds)"

definition example_lsdb :: store where
  "example_lsdb = [example_vertex OSPF6_LSTYPE_ROUTER 0 10 (example_link 1 7 1 2 20 @ example_link 2 3 5 6 20),
     example_vertex OSPF6_LSTYPE_ROUTER 0 20 (example_link 1 9 2 1 10 @ example_link 2 1 6 6 20), example_vertex OSPF6_LSTYPE_NETWORK 6 20 (be32 10 @ be32 20)]"

definition example_spf :: spf where
  "example_spf = \<lparr>spf_table = ospf6_route_table_create 2 5, spf_vertices = Map.empty, spf_brk = 0\<rparr>"

lemma example_lsdb_ok: "lsdb_ok example_lsdb" "lsdb_small example_lsdb"
proof -
  show "lsdb_ok example_lsdb" by code_simp
  have sub: "vertex_lsas example_lsdb \<subseteq> set example_lsdb" by (auto simp: vertex_lsas_def)
  have "card (set example_lsdb) \<le> 3" using card_length [of example_lsdb] by (simp add: example_lsdb_def)
  then have "card (vertex_lsas example_lsdb) \<le> 3" using card_mono [OF _ sub] by simp
  moreover have "routers (vertex_lsas example_lsdb) \<subseteq> vertex_lsas example_lsdb" by (auto simp: routers_def)
  then have "card (routers (vertex_lsas example_lsdb)) \<le> card (vertex_lsas example_lsdb)" by (rule card_mono [OF finite_vertices])
  ultimately show "lsdb_small example_lsdb" by (simp add: lsdb_small_def)
qed

theorem spf_calculation_shortest_witness:
  "\<exists>st'. ospf6_spf_calculation (\<lambda>_. timeval_zero) [[(5, None)]] example_ospf6 10 example_lsdb 0 example_spf = Some st'
     \<and> spf_dist st' (hd example_lsdb) = Some (0, 0)"
proof -
  have ifs: "ifs_ok [[(5, None)]] example_ospf6" by (simp add: ifs_ok_def)
  have tb: "table_ok example_spf" by (simp add: table_ok_def example_spf_def ospf6_route_table_create_def)
  have root: "store_lookup OSPF6_LSTYPE_ROUTER 0 10 example_lsdb = Some (hd example_lsdb)" by code_simp
  have "hd example_lsdb \<in> vertex_lsas example_lsdb" by code_simp
  moreover have "shortest example_lsdb (hd example_lsdb) (0, 0) (hd example_lsdb)" by (auto simp: shortest_def lex_le_def intro: walk_start)
  ultimately show ?thesis using spf_calculation_shortest [OF example_lsdb_ok ifs tb, of "\<lambda>_. timeval_zero" 10 0] unfolding root by auto
qed

section \<open>Router ids that begin with 1\<close>

lemma backlinks_None: "b \<in> set bs \<Longrightarrow> points_back l' b p v = None \<Longrightarrow> backlinks l' bs p v f = None"
proof (induction bs arbitrary: f)
  case (Cons c bs)
  then show ?case by (cases "points_back l' c p v") auto
qed simp

text \<open>
  C40. Looking for the link back to a network reads behind the network LSA if the last router id in it
  begins with the byte 1, as that of the router 1.1.1.1 does, and this router also has a point-to-point link:
  the first byte of the router id is taken for the type of a point-to-point description of 16 bytes, of which only
  4 are there. The database may otherwise be in order.
\<close>

theorem backlink_reads_behind_network:
  assumes "is_network v" "p + 4 = length (lsa_body (vx_lsa v))"
    "ROUTER_LSDESC_TYPE (vx_lsa v) p = Some 1" "ospf6_lsdesc_lsa p v lsdb = Some (Some l')" "body_end l' = length (lsa_body l')"
    "b \<in> set (lsa_lsdescs l')" "ROUTER_LSDESC_TYPE l' b = Some OSPF6_ROUTER_LSDESC_POINTTOPOINT"
  shows "ospf6_lsdesc_backlink l' p v = None"
proof -
  obtain r where "store_lookup OSPF6_LSTYPE_ROUTER 0 r lsdb = Some l'" using assms(1,4) by (auto simp: ospf6_lsdesc_lsa_def split: bind_splits)
  note m = lookup_mem [OF this]
  have "b + 16 \<le> length (lsa_body l')"
    using lsdescs_bounds [of b 4 16 "body_end l'"] assms(5,6) m(2) by (simp add: lsa_lsdescs_def router_lsdesc_size_def)
  from router_fields [OF this] obtain i where i: "ROUTER_LSDESC_GET_NBR_IFID l' b = Some i" by blast
  have "ROUTER_LSDESC_GET_IFID (vx_lsa v) p = None"
    using assms(2) by (simp add: ROUTER_LSDESC_GET_IFID_def get_u32_def rd_def)
  then have "pointtopoint_back l' b p v = None" using assms(3,7) i by (simp add: pointtopoint_back_def OSPF6_ROUTER_LSDESC_POINTTOPOINT_def)
  moreover have "transit_back l' b v = Some False" using assms(7) by (simp add: transit_back_def)
  ultimately have "points_back l' b p v = None" using m(2) assms(1) by (simp add: points_back_def)
  then show ?thesis unfolding ospf6_lsdesc_backlink_def by (rule backlinks_None [OF assms(6)])
qed

text \<open>The routers 10 and 1.1.1.1 on a network, and a point-to-point link between them.\<close>

definition example_lsdb_1 :: store where
  "example_lsdb_1 = [example_vertex OSPF6_LSTYPE_ROUTER 0 10 (example_link 2 3 5 6 10 @ example_link 1 7 1 2 0x01010101),
     example_vertex OSPF6_LSTYPE_ROUTER 0 0x01010101 (example_link 2 1 6 6 10 @ example_link 1 9 2 1 10),
     example_vertex OSPF6_LSTYPE_NETWORK 6 10 (be32 10 @ be32 0x01010101)]"

theorem backlink_reads_behind_network_witness:
  "\<exists>v. ospf6_vertex_create (example_lsdb_1 ! 2) = Some v \<and> ospf6_lsdesc_lsa 8 v example_lsdb_1 = Some (Some (example_lsdb_1 ! 1))
     \<and> ospf6_lsdesc_backlink (example_lsdb_1 ! 1) 8 v = None"
proof -
  define v where "v = the (ospf6_vertex_create (example_lsdb_1 ! 2))"
  have v: "ospf6_vertex_create (example_lsdb_1 ! 2) = Some v" unfolding v_def by code_simp
  have h: "is_network v" "8 + 4 = length (lsa_body (vx_lsa v))" "ROUTER_LSDESC_TYPE (vx_lsa v) 8 = Some 1"
    "ospf6_lsdesc_lsa 8 v example_lsdb_1 = Some (Some (example_lsdb_1 ! 1))" "body_end (example_lsdb_1 ! 1) = length (lsa_body (example_lsdb_1 ! 1))"
    "20 \<in> set (lsa_lsdescs (example_lsdb_1 ! 1))" "ROUTER_LSDESC_TYPE (example_lsdb_1 ! 1) 20 = Some OSPF6_ROUTER_LSDESC_POINTTOPOINT"
    unfolding v_def by code_simp+
  from v h(4) backlink_reads_behind_network [OF h] show ?thesis by blast
qed

end
