(* ===== verification/Spec2Isabelle.thy ===== *)
theory Spec2Isabelle
  imports Lib_PQueue Ctrl_Sib_Vote Ctrl_Sib_Redist Ospf6_Lsdb_Props Lib_Thread_Props Ospf6_Nsm_Props Ospf6_Flood_Props Ospf6_Send_Props
    Ospf6_Spf_Props
begin

text \<open>
  A verification of the fault-tolerant routing platform in \<open>src/\<close>.

  \<^bold>\<open>The program.\<close> A controller (\<open>controller/\<close>) stands between routers and several redundant
  routing processes, the siblings (\<open>ospf6-sibling/\<close>, \<open>bgp-sibling/\<close>). Messages of a router
  are copied to every sibling; what the siblings want to send is compared and forwarded
  to the router when a majority agrees. A sibling is an OSPFv3 process: packets drive the
  state machines of neighbours and interfaces, link state advertisements (LSAs) are flooded
  and kept in databases, from which routes are computed. Both sides share a library (\<open>lib/\<close>):
  prefixes, a radix tree, lists, vectors, a priority queue, message buffers and a
  cooperative scheduler.

  \<^bold>\<open>How code becomes definitions.\<close> A struct is a record, an enumeration a datatype, a
  machine integer a word of its width; objects that are reached through pointers live in a
  store, a map from addresses. A function is a definition of the same name that takes
  and returns the state it changes; loops are recursive functions. The result \<open>None\<close> stands
  for an execution without defined behaviour: a failed assertion, a null or dangling
  pointer, an access out of bounds, an overflow of a signed integer. The readings of the
  clock, the answers of \<open>select\<close>, whether a send writes all of its buffer and the contents of
  uninitialised variables are arguments.
  Log output and text names are left out.

  \<^bold>\<open>Shared theories.\<close> \<open>Prelude\<close> has the machine integers, arrays and bit strings, \<open>Lib_Links\<close>
  sequences of doubly linked nodes in a store, \<open>Lib_Wp\<close> preconditions of computations in the
  option monad.

  \<^bold>\<open>Library components.\<close>
  \<^item> \<open>Lib_Prefix\<close> (\<open>lib/prefix.c\<close>): matching, comparison and masking of prefixes, shown to
    be what they are on bit strings.
  \<^item> \<open>Lib_Table\<close> (\<open>lib/table.c\<close>): every operation of the radix tree. \<open>Lib_Table_Inv\<close> has
    its invariant, \<open>_Lookup\<close>, \<open>_Common\<close>, \<open>_Ctx\<close>, \<open>_Get\<close>, \<open>_Del\<close>, \<open>_Walk\<close>, \<open>_Iter\<close> and
    \<open>_Tidy\<close> prove search, insertion, deletion and iteration, \<open>_Map\<close> the interface \<open>prefix_map\<close>:
    a table is a map from bit strings. \<open>_Del\<close> also shows that a released lock leaves no unused
    node behind, \<open>_Iter\<close> that a loop over \<open>route_top\<close> and \<open>route_next\<close> meets the entries in order
    and gives back the locks it takes.
  \<^item> \<open>Lib_PQueue\<close> (\<open>lib/pqueue.c\<close>): the array heap, an instance of a locale of priority queues.
  \<^item> \<open>Lib_Dblist\<close> (\<open>lib/dblist.c\<close>), \<open>Lib_Vector\<close> (\<open>lib/vector.c\<close>): circular lists as queues,
    growing arrays.
  \<^item> \<open>Lib_Rfpbuf\<close> (\<open>lib/rfpbuf.c\<close>, \<open>lib/rfp-msgs.c\<close>): message buffers with uninitialised
    bytes, the encoding of message headers.
  \<^item> \<open>Lib_Timeval\<close> and \<open>Lib_Thread\<close> (\<open>lib/thread.c\<close>): time arithmetic and the scheduler.
    \<open>Lib_Thread_Inv\<close>, \<open>_Sched\<close>, \<open>_Ops\<close>, \<open>_Fetch\<close> prove that its seven lists always hold every
    thread once; \<open>_Props\<close> that events run in order (locale \<open>fifo\<close>) and expired timers run.

  \<^bold>\<open>The controller.\<close>
  \<^item> \<open>Ctrl_Rib\<close> (\<open>controller/rib.c\<close>): routing tables over the radix tree.
  \<^item> \<open>Ctrl_Sib_Router\<close> (\<open>controller/sib_router.c\<close>): connections of siblings, their handshake,
    queues, voting, leader election, redistribution. \<open>Ctrl_Sib_Inv\<close> proves the invariant of
    the sibling table over all runs, \<open>Ctrl_Sib_Vote\<close> what a vote guarantees (a locale of
    majority decisions) and where it fails to, \<open>Ctrl_Sib_Redist\<close> that redistribution is
    complete.

  \<^bold>\<open>The OSPFv3 sibling.\<close>
  \<^item> \<open>Ospf6_Lsa\<close> (\<open>ospf6_lsa.c\<close>): age, comparison, copies, checksum; \<open>Ospf6_Lsa_Checksum\<close>
    proves the checksum to be Fletcher's.
  \<^item> \<open>Ospf6_Lsdb\<close> (\<open>ospf6_lsdb.c\<close>): the database as radix tree, linked list and counter;
    \<open>Ospf6_Lsdb_Inv\<close>, \<open>_Ops\<close>, \<open>_Seq\<close>, \<open>_Props\<close> prove that all three represent one sequence in
    the order of the keys. The components above use a database as that sequence.
  \<^item> \<open>Ospf6_Data\<close>: neighbours, interfaces, areas and the process (\<open>ospf6_neighbor.h\<close>,
    \<open>ospf6_interface.h\<close>, \<open>ospf6_area.h\<close>, \<open>ospf6_top.h\<close>) and the actions handlers ask for.
  \<^item> \<open>Ospf6_Neighbor\<close> (\<open>ospf6_neighbor.c\<close>) and \<open>Ospf6_Interface\<close> (\<open>ospf6_interface.c\<close>): the
    event handlers and the election of designated routers. \<open>Ospf6_Election\<close> proves the
    election (locale \<open>choice\<close>), \<open>Ospf6_Nsm\<close> that the handlers implement the neighbour
    state machine.
  \<^item> \<open>Ospf6_Flood\<close> and \<open>Ospf6_Receive\<close> (\<open>ospf6_flood.c\<close>): flooding, installation, origination,
    acknowledgement and reception of LSAs. \<open>Ospf6_Flood_Inv\<close> proves what flooding leaves
    alone, \<open>Ospf6_Receive_Props\<close> when a database changes, \<open>Ospf6_Flood_Total\<close> that
    flooding returns, \<open>Ospf6_Flood_Out\<close> what it schedules, \<open>Ospf6_Flood_Props\<close> which neighbours
    get the LSA.
  \<^item> \<open>Ospf6_Message\<close> (\<open>ospf6_message.c\<close>): received packets, as lists of bytes, and the handlers
    \<open>ospf6_receive\<close> dispatches to; \<open>Ospf6_Send\<close>: the senders. \<open>Ospf6_Message_Props\<close> proves that
    an update packet is the sequence of its LSAs and that a Hello makes a neighbour,
    \<open>Ospf6_Send_Props\<close> that what one router sends another one receives.
  \<^item> \<open>Ospf6_Route\<close> (\<open>ospf6_route.c\<close>): tables of routes, as sequences. \<open>Ospf6_Spf\<close>
    (\<open>ospf6_spf.c\<close>): the shortest path calculation on the database of an area, with the
    priority queue of \<open>Lib_PQueue\<close>; links are read from the bytes of the LSAs.
    \<open>Ospf6_Spf_Links\<close> defines the graph that a database describes and proves that the
    code follows exactly its edges, \<open>Ospf6_Spf_Search\<close> what an installed vertex adds to the
    candidates, \<open>Ospf6_Spf_Table\<close> how the table changes, \<open>Ospf6_Spf_Props\<close> that the
    result is the shortest paths, by the argument for Dijkstra's algorithm in the locale
    \<open>path_weights\<close> of \<open>Lib_Paths\<close>. The comparison of candidates is an order only as long as costs
    stay below half of the range of their type; \<open>Lib_PQueue_On\<close> has the laws of the
    queue for such an order.
  \<^item> \<open>Ospf6_Wf\<close>, \<open>Ospf6_Message_Wf\<close>, \<open>Ospf6_Nsm_Props\<close>: runs of all these events and packets keep
    the objects consistent.

  \<^bold>\<open>Bounds.\<close> Reference counts are words of their width; the operations that raise them ask
  for room (\<open>slack\<close> for the locks of tree nodes, \<open>few_locks\<close> for iterations). Walks along a
  table or a database are stated with a number of steps, which the theorems show to be
  enough: the number of entries. The loop of the shortest path calculation is a partial
  function, shown to return for databases of at most 32768 vertices, so that 16-bit metrics
  add up to less than half of 32 bits, and at most 255 routers, so that hops fit into their
  byte. The scheduler's main loop takes the list of the polls it
  makes, any number of them.

  \<^bold>\<open>Not modelled.\<close> Sockets, connections and dispatch (\<open>lib/vconn.c\<close>, \<open>rconn.c\<close>, \<open>stream*.c\<close>,
  \<open>socket-util.c\<close>, \<open>controller/router.c\<close>, \<open>ctrl_client.c\<close>, \<open>sibling_ctrl.c\<close>), the data plane
  agent and the punter (\<open>zl/\<close>, \<open>punter/\<close>), kernel and naming services (\<open>netlink.c\<close>,
  \<open>sisis*.c\<close>) are I/O. Checkpoints (\<open>ospf6_replica.c\<close>, \<open>ospf6_restart.c\<close>, \<open>ospf6_db.c\<close>,
  \<open>db.c\<close>) are I/O over the client library of a store that is not part of the sources.
  \<open>json_parser.c\<close> and \<open>json_lexer.c\<close> are generated. The command line (\<open>command.c\<close>, \<open>vty.c\<close>)
  is configuration. What the shortest paths are used for and the origination of LSAs
  (\<open>ospf6_intra.c\<close>, \<open>ospf6_abr.c\<close>, \<open>ospf6_asbr.c\<close>) is outside the model.
\<close>

end
